(* ===== verification/Prelude.thy ===== *)
theory Prelude
  imports Main "HOL-Library.Word" "HOL-Library.Monad_Syntax"
begin

text \<open>
  What the components share: the collections of the development, facts on \<open>option\<close> used as the
  result of a computation with fuel, and the functions of the C library the sources call on
  strings. A C string is a \<open>char list\<close> without its final NUL; a pointer into a string is the
  suffix that starts there, so that \<open>*p == '\0'\<close> is \<open>s = []\<close>.
\<close>

named_theorems fuel_intros \<open>enough fuel gives a result\<close>
named_theorems size_bounds \<open>sizes that a rewriting step never increases\<close>

section \<open>Results of computations with fuel\<close>

lemma bind_Some_iff [simp]:
  "(Option.bind x f = Some y) \<longleftrightarrow> (\<exists>a. x = Some a \<and> f a = Some y)"
  by (cases x) auto

lemma bind_None_iff [simp]:
  "(Option.bind x f = None) \<longleftrightarrow> (x = None \<or> (\<exists>a. x = Some a \<and> f a = None))"
  by (cases x) auto

section \<open>Character classes (C locale)\<close>

type_synonym cstr = "char list"

definition chr_code :: "char \<Rightarrow> nat" where
  "chr_code c = of_char c"

definition c_isspace :: "char \<Rightarrow> bool" where
  "c_isspace c = (chr_code c = 32 \<or> (9 \<le> chr_code c \<and> chr_code c \<le> 13))"

definition c_isdigit :: "char \<Rightarrow> bool" where
  "c_isdigit c = (48 \<le> chr_code c \<and> chr_code c \<le> 57)"

definition c_isupper :: "char \<Rightarrow> bool" where
  "c_isupper c = (65 \<le> chr_code c \<and> chr_code c \<le> 90)"

definition c_islower :: "char \<Rightarrow> bool" where
  "c_islower c = (97 \<le> chr_code c \<and> chr_code c \<le> 122)"

definition c_isalpha :: "char \<Rightarrow> bool" where
  "c_isalpha c = (c_isupper c \<or> c_islower c)"

definition c_isalnum :: "char \<Rightarrow> bool" where
  "c_isalnum c = (c_isalpha c \<or> c_isdigit c)"

definition c_isxdigit :: "char \<Rightarrow> bool" where
  "c_isxdigit c = (c_isdigit c \<or> (65 \<le> chr_code c \<and> chr_code c \<le> 70)
     \<or> (97 \<le> chr_code c \<and> chr_code c \<le> 102))"

lemmas ctype_defs = chr_code_def c_isspace_def c_isdigit_def c_isupper_def c_islower_def
  c_isalpha_def c_isalnum_def c_isxdigit_def

section \<open>String comparison\<close>

text \<open>\<open>strcmp\<close>: the sign of the first difference, as \<open>unsigned char\<close>; a string that ends
  first is smaller.\<close>

fun c_strcmp :: "cstr \<Rightarrow> cstr \<Rightarrow> int" where
  "c_strcmp [] [] = 0"
| "c_strcmp [] (b # bs) = -1"
| "c_strcmp (a # as) [] = 1"
| "c_strcmp (a # as) (b # bs) =
     (if a = b then c_strcmp as bs else if chr_code a < chr_code b then -1 else 1)"

lemma c_strcmp_refl [simp]: "c_strcmp s s = 0"
  by (induction s) auto

lemma c_strcmp_eq_0 [simp]: "c_strcmp s t = 0 \<longleftrightarrow> s = t"
  by (induction s t rule: c_strcmp.induct) auto

text \<open>\<open>strncmp(s, lit, strlen(lit)) == 0\<close>: the string starts with the literal.\<close>

fun starts_with :: "cstr \<Rightarrow> cstr \<Rightarrow> bool" where
  "starts_with s [] = True"
| "starts_with [] (p # ps) = False"
| "starts_with (c # cs) (p # ps) = (c = p \<and> starts_with cs ps)"

lemma starts_with_append [simp]: "starts_with (p @ s) p"
  by (induction p) auto

lemma starts_with_take: "starts_with s p \<Longrightarrow> take (length p) s = p"
  by (induction s p rule: starts_with.induct) auto

lemma starts_with_drop: "starts_with s p \<Longrightarrow> s = p @ drop (length p) s"
  by (induction s p rule: starts_with.induct) auto

lemma starts_with_length: "starts_with s p \<Longrightarrow> length p \<le> length s"
  by (induction s p rule: starts_with.induct) auto

section \<open>strtoll and strtoull\<close>

text \<open>
  The integer scanners of the C library: leading white space, an optional sign, the prefix
  \<open>0x\<close> where the base allows it (only before a hexadecimal digit), then the longest run of
  digits of the base. The result is the magnitude, the sign and the rest of the string; with
  no digit at all the rest is the whole string, as \<open>*endptr == nptr\<close>.
\<close>

definition digit_val :: "char \<Rightarrow> nat option" where
  "digit_val c =
     (if c_isdigit c then Some (chr_code c - 48)
      else if c_isupper c then Some (chr_code c - 55)
      else if c_islower c then Some (chr_code c - 87)
      else None)"

definition is_digit_of :: "nat \<Rightarrow> char \<Rightarrow> bool" where
  "is_digit_of base c = (case digit_val c of None \<Rightarrow> False | Some d \<Rightarrow> d < base)"

fun scan_digits :: "nat \<Rightarrow> nat \<Rightarrow> cstr \<Rightarrow> nat \<times> cstr" where
  "scan_digits base acc [] = (acc, [])"
| "scan_digits base acc (c # cs) =
     (if is_digit_of base c
      then scan_digits base (acc * base + the (digit_val c)) cs
      else (acc, c # cs))"

definition hex_prefix :: "cstr \<Rightarrow> bool" where
  "hex_prefix s =
     (case s of z # x # d # _ \<Rightarrow> z = CHR ''0'' \<and> (x = CHR ''x'' \<or> x = CHR ''X'') \<and> c_isxdigit d
      | _ \<Rightarrow> False)"

fun scan_sign :: "cstr \<Rightarrow> bool \<times> cstr" where
  "scan_sign [] = (False, [])"
| "scan_sign (c # cs) =
     (if c = CHR ''-'' then (True, cs) else if c = CHR ''+'' then (False, cs)
      else (False, c # cs))"

definition scan_integer :: "nat \<Rightarrow> cstr \<Rightarrow> (bool \<times> nat \<times> cstr) option" where
  "scan_integer base0 str =
     (let (neg, s) = scan_sign (dropWhile c_isspace str);
          hex = hex_prefix s \<and> (base0 = 0 \<or> base0 = 16);
          base = (if base0 \<noteq> 0 then base0 else if hex then 16
                  else if starts_with s ''0'' then 8 else 10);
          digits = (if hex then drop 2 s else s)
      in if digits \<noteq> [] \<and> is_digit_of base (hd digits)
         then (let (m, tail) = scan_digits base 0 digits in Some (neg, m, tail))
         else None)"

text \<open>
  Value, rest of the string and whether \<open>errno\<close> was set to \<open>ERANGE\<close>. \<open>strtoll\<close> clamps to
  the bounds of \<open>long long\<close>; \<open>strtoull\<close> clamps to \<open>ULLONG_MAX\<close> and negates modulo $2^{64}$.
\<close>

definition c_strtoll :: "nat \<Rightarrow> cstr \<Rightarrow> int \<times> cstr \<times> bool" where
  "c_strtoll base str =
     (case scan_integer base str of
        None \<Rightarrow> (0, str, False)
      | Some (neg, m, tail) \<Rightarrow>
          (let v = (if neg then - int m else int m) in
           if v < - (2 ^ 63) then (- (2 ^ 63), tail, True)
           else if v > 2 ^ 63 - 1 then (2 ^ 63 - 1, tail, True)
           else (v, tail, False)))"

definition c_strtoull :: "nat \<Rightarrow> cstr \<Rightarrow> 64 word \<times> cstr \<times> bool" where
  "c_strtoull base str =
     (case scan_integer base str of
        None \<Rightarrow> (0, str, False)
      | Some (neg, m, tail) \<Rightarrow>
          (if m > 2 ^ 64 - 1 then (- 1, tail, True)
           else ((if neg then - of_nat m else of_nat m), tail, False)))"

lemma scan_digits_suffix:
  "scan_digits b a s = (m, t) \<Longrightarrow> \<exists>p. s = p @ t"
  by (induction b a s rule: scan_digits.induct) (auto split: if_splits)

lemma scan_digits_suffix_dest:
  "scan_digits b a s = (m, t) \<Longrightarrow> length t \<le> length s"
  using scan_digits_suffix by fastforce

section \<open>Results of computations that may stop\<close>

text \<open>\<open>Inl\<close> is the reason a computation stopped for, \<open>Inr\<close> its result.\<close>

definition andthen :: "'e + 'a \<Rightarrow> ('a \<Rightarrow> 'e + 'b) \<Rightarrow> 'e + 'b" where
  "andthen r f = (case r of Inl e \<Rightarrow> Inl e | Inr a \<Rightarrow> f a)"

lemma andthen_simps [simp]: "andthen (Inl e) f = Inl e" "andthen (Inr a) f = f a"
  by (simp_all add: andthen_def)

lemma andthen_Inr_iff: "andthen r f = Inr b \<longleftrightarrow> (\<exists>a. r = Inr a \<and> f a = Inr b)"
  by (cases r) auto

lemma andthen_Inl_iff: "andthen r f = Inl e \<longleftrightarrow> (r = Inl e \<or> (\<exists>a. r = Inr a \<and> f a = Inl e))"
  by (cases r) auto

lemma andthen_cong [fundef_cong]:
  "r = r' \<Longrightarrow> (\<And>a. r' = Inr a \<Longrightarrow> f a = f' a) \<Longrightarrow> andthen r f = andthen r' f'"
  by (cases r') auto

section \<open>Decimal numbers\<close>

fun decimal_aux :: "nat \<Rightarrow> cstr \<Rightarrow> cstr" where
  "decimal_aux n acc =
     (let acc' = char_of (48 + n mod 10) # acc in if n < 10 then acc' else decimal_aux (n div 10) acc')"

declare decimal_aux.simps [simp del]

definition decimal :: "nat \<Rightarrow> cstr" where
  "decimal n = decimal_aux n []"

text \<open>Padding to a width, as \<open>%3d\<close> does.\<close>

definition pad_left :: "nat \<Rightarrow> cstr \<Rightarrow> cstr" where
  "pad_left w s = replicate (w - length s) CHR '' '' @ s"

end
