(* ===== verification/Kconfig_Expr.thy ===== *)
theory Kconfig_Expr
  imports Prelude
begin

text \<open>
  The dependency expressions of the Kconfig language: the data of \<open>kconfig/expr.h\<close>, the
  constructors, the copy, the symbol queries and the evaluation of \<open>kconfig/expr.c\<close>, over a
  symbol table whose values have been calculated. The rewriting functions are in
  \<open>Kconfig_Simplify\<close> and \<open>Kconfig_Transform\<close>.
\<close>

section \<open>Tristate values\<close>

datatype tristate = Tno | Tmod | Tyes

fun tri_rank :: "tristate \<Rightarrow> nat" where
  "tri_rank Tno = 0"
| "tri_rank Tmod = 1"
| "tri_rank Tyes = 2"

instantiation tristate :: linorder
begin

definition less_eq_tristate :: "tristate \<Rightarrow> tristate \<Rightarrow> bool" where
  "less_eq_tristate a b = (tri_rank a \<le> tri_rank b)"

definition less_tristate :: "tristate \<Rightarrow> tristate \<Rightarrow> bool" where
  "less_tristate a b = (tri_rank a < tri_rank b)"

instance
proof
  fix x y :: tristate
  show "x \<le> y \<Longrightarrow> y \<le> x \<Longrightarrow> x = y"
    by (cases x; cases y) (auto simp: less_eq_tristate_def)
qed (auto simp: less_eq_tristate_def less_tristate_def)

end

lemmas tri_less = less_eq_tristate_def less_tristate_def

text \<open>The three macros on tristate values; \<open>EXPR_NOT\<close> is \<open>2 - dep\<close> on the enumeration.\<close>

definition EXPR_OR :: "tristate \<Rightarrow> tristate \<Rightarrow> tristate" where
  "EXPR_OR dep1 dep2 = (if dep1 > dep2 then dep1 else dep2)"

definition EXPR_AND :: "tristate \<Rightarrow> tristate \<Rightarrow> tristate" where
  "EXPR_AND dep1 dep2 = (if dep1 < dep2 then dep1 else dep2)"

fun EXPR_NOT :: "tristate \<Rightarrow> tristate" where
  "EXPR_NOT Tno = Tyes"
| "EXPR_NOT Tmod = Tmod"
| "EXPR_NOT Tyes = Tno"

lemma EXPR_NOT_rank: "tri_rank (EXPR_NOT d) = 2 - tri_rank d"
  by (cases d) auto

lemma EXPR_OR_simps [simp]:
  "EXPR_OR Tno a = a" "EXPR_OR a Tno = a" "EXPR_OR Tyes a = Tyes" "EXPR_OR a Tyes = Tyes"
  "EXPR_OR a a = a"
  by (cases a; simp add: EXPR_OR_def tri_less)+

lemma EXPR_AND_simps [simp]:
  "EXPR_AND Tno a = Tno" "EXPR_AND a Tno = Tno" "EXPR_AND Tyes a = a" "EXPR_AND a Tyes = a"
  "EXPR_AND a a = a"
  by (cases a; simp add: EXPR_AND_def tri_less)+

lemma EXPR_NOT_NOT [simp]: "EXPR_NOT (EXPR_NOT a) = a"
  by (cases a) auto

lemma EXPR_De_Morgan [simp]:
  "EXPR_NOT (EXPR_OR a b) = EXPR_AND (EXPR_NOT a) (EXPR_NOT b)"
  "EXPR_NOT (EXPR_AND a b) = EXPR_OR (EXPR_NOT a) (EXPR_NOT b)"
  by (cases a; cases b; simp add: EXPR_OR_def EXPR_AND_def tri_less)+

section \<open>Expressions\<close>

text \<open>
  The enumeration of node types, in the order of the source. A reference to a symbol is one of
  the four static symbols of \<open>symbol.c\<close> or a symbol of the table; equality of references is
  equality of pointers.
\<close>

datatype expr_type =
    E_NONE | E_OR | E_AND | E_NOT
  | E_EQUAL | E_UNEQUAL | E_LTH | E_LEQ | E_GTH | E_GEQ
  | E_LIST | E_SYMBOL | E_RANGE

datatype symref = symbol_yes | symbol_mod | symbol_no | symbol_empty | Sym nat

datatype binop = B_OR | B_AND

datatype relop = R_EQUAL | R_UNEQUAL | R_LTH | R_LEQ | R_GTH | R_GEQ

text \<open>
  A node with its payload. The operands of \<open>&&\<close>, \<open>||\<close> and \<open>!\<close> are never NULL in the code (it
  reads their type without a test), so they are expressions here; where a function takes a
  pointer that may be NULL it takes an \<open>expr option\<close>. The rest of an \<open>E_LIST\<close> may be NULL.
\<close>

datatype expr =
    XSym symref
  | XNot expr
  | XBin binop expr expr
  | XRel relop symref symref
  | XList "expr option" symref
  | XRange symref symref
  | XNone

fun binop_type :: "binop \<Rightarrow> expr_type" where
  "binop_type B_OR = E_OR"
| "binop_type B_AND = E_AND"

fun relop_type :: "relop \<Rightarrow> expr_type" where
  "relop_type R_EQUAL = E_EQUAL"
| "relop_type R_UNEQUAL = E_UNEQUAL"
| "relop_type R_LTH = E_LTH"
| "relop_type R_LEQ = E_LEQ"
| "relop_type R_GTH = E_GTH"
| "relop_type R_GEQ = E_GEQ"

fun type_of :: "expr \<Rightarrow> expr_type" where
  "type_of (XSym s) = E_SYMBOL"
| "type_of (XNot e) = E_NOT"
| "type_of (XBin b l r) = binop_type b"
| "type_of (XRel r s t) = relop_type r"
| "type_of (XList l s) = E_LIST"
| "type_of (XRange s t) = E_RANGE"
| "type_of XNone = E_NONE"

lemma node_type_simps [simp]:
  "binop_type b = binop_type b' \<longleftrightarrow> b = b'"
  "relop_type r = relop_type r' \<longleftrightarrow> r = r'"
  "binop_type b \<noteq> relop_type r" "relop_type r \<noteq> binop_type b"
  "binop_type b \<noteq> E_SYMBOL" "binop_type b \<noteq> E_NOT" "binop_type b \<noteq> E_LIST"
  "binop_type b \<noteq> E_RANGE" "binop_type b \<noteq> E_NONE"
  "relop_type r \<noteq> E_SYMBOL" "relop_type r \<noteq> E_NOT" "relop_type r \<noteq> E_LIST"
  "relop_type r \<noteq> E_RANGE" "relop_type r \<noteq> E_NONE"
  by (cases b; cases b'; cases r; cases r'; simp)+

text \<open>The expressions of dependencies: everything but value lists, ranges and \<open>E_NONE\<close>.\<close>

fun dep_expr :: "expr \<Rightarrow> bool" where
  "dep_expr (XSym s) = True"
| "dep_expr (XNot e) = dep_expr e"
| "dep_expr (XBin b l r) = (dep_expr l \<and> dep_expr r)"
| "dep_expr (XRel r s t) = True"
| "dep_expr (XList l s) = False"
| "dep_expr (XRange s t) = False"
| "dep_expr XNone = False"

text \<open>Nodes of an expression.\<close>

fun nodes :: "expr \<Rightarrow> nat" where
  "nodes (XNot e) = Suc (nodes e)"
| "nodes (XBin b l r) = Suc (nodes l + nodes r)"
| "nodes (XList (Some l) s) = Suc (nodes l)"
| "nodes _ = 1"

lemma nodes_pos [simp]: "0 < nodes e"
  by (induction e rule: nodes.induct) auto

lemma nodes_ge_1 [simp]: "Suc 0 \<le> nodes e"
  using nodes_pos [of e] by linarith

section \<open>Constructors\<close>

definition expr_alloc_symbol :: "symref \<Rightarrow> expr" where
  "expr_alloc_symbol s = XSym s"

definition expr_alloc_not :: "expr \<Rightarrow> expr" where
  "expr_alloc_not ce = XNot ce"

definition expr_alloc_two :: "binop \<Rightarrow> expr \<Rightarrow> expr \<Rightarrow> expr" where
  "expr_alloc_two type e1 e2 = XBin type e1 e2"

definition expr_alloc_comp :: "relop \<Rightarrow> symref \<Rightarrow> symref \<Rightarrow> expr" where
  "expr_alloc_comp type s1 s2 = XRel type s1 s2"

lemmas alloc_defs [simp] = expr_alloc_symbol_def expr_alloc_not_def expr_alloc_two_def
  expr_alloc_comp_def

fun expr_alloc_and :: "expr option \<Rightarrow> expr option \<Rightarrow> expr option" where
  "expr_alloc_and None e2 = e2"
| "expr_alloc_and (Some e1) e2 =
     (case e2 of None \<Rightarrow> Some e1 | Some e2' \<Rightarrow> Some (expr_alloc_two B_AND e1 e2'))"

fun expr_alloc_or :: "expr option \<Rightarrow> expr option \<Rightarrow> expr option" where
  "expr_alloc_or None e2 = e2"
| "expr_alloc_or (Some e1) e2 =
     (case e2 of None \<Rightarrow> Some e1 | Some e2' \<Rightarrow> Some (expr_alloc_two B_OR e1 e2'))"

text \<open>
  The copy. \<open>None\<close> is the NULL the default branch returns with the message "can't copy type".
  An operand that cannot be copied would leave a node with a NULL operand, which no caller can
  use, and the branch for \<open>E_LIST\<close> copies the symbol of a list as if it were an expression:
  both are \<open>None\<close> here.
\<close>

fun expr_copy :: "expr \<Rightarrow> expr option" where
  "expr_copy (XSym s) = Some (XSym s)"
| "expr_copy (XNot e) = do { e' \<leftarrow> expr_copy e; Some (XNot e') }"
| "expr_copy (XRel r s t) = Some (XRel r s t)"
| "expr_copy (XBin b l r) = do { l' \<leftarrow> expr_copy l; r' \<leftarrow> expr_copy r; Some (XBin b l' r') }"
| "expr_copy _ = None"

lemma expr_copy_dep [simp]: "dep_expr e \<Longrightarrow> expr_copy e = Some e"
  by (induction e rule: dep_expr.induct) auto

lemma expr_copy_Some_iff: "expr_copy e = Some e' \<longleftrightarrow> (dep_expr e \<and> e' = e)"
  by (induction e arbitrary: e' rule: dep_expr.induct) auto

section \<open>Symbol queries\<close>

fun expr_contains_symbol :: "expr \<Rightarrow> symref \<Rightarrow> bool" where
  "expr_contains_symbol (XBin b l r) smb =
     (expr_contains_symbol l smb \<or> expr_contains_symbol r smb)"
| "expr_contains_symbol (XSym s) smb = (s = smb)"
| "expr_contains_symbol (XRel r s t) smb = (s = smb \<or> t = smb)"
| "expr_contains_symbol (XNot e) smb = expr_contains_symbol e smb"
| "expr_contains_symbol _ smb = False"

fun expr_depends_symbol :: "expr \<Rightarrow> symref \<Rightarrow> bool" where
  "expr_depends_symbol (XBin B_AND l r) smb =
     (expr_depends_symbol l smb \<or> expr_depends_symbol r smb)"
| "expr_depends_symbol (XSym s) smb = (s = smb)"
| "expr_depends_symbol (XRel R_EQUAL s t) smb =
     (s = smb \<and> (t = symbol_yes \<or> t = symbol_mod))"
| "expr_depends_symbol (XRel R_UNEQUAL s t) smb = (s = smb \<and> t = symbol_no)"
| "expr_depends_symbol _ smb = False"

text \<open>A NULL dependency mentions no symbol.\<close>

definition expr_contains_symbol_p :: "expr option \<Rightarrow> symref \<Rightarrow> bool" where
  "expr_contains_symbol_p dep smb =
     (case dep of None \<Rightarrow> False | Some e \<Rightarrow> expr_contains_symbol e smb)"

definition expr_depends_symbol_p :: "expr option \<Rightarrow> symref \<Rightarrow> bool" where
  "expr_depends_symbol_p dep smb =
     (case dep of None \<Rightarrow> False | Some e \<Rightarrow> expr_depends_symbol e smb)"

section \<open>The symbol table, calculated\<close>

datatype symbol_type = S_UNKNOWN | S_BOOLEAN | S_TRISTATE | S_INT | S_HEX | S_STRING

text \<open>
  The fields of \<open>struct symbol\<close> an expression reads: the name, the type, the calculated value
  \<open>curr\<close> and the flag \<open>SYMBOL_CONST\<close>.
\<close>

record symbol =
  sname :: "cstr option"
  stype :: symbol_type
  curr_val :: cstr
  curr_tri :: tristate
  is_const :: bool

record symtab =
  syms :: "nat \<Rightarrow> symbol"
  modules_sym :: symref

definition static_symbol :: "cstr \<Rightarrow> tristate \<Rightarrow> bool \<Rightarrow> symbol" where
  "static_symbol n t c =
     \<lparr>sname = Some n, stype = S_UNKNOWN, curr_val = n, curr_tri = t, is_const = c\<rparr>"

fun symbol_of :: "symtab \<Rightarrow> symref \<Rightarrow> symbol" where
  "symbol_of \<sigma> symbol_yes = static_symbol ''y'' Tyes True"
| "symbol_of \<sigma> symbol_mod = static_symbol ''m'' Tmod True"
| "symbol_of \<sigma> symbol_no = static_symbol ''n'' Tno True"
| "symbol_of \<sigma> symbol_empty = static_symbol '''' Tno False"
| "symbol_of \<sigma> (Sym i) = syms \<sigma> i"

abbreviation type_of_sym :: "symtab \<Rightarrow> symref \<Rightarrow> symbol_type" where
  "type_of_sym \<sigma> s \<equiv> stype (symbol_of \<sigma> s)"

abbreviation tri_of_sym :: "symtab \<Rightarrow> symref \<Rightarrow> tristate" where
  "tri_of_sym \<sigma> s \<equiv> curr_tri (symbol_of \<sigma> s)"

text \<open>
  \<open>sym_get_string_value\<close>: a tristate or boolean symbol reads as one of \<open>n\<close>, \<open>m\<close>, \<open>y\<close>, with
  \<open>m\<close> turned into \<open>n\<close> when modules are off.
\<close>

definition sym_get_string_value :: "symtab \<Rightarrow> symref \<Rightarrow> cstr" where
  "sym_get_string_value \<sigma> s =
     (if type_of_sym \<sigma> s = S_BOOLEAN \<or> type_of_sym \<sigma> s = S_TRISTATE
      then (case tri_of_sym \<sigma> s of
              Tno \<Rightarrow> ''n''
            | Tmod \<Rightarrow> (if tri_of_sym \<sigma> (modules_sym \<sigma>) = Tno then ''n'' else ''m'')
            | Tyes \<Rightarrow> ''y'')
      else curr_val (symbol_of \<sigma> s))"

text \<open>
  A table as \<open>sym_calc_value\<close> leaves it: a boolean symbol is never \<open>m\<close>, and no symbol of the
  two logical types is \<open>m\<close> while modules are off.
\<close>

definition calculated :: "symtab \<Rightarrow> bool" where
  "calculated \<sigma> \<longleftrightarrow>
     (\<forall>i. (stype (syms \<sigma> i) = S_BOOLEAN \<longrightarrow> curr_tri (syms \<sigma> i) \<noteq> Tmod)
        \<and> (stype (syms \<sigma> i) = S_TRISTATE \<and> tri_of_sym \<sigma> (modules_sym \<sigma>) = Tno
             \<longrightarrow> curr_tri (syms \<sigma> i) \<noteq> Tmod))"

section \<open>Evaluation\<close>

datatype string_value_kind = k_string | k_signed | k_unsigned

text \<open>
  \<open>expr_parse_string\<close>: the kind and the 64 bits of \<open>union string_value\<close>. The number counts only
  when the scanner consumed the whole, non-empty string without a range error and the last
  character is a hexadecimal digit.
\<close>

definition number_kind :: "cstr \<Rightarrow> cstr \<Rightarrow> bool \<Rightarrow> string_value_kind \<Rightarrow> string_value_kind" where
  "number_kind str tail erange kind =
     (if \<not> erange \<and> tail = [] \<and> length tail < length str \<and> c_isxdigit (last str)
      then kind else k_string)"

definition expr_parse_string :: "cstr \<Rightarrow> symbol_type \<Rightarrow> string_value_kind \<times> 64 word" where
  "expr_parse_string str type =
     (case type of
        S_BOOLEAN \<Rightarrow> (k_signed, if str = ''n'' then 0 else if str = ''m'' then 1
                                 else if str = ''y'' then 2 else - 1)
      | S_TRISTATE \<Rightarrow> (k_signed, if str = ''n'' then 0 else if str = ''m'' then 1
                                 else if str = ''y'' then 2 else - 1)
      | S_INT \<Rightarrow> (let (v, tail, err) = c_strtoll 10 str
                  in (number_kind str tail err k_signed, word_of_int v))
      | S_HEX \<Rightarrow> (let (v, tail, err) = c_strtoull 16 str
                  in (number_kind str tail err k_unsigned, v))
      | _ \<Rightarrow> (let (v, tail, err) = c_strtoll 0 str
                  in (number_kind str tail err k_signed, word_of_int v)))"

text \<open>The variable \<open>res\<close> of \<open>expr_calc_value\<close>: the comparison of the two operands.\<close>

definition expr_compare :: "symtab \<Rightarrow> symref \<Rightarrow> symref \<Rightarrow> int" where
  "expr_compare \<sigma> l r =
     (let str1 = sym_get_string_value \<sigma> l;
          str2 = sym_get_string_value \<sigma> r;
          (k1, lval) = (if type_of_sym \<sigma> l \<noteq> S_STRING \<or> type_of_sym \<sigma> r \<noteq> S_STRING
                        then expr_parse_string str1 (type_of_sym \<sigma> l) else (k_string, 0));
          (k2, rval) = (if type_of_sym \<sigma> l \<noteq> S_STRING \<or> type_of_sym \<sigma> r \<noteq> S_STRING
                        then expr_parse_string str2 (type_of_sym \<sigma> r) else (k_string, 0))
      in if k1 = k_string \<or> k2 = k_string then c_strcmp str1 str2
         else if k1 = k_unsigned \<or> k2 = k_unsigned
         then (of_bool (rval < lval) - of_bool (lval < rval))
         else (of_bool (sint rval < sint lval) - of_bool (sint lval < sint rval)))"

fun rel_result :: "relop \<Rightarrow> int \<Rightarrow> tristate" where
  "rel_result R_EQUAL res = (if res \<noteq> 0 then Tno else Tyes)"
| "rel_result R_GEQ res = (if res \<ge> 0 then Tyes else Tno)"
| "rel_result R_GTH res = (if res > 0 then Tyes else Tno)"
| "rel_result R_LEQ res = (if res \<le> 0 then Tyes else Tno)"
| "rel_result R_LTH res = (if res < 0 then Tyes else Tno)"
| "rel_result R_UNEQUAL res = (if res \<noteq> 0 then Tyes else Tno)"

fun expr_calc_value :: "symtab \<Rightarrow> expr \<Rightarrow> tristate" where
  "expr_calc_value \<sigma> (XSym s) = tri_of_sym \<sigma> s"
| "expr_calc_value \<sigma> (XBin B_AND l r) = EXPR_AND (expr_calc_value \<sigma> l) (expr_calc_value \<sigma> r)"
| "expr_calc_value \<sigma> (XBin B_OR l r) = EXPR_OR (expr_calc_value \<sigma> l) (expr_calc_value \<sigma> r)"
| "expr_calc_value \<sigma> (XNot e) = EXPR_NOT (expr_calc_value \<sigma> e)"
| "expr_calc_value \<sigma> (XRel rel l r) = rel_result rel (expr_compare \<sigma> l r)"
| "expr_calc_value \<sigma> _ = Tno"

text \<open>A NULL expression is the dependency that always holds.\<close>

definition expr_calc_value_p :: "symtab \<Rightarrow> expr option \<Rightarrow> tristate" where
  "expr_calc_value_p \<sigma> e = (case e of None \<Rightarrow> Tyes | Some e' \<Rightarrow> expr_calc_value \<sigma> e')"

section \<open>Values of comparisons\<close>

lemma rel_result_values: "rel_result r c = Tno \<or> rel_result r c = Tyes"
  by (cases r) auto

lemma static_symbol_simps [simp]:
  "stype (static_symbol n t c) = S_UNKNOWN" "curr_val (static_symbol n t c) = n"
  "curr_tri (static_symbol n t c) = t" "is_const (static_symbol n t c) = c"
  "sname (static_symbol n t c) = Some n"
  by (simp_all add: static_symbol_def)

lemma string_value_static [simp]:
  "sym_get_string_value \<sigma> symbol_yes = ''y''" "sym_get_string_value \<sigma> symbol_mod = ''m''"
  "sym_get_string_value \<sigma> symbol_no = ''n''" "sym_get_string_value \<sigma> symbol_empty = ''''"
  by (simp_all add: sym_get_string_value_def)

text \<open>The string of a static symbol is no number, so comparisons with it compare strings.\<close>

lemma parse_static [simp]:
  "fst (expr_parse_string ''y'' S_UNKNOWN) = k_string"
  "fst (expr_parse_string ''m'' S_UNKNOWN) = k_string"
  "fst (expr_parse_string ''n'' S_UNKNOWN) = k_string"
  by (simp_all add: expr_parse_string_def c_strtoll_def scan_integer_def hex_prefix_def
      number_kind_def is_digit_of_def digit_val_def ctype_defs)

lemma expr_compare_const:
  assumes "c \<in> {symbol_yes, symbol_mod, symbol_no}"
  shows "expr_compare \<sigma> s c = c_strcmp (sym_get_string_value \<sigma> s) (sym_get_string_value \<sigma> c)"
  using assms by (auto simp: expr_compare_def Let_def split_beta)

definition logical_sym :: "symtab \<Rightarrow> symref \<Rightarrow> bool" where
  "logical_sym \<sigma> s \<longleftrightarrow> type_of_sym \<sigma> s = S_BOOLEAN \<or> type_of_sym \<sigma> s = S_TRISTATE"

fun const_of_tri :: "tristate \<Rightarrow> symref" where
  "const_of_tri Tno = symbol_no"
| "const_of_tri Tmod = symbol_mod"
| "const_of_tri Tyes = symbol_yes"

lemma logical_sym_is_Sym: "logical_sym \<sigma> s \<Longrightarrow> \<exists>i. s = Sym i"
  by (cases s) (auto simp: logical_sym_def)

lemma boolean_sym_tri:
  "calculated \<sigma> \<Longrightarrow> type_of_sym \<sigma> s = S_BOOLEAN \<Longrightarrow> tri_of_sym \<sigma> s = Tno \<or> tri_of_sym \<sigma> s = Tyes"
  by (cases s; cases "tri_of_sym \<sigma> s") (auto simp: calculated_def)

lemma logical_string_value:
  assumes "calculated \<sigma>" "logical_sym \<sigma> s"
  shows "sym_get_string_value \<sigma> s = sym_get_string_value \<sigma> (const_of_tri (tri_of_sym \<sigma> s))"
proof -
  from assms(2) obtain i where s: "s = Sym i" by (blast dest: logical_sym_is_Sym)
  show ?thesis
    using assms unfolding s calculated_def logical_sym_def sym_get_string_value_def
    by (cases "curr_tri (syms \<sigma> i)") auto
qed

text \<open>On a logical symbol, comparing with a tristate constant compares the tristate values.\<close>

lemma compare_logical_const:
  assumes "calculated \<sigma>" "logical_sym \<sigma> s"
  shows "expr_compare \<sigma> s (const_of_tri t) = 0 \<longleftrightarrow> tri_of_sym \<sigma> s = t"
proof -
  have "const_of_tri t \<in> {symbol_yes, symbol_mod, symbol_no}" by (cases t) auto
  then have "expr_compare \<sigma> s (const_of_tri t) =
      c_strcmp (sym_get_string_value \<sigma> (const_of_tri (tri_of_sym \<sigma> s)))
        (sym_get_string_value \<sigma> (const_of_tri t))"
    by (simp add: expr_compare_const logical_string_value [OF assms, symmetric])
  then show ?thesis
    by (cases t; cases "tri_of_sym \<sigma> s") auto
qed

lemma compare_logical_consts:
  assumes "calculated \<sigma>" "logical_sym \<sigma> s"
  shows "expr_compare \<sigma> s symbol_yes = 0 \<longleftrightarrow> tri_of_sym \<sigma> s = Tyes"
    "expr_compare \<sigma> s symbol_mod = 0 \<longleftrightarrow> tri_of_sym \<sigma> s = Tmod"
    "expr_compare \<sigma> s symbol_no = 0 \<longleftrightarrow> tri_of_sym \<sigma> s = Tno"
  using compare_logical_const [OF assms, of Tyes] compare_logical_const [OF assms, of Tmod]
    compare_logical_const [OF assms, of Tno] by simp_all

end
