(* ===== verification/Kconfig_Simplify.thy ===== *)
theory Kconfig_Simplify
  imports Kconfig_Expr
begin

text \<open>
  The simplifier of \<open>kconfig/expr.c\<close>: \<open>expr_eliminate_yn\<close>, the equality test \<open>expr_eq\<close> with the
  elimination of common operands and the join rules; \<open>expr_eliminate_dups\<close>, which uses them,
  is in \<open>Kconfig_Dups\<close>. The functions that walk two trees at once are given fuel; the section on
  fuel proves that the fuel they are started with is enough on dependency expressions.

  The global \<open>trans_count\<close> is threaded as a natural number.
\<close>

section \<open>The two levels\<close>

text \<open>
  \<open>&&\<close> and \<open>||\<close> share the code of the simplifier, with the operator as a parameter. What the
  proofs use of the operator is that it is an idempotent commutative monoid.
\<close>

fun comb :: "binop \<Rightarrow> tristate \<Rightarrow> tristate \<Rightarrow> tristate" where
  "comb B_OR = EXPR_OR"
| "comb B_AND = EXPR_AND"

fun unit_sym :: "binop \<Rightarrow> symref" where
  "unit_sym B_OR = symbol_no"
| "unit_sym B_AND = symbol_yes"

fun absorb_sym :: "binop \<Rightarrow> symref" where
  "absorb_sym B_OR = symbol_yes"
| "absorb_sym B_AND = symbol_no"

locale level =
  fixes op :: "'a \<Rightarrow> 'a \<Rightarrow> 'a" and u :: 'a
  assumes op_assoc: "op (op a b) c = op a (op b c)"
    and op_comm: "op a b = op b a"
    and op_idem: "op a a = a"
    and op_unit: "op u a = a"
begin

lemma op_left_comm: "op b (op a c) = op a (op b c)"
  by (metis op_assoc op_comm)

lemma op_left_idem: "op a (op a b) = op a b"
  by (metis op_assoc op_idem)

lemma op_unit_right: "op a u = a"
  by (metis op_comm op_unit)

lemmas op_ac = op_assoc op_comm op_left_comm

text \<open>Two expressions that share the operand \<open>x\<close> and agree on the rest are equal.\<close>

lemma op_cong_rest: "a = op x c \<Longrightarrow> b = op x d \<Longrightarrow> c = d \<Longrightarrow> a = b"
  by simp

text \<open>Taking out two shared operands one after the other takes out their combination.\<close>

lemma op_share_left:
  "l = op x l' \<Longrightarrow> e = op x e' \<Longrightarrow> r = op y r' \<Longrightarrow> e' = op y e'' \<Longrightarrow>
     op l r = op (op x y) (op l' r') \<and> e = op (op x y) e''"
  by (simp add: op_ac)

text \<open>A context of the level: combining with a fixed value commutes with a changed operand.\<close>

lemma op_replace_pair: "op p q = op v w \<Longrightarrow> op z (op p q) = op z (op v w)"
  by simp

end

interpretation lvl: level "comb b" "tri_of_sym \<sigma> (unit_sym b)" for b \<sigma>
proof
  fix x y z :: tristate
  show "comb b (comb b x y) z = comb b x (comb b y z)"
    by (cases b; cases x; cases y; cases z) (simp_all add: EXPR_OR_def EXPR_AND_def tri_less)
  show "comb b x y = comb b y x"
    by (cases b; cases x; cases y) (simp_all add: EXPR_OR_def EXPR_AND_def tri_less)
  show "comb b x x = x" by (cases b) simp_all
  show "comb b (tri_of_sym \<sigma> (unit_sym b)) x = x" by (cases b) simp_all
qed

lemma calc_bin [simp]:
  "expr_calc_value \<sigma> (XBin b l r) = comb b (expr_calc_value \<sigma> l) (expr_calc_value \<sigma> r)"
  by (cases b) simp_all

lemma comb_absorb [simp]:
  "comb b (tri_of_sym \<sigma> (absorb_sym b)) x = tri_of_sym \<sigma> (absorb_sym b)"
  "comb b x (tri_of_sym \<sigma> (absorb_sym b)) = tri_of_sym \<sigma> (absorb_sym b)"
  by (cases b; simp)+

section \<open>expr_eliminate_yn\<close>

fun expr_eliminate_yn :: "expr \<Rightarrow> expr" where
  "expr_eliminate_yn (XBin B_AND l r) =
     (let l' = expr_eliminate_yn l; r' = expr_eliminate_yn r in
      if l' = XSym symbol_no then XSym symbol_no
      else if l' = XSym symbol_yes then r'
      else if r' = XSym symbol_no then XSym symbol_no
      else if r' = XSym symbol_yes then l'
      else XBin B_AND l' r')"
| "expr_eliminate_yn (XBin B_OR l r) =
     (let l' = expr_eliminate_yn l; r' = expr_eliminate_yn r in
      if l' = XSym symbol_no then r'
      else if l' = XSym symbol_yes then XSym symbol_yes
      else if r' = XSym symbol_no then l'
      else if r' = XSym symbol_yes then XSym symbol_yes
      else XBin B_OR l' r')"
| "expr_eliminate_yn e = e"

lemma eliminate_yn_value [simp]:
  "expr_calc_value \<sigma> (expr_eliminate_yn e) = expr_calc_value \<sigma> e"
  by (induction e rule: expr_eliminate_yn.induct) (auto simp: Let_def)

lemma eliminate_yn_dep [simp]: "dep_expr e \<Longrightarrow> dep_expr (expr_eliminate_yn e)"
  by (induction e rule: expr_eliminate_yn.induct) (auto simp: Let_def)

lemma eliminate_yn_nodes [size_bounds]: "nodes (expr_eliminate_yn e) \<le> nodes e"
  by (induction e rule: expr_eliminate_yn.induct) (auto simp: Let_def)

text \<open>The result has no constant operand left at a \<open>&&\<close> or \<open>||\<close>.\<close>

fun yn_free :: "expr \<Rightarrow> bool" where
  "yn_free (XBin b l r) =
     (yn_free l \<and> yn_free r
      \<and> l \<noteq> XSym symbol_no \<and> l \<noteq> XSym symbol_yes \<and> r \<noteq> XSym symbol_no \<and> r \<noteq> XSym symbol_yes)"
| "yn_free e = True"

lemma eliminate_yn_yn_free: "yn_free (expr_eliminate_yn e)"
  by (induction e rule: expr_eliminate_yn.induct) (auto simp: Let_def)

lemma eliminate_yn_fixed: "yn_free e \<Longrightarrow> expr_eliminate_yn e = e"
  by (induction e rule: expr_eliminate_yn.induct) (auto simp: Let_def)

section \<open>Elimination of common operands and expr_eq\<close>

text \<open>The operands of a node of the given level; any other node is a leaf of the level.\<close>

fun operands :: "binop \<Rightarrow> expr \<Rightarrow> (expr \<times> expr) option" where
  "operands t (XBin b l r) = (if b = t then Some (l, r) else None)"
| "operands t _ = None"

lemma operands_Some [simp]: "operands t e = Some (l, r) \<longleftrightarrow> e = XBin t l r"
  by (cases e) auto

lemma operands_None_iff: "operands t e = None \<longleftrightarrow> (\<forall>l r. e \<noteq> XBin t l r)"
  by (cases e) auto

text \<open>
  \<open>elim_eq\<close> is \<open>__expr_eliminate_eq\<close>: it returns the two rewritten trees and the count.
  \<open>expr_eq\<close> works on copies and restores the count.
\<close>

fun same_symbol :: "expr \<Rightarrow> expr \<Rightarrow> bool" where
  "same_symbol (XSym s1) (XSym s2) = (s1 = s2)"
| "same_symbol _ _ = False"

lemma same_symbol_iff [simp]: "same_symbol e1 e2 \<longleftrightarrow> (\<exists>s. e1 = XSym s \<and> e2 = XSym s)"
  by (cases "(e1, e2)" rule: same_symbol.cases) auto

fun expr_eq_n :: "nat \<Rightarrow> expr \<Rightarrow> expr \<Rightarrow> bool option"
  and elim_eq_n :: "nat \<Rightarrow> binop \<Rightarrow> expr \<Rightarrow> expr \<Rightarrow> nat \<Rightarrow> (expr \<times> expr \<times> nat) option"
  and eliminate_eq_n :: "nat \<Rightarrow> expr \<Rightarrow> expr \<Rightarrow> nat \<Rightarrow> (expr \<times> expr \<times> nat) option"
where
  "expr_eq_n 0 e1 e2 = None"
| "expr_eq_n (Suc n) e1 e2 =
     (if type_of e1 \<noteq> type_of e2 then Some False
      else (case (e1, e2) of
          (XRel _ s1 t1, XRel _ s2 t2) \<Rightarrow> Some (s1 = s2 \<and> t1 = t2)
        | (XSym s1, XSym s2) \<Rightarrow> Some (s1 = s2)
        | (XNot a, XNot b) \<Rightarrow> expr_eq_n n a b
        | (XBin _ _ _, XBin _ _ _) \<Rightarrow>
            do { c1 \<leftarrow> expr_copy e1;
                 c2 \<leftarrow> expr_copy e2;
                 (r1, r2, _) \<leftarrow> eliminate_eq_n n c1 c2 0;
                 Some (same_symbol r1 r2) }
        | _ \<Rightarrow> Some False))"
| "elim_eq_n 0 t e1 e2 cnt = None"
| "elim_eq_n (Suc n) t e1 e2 cnt =
     (case operands t e1 of
        Some (l, r) \<Rightarrow>
          do { (l', e2', cnt1) \<leftarrow> elim_eq_n n t l e2 cnt;
               (r', e2'', cnt2) \<leftarrow> elim_eq_n n t r e2' cnt1;
               Some (XBin t l' r', e2'', cnt2) }
      | None \<Rightarrow>
        (case operands t e2 of
           Some (l, r) \<Rightarrow>
             do { (e1', l', cnt1) \<leftarrow> elim_eq_n n t e1 l cnt;
                  (e1'', r', cnt2) \<leftarrow> elim_eq_n n t e1' r cnt1;
                  Some (e1'', XBin t l' r', cnt2) }
         | None \<Rightarrow>
             if (\<exists>s\<in>{symbol_yes, symbol_no}. e1 = XSym s \<and> e2 = XSym s)
             then Some (e1, e2, cnt)
             else do { same \<leftarrow> expr_eq_n n e1 e2;
                       if \<not> same then Some (e1, e2, cnt)
                       else Some (expr_alloc_symbol (unit_sym t),
                                  expr_alloc_symbol (unit_sym t), cnt + 1) }))"
| "eliminate_eq_n 0 e1 e2 cnt = None"
| "eliminate_eq_n (Suc n) e1 e2 cnt =
     do { (a1, a2, cnt1) \<leftarrow> (case e1 of XBin t _ _ \<Rightarrow> elim_eq_n n t e1 e2 cnt
                                        | _ \<Rightarrow> Some (e1, e2, cnt));
          (b1, b2, cnt2) \<leftarrow> (if type_of a1 \<noteq> type_of a2
                             then (case a2 of XBin t _ _ \<Rightarrow> elim_eq_n n t a1 a2 cnt1
                                   | _ \<Rightarrow> Some (a1, a2, cnt1))
                             else Some (a1, a2, cnt1));
          Some (expr_eliminate_yn b1, expr_eliminate_yn b2, cnt2) }"

text \<open>What the elimination keeps: the two trees share an operand \<open>x\<close> that was taken out.\<close>

definition shares :: "binop \<Rightarrow> expr \<Rightarrow> expr \<Rightarrow> expr \<Rightarrow> expr \<Rightarrow> bool" where
  "shares t e1 e2 a b \<longleftrightarrow>
     (\<exists>x. dep_expr x
        \<and> (\<forall>\<sigma>. expr_calc_value \<sigma> e1 = comb t (expr_calc_value \<sigma> x) (expr_calc_value \<sigma> a)
             \<and> expr_calc_value \<sigma> e2 = comb t (expr_calc_value \<sigma> x) (expr_calc_value \<sigma> b)))"

lemma shares_refl: "shares t e1 e2 e1 e2"
  unfolding shares_def
  by (rule exI [where x = "XSym (unit_sym t)"]) (simp add: lvl.op_unit)

lemma shares_equal:
  "dep_expr e1 \<Longrightarrow> \<forall>\<sigma>. expr_calc_value \<sigma> e1 = expr_calc_value \<sigma> e2 \<Longrightarrow>
     shares t e1 e2 (XSym (unit_sym t)) (XSym (unit_sym t))"
  unfolding shares_def
  by (rule exI [where x = e1]) (simp add: lvl.op_unit_right)

lemma shares_sym: "shares t e1 e2 a b \<Longrightarrow> shares t e2 e1 b a"
  unfolding shares_def by blast

lemma shares_split_left:
  assumes "shares t l e l' e'" "shares t r e' r' e''"
  shows "shares t (XBin t l r) e (XBin t l' r') e''"
proof -
  from assms obtain x y where "dep_expr x" "dep_expr y"
    and x: "\<And>\<sigma>. expr_calc_value \<sigma> l = comb t (expr_calc_value \<sigma> x) (expr_calc_value \<sigma> l')"
      "\<And>\<sigma>. expr_calc_value \<sigma> e = comb t (expr_calc_value \<sigma> x) (expr_calc_value \<sigma> e')"
    and y: "\<And>\<sigma>. expr_calc_value \<sigma> r = comb t (expr_calc_value \<sigma> y) (expr_calc_value \<sigma> r')"
      "\<And>\<sigma>. expr_calc_value \<sigma> e' = comb t (expr_calc_value \<sigma> y) (expr_calc_value \<sigma> e'')"
    unfolding shares_def by blast
  then show ?thesis
    unfolding shares_def
    using lvl.op_share_left [OF x y]
    by (intro exI [where x = "XBin t x y"]) simp
qed

lemma shares_split_right:
  "shares t e l e' l' \<Longrightarrow> shares t e' r e'' r' \<Longrightarrow> shares t e (XBin t l r) e'' (XBin t l' r')"
  by (blast intro: shares_sym shares_split_left)

lemma shares_same_symbol:
  "shares t e1 e2 a b \<Longrightarrow> \<forall>\<sigma>. expr_calc_value \<sigma> a = expr_calc_value \<sigma> b \<Longrightarrow>
     expr_calc_value \<sigma> e1 = expr_calc_value \<sigma> e2"
  unfolding shares_def by metis

lemma shares_yn: "shares t e1 e2 a b \<Longrightarrow> shares t e1 e2 (expr_eliminate_yn a) (expr_eliminate_yn b)"
  by (simp add: shares_def)

lemma elim_eq_keeps:
  "elim_eq_n n t e1 e2 c = Some (a, b, c') \<Longrightarrow> nodes a \<le> nodes e1 \<and> nodes b \<le> nodes e2
    \<and> (dep_expr e1 \<longrightarrow> dep_expr a) \<and> (dep_expr e2 \<longrightarrow> dep_expr b)"
proof (induction n arbitrary: e1 e2 c a b c')
  case (Suc n)
  show ?case
  proof (cases "operands t e1")
    case None
    show ?thesis
    proof (cases "operands t e2")
      case None': None
      show ?thesis using Suc.prems None None' by (auto split: if_splits)
    next
      case (Some p)
      obtain l r where p: "p = (l, r)" by fastforce
      show ?thesis using Suc.prems None Some p by (fastforce dest: Suc.IH)
    qed
  next
    case (Some p)
    obtain l r where p: "p = (l, r)" by fastforce
    show ?thesis using Suc.prems Some p by (fastforce dest: Suc.IH)
  qed
qed simp

text \<open>A node of the level stays one.\<close>

lemma elim_eq_level1:
  "elim_eq_n n t (XBin t l r) e2 c = Some (a, b, c') \<Longrightarrow> \<exists>l' r'. a = XBin t l' r'"
  by (cases n) auto

lemma elim_eq_level2:
  "elim_eq_n n t e1 (XBin t l r) c = Some (a, b, c') \<Longrightarrow> \<exists>l' r'. b = XBin t l' r'"
proof (induction n arbitrary: e1 l r c a b c')
  case (Suc n)
  show ?case
  proof (cases "operands t e1")
    case None
    then show ?thesis using Suc.prems by auto
  next
    case (Some p)
    obtain l1 r1 where "p = (l1, r1)" by fastforce
    with Suc.prems Some obtain a1 b1 c1 a2 where
      1: "elim_eq_n n t l1 (XBin t l r) c = Some (a1, b1, c1)" and
      2: "elim_eq_n n t r1 b1 c1 = Some (a2, b, c')"
      by auto
    from Suc.IH [OF 1] 2 show ?thesis by (auto dest: Suc.IH)
  qed
qed simp

lemma eq_elim_sound:
  "(\<forall>e1 e2. expr_eq_n n e1 e2 = Some True \<longrightarrow> dep_expr e1 \<longrightarrow> dep_expr e2 \<longrightarrow>
     (\<forall>\<sigma>. expr_calc_value \<sigma> e1 = expr_calc_value \<sigma> e2))
   \<and> (\<forall>t e1 e2 c a b c'. elim_eq_n n t e1 e2 c = Some (a, b, c') \<longrightarrow> dep_expr e1 \<longrightarrow> dep_expr e2 \<longrightarrow>
        shares t e1 e2 a b)
   \<and> (\<forall>t l r l' r' c a b c'. eliminate_eq_n n (XBin t l r) (XBin t l' r') c = Some (a, b, c') \<longrightarrow>
        dep_expr (XBin t l r) \<longrightarrow> dep_expr (XBin t l' r') \<longrightarrow>
        shares t (XBin t l r) (XBin t l' r') a b)"
proof (induction n)
  case (Suc n)
  have eq: "\<forall>\<sigma>. expr_calc_value \<sigma> e1 = expr_calc_value \<sigma> e2"
    if "expr_eq_n n e1 e2 = Some True" "dep_expr e1" "dep_expr e2" for e1 e2
    using Suc that by blast
  have elim: "shares t e1 e2 a b"
    if "elim_eq_n n t e1 e2 c = Some (a, b, c')" "dep_expr e1" "dep_expr e2" for t e1 e2 a b c c'
    using Suc that by blast
  have elims: "shares t (XBin t l r) (XBin t l' r') a b"
    if "eliminate_eq_n n (XBin t l r) (XBin t l' r') c = Some (a, b, c')"
      "dep_expr (XBin t l r)" "dep_expr (XBin t l' r')" for t l r l' r' a b c c'
    using Suc that by blast
  have "\<forall>\<sigma>. expr_calc_value \<sigma> e1 = expr_calc_value \<sigma> e2"
    if asm: "expr_eq_n (Suc n) e1 e2 = Some True" "dep_expr e1" "dep_expr e2" for e1 e2
  proof (cases "\<exists>t l r. e1 = XBin t l r")
    case True
    then obtain t l r where e1: "e1 = XBin t l r" by blast
    with asm obtain l' r' where e2: "e2 = XBin t l' r'"
      by (cases e2) (auto split: if_splits)
    from asm e1 e2 obtain s c where
      "eliminate_eq_n n (XBin t l r) (XBin t l' r') 0 = Some (XSym s, XSym s, c)"
      by auto
    from elims [OF this] asm have "shares t e1 e2 (XSym s) (XSym s)" unfolding e1 e2 by blast
    then show ?thesis by (blast dest: shares_same_symbol)
  next
    case False
    with asm show ?thesis
      by (cases e1; cases e2) (auto dest: eq split: if_splits)
  qed
  moreover have "shares t e1 e2 a b"
    if asm: "elim_eq_n (Suc n) t e1 e2 c = Some (a, b, c')" "dep_expr e1" "dep_expr e2"
    for t e1 e2 a b c c'
  proof (cases "operands t e1")
    case None
    show ?thesis
    proof (cases "operands t e2")
      case None': None
      show ?thesis
        using asm None None' by (auto intro: shares_refl shares_equal dest!: eq split: if_splits)
    next
      case (Some p)
      obtain l r where p: "p = (l, r)" by fastforce
      show ?thesis
        using asm None Some p
        by (auto intro!: shares_split_right elim dest: elim_eq_keeps)
    qed
  next
    case (Some p)
    obtain l r where p: "p = (l, r)" by fastforce
    show ?thesis
      using asm Some p by (auto intro!: shares_split_left elim dest: elim_eq_keeps)
  qed
  moreover have "shares t (XBin t l r) (XBin t l' r') a b"
    if asm: "eliminate_eq_n (Suc n) (XBin t l r) (XBin t l' r') c = Some (a, b, c')"
      "dep_expr (XBin t l r)" "dep_expr (XBin t l' r')" for t l r l' r' a b c c'
  proof -
    from asm obtain a1 a2 c1 where
      1: "elim_eq_n n t (XBin t l r) (XBin t l' r') c = Some (a1, a2, c1)"
      by auto
    from elim_eq_level1 [OF 1] elim_eq_level2 [OF 1] have "type_of a1 = type_of a2" by auto
    with asm 1 have "a = expr_eliminate_yn a1" "b = expr_eliminate_yn a2" by auto
    with elim [OF 1 asm(2,3)] show ?thesis by (simp add: shares_yn)
  qed
  ultimately show ?case by blast
qed simp

section \<open>Fuel\<close>

lemmas eq_elim_unfold = expr_eq_n.simps(2) elim_eq_n.simps(2) eliminate_eq_n.simps(2)

declare eq_elim_unfold [simp del]

lemma eq_elim_mono:
  "(\<forall>e1 e2 r. expr_eq_n n e1 e2 = Some r \<longrightarrow> expr_eq_n (Suc n) e1 e2 = Some r)
   \<and> (\<forall>t e1 e2 c r. elim_eq_n n t e1 e2 c = Some r \<longrightarrow> elim_eq_n (Suc n) t e1 e2 c = Some r)
   \<and> (\<forall>e1 e2 c r. eliminate_eq_n n e1 e2 c = Some r \<longrightarrow> eliminate_eq_n (Suc n) e1 e2 c = Some r)"
proof (induction n)
  case (Suc n)
  have eq: "expr_eq_n (Suc n) e1 e2 = Some r" if "expr_eq_n n e1 e2 = Some r" for e1 e2 r
    using Suc that by blast
  have elim: "elim_eq_n (Suc n) t e1 e2 c = Some r" if "elim_eq_n n t e1 e2 c = Some r"
    for t e1 e2 c r using Suc that by blast
  have elims: "eliminate_eq_n (Suc n) e1 e2 c = Some r" if "eliminate_eq_n n e1 e2 c = Some r"
    for e1 e2 c r using Suc that by blast
  have "expr_eq_n (Suc (Suc n)) e1 e2 = Some r" if asm: "expr_eq_n (Suc n) e1 e2 = Some r" for e1 e2 r
  proof (cases "\<exists>t l r l' r'. e1 = XBin t l r \<and> e2 = XBin t l' r'")
    case True
    then obtain t l1 r1 l2 r2 where e: "e1 = XBin t l1 r1" "e2 = XBin t l2 r2" by blast
    from asm show ?thesis
      unfolding e expr_eq_n.simps(2) [of "Suc n"] expr_eq_n.simps(2) [of n]
      by (auto dest!: elims)
  next
    case False
    with asm show ?thesis
      unfolding expr_eq_n.simps(2) [of "Suc n" e1 e2] expr_eq_n.simps(2) [of n e1 e2]
      by (cases e1; cases e2) (simp_all add: eq split: if_splits)
  qed
  moreover have "elim_eq_n (Suc (Suc n)) t e1 e2 c = Some r"
    if asm: "elim_eq_n (Suc n) t e1 e2 c = Some r" for t e1 e2 c r
  proof (cases "operands t e1")
    case None
    show ?thesis
    proof (cases "operands t e2")
      case None': None
      show ?thesis
      proof (cases "expr_eq_n n e1 e2")
        case None
        with asm \<open>operands t e1 = None\<close> None' show ?thesis
          unfolding elim_eq_n.simps(2) [of "Suc n" t e1 e2 c] elim_eq_n.simps(2) [of n t e1 e2 c]
          by (auto split: if_splits)
      next
        case (Some b)
        with asm None None' eq [OF Some] show ?thesis
          unfolding elim_eq_n.simps(2) [of "Suc n" t e1 e2 c] elim_eq_n.simps(2) [of n t e1 e2 c]
          by (auto split: if_splits)
      qed
    next
      case (Some p)
      obtain l r' where p: "p = (l, r')" by fastforce
      from asm None Some p obtain a1 b1 c1 a2 b2 c2 where
        1: "elim_eq_n n t e1 l c = Some (a1, b1, c1)" and
        2: "elim_eq_n n t a1 r' c1 = Some (a2, b2, c2)" and r: "r = (a2, XBin t b1 b2, c2)"
        unfolding elim_eq_n.simps(2) [of n t e1 e2 c] by auto
      show ?thesis
        unfolding elim_eq_n.simps(2) [of "Suc n" t e1 e2 c]
        using None Some p r elim [OF 1] elim [OF 2] by simp
    qed
  next
    case (Some p)
    obtain l r' where p: "p = (l, r')" by fastforce
    from asm Some p obtain a1 b1 c1 a2 b2 c2 where
      1: "elim_eq_n n t l e2 c = Some (a1, b1, c1)" and
      2: "elim_eq_n n t r' b1 c1 = Some (a2, b2, c2)" and r: "r = (XBin t a1 a2, b2, c2)"
      unfolding elim_eq_n.simps(2) [of n t e1 e2 c] by auto
    show ?thesis
      unfolding elim_eq_n.simps(2) [of "Suc n" t e1 e2 c]
      using Some p r elim [OF 1] elim [OF 2] by simp
  qed
  moreover have "eliminate_eq_n (Suc (Suc n)) e1 e2 c = Some r"
    if asm: "eliminate_eq_n (Suc n) e1 e2 c = Some r" for e1 e2 c r
  proof -
    have first: "(case e of XBin t _ _ \<Rightarrow> elim_eq_n (Suc n) t a b d | _ \<Rightarrow> Some (a, b, d)) = Some q"
      if "(case e of XBin t _ _ \<Rightarrow> elim_eq_n n t a b d | _ \<Rightarrow> Some (a, b, d)) = Some q" for e a b d q
      using that by (cases e) (auto dest: elim)
    from asm obtain a1 a2 c1 where
      1: "(case e1 of XBin t _ _ \<Rightarrow> elim_eq_n n t e1 e2 c | _ \<Rightarrow> Some (e1, e2, c)) = Some (a1, a2, c1)"
      unfolding eliminate_eq_n.simps(2) [of n e1 e2 c] by auto
    show ?thesis
    proof (cases "type_of a1 = type_of a2")
      case True
      with asm 1 first [OF 1] show ?thesis
        unfolding eliminate_eq_n.simps(2) [of "Suc n" e1 e2 c] eliminate_eq_n.simps(2) [of n e1 e2 c]
        by simp
    next
      case False
      with asm 1 obtain b1 b2 c2 where
        2: "(case a2 of XBin t _ _ \<Rightarrow> elim_eq_n n t a1 a2 c1 | _ \<Rightarrow> Some (a1, a2, c1)) = Some (b1, b2, c2)"
        and r: "r = (expr_eliminate_yn b1, expr_eliminate_yn b2, c2)"
        unfolding eliminate_eq_n.simps(2) [of n e1 e2 c] by auto
      from False r first [OF 1] first [OF 2] show ?thesis
        unfolding eliminate_eq_n.simps(2) [of "Suc n" e1 e2 c] by simp
    qed
  qed
  ultimately show ?case by blast
qed simp

lemma expr_eq_mono: "expr_eq_n n e1 e2 = Some r \<Longrightarrow> n \<le> m \<Longrightarrow> expr_eq_n m e1 e2 = Some r"
proof (induction m)
  case (Suc m)
  then show ?case using eq_elim_mono [of m] by (auto simp: le_Suc_eq)
qed simp

lemma eliminate_eq_mono:
  "eliminate_eq_n n e1 e2 c = Some r \<Longrightarrow> n \<le> m \<Longrightarrow> eliminate_eq_n m e1 e2 c = Some r"
proof (induction m)
  case (Suc m)
  then show ?case using eq_elim_mono [of m] by (metis le_Suc_eq)
qed simp

text \<open>
  Four units of fuel per node of the two trees: one for the test of a pair of leaves, two for
  entering \<open>&&\<close> or \<open>||\<close> in \<open>expr_eq\<close>, one for the descent.
\<close>

lemma eq_elim_enough:
  "(\<forall>e1 e2. dep_expr e1 \<and> dep_expr e2 \<and> 4 * (nodes e1 + nodes e2) + 3 \<le> n \<longrightarrow>
      (\<exists>b. expr_eq_n n e1 e2 = Some b))
   \<and> (\<forall>t e1 e2 c. dep_expr e1 \<and> dep_expr e2
        \<and> (4 * (nodes e1 + nodes e2) + 4 \<le> n
           \<or> operands t e1 \<noteq> None \<and> 4 * (nodes e1 + nodes e2) + 1 \<le> n) \<longrightarrow>
      (\<exists>r. elim_eq_n n t e1 e2 c = Some r))
   \<and> (\<forall>t l r l' r' c. dep_expr (XBin t l r) \<and> dep_expr (XBin t l' r')
        \<and> 4 * (nodes (XBin t l r) + nodes (XBin t l' r')) + 2 \<le> n \<longrightarrow>
      (\<exists>res. eliminate_eq_n n (XBin t l r) (XBin t l' r') c = Some res))"
proof (induction n)
  case (Suc n)
  have eq: "\<exists>b. expr_eq_n n e1 e2 = Some b"
    if "dep_expr e1" "dep_expr e2" "4 * (nodes e1 + nodes e2) + 3 \<le> n" for e1 e2
    using Suc that by blast
  have elim: "\<exists>a b c'. elim_eq_n n t e1 e2 c = Some (a, b, c')"
    if "dep_expr e1" "dep_expr e2" "4 * (nodes e1 + nodes e2) + 4 \<le> n" for t e1 e2 c
    using Suc that by (metis prod_cases3)
  have elim_desc: "\<exists>a b c'. elim_eq_n n t (XBin t l r) e2 c = Some (a, b, c')"
    if "dep_expr (XBin t l r)" "dep_expr e2" "4 * (nodes (XBin t l r) + nodes e2) + 1 \<le> n"
    for t l r e2 c
    using Suc that by (metis operands_None_iff prod_cases3)
  have elims: "\<exists>a b c'. eliminate_eq_n n (XBin t l r) (XBin t l' r') c = Some (a, b, c')"
    if "dep_expr (XBin t l r)" "dep_expr (XBin t l' r')"
      "4 * (nodes (XBin t l r) + nodes (XBin t l' r')) + 2 \<le> n" for t l r l' r' c
    using Suc that by (metis prod_cases3)
  have "\<exists>b. expr_eq_n (Suc n) e1 e2 = Some b"
    if asm: "dep_expr e1" "dep_expr e2" "4 * (nodes e1 + nodes e2) + 3 \<le> Suc n" for e1 e2
  proof (cases "\<exists>t l r l' r'. e1 = XBin t l r \<and> e2 = XBin t l' r'")
    case True
    then obtain t l r l' r' where e: "e1 = XBin t l r" "e2 = XBin t l' r'" by blast
    with asm obtain a b c where "eliminate_eq_n n (XBin t l r) (XBin t l' r') 0 = Some (a, b, c)"
      using elims [of t l r l' r' 0] by auto
    with asm e show ?thesis by (simp add: expr_eq_n.simps(2))
  next
    case False
    with asm show ?thesis
      by (cases e1; cases e2) (auto intro!: eq simp: expr_eq_n.simps(2))
  qed
  moreover have "\<exists>r. elim_eq_n (Suc n) t e1 e2 c = Some r"
    if asm: "dep_expr e1" "dep_expr e2"
      "4 * (nodes e1 + nodes e2) + 4 \<le> Suc n
       \<or> operands t e1 \<noteq> None \<and> 4 * (nodes e1 + nodes e2) + 1 \<le> Suc n" for t e1 e2 c
  proof (cases "operands t e1")
    case None
    show ?thesis
    proof (cases "operands t e2")
      case None': None
      from asm None have "4 * (nodes e1 + nodes e2) + 3 \<le> n" by auto
      then obtain b where "expr_eq_n n e1 e2 = Some b" using eq asm by blast
      with None None' show ?thesis by (auto simp: elim_eq_n.simps(2))
    next
      case (Some p)
      obtain l r where p: "e2 = XBin t l r" using Some by (cases p) auto
      with asm None obtain a1 b1 c1 where 1: "elim_eq_n n t e1 l c = Some (a1, b1, c1)"
        using elim [of e1 l t c] by auto
      with elim_eq_keeps [OF 1] asm None p
      obtain a2 b2 c2 where 2: "elim_eq_n n t a1 r c1 = Some (a2, b2, c2)"
        using elim [of a1 r t c1] by auto
      from None p 1 2 show ?thesis by (auto simp: elim_eq_n.simps(2))
    qed
  next
    case (Some p)
    obtain l r where p: "e1 = XBin t l r" using Some by (cases p) auto
    with asm obtain a1 b1 c1 where 1: "elim_eq_n n t l e2 c = Some (a1, b1, c1)"
      using elim [of l e2 t c] by auto
    with elim_eq_keeps [OF 1] asm p
    obtain a2 b2 c2 where 2: "elim_eq_n n t r b1 c1 = Some (a2, b2, c2)"
      using elim [of r b1 t c1] by auto
    from p 1 2 show ?thesis by (auto simp: elim_eq_n.simps(2))
  qed
  moreover have "\<exists>res. eliminate_eq_n (Suc n) (XBin t l r) (XBin t l' r') c = Some res"
    if asm: "dep_expr (XBin t l r)" "dep_expr (XBin t l' r')"
      "4 * (nodes (XBin t l r) + nodes (XBin t l' r')) + 2 \<le> Suc n" for t l r l' r' c
  proof -
    obtain a1 a2 c1 where 1: "elim_eq_n n t (XBin t l r) (XBin t l' r') c = Some (a1, a2, c1)"
      using elim_desc [of t l r "XBin t l' r'" c] asm by auto
    from elim_eq_level1 [OF 1] elim_eq_level2 [OF 1] have "type_of a1 = type_of a2" by auto
    with 1 show ?thesis by (auto simp: eliminate_eq_n.simps(2))
  qed
  ultimately show ?case by blast
qed simp

text \<open>
  The functions as the code calls them, with the fuel above. On dependency expressions the
  default of \<open>expr_eq\<close> is never reached (\<open>expr_eq_n_total\<close>).
\<close>

definition expr_eq :: "expr \<Rightarrow> expr \<Rightarrow> bool" where
  "expr_eq e1 e2 = (expr_eq_n (4 * (nodes e1 + nodes e2) + 3) e1 e2 = Some True)"

definition expr_eliminate_eq ::
  "expr option \<Rightarrow> expr option \<Rightarrow> nat \<Rightarrow> (expr option \<times> expr option \<times> nat) option" where
  "expr_eliminate_eq ep1 ep2 cnt =
     (case (ep1, ep2) of
        (Some e1, Some e2) \<Rightarrow>
          do { (a, b, cnt') \<leftarrow> eliminate_eq_n (4 * (nodes e1 + nodes e2) + 5) e1 e2 cnt;
               Some (Some a, Some b, cnt') }
      | _ \<Rightarrow> Some (ep1, ep2, cnt))"

lemma expr_eq_n_total:
  assumes "dep_expr e1" "dep_expr e2" "4 * (nodes e1 + nodes e2) + 3 \<le> n"
  shows "expr_eq_n n e1 e2 = Some (expr_eq e1 e2)"
proof -
  obtain b where b: "expr_eq_n (4 * (nodes e1 + nodes e2) + 3) e1 e2 = Some b"
    using eq_elim_enough assms(1,2) by blast
  with assms(3) have "expr_eq_n n e1 e2 = Some b" by (blast intro: expr_eq_mono)
  with b show ?thesis by (simp add: expr_eq_def)
qed

lemma expr_eq_sound:
  "expr_eq e1 e2 \<Longrightarrow> dep_expr e1 \<Longrightarrow> dep_expr e2 \<Longrightarrow>
     expr_calc_value \<sigma> e1 = expr_calc_value \<sigma> e2"
  using eq_elim_sound unfolding expr_eq_def by blast

text \<open>On the cases without \<open>&&\<close> and \<open>||\<close> the test is the recursive equation of the source.\<close>

lemma expr_eq_simps [simp]:
  "expr_eq (XSym s) (XSym t) = (s = t)"
  "expr_eq (XRel r s t) (XRel r' s' t') = (r = r' \<and> s = s' \<and> t = t')"
  by (simp_all add: expr_eq_def numeral_eq_Suc expr_eq_n.simps(2))

lemma expr_eq_Not [simp]:
  "dep_expr a \<Longrightarrow> dep_expr b \<Longrightarrow> expr_eq (XNot a) (XNot b) = expr_eq a b"
  using expr_eq_n_total [of a b "4 * (nodes (XNot a) + nodes (XNot b)) + 2"]
  unfolding expr_eq_def [of "XNot a"]
  by (simp add: expr_eq_n.simps(2) [of "10 + (4 * nodes a + 4 * nodes b)", simplified])

lemma expr_eq_type: "expr_eq e1 e2 \<Longrightarrow> type_of e1 = type_of e2"
  by (auto simp: expr_eq_def numeral_3_eq_3 expr_eq_n.simps(2) split: if_splits)

section \<open>The join rules\<close>

text \<open>The symbol \<open>sym1\<close> (\<open>sym2\<close>) of the join, or \<open>None\<close> where the code returns NULL.\<close>

fun join_sym1 :: "expr \<Rightarrow> symref option" where
  "join_sym1 (XSym s) = Some s"
| "join_sym1 (XRel R_EQUAL s t) = Some s"
| "join_sym1 (XRel R_UNEQUAL s t) = Some s"
| "join_sym1 (XNot (XSym s)) = Some s"
| "join_sym1 (XNot (XRel R_EQUAL s t)) = Some s"
| "join_sym1 (XNot (XRel R_UNEQUAL s t)) = Some s"
| "join_sym1 _ = None"

fun join_sym2 :: "expr \<Rightarrow> symref option" where
  "join_sym2 (XSym s) = Some s"
| "join_sym2 (XRel R_EQUAL s t) = Some s"
| "join_sym2 (XRel R_UNEQUAL s t) = Some s"
| "join_sym2 (XNot (XSym s)) = Some s"
| "join_sym2 _ = None"

text \<open>\<open>e->type == rel\<close>, and then \<open>e->right.sym\<close>.\<close>

fun right_of :: "relop \<Rightarrow> expr \<Rightarrow> symref option" where
  "right_of rel (XRel r s t) = (if r = rel then Some t else None)"
| "right_of rel _ = None"

lemma right_of_Some [simp]: "right_of rel e = Some t \<longleftrightarrow> (\<exists>s. e = XRel rel s t)"
  by (cases e) auto

abbreviation both_right :: "relop \<Rightarrow> expr \<Rightarrow> expr \<Rightarrow> symref \<Rightarrow> symref \<Rightarrow> bool" where
  "both_right rel e1 e2 a b \<equiv>
     (right_of rel e1 = Some a \<and> right_of rel e2 = Some b)
     \<or> (right_of rel e1 = Some b \<and> right_of rel e2 = Some a)"

abbreviation sym_and_right :: "relop \<Rightarrow> expr \<Rightarrow> expr \<Rightarrow> symref \<Rightarrow> bool" where
  "sym_and_right rel e1 e2 a \<equiv>
     (type_of e1 = E_SYMBOL \<and> right_of rel e2 = Some a)
     \<or> (type_of e2 = E_SYMBOL \<and> right_of rel e1 = Some a)"

definition is_not_sym :: "expr \<Rightarrow> bool" where
  "is_not_sym e = (case e of XNot (XSym s) \<Rightarrow> True | _ \<Rightarrow> False)"

lemma is_not_sym_iff [simp]: "is_not_sym e \<longleftrightarrow> (\<exists>s. e = XNot (XSym s))"
  by (auto simp: is_not_sym_def split: expr.splits)

text \<open>The common tests of the two joins: the symbol both operands are about.\<close>

definition join_sym :: "symtab \<Rightarrow> expr \<Rightarrow> expr \<Rightarrow> symref option" where
  "join_sym \<sigma> e1 e2 =
     (case (join_sym1 e1, join_sym2 e2) of
        (Some sym1, Some sym2) \<Rightarrow>
          if sym1 \<noteq> sym2 then None
          else if type_of_sym \<sigma> sym1 \<noteq> S_BOOLEAN \<and> type_of_sym \<sigma> sym1 \<noteq> S_TRISTATE then None
          else Some sym1
      | _ \<Rightarrow> None)"

definition or_rules :: "symtab \<Rightarrow> symref \<Rightarrow> expr \<Rightarrow> expr \<Rightarrow> expr option" where
  "or_rules \<sigma> sym1 e1 e2 =
     (if type_of_sym \<sigma> sym1 = S_TRISTATE \<and> both_right R_EQUAL e1 e2 symbol_yes symbol_mod
      then Some (expr_alloc_comp R_UNEQUAL sym1 symbol_no)
      else if type_of_sym \<sigma> sym1 = S_TRISTATE \<and> both_right R_EQUAL e1 e2 symbol_yes symbol_no
      then Some (expr_alloc_comp R_UNEQUAL sym1 symbol_mod)
      else if type_of_sym \<sigma> sym1 = S_TRISTATE \<and> both_right R_EQUAL e1 e2 symbol_mod symbol_no
      then Some (expr_alloc_comp R_UNEQUAL sym1 symbol_yes)
      else if type_of_sym \<sigma> sym1 = S_BOOLEAN
              \<and> (is_not_sym e1 \<and> type_of e2 = E_SYMBOL
                 \<or> is_not_sym e2 \<and> type_of e1 = E_SYMBOL)
      then Some (expr_alloc_symbol symbol_yes)
      else None)"

definition expr_join_or :: "symtab \<Rightarrow> expr \<Rightarrow> expr \<Rightarrow> expr option" where
  "expr_join_or \<sigma> e1 e2 =
     (if expr_eq e1 e2 then expr_copy e1
      else do { sym1 \<leftarrow> join_sym \<sigma> e1 e2; or_rules \<sigma> sym1 e1 e2 })"

text \<open>
  \<open>(a='b') && (a!='c')\<close>, in either order, with two constants: \<open>'b'='c' ? 'n' : a='b'\<close>. With
  other symbols the code goes on to the rules below, none of which applies then.
\<close>

definition equal_unequal :: "symtab \<Rightarrow> symref \<Rightarrow> symref \<Rightarrow> symref \<Rightarrow> expr option" where
  "equal_unequal \<sigma> sym1 b c =
     (if is_const (symbol_of \<sigma> c) \<and> is_const (symbol_of \<sigma> b)
      then Some (if b \<noteq> c then expr_alloc_comp R_EQUAL sym1 b else expr_alloc_symbol symbol_no)
      else None)"

definition and_rules :: "symtab \<Rightarrow> symref \<Rightarrow> expr \<Rightarrow> expr \<Rightarrow> expr option" where
  "and_rules \<sigma> sym1 e1 e2 =
     (if sym_and_right R_EQUAL e1 e2 symbol_yes
      then Some (expr_alloc_comp R_EQUAL sym1 symbol_yes)
      else if sym_and_right R_UNEQUAL e1 e2 symbol_no then Some (expr_alloc_symbol sym1)
      else if sym_and_right R_UNEQUAL e1 e2 symbol_mod
      then Some (expr_alloc_comp R_EQUAL sym1 symbol_yes)
      else if type_of_sym \<sigma> sym1 = S_TRISTATE then
        (case (e1, e2) of
           (XRel R_EQUAL _ b, XRel R_UNEQUAL _ c) \<Rightarrow> equal_unequal \<sigma> sym1 b c
         | (XRel R_UNEQUAL _ c, XRel R_EQUAL _ b) \<Rightarrow> equal_unequal \<sigma> sym1 b c
         | _ \<Rightarrow>
           if both_right R_UNEQUAL e1 e2 symbol_yes symbol_no
           then Some (expr_alloc_comp R_EQUAL sym1 symbol_mod)
           else if both_right R_UNEQUAL e1 e2 symbol_yes symbol_mod
           then Some (expr_alloc_comp R_EQUAL sym1 symbol_no)
           else if both_right R_UNEQUAL e1 e2 symbol_mod symbol_no
           then Some (expr_alloc_comp R_EQUAL sym1 symbol_yes)
           else None)
      else None)"

definition expr_join_and :: "symtab \<Rightarrow> expr \<Rightarrow> expr \<Rightarrow> expr option" where
  "expr_join_and \<sigma> e1 e2 =
     (if expr_eq e1 e2 then expr_copy e1
      else do { sym1 \<leftarrow> join_sym \<sigma> e1 e2; and_rules \<sigma> sym1 e1 e2 })"

lemma join_sym_logical: "join_sym \<sigma> e1 e2 = Some s \<Longrightarrow> logical_sym \<sigma> s"
  by (auto simp: join_sym_def logical_sym_def split: option.splits if_splits)

text \<open>The shapes the two operands can have.\<close>

definition about :: "symref \<Rightarrow> expr \<Rightarrow> bool" where
  "about s e \<longleftrightarrow> e = XSym s \<or> (\<exists>t. e = XRel R_EQUAL s t) \<or> (\<exists>t. e = XRel R_UNEQUAL s t)"

lemma join_sym_about:
  assumes "join_sym \<sigma> e1 e2 = Some s"
  shows "about s e1 \<or> (\<exists>e. e1 = XNot e \<and> about s e)" "about s e2 \<or> e2 = XNot (XSym s)"
proof -
  from assms have "join_sym1 e1 = Some s" "join_sym2 e2 = Some s"
    by (auto simp: join_sym_def split: option.splits if_splits)
  note syms = this
  from syms(1) show "about s e1 \<or> (\<exists>e. e1 = XNot e \<and> about s e)"
    unfolding about_def by (cases e1 rule: join_sym1.cases; simp)
  from syms(2) show "about s e2 \<or> e2 = XNot (XSym s)"
    unfolding about_def by (cases e2 rule: join_sym2.cases; simp)
qed

text \<open>
  What the rules for two comparisons with constants rely on: a constant of the table is a string
  that is no number, different from \<open>y\<close>, \<open>m\<close> and \<open>n\<close>, and constants are interned.
\<close>

definition consts_plain :: "symtab \<Rightarrow> bool" where
  "consts_plain \<sigma> \<longleftrightarrow>
     (\<forall>i. is_const (syms \<sigma> i) \<longrightarrow>
        stype (syms \<sigma> i) = S_UNKNOWN
        \<and> fst (expr_parse_string (curr_val (syms \<sigma> i)) S_UNKNOWN) = k_string
        \<and> curr_val (syms \<sigma> i) \<notin> {''y'', ''m'', ''n''})
     \<and> (\<forall>i j. is_const (syms \<sigma> i) \<and> is_const (syms \<sigma> j)
          \<and> curr_val (syms \<sigma> i) = curr_val (syms \<sigma> j) \<longrightarrow> i = j)"

lemma compare_const:
  assumes "consts_plain \<sigma>" "is_const (symbol_of \<sigma> c)"
  shows "expr_compare \<sigma> s c = c_strcmp (sym_get_string_value \<sigma> s) (curr_val (symbol_of \<sigma> c))"
proof (cases c)
  case (Sym i)
  with assms show ?thesis
    by (auto simp: consts_plain_def expr_compare_def sym_get_string_value_def Let_def split_beta)
qed (use assms in \<open>simp_all add: expr_compare_const\<close>)

lemma const_strings_differ:
  assumes "consts_plain \<sigma>" "is_const (symbol_of \<sigma> b)" "is_const (symbol_of \<sigma> c)" "b \<noteq> c"
  shows "curr_val (symbol_of \<sigma> b) \<noteq> curr_val (symbol_of \<sigma> c)"
  using assms by (cases b; cases c) (auto simp: consts_plain_def)

lemma compare_two_consts:
  assumes "consts_plain \<sigma>" "is_const (symbol_of \<sigma> b)" "is_const (symbol_of \<sigma> c)" "b \<noteq> c"
    "expr_compare \<sigma> s b = 0"
  shows "expr_compare \<sigma> s c \<noteq> 0"
  using assms const_strings_differ [OF assms(1-4)] by (auto simp: compare_const)

lemma or_rules_sound:
  assumes "calculated \<sigma>" "join_sym \<sigma> e1 e2 = Some s" "or_rules \<sigma> s e1 e2 = Some t"
  shows "expr_calc_value \<sigma> t = EXPR_OR (expr_calc_value \<sigma> e1) (expr_calc_value \<sigma> e2)"
proof -
  note tri = compare_logical_consts [OF assms(1) join_sym_logical [OF assms(2)]]
  from join_sym_about [OF assms(2)] assms(3)
  have "(type_of_sym \<sigma> s = S_BOOLEAN \<and> {e1, e2} = {XSym s, XNot (XSym s)} \<and> t = XSym symbol_yes)
    \<or> (\<exists>a b. e1 = XRel R_EQUAL s a \<and> e2 = XRel R_EQUAL s b
         \<and> ((({a, b} = {symbol_yes, symbol_mod}) \<and> t = XRel R_UNEQUAL s symbol_no)
          \<or> (({a, b} = {symbol_yes, symbol_no}) \<and> t = XRel R_UNEQUAL s symbol_mod)
          \<or> (({a, b} = {symbol_mod, symbol_no}) \<and> t = XRel R_UNEQUAL s symbol_yes)))"
    unfolding or_rules_def about_def by (auto split: if_splits)
  then show ?thesis
  proof (elim disjE exE conjE)
    assume "type_of_sym \<sigma> s = S_BOOLEAN" "{e1, e2} = {XSym s, XNot (XSym s)}" "t = XSym symbol_yes"
    with boolean_sym_tri [OF assms(1), of s] show ?thesis by (auto simp: doubleton_eq_iff)
  qed (cases "tri_of_sym \<sigma> s"; auto simp: doubleton_eq_iff tri)+
qed

lemma equal_unequal_sound:
  assumes "consts_plain \<sigma>" "equal_unequal \<sigma> s b c = Some t"
  shows "expr_calc_value \<sigma> t =
    EXPR_AND (rel_result R_EQUAL (expr_compare \<sigma> s b)) (rel_result R_UNEQUAL (expr_compare \<sigma> s c))"
  using assms compare_two_consts [OF assms(1), of b c s]
  by (cases "b = c") (auto simp: equal_unequal_def split: if_splits)

lemma and_rules_shape:
  assumes "join_sym \<sigma> e1 e2 = Some s" "and_rules \<sigma> s e1 e2 = Some t"
  shows "({e1, e2} = {XSym s, XRel R_EQUAL s symbol_yes} \<and> t = XRel R_EQUAL s symbol_yes)
    \<or> ({e1, e2} = {XSym s, XRel R_UNEQUAL s symbol_no} \<and> t = XSym s)
    \<or> ({e1, e2} = {XSym s, XRel R_UNEQUAL s symbol_mod} \<and> t = XRel R_EQUAL s symbol_yes)
    \<or> (\<exists>b c. {e1, e2} = {XRel R_EQUAL s b, XRel R_UNEQUAL s c} \<and> equal_unequal \<sigma> s b c = Some t)
    \<or> (\<exists>a b. e1 = XRel R_UNEQUAL s a \<and> e2 = XRel R_UNEQUAL s b
         \<and> ((({a, b} = {symbol_yes, symbol_no}) \<and> t = XRel R_EQUAL s symbol_mod)
          \<or> (({a, b} = {symbol_yes, symbol_mod}) \<and> t = XRel R_EQUAL s symbol_no)
          \<or> (({a, b} = {symbol_mod, symbol_no}) \<and> t = XRel R_EQUAL s symbol_yes)))"
  using join_sym_about [OF assms(1)] assms(2) unfolding about_def
  by (elim disjE exE conjE) (simp_all add: and_rules_def doubleton_eq_iff split: if_splits)

lemma EXPR_comm: "EXPR_OR a b = EXPR_OR b a" "EXPR_AND a b = EXPR_AND b a"
  using lvl.op_comm [of B_OR] lvl.op_comm [of B_AND] by simp_all

lemma and_rules_sound:
  assumes "calculated \<sigma>" "consts_plain \<sigma>" "join_sym \<sigma> e1 e2 = Some s" "and_rules \<sigma> s e1 e2 = Some t"
  shows "expr_calc_value \<sigma> t = EXPR_AND (expr_calc_value \<sigma> e1) (expr_calc_value \<sigma> e2)"
proof -
  note tri = compare_logical_consts [OF assms(1) join_sym_logical [OF assms(3)]]
  from and_rules_shape [OF assms(3,4)] show ?thesis
  proof (elim disjE exE conjE)
    fix b c
    assume *: "{e1, e2} = {XRel R_EQUAL s b, XRel R_UNEQUAL s c}" "equal_unequal \<sigma> s b c = Some t"
    then have "expr_calc_value \<sigma> t =
        EXPR_AND (expr_calc_value \<sigma> (XRel R_EQUAL s b)) (expr_calc_value \<sigma> (XRel R_UNEQUAL s c))"
      by (simp only: expr_calc_value.simps equal_unequal_sound [OF assms(2)])
    with *(1) show ?thesis by (auto simp: doubleton_eq_iff EXPR_comm)
  qed (cases "tri_of_sym \<sigma> s"; auto simp: doubleton_eq_iff tri)+
qed

lemma join_or_sound:
  assumes "calculated \<sigma>" "dep_expr e1" "dep_expr e2" "expr_join_or \<sigma> e1 e2 = Some t"
  shows "expr_calc_value \<sigma> t = EXPR_OR (expr_calc_value \<sigma> e1) (expr_calc_value \<sigma> e2)"
  using assms expr_eq_sound [of e1 e2 \<sigma>]
  by (auto simp: expr_join_or_def dest: or_rules_sound split: if_splits)

lemma join_and_sound:
  assumes "calculated \<sigma>" "consts_plain \<sigma>" "dep_expr e1" "dep_expr e2" "expr_join_and \<sigma> e1 e2 = Some t"
  shows "expr_calc_value \<sigma> t = EXPR_AND (expr_calc_value \<sigma> e1) (expr_calc_value \<sigma> e2)"
  using assms expr_eq_sound [of e1 e2 \<sigma>]
  by (auto simp: expr_join_and_def dest: and_rules_sound split: if_splits)

text \<open>What a join returns is a copy of the first operand or a single leaf.\<close>

lemma or_rules_leaf: "or_rules \<sigma> s e1 e2 = Some t \<Longrightarrow> t = XSym symbol_yes \<or> (\<exists>c. t = XRel R_UNEQUAL s c)"
  by (auto simp: or_rules_def split: if_splits)

lemma and_rules_leaf:
  assumes "join_sym \<sigma> e1 e2 = Some s" "and_rules \<sigma> s e1 e2 = Some t"
  shows "t = XSym symbol_no \<or> t = XSym s \<or> (\<exists>c. t = XRel R_EQUAL s c)"
  using and_rules_shape [OF assms] by (auto simp: equal_unequal_def split: if_splits)

definition expr_join :: "symtab \<Rightarrow> binop \<Rightarrow> expr \<Rightarrow> expr \<Rightarrow> expr option" where
  "expr_join \<sigma> type e1 e2 =
     (case type of B_OR \<Rightarrow> expr_join_or \<sigma> e1 e2 | B_AND \<Rightarrow> expr_join_and \<sigma> e1 e2)"

lemma join_sound:
  assumes "calculated \<sigma>" "consts_plain \<sigma>" "dep_expr e1" "dep_expr e2" "expr_join \<sigma> b e1 e2 = Some t"
  shows "expr_calc_value \<sigma> t = comb b (expr_calc_value \<sigma> e1) (expr_calc_value \<sigma> e2)"
  using assms by (cases b) (auto simp: expr_join_def intro: join_or_sound join_and_sound)

lemma join_keeps:
  assumes "expr_join \<sigma> b e1 e2 = Some t"
  shows "t = e1 \<and> dep_expr e1 \<or> (\<exists>s. t = XSym s) \<or> (\<exists>r s c. t = XRel r s c)"
  using assms
  by (auto simp: expr_join_def expr_join_or_def expr_join_and_def expr_copy_Some_iff
      dest: or_rules_leaf and_rules_leaf split: binop.splits if_splits)

end
