(* ===== verification/Kconfig_Dups.thy ===== *)
theory Kconfig_Dups
  imports Kconfig_Simplify
begin

text \<open>
  \<open>expr_eliminate_dups\<close> of \<open>kconfig/expr.c\<close>: the walk with two pointers into one tree
  (\<open>expr_eliminate_dups1\<close>), with the fuel that is enough for it, and the loop around it. The walk
  keeps the value of the tree; a pass of the loop that changed something left a constant operand
  to take away, so the loop ends.
\<close>

section \<open>expr_eliminate_dups\<close>

text \<open>
  \<open>expr_eliminate_dups1\<close> walks one tree with two pointers, which start at the same node. A
  pointer \<open>struct expr **\<close> is the path from the root pointer to the node it designates (the
  operands only hang under \<open>&&\<close> and \<open>||\<close>), so that \<open>e1 == e2\<close> is equality of paths, and both
  pointers see the same, changing tree. Trees do not share nodes.
\<close>

datatype dir = L | R

fun node_at :: "expr \<Rightarrow> dir list \<Rightarrow> expr option" where
  "node_at e [] = Some e"
| "node_at (XBin b l r) (L # p) = node_at l p"
| "node_at (XBin b l r) (R # p) = node_at r p"
| "node_at _ _ = None"

fun put_at :: "dir list \<Rightarrow> expr \<Rightarrow> expr \<Rightarrow> expr" where
  "put_at [] v e = v"
| "put_at (L # p) v (XBin b l r) = XBin b (put_at p v l) r"
| "put_at (R # p) v (XBin b l r) = XBin b l (put_at p v r)"
| "put_at _ v e = e"

text \<open>The last step on two different leaves \<open>e1\<close> at \<open>p1\<close> and \<open>e2\<close> at \<open>p2\<close> of the tree \<open>e\<close>: \<open>r\<close> is
  what the recursive call left of \<open>e1\<close>, with the count.\<close>

definition leaf_step ::
  "symtab \<Rightarrow> binop \<Rightarrow> dir list \<Rightarrow> dir list \<Rightarrow> expr \<Rightarrow> expr \<Rightarrow> expr \<times> nat \<Rightarrow> expr \<times> nat" where
  "leaf_step \<sigma> type p1 p2 e e2 r =
     (case expr_join \<sigma> type (fst r) e2 of
        None \<Rightarrow> (put_at p1 (fst r) e, snd r)
      | Some tmp \<Rightarrow> (put_at p2 tmp (put_at p1 (expr_alloc_symbol (unit_sym type)) e), snd r + 1))"

text \<open>
  The walk. The recursive call for a leaf \<open>e1\<close> that is a node of the other level
  gets \<open>&e1\<close> twice, so it works on that subtree with the empty path.
\<close>

fun dups1 :: "nat \<Rightarrow> symtab \<Rightarrow> binop \<Rightarrow> dir list \<Rightarrow> dir list \<Rightarrow> expr \<times> nat \<Rightarrow> (expr \<times> nat) option"
where
  "dups1 0 \<sigma> type p1 p2 st = None"
| "dups1 (Suc n) \<sigma> type p1 p2 st =
     do { e1 \<leftarrow> node_at (fst st) p1;
          e2 \<leftarrow> node_at (fst st) p2;
          (case operands type e1 of
             Some _ \<Rightarrow>
               do { st' \<leftarrow> dups1 n \<sigma> type (p1 @ [L]) p2 st;
                    dups1 n \<sigma> type (p1 @ [R]) p2 st' }
           | None \<Rightarrow>
             (case operands type e2 of
                Some _ \<Rightarrow>
                  do { st' \<leftarrow> dups1 n \<sigma> type p1 (p2 @ [L]) st;
                       dups1 n \<sigma> type p1 (p2 @ [R]) st' }
              | None \<Rightarrow>
                  if p1 = p2 then Some st
                  else do {
                    r \<leftarrow> (case e1 of XBin t _ _ \<Rightarrow> dups1 n \<sigma> t [] [] (e1, snd st)
                          | _ \<Rightarrow> Some (e1, snd st));
                    Some (leaf_step \<sigma> type p1 p2 (fst st) e2 r) })) }"

text \<open>A path whose proper prefixes are all nodes of the level.\<close>

fun in_level :: "binop \<Rightarrow> expr \<Rightarrow> dir list \<Rightarrow> bool" where
  "in_level t e [] = True"
| "in_level t (XBin b l r) (L # p) = (b = t \<and> in_level t l p)"
| "in_level t (XBin b l r) (R # p) = (b = t \<and> in_level t r p)"
| "in_level t _ _ = False"

lemma in_level_node: "in_level t e p \<Longrightarrow> \<exists>x. node_at e p = Some x"
  by (induction t e p rule: in_level.induct) auto

lemma in_level_Cons: "in_level t e (d # p) \<Longrightarrow> \<exists>l r. e = XBin t l r"
  by (cases e; cases d; auto)

lemma in_level_snoc:
  "in_level t e (p @ [d]) \<longleftrightarrow> (\<exists>l r. in_level t e p \<and> node_at e p = Some (XBin t l r))"
proof (induction t e p rule: in_level.induct)
  case (1 t e)
  then show ?case by (cases e; cases d; auto)
qed auto

lemma node_at_nodes: "node_at e p = Some x \<Longrightarrow> nodes x + length p \<le> nodes e"
  by (induction e p rule: node_at.induct) auto

lemma node_at_dep: "node_at e p = Some x \<Longrightarrow> dep_expr e \<Longrightarrow> dep_expr x"
  by (induction e p rule: node_at.induct) auto

lemma put_at_same: "node_at e p = Some x \<Longrightarrow> put_at p x e = e"
  by (induction e p rule: node_at.induct) auto

lemma put_at_dep: "dep_expr e \<Longrightarrow> dep_expr v \<Longrightarrow> dep_expr (put_at p v e)"
  by (induction p v e rule: put_at.induct) auto

lemma put_at_nodes: "node_at e p = Some x \<Longrightarrow> nodes (put_at p v e) + nodes x = nodes e + nodes v"
  by (induction e p rule: node_at.induct) auto

lemma put_at_leaf_level:
  "in_level t e q \<Longrightarrow> node_at e p = Some x \<Longrightarrow> operands t x = None \<Longrightarrow> in_level t (put_at p v e) q"
proof (induction t e q arbitrary: p rule: in_level.induct)
  case (2 t b l r q)
  then show ?case by (cases p) (auto, case_tac a, auto)
next
  case (3 t b l r q)
  then show ?case by (cases p) (auto, case_tac a, auto)
qed auto

lemma put_at_level_value:
  "in_level t e p \<Longrightarrow> node_at e p = Some x \<Longrightarrow>
     \<exists>z. \<forall>v. expr_calc_value \<sigma> (put_at p v e) = comb t z (expr_calc_value \<sigma> v)"
proof (induction t e p rule: in_level.induct)
  case (1 t e)
  show ?case by (rule exI [where x = "tri_of_sym \<sigma> (unit_sym t)"]) (simp add: lvl.op_unit)
next
  case (2 t b l r p)
  then obtain z where "\<forall>v. expr_calc_value \<sigma> (put_at p v l) = comb t z (expr_calc_value \<sigma> v)" by auto
  with 2 show ?case
    by (intro exI [where x = "comb t z (expr_calc_value \<sigma> r)"]) (simp add: lvl.op_ac)
next
  case (3 t b l r p)
  then obtain z where "\<forall>v. expr_calc_value \<sigma> (put_at p v r) = comb t z (expr_calc_value \<sigma> v)" by auto
  with 3 show ?case
    by (intro exI [where x = "comb t z (expr_calc_value \<sigma> l)"]) (simp add: lvl.op_ac)
qed auto

text \<open>Two different leaves of a level: only the combination of the two counts.\<close>

lemma put_at_two_value:
  "in_level t e p \<Longrightarrow> in_level t e q \<Longrightarrow> node_at e p = Some x \<Longrightarrow> node_at e q = Some y \<Longrightarrow>
   operands t x = None \<Longrightarrow> operands t y = None \<Longrightarrow> p \<noteq> q \<Longrightarrow>
     \<exists>z. \<forall>v w. expr_calc_value \<sigma> (put_at q w (put_at p v e))
              = comb t z (comb t (expr_calc_value \<sigma> v) (expr_calc_value \<sigma> w))"
proof (induction t e p arbitrary: q rule: in_level.induct)
  case (1 t e)
  then show ?case by (cases q) (auto dest: in_level_Cons)
next
  case (2 t b l r p)
  show ?case
  proof (cases q)
    case Nil
    with 2 show ?thesis by auto
  next
    case (Cons d q')
    show ?thesis
    proof (cases d)
      case L
      with Cons 2 obtain z where z: "\<forall>v w. expr_calc_value \<sigma> (put_at q' w (put_at p v l))
              = comb t z (comb t (expr_calc_value \<sigma> v) (expr_calc_value \<sigma> w))" by fastforce
      with Cons L 2 show ?thesis
        by (intro exI [where x = "comb t z (expr_calc_value \<sigma> r)"]) (simp add: lvl.op_ac)
    next
      case R
      from 2 obtain z1 where z1: "\<forall>v. expr_calc_value \<sigma> (put_at p v l) = comb t z1 (expr_calc_value \<sigma> v)"
        using put_at_level_value [of t l p x \<sigma>] by auto
      from 2 Cons R obtain z2 where z2: "\<forall>v. expr_calc_value \<sigma> (put_at q' v r) = comb t z2 (expr_calc_value \<sigma> v)"
        using put_at_level_value [of t r q' y \<sigma>] by auto
      from 2 Cons R z1 z2 show ?thesis
        by (intro exI [where x = "comb t z1 z2"]) (simp add: lvl.op_ac)
    qed
  qed
next
  case (3 t b l r p)
  show ?case
  proof (cases q)
    case Nil
    with 3 show ?thesis by auto
  next
    case (Cons d q')
    show ?thesis
    proof (cases d)
      case R
      with Cons 3 obtain z where z: "\<forall>v w. expr_calc_value \<sigma> (put_at q' w (put_at p v r))
              = comb t z (comb t (expr_calc_value \<sigma> v) (expr_calc_value \<sigma> w))" by fastforce
      with Cons R 3 show ?thesis
        by (intro exI [where x = "comb t z (expr_calc_value \<sigma> l)"]) (simp add: lvl.op_ac)
    next
      case L
      from 3 obtain z1 where z1: "\<forall>v. expr_calc_value \<sigma> (put_at p v r) = comb t z1 (expr_calc_value \<sigma> v)"
        using put_at_level_value [of t r p x \<sigma>] by auto
      from 3 Cons L obtain z2 where z2: "\<forall>v. expr_calc_value \<sigma> (put_at q' v l) = comb t z2 (expr_calc_value \<sigma> v)"
        using put_at_level_value [of t l q' y \<sigma>] by auto
      from 3 Cons L z1 z2 show ?thesis
        by (intro exI [where x = "comb t z1 z2"]) (simp add: lvl.op_ac)
    qed
  qed
qed auto

lemma yn_free_node_at: "node_at e p = Some x \<Longrightarrow> yn_free e \<Longrightarrow> yn_free x"
  by (induction e p rule: node_at.induct) auto

lemma unit_operand_not_yn_free:
  "in_level t e p \<Longrightarrow> p \<noteq> [] \<Longrightarrow> node_at e p = Some (XSym (unit_sym t)) \<Longrightarrow> \<not> yn_free e"
proof (induction t e p rule: in_level.induct)
  case (2 t b l r p)
  then show ?case by (cases p; cases t) auto
next
  case (3 t b l r p)
  then show ?case by (cases p; cases t) auto
qed auto

lemma eliminate_yn_shrinks: "\<not> yn_free e \<Longrightarrow> nodes (expr_eliminate_yn e) < nodes e"
proof (induction e rule: expr_eliminate_yn.induct)
  case (1 l r)
  show ?case
    using 1 eliminate_yn_nodes [of l] eliminate_yn_nodes [of r]
    by (cases "yn_free l"; cases "yn_free r") (auto simp: Let_def eliminate_yn_fixed)
next
  case (2 l r)
  show ?case
    using 2 eliminate_yn_nodes [of l] eliminate_yn_nodes [of r]
    by (cases "yn_free l"; cases "yn_free r") (auto simp: Let_def eliminate_yn_fixed)
qed auto

lemma put_at_other_node:
  "in_level t e p \<Longrightarrow> in_level t e q \<Longrightarrow> node_at e p = Some x \<Longrightarrow> node_at e q = Some y \<Longrightarrow>
   operands t x = None \<Longrightarrow> operands t y = None \<Longrightarrow> p \<noteq> q \<Longrightarrow> node_at (put_at p v e) q = Some y"
proof (induction t e p arbitrary: q rule: in_level.induct)
  case (1 t e)
  then show ?case by (cases q) (auto dest: in_level_Cons)
next
  case (2 t b l r p)
  show ?case
  proof (cases q)
    case (Cons d q')
    with 2 show ?thesis by (cases d) auto
  qed (use 2 in auto)
next
  case (3 t b l r p)
  show ?case
  proof (cases q)
    case (Cons d q')
    with 3 show ?thesis by (cases d) auto
  qed (use 3 in auto)
qed auto

lemma node_put_at: "node_at e p = Some x \<Longrightarrow> node_at (put_at p v e) p = Some v"
  by (induction e p rule: node_at.induct) auto

text \<open>What a walk keeps and what the count says about the tree it leaves.\<close>

definition walk_keeps :: "binop \<Rightarrow> expr \<times> nat \<Rightarrow> expr \<times> nat \<Rightarrow> bool" where
  "walk_keeps t s s' \<longleftrightarrow>
     dep_expr (fst s') \<and> nodes (fst s') \<le> nodes (fst s)
     \<and> (\<forall>q. in_level t (fst s) q \<longrightarrow> in_level t (fst s') q)
     \<and> snd s \<le> snd s' \<and> (snd s' = snd s \<longrightarrow> fst s' = fst s)
     \<and> (snd s < snd s' \<longrightarrow> \<not> yn_free (fst s'))"

lemma walk_keeps_refl: "dep_expr (fst s) \<Longrightarrow> walk_keeps t s s"
  by (simp add: walk_keeps_def)

lemma walk_keeps_trans: "walk_keeps t s s1 \<Longrightarrow> walk_keeps t s1 s2 \<Longrightarrow> walk_keeps t s s2"
  unfolding walk_keeps_def
  by (cases "snd s1 = snd s"; cases "snd s2 = snd s1") auto

lemma walk_keeps_level: "walk_keeps t s s' \<Longrightarrow> in_level t (fst s) q \<Longrightarrow> in_level t (fst s') q"
  by (simp add: walk_keeps_def)

text \<open>Both leaves replaced: the effect of one join.\<close>

lemma join_step_keeps:
  assumes "dep_expr e" "in_level t e p1" "in_level t e p2" "p1 \<noteq> p2"
    "node_at e p1 = Some x" "node_at e p2 = Some y" "operands t x = None" "operands t y = None"
    "dep_expr tmp" "Suc (nodes tmp) \<le> nodes x + nodes y" "operands t tmp = None"
  shows "walk_keeps t (e, c) (put_at p2 tmp (put_at p1 (XSym (unit_sym t)) e), Suc c)"
proof -
  let ?e1 = "put_at p1 (XSym (unit_sym t)) e"
  note y' = put_at_other_node [OF assms(2,3,5,6,7,8,4), of "XSym (unit_sym t)"]
  have lv: "in_level t ?e1 q" if "in_level t e q" for q
    using put_at_leaf_level [OF that assms(5,7)] .
  have lv2: "in_level t (put_at p2 tmp ?e1) q" if "in_level t e q" for q
    using put_at_leaf_level [OF lv [OF that] y' assms(8)] .
  have "nodes ?e1 + nodes x = nodes e + 1" using put_at_nodes [OF assms(5)] by simp
  moreover have "nodes (put_at p2 tmp ?e1) + nodes y = nodes ?e1 + nodes tmp"
    using put_at_nodes [OF y'] .
  ultimately have n: "nodes (put_at p2 tmp ?e1) \<le> nodes e" using assms(10) by linarith
  have "p1 \<noteq> []"
  proof
    assume "p1 = []"
    with assms(3-8) show False by (cases p2) (auto dest: in_level_Cons)
  qed
  have "node_at (put_at p2 tmp ?e1) p1 = Some (XSym (unit_sym t))"
  proof (rule put_at_other_node [OF lv [OF assms(3)] lv [OF assms(2)] y'])
    show "node_at ?e1 p1 = Some (XSym (unit_sym t))" using node_put_at [OF assms(5)] .
  qed (use assms in auto)
  with unit_operand_not_yn_free [OF lv2 [OF assms(2)] \<open>p1 \<noteq> []\<close>]
  have "\<not> yn_free (put_at p2 tmp ?e1)" by blast
  with lv2 n assms show ?thesis by (simp add: walk_keeps_def put_at_dep)
qed

lemma inner_step_keeps:
  assumes "dep_expr e" "node_at e p = Some x" "operands t x = None"
    "walk_keeps t' (x, c) (x', c')"
  shows "walk_keeps t (e, c) (put_at p x' e, c')"
proof -
  have "nodes (put_at p x' e) \<le> nodes e"
    using put_at_nodes [OF assms(2), of x'] assms(4) by (simp add: walk_keeps_def)
  moreover have "\<not> yn_free (put_at p x' e)" if "c < c'"
    using that assms(4) yn_free_node_at [OF node_put_at [OF assms(2)]] by (auto simp: walk_keeps_def)
  ultimately show ?thesis
    using assms put_at_leaf_level [OF _ assms(2,3)] put_at_same [OF assms(2)]
    by (auto simp: walk_keeps_def put_at_dep)
qed

lemma walk_keeps_other_level:
  "walk_keeps t' (XBin t' l r, c) (x', c') \<Longrightarrow> \<exists>l' r'. x' = XBin t' l' r'"
  by (drule walk_keeps_level [where q = "[L]"]) (auto dest: in_level_Cons)

lemma join_leaf:
  assumes "expr_join \<sigma> t x y = Some tmp" "operands t x = None"
  shows "dep_expr tmp" "Suc (nodes tmp) \<le> nodes x + nodes y" "operands t tmp = None"
proof -
  have "Suc (Suc 0) \<le> nodes x + nodes y"
    using add_mono [OF nodes_ge_1 [of x] nodes_ge_1 [of y]] by simp
  then show "dep_expr tmp" "Suc (nodes tmp) \<le> nodes x + nodes y" "operands t tmp = None"
    using join_keeps [OF assms(1)] assms(2) by auto
qed

lemma leaf_step_keeps:
  assumes "dep_expr e" "in_level t e p1" "in_level t e p2" "p1 \<noteq> p2"
    "node_at e p1 = Some x" "node_at e p2 = Some y" "operands t x = None" "operands t y = None"
    and r: "r = (x, c) \<or> (\<exists>t' l r'. x = XBin t' l r' \<and> walk_keeps t' (x, c) r)"
  shows "walk_keeps t (e, c) (leaf_step \<sigma> t p1 p2 e y r)"
proof -
  have r': "operands t (fst r) = None \<and> dep_expr (fst r) \<and> walk_keeps t (e, c) (put_at p1 (fst r) e, snd r)"
    using r
  proof
    assume "r = (x, c)"
    with assms node_at_dep [OF assms(5,1)] put_at_same [OF assms(5)] show ?thesis
      by (simp add: walk_keeps_refl)
  next
    assume "\<exists>t' l r'. x = XBin t' l r' \<and> walk_keeps t' (x, c) r"
    then obtain t' l r' where x: "x = XBin t' l r'" "walk_keeps t' (x, c) r" by blast
    obtain x' c' where r: "r = (x', c')" by fastforce
    from x assms(7) have "t' \<noteq> t" by auto
    with walk_keeps_other_level x have "operands t x' = None" unfolding r by fastforce
    moreover have "dep_expr x'" using x by (simp add: r walk_keeps_def)
    ultimately show ?thesis using inner_step_keeps [OF assms(1,5,7)] x(2) by (simp add: r)
  qed
  show ?thesis
  proof (cases "expr_join \<sigma> t (fst r) y")
    case None
    with r' show ?thesis by (simp add: leaf_step_def)
  next
    case (Some tmp)
    let ?e1 = "put_at p1 (fst r) e"
    have lv: "in_level t ?e1 q" if "in_level t e q" for q
      using put_at_leaf_level [OF that assms(5,7)] .
    have "put_at p1 v ?e1 = put_at p1 v e" for v
      using assms(5) by (induction e p1 rule: node_at.induct) auto
    then have eq: "leaf_step \<sigma> t p1 p2 e y r
        = (put_at p2 tmp (put_at p1 (XSym (unit_sym t)) ?e1), Suc (snd r))"
      using Some by (simp add: leaf_step_def)
    have "walk_keeps t (?e1, snd r) (leaf_step \<sigma> t p1 p2 e y r)"
      unfolding eq
      using join_leaf [OF Some] r' lv assms(2,3,4,8) node_put_at [OF assms(5)]
        put_at_other_node [OF assms(2,3,5,6,7,8,4)] assms(1) put_at_dep
      by (intro join_step_keeps [where x = "fst r" and y = y]) auto
    with r' show ?thesis by (blast intro: walk_keeps_trans)
  qed
qed

lemmas dups1_unfold = dups1.simps(2)
declare dups1.simps(2) [simp del]

lemma dups1_keeps:
  "dups1 n \<sigma> t p1 p2 st = Some st' \<Longrightarrow> dep_expr (fst st) \<Longrightarrow> in_level t (fst st) p1 \<Longrightarrow>
     in_level t (fst st) p2 \<Longrightarrow> walk_keeps t st st'"
proof (induction n arbitrary: t p1 p2 st st')
  case (Suc n)
  obtain e c where st: "st = (e, c)" by fastforce
  from Suc.prems st in_level_node obtain e1 e2 where
    e1: "node_at e p1 = Some e1" and e2: "node_at e p2 = Some e2" by (metis fst_conv)
  note step = Suc.prems(1) [unfolded dups1_unfold st fst_conv snd_conv]
  have both: "walk_keeps t st st'"
    if d1: "dups1 n \<sigma> t q1 q2 st = Some s1" and d2: "dups1 n \<sigma> t q1' q2' s1 = Some st'"
      and l: "in_level t e q1" "in_level t e q2" "in_level t e q1'" "in_level t e q2'"
    for q1 q2 q1' q2' s1
  proof -
    have k1: "walk_keeps t st s1" using Suc.IH [OF d1] Suc.prems(2) l st by simp
    moreover have "walk_keeps t s1 st'"
      using Suc.IH [OF d2] walk_keeps_level [OF k1] k1 l st by (auto simp: walk_keeps_def)
    ultimately show ?thesis by (rule walk_keeps_trans)
  qed
  show ?case
  proof (cases "operands t e1")
    case (Some lr)
    with step e1 e2 obtain s1 where
      "dups1 n \<sigma> t (p1 @ [L]) p2 st = Some s1" "dups1 n \<sigma> t (p1 @ [R]) p2 s1 = Some st'"
      by (auto simp: st)
    then show ?thesis
      by (rule both) (use Suc.prems Some e1 st in \<open>cases lr; auto simp: in_level_snoc\<close>)+
  next
    case None
    show ?thesis
    proof (cases "operands t e2")
      case (Some lr)
      with step e1 e2 None obtain s1 where
        "dups1 n \<sigma> t p1 (p2 @ [L]) st = Some s1" "dups1 n \<sigma> t p1 (p2 @ [R]) s1 = Some st'"
        by (auto simp: st)
      then show ?thesis
        by (rule both) (use Suc.prems Some e2 st in \<open>cases lr; auto simp: in_level_snoc\<close>)+
    next
      case None': None
      show ?thesis
      proof (cases "p1 = p2")
        case True
        with step e1 e2 None None' Suc.prems(2) show ?thesis by (simp add: st walk_keeps_refl)
      next
        case False
        with step e1 e2 None None' obtain r where
          r: "(case e1 of XBin t _ _ \<Rightarrow> dups1 n \<sigma> t [] [] (e1, c) | _ \<Rightarrow> Some (e1, c)) = Some r"
          and st': "st' = leaf_step \<sigma> t p1 p2 e e2 r"
          by auto
        have d1: "dep_expr e1" using node_at_dep [OF e1] Suc.prems(2) st by simp
        have "r = (e1, c) \<or> (\<exists>t' l r'. e1 = XBin t' l r' \<and> walk_keeps t' (e1, c) r)"
          using r d1 by (cases e1) (auto dest!: Suc.IH)
        with leaf_step_keeps [OF _ _ _ False e1 e2 None None'] Suc.prems st show ?thesis
          unfolding st' by simp
      qed
    qed
  qed
qed simp

lemma leaf_step_value:
  assumes "calculated \<sigma>" "consts_plain \<sigma>" "dep_expr e" "in_level t e p1" "in_level t e p2" "p1 \<noteq> p2"
    "node_at e p1 = Some x" "node_at e p2 = Some y" "operands t x = None" "operands t y = None"
    and r: "dep_expr (fst r)" "expr_calc_value \<sigma> (fst r) = expr_calc_value \<sigma> x"
  shows "expr_calc_value \<sigma> (fst (leaf_step \<sigma> t p1 p2 e y r)) = expr_calc_value \<sigma> e"
proof -
  obtain z where z: "\<And>v w. expr_calc_value \<sigma> (put_at p2 w (put_at p1 v e))
      = comb t z (comb t (expr_calc_value \<sigma> v) (expr_calc_value \<sigma> w))"
    using put_at_two_value [OF assms(4,5,7,8,9,10,6)] by blast
  have y: "put_at p2 y (put_at p1 v e) = put_at p1 v e" for v
    using put_at_same put_at_other_node [OF assms(4,5,7,8,9,10,6)] .
  have e: "expr_calc_value \<sigma> e = comb t z (comb t (expr_calc_value \<sigma> x) (expr_calc_value \<sigma> y))"
    using z [of y x] by (simp add: put_at_same [OF assms(7)] put_at_same [OF assms(8)])
  have d: "dep_expr y" using node_at_dep [OF assms(8,3)] .
  show ?thesis
    using z [of y "fst r"] join_sound [OF assms(1,2) r(1) d] r(2) e y
    by (auto simp: leaf_step_def z lvl.op_unit split: option.splits)
qed

lemma dups1_value:
  assumes env: "calculated \<sigma>" "consts_plain \<sigma>"
  shows "dups1 n \<sigma> t p1 p2 st = Some st' \<Longrightarrow> dep_expr (fst st) \<Longrightarrow> in_level t (fst st) p1 \<Longrightarrow>
     in_level t (fst st) p2 \<Longrightarrow> expr_calc_value \<sigma> (fst st') = expr_calc_value \<sigma> (fst st)"
proof (induction n arbitrary: t p1 p2 st st')
  case (Suc n)
  obtain e c where st: "st = (e, c)" by fastforce
  from Suc.prems st in_level_node obtain e1 e2 where
    e1: "node_at e p1 = Some e1" and e2: "node_at e p2 = Some e2" by (metis fst_conv)
  note step = Suc.prems(1) [unfolded dups1_unfold st fst_conv snd_conv]
  have both: "expr_calc_value \<sigma> (fst st') = expr_calc_value \<sigma> (fst st)"
    if d1: "dups1 n \<sigma> t q1 q2 st = Some s1" and d2: "dups1 n \<sigma> t q1' q2' s1 = Some st'"
      and l: "in_level t e q1" "in_level t e q2" "in_level t e q1'" "in_level t e q2'"
    for q1 q2 q1' q2' s1
  proof -
    have k1: "walk_keeps t st s1" using dups1_keeps [OF d1] Suc.prems(2) l st by simp
    then have "expr_calc_value \<sigma> (fst st') = expr_calc_value \<sigma> (fst s1)"
      using Suc.IH [OF d2] walk_keeps_level [OF k1] l st by (auto simp: walk_keeps_def)
    with Suc.IH [OF d1] Suc.prems(2) l st show ?thesis by simp
  qed
  show ?case
  proof (cases "operands t e1")
    case (Some lr)
    with step e1 e2 obtain s1 where
      "dups1 n \<sigma> t (p1 @ [L]) p2 st = Some s1" "dups1 n \<sigma> t (p1 @ [R]) p2 s1 = Some st'"
      by (auto simp: st)
    then show ?thesis
      by (rule both) (use Suc.prems Some e1 st in \<open>cases lr; auto simp: in_level_snoc\<close>)+
  next
    case None
    show ?thesis
    proof (cases "operands t e2")
      case (Some lr)
      with step e1 e2 None obtain s1 where
        "dups1 n \<sigma> t p1 (p2 @ [L]) st = Some s1" "dups1 n \<sigma> t p1 (p2 @ [R]) s1 = Some st'"
        by (auto simp: st)
      then show ?thesis
        by (rule both) (use Suc.prems Some e2 st in \<open>cases lr; auto simp: in_level_snoc\<close>)+
    next
      case None': None
      show ?thesis
      proof (cases "p1 = p2")
        case True
        with step e1 e2 None None' show ?thesis by (simp add: st)
      next
        case False
        with step e1 e2 None None' obtain r where
          r: "(case e1 of XBin t _ _ \<Rightarrow> dups1 n \<sigma> t [] [] (e1, c) | _ \<Rightarrow> Some (e1, c)) = Some r"
          and st': "st' = leaf_step \<sigma> t p1 p2 e e2 r"
          by auto
        have d1: "dep_expr e1" using node_at_dep [OF e1] Suc.prems(2) st by simp
        have "dep_expr (fst r) \<and> expr_calc_value \<sigma> (fst r) = expr_calc_value \<sigma> e1"
          using r d1 Suc.IH [of _ "[]" "[]" "(e1, c)" r] dups1_keeps [of n \<sigma> _ "[]" "[]" "(e1, c)" r]
          by (cases e1) (auto simp: walk_keeps_def)
        with leaf_step_value [OF env _ _ _ False e1 e2 None None'] Suc.prems st show ?thesis
          unfolding st' by simp
      qed
    qed
  qed
qed simp

text \<open>The fuel of a walk: quadratic in the nodes, for the nested walks on leaves of the other level.\<close>

definition walk_fuel :: "nat \<Rightarrow> nat" where
  "walk_fuel s = (s + 1) * (2 * s + 2)"

lemma walk_fuel_mono: "a \<le> b \<Longrightarrow> walk_fuel a \<le> walk_fuel b"
  unfolding walk_fuel_def by (intro mult_le_mono) simp_all

lemma walk_fuel_inner:
  assumes "a < s" "walk_fuel s < Suc n + (x + y)" "x < s" "y < s"
  shows "walk_fuel a < n"
proof -
  obtain k where k: "s = Suc k" using assms(1) by (cases s) auto
  have "walk_fuel a \<le> walk_fuel k" using assms(1) k by (intro walk_fuel_mono) simp
  moreover have "walk_fuel (Suc k) = walk_fuel k + (4 * k + 6)"
    by (simp add: walk_fuel_def algebra_simps)
  ultimately show ?thesis using assms unfolding k by linarith
qed

lemma walk_fuel_ge: "2 * s < walk_fuel s"
  by (simp add: walk_fuel_def algebra_simps)

lemma dups1_enough:
  "dep_expr (fst st) \<Longrightarrow> in_level t (fst st) p1 \<Longrightarrow> in_level t (fst st) p2 \<Longrightarrow>
     walk_fuel (nodes (fst st)) < n + (length p1 + length p2) \<Longrightarrow>
     \<exists>st'. dups1 n \<sigma> t p1 p2 st = Some st'"
proof (induction n arbitrary: t p1 p2 st)
  case 0
  then obtain x y where "node_at (fst st) p1 = Some x" "node_at (fst st) p2 = Some y"
    using in_level_node by blast
  then have "nodes x + length p1 \<le> nodes (fst st)" "nodes y + length p2 \<le> nodes (fst st)"
    by (simp_all add: node_at_nodes)
  with 0 walk_fuel_ge [of "nodes (fst st)"] show ?case by simp
next
  case (Suc n)
  obtain e c where st: "st = (e, c)" by fastforce
  from Suc.prems st in_level_node obtain e1 e2 where
    e1: "node_at e p1 = Some e1" and e2: "node_at e p2 = Some e2" by (metis fst_conv)
  have both: "\<exists>s1 st'. dups1 n \<sigma> t q1 q2 st = Some s1 \<and> dups1 n \<sigma> t q1' q2' s1 = Some st'"
    if l: "in_level t e q1" "in_level t e q2" "in_level t e q1'" "in_level t e q2'"
      and len: "walk_fuel (nodes e) < n + (length q1 + length q2)"
        "walk_fuel (nodes e) < n + (length q1' + length q2')"
    for q1 q2 q1' q2'
  proof -
    obtain s1 where s1: "dups1 n \<sigma> t q1 q2 st = Some s1"
      using Suc.IH [of st t q1 q2] Suc.prems(1) l len st by auto
    have k: "walk_keeps t st s1" using dups1_keeps [OF s1] Suc.prems(1) l st by simp
    then have "walk_fuel (nodes (fst s1)) \<le> walk_fuel (nodes e)"
      by (intro walk_fuel_mono) (simp add: walk_keeps_def st)
    then obtain st' where "dups1 n \<sigma> t q1' q2' s1 = Some st'"
      using Suc.IH [of s1 t q1' q2'] walk_keeps_level [OF k] k l len st
      by (auto simp: walk_keeps_def)
    with s1 show ?thesis by blast
  qed
  have len: "walk_fuel (nodes e) < n + Suc (length p1 + length p2)" using Suc.prems(4) st by simp
  show ?case
  proof (cases "operands t e1")
    case (Some lr)
    then have "in_level t e (p1 @ [L])" "in_level t e (p1 @ [R])"
      using Suc.prems e1 st by (cases lr; simp add: in_level_snoc)+
    with both [of "p1 @ [L]" p2 "p1 @ [R]" p2] Suc.prems len st Some e1 e2 show ?thesis
      by (auto simp: dups1_unfold)
  next
    case None
    show ?thesis
    proof (cases "operands t e2")
      case (Some lr)
      then have "in_level t e (p2 @ [L])" "in_level t e (p2 @ [R])"
        using Suc.prems e2 st by (cases lr; simp add: in_level_snoc)+
      with both [of p1 "p2 @ [L]" p1 "p2 @ [R]"] Suc.prems len st Some None e1 e2 show ?thesis
        by (auto simp: dups1_unfold)
    next
      case None': None
      show ?thesis
      proof (cases "p1 = p2")
        case True
        with e1 e2 None None' show ?thesis by (simp add: st dups1_unfold)
      next
        case False
        have b: "nodes e1 + length p1 \<le> nodes e" "nodes e2 + length p2 \<le> nodes e"
          using node_at_nodes [OF e1] node_at_nodes [OF e2] .
        have "p1 \<noteq> []"
        proof
          assume "p1 = []"
          with False Suc.prems e1 None st show False by (cases p2) (auto dest: in_level_Cons)
        qed
        then have "nodes e1 < nodes e" using b(1) by (cases p1) auto
        then have "walk_fuel (nodes e1) < n"
          by (rule walk_fuel_inner [where x = "length p1" and y = "length p2"])
            (use Suc.prems(4) b less_le_trans [OF less_add_same_cancel2 [THEN iffD2, OF nodes_pos]]
              st in auto)
        moreover have "dep_expr e1" using node_at_dep [OF e1] Suc.prems(1) st by simp
        ultimately have "\<exists>r. (case e1 of XBin t _ _ \<Rightarrow> dups1 n \<sigma> t [] [] (e1, c)
            | _ \<Rightarrow> Some (e1, c)) = Some r"
          using Suc.IH [of "(e1, c)" _ "[]" "[]"] by (cases e1) auto
        with e1 e2 None None' False show ?thesis
          unfolding st dups1_unfold fst_conv snd_conv by auto
      qed
    qed
  qed
qed

section \<open>The loop of expr_eliminate_dups\<close>

text \<open>
  One pass runs the walk with a count of 0; the loop ends with a pass that counts nothing. A
  pass that counts something leaves a constant operand, so the \<open>expr_eliminate_yn\<close> after it
  takes a node away, and as many passes as there are nodes are enough.
\<close>

definition dups_pass :: "symtab \<Rightarrow> expr \<Rightarrow> (expr \<times> nat) option" where
  "dups_pass \<sigma> e =
     (case e of XBin t _ _ \<Rightarrow> dups1 (Suc (walk_fuel (nodes e))) \<sigma> t [] [] (e, 0)
      | _ \<Rightarrow> Some (e, 0))"

fun dups_loop :: "nat \<Rightarrow> symtab \<Rightarrow> expr \<Rightarrow> expr option" where
  "dups_loop 0 \<sigma> e = None"
| "dups_loop (Suc n) \<sigma> e =
     do { (e', trans_count) \<leftarrow> dups_pass \<sigma> e;
          if trans_count = 0 then Some e' else dups_loop n \<sigma> (expr_eliminate_yn e') }"

definition expr_eliminate_dups :: "symtab \<Rightarrow> expr \<Rightarrow> expr option" where
  "expr_eliminate_dups \<sigma> e = dups_loop (nodes e) \<sigma> e"

lemma dups_pass_ok:
  assumes "dep_expr e"
  shows "\<exists>e' c. dups_pass \<sigma> e = Some (e', c) \<and> dep_expr e' \<and> nodes e' \<le> nodes e
     \<and> (c = 0 \<longrightarrow> e' = e) \<and> (0 < c \<longrightarrow> \<not> yn_free e')
     \<and> (calculated \<sigma> \<and> consts_plain \<sigma> \<longrightarrow> expr_calc_value \<sigma> e' = expr_calc_value \<sigma> e)"
proof (cases "\<exists>t l r. e = XBin t l r")
  case True
  then obtain t l r where e: "e = XBin t l r" by blast
  obtain e' c where d: "dups1 (Suc (walk_fuel (nodes e))) \<sigma> t [] [] (e, 0) = Some (e', c)"
    using dups1_enough [of "(e, 0)" t "[]" "[]"] assms by fastforce
  then have "walk_keeps t (e, 0) (e', c)" using dups1_keeps assms by fastforce
  moreover have "expr_calc_value \<sigma> e' = expr_calc_value \<sigma> e" if "calculated \<sigma>" "consts_plain \<sigma>"
    using dups1_value [OF that d] assms by simp
  ultimately show ?thesis using d unfolding e by (auto simp: dups_pass_def walk_keeps_def)
next
  case False
  with assms show ?thesis by (cases e) (auto simp: dups_pass_def)
qed

lemma dups_loop_ok:
  "dep_expr e \<Longrightarrow> nodes e \<le> n \<Longrightarrow>
     \<exists>e'. dups_loop n \<sigma> e = Some e' \<and> dep_expr e' \<and> nodes e' \<le> nodes e
       \<and> dups_pass \<sigma> e' = Some (e', 0)
       \<and> (calculated \<sigma> \<and> consts_plain \<sigma> \<longrightarrow> expr_calc_value \<sigma> e' = expr_calc_value \<sigma> e)"
proof (induction n arbitrary: e)
  case 0
  then show ?case using nodes_pos [of e] by simp
next
  case (Suc n)
  from dups_pass_ok [OF Suc.prems(1)] obtain e1 c where
    p: "dups_pass \<sigma> e = Some (e1, c)" and d: "dep_expr e1" "nodes e1 \<le> nodes e"
    and c0: "c = 0 \<longrightarrow> e1 = e" and cp: "0 < c \<longrightarrow> \<not> yn_free e1"
    and v: "calculated \<sigma> \<and> consts_plain \<sigma> \<longrightarrow> expr_calc_value \<sigma> e1 = expr_calc_value \<sigma> e"
    by blast
  show ?case
  proof (cases "c = 0")
    case True
    with p c0 Suc.prems show ?thesis by auto
  next
    case False
    with cp have "nodes (expr_eliminate_yn e1) < nodes e1" by (simp add: eliminate_yn_shrinks)
    with Suc.IH [of "expr_eliminate_yn e1"] d Suc.prems(2) p v False show ?thesis by fastforce
  qed
qed

end
