(* ===== verification/Kconfig_Transform.thy ===== *)
theory Kconfig_Transform
  imports Kconfig_Simplify
begin

text \<open>
  The transformations of \<open>kconfig/expr.c\<close>: \<open>expr_trans_bool\<close>, \<open>expr_transform\<close> with a
  reference definition that says what it computes in one structural pass, and
  \<open>expr_trans_compare\<close>.
\<close>

section \<open>expr_trans_bool\<close>

fun expr_trans_bool :: "symtab \<Rightarrow> expr \<Rightarrow> expr" where
  "expr_trans_bool \<sigma> (XBin b l r) = XBin b (expr_trans_bool \<sigma> l) (expr_trans_bool \<sigma> r)"
| "expr_trans_bool \<sigma> (XNot e) = XNot (expr_trans_bool \<sigma> e)"
| "expr_trans_bool \<sigma> (XRel R_UNEQUAL s t) =
     (if type_of_sym \<sigma> s = S_TRISTATE \<and> t = symbol_no then XSym s else XRel R_UNEQUAL s t)"
| "expr_trans_bool \<sigma> e = e"

fun negation_free :: "expr \<Rightarrow> bool" where
  "negation_free (XBin b l r) = (negation_free l \<and> negation_free r)"
| "negation_free (XNot e) = False"
| "negation_free e = True"

text \<open>Without negation the result is a lower bound that is \<open>n\<close> for the same tables.\<close>

lemma EXPR_OR_mono: "a \<le> b \<Longrightarrow> c \<le> d \<Longrightarrow> EXPR_OR a c \<le> EXPR_OR b d"
  by (cases a; cases b; cases c; cases d; simp add: EXPR_OR_def tri_less)

lemma EXPR_AND_mono: "a \<le> b \<Longrightarrow> c \<le> d \<Longrightarrow> EXPR_AND a c \<le> EXPR_AND b d"
  by (cases a; cases b; cases c; cases d; simp add: EXPR_AND_def tri_less)

lemma comb_mono: "a \<le> b \<Longrightarrow> c \<le> d \<Longrightarrow> comb t a c \<le> comb t b d"
  by (cases t) (simp_all add: EXPR_OR_mono EXPR_AND_mono)

lemma comb_Tno: "comb B_OR a b = Tno \<longleftrightarrow> a = Tno \<and> b = Tno" "comb B_AND a b = Tno \<longleftrightarrow> a = Tno \<or> b = Tno"
  by (cases a; cases b; simp add: EXPR_OR_def EXPR_AND_def tri_less)+

lemma trans_bool_bound:
  "calculated \<sigma> \<Longrightarrow> negation_free e \<Longrightarrow>
     expr_calc_value \<sigma> (expr_trans_bool \<sigma> e) \<le> expr_calc_value \<sigma> e
     \<and> (expr_calc_value \<sigma> (expr_trans_bool \<sigma> e) = Tno \<longleftrightarrow> expr_calc_value \<sigma> e = Tno)"
proof (induction \<sigma> e rule: expr_trans_bool.induct)
  case (1 \<sigma> b l r)
  then show ?case by (cases b) (auto simp: comb_mono comb_Tno simp del: comb.simps)
next
  case (3 \<sigma> s t)
  show ?case
  proof (cases "type_of_sym \<sigma> s = S_TRISTATE \<and> t = symbol_no")
    case True
    then have "logical_sym \<sigma> s" by (simp add: logical_sym_def)
    from compare_logical_consts(3) [OF 3(1) this] True show ?thesis
      by (cases "tri_of_sym \<sigma> s") (auto simp: tri_less)
  qed auto
qed auto

section \<open>expr_transform\<close>

fun flip_rel :: "relop \<Rightarrow> relop" where
  "flip_rel R_EQUAL = R_UNEQUAL"
| "flip_rel R_UNEQUAL = R_EQUAL"
| "flip_rel R_LEQ = R_GTH"
| "flip_rel R_GEQ = R_LTH"
| "flip_rel R_LTH = R_GEQ"
| "flip_rel R_GTH = R_LEQ"

lemma flip_rel_result: "rel_result (flip_rel r) c = EXPR_NOT (rel_result r c)"
  by (cases r) auto

text \<open>The cases \<open>E_EQUAL\<close> and \<open>E_UNEQUAL\<close> of the second switch, on a boolean left symbol.\<close>

definition transform_rel :: "symtab \<Rightarrow> relop \<Rightarrow> symref \<Rightarrow> symref \<Rightarrow> expr" where
  "transform_rel \<sigma> r s t =
     (if (r = R_EQUAL \<or> r = R_UNEQUAL) \<and> type_of_sym \<sigma> s = S_BOOLEAN then
        (if t = symbol_no then
           (if r = R_EQUAL then XNot (expr_alloc_symbol s) else XSym s)
         else if t = symbol_mod then
           (if r = R_EQUAL then XSym symbol_no else XSym symbol_yes)
         else if t = symbol_yes then
           (if r = R_EQUAL then XSym s else XNot (expr_alloc_symbol s))
         else XRel r s t)
      else XRel r s t)"

text \<open>
  The first switch transforms the operands, the second rewrites the node; \<open>!!a\<close> and a negated
  \<open>&&\<close> or \<open>||\<close> are transformed again as a whole. \<open>None\<close> is fuel, or an \<open>E_RANGE\<close>, whose two
  symbols the default branch takes for operands.
\<close>

fun transform_n :: "nat \<Rightarrow> symtab \<Rightarrow> expr \<Rightarrow> expr option" where
  "transform_n 0 \<sigma> e = None"
| "transform_n (Suc n) \<sigma> (XRel r s t) = Some (transform_rel \<sigma> r s t)"
| "transform_n (Suc n) \<sigma> (XSym s) = Some (XSym s)"
| "transform_n (Suc n) \<sigma> (XList l s) = Some (XList l s)"
| "transform_n (Suc n) \<sigma> (XRange s t) = None"
| "transform_n (Suc n) \<sigma> XNone = Some XNone"
| "transform_n (Suc n) \<sigma> (XBin b l r) =
     do { l' \<leftarrow> transform_n n \<sigma> l;
          r' \<leftarrow> transform_n n \<sigma> r;
          Some (XBin b l' r') }"
| "transform_n (Suc n) \<sigma> (XNot a) =
     do { a' \<leftarrow> transform_n n \<sigma> a;
          (case a' of
             XNot b \<Rightarrow> transform_n n \<sigma> b
           | XRel r s t \<Rightarrow> Some (XRel (flip_rel r) s t)
           | XBin B_OR l r \<Rightarrow> transform_n n \<sigma> (XBin B_AND (XNot l) (expr_alloc_not r))
           | XBin B_AND l r \<Rightarrow> transform_n n \<sigma> (XBin B_OR (XNot l) (expr_alloc_not r))
           | XSym s \<Rightarrow>
               Some (if s = symbol_yes then XSym symbol_no
                     else if s = symbol_mod then XSym symbol_mod
                     else if s = symbol_no then XSym symbol_yes
                     else XNot (XSym s))
           | _ \<Rightarrow> Some (XNot a')) }"

definition expr_transform :: "symtab \<Rightarrow> expr option \<Rightarrow> expr option option" where
  "expr_transform \<sigma> ep =
     (case ep of None \<Rightarrow> Some None | Some e \<Rightarrow> map_option Some (transform_n (2 * nodes e + 4) \<sigma> e))"

text \<open>
  The reference: negations are pushed to the symbols by \<open>negate\<close>, everything else is
  structural.
\<close>

fun dual :: "binop \<Rightarrow> binop" where
  "dual B_OR = B_AND"
| "dual B_AND = B_OR"

fun negate :: "expr \<Rightarrow> expr" where
  "negate (XNot b) = b"
| "negate (XRel r s t) = XRel (flip_rel r) s t"
| "negate (XBin b l r) = XBin (dual b) (negate l) (negate r)"
| "negate (XSym s) =
     (if s = symbol_yes then XSym symbol_no else if s = symbol_mod then XSym symbol_mod
      else if s = symbol_no then XSym symbol_yes else XNot (XSym s))"
| "negate e = XNot e"

fun transform_spec :: "symtab \<Rightarrow> expr \<Rightarrow> expr" where
  "transform_spec \<sigma> (XRel r s t) = transform_rel \<sigma> r s t"
| "transform_spec \<sigma> (XBin b l r) = XBin b (transform_spec \<sigma> l) (transform_spec \<sigma> r)"
| "transform_spec \<sigma> (XNot a) = negate (transform_spec \<sigma> a)"
| "transform_spec \<sigma> e = e"

text \<open>The normal form: negation only on symbols of the table, no boolean compared with a constant.\<close>

fun normal :: "symtab \<Rightarrow> expr \<Rightarrow> bool" where
  "normal \<sigma> (XSym s) = True"
| "normal \<sigma> (XNot (XSym s)) = (s \<notin> {symbol_yes, symbol_mod, symbol_no})"
| "normal \<sigma> (XNot e) = False"
| "normal \<sigma> (XBin b l r) = (normal \<sigma> l \<and> normal \<sigma> r)"
| "normal \<sigma> (XRel r s t) =
     (\<not> ((r = R_EQUAL \<or> r = R_UNEQUAL) \<and> type_of_sym \<sigma> s = S_BOOLEAN
         \<and> t \<in> {symbol_yes, symbol_mod, symbol_no}))"
| "normal \<sigma> e = False"

text \<open>Levels of \<open>&&\<close> and \<open>||\<close> below a node.\<close>

fun depth :: "expr \<Rightarrow> nat" where
  "depth (XBin b l r) = Suc (max (depth l) (depth r))"
| "depth (XNot e) = depth e"
| "depth e = 0"

lemma normal_negate: "normal \<sigma> e \<Longrightarrow> normal \<sigma> (negate e)"
proof (induction \<sigma> e rule: normal.induct)
  case (5 \<sigma> r s t)
  then show ?case by (cases r) auto
qed auto

lemma depth_negate: "normal \<sigma> e \<Longrightarrow> depth (negate e) = depth e"
  by (induction \<sigma> e rule: normal.induct) auto

lemma normal_transform_rel:
  assumes "type_of_sym \<sigma> s = S_BOOLEAN \<Longrightarrow> s \<notin> {symbol_yes, symbol_mod, symbol_no}"
  shows "normal \<sigma> (transform_rel \<sigma> r s t)" "depth (transform_rel \<sigma> r s t) = 0"
  using assms by (auto simp: transform_rel_def)

lemma static_not_boolean:
  "type_of_sym \<sigma> s = S_BOOLEAN \<Longrightarrow> s \<notin> {symbol_yes, symbol_mod, symbol_no}"
  by auto

lemma normal_transform_spec: "dep_expr e \<Longrightarrow> normal \<sigma> (transform_spec \<sigma> e)"
  by (induction \<sigma> e rule: transform_spec.induct)
    (auto simp: normal_negate intro!: normal_transform_rel dest: static_not_boolean)

lemma depth_transform_spec: "dep_expr e \<Longrightarrow> depth (transform_spec \<sigma> e) \<le> depth e"
proof (induction \<sigma> e rule: transform_spec.induct)
  case (1 \<sigma> r s t)
  then show ?case using normal_transform_rel(2) static_not_boolean by simp
next
  case (3 \<sigma> a)
  then show ?case using depth_negate [OF normal_transform_spec] by auto
qed auto

lemma depth_less_nodes: "depth e < nodes e"
proof (induction e)
  case (XList l s)
  then show ?case by (cases l) auto
qed (auto simp: max_def)

text \<open>A normal expression is left alone; the negation of a normal expression is \<open>negate\<close>.\<close>

lemma transform_normal: "normal \<sigma> e \<Longrightarrow> Suc (depth e) < n \<Longrightarrow> transform_n n \<sigma> e = Some e"
proof (induction \<sigma> e arbitrary: n rule: normal.induct)
  case (1 \<sigma> s)
  then show ?case by (cases n) auto
next
  case (2 \<sigma> s)
  then obtain m where "n = Suc (Suc m)" by (cases n; cases "n - 1") auto
  with 2 show ?case by auto
next
  case (4 \<sigma> b l r)
  then show ?case by (cases n) auto
next
  case (5 \<sigma> r s t)
  then show ?case by (cases n) (auto simp: transform_rel_def)
qed auto

lemma transform_negation:
  "normal \<sigma> e \<Longrightarrow> 2 * depth e + 2 < n \<Longrightarrow> transform_n n \<sigma> (XNot e) = Some (negate e)"
proof (induction \<sigma> e arbitrary: n rule: normal.induct)
  case (4 \<sigma> b l r)
  then obtain m where n: "n = Suc (Suc m)" by (cases n; cases "n - 1") auto
  have "transform_n (Suc m) \<sigma> (XBin b l r) = Some (XBin b l r)"
    using 4 n by (intro transform_normal) auto
  moreover have "transform_n m \<sigma> (XNot l) = Some (negate l)" "transform_n m \<sigma> (XNot r) = Some (negate r)"
    using 4 n by auto
  ultimately show ?case unfolding n by (cases b) auto
next
  case (1 \<sigma> s)
  then obtain m where "n = Suc (Suc m)" by (cases n; cases "n - 1") auto
  then show ?case by auto
next
  case (2 \<sigma> s)
  then obtain m where "n = Suc (Suc (Suc m))" by (cases n; cases "n - 1"; cases "n - 2") auto
  with 2 show ?case by auto
next
  case (5 \<sigma> r s t)
  then obtain m where n: "n = Suc (Suc m)" by (cases n; cases "n - 1") auto
  from 5 have "transform_rel \<sigma> r s t = XRel r s t" by (auto simp: transform_rel_def)
  with n show ?case by auto
qed auto

lemma transform_rec:
  "transform_n (Suc n) \<sigma> a = Some a' \<Longrightarrow> normal \<sigma> a' \<Longrightarrow> 2 * depth a' + 2 \<le> Suc n \<Longrightarrow>
     transform_n (Suc (Suc n)) \<sigma> (XNot a) = Some (negate a')"
proof -
  assume a: "transform_n (Suc n) \<sigma> a = Some a'" "normal \<sigma> a'" "2 * depth a' + 2 \<le> Suc n"
  have "transform_n (Suc n) \<sigma> a' = Some a'"
    using a by (intro transform_normal) (cases "depth a'", auto)
  with a transform_negation [OF a(2), of "Suc (Suc n)"] show ?thesis by simp
qed

theorem transform_is_spec:
  "dep_expr e \<Longrightarrow> 2 * nodes e + 2 \<le> n \<Longrightarrow> transform_n n \<sigma> e = Some (transform_spec \<sigma> e)"
proof (induction \<sigma> e arbitrary: n rule: transform_spec.induct)
  case (1 \<sigma> r s t)
  then show ?case by (cases n) auto
next
  case (2 \<sigma> b l r)
  then show ?case by (cases n) auto
next
  case (3 \<sigma> a)
  then obtain m where n: "n = Suc (Suc m)" by (cases n; cases "n - 1") auto
  have IH: "transform_n (Suc m) \<sigma> a = Some (transform_spec \<sigma> a)" using 3 n by auto
  have "2 * depth (transform_spec \<sigma> a) + 2 \<le> Suc m"
    using depth_transform_spec [of a \<sigma>] depth_less_nodes [of a] 3 n by auto
  with transform_rec [OF IH] normal_transform_spec [of a \<sigma>] 3 show ?case unfolding n by simp
next
  case "4_1"
  then show ?case by (cases n) auto
qed auto

lemma negate_value: "expr_calc_value \<sigma> (negate e) = EXPR_NOT (expr_calc_value \<sigma> e)" if "normal \<sigma> e"
  using that
proof (induction \<sigma> e rule: normal.induct)
  case (4 \<sigma> b l r)
  then show ?case by (cases b) auto
qed (auto simp: flip_rel_result)

lemma transform_rel_value:
  assumes "calculated \<sigma>"
  shows "expr_calc_value \<sigma> (transform_rel \<sigma> r s t) = expr_calc_value \<sigma> (XRel r s t)"
proof (cases "(r = R_EQUAL \<or> r = R_UNEQUAL) \<and> type_of_sym \<sigma> s = S_BOOLEAN")
  case True
  then have "logical_sym \<sigma> s" by (simp add: logical_sym_def)
  note tri = compare_logical_consts [OF assms this]
  from True boolean_sym_tri [OF assms, of s] show ?thesis
    by (auto simp: transform_rel_def tri)
qed (auto simp: transform_rel_def)

lemma transform_spec_value:
  "calculated \<sigma> \<Longrightarrow> dep_expr e \<Longrightarrow> expr_calc_value \<sigma> (transform_spec \<sigma> e) = expr_calc_value \<sigma> e"
proof (induction \<sigma> e rule: transform_spec.induct)
  case (1 \<sigma> r s t)
  then show ?case by (simp only: transform_spec.simps transform_rel_value)
next
  case (3 \<sigma> a)
  then show ?case by (simp add: negate_value normal_transform_spec)
qed auto

section \<open>expr_trans_compare\<close>

text \<open>
  NULL (\<open>None\<close>) is returned where the code falls off its last switch. With a symbol other than
  \<open>y\<close> and \<open>n\<close> the operands are rewritten but not used, and \<open>e\<close> itself is returned.
\<close>

fun trans_compare :: "expr \<Rightarrow> relop \<Rightarrow> symref \<Rightarrow> expr option" where
  "trans_compare (XBin b l r) type smb =
     do { e \<leftarrow> (if smb = symbol_yes \<or> smb = symbol_no
                then do { e1 \<leftarrow> trans_compare l R_EQUAL smb;
                          e2 \<leftarrow> trans_compare r R_EQUAL smb;
                          Some (expr_alloc_two (if smb = symbol_yes then b else dual b) e1 e2) }
                else Some (XBin b l r));
          Some (if type = R_UNEQUAL then expr_alloc_not e else e) }"
| "trans_compare (XNot e) type smb =
     trans_compare e (if type = R_EQUAL then R_UNEQUAL else R_EQUAL) smb"
| "trans_compare (XRel r s t) type smb =
     (if type = R_EQUAL then
        (if smb = symbol_yes then expr_copy (XRel r s t)
         else if smb = symbol_mod then Some (expr_alloc_symbol symbol_no)
         else if smb = symbol_no
         then do { e' \<leftarrow> expr_copy (XRel r s t); Some (expr_alloc_not e') }
         else None)
      else
        (if smb = symbol_yes
         then do { e' \<leftarrow> expr_copy (XRel r s t); Some (expr_alloc_not e') }
         else if smb = symbol_mod then Some (expr_alloc_symbol symbol_yes)
         else if smb = symbol_no then expr_copy (XRel r s t)
         else None))"
| "trans_compare (XSym s) type smb = Some (expr_alloc_comp type s smb)"
| "trans_compare _ type smb = None"

definition expr_trans_compare :: "expr option \<Rightarrow> relop \<Rightarrow> symref \<Rightarrow> expr option" where
  "expr_trans_compare ep type smb =
     (case ep of
        None \<Rightarrow> (let e = expr_alloc_symbol smb in
                Some (if type = R_UNEQUAL then expr_alloc_not e else e))
      | Some e \<Rightarrow> trans_compare e type smb)"

text \<open>
  Where the rewriting is exact: symbols are logical or one of the constants, and no operand of a
  negation is \<open>m\<close>.
\<close>

fun comparable :: "symtab \<Rightarrow> expr \<Rightarrow> bool" where
  "comparable \<sigma> (XSym s) = (logical_sym \<sigma> s \<or> s \<in> {symbol_yes, symbol_mod, symbol_no})"
| "comparable \<sigma> (XNot e) = (comparable \<sigma> e \<and> expr_calc_value \<sigma> e \<noteq> Tmod)"
| "comparable \<sigma> (XBin b l r) = (comparable \<sigma> l \<and> comparable \<sigma> r)"
| "comparable \<sigma> (XRel r s t) = True"
| "comparable \<sigma> e = False"

definition tri_test :: "relop \<Rightarrow> tristate \<Rightarrow> tristate \<Rightarrow> tristate" where
  "tri_test type v w = (if (v = w) = (type = R_EQUAL) then Tyes else Tno)"

lemma compare_sym_const:
  assumes "calculated \<sigma>" "comparable \<sigma> (XSym s)"
  shows "expr_compare \<sigma> s (const_of_tri t) = 0 \<longleftrightarrow> tri_of_sym \<sigma> s = t"
proof (cases "logical_sym \<sigma> s")
  case True
  then show ?thesis by (rule compare_logical_const [OF assms(1)])
next
  case False
  have "const_of_tri t \<in> {symbol_yes, symbol_mod, symbol_no}" by (cases t) auto
  with False assms(2) show ?thesis by (cases t) (auto simp: expr_compare_const)
qed

lemma trans_compare_rel:
  assumes "t = symbol_yes \<or> t = symbol_no" "type = R_EQUAL \<or> type = R_UNEQUAL"
  shows "\<exists>e'. trans_compare (XRel r a b) type t = Some e'
    \<and> expr_calc_value \<sigma> e' = tri_test type (expr_calc_value \<sigma> (XRel r a b)) (tri_of_sym \<sigma> t)"
  using assms rel_result_values [of r "expr_compare \<sigma> a b"]
  by (elim disjE) (simp_all add: tri_test_def)

lemma tri_test_comb:
  "comb b (tri_test R_EQUAL v Tyes) (tri_test R_EQUAL w Tyes) = tri_test R_EQUAL (comb b v w) Tyes"
  "comb (dual b) (tri_test R_EQUAL v Tno) (tri_test R_EQUAL w Tno) = tri_test R_EQUAL (comb b v w) Tno"
  by (cases b; cases v; cases w; simp add: tri_test_def EXPR_OR_def EXPR_AND_def tri_less)+

lemma tri_test_not: "EXPR_NOT (tri_test R_EQUAL v w) = tri_test R_UNEQUAL v w"
  by (simp add: tri_test_def)

lemma trans_compare_value:
  "calculated \<sigma> \<Longrightarrow> w = Tyes \<or> w = Tno \<Longrightarrow> comparable \<sigma> e \<Longrightarrow> type = R_EQUAL \<or> type = R_UNEQUAL \<Longrightarrow>
    \<exists>e'. trans_compare e type (const_of_tri w) = Some e'
       \<and> expr_calc_value \<sigma> e' = tri_test type (expr_calc_value \<sigma> e) w"
proof (induction \<sigma> e arbitrary: type rule: comparable.induct)
  case (1 \<sigma> s)
  with compare_sym_const [OF 1(1,3), of w] show ?case by (auto simp: tri_test_def)
next
  case (2 \<sigma> e)
  have "tri_test (if type = R_EQUAL then R_UNEQUAL else R_EQUAL) (expr_calc_value \<sigma> e) w
      = tri_test type (EXPR_NOT (expr_calc_value \<sigma> e)) w"
    using 2(3,4,5) by (cases "expr_calc_value \<sigma> e") (auto simp: tri_test_def)
  moreover have "(if type = R_EQUAL then R_UNEQUAL else R_EQUAL) = R_EQUAL
      \<or> (if type = R_EQUAL then R_UNEQUAL else R_EQUAL) = R_UNEQUAL" by simp
  ultimately show ?case
    using "2.IH" [of "if type = R_EQUAL then R_UNEQUAL else R_EQUAL"] 2(2-4)
    unfolding trans_compare.simps comparable.simps expr_calc_value.simps by metis
next
  case (3 \<sigma> b l r)
  then obtain e1 e2 where e:
    "trans_compare l R_EQUAL (const_of_tri w) = Some e1"
    "trans_compare r R_EQUAL (const_of_tri w) = Some e2"
    "expr_calc_value \<sigma> e1 = tri_test R_EQUAL (expr_calc_value \<sigma> l) w"
    "expr_calc_value \<sigma> e2 = tri_test R_EQUAL (expr_calc_value \<sigma> r) w" by force
  from 3(4,6) e show ?case
    by (elim disjE) (simp_all add: tri_test_comb tri_test_not del: comb.simps)
next
  case (4 \<sigma> r s t)
  then show ?case using trans_compare_rel [of "const_of_tri w" type r s t \<sigma>] by (elim disjE) simp_all
qed auto

end
