(* ===== verification/Kconfig_Print.thy ===== *)
theory Kconfig_Print
  imports Kconfig_Simplify
begin

text \<open>
  Printing of \<open>kconfig/expr.c\<close>, the expression grammar of \<open>kconfig/parser.y\<close> that reads back
  what is printed, and the growable strings of \<open>kconfig/util.c\<close> that the menus print into.
\<close>

section \<open>expr_print\<close>

text \<open>\<open>expr_compare_type\<close>; \<open>E_NONE\<close> is the 0 of the source. Every case falls through.\<close>

fun expr_compare_type :: "expr_type \<Rightarrow> expr_type \<Rightarrow> int" where
  "expr_compare_type t1 t2 =
     (if t1 = t2 then 0
      else if t1 \<in> {E_LEQ, E_LTH, E_GEQ, E_GTH} \<and> t2 \<in> {E_EQUAL, E_UNEQUAL} then 1
      else if t1 \<in> {E_LEQ, E_LTH, E_GEQ, E_GTH, E_EQUAL, E_UNEQUAL} \<and> t2 = E_NOT then 1
      else if t1 \<in> {E_LEQ, E_LTH, E_GEQ, E_GTH, E_EQUAL, E_UNEQUAL, E_NOT} \<and> t2 = E_AND then 1
      else if t1 \<in> {E_LEQ, E_LTH, E_GEQ, E_GTH, E_EQUAL, E_UNEQUAL, E_NOT, E_AND} \<and> t2 = E_OR
        then 1
      else if t1 \<in> {E_LEQ, E_LTH, E_GEQ, E_GTH, E_EQUAL, E_UNEQUAL, E_NOT, E_AND, E_OR}
        \<and> t2 = E_LIST then 1
      else if t1 \<in> {E_LEQ, E_LTH, E_GEQ, E_GTH, E_EQUAL, E_UNEQUAL, E_NOT, E_AND, E_OR, E_LIST}
        \<and> t2 = E_NONE then 1
      else -1)"

text \<open>
  One call of the callback \<open>fn\<close>: the symbol, if any, and the string, which is NULL when the
  name of a right operand is.
\<close>

type_synonym call = "symref option \<times> cstr option"

abbreviation lit :: "cstr \<Rightarrow> call" where
  "lit s \<equiv> (None, Some s)"

definition print_left :: "symtab \<Rightarrow> symref \<Rightarrow> call" where
  "print_left \<sigma> s =
     (case sname (symbol_of \<sigma> s) of Some n \<Rightarrow> (Some s, Some n) | None \<Rightarrow> lit ''<choice>'')"

definition print_right :: "symtab \<Rightarrow> symref \<Rightarrow> call" where
  "print_right \<sigma> s = (Some s, sname (symbol_of \<sigma> s))"

fun rel_string :: "relop \<Rightarrow> cstr" where
  "rel_string R_EQUAL = ''=''"
| "rel_string R_UNEQUAL = ''!=''"
| "rel_string R_LEQ = ''<=''"
| "rel_string R_LTH = ''<''"
| "rel_string R_GEQ = ''>=''"
| "rel_string R_GTH = ''>''"

fun bin_string :: "binop \<Rightarrow> cstr" where
  "bin_string B_OR = '' || ''"
| "bin_string B_AND = '' && ''"

definition parens :: "expr_type \<Rightarrow> expr_type \<Rightarrow> call list \<Rightarrow> call list" where
  "parens prevtoken type body =
     (if expr_compare_type prevtoken type > 0 then lit ''('' # body @ [lit '')'']  else body)"

fun expr_print :: "symtab \<Rightarrow> expr \<Rightarrow> expr_type \<Rightarrow> call list" where
  "expr_print \<sigma> (XSym s) p = parens p E_SYMBOL [print_left \<sigma> s]"
| "expr_print \<sigma> (XNot e) p = parens p E_NOT (lit ''!'' # expr_print \<sigma> e E_NOT)"
| "expr_print \<sigma> (XRel r s t) p =
     parens p (relop_type r) [print_left \<sigma> s, lit (rel_string r), print_right \<sigma> t]"
| "expr_print \<sigma> (XBin b l r) p =
     parens p (binop_type b)
       (expr_print \<sigma> l (binop_type b) @ lit (bin_string b) # expr_print \<sigma> r (binop_type b))"
| "expr_print \<sigma> (XList (Some l) s) p =
     parens p E_LIST (print_right \<sigma> s # lit '' ^ '' # expr_print \<sigma> l E_LIST)"
| "expr_print \<sigma> (XList None s) p = parens p E_LIST [print_right \<sigma> s]"
| "expr_print \<sigma> (XRange s t) p =
     parens p E_RANGE [lit ''['', print_right \<sigma> s, lit '' '', print_right \<sigma> t, lit '']'']"
| "expr_print \<sigma> XNone p = parens p E_NONE [lit ''<unknown type 0>'']"

definition expr_print_p :: "symtab \<Rightarrow> expr option \<Rightarrow> expr_type \<Rightarrow> call list" where
  "expr_print_p \<sigma> e p = (case e of None \<Rightarrow> [lit ''y''] | Some e' \<Rightarrow> expr_print \<sigma> e' p)"

section \<open>The grammar\<close>

text \<open>
  The productions of \<open>expr\<close>, in the stratified form that the \<open>%left T_OR\<close>, \<open>%left T_AND\<close> and
  \<open>%nonassoc T_NOT\<close> declarations select: a chain of \<open>||\<close> over chains of \<open>&&\<close> over negations,
  comparisons, symbols and parentheses. The tokens are the strings that are printed, less the
  blanks; a token with a symbol is the word that \<open>sym_lookup\<close> maps to it.
\<close>

datatype token = T_SYM symref | T_REL relop | T_BIN binop | T_NOT | T_OPEN_PAREN | T_CLOSE_PAREN

fun not_rel :: "token list \<Rightarrow> bool" where
  "not_rel (T_REL r # ts) = False"
| "not_rel ts = True"

fun not_bin :: "binop \<Rightarrow> token list \<Rightarrow> bool" where
  "not_bin b (T_BIN b' # ts) = (b' \<noteq> b)"
| "not_bin b ts = True"

inductive g_unary :: "token list \<Rightarrow> expr \<Rightarrow> token list \<Rightarrow> bool"
  and g_rest :: "binop \<Rightarrow> expr \<Rightarrow> token list \<Rightarrow> expr \<Rightarrow> token list \<Rightarrow> bool"
  and g_chain :: "binop \<Rightarrow> token list \<Rightarrow> expr \<Rightarrow> token list \<Rightarrow> bool" where
  g_sym: "not_rel ts \<Longrightarrow> g_unary (T_SYM s # ts) (expr_alloc_symbol s) ts"
| g_rel: "g_unary (T_SYM s # T_REL r # T_SYM t # ts) (expr_alloc_comp r s t) ts"
| g_not: "g_unary ts e ts' \<Longrightarrow> g_unary (T_NOT # ts) (expr_alloc_not e) ts'"
| g_paren: "g_chain B_OR ts e (T_CLOSE_PAREN # ts') \<Longrightarrow> g_unary (T_OPEN_PAREN # ts) e ts'"
| g_and: "g_unary ts e ts' \<Longrightarrow> g_rest B_AND e ts' e' ts'' \<Longrightarrow> g_chain B_AND ts e' ts''"
| g_or: "g_chain B_AND ts e ts' \<Longrightarrow> g_rest B_OR e ts' e' ts'' \<Longrightarrow> g_chain B_OR ts e' ts''"
| g_end: "not_bin b ts \<Longrightarrow> g_rest b acc ts acc ts"
| g_and_more: "g_unary ts e ts' \<Longrightarrow> g_rest B_AND (expr_alloc_two B_AND acc e) ts' e' ts'' \<Longrightarrow>
    g_rest B_AND acc (T_BIN B_AND # ts) e' ts''"
| g_or_more: "g_chain B_AND ts e ts' \<Longrightarrow> g_rest B_OR (expr_alloc_two B_OR acc e) ts' e' ts'' \<Longrightarrow>
    g_rest B_OR acc (T_BIN B_OR # ts) e' ts''"

definition parses :: "token list \<Rightarrow> expr \<Rightarrow> bool" where
  "parses ts e = g_chain B_OR ts e []"

inductive_cases g_unary_symE: "g_unary (T_SYM s # ts) e ts'"
inductive_cases g_unary_notE: "g_unary (T_NOT # ts) e ts'"
inductive_cases g_unary_parenE: "g_unary (T_OPEN_PAREN # ts) e ts'"
inductive_cases g_restE: "g_rest b acc ts e ts'"
inductive_cases g_chain_andE: "g_chain B_AND ts e ts'"
inductive_cases g_chain_orE: "g_chain B_OR ts e ts'"

lemma grammar_deterministic:
  "g_unary ts e r \<Longrightarrow> (\<forall>e' r'. g_unary ts e' r' \<longrightarrow> e' = e \<and> r' = r)"
  "g_rest b acc ts e r \<Longrightarrow> (\<forall>e' r'. g_rest b acc ts e' r' \<longrightarrow> e' = e \<and> r' = r)"
  "g_chain b ts e r \<Longrightarrow> (\<forall>e' r'. g_chain b ts e' r' \<longrightarrow> e' = e \<and> r' = r)"
proof (induction rule: g_unary_g_rest_g_chain.inducts)
  case (g_sym ts s)
  then show ?case by (auto elim: g_unary_symE)
next
  case (g_rel s r t ts)
  then show ?case by (auto elim: g_unary_symE)
next
  case (g_not ts e ts')
  show ?case
  proof (intro allI impI)
    fix f r assume "g_unary (T_NOT # ts) f r"
    then show "f = expr_alloc_not e \<and> r = ts'" by (rule g_unary_notE) (auto dest!: g_not.IH [unfolded alloc_defs, rule_format])
  qed
next
  case (g_paren ts e ts')
  show ?case
  proof (intro allI impI)
    fix f r assume "g_unary (T_OPEN_PAREN # ts) f r"
    then show "f = e \<and> r = ts'" by (rule g_unary_parenE) (auto dest!: g_paren.IH [unfolded alloc_defs, rule_format])
  qed
next
  case (g_and ts e ts' e' ts'')
  show ?case
  proof (intro allI impI)
    fix f r assume "g_chain B_AND ts f r"
    then show "f = e' \<and> r = ts''" by (rule g_chain_andE) (auto dest!: g_and.IH [unfolded alloc_defs, rule_format])
  qed
next
  case (g_or ts e ts' e' ts'')
  show ?case
  proof (intro allI impI)
    fix f r assume "g_chain B_OR ts f r"
    then show "f = e' \<and> r = ts''" by (rule g_chain_orE) (auto dest!: g_or.IH [unfolded alloc_defs, rule_format])
  qed
next
  case (g_end b ts acc)
  show ?case
  proof (intro allI impI)
    fix f r assume "g_rest b acc ts f r"
    then show "f = acc \<and> r = ts" using g_end by (cases rule: g_restE) auto
  qed
next
  case (g_and_more ts e ts' acc e' ts'')
  show ?case
  proof (intro allI impI)
    fix f r assume "g_rest B_AND acc (T_BIN B_AND # ts) f r"
    then show "f = e' \<and> r = ts''" by (rule g_restE) (auto dest!: g_and_more.IH [unfolded alloc_defs, rule_format])
  qed
next
  case (g_or_more ts e ts' acc e' ts'')
  show ?case
  proof (intro allI impI)
    fix f r assume "g_rest B_OR acc (T_BIN B_OR # ts) f r"
    then show "f = e' \<and> r = ts''" by (rule g_restE) (auto dest!: g_or_more.IH [unfolded alloc_defs, rule_format])
  qed
qed

text \<open>The tokens of the printed calls, blanks skipped.\<close>

fun token_of :: "call \<Rightarrow> token option" where
  "token_of (Some s, n) = Some (T_SYM s)"
| "token_of (None, Some n) =
     (if n = ''='' then Some (T_REL R_EQUAL) else if n = ''!='' then Some (T_REL R_UNEQUAL)
      else if n = ''<='' then Some (T_REL R_LEQ) else if n = ''<'' then Some (T_REL R_LTH)
      else if n = ''>='' then Some (T_REL R_GEQ) else if n = ''>'' then Some (T_REL R_GTH)
      else if n = '' || '' then Some (T_BIN B_OR) else if n = '' && '' then Some (T_BIN B_AND)
      else if n = ''!'' then Some T_NOT else if n = ''('' then Some T_OPEN_PAREN
      else if n = '')'' then Some T_CLOSE_PAREN else None)"
| "token_of (None, None) = None"

definition tokens :: "call list \<Rightarrow> token list" where
  "tokens cs = List.map_filter token_of cs"

lemma tokens_simps [simp]:
  "tokens [] = []" "tokens (a @ b) = tokens a @ tokens b"
  "tokens (c # cs) = (case token_of c of None \<Rightarrow> tokens cs | Some t \<Rightarrow> t # tokens cs)"
  by (simp_all add: tokens_def List.map_filter_def split: option.split)

lemma token_of_rel [simp]: "token_of (lit (rel_string r)) = Some (T_REL r)"
  by (cases r) auto

lemma token_of_lits [simp]:
  "token_of (lit (bin_string b)) = Some (T_BIN b)"
  "token_of (lit ''!'') = Some T_NOT" "token_of (lit ''('') = Some T_OPEN_PAREN"
  "token_of (lit '')'') = Some T_CLOSE_PAREN"
  by (cases b) auto

text \<open>Every left symbol has a name (it is no choice).\<close>

fun named :: "symtab \<Rightarrow> expr \<Rightarrow> bool" where
  "named \<sigma> (XSym s) = (sname (symbol_of \<sigma> s) \<noteq> None)"
| "named \<sigma> (XNot e) = named \<sigma> e"
| "named \<sigma> (XBin b l r) = (named \<sigma> l \<and> named \<sigma> r)"
| "named \<sigma> (XRel r s t) = (sname (symbol_of \<sigma> s) \<noteq> None)"
| "named \<sigma> e = False"

lemma token_of_left [simp]:
  "sname (symbol_of \<sigma> s) \<noteq> None \<Longrightarrow> token_of (print_left \<sigma> s) = Some (T_SYM s)"
  "token_of (print_right \<sigma> s) = Some (T_SYM s)"
  by (auto simp: print_left_def print_right_def)

text \<open>
  The chains of one operator leaning to the left, as the parser builds them: \<open>lean_on b acc e\<close>
  continues the chain \<open>acc\<close> with the operands of \<open>e\<close>.
\<close>

fun lean :: "expr \<Rightarrow> expr" and lean_on :: "binop \<Rightarrow> expr \<Rightarrow> expr \<Rightarrow> expr" where
  "lean (XBin b l r) = lean_on b (lean l) r"
| "lean (XNot e) = XNot (lean e)"
| "lean e = e"
| "lean_on b acc (XBin b' l r) =
     (if b' = b then lean_on b (lean_on b acc l) r else XBin b acc (lean_on b' (lean l) r))"
| "lean_on b acc (XNot e) = XBin b acc (XNot (lean e))"
| "lean_on b acc e = XBin b acc e"

text \<open>
  What \<open>tk\<close> is read as: one operand, or the operands of a chain of \<open>b\<close> that \<open>e\<close> contributes.
\<close>

definition reads_unary :: "token list \<Rightarrow> expr \<Rightarrow> bool" where
  "reads_unary tk e \<longleftrightarrow> (\<forall>ts. not_rel ts \<longrightarrow> g_unary (tk @ ts) (lean e) ts)"

definition stops :: "binop \<Rightarrow> token list \<Rightarrow> bool" where
  "stops b ts \<longleftrightarrow> not_rel ts \<and> (b = B_OR \<longrightarrow> not_bin B_AND ts)"

definition reads_in :: "binop \<Rightarrow> token list \<Rightarrow> expr \<Rightarrow> bool" where
  "reads_in b tk e \<longleftrightarrow>
     (\<forall>ts f r. stops b ts \<longrightarrow> g_rest b (lean e) ts f r \<longrightarrow> g_chain b (tk @ ts) f r)
   \<and> (\<forall>acc ts f r. stops b ts \<longrightarrow> g_rest b (lean_on b acc e) ts f r \<longrightarrow>
        g_rest b acc (T_BIN b # tk @ ts) f r)"

fun is_bin :: "binop \<Rightarrow> expr \<Rightarrow> bool" where
  "is_bin b (XBin b' l r) = (b' = b)"
| "is_bin b e = False"

lemma lean_on_other: "\<not> is_bin b e \<Longrightarrow> lean_on b acc e = XBin b acc (lean e)"
  by (cases e) auto

lemma unary_in_and: "reads_unary tk e \<Longrightarrow> \<not> is_bin B_AND e \<Longrightarrow> reads_in B_AND tk e"
  unfolding reads_in_def reads_unary_def stops_def
  by (intro conjI allI impI; simp add: lean_on_other)
    (blast intro: g_and g_and_more [unfolded alloc_defs])+

lemma and_in_or:
  assumes "reads_in B_AND tk e" "\<not> is_bin B_OR e"
  shows "reads_in B_OR tk e"
proof -
  have "g_chain B_AND (tk @ ts) (lean e) ts" if "stops B_OR ts" for ts
    using that assms(1) g_end [of B_AND ts "lean e"] by (auto simp: reads_in_def stops_def)
  with assms(2) show ?thesis
    unfolding reads_in_def
    by (intro conjI allI impI; simp add: lean_on_other)
      (blast intro: g_or g_or_more [unfolded alloc_defs])+
qed

lemma unary_in: "reads_unary tk e \<Longrightarrow> \<not> is_bin B_AND e \<Longrightarrow> \<not> is_bin B_OR e \<Longrightarrow> reads_in b tk e"
  by (cases b) (auto intro: unary_in_and and_in_or)

lemma reads_bin:
  assumes "reads_in b tl1 l" "reads_in b tl2 r"
  shows "reads_in b (tl1 @ T_BIN b # tl2) (XBin b l r)"
proof -
  have "stops b (T_BIN b # ts)" for ts by (cases b) (auto simp: stops_def)
  with assms show ?thesis unfolding reads_in_def by simp
qed

lemma reads_paren:
  assumes "reads_in b tk e"
  shows "reads_unary (T_OPEN_PAREN # tk @ [T_CLOSE_PAREN]) e"
proof -
  have c: "g_chain b (tk @ T_CLOSE_PAREN # ts) (lean e) (T_CLOSE_PAREN # ts)" for ts
    using assms g_end [of b "T_CLOSE_PAREN # ts" "lean e"] by (auto simp: reads_in_def stops_def)
  have "g_chain B_OR (tk @ T_CLOSE_PAREN # ts) (lean e) (T_CLOSE_PAREN # ts)" for ts
  proof (cases b)
    case B_AND
    with g_or [of "tk @ T_CLOSE_PAREN # ts" "lean e" "T_CLOSE_PAREN # ts" "lean e"] c [of ts]
    show ?thesis by (simp add: g_end)
  qed (use c [of ts] in simp)
  then show ?thesis by (auto simp: reads_unary_def intro: g_paren)
qed

section \<open>Printing and reading back\<close>

lemma compare_types [simp]:
  "expr_compare_type E_NOT E_SYMBOL = -1" "expr_compare_type E_NOT (relop_type r) = -1"
  "expr_compare_type E_NOT E_NOT = 0" "expr_compare_type E_NOT (binop_type b) = 1"
  "expr_compare_type (binop_type b) E_SYMBOL = -1" "expr_compare_type (binop_type b) E_NOT = -1"
  "expr_compare_type (binop_type b) (relop_type r) = -1"
  "expr_compare_type (binop_type b) (binop_type b) = 0"
  "expr_compare_type (binop_type B_AND) (binop_type B_OR) = 1"
  "expr_compare_type (binop_type B_OR) (binop_type B_AND) = -1"
  "expr_compare_type E_NONE t = (if t = E_NONE then 0 else -1)"
  by (cases r; cases b; simp)+

declare expr_compare_type.simps [simp del]

abbreviation ptok :: "symtab \<Rightarrow> expr \<Rightarrow> expr_type \<Rightarrow> token list" where
  "ptok \<sigma> e p \<equiv> tokens (expr_print \<sigma> e p)"

lemma printed_reads:
  "dep_expr e \<Longrightarrow> named \<sigma> e \<Longrightarrow>
     reads_unary (ptok \<sigma> e E_NOT) e \<and> (\<forall>b. reads_in b (ptok \<sigma> e (binop_type b)) e)"
proof (induction e)
  case (XSym s)
  then have "ptok \<sigma> (XSym s) E_NOT = [T_SYM s]" "ptok \<sigma> (XSym s) (binop_type b) = [T_SYM s]" for b
    by (simp_all add: parens_def del: binop_type.simps)
  moreover have "reads_unary [T_SYM s] (XSym s)"
    using g_sym by (auto simp: reads_unary_def)
  ultimately show ?case by (simp add: unary_in del: binop_type.simps)
next
  case (XRel r s t)
  then have "ptok \<sigma> (XRel r s t) E_NOT = [T_SYM s, T_REL r, T_SYM t]"
    "ptok \<sigma> (XRel r s t) (binop_type b) = [T_SYM s, T_REL r, T_SYM t]" for b
    by (simp_all add: parens_def del: binop_type.simps relop_type.simps token_of.simps)
  moreover have "reads_unary [T_SYM s, T_REL r, T_SYM t] (XRel r s t)"
    using g_rel by (auto simp: reads_unary_def)
  ultimately show ?case by (simp add: unary_in del: binop_type.simps)
next
  case (XNot e)
  then have "ptok \<sigma> (XNot e) E_NOT = T_NOT # ptok \<sigma> e E_NOT"
    "ptok \<sigma> (XNot e) (binop_type b) = T_NOT # ptok \<sigma> e E_NOT" for b
    by (simp_all add: parens_def del: binop_type.simps)
  moreover have "reads_unary (T_NOT # ptok \<sigma> e E_NOT) (XNot e)"
    using XNot g_not by (auto simp: reads_unary_def)
  ultimately show ?case by (simp add: unary_in del: binop_type.simps)
next
  case (XBin b l r)
  let ?t = "ptok \<sigma> l (binop_type b) @ T_BIN b # ptok \<sigma> r (binop_type b)"
  have t: "reads_in b ?t (XBin b l r)" using XBin by (auto intro: reads_bin)
  note p = reads_paren [OF t]
  have u: "ptok \<sigma> (XBin b l r) E_NOT = T_OPEN_PAREN # ?t @ [T_CLOSE_PAREN]"
    by (simp add: parens_def del: binop_type.simps bin_string.simps token_of.simps)
  have "reads_in b' (ptok \<sigma> (XBin b l r) (binop_type b')) (XBin b l r)" for b'
  proof (cases "b' = b")
    case True
    with t show ?thesis by (simp add: parens_def del: binop_type.simps bin_string.simps token_of.simps)
  next
    case False
    then consider "b' = B_AND" "b = B_OR" | "b' = B_OR" "b = B_AND" by (cases b; cases b') auto
    then show ?thesis
    proof cases
      case 1
      with unary_in_and [OF p] show ?thesis
        by (simp add: parens_def del: binop_type.simps bin_string.simps token_of.simps)
    next
      case 2
      with and_in_or [of ?t "XBin b l r"] t show ?thesis
        by (simp add: parens_def del: binop_type.simps bin_string.simps token_of.simps)
    qed
  qed
  with p u show ?case by simp
qed auto

lemma lean_value:
  "expr_calc_value \<sigma> (lean e) = expr_calc_value \<sigma> e"
  "expr_calc_value \<sigma> (lean_on b acc e) = expr_calc_value \<sigma> (XBin b acc e)"
  by (induction e and b acc e rule: lean_lean_on.induct)
    (auto simp: lvl.op_assoc simp del: comb.simps)

section \<open>expr_print_revdep\<close>

text \<open>The operands of the top level \<open>||\<close> with the value asked for, one line each.\<close>

fun expr_print_revdep ::
  "symtab \<Rightarrow> expr \<Rightarrow> tristate \<Rightarrow> cstr option \<Rightarrow> call list \<times> cstr option" where
  "expr_print_revdep \<sigma> (XBin B_OR l r) pr_type title =
     (let (c1, t1) = expr_print_revdep \<sigma> l pr_type title;
          (c2, t2) = expr_print_revdep \<sigma> r pr_type t1
      in (c1 @ c2, t2))"
| "expr_print_revdep \<sigma> e pr_type title =
     (if expr_calc_value \<sigma> e = pr_type
      then ((case title of Some t \<Rightarrow> [lit t] | None \<Rightarrow> [])
            @ lit ''  - '' # expr_print \<sigma> e E_NONE @ [lit [CHR 0x0A]], None)
      else ([], title))"

fun or_operands :: "expr \<Rightarrow> expr list" where
  "or_operands (XBin B_OR l r) = or_operands l @ or_operands r"
| "or_operands e = [e]"

definition revdep_line :: "symtab \<Rightarrow> expr \<Rightarrow> call list" where
  "revdep_line \<sigma> e = lit ''  - '' # expr_print \<sigma> e E_NONE @ [lit [CHR 0x0A]]"

lemma revdep_lines:
  "expr_print_revdep \<sigma> e pr_type title =
     (let es = filter (\<lambda>x. expr_calc_value \<sigma> x = pr_type) (or_operands e) in
      ((case title of Some t \<Rightarrow> if es = [] then [] else [lit t] | None \<Rightarrow> [])
         @ concat (map (revdep_line \<sigma>) es), if es = [] then title else None))"
  by (induction \<sigma> e pr_type title rule: expr_print_revdep.induct)
    (auto simp: revdep_line_def Let_def split: option.splits)

section \<open>Growable strings\<close>

text \<open>The buffer: its string, the bytes allocated for it and the width of a line, 0 for none.\<close>

record gstr =
  gs_s :: cstr
  gs_len :: nat
  max_width :: "32 word"

definition str_new :: gstr where
  "str_new = \<lparr>gs_s = [], gs_len = 64, max_width = 0\<rparr>"

definition str_append :: "gstr \<Rightarrow> cstr option \<Rightarrow> gstr" where
  "str_append gs str =
     (case str of
        None \<Rightarrow> gs
      | Some s \<Rightarrow>
          (let l = length (gs_s gs) + length s + 1;
               gs' = (if l > gs_len gs then gs\<lparr>gs_len := l\<rparr> else gs)
           in gs'\<lparr>gs_s := gs_s gs @ s\<rparr>))"

text \<open>\<open>str_printf\<close> formats into 10000 bytes, the last of them the NUL; the text is given formatted.\<close>

definition str_printf :: "gstr \<Rightarrow> cstr \<Rightarrow> gstr" where
  "str_printf gs text = str_append gs (Some (take 9999 text))"

definition newline :: char where
  "newline = CHR 0x0A"

text \<open>\<open>strlen(gs->s) - (last_cr - gs->s)\<close>: the last line with its newline, or the whole string.\<close>

definition last_line_length :: "cstr \<Rightarrow> nat" where
  "last_line_length s =
     (if newline \<in> set s then Suc (length (takeWhile (\<lambda>c. c \<noteq> newline) (rev s))) else length s)"

text \<open>\<open>None\<close> is the \<open>strlen\<close> of a NULL string.\<close>

definition expr_print_gstr_helper :: "symtab \<Rightarrow> call \<Rightarrow> gstr \<Rightarrow> gstr option" where
  "expr_print_gstr_helper \<sigma> c gs =
     (let (sy, str) = c;
          sym_str = map_option (sym_get_string_value \<sigma>) sy
      in do {
        gs1 \<leftarrow>
          (if max_width gs \<noteq> 0 then do {
             s \<leftarrow> str;
             let extra_length =
               (of_nat (length s) :: 32 word)
                 + (case sym_str of None \<Rightarrow> 0 | Some v \<Rightarrow> 4 + of_nat (length v));
             Some (if of_nat (last_line_length (gs_s gs)) + extra_length > max_width gs
                   then str_append gs (Some [CHR 0x5C, newline]) else gs) }
           else Some gs);
        let gs2 = str_append gs1 str;
        Some (case sy of
                None \<Rightarrow> gs2
              | Some x \<Rightarrow> if type_of_sym \<sigma> x \<noteq> S_UNKNOWN
                          then str_printf gs2 ('' [='' @ sym_get_string_value \<sigma> x @ '']'')
                          else gs2) })"

fun expr_gstr_print :: "symtab \<Rightarrow> call list \<Rightarrow> gstr \<Rightarrow> gstr option" where
  "expr_gstr_print \<sigma> [] gs = Some gs"
| "expr_gstr_print \<sigma> (c # cs) gs =
     do { gs' \<leftarrow> expr_print_gstr_helper \<sigma> c gs; expr_gstr_print \<sigma> cs gs' }"

text \<open>The string and its NUL are inside the allocation.\<close>

definition gstr_ok :: "gstr \<Rightarrow> bool" where
  "gstr_ok gs \<longleftrightarrow> length (gs_s gs) < gs_len gs"

lemma gstr_ok_new [simp]: "gstr_ok str_new"
  by (simp add: gstr_ok_def str_new_def)

lemma gstr_ok_append [simp]: "gstr_ok gs \<Longrightarrow> gstr_ok (str_append gs s)"
  by (auto simp: gstr_ok_def str_append_def Let_def split: option.splits)

lemma str_append_string [simp]:
  "gs_s (str_append gs (Some s)) = gs_s gs @ s" "max_width (str_append gs s') = max_width gs"
  "str_append gs None = gs"
  by (auto simp: str_append_def Let_def split: option.splits)

lemma helper_ok:
  "expr_print_gstr_helper \<sigma> c gs = Some gs' \<Longrightarrow> gstr_ok gs \<Longrightarrow> gstr_ok gs'"
  by (auto simp: expr_print_gstr_helper_def str_printf_def Let_def
      split: prod.splits if_splits option.splits)

lemma helper_width:
  "expr_print_gstr_helper \<sigma> c gs = Some gs' \<Longrightarrow> max_width gs' = max_width gs"
  by (auto simp: expr_print_gstr_helper_def str_printf_def Let_def
      split: prod.splits if_splits option.splits)

text \<open>The column at the end of a string, and the lines completed in it, from a given column.\<close>

fun column :: "nat \<Rightarrow> cstr \<Rightarrow> nat" where
  "column k [] = k"
| "column k (c # cs) = (if c = newline then column 0 cs else column (Suc k) cs)"

fun lines_fit :: "nat \<Rightarrow> nat \<Rightarrow> cstr \<Rightarrow> bool" where
  "lines_fit w k [] = True"
| "lines_fit w k (c # cs) =
     (if c = newline then k \<le> Suc w \<and> lines_fit w 0 cs else lines_fit w (Suc k) cs)"

lemma column_append: "column k (a @ b) = column (column k a) b"
  by (induction a arbitrary: k) auto

lemma lines_fit_append: "lines_fit w k (a @ b) \<longleftrightarrow> lines_fit w k a \<and> lines_fit w (column k a) b"
  by (induction a arbitrary: k) auto

lemma column_le: "column k s \<le> k + length s"
proof (induction s arbitrary: k)
  case (Cons c cs)
  from Cons [of 0] Cons [of "Suc k"] show ?case by auto
qed simp

lemma lines_fit_short: "k + length s \<le> Suc w \<Longrightarrow> lines_fit w k s"
  by (induction s arbitrary: k) auto

lemma column_last_line: "column 0 s \<le> last_line_length s"
proof (cases "newline \<in> set s")
  case True
  then obtain a b where s: "s = a @ newline # b" "newline \<notin> set b"
    using split_list_last by metis
  have "takeWhile (\<lambda>c. c \<noteq> newline) (rev s) = rev b"
    using s by (auto simp: takeWhile_tail takeWhile_eq_all_conv)
  then have "last_line_length s = Suc (length b)" using True by (simp add: last_line_length_def)
  moreover have "column 0 s \<le> length b" using column_le [of 0 b] s by (simp add: column_append)
  ultimately show ?thesis by simp
next
  case False
  then show ?thesis using column_le [of 0 s] by (simp add: last_line_length_def)
qed

text \<open>What a call prints, without the break.\<close>

definition printed :: "symtab \<Rightarrow> call \<Rightarrow> cstr" where
  "printed \<sigma> c =
     (case snd c of None \<Rightarrow> [] | Some s \<Rightarrow> s)
     @ (case fst c of None \<Rightarrow> []
        | Some x \<Rightarrow> if type_of_sym \<sigma> x \<noteq> S_UNKNOWN
                    then take 9999 ('' [='' @ sym_get_string_value \<sigma> x @ '']'') else [])"

definition extra :: "symtab \<Rightarrow> call \<Rightarrow> nat" where
  "extra \<sigma> c =
     (case snd c of None \<Rightarrow> 0 | Some s \<Rightarrow> length s)
     + (case fst c of None \<Rightarrow> 0 | Some x \<Rightarrow> 4 + length (sym_get_string_value \<sigma> x))"

lemma printed_le_extra: "length (printed \<sigma> c) \<le> extra \<sigma> c"
  by (auto simp: printed_def extra_def split: option.splits)

lemma helper_breaks:
  assumes "snd c = Some s" "max_width gs \<noteq> 0"
    "last_line_length (gs_s gs) + extra \<sigma> c < 2 ^ 32"
    "expr_print_gstr_helper \<sigma> c gs = Some gs'"
  shows "gs_s gs' =
    (if last_line_length (gs_s gs) + extra \<sigma> c > unat (max_width gs)
     then gs_s gs @ [CHR 0x5C, newline] else gs_s gs) @ printed \<sigma> c"
proof -
  obtain x where c: "c = (x, Some s)" using assms(1) by (cases c) auto
  have "of_nat (last_line_length (gs_s gs)) + (of_nat (length s)
      + (case map_option (sym_get_string_value \<sigma>) x of None \<Rightarrow> 0 | Some v \<Rightarrow> 4 + of_nat (length v)))
      = (of_nat (last_line_length (gs_s gs) + extra \<sigma> c) :: 32 word)"
    using c by (auto simp: extra_def split: option.splits)
  moreover have "(of_nat (last_line_length (gs_s gs) + extra \<sigma> c) > max_width gs)
      = (last_line_length (gs_s gs) + extra \<sigma> c > unat (max_width gs))"
    using assms(3) by (simp add: word_less_nat_alt unat_of_nat del: of_nat_add)
  ultimately show ?thesis
    using assms(2,4) c
    by (auto simp: expr_print_gstr_helper_def str_printf_def printed_def Let_def split: option.splits
        simp del: of_nat_add)
qed

lemma helper_lines:
  assumes "snd c = Some s" "max_width gs \<noteq> 0"
    "last_line_length (gs_s gs) + extra \<sigma> c < 2 ^ 32" "extra \<sigma> c \<le> unat (max_width gs)"
    "lines_fit (unat (max_width gs)) 0 (gs_s gs)" "column 0 (gs_s gs) \<le> unat (max_width gs)"
    "expr_print_gstr_helper \<sigma> c gs = Some gs'"
  shows "lines_fit (unat (max_width gs)) 0 (gs_s gs') \<and> column 0 (gs_s gs') \<le> unat (max_width gs)"
proof (cases "last_line_length (gs_s gs) + extra \<sigma> c > unat (max_width gs)")
  case True
  then have s: "gs_s gs' = gs_s gs @ [CHR 0x5C, newline] @ printed \<sigma> c"
    using helper_breaks [OF assms(1,2,3,7)] by simp
  have "lines_fit (unat (max_width gs)) 0 (printed \<sigma> c)"
    using printed_le_extra [of \<sigma> c] assms(4) by (intro lines_fit_short) simp
  moreover have "column 0 (printed \<sigma> c) \<le> unat (max_width gs)"
    using column_le [of 0 "printed \<sigma> c"] printed_le_extra [of \<sigma> c] assms(4) by simp
  ultimately show ?thesis
    using assms(5,6) unfolding s by (simp add: column_append lines_fit_append newline_def)
next
  case False
  then have s: "gs_s gs' = gs_s gs @ printed \<sigma> c"
    using helper_breaks [OF assms(1,2,3,7)] by simp
  have b: "column 0 (gs_s gs) + length (printed \<sigma> c) \<le> unat (max_width gs)"
    using column_last_line [of "gs_s gs"] printed_le_extra [of \<sigma> c] False by linarith
  have "lines_fit (unat (max_width gs)) (column 0 (gs_s gs)) (printed \<sigma> c)"
    using b by (intro lines_fit_short) simp
  moreover have "column (column 0 (gs_s gs)) (printed \<sigma> c) \<le> unat (max_width gs)"
    using column_le [of "column 0 (gs_s gs)" "printed \<sigma> c"] b by simp
  ultimately show ?thesis
    using assms(5) unfolding s by (simp add: column_append lines_fit_append)
qed

end
