(* ===== verification/Kconfig_Properties.thy ===== *)
theory Kconfig_Properties
  imports Kconfig_Dups Kconfig_Transform Kconfig_Print
begin

text \<open>
  The properties of the expression code of Kconfig, over the lemmas of the other \<open>Kconfig\<close>
  theories, with a symbol table on which they are exercised.
\<close>

section \<open>A symbol table\<close>

text \<open>
  \<open>Sym 0\<close> is the boolean FOO, set; \<open>Sym 1\<close> the tristate BAR, a module; \<open>Sym 2\<close> the boolean
  MODULES, set; every other reference is an unknown symbol without a value.
\<close>

definition demo_table :: symtab where
  "demo_table =
     \<lparr>syms = (\<lambda>i. if i = 0 then \<lparr>sname = Some ''FOO'', stype = S_BOOLEAN, curr_val = '''',
                                  curr_tri = Tyes, is_const = False\<rparr>
                  else if i = 1 then \<lparr>sname = Some ''BAR'', stype = S_TRISTATE, curr_val = '''',
                                  curr_tri = Tmod, is_const = False\<rparr>
                  else if i = 2 then \<lparr>sname = Some ''MODULES'', stype = S_BOOLEAN, curr_val = '''',
                                  curr_tri = Tyes, is_const = False\<rparr>
                  else \<lparr>sname = None, stype = S_UNKNOWN, curr_val = '''',
                                  curr_tri = Tno, is_const = False\<rparr>),
      modules_sym = Sym 2\<rparr>"

lemma demo_calculated: "calculated demo_table"
  by (auto simp: calculated_def demo_table_def)

lemma demo_plain: "consts_plain demo_table"
  by (auto simp: consts_plain_def demo_table_def)

section \<open>Elimination\<close>

text \<open>
  C5: \<open>expr_eliminate_dups\<close> returns on every dependency expression; the result is no larger,
  is left alone by a second run, and has the value of its argument in every calculated table
  whose constants are distinct plain strings.
\<close>
theorem eliminate_dups_correct:
  assumes "dep_expr e" "calculated \<sigma>" "consts_plain \<sigma>"
  shows "\<exists>e'. expr_eliminate_dups \<sigma> e = Some e' \<and> dep_expr e' \<and> nodes e' \<le> nodes e
    \<and> expr_eliminate_dups \<sigma> e' = Some e'
    \<and> expr_calc_value \<sigma> e' = expr_calc_value \<sigma> e"
proof -
  obtain e' where e': "dups_loop (nodes e) \<sigma> e = Some e'" "dep_expr e'" "nodes e' \<le> nodes e"
    "dups_pass \<sigma> e' = Some (e', 0)" "expr_calc_value \<sigma> e' = expr_calc_value \<sigma> e"
    using dups_loop_ok [OF assms(1) order_refl] assms(2,3) by blast
  moreover have "dups_loop (nodes e') \<sigma> e' = Some e'"
    using e'(4) nodes_pos [of e'] by (cases "nodes e'") auto
  ultimately show ?thesis by (auto simp: expr_eliminate_dups_def)
qed

theorem eliminate_dups_correct_witness:
  "\<exists>e'. expr_eliminate_dups demo_table (XBin B_OR (XSym (Sym 1)) (XSym (Sym 1))) = Some e'
      \<and> expr_calc_value demo_table e' = Tmod"
  using eliminate_dups_correct [OF _ demo_calculated demo_plain,
      of "XBin B_OR (XSym (Sym 1)) (XSym (Sym 1))"]
  by (auto simp: demo_table_def)

lemma shares_reflects:
  "shares t e1 e2 a b \<Longrightarrow> expr_calc_value \<sigma> a = expr_calc_value \<sigma> b \<Longrightarrow>
     expr_calc_value \<sigma> e1 = expr_calc_value \<sigma> e2"
  unfolding shares_def by metis

lemma elim_eq_reflects:
  assumes "elim_eq_n n t e1 e2 c = Some (a, b, c')" "dep_expr e1" "dep_expr e2"
  shows "(expr_calc_value \<sigma> a = expr_calc_value \<sigma> b \<longrightarrow> expr_calc_value \<sigma> e1 = expr_calc_value \<sigma> e2)
    \<and> dep_expr a \<and> dep_expr b \<and> nodes a \<le> nodes e1 \<and> nodes b \<le> nodes e2"
proof -
  have "shares t e1 e2 a b" using eq_elim_sound [of n] assms by blast
  then show ?thesis using elim_eq_keeps [OF assms(1)] assms(2,3) shares_reflects by blast
qed

text \<open>The two steps of \<open>expr_eliminate_eq\<close>, each of them run or skipped.\<close>

definition level_step :: "nat \<Rightarrow> bool \<Rightarrow> expr \<Rightarrow> expr \<times> expr \<times> nat \<Rightarrow> (expr \<times> expr \<times> nat) option" where
  "level_step n run e p =
     (if run then (case e of XBin t _ _ \<Rightarrow> (case p of (a, b, c) \<Rightarrow> elim_eq_n n t a b c) | _ \<Rightarrow> Some p)
      else Some p)"

lemma eliminate_eq_steps:
  "eliminate_eq_n (Suc n) e1 e2 c =
     do { (a1, a2, c1) \<leftarrow> level_step n True e1 (e1, e2, c);
          (b1, b2, c2) \<leftarrow> level_step n (type_of a1 \<noteq> type_of a2) a2 (a1, a2, c1);
          Some (expr_eliminate_yn b1, expr_eliminate_yn b2, c2) }"
proof -
  have f: "level_step n True e1 (e1, e2, c)
      = (case e1 of XBin t _ _ \<Rightarrow> elim_eq_n n t e1 e2 c | _ \<Rightarrow> Some (e1, e2, c))"
    by (simp add: level_step_def split: expr.split)
  have g: "level_step n r a2 (a1, a2, c1)
      = (if r then (case a2 of XBin t _ _ \<Rightarrow> elim_eq_n n t a1 a2 c1 | _ \<Rightarrow> Some (a1, a2, c1))
         else Some (a1, a2, c1))" for r a1 a2 c1
    by (simp add: level_step_def split: expr.split)
  show ?thesis unfolding eliminate_eq_n.simps f g ..
qed

lemma level_step_ok:
  assumes "dep_expr a" "dep_expr b" "e = a \<or> e = b" "4 * (nodes a + nodes b) + 4 \<le> n"
  shows "\<exists>a' b' c'. level_step n run e (a, b, c) = Some (a', b', c') \<and> dep_expr a' \<and> dep_expr b'
    \<and> nodes a' \<le> nodes a \<and> nodes b' \<le> nodes b
    \<and> (\<forall>\<sigma>. expr_calc_value \<sigma> a' = expr_calc_value \<sigma> b' \<longrightarrow> expr_calc_value \<sigma> a = expr_calc_value \<sigma> b)"
proof (cases "run \<and> (\<exists>t l r. e = XBin t l r)")
  case True
  then obtain t l r where e: "e = XBin t l r" and run by blast
  obtain a' b' c' where s: "elim_eq_n n t a b c = Some (a', b', c')"
    using eq_elim_enough assms(1,2,4) by (metis prod_cases3)
  with elim_eq_reflects [OF s assms(1,2)] e \<open>run\<close> show ?thesis by (simp add: level_step_def)
next
  case False
  with assms show ?thesis by (cases e) (auto simp: level_step_def)
qed

text \<open>
  C33: \<open>expr_eliminate_eq\<close> returns on all dependency expressions, and where the two trees it
  leaves have the same value, so had the two trees it was given: removing the common operands
  never hides a difference.
\<close>
theorem eliminate_eq_reflects:
  assumes "dep_expr e1" "dep_expr e2"
  shows "\<exists>a b cnt'. expr_eliminate_eq (Some e1) (Some e2) cnt = Some (Some a, Some b, cnt')
    \<and> (\<forall>\<sigma>. expr_calc_value \<sigma> a = expr_calc_value \<sigma> b \<longrightarrow>
           expr_calc_value \<sigma> e1 = expr_calc_value \<sigma> e2)"
proof -
  define n where "n = 4 * (nodes e1 + nodes e2) + 4"
  obtain a1 a2 c1 where 1: "level_step n True e1 (e1, e2, cnt) = Some (a1, a2, c1)"
    "dep_expr a1" "dep_expr a2" "nodes a1 \<le> nodes e1" "nodes a2 \<le> nodes e2"
    "\<forall>\<sigma>. expr_calc_value \<sigma> a1 = expr_calc_value \<sigma> a2 \<longrightarrow> expr_calc_value \<sigma> e1 = expr_calc_value \<sigma> e2"
    using level_step_ok [of e1 e2 e1 n True cnt] assms unfolding n_def by auto
  obtain b1 b2 c2 where 2: "level_step n (type_of a1 \<noteq> type_of a2) a2 (a1, a2, c1) = Some (b1, b2, c2)"
    "\<forall>\<sigma>. expr_calc_value \<sigma> b1 = expr_calc_value \<sigma> b2 \<longrightarrow> expr_calc_value \<sigma> a1 = expr_calc_value \<sigma> a2"
    using level_step_ok [of a1 a2 a2 n "type_of a1 \<noteq> type_of a2" c1] 1 unfolding n_def by auto
  have "eliminate_eq_n (Suc n) e1 e2 cnt = Some (expr_eliminate_yn b1, expr_eliminate_yn b2, c2)"
    using 1 2 by (simp add: eliminate_eq_steps)
  moreover have "4 * (nodes e1 + nodes e2) + 5 = Suc n" by (simp add: n_def)
  ultimately have "expr_eliminate_eq (Some e1) (Some e2) cnt
      = Some (Some (expr_eliminate_yn b1), Some (expr_eliminate_yn b2), c2)"
    unfolding expr_eliminate_eq_def
    by (simp only: option.case prod.case Option.bind.simps)
  moreover have "expr_calc_value \<sigma> (expr_eliminate_yn b1) = expr_calc_value \<sigma> (expr_eliminate_yn b2)
      \<longrightarrow> expr_calc_value \<sigma> e1 = expr_calc_value \<sigma> e2" for \<sigma>
    using 1(6) 2(2) by simp
  ultimately show ?thesis by blast
qed

theorem eliminate_eq_reflects_witness:
  "\<exists>a b cnt'. expr_eliminate_eq (Some (XBin B_AND (XSym (Sym 0)) (XSym (Sym 1))))
      (Some (XBin B_AND (XSym (Sym 1)) (XSym (Sym 2)))) 0 = Some (Some a, Some b, cnt')
    \<and> (\<forall>\<sigma>. expr_calc_value \<sigma> a = expr_calc_value \<sigma> b \<longrightarrow>
         expr_calc_value \<sigma> (XBin B_AND (XSym (Sym 0)) (XSym (Sym 1)))
           = expr_calc_value \<sigma> (XBin B_AND (XSym (Sym 1)) (XSym (Sym 2))))"
  by (rule eliminate_eq_reflects) simp_all

text \<open>
  two dependency expressions that \<open>expr_eq\<close> calls equal have the same value in every table,
  and on a comparison or a symbol it is equality.
\<close>
theorem expr_eq_correct:
  assumes "dep_expr e1" "dep_expr e2" "expr_eq e1 e2"
  shows "expr_calc_value \<sigma> e1 = expr_calc_value \<sigma> e2 \<and> type_of e1 = type_of e2
    \<and> ((\<exists>s. e1 = XSym s) \<or> (\<exists>r s t. e1 = XRel r s t) \<longrightarrow> e2 = e1)"
proof -
  have t: "type_of e1 = type_of e2"
    using assms(3) by (auto simp: expr_eq_def numeral_eq_Suc expr_eq_n.simps(2) split: if_splits)
  have sym: "E_SYMBOL \<noteq> binop_type b" "E_SYMBOL \<noteq> relop_type r" for b r
    by (cases b; cases r; simp)+
  have "e2 = e1" if "(\<exists>s. e1 = XSym s) \<or> (\<exists>r s t. e1 = XRel r s t)"
    using that t assms by (elim disjE exE; cases e2) (auto simp: sym)
  with t expr_eq_sound [OF assms(3,1,2)] show ?thesis by blast
qed

theorem expr_eq_correct_witness:
  "expr_eq (XRel R_EQUAL (Sym 0) symbol_no) (XRel R_EQUAL (Sym 0) symbol_no)
   \<and> type_of (XRel R_EQUAL (Sym 0) symbol_no) = type_of (XRel R_EQUAL (Sym 0) symbol_no)"
  using expr_eq_correct [of "XRel R_EQUAL (Sym 0) symbol_no" "XRel R_EQUAL (Sym 0) symbol_no"] by simp

text \<open>
  when \<open>expr_join_or\<close> or \<open>expr_join_and\<close> merges two leaves, the merged expression has the
  value of the disjunction or conjunction.
\<close>
theorem expr_join_correct:
  assumes "calculated \<sigma>" "consts_plain \<sigma>" "dep_expr e1" "dep_expr e2" "expr_join \<sigma> b e1 e2 = Some t"
  shows "expr_calc_value \<sigma> t = expr_calc_value \<sigma> (XBin b e1 e2)"
  using join_sound [OF assms] by simp

theorem expr_join_correct_witness:
  "\<exists>t. expr_join demo_table B_OR (XRel R_EQUAL (Sym 1) symbol_yes) (XRel R_EQUAL (Sym 1) symbol_mod)
       = Some t
     \<and> expr_calc_value demo_table t = expr_calc_value demo_table
         (XBin B_OR (XRel R_EQUAL (Sym 1) symbol_yes) (XRel R_EQUAL (Sym 1) symbol_mod))"
proof -
  have j: "expr_join demo_table B_OR (XRel R_EQUAL (Sym 1) symbol_yes) (XRel R_EQUAL (Sym 1) symbol_mod)
      = Some (XRel R_UNEQUAL (Sym 1) symbol_no)"
    by (simp add: expr_join_def expr_join_or_def join_sym_def or_rules_def demo_table_def
        is_not_sym_def)
  show ?thesis
    using expr_join_correct [OF demo_calculated demo_plain _ _ j] j by simp
qed

section \<open>Transformation\<close>

text \<open>
  C21: \<open>expr_transform\<close> returns on every dependency expression, computes the one-pass reference
  \<open>transform_spec\<close>, keeps the value, and leaves negation only on symbols of the table and no
  boolean compared with a tristate constant.
\<close>
theorem expr_transform_correct:
  assumes "dep_expr e" "calculated \<sigma>"
  shows "expr_transform \<sigma> (Some e) = Some (Some (transform_spec \<sigma> e))
    \<and> expr_calc_value \<sigma> (transform_spec \<sigma> e) = expr_calc_value \<sigma> e
    \<and> normal \<sigma> (transform_spec \<sigma> e)"
  using transform_is_spec [OF assms(1), of "2 * nodes e + 4"] assms
  by (simp add: expr_transform_def transform_spec_value normal_transform_spec)

theorem expr_transform_correct_witness:
  "expr_transform demo_table (Some (XNot (XBin B_OR (XRel R_EQUAL (Sym 0) symbol_no) (XSym (Sym 1)))))
     = Some (Some (XBin B_AND (XSym (Sym 0)) (XNot (XSym (Sym 1)))))"
  using expr_transform_correct [OF _ demo_calculated,
      of "XNot (XBin B_OR (XRel R_EQUAL (Sym 0) symbol_no) (XSym (Sym 1)))"]
  by (simp add: transform_rel_def demo_table_def)

text \<open>
  on tristate operands, with no \<open>m\<close> under a negation, \<open>expr_trans_compare\<close> builds the
  comparison of the value with \<open>y\<close> or with \<open>n\<close>.
\<close>
theorem expr_trans_compare_exact:
  assumes "calculated \<sigma>" "comparable \<sigma> e" "w = Tyes \<or> w = Tno" "type = R_EQUAL \<or> type = R_UNEQUAL"
  shows "\<exists>e'. expr_trans_compare (Some e) type (const_of_tri w) = Some e'
    \<and> (expr_calc_value \<sigma> e' = Tyes \<longleftrightarrow> (expr_calc_value \<sigma> e = w) = (type = R_EQUAL))
    \<and> expr_calc_value \<sigma> e' \<noteq> Tmod"
  using trans_compare_value [OF assms(1,3,2,4)]
  by (auto simp: expr_trans_compare_def tri_test_def)

theorem expr_trans_compare_exact_witness:
  "\<exists>e'. expr_trans_compare (Some (XBin B_AND (XNot (XSym (Sym 0))) (XSym (Sym 1)))) R_UNEQUAL symbol_no
       = Some e' \<and> expr_calc_value demo_table e' = Tno"
proof -
  have "comparable demo_table (XBin B_AND (XNot (XSym (Sym 0))) (XSym (Sym 1)))"
    by (simp add: logical_sym_def demo_table_def)
  from expr_trans_compare_exact [OF demo_calculated this, of Tno R_UNEQUAL] obtain e' where
    e': "expr_trans_compare (Some (XBin B_AND (XNot (XSym (Sym 0))) (XSym (Sym 1)))) R_UNEQUAL symbol_no
       = Some e'" "expr_calc_value demo_table e' \<noteq> Tyes" "expr_calc_value demo_table e' \<noteq> Tmod"
    by (auto simp: demo_table_def)
  then have "expr_calc_value demo_table e' = Tno" by (cases "expr_calc_value demo_table e'") auto
  with e'(1) show ?thesis by blast
qed

text \<open>
  the comparison built for a negated operand is wrong where the operand is \<open>m\<close>: \<open>!A\<close> then
  has the value \<open>m\<close>, which is neither \<open>y\<close> nor \<open>n\<close>, yet \<open>A!='y'\<close>, the rewriting of
  \<open>!A = 'y'\<close>, holds.
\<close>
theorem trans_compare_not_mod:
  "\<exists>e'. expr_trans_compare (Some (XNot (XSym (Sym 1)))) R_EQUAL symbol_yes = Some e'
    \<and> expr_calc_value demo_table (XNot (XSym (Sym 1))) = Tmod
    \<and> expr_calc_value demo_table e' = Tyes"
  by (simp add: expr_trans_compare_def demo_table_def expr_compare_def sym_get_string_value_def
      expr_parse_string_def Let_def split_beta number_kind_def c_strtoll_def scan_integer_def
      hex_prefix_def is_digit_of_def digit_val_def ctype_defs)

text \<open>
  on expressions without negation \<open>expr_trans_bool\<close> never raises a value, and gives \<open>n\<close>
  exactly where the expression does.
\<close>
theorem expr_trans_bool_lower_bound:
  assumes "calculated \<sigma>" "negation_free e"
  shows "expr_calc_value \<sigma> (expr_trans_bool \<sigma> e) \<le> expr_calc_value \<sigma> e
    \<and> (expr_calc_value \<sigma> (expr_trans_bool \<sigma> e) = Tno \<longleftrightarrow> expr_calc_value \<sigma> e = Tno)"
  using trans_bool_bound [OF assms] .

theorem expr_trans_bool_lower_bound_witness:
  "expr_trans_bool demo_table (XRel R_UNEQUAL (Sym 1) symbol_no) = XSym (Sym 1)
   \<and> expr_calc_value demo_table (XSym (Sym 1)) \<le> expr_calc_value demo_table (XRel R_UNEQUAL (Sym 1) symbol_no)"
  using expr_trans_bool_lower_bound [OF demo_calculated, of "XRel R_UNEQUAL (Sym 1) symbol_no"]
  by (simp add: demo_table_def)

section \<open>Printing\<close>

text \<open>
  C22: what \<open>expr_print\<close> prints for a dependency expression with named symbols is read by the
  grammar of \<open>parser.y\<close> as one expression and no other, and that expression has the value of
  the printed one in every table.
\<close>
theorem print_parse_roundtrip:
  assumes "dep_expr e" "named \<sigma> e"
  shows "\<exists>e'. (\<forall>f. parses (tokens (expr_print \<sigma> e E_NONE)) f \<longleftrightarrow> f = e')
    \<and> (\<forall>\<sigma>'. expr_calc_value \<sigma>' e' = expr_calc_value \<sigma>' e)"
proof -
  have none: "expr_print \<sigma> e E_NONE = expr_print \<sigma> e (binop_type B_OR)"
  proof (cases e)
    case (XBin b l r)
    have "\<not> expr_compare_type (binop_type B_OR) (binop_type b) > 0"
      using compare_types(8) [of B_OR] compare_types(10) by (cases b) (simp_all del: binop_type.simps)
    then show ?thesis unfolding XBin by (simp add: parens_def del: binop_type.simps)
  qed (use assms(1) in \<open>simp_all add: parens_def del: binop_type.simps\<close>)
  have "reads_in B_OR (tokens (expr_print \<sigma> e E_NONE)) e"
    using printed_reads [OF assms] unfolding none by blast
  then have p: "parses (tokens (expr_print \<sigma> e E_NONE)) (lean e)"
    unfolding reads_in_def parses_def
    by (elim conjE allE [where x = "[]"]) (simp add: stops_def g_end)
  then have "parses (tokens (expr_print \<sigma> e E_NONE)) f \<longleftrightarrow> f = lean e" for f
    using grammar_deterministic(3) unfolding parses_def by blast
  with lean_value(1) show ?thesis by blast
qed

theorem print_parse_roundtrip_witness:
  "\<exists>e'. \<forall>f. parses [T_NOT, T_OPEN_PAREN, T_SYM (Sym 0), T_BIN B_AND, T_SYM (Sym 1), T_REL R_LEQ,
      T_SYM symbol_yes, T_CLOSE_PAREN] f \<longleftrightarrow> f = e'"
  using print_parse_roundtrip [of "XNot (XBin B_AND (XSym (Sym 0)) (XRel R_LEQ (Sym 1) symbol_yes))"
      demo_table]
  by (auto simp: demo_table_def parens_def print_left_def print_right_def expr_compare_type.simps)

text \<open>
  with a width set, a call whose text and value fit the width keeps every line of the buffer
  within the width, plus the backslash of a break, and the string inside its allocation.
\<close>
theorem gstr_helper_lines:
  assumes "snd c = Some s" "max_width gs \<noteq> 0" "extra \<sigma> c \<le> unat (max_width gs)"
    "last_line_length (gs_s gs) + extra \<sigma> c < 2 ^ 32" "gstr_ok gs"
    "lines_fit (unat (max_width gs)) 0 (gs_s gs)" "column 0 (gs_s gs) \<le> unat (max_width gs)"
  shows "\<exists>gs'. expr_print_gstr_helper \<sigma> c gs = Some gs' \<and> gstr_ok gs'
    \<and> lines_fit (unat (max_width gs)) 0 (gs_s gs') \<and> column 0 (gs_s gs') \<le> unat (max_width gs)"
proof -
  have "\<exists>gs'. expr_print_gstr_helper \<sigma> c gs = Some gs'"
    using assms(1) by (auto simp: expr_print_gstr_helper_def Let_def split: prod.splits)
  then show ?thesis
    using helper_lines [OF assms(1,2,4,3,6,7)] helper_ok assms(5) by blast
qed

theorem gstr_helper_lines_witness:
  "\<exists>gs'. expr_print_gstr_helper demo_table (Some (Sym 1), Some ''BAR'')
       (str_new\<lparr>max_width := 10\<rparr>) = Some gs' \<and> lines_fit 10 0 (gs_s gs')"
  using gstr_helper_lines [of "(Some (Sym 1), Some ''BAR'')" "''BAR''" "str_new\<lparr>max_width := 10\<rparr>"
      demo_table]
  by (auto simp: str_new_def extra_def last_line_length_def gstr_ok_def demo_table_def
      sym_get_string_value_def)

text \<open>
  \<open>expr_print_revdep\<close> prints one line for every operand of the top level \<open>||\<close> that has the
  value asked for, in their order, after the title, which is printed once and only if a line is.
\<close>
theorem revdep_prints_operands:
  "expr_print_revdep \<sigma> e pr_type (Some t) =
     (let es = filter (\<lambda>x. expr_calc_value \<sigma> x = pr_type) (or_operands e) in
      if es = [] then ([], Some t) else (lit t # concat (map (revdep_line \<sigma>) es), None))"
  using revdep_lines [of \<sigma> e pr_type "Some t"] by (auto simp: Let_def)

end
