(* ===== verification/Unifdef_Scan.thy ===== *)
theory Unifdef_Scan
  imports Prelude
begin

text \<open>
  \<open>unifdef.c\<close>: the types, the options and the state of the program, and its scanner: skipping
  of comments, macro arguments and identifiers, and the table of symbols.

  \<open>tline\<close> is the input buffer as a string; a pointer into it is the suffix of the string that
  starts there. The arrays indexed by \<open>depth\<close> and by a symbol number are functions.
\<close>

section \<open>Types\<close>

text \<open>
  The types of input lines. The enumeration of the source is linear, with \<open>LT_DODGY\<close> added to
  the number of a directive whose text is not on one line; here a directive is \<open>Dir\<close> or
  \<open>LT_DODGY\<close> of its kind, and \<open>column\<close> of \<open>Unifdef_Machine\<close> gives the numbers back.
\<close>

datatype directive =
    LT_TRUEI | LT_FALSEI | LT_IF | LT_TRUE | LT_FALSE | LT_ELIF | LT_ELTRUE | LT_ELFALSE
  | LT_ELSE | LT_ENDIF

datatype Linetype = Dir directive | LT_DODGY directive | LT_PLAIN | LT_EOF | LT_ERROR

datatype Ifstate =
    IS_OUTSIDE | IS_FALSE_PREFIX | IS_TRUE_PREFIX | IS_PASS_MIDDLE | IS_FALSE_MIDDLE
  | IS_TRUE_MIDDLE | IS_PASS_ELSE | IS_FALSE_ELSE | IS_TRUE_ELSE | IS_FALSE_TRAILER

datatype Comment_state =
    NO_COMMENT | C_COMMENT | CXX_COMMENT | STARTING_COMMENT | FINISHING_COMMENT | CHAR_LITERAL
  | STRING_LITERAL

datatype Line_state = LS_START | LS_HASH | LS_DIRTY

definition MAXDEPTH :: nat where "MAXDEPTH = 64"
definition MAXLINE :: nat where "MAXLINE = 4096"
definition MAXSYMS :: nat where "MAXSYMS = 4096"
definition EDITSLOP :: nat where "EDITSLOP = 10"

text \<open>The options, constant once \<open>main\<close> has read the command line.\<close>

record options =
  compblank :: bool
  lnblank :: bool
  complement :: bool
  iocccok :: bool
  strictlogic :: bool
  killconsts :: bool
  lnnum :: bool
  symlist :: bool
  symdepth :: bool
  text_file :: bool

text \<open>What is written: by \<open>fputs\<close> to the output, by \<open>printf\<close> to the standard output.\<close>

datatype written = To_output cstr | To_stdout cstr

record ustate =
  symname :: "nat \<Rightarrow> cstr"
  symvalue :: "nat \<Rightarrow> cstr option"
  ignore :: "nat \<Rightarrow> bool"
  nsyms :: nat
  input :: cstr
  written :: "written list"
  linenum :: nat
  tline :: cstr
  keyword :: nat
  newline :: "cstr option"
  incomment :: Comment_state
  linestate :: Line_state
  ifstate :: "nat \<Rightarrow> Ifstate"
  ignoring :: "nat \<Rightarrow> bool"
  stifline :: "nat \<Rightarrow> nat"
  depth :: nat
  delcount :: nat
  blankcount :: "32 word"
  blankmax :: "32 word"
  constexpr :: bool
  zerosyms :: bool
  firstsym :: bool
  exitstat :: nat

text \<open>
  Why the program stops: \<open>error\<close> with its message (which ends in \<open>exit(2)\<close>), \<open>usage\<close> or
  \<open>errx\<close>, \<open>done\<close> with the exit status, or \<open>abort\<close>. \<open>Out_of_fuel\<close> is the end of the fuel of the
  expression evaluator, which the lemmas of \<open>Unifdef_Eval\<close> exclude.
\<close>

datatype stop = Error cstr ustate | Usage cstr | Done ustate | Abort | Out_of_fuel

type_synonym 'a step = "stop + 'a \<times> ustate"

abbreviation LF :: cstr where "LF \<equiv> [CHR 0x0A]"
abbreviation BS_LF :: cstr where "BS_LF \<equiv> [CHR 0x5C, CHR 0x0A]"
abbreviation BS_CRLF :: cstr where "BS_CRLF \<equiv> [CHR 0x5C, CHR 0x0D, CHR 0x0A]"
abbreviation SQUOTE :: char where "SQUOTE \<equiv> CHR 0x27"
abbreviation DQUOTE :: char where "DQUOTE \<equiv> CHR 0x22"
abbreviation BACKSLASH :: char where "BACKSLASH \<equiv> CHR 0x5C"

definition error :: "cstr \<Rightarrow> ustate \<Rightarrow> stop + 'a" where
  "error msg s = Inl (Error msg s)"

section \<open>skipcomment\<close>

text \<open>
  The scanner proper works on the two globals \<open>incomment\<close> and \<open>linestate\<close>; \<open>Inl\<close> is the
  message of \<open>error\<close>. \<open>skip_space\<close> is the loop for text files and ignored blocks.
\<close>

fun skip_space :: "Line_state \<Rightarrow> cstr \<Rightarrow> cstr \<times> Line_state" where
  "skip_space ls [] = ([], ls)"
| "skip_space ls (c # cs) =
     (if c_isspace c then skip_space (if c = CHR 0x0A then LS_START else ls) cs else (c # cs, ls))"

fun transient :: "Comment_state \<Rightarrow> nat" where
  "transient STARTING_COMMENT = 1"
| "transient FINISHING_COMMENT = 1"
| "transient _ = 0"

text \<open>
  One turn of the loop on a non-empty string: \<open>error\<close>, \<open>return (cp)\<close>, or how far \<open>cp\<close> moves
  with the new states.
\<close>

datatype scan = Fail cstr | Return | Move nat Comment_state Line_state

definition scan_step :: "Comment_state \<Rightarrow> Line_state \<Rightarrow> cstr \<Rightarrow> scan" where
  "scan_step ic ls cp =
     (if starts_with cp BS_CRLF then Move 3 ic ls
      else if starts_with cp BS_LF then Move 2 ic ls
      else (case ic of
        NO_COMMENT \<Rightarrow>
          (if starts_with cp (CHR ''/'' # BS_CRLF) then Move 4 STARTING_COMMENT ls
           else if starts_with cp (CHR ''/'' # BS_LF) then Move 3 STARTING_COMMENT ls
           else if starts_with cp ''/*'' then Move 2 C_COMMENT ls
           else if starts_with cp ''//'' then Move 2 CXX_COMMENT ls
           else if hd cp = SQUOTE then Move 1 CHAR_LITERAL LS_DIRTY
           else if hd cp = DQUOTE then Move 1 STRING_LITERAL LS_DIRTY
           else if hd cp = CHR 0x0A then Move 1 ic LS_START
           else if hd cp \<in> {CHR '' '', CHR 0x0D, CHR 0x09} then Move 1 ic ls
           else Return)
      | CXX_COMMENT \<Rightarrow>
          (if hd cp = CHR 0x0A then Move 1 NO_COMMENT LS_START else Move 1 ic ls)
      | C_COMMENT \<Rightarrow>
          (if starts_with cp (CHR ''*'' # BS_CRLF) then Move 4 FINISHING_COMMENT ls
           else if starts_with cp (CHR ''*'' # BS_LF) then Move 3 FINISHING_COMMENT ls
           else if starts_with cp ''*/'' then Move 2 NO_COMMENT ls
           else Move 1 ic ls)
      | STARTING_COMMENT \<Rightarrow>
          (if hd cp = CHR ''*'' then Move 1 C_COMMENT ls
           else if hd cp = CHR ''/'' then Move 1 CXX_COMMENT ls
           else Move 0 NO_COMMENT LS_DIRTY)
      | FINISHING_COMMENT \<Rightarrow>
          (if hd cp = CHR ''/'' then Move 1 NO_COMMENT ls else Move 0 C_COMMENT ls)
      | _ \<Rightarrow>
          (if ic = CHAR_LITERAL \<and> hd cp = SQUOTE \<or> ic = STRING_LITERAL \<and> hd cp = DQUOTE
           then Move 1 NO_COMMENT ls
           else if hd cp = BACKSLASH then Move (if tl cp = [] then 1 else 2) ic ls
           else if hd cp = CHR 0x0A
           then Fail (if ic = CHAR_LITERAL then ''unterminated char literal''
                      else ''unterminated string literal'')
           else Move 1 ic ls)))"

lemma scan_step_progress:
  "scan_step ic ls cp = Move n ic' ls' \<Longrightarrow> n = 0 \<Longrightarrow> transient ic' < transient ic"
  by (auto simp: scan_step_def split: if_splits Comment_state.splits)

lemma scan_step_Return:
  "scan_step ic ls cp = Return \<Longrightarrow> ic = NO_COMMENT \<and> hd cp \<notin> {CHR 0x0A, CHR '' '', CHR 0x0D, CHR 0x09}"
  by (auto simp: scan_step_def split: if_splits Comment_state.splits)

function skip_comment ::
  "Comment_state \<Rightarrow> Line_state \<Rightarrow> cstr \<Rightarrow> cstr + cstr \<times> Comment_state \<times> Line_state" where
  "skip_comment ic ls cp =
     (if cp = [] then Inr (cp, ic, ls)
      else (case scan_step ic ls cp of
              Fail msg \<Rightarrow> Inl msg
            | Return \<Rightarrow> Inr (cp, ic, ls)
            | Move n ic' ls' \<Rightarrow> skip_comment ic' ls' (drop n cp)))"
  by pat_completeness auto
termination
proof (relation "measures [\<lambda>(ic, ls, cp). length cp, \<lambda>(ic, ls, cp). transient ic]", goal_cases)
  case (2 ic ls cp n ic' ls')
  then show ?case using scan_step_progress [of ic ls cp n ic' ls'] by (cases n) auto
qed simp

declare skip_comment.simps [simp del]

definition skipcomment :: "options \<Rightarrow> cstr \<Rightarrow> ustate \<Rightarrow> cstr step" where
  "skipcomment opt cp s =
     (if text_file opt \<or> ignoring s (depth s)
      then (let (cp', ls) = skip_space (linestate s) cp in Inr (cp', s\<lparr>linestate := ls\<rparr>))
      else (case skip_comment (incomment s) (linestate s) cp of
              Inl msg \<Rightarrow> error msg s
            | Inr (cp', ic, ls) \<Rightarrow> Inr (cp', s\<lparr>incomment := ic, linestate := ls\<rparr>)))"

text \<open>
  The result is a suffix of the argument, and outside comments nothing is left to skip: the
  pointer is at the end, or at a character that is no white space.
\<close>

definition suffix_of :: "cstr \<Rightarrow> cstr \<Rightarrow> bool" where
  "suffix_of t s \<longleftrightarrow> (\<exists>p. s = p @ t)"

lemma suffix_of_refl [simp]: "suffix_of s s"
  by (auto simp: suffix_of_def)

lemma suffix_of_Nil [simp]: "suffix_of [] s"
  by (auto simp: suffix_of_def)

lemma suffix_of_trans: "suffix_of a b \<Longrightarrow> suffix_of b c \<Longrightarrow> suffix_of a c"
  by (auto simp: suffix_of_def)

lemma suffix_of_drop: "suffix_of (drop n s) s"
  unfolding suffix_of_def by (metis append_take_drop_id)

lemma suffix_of_tl: "suffix_of (tl s) s"
  using suffix_of_drop [of 1 s] by (simp add: drop_Suc)

lemma suffix_of_length: "suffix_of t s \<Longrightarrow> length t \<le> length s"
  by (auto simp: suffix_of_def)

lemma suffix_of_dropped: "suffix_of t (drop n s) \<Longrightarrow> suffix_of t s"
  by (blast intro: suffix_of_trans suffix_of_drop)

lemma suffix_of_tailed: "suffix_of t (tl s) \<Longrightarrow> suffix_of t s"
  by (blast intro: suffix_of_trans suffix_of_tl)

lemma skip_space_suffix: "skip_space ls s = (t, ls') \<Longrightarrow> suffix_of t s"
proof (induction ls s rule: skip_space.induct)
  case (2 ls c cs)
  then show ?case using suffix_of_tailed [of t "c # cs"] by (auto split: if_splits)
qed simp

text \<open>What every turn of the loop keeps holds of the result.\<close>

lemma skip_comment_invariant:
  assumes step: "\<And>ic ls cp n ic' ls'. P ic ls cp \<Longrightarrow> cp \<noteq> [] \<Longrightarrow> scan_step ic ls cp = Move n ic' ls' \<Longrightarrow>
      P ic' ls' (drop n cp)"
  shows "P ic ls cp \<Longrightarrow> skip_comment ic ls cp = Inr (t, ic', ls') \<Longrightarrow>
    P ic' ls' t \<and> (t \<noteq> [] \<longrightarrow> scan_step ic' ls' t = Return)"
proof (induction ic ls cp rule: skip_comment.induct)
  case (1 ic ls cp)
  from 1(3) [unfolded skip_comment.simps [of ic ls cp]] 1(1,2) step
  show ?case by (auto split: if_splits scan.splits)
qed

lemma skip_comment_suffix:
  assumes "skip_comment ic ls s = Inr (t, ic', ls')"
  shows "suffix_of t s"
  using skip_comment_invariant [where P = "\<lambda>_ _ cp. suffix_of cp s", OF _ _ assms]
  by (blast intro: suffix_of_trans suffix_of_drop suffix_of_refl)

lemma skip_comment_stop:
  assumes "skip_comment ic ls s = Inr (t, ic', ls')"
  shows "t = [] \<or> (ic' = NO_COMMENT \<and> hd t \<notin> {CHR 0x0A, CHR '' '', CHR 0x0D, CHR 0x09})"
  using skip_comment_invariant [where P = "\<lambda>_ _ _. True", OF _ _ assms]
  by (auto dest: scan_step_Return)

lemma skipcomment_suffix: "skipcomment opt cp s = Inr (t, s') \<Longrightarrow> suffix_of t cp"
  by (auto simp: skipcomment_def error_def dest: skip_comment_suffix skip_space_suffix
      split: if_splits prod.splits sum.splits)

lemma skipcomment_length: "skipcomment opt cp s = Inr (t, s') \<Longrightarrow> length t \<le> length cp"
  by (blast dest: skipcomment_suffix suffix_of_length)

text \<open>Only the two states of the scanner change.\<close>

lemma skipcomment_frame:
  "skipcomment opt cp s = Inr (t, s') \<Longrightarrow>
     \<exists>ic ls. s' = s\<lparr>incomment := ic, linestate := ls\<rparr> \<and> (text_file opt \<or> ignoring s (depth s) \<longrightarrow> ic = incomment s)"
  by (auto simp: skipcomment_def error_def split: if_splits prod.splits sum.splits
      intro: exI [where x = "incomment s"])

section \<open>Identifiers\<close>

definition endsym :: "char \<Rightarrow> bool" where
  "endsym c = (\<not> c_isalnum c \<and> c \<noteq> CHR ''_'')"

fun skipsym :: "cstr \<Rightarrow> cstr" where
  "skipsym [] = []"
| "skipsym (c # cs) = (if \<not> endsym c then skipsym cs else c # cs)"

lemma skipsym_dropWhile: "skipsym s = dropWhile (\<lambda>c. \<not> endsym c) s"
  by (induction s) auto

lemma skipsym_suffix: "suffix_of (skipsym s) s"
  unfolding skipsym_dropWhile suffix_of_def by (metis takeWhile_dropWhile_id)

lemma skipsym_length: "length (skipsym s) \<le> length s"
  by (rule suffix_of_length [OF skipsym_suffix])

text \<open>\<open>strlcmp\<close>; the end of a string is its NUL, whose code is 0.\<close>

fun strlcmp :: "cstr \<Rightarrow> cstr \<Rightarrow> nat \<Rightarrow> int" where
  "strlcmp s t 0 = (if s = [] then 0 else int (chr_code (hd s)))"
| "strlcmp s [] (Suc n) = (if s = [] then 0 else int (chr_code (hd s)))"
| "strlcmp s (c # t) (Suc n) =
     (if s = [] then - int (chr_code c)
      else if hd s \<noteq> c then int (chr_code (hd s)) - int (chr_code c)
      else strlcmp (tl s) t n)"

text \<open>On strings without a NUL it decides whether \<open>s\<close> is the first \<open>n\<close> characters of \<open>t\<close>.\<close>

definition no_nul :: "cstr \<Rightarrow> bool" where
  "no_nul s \<longleftrightarrow> CHR 0x00 \<notin> set s"

lemma chr_code_0: "chr_code c = 0 \<longleftrightarrow> c = CHR 0x00"
  unfolding chr_code_def
  using of_char_eq_iff [where c = c and d = "CHR 0x00" and 'a = nat] by simp

lemma chr_code_eq [simp]: "chr_code c = chr_code d \<longleftrightarrow> c = d"
  by (simp add: chr_code_def)

lemma strlcmp_eq_0:
  "no_nul s \<Longrightarrow> no_nul t \<Longrightarrow> strlcmp s t n = 0 \<longleftrightarrow> s = take n t"
proof (induction s t n rule: strlcmp.induct)
  case (3 s c t n)
  then show ?case
    by (cases s) (auto simp: no_nul_def chr_code_0 simp flip: neq0_conv)
qed (auto simp: no_nul_def chr_code_0 neq_Nil_conv)

section \<open>The table of symbols\<close>

text \<open>The loop over the table.\<close>

fun find_index :: "ustate \<Rightarrow> cstr \<Rightarrow> nat \<Rightarrow> nat \<Rightarrow> nat \<Rightarrow> nat option" where
  "find_index s str len i 0 = None"
| "find_index s str len i (Suc k) =
     (if strlcmp (symname s i) str len = 0 then Some i else find_index s str len (Suc i) k)"

text \<open>\<open>None\<close> is -1. With \<open>-s\<close> the symbol is printed and index 0 is returned.\<close>

definition findsym :: "options \<Rightarrow> cstr \<Rightarrow> ustate \<Rightarrow> nat option \<times> ustate" where
  "findsym opt str s =
     (let cp = skipsym str; len = length str - length cp in
      if cp = str then (None, s)
      else if symlist opt
      then (let out1 = (if symdepth opt \<and> firstsym s
                        then [To_stdout ((if zerosyms s then [] else LF) @ pad_left 3 (decimal (depth s)))]
                        else []);
                out2 = [To_stdout ((if symdepth opt then '' '' else []) @ take len str
                                   @ (if symdepth opt then [] else LF))]
            in (Some 0, s\<lparr>written := written s @ out1 @ out2, firstsym := False, zerosyms := False\<rparr>))
      else (find_index s str len 0 (nsyms s), s))"

definition addsym :: "options \<Rightarrow> bool \<Rightarrow> bool \<Rightarrow> cstr \<Rightarrow> ustate \<Rightarrow> stop + ustate" where
  "addsym opt ignorethis definethis str s =
     (let (found, s1) = findsym opt str s;
          len = length str - length (skipsym str);
          val = skipsym str
      in if found = None \<and> nsyms s1 \<ge> MAXSYMS then Inl (Usage ''too many symbols'')
         else
           (let symind = (case found of Some i \<Rightarrow> i | None \<Rightarrow> nsyms s1);
                s2 = (if found = None then s1\<lparr>nsyms := nsyms s1 + 1\<rparr> else s1);
                s3 = s2\<lparr>ignore := (ignore s2)(symind := ignorethis)\<rparr>
            in if definethis
               then (if val \<noteq> [] \<and> hd val = CHR ''=''
                     then Inr (s3\<lparr>symname := (symname s3)(symind := take len str),
                                  symvalue := (symvalue s3)(symind := Some (tl val))\<rparr>)
                     else if val = []
                     then Inr (s3\<lparr>symname := (symname s3)(symind := str),
                                  symvalue := (symvalue s3)(symind := Some ''1'')\<rparr>)
                     else Inl (Usage ''usage''))
               else if val \<noteq> [] then Inl (Usage ''usage'')
               else Inr (s3\<lparr>symname := (symname s3)(symind := str),
                            symvalue := (symvalue s3)(symind := None)\<rparr>)))"

section \<open>skipargs\<close>

text \<open>
  The loop over the balanced arguments; \<open>cp\<close> is at a character. \<open>level\<close> is an integer as in
  the source; the result is the final level and pointer.
\<close>

function skipargs_loop :: "options \<Rightarrow> int \<Rightarrow> cstr \<Rightarrow> ustate \<Rightarrow> (int \<times> cstr) step" where
  "skipargs_loop opt level cp s =
     (if cp = [] then Inr ((level, cp), s)
      else
        (let level1 = (if hd cp = CHR ''('' then level + 1 else level);
             level2 = (if hd cp = CHR '')'' then level1 - 1 else level1)
         in andthen (skipcomment opt (tl cp) s) (\<lambda>(cp', s').
              if level2 \<noteq> 0 \<and> cp' \<noteq> [] then skipargs_loop opt level2 cp' s'
              else Inr ((level2, cp'), s'))))"
  by pat_completeness auto
termination
proof (relation "measure (\<lambda>(opt, level, cp, s). length cp)", goal_cases)
  case (2 opt level cp s l1 l2 r cp' s')
  then show ?case using skipcomment_length by (cases cp) (fastforce simp: le_imp_less_Suc)+
qed simp

declare skipargs_loop.simps [simp del]

definition skipargs :: "options \<Rightarrow> cstr \<Rightarrow> ustate \<Rightarrow> cstr step" where
  "skipargs opt cp s =
     andthen (skipcomment opt cp s) (\<lambda>(cp1, s1).
       if cp1 = [] \<or> hd cp1 \<noteq> CHR ''('' then Inr (cp1, s1)
       else andthen (skipargs_loop opt 0 cp1 s1) (\<lambda>((level, cp2), s2).
              if level = 0 then Inr (cp2, s2) else Inr (cp, s2)))"

lemma skipargs_loop_suffix: "skipargs_loop opt l cp s = Inr ((l', t), s') \<Longrightarrow> suffix_of t cp"
proof (induction opt l cp s arbitrary: t rule: skipargs_loop.induct)
  case (1 opt level cp s)
  let ?l1 = "if hd cp = CHR ''('' then level + 1 else level"
  let ?l2 = "if hd cp = CHR '')'' then ?l1 - 1 else ?l1"
  show ?case
  proof (cases "cp = []")
    case True
    with 1(2) show ?thesis by (simp add: skipargs_loop.simps)
  next
    case False
    with 1(2) obtain a b where k: "skipcomment opt (tl cp) s = Inr (a, b)"
      and r: "(if ?l2 \<noteq> 0 \<and> a \<noteq> [] then skipargs_loop opt ?l2 a b else Inr ((?l2, a), b))
        = Inr ((l', t), s')"
      unfolding skipargs_loop.simps [of opt level cp s] by (auto simp: andthen_Inr_iff Let_def)
    have "suffix_of t a"
      using r 1(1) [OF False refl refl k refl] by (cases "?l2 \<noteq> 0 \<and> a \<noteq> []") auto
    then show ?thesis
      using skipcomment_suffix [OF k] by (blast intro: suffix_of_trans suffix_of_tailed)
  qed
qed

lemma skipargs_suffix: "skipargs opt cp s = Inr (t, s') \<Longrightarrow> suffix_of t cp"
  by (auto simp: skipargs_def andthen_Inr_iff split: if_splits
      dest!: skipcomment_suffix skipargs_loop_suffix intro: suffix_of_trans)

end
