(* ===== verification/Unifdef_Eval.thy ===== *)
theory Unifdef_Eval
  imports Unifdef_Scan
begin

text \<open>
  The evaluator of \<open>#if\<close> expressions in \<open>unifdef.c\<close>: the binary operators with an unknown
  value, the precedence table, \<open>eval_unary\<close>, \<open>eval_table\<close> and \<open>ifeval\<close>. The \<open>int\<close> behind
  \<open>valp\<close> is a 32 bit word read as signed.
\<close>

section \<open>The operators\<close>

text \<open>
  A function takes the value \<open>*p\<close> the result may overwrite and returns it with the type.
\<close>

type_synonym op_fn = "options \<Rightarrow> 32 word \<Rightarrow> Linetype \<Rightarrow> 32 word \<Rightarrow> Linetype \<Rightarrow> 32 word \<Rightarrow> 32 word \<times> Linetype"

definition truth :: "bool \<Rightarrow> Linetype" where
  "truth b = Dir (if b then LT_TRUE else LT_FALSE)"

definition op_strict :: "32 word \<Rightarrow> bool \<Rightarrow> Linetype \<Rightarrow> Linetype \<Rightarrow> 32 word \<times> Linetype" where
  "op_strict p v at bt =
     (if at = Dir LT_IF \<or> bt = Dir LT_IF then (p, Dir LT_IF) else (of_bool v, truth v))"

definition op_lt :: op_fn where
  "op_lt opt p at a bt b = op_strict p (sint a < sint b) at bt"

definition op_gt :: op_fn where
  "op_gt opt p at a bt b = op_strict p (sint a > sint b) at bt"

definition op_le :: op_fn where
  "op_le opt p at a bt b = op_strict p (sint a \<le> sint b) at bt"

definition op_ge :: op_fn where
  "op_ge opt p at a bt b = op_strict p (sint a \<ge> sint b) at bt"

definition op_eq :: op_fn where
  "op_eq opt p at a bt b = op_strict p (a = b) at bt"

definition op_ne :: op_fn where
  "op_ne opt p at a bt b = op_strict p (a \<noteq> b) at bt"

definition op_or :: op_fn where
  "op_or opt p at a bt b =
     (if \<not> strictlogic opt \<and> (at = Dir LT_TRUE \<or> bt = Dir LT_TRUE) then (1, Dir LT_TRUE)
      else op_strict p (a \<noteq> 0 \<or> b \<noteq> 0) at bt)"

definition op_and :: op_fn where
  "op_and opt p at a bt b =
     (if \<not> strictlogic opt \<and> (at = Dir LT_FALSE \<or> bt = Dir LT_FALSE) then (0, Dir LT_FALSE)
      else op_strict p (a \<noteq> 0 \<and> b \<noteq> 0) at bt)"

lemmas op_defs = op_lt_def op_gt_def op_le_def op_ge_def op_eq_def op_ne_def op_or_def op_and_def

text \<open>The precedence table; its last row hands on to \<open>eval_unary\<close>, the others to the next row.\<close>

definition eval_ops :: "(cstr \<times> op_fn) list list" where
  "eval_ops =
     [[(''||'', op_or)],
      [(''&&'', op_and)],
      [(''=='', op_eq), (''!='', op_ne)],
      [(''<='', op_le), (''>='', op_ge), (''<'', op_lt), (''>'', op_gt)]]"

fun find_op :: "(cstr \<times> op_fn) list \<Rightarrow> cstr \<Rightarrow> (cstr \<times> op_fn) option" where
  "find_op [] cp = None"
| "find_op ((str, fn) # ops) cp = (if starts_with cp str then Some (str, fn) else find_op ops cp)"

section \<open>The evaluator\<close>

text \<open>
  A result is the type, the value, and the pointer, with \<open>LT_ERROR\<close> leaving value and pointer
  as they were (the caller of an erring evaluation uses neither). \<open>strtol\<close> is cut to \<open>int\<close>.
\<close>

type_synonym evaluated = "Linetype \<times> 32 word \<times> cstr"

definition c_strtol_int :: "nat \<Rightarrow> cstr \<Rightarrow> 32 word \<times> cstr" where
  "c_strtol_int base s = (let (v, tail, _) = c_strtoll base s in (word_of_int v, tail))"

definition eval_number :: "cstr \<Rightarrow> 32 word \<Rightarrow> ustate \<Rightarrow> evaluated step" where
  "eval_number cp v s =
     (let (n, ep) = c_strtol_int 0 cp in
      if ep = cp then Inr ((LT_ERROR, n, cp), s) else Inr ((truth (n \<noteq> 0), n, skipsym cp), s))"

definition eval_defined :: "options \<Rightarrow> cstr \<Rightarrow> 32 word \<Rightarrow> ustate \<Rightarrow> evaluated step" where
  "eval_defined opt cp v s =
     andthen (skipcomment opt (drop 7 cp) s) (\<lambda>(cp1, s1).
     andthen (if cp1 \<noteq> [] \<and> hd cp1 = CHR ''(''
              then andthen (skipcomment opt (tl cp1) s1) (\<lambda>(c, s'). Inr ((True, c), s'))
              else Inr ((False, cp1), s1)) (\<lambda>((defparen, cp2), s2).
     (let (found, s3) = findsym opt cp2 s2;
          (lt, v') = (case found of
                        None \<Rightarrow> (Dir LT_IF, v)
                      | Some i \<Rightarrow> (let d = symvalue s3 i \<noteq> None in (truth d, of_bool d)))
      in andthen (skipcomment opt (skipsym cp2) s3) (\<lambda>(cp3, s4).
           if defparen
           then (if cp3 \<noteq> [] \<and> hd cp3 = CHR '')'' then Inr ((lt, v', tl cp3), s4\<lparr>constexpr := False\<rparr>)
                 else Inr ((LT_ERROR, v', cp3), s4))
           else Inr ((lt, v', cp3), s4\<lparr>constexpr := False\<rparr>)))))"

definition eval_symbol :: "options \<Rightarrow> cstr \<Rightarrow> 32 word \<Rightarrow> ustate \<Rightarrow> evaluated step" where
  "eval_symbol opt cp v s =
     (let (found, s1) = findsym opt cp s; cp1 = skipsym cp in
      case found of
        None \<Rightarrow>
          andthen (skipargs opt cp1 s1) (\<lambda>(cp2, s2).
            Inr ((Dir LT_IF, v, cp2), s2\<lparr>constexpr := False\<rparr>))
      | Some i \<Rightarrow>
          (case symvalue s1 i of
             None \<Rightarrow> Inr ((Dir LT_FALSE, 0, cp1), s1\<lparr>constexpr := False\<rparr>)
           | Some val \<Rightarrow>
               (let (n, ep) = c_strtol_int 0 val in
                if ep \<noteq> [] \<or> ep = val then Inr ((LT_ERROR, n, cp1), s1)
                else andthen (skipargs opt cp1 s1) (\<lambda>(cp2, s2).
                       Inr ((truth (n \<noteq> 0), n, cp2), s2\<lparr>constexpr := False\<rparr>)))))"

text \<open>
  The three recursive parts, over the recursive calls \<open>rec\<close>: \<open>Unary\<close> is \<open>eval_unary\<close>,
  \<open>Table k\<close> is \<open>eval_table\<close> on the row \<open>k\<close> of the table, \<open>Loop k lt\<close> its loop, with the type
  of what has been evaluated so far. The \<open>int val\<close> of \<open>eval_table\<close> is not initialised in the
  source; \<open>op_ignores_unknown\<close> shows that its value is never used then, and it starts at 0 here.
\<close>

datatype ev_call = Unary | Table nat | Loop nat Linetype

type_synonym ev_fn = "ev_call \<Rightarrow> 32 word \<Rightarrow> cstr \<Rightarrow> ustate \<Rightarrow> evaluated step"

definition ops_inner :: "nat \<Rightarrow> ev_call" where
  "ops_inner k = (if k < 3 then Table (Suc k) else Unary)"

definition unary_not :: "evaluated \<times> ustate \<Rightarrow> evaluated step" where
  "unary_not r =
     (let ((lt, v1, cp1), s1) = r in
      if lt = LT_ERROR then Inr ((LT_ERROR, v1, cp1), s1)
      else if lt = Dir LT_IF then Inr ((lt, v1, cp1), s1)
      else Inr ((truth (v1 = 0), of_bool (v1 = 0), cp1), s1))"

definition unary_close :: "options \<Rightarrow> evaluated \<times> ustate \<Rightarrow> evaluated step" where
  "unary_close opt r =
     (let ((lt, v1, cp1), s1) = r in
      if lt = LT_ERROR then Inr ((LT_ERROR, v1, cp1), s1)
      else andthen (skipcomment opt cp1 s1) (\<lambda>(cp2, s2).
             if cp2 \<noteq> [] \<and> hd cp2 = CHR '')'' then Inr ((lt, v1, tl cp2), s2)
             else Inr ((LT_ERROR, v1, cp2), s2)))"

definition unary_body :: "ev_fn \<Rightarrow> options \<Rightarrow> 32 word \<Rightarrow> cstr \<Rightarrow> ustate \<Rightarrow> evaluated step" where
  "unary_body rec opt v cp0 s0 =
     andthen (skipcomment opt cp0 s0) (\<lambda>(cp, s).
       if cp \<noteq> [] \<and> hd cp = CHR ''!'' then andthen (rec Unary v (tl cp) s) unary_not
       else if cp \<noteq> [] \<and> hd cp = CHR ''(''
       then andthen (rec (Table 0) v (tl cp) s) (unary_close opt)
       else if cp \<noteq> [] \<and> c_isdigit (hd cp) then eval_number cp v s
       else if starts_with cp ''defined'' \<and> (drop 7 cp = [] \<or> endsym (hd (drop 7 cp)))
       then eval_defined opt cp v s
       else if cp \<noteq> [] \<and> \<not> endsym (hd cp) then eval_symbol opt cp v s
       else Inr ((LT_ERROR, v, cp), s))"

definition table_body :: "ev_fn \<Rightarrow> nat \<Rightarrow> 32 word \<Rightarrow> cstr \<Rightarrow> ustate \<Rightarrow> evaluated step" where
  "table_body rec k v cp s =
     andthen (rec (ops_inner k) v cp s) (\<lambda>((lt, v1, cp1), s1).
       if lt = LT_ERROR then Inr ((LT_ERROR, v1, cp1), s1) else rec (Loop k lt) v1 cp1 s1)"

definition loop_body ::
  "ev_fn \<Rightarrow> options \<Rightarrow> nat \<Rightarrow> Linetype \<Rightarrow> 32 word \<Rightarrow> cstr \<Rightarrow> ustate \<Rightarrow> evaluated step" where
  "loop_body rec opt k lt v cp0 s0 =
     andthen (skipcomment opt cp0 s0) (\<lambda>(cp, s).
       case find_op (eval_ops ! k) cp of
         None \<Rightarrow> Inr ((lt, v, cp), s)
       | Some (str, fn) \<Rightarrow>
           andthen (rec (ops_inner k) 0 (drop (length str) cp) s) (\<lambda>((rt, val, cp1), s1).
             if rt = LT_ERROR then Inr ((LT_ERROR, v, cp1), s1)
             else (let (v', lt') = fn opt v lt v rt val in rec (Loop k lt') v' cp1 s1)))"

primrec eval :: "nat \<Rightarrow> options \<Rightarrow> ev_fn" where
  "eval 0 opt = (\<lambda>call v cp s. Inl Out_of_fuel)"
| "eval (Suc n) opt = (\<lambda>call.
     case call of
       Unary \<Rightarrow> unary_body (eval n opt) opt
     | Table k \<Rightarrow> table_body (eval n opt) k
     | Loop k lt \<Rightarrow> loop_body (eval n opt) opt k lt)"

text \<open>Enough fuel: a character is consumed in every sixth call.\<close>

definition eval_fuel :: "cstr \<Rightarrow> nat" where
  "eval_fuel cp = 6 * length cp + 6"

definition ifeval :: "options \<Rightarrow> cstr \<Rightarrow> ustate \<Rightarrow> (Linetype \<times> cstr) step" where
  "ifeval opt cp s =
     andthen (eval (eval_fuel cp) opt (Table 0) 0 cp (s\<lparr>constexpr := \<not> killconsts opt\<rparr>))
       (\<lambda>((ret, v, cp1), s1).
          Inr ((if constexpr s1 then Dir LT_IF else if ret = LT_ERROR then Dir LT_IF else ret,
                if ret = LT_ERROR then cp else cp1), s1))"

section \<open>Lemmas\<close>

lemma eval_ops_rows:
  "eval_ops ! 0 = [(''||'', op_or)]"
  "eval_ops ! Suc 0 = [(''&&'', op_and)]"
  "eval_ops ! 2 = [(''=='', op_eq), (''!='', op_ne)]"
  "eval_ops ! 3 = [(''<='', op_le), (''>='', op_ge), (''<'', op_lt), (''>'', op_gt)]"
  by (simp_all add: eval_ops_def)

definition table_ops :: "op_fn set" where
  "table_ops = {op_or, op_and, op_eq, op_ne, op_le, op_ge, op_lt, op_gt}"

lemma find_op_in:
  "find_op (eval_ops ! k) cp = Some (str, fn) \<Longrightarrow> k < 4 \<Longrightarrow> fn \<in> table_ops \<and> 0 < length str \<and> starts_with cp str"
  by (auto simp: eval_ops_def less_Suc_eq numeral_eq_Suc table_ops_def split: if_splits)

text \<open>The types an evaluation produces, and the value of a decided one.\<close>

definition decided :: "Linetype \<Rightarrow> bool" where
  "decided lt \<longleftrightarrow> lt = Dir LT_TRUE \<or> lt = Dir LT_FALSE"

definition ev_ok :: "Linetype \<Rightarrow> 32 word \<Rightarrow> bool" where
  "ev_ok lt v \<longleftrightarrow> lt = LT_ERROR \<or> lt = Dir LT_IF \<or> lt = truth (v \<noteq> 0)"

lemma truth_simps [simp]:
  "truth b \<noteq> LT_ERROR" "truth b \<noteq> Dir LT_IF" "truth b = Dir LT_TRUE \<longleftrightarrow> b"
  "truth b = Dir LT_FALSE \<longleftrightarrow> \<not> b" "truth a = truth b \<longleftrightarrow> a = b" "decided (truth b)"
  by (auto simp: truth_def decided_def)

lemma ev_ok_simps [simp]:
  "ev_ok LT_ERROR v" "ev_ok (Dir LT_IF) v" "ev_ok (truth b) v \<longleftrightarrow> b = (v \<noteq> 0)"
  by (auto simp: ev_ok_def)

lemma op_ok:
  "fn \<in> table_ops \<Longrightarrow> fn opt p at a bt b = (v, lt) \<Longrightarrow> lt \<noteq> LT_ERROR \<and> ev_ok lt v"
  by (auto simp: table_ops_def op_defs op_strict_def ev_ok_def truth_def split: if_splits)

text \<open>An operator with an unknown operand never uses that operand's value.\<close>

lemma op_ignores_unknown:
  "fn \<in> table_ops \<Longrightarrow> fn opt p at a (Dir LT_IF) b = fn opt p at a (Dir LT_IF) b'"
  "fn \<in> table_ops \<Longrightarrow> snd (fn opt p (Dir LT_IF) a bt b) = snd (fn opt p' (Dir LT_IF) a' bt b)"
  by (auto simp: table_ops_def op_defs op_strict_def)

text \<open>
  An operator is monotone in what is known: with more known operands a decided result stays.
\<close>

definition refines :: "32 word \<times> Linetype \<Rightarrow> 32 word \<times> Linetype \<Rightarrow> bool" where
  "refines x y \<longleftrightarrow> snd x = Dir LT_IF \<or> x = y"

lemma refines_strict:
  assumes "refines (a, at) (a', at')" "refines (b, bt) (b', bt')"
    "at = at' \<Longrightarrow> a = a' \<Longrightarrow> bt = bt' \<Longrightarrow> b = b' \<Longrightarrow> v = v'"
  shows "refines (op_strict a v at bt) (op_strict a' v' at' bt')"
proof (cases "at = Dir LT_IF \<or> bt = Dir LT_IF")
  case True
  then show ?thesis by (auto simp: refines_def op_strict_def)
next
  case False
  with assms show ?thesis by (auto simp: refines_def op_strict_def)
qed

lemma refines_short_cut:
  assumes "refines (a, at) (a', at')" "refines (b, bt) (b', bt')" "lt \<noteq> Dir LT_IF"
    "refines (op_strict a v at bt) (op_strict a' v' at' bt')"
    "at' = lt \<or> bt' = lt \<Longrightarrow> ev_ok at' a' \<and> ev_ok bt' b'
       \<Longrightarrow> at \<noteq> lt \<Longrightarrow> bt \<noteq> lt \<Longrightarrow> refines (op_strict a v at bt) (w, lt)"
    "ev_ok at' a'" "ev_ok bt' b'"
  shows "refines (if at = lt \<or> bt = lt then (w, lt) else op_strict a v at bt)
                 (if at' = lt \<or> bt' = lt then (w, lt) else op_strict a' v' at' bt')"
proof (cases "at = lt \<or> bt = lt")
  case True
  with assms(1-3) have "at' = lt \<or> bt' = lt" by (auto simp: refines_def)
  with True show ?thesis by (simp add: refines_def)
next
  case False
  with assms(4-7) show ?thesis by auto
qed

lemma op_refines:
  assumes "fn \<in> table_ops" and r: "refines (a, at) (a', at')" "refines (b, bt) (b', bt')"
    and ok: "ev_ok at' a'" "ev_ok bt' b'"
  shows "refines (fn opt a at a bt b) (fn opt a' at' a' bt' b')"
proof -
  note strict = refines_strict [OF r]
  have or: "refines (op_or opt a at a bt b) (op_or opt a' at' a' bt' b')"
  proof (cases "strictlogic opt")
    case False
    have "refines (op_strict a (a \<noteq> 0 \<or> b \<noteq> 0) at bt) (1, Dir LT_TRUE)"
      if "at' = Dir LT_TRUE \<or> bt' = Dir LT_TRUE" "at \<noteq> Dir LT_TRUE" "bt \<noteq> Dir LT_TRUE"
      using that r by (auto simp: refines_def op_strict_def)
    then show ?thesis
      unfolding op_or_def using False refines_short_cut [OF r _ strict, of "Dir LT_TRUE"] ok by simp
  qed (auto simp: op_or_def intro: strict)
  have "and": "refines (op_and opt a at a bt b) (op_and opt a' at' a' bt' b')"
  proof (cases "strictlogic opt")
    case False
    have "refines (op_strict a (a \<noteq> 0 \<and> b \<noteq> 0) at bt) (0, Dir LT_FALSE)"
      if "at' = Dir LT_FALSE \<or> bt' = Dir LT_FALSE" "at \<noteq> Dir LT_FALSE" "bt \<noteq> Dir LT_FALSE"
      using that r by (auto simp: refines_def op_strict_def)
    then show ?thesis
      unfolding op_and_def using False refines_short_cut [OF r _ strict, of "Dir LT_FALSE"] ok by simp
  qed (auto simp: op_and_def intro: strict)
  from assms(1) show ?thesis
    unfolding table_ops_def op_lt_def op_gt_def op_le_def op_ge_def op_eq_def op_ne_def
    using or "and" by (auto intro!: strict)
qed

lemmas step_iff = andthen_Inr_iff andthen_Inl_iff

text \<open>What an evaluation may change of the state.\<close>

definition same_env :: "ustate \<Rightarrow> ustate \<Rightarrow> bool" where
  "same_env s s' \<longleftrightarrow>
     s' = s\<lparr>incomment := incomment s', linestate := linestate s', constexpr := constexpr s',
            written := written s', firstsym := firstsym s', zerosyms := zerosyms s'\<rparr>"

lemma same_env_refl [simp]: "same_env s s"
  by (simp add: same_env_def)

lemma same_env_trans: "same_env a b \<Longrightarrow> same_env b c \<Longrightarrow> same_env a c"
  by (cases a; cases b; cases c) (simp add: same_env_def)

lemma same_env_constexpr [simp]: "same_env a (b\<lparr>constexpr := x\<rparr>) = same_env a b"
  by (cases a; cases b) (simp add: same_env_def)

lemma same_env_skipcomment: "skipcomment opt cp s = Inr (t, s') \<Longrightarrow> same_env s s'"
  by (drule skipcomment_frame) (auto simp: same_env_def)

lemma same_env_findsym: "findsym opt cp s = (i, s') \<Longrightarrow> same_env s s'"
  by (auto simp: findsym_def same_env_def Let_def split: if_splits)

lemma same_env_fields:
  "same_env s s' \<Longrightarrow> symname s' = symname s \<and> symvalue s' = symvalue s \<and> nsyms s' = nsyms s
     \<and> ignore s' = ignore s \<and> depth s' = depth s \<and> ignoring s' = ignoring s \<and> tline s' = tline s
     \<and> input s' = input s \<and> linenum s' = linenum s \<and> keyword s' = keyword s \<and> newline s' = newline s
     \<and> ifstate s' = ifstate s \<and> stifline s' = stifline s \<and> delcount s' = delcount s
     \<and> blankcount s' = blankcount s \<and> blankmax s' = blankmax s \<and> exitstat s' = exitstat s"
  by (cases s; cases s') (simp add: same_env_def)

lemma same_env_skipargs_loop: "skipargs_loop opt l cp s = Inr (x, s') \<Longrightarrow> same_env s s'"
proof (induction opt l cp s arbitrary: x rule: skipargs_loop.induct)
  case (1 opt level cp s)
  let ?l1 = "if hd cp = CHR ''('' then level + 1 else level"
  let ?l2 = "if hd cp = CHR '')'' then ?l1 - 1 else ?l1"
  show ?case
  proof (cases "cp = []")
    case True
    with 1(2) show ?thesis by (simp add: skipargs_loop.simps)
  next
    case False
    with 1(2) obtain a b where k: "skipcomment opt (tl cp) s = Inr (a, b)"
      and r: "(if ?l2 \<noteq> 0 \<and> a \<noteq> [] then skipargs_loop opt ?l2 a b else Inr ((?l2, a), b)) = Inr (x, s')"
      unfolding skipargs_loop.simps [of opt level cp s] by (auto simp: andthen_Inr_iff Let_def)
    have "same_env b s'"
      using r 1(1) [OF False refl refl k refl] by (cases "?l2 \<noteq> 0 \<and> a \<noteq> []") auto
    then show ?thesis
      using same_env_skipcomment [OF k] by (blast intro: same_env_trans)
  qed
qed

lemma same_env_skipargs: "skipargs opt cp s = Inr (t, s') \<Longrightarrow> same_env s s'"
  by (auto simp: skipargs_def andthen_Inr_iff split: if_splits
      dest!: same_env_skipcomment same_env_skipargs_loop intro: same_env_trans)

text \<open>The postcondition of every evaluation.\<close>

definition good :: "cstr \<Rightarrow> ustate \<Rightarrow> evaluated step \<Rightarrow> bool" where
  "good cp s r \<longleftrightarrow>
     (\<forall>lt v cp' s'. r = Inr ((lt, v, cp'), s') \<longrightarrow> suffix_of cp' cp \<and> ev_ok lt v \<and> same_env s s')"

lemma good_Inr [simp]:
  "good cp s (Inr ((lt, v, cp'), s')) \<longleftrightarrow> suffix_of cp' cp \<and> ev_ok lt v \<and> same_env s s'"
  "good cp s (Inl e)"
  by (auto simp: good_def)

lemma good_from:
  "good cp1 s1 r \<Longrightarrow> suffix_of cp1 cp \<Longrightarrow> same_env s s1 \<Longrightarrow> good cp s r"
  unfolding good_def by (blast intro: suffix_of_trans same_env_trans)

lemma good_skipcomment:
  assumes "\<And>cp' s'. suffix_of cp' cp \<Longrightarrow> same_env s s' \<Longrightarrow> good cp' s' (f (cp', s'))"
  shows "good cp s (andthen (skipcomment opt cp s) f)"
proof (cases "skipcomment opt cp s")
  case (Inr p)
  then obtain c t where p: "skipcomment opt cp s = Inr (c, t)" by (cases p) auto
  with assms [OF skipcomment_suffix same_env_skipcomment, OF p p] show ?thesis
    using skipcomment_suffix [OF p] same_env_skipcomment [OF p] by (auto intro: good_from)
qed simp

lemma good_andthen:
  assumes "good cp s r"
    "\<And>lt v cp' s'. suffix_of cp' cp \<Longrightarrow> ev_ok lt v \<Longrightarrow> same_env s s' \<Longrightarrow> good cp' s' (f ((lt, v, cp'), s'))"
  shows "good cp s (andthen r f)"
proof (cases r)
  case (Inr p)
  then obtain lt v c t where p: "r = Inr ((lt, v, c), t)" by (cases p) auto
  from assms(1) have "suffix_of c cp" "ev_ok lt v" "same_env s t" by (simp_all add: p)
  have "good c t (f ((lt, v, c), t))" by (rule assms(2)) fact+
  then have "good cp s (f ((lt, v, c), t))" by (rule good_from) fact+
  then show ?thesis by (simp add: p)
qed simp

lemma good_tail: "good (tl cp) s r \<Longrightarrow> good cp s r" "good (drop n cp) s r \<Longrightarrow> good cp s r"
  by (auto intro: good_from suffix_of_tl suffix_of_drop)

lemma good_number: "good cp s (eval_number cp v s)"
  by (auto simp: eval_number_def Let_def split_beta skipsym_suffix)

lemma good_defined: "good cp s (eval_defined opt cp v s)"
  unfolding eval_defined_def
proof (rule good_tail(2) [of 7], rule good_skipcomment, clarify)
  fix cp1 s1
  let ?rest = "\<lambda>dp cp2 s2. (let (found, s3) = findsym opt cp2 s2;
          (lt, v') = (case found of
                        None \<Rightarrow> (Dir LT_IF, v)
                      | Some i \<Rightarrow> (let d = symvalue s3 i \<noteq> None in (truth d, of_bool d)))
      in andthen (skipcomment opt (skipsym cp2) s3) (\<lambda>(cp3, s4).
           if dp
           then (if cp3 \<noteq> [] \<and> hd cp3 = CHR '')'' then Inr ((lt, v', tl cp3), s4\<lparr>constexpr := False\<rparr>)
                 else Inr ((LT_ERROR, v', cp3), s4))
           else Inr ((lt, v', cp3), s4\<lparr>constexpr := False\<rparr>)))"
  have rest: "good cp2 s2 (?rest dp cp2 s2)" for dp cp2 s2
  proof -
    obtain found s3 where f: "findsym opt cp2 s2 = (found, s3)" by fastforce
    have "good cp2 s2 (andthen (skipcomment opt (skipsym cp2) s3) g)"
      if "\<And>c t. good c t (g (c, t))" for g
      by (rule good_from [OF good_skipcomment skipsym_suffix same_env_findsym [OF f]]) (rule that)
    then show ?thesis by (auto simp: f Let_def suffix_of_tl split: option.split)
  qed
  show "good cp1 s1 (andthen (if cp1 \<noteq> [] \<and> hd cp1 = CHR ''(''
              then andthen (skipcomment opt (tl cp1) s1) (\<lambda>(c, s'). Inr ((True, c), s'))
              else Inr ((False, cp1), s1)) (\<lambda>((dp, cp2), s2). ?rest dp cp2 s2))"
  proof (cases "cp1 \<noteq> [] \<and> hd cp1 = CHR ''(''")
    case True
    show ?thesis
    proof (cases "skipcomment opt (tl cp1) s1")
      case (Inr p)
      then obtain c t where p: "skipcomment opt (tl cp1) s1 = Inr (c, t)" by (cases p) auto
      have "good (tl cp1) s1 (?rest True c t)"
        using good_from [OF rest skipcomment_suffix [OF p] same_env_skipcomment [OF p]] .
      with True p show ?thesis by (simp add: good_tail(1))
    qed (use True in simp)
  next
    case False
    have "andthen (if cp1 \<noteq> [] \<and> hd cp1 = CHR ''(''
              then andthen (skipcomment opt (tl cp1) s1) (\<lambda>(c, s'). Inr ((True, c), s'))
              else Inr ((False, cp1), s1)) (\<lambda>((dp, cp2), s2). ?rest dp cp2 s2) = ?rest False cp1 s1"
      using False by (simp only: if_False andthen_simps prod.case)
    then show ?thesis using rest by (simp only:)
  qed
qed

lemma good_symbol: "good cp s (eval_symbol opt cp v s)"
proof -
  obtain found s1 where f: "findsym opt cp s = (found, s1)" by fastforce
  have "good cp s (andthen (skipargs opt (skipsym cp) s1) g)"
    if "\<And>c t. good c t (g (c, t))" for g
  proof (cases "skipargs opt (skipsym cp) s1")
    case (Inr p)
    then obtain c t where p: "skipargs opt (skipsym cp) s1 = Inr (c, t)" by (cases p) auto
    have "suffix_of c cp" using skipargs_suffix [OF p] skipsym_suffix suffix_of_trans by blast
    moreover have "same_env s t"
      using same_env_skipargs [OF p] same_env_findsym [OF f] same_env_trans by blast
    ultimately show ?thesis using that [of c t] p by (auto intro: good_from)
  qed simp
  then show ?thesis
    using same_env_findsym [OF f]
    by (auto simp: eval_symbol_def f Let_def split_beta skipsym_suffix truth_def ev_ok_def
        split: option.split)
qed

definition rec_good :: "ev_fn \<Rightarrow> bool" where
  "rec_good rec \<longleftrightarrow>
     (\<forall>call v cp s. (\<forall>k lt. call = Loop k lt \<longrightarrow> k < 4 \<and> ev_ok lt v) \<and> (\<forall>k. call = Table k \<longrightarrow> k < 4)
        \<longrightarrow> good cp s (rec call v cp s))"

lemma rec_goodD:
  "rec_good rec \<Longrightarrow> good cp s (rec Unary v cp s)"
  "rec_good rec \<Longrightarrow> k < 4 \<Longrightarrow> good cp s (rec (Table k) v cp s)"
  "rec_good rec \<Longrightarrow> k < 4 \<Longrightarrow> ev_ok lt v \<Longrightarrow> good cp s (rec (Loop k lt) v cp s)"
  "rec_good rec \<Longrightarrow> k < 4 \<Longrightarrow> good cp s (rec (ops_inner k) v cp s)"
  by (auto simp: rec_good_def ops_inner_def)

lemma unary_body_good: "rec_good rec \<Longrightarrow> good cp s (unary_body rec opt v cp s)"
  unfolding unary_body_def
proof (rule good_skipcomment, clarify)
  fix cp' s'
  assume r: "rec_good rec"
  have "good cp' s' (andthen (rec Unary v (tl cp') s') unary_not)"
    by (rule good_tail(1), rule good_andthen [OF rec_goodD(1) [OF r]]) (auto simp: unary_not_def truth_def ev_ok_def)
  moreover have "good cp' s' (andthen (rec (Table 0) v (tl cp') s') (unary_close opt))"
    by (rule good_tail(1), rule good_andthen [OF rec_goodD(2) [OF r]])
      (auto simp: unary_close_def suffix_of_tl intro!: good_skipcomment)
  ultimately show "good cp' s' (if cp' \<noteq> [] \<and> hd cp' = CHR ''!'' then andthen (rec Unary v (tl cp') s') unary_not
       else if cp' \<noteq> [] \<and> hd cp' = CHR ''(''
       then andthen (rec (Table 0) v (tl cp') s') (unary_close opt)
       else if cp' \<noteq> [] \<and> c_isdigit (hd cp') then eval_number cp' v s'
       else if starts_with cp' ''defined'' \<and> (drop 7 cp' = [] \<or> endsym (hd (drop 7 cp')))
       then eval_defined opt cp' v s'
       else if cp' \<noteq> [] \<and> \<not> endsym (hd cp') then eval_symbol opt cp' v s'
       else Inr ((LT_ERROR, v, cp'), s'))"
    by (simp add: good_number good_defined good_symbol)
qed

lemma table_body_good:
  assumes "rec_good rec" "k < 4"
  shows "good cp s (table_body rec k v cp s)"
  unfolding table_body_def
proof (rule good_andthen [OF rec_goodD(4) [OF assms]], clarify)
  fix lt v' cp' s'
  assume "ev_ok lt v'"
  note g = rec_goodD(3) [OF assms this, of cp' s']
  show "good cp' s' (if lt = LT_ERROR then Inr ((LT_ERROR, v', cp'), s') else rec (Loop k lt) v' cp' s')"
    using g by simp
qed

lemma loop_body_good:
  assumes "rec_good rec" "k < 4" "ev_ok lt v"
  shows "good cp s (loop_body rec opt k lt v cp s)"
  unfolding loop_body_def
proof (rule good_skipcomment, clarify)
  fix cp' s'
  have "good cp' s' (andthen (rec (ops_inner k) 0 (drop (length str) cp') s') (\<lambda>((rt, val, cp1), s1).
             if rt = LT_ERROR then Inr ((LT_ERROR, v, cp1), s1)
             else (let (v', lt') = fn opt v lt v rt val in rec (Loop k lt') v' cp1 s1)))"
    if "find_op (eval_ops ! k) cp' = Some (str, fn)" for str fn
  proof (rule good_tail(2) [of "length str"], rule good_andthen [OF rec_goodD(4) [OF assms(1,2)]], clarify)
    fix rt val cp1 s1
    obtain v' lt' where f: "fn opt v lt v rt val = (v', lt')" by fastforce
    with op_ok find_op_in [OF that assms(2)] have "ev_ok lt' v'" by blast
    note g = rec_goodD(3) [OF assms(1,2) this, of cp1 s1]
    show "good cp1 s1 (if rt = LT_ERROR then Inr ((LT_ERROR, v, cp1), s1)
             else (let (v', lt') = fn opt v lt v rt val in rec (Loop k lt') v' cp1 s1))"
      using g by (simp add: f)
  qed
  then show "good cp' s' (case find_op (eval_ops ! k) cp' of
         None \<Rightarrow> Inr ((lt, v, cp'), s')
       | Some (str, fn) \<Rightarrow>
           andthen (rec (ops_inner k) 0 (drop (length str) cp') s') (\<lambda>((rt, val, cp1), s1).
             if rt = LT_ERROR then Inr ((LT_ERROR, v, cp1), s1)
             else (let (v', lt') = fn opt v lt v rt val in rec (Loop k lt') v' cp1 s1)))"
    using assms(3) by (auto split: option.split)
qed

lemma eval_good: "rec_good (eval n opt)"
proof (induction n)
  case (Suc n)
  show ?case
    unfolding rec_good_def
  proof (intro allI impI, elim conjE)
    fix call v cp s
    assume "\<forall>k lt. call = Loop k lt \<longrightarrow> k < 4 \<and> ev_ok lt v" "\<forall>k. call = Table k \<longrightarrow> k < 4"
    with Suc show "good cp s (eval (Suc n) opt call v cp s)"
      by (cases call) (auto simp: unary_body_good table_body_good loop_body_good)
  qed
qed (simp add: rec_good_def)

section \<open>Enough fuel\<close>

abbreviation fuel_out :: "'a step \<Rightarrow> bool" where
  "fuel_out r \<equiv> r = Inl Out_of_fuel"

lemma skipcomment_fuel [simp]: "\<not> fuel_out (skipcomment opt cp s)"
  by (auto simp: skipcomment_def error_def split: prod.splits sum.splits)

lemma skipargs_loop_fuel [simp]: "\<not> fuel_out (skipargs_loop opt l cp s)"
proof (induction opt l cp s rule: skipargs_loop.induct)
  case (1 opt level cp s)
  show ?case
  proof
    assume "fuel_out (skipargs_loop opt level cp s)"
    then show False
      unfolding skipargs_loop.simps [of opt level cp s] using 1
      by (auto simp: andthen_Inl_iff Let_def split: if_splits)
  qed
qed

lemma skipargs_fuel [simp]: "\<not> fuel_out (skipargs opt cp s)"
  by (auto simp: skipargs_def andthen_Inl_iff split: if_splits)

lemma leaves_fuel [simp]:
  "\<not> fuel_out (eval_number cp v s)" "\<not> fuel_out (eval_defined opt cp v s)"
  "\<not> fuel_out (eval_symbol opt cp v s)" "\<not> fuel_out (unary_not r)" "\<not> fuel_out (unary_close opt r)"
      apply (auto simp: eval_number_def Let_def split_beta)[1]
     apply (auto simp: eval_defined_def andthen_Inl_iff Let_def split: prod.splits if_splits)[1]
    apply (auto simp: eval_symbol_def andthen_Inl_iff Let_def split: prod.splits if_splits option.splits)[1]
   apply (auto simp: unary_not_def Let_def split: prod.splits)[1]
  apply (auto simp: unary_close_def andthen_Inl_iff Let_def split: prod.splits if_splits)[1]
  done

fun ev_cost :: "ev_call \<Rightarrow> nat" where
  "ev_cost Unary = 1"
| "ev_cost (Table k) = 5 - k"
| "ev_cost (Loop k lt) = 1"

fun in_table :: "ev_call \<Rightarrow> bool" where
  "in_table Unary = True"
| "in_table (Table k) = (k < 4)"
| "in_table (Loop k lt) = (k < 4)"

definition rec_enough :: "nat \<Rightarrow> ev_fn \<Rightarrow> bool" where
  "rec_enough n rec \<longleftrightarrow>
     (\<forall>call v cp s. in_table call \<and> 6 * length cp + ev_cost call \<le> n \<longrightarrow> \<not> fuel_out (rec call v cp s))"

lemma ops_inner_cost: "k < 4 \<Longrightarrow> in_table (ops_inner k) \<and> ev_cost (ops_inner k) \<le> 4"
  by (auto simp: ops_inner_def)

lemma unary_body_enough:
  assumes "rec_enough n rec" "6 * length cp \<le> n"
  shows "\<not> fuel_out (unary_body rec opt v cp s)"
proof
  assume "fuel_out (unary_body rec opt v cp s)"
  then obtain c t where k: "skipcomment opt cp s = Inr (c, t)" and c: "c \<noteq> []"
    and "fuel_out (rec Unary v (tl c) t) \<or> fuel_out (rec (Table 0) v (tl c) t)"
    by (auto simp: unary_body_def andthen_Inl_iff split: if_splits)
  moreover have "6 * length (tl c) + 6 \<le> n"
    using skipcomment_length [OF k] c assms(2) by (cases c) auto
  ultimately show False using assms(1) by (auto simp: rec_enough_def)
qed

lemma table_body_enough:
  assumes "rec_enough n rec" "k < 4" "6 * length cp + (4 - k) \<le> n" "rec_good rec"
  shows "\<not> fuel_out (table_body rec k v cp s)"
proof
  assume f: "fuel_out (table_body rec k v cp s)"
  have "\<not> fuel_out (rec (ops_inner k) v cp s)"
    using assms(1-3) by (auto simp: rec_enough_def ops_inner_def)
  with f obtain lt v1 cp1 s1 where r: "rec (ops_inner k) v cp s = Inr ((lt, v1, cp1), s1)"
    and l: "fuel_out (rec (Loop k lt) v1 cp1 s1)"
    by (auto simp: table_body_def andthen_Inl_iff split: if_splits)
  have "suffix_of cp1 cp" using rec_goodD(4) [OF assms(4,2), of cp s v] r by simp
  then have "6 * length cp1 + 1 \<le> n" using assms(2,3) suffix_of_length [of cp1 cp] by linarith
  with l assms(1,2) show False by (auto simp: rec_enough_def)
qed

lemma loop_body_enough:
  assumes "rec_enough n rec" "k < 4" "6 * length cp \<le> n" "rec_good rec"
  shows "\<not> fuel_out (loop_body rec opt k lt v cp s)"
proof
  assume "fuel_out (loop_body rec opt k lt v cp s)"
  then obtain c t where k: "skipcomment opt cp s = Inr (c, t)"
    and f: "fuel_out (case find_op (eval_ops ! k) c of
         None \<Rightarrow> Inr ((lt, v, c), t)
       | Some (str, fn) \<Rightarrow>
           andthen (rec (ops_inner k) 0 (drop (length str) c) t) (\<lambda>((rt, val, cp1), s1).
             if rt = LT_ERROR then Inr ((LT_ERROR, v, cp1), s1)
             else (let (v', lt') = fn opt v lt v rt val in rec (Loop k lt') v' cp1 s1)))"
    unfolding loop_body_def by (auto simp: andthen_Inl_iff)
  from f obtain str fn where o: "find_op (eval_ops ! k) c = Some (str, fn)"
    by (cases "find_op (eval_ops ! k) c") auto
  with f have r: "fuel_out (rec (ops_inner k) 0 (drop (length str) c) t)
      \<or> (\<exists>rt val cp1 s1 v' lt'. rec (ops_inner k) 0 (drop (length str) c) t = Inr ((rt, val, cp1), s1)
           \<and> fuel_out (rec (Loop k lt') v' cp1 s1))"
    by (simp add: andthen_Inl_iff Let_def split_beta split: if_splits) (metis prod.collapse)
  have d: "6 * length (drop (length str) c) + 6 \<le> n"
    using skipcomment_length [OF k] find_op_in [OF o assms(2)] assms(3) starts_with_length [of c str]
    unfolding length_drop by linarith
  from r show False
  proof
    assume "fuel_out (rec (ops_inner k) 0 (drop (length str) c) t)"
    with d assms(1,2) show False by (auto simp: rec_enough_def ops_inner_def split: if_splits)
  next
    assume "\<exists>rt val cp1 s1 v' lt'. rec (ops_inner k) 0 (drop (length str) c) t = Inr ((rt, val, cp1), s1)
           \<and> fuel_out (rec (Loop k lt') v' cp1 s1)"
    then obtain rt val cp1 s1 v' lt' where
      r: "rec (ops_inner k) 0 (drop (length str) c) t = Inr ((rt, val, cp1), s1)"
      and l: "fuel_out (rec (Loop k lt') v' cp1 s1)" by blast
    have "suffix_of cp1 (drop (length str) c)"
      using rec_goodD(4) [OF assms(4,2), of "drop (length str) c" t 0] r by simp
    then have "6 * length cp1 + 1 \<le> n" using d suffix_of_length [of cp1] by fastforce
    with l assms(1,2) show False by (auto simp: rec_enough_def)
  qed
qed

lemma eval_enough: "rec_enough n (eval n opt)"
proof (induction n)
  case 0
  have "0 < ev_cost c" if "in_table c" for c using that by (cases c) auto
  then show ?case by (fastforce simp: rec_enough_def)
next
  case (Suc n)
  show ?case
    unfolding rec_enough_def
  proof (intro allI impI, elim conjE)
    fix call v s and cp :: cstr
    assume "in_table call" "6 * length cp + ev_cost call \<le> Suc n"
    then show "\<not> fuel_out (eval (Suc n) opt call v cp s)"
      using unary_body_enough [OF Suc] table_body_enough [OF Suc _ _ eval_good]
        loop_body_enough [OF Suc _ _ eval_good]
      by (cases call) auto
  qed
qed

lemma ifeval_fuel [simp]: "\<not> fuel_out (ifeval opt cp s)"
  using eval_enough [of "eval_fuel cp" opt]
  by (auto simp: ifeval_def andthen_Inl_iff rec_enough_def eval_fuel_def)

lemma ifeval_type: "ifeval opt cp s = Inr ((lt, cp'), s') \<Longrightarrow> lt = Dir LT_IF \<or> decided lt"
  using rec_goodD(2) [OF eval_good, of 0]
  by (fastforce simp: ifeval_def andthen_Inr_iff good_def ev_ok_def split: if_splits)

lemma ifeval_frame:
  "ifeval opt cp s = Inr ((lt, cp'), s') \<Longrightarrow> same_env s s' \<and> suffix_of cp' cp"
proof -
  assume "ifeval opt cp s = Inr ((lt, cp'), s')"
  then obtain ret v cp1 where
    e: "eval (eval_fuel cp) opt (Table 0) 0 cp (s\<lparr>constexpr := \<not> killconsts opt\<rparr>) = Inr ((ret, v, cp1), s')"
    and "cp' = (if ret = LT_ERROR then cp else cp1)"
    by (auto simp: ifeval_def andthen_Inr_iff)
  moreover have "same_env (s\<lparr>constexpr := \<not> killconsts opt\<rparr>) s' \<and> suffix_of cp1 cp"
    using rec_goodD(2) [OF eval_good, of 0 cp "s\<lparr>constexpr := \<not> killconsts opt\<rparr>" "eval_fuel cp" opt 0] e
    by simp
  moreover have "same_env s (s\<lparr>constexpr := \<not> killconsts opt\<rparr>)" by (simp add: same_env_def)
  ultimately show ?thesis
    using same_env_trans [of s "s\<lparr>constexpr := \<not> killconsts opt\<rparr>" s'] by auto
qed

section \<open>More knowledge refines the result\<close>

text \<open>
  \<open>w\<close> is the state \<open>s\<close> with a larger symbol table: symbols known in \<open>s\<close> have the same value in
  \<open>w\<close>, and symbols that only \<open>w\<close> knows are defined to a number.
\<close>

definition number_value :: "cstr \<Rightarrow> bool" where
  "number_value val = (let (n, ep) = c_strtol_int 0 val in ep = [] \<and> ep \<noteq> val)"

definition table_extends :: "ustate \<Rightarrow> ustate \<Rightarrow> bool" where
  "table_extends s w \<longleftrightarrow>
     (\<forall>str len. (case find_index s str len 0 (nsyms s) of
        Some i \<Rightarrow> (\<exists>j. find_index w str len 0 (nsyms w) = Some j \<and> symvalue w j = symvalue s i)
      | None \<Rightarrow> (\<forall>j. find_index w str len 0 (nsyms w) = Some j \<longrightarrow>
                   (\<exists>val. symvalue w j = Some val \<and> number_value val))))"

definition knows_more :: "ustate \<Rightarrow> ustate \<Rightarrow> bool" where
  "knows_more s w \<longleftrightarrow> table_extends s w
     \<and> w = s\<lparr>symname := symname w, symvalue := symvalue w, ignore := ignore w, nsyms := nsyms w\<rparr>"

lemma knows_more_fields:
  "knows_more s w \<Longrightarrow> incomment w = incomment s \<and> linestate w = linestate s \<and> depth w = depth s
     \<and> ignoring w = ignoring s \<and> constexpr w = constexpr s"
  by (cases s; cases w) (simp add: knows_more_def)

lemma find_index_symname:
  "symname s' = symname s \<Longrightarrow> find_index s' str len i k = find_index s str len i k"
  by (induction k arbitrary: i) auto

lemma table_extends_cong:
  assumes "symname s' = symname s" "symvalue s' = symvalue s" "nsyms s' = nsyms s"
    "symname w' = symname w" "symvalue w' = symvalue w" "nsyms w' = nsyms w"
  shows "table_extends s' w' = table_extends s w"
  unfolding table_extends_def find_index_symname [OF assms(1)] find_index_symname [OF assms(4)]
    assms ..

lemma knows_more_update:
  "knows_more s w \<Longrightarrow> knows_more (s\<lparr>incomment := ic, linestate := ls\<rparr>) (w\<lparr>incomment := ic, linestate := ls\<rparr>)"
  "knows_more s w \<Longrightarrow> knows_more (s\<lparr>linestate := ls\<rparr>) (w\<lparr>linestate := ls\<rparr>)"
  "knows_more s w \<Longrightarrow> knows_more (s\<lparr>constexpr := c\<rparr>) (w\<lparr>constexpr := c\<rparr>)"
  unfolding knows_more_def
    apply (subst table_extends_cong [of _ s _ w]; cases s; cases w; simp)
   apply (subst table_extends_cong [of _ s _ w]; cases s; cases w; simp)
  apply (subst table_extends_cong [of _ s _ w]; cases s; cases w; simp)
  done

definition rel_step :: "('a \<Rightarrow> 'b \<Rightarrow> bool) \<Rightarrow> 'a step \<Rightarrow> 'b step \<Rightarrow> bool" where
  "rel_step R x y =
     (case x of
        Inl _ \<Rightarrow> (case y of Inl _ \<Rightarrow> True | Inr _ \<Rightarrow> False)
      | Inr (a, s) \<Rightarrow> (case y of Inl _ \<Rightarrow> False | Inr (b, w) \<Rightarrow> R a b \<and> knows_more s w))"

lemma rel_step_simps [simp]:
  "rel_step R (Inl e) (Inl f)"
  "rel_step R (Inr (a, s)) (Inr (b, w)) = (R a b \<and> knows_more s w)"
  by (simp_all add: rel_step_def)

lemma rel_andthen:
  assumes "rel_step R x y"
    "\<And>a b s w. x = Inr (a, s) \<Longrightarrow> R a b \<Longrightarrow> knows_more s w \<Longrightarrow> rel_step Q (f (a, s)) (g (b, w))"
  shows "rel_step Q (andthen x f) (andthen y g)"
  using assms by (cases x; cases y) (auto simp: rel_step_def)

lemma rel_skipcomment:
  "knows_more s w \<Longrightarrow> rel_step (=) (skipcomment opt cp s) (skipcomment opt cp w)"
  using knows_more_fields [of s w]
  by (auto simp: skipcomment_def error_def knows_more_update split: sum.split prod.split)

lemma rel_skipargs_loop:
  "knows_more s w \<Longrightarrow> rel_step (=) (skipargs_loop opt l cp s) (skipargs_loop opt l cp w)"
proof (induction opt l cp s arbitrary: w rule: skipargs_loop.induct)
  case (1 opt level cp s)
  let ?l1 = "if hd cp = CHR ''('' then level + 1 else level"
  let ?l2 = "if hd cp = CHR '')'' then ?l1 - 1 else ?l1"
  show ?case
  proof (cases "cp = []")
    case True
    with 1(2) show ?thesis by (simp add: skipargs_loop.simps)
  next
    case False
    have "rel_step (=) (andthen (skipcomment opt (tl cp) s) (\<lambda>(cp', s').
              if ?l2 \<noteq> 0 \<and> cp' \<noteq> [] then skipargs_loop opt ?l2 cp' s' else Inr ((?l2, cp'), s')))
            (andthen (skipcomment opt (tl cp) w) (\<lambda>(cp', s').
              if ?l2 \<noteq> 0 \<and> cp' \<noteq> [] then skipargs_loop opt ?l2 cp' s' else Inr ((?l2, cp'), s')))"
    proof (rule rel_andthen [OF rel_skipcomment [OF 1(2)]], clarify)
      fix a b b'
      assume k: "skipcomment opt (tl cp) s = Inr (a, b)" "knows_more b b'"
      show "rel_step (=)
          (if ?l2 \<noteq> 0 \<and> a \<noteq> [] then skipargs_loop opt ?l2 a b else Inr ((?l2, a), b))
          (if ?l2 \<noteq> 0 \<and> a \<noteq> [] then skipargs_loop opt ?l2 a b' else Inr ((?l2, a), b'))"
      proof (cases "?l2 \<noteq> 0 \<and> a \<noteq> []")
        case True
        show ?thesis unfolding if_P [OF True] using 1(1) [OF False refl refl k(1) refl True k(2)] .
      next
        case False
        show ?thesis unfolding if_not_P [OF False] using k by simp
      qed
    qed
    with False show ?thesis
      unfolding skipargs_loop.simps [of opt level cp s] skipargs_loop.simps [of opt level cp w] Let_def
      by (simp only: if_False)
  qed
qed

lemma rel_skipargs:
  "knows_more s w \<Longrightarrow> rel_step (=) (skipargs opt cp s) (skipargs opt cp w)"
  unfolding skipargs_def
  by (rule rel_andthen [OF rel_skipcomment], assumption)
    (auto intro!: rel_andthen [OF rel_skipargs_loop])

text \<open>How the two results of an evaluation compare.\<close>

fun rel_ev :: "evaluated \<Rightarrow> evaluated \<Rightarrow> bool" where
  "rel_ev (lt, v, cp) (lt', v', cp') \<longleftrightarrow>
     (lt = LT_ERROR \<and> lt' = LT_ERROR)
     \<or> (cp = cp' \<and> lt \<noteq> LT_ERROR \<and> lt' \<noteq> LT_ERROR \<and> refines (v, lt) (v', lt') \<and> ev_ok lt' v')"

lemma findsym_no_list:
  "\<not> symlist opt \<Longrightarrow> findsym opt str s =
     (if skipsym str = str then None
      else find_index s str (length str - length (skipsym str)) 0 (nsyms s), s)"
  by (simp add: findsym_def Let_def)

lemma knows_find:
  assumes "knows_more s w"
  shows "case find_index s str len 0 (nsyms s) of
        Some i \<Rightarrow> (\<exists>j. find_index w str len 0 (nsyms w) = Some j \<and> symvalue w j = symvalue s i)
      | None \<Rightarrow> (\<forall>j. find_index w str len 0 (nsyms w) = Some j \<longrightarrow>
                   (\<exists>val. symvalue w j = Some val \<and> number_value val))"
  using assms by (auto simp: knows_more_def table_extends_def)

lemma rel_number: "knows_more s w \<Longrightarrow> rel_step rel_ev (eval_number cp v s) (eval_number cp v' w)"
  by (auto simp: eval_number_def Let_def split_beta refines_def)

lemma rel_defined:
  assumes "knows_more s w" "\<not> symlist opt"
  shows "rel_step rel_ev (eval_defined opt cp v s) (eval_defined opt cp v' w)"
  unfolding eval_defined_def
proof (rule rel_andthen [OF rel_skipcomment [OF assms(1)]], clarify)
  fix cp1 s1 w1
  assume k1: "knows_more s1 w1"
  let ?paren = "\<lambda>s1. if cp1 \<noteq> [] \<and> hd cp1 = CHR ''(''
              then andthen (skipcomment opt (tl cp1) s1) (\<lambda>(c, s'). Inr ((True, c), s'))
              else Inr ((False, cp1), s1)"
  let ?rest = "\<lambda>v ((dp, cp2), s2). (let (found, s3) = findsym opt cp2 s2;
          (lt, v') = (case found of
                        None \<Rightarrow> (Dir LT_IF, v)
                      | Some i \<Rightarrow> (let d = symvalue s3 i \<noteq> None in (truth d, of_bool d)))
      in andthen (skipcomment opt (skipsym cp2) s3) (\<lambda>(cp3, s4).
           if dp
           then (if cp3 \<noteq> [] \<and> hd cp3 = CHR '')'' then Inr ((lt, v', tl cp3), s4\<lparr>constexpr := False\<rparr>)
                 else Inr ((LT_ERROR, v', cp3), s4))
           else Inr ((lt, v', cp3), s4\<lparr>constexpr := False\<rparr>)))"
  have p: "rel_step (=) (?paren s1) (?paren w1)"
    using k1 by (auto intro!: rel_andthen [OF rel_skipcomment])
  have r: "rel_step rel_ev (?rest v ((dp, cp2), s2)) (?rest v' ((dp, cp2), w2))"
    if k2: "knows_more s2 w2" for dp cp2 s2 w2
  proof -
    define lv where "lv u x = (case fst (findsym opt cp2 u) of
                        None \<Rightarrow> (Dir LT_IF, x)
                      | Some i \<Rightarrow> (let d = symvalue u i \<noteq> None in (truth d, of_bool d)))"
      for u and x :: "32 word"
    have e: "?rest x ((dp, cp2), u) = andthen (skipcomment opt (skipsym cp2) u) (\<lambda>(cp3, s4).
           if dp
           then (if cp3 \<noteq> [] \<and> hd cp3 = CHR '')''
                 then Inr ((fst (lv u x), snd (lv u x), tl cp3), s4\<lparr>constexpr := False\<rparr>)
                 else Inr ((LT_ERROR, snd (lv u x), cp3), s4))
           else Inr ((fst (lv u x), snd (lv u x), cp3), s4\<lparr>constexpr := False\<rparr>))" for u x
      unfolding lv_def findsym_no_list [OF assms(2)] by (simp add: split_beta Let_def)
    have lv: "refines (snd (lv s2 v), fst (lv s2 v)) (snd (lv w2 v'), fst (lv w2 v'))
        \<and> fst (lv s2 v) \<noteq> LT_ERROR \<and> fst (lv w2 v') \<noteq> LT_ERROR \<and> ev_ok (fst (lv w2 v')) (snd (lv w2 v'))"
      using knows_find [OF k2, of cp2 "length cp2 - length (skipsym cp2)"]
      unfolding lv_def findsym_no_list [OF assms(2)]
      by (auto simp: refines_def Let_def split: option.splits)
    show ?thesis
      unfolding e by (rule rel_andthen [OF rel_skipcomment [OF k2]]) (use lv knows_more_update(3) in auto)
  qed
  show "rel_step rel_ev (andthen (?paren s1) (?rest v)) (andthen (?paren w1) (?rest v'))"
    by (rule rel_andthen [OF p]) (use r in auto)
qed

lemma rel_symbol:
  assumes "knows_more s w" "\<not> symlist opt"
  shows "rel_step rel_ev (eval_symbol opt cp v s) (eval_symbol opt cp v' w)"
proof -
  let ?f = "\<lambda>u. if skipsym cp = cp then None
      else find_index u cp (length cp - length (skipsym cp)) 0 (nsyms u)"
  let ?args = "\<lambda>u lt x. andthen (skipargs opt (skipsym cp) u) (\<lambda>(cp2, s2). Inr ((lt, x, cp2), s2\<lparr>constexpr := False\<rparr>))"
  have e: "eval_symbol opt cp x u = (case ?f u of
        None \<Rightarrow> ?args u (Dir LT_IF) x
      | Some i \<Rightarrow>
          (case symvalue u i of
             None \<Rightarrow> Inr ((Dir LT_FALSE, 0, skipsym cp), u\<lparr>constexpr := False\<rparr>)
           | Some val \<Rightarrow>
               (let (n, ep) = c_strtol_int 0 val in
                if ep \<noteq> [] \<or> ep = val then Inr ((LT_ERROR, n, skipsym cp), u)
                else ?args u (truth (n \<noteq> 0)) n)))" for x u
    unfolding eval_symbol_def findsym_no_list [OF assms(2)] Let_def prod.case ..
  have args: "rel_step rel_ev (?args s lt x) (?args w lt' x')"
    if "refines (x, lt) (x', lt')" "lt \<noteq> LT_ERROR" "lt' \<noteq> LT_ERROR" "ev_ok lt' x'" for lt x lt' x'
    by (rule rel_andthen [OF rel_skipargs [OF assms(1)]]) (use that knows_more_update(3) in auto)
  have known: "rel_step rel_ev
     (case symvalue s i of
         None \<Rightarrow> Inr ((Dir LT_FALSE, 0, skipsym cp), s\<lparr>constexpr := False\<rparr>)
       | Some val \<Rightarrow>
           (let (n, ep) = c_strtol_int 0 val in
            if ep \<noteq> [] \<or> ep = val then Inr ((LT_ERROR, n, skipsym cp), s)
            else ?args s (truth (n \<noteq> 0)) n))
     (case symvalue w j of
         None \<Rightarrow> Inr ((Dir LT_FALSE, 0, skipsym cp), w\<lparr>constexpr := False\<rparr>)
       | Some val \<Rightarrow>
           (let (n, ep) = c_strtol_int 0 val in
            if ep \<noteq> [] \<or> ep = val then Inr ((LT_ERROR, n, skipsym cp), w)
            else ?args w (truth (n \<noteq> 0)) n))" if j: "symvalue w j = symvalue s i" for i j
  proof (cases "symvalue s i")
    case None
    with j assms(1) show ?thesis
      by (simp add: knows_more_update refines_def ev_ok_def truth_def)
  next
    case (Some val)
    obtain n ep where n: "c_strtol_int 0 val = (n, ep)" by fastforce
    show ?thesis
      using j Some n assms(1) args [of n "truth (n \<noteq> 0)" n "truth (n \<noteq> 0)"]
      by (simp add: refines_def)
  qed
  show ?thesis
  proof (cases "?f s")
    case None
    show ?thesis
    proof (cases "?f w")
      case None': None
      show ?thesis unfolding e None None' option.case by (rule args) (simp_all add: refines_def)
    next
      case (Some j)
      then have "find_index w cp (length cp - length (skipsym cp)) 0 (nsyms w) = Some j" "skipsym cp \<noteq> cp"
        by (auto split: if_splits)
      with knows_find [OF assms(1), of cp "length cp - length (skipsym cp)"] None obtain val where
        val: "symvalue w j = Some val" "number_value val" by (auto split: option.splits)
      obtain n ep where n: "c_strtol_int 0 val = (n, ep)" "\<not> (ep \<noteq> [] \<or> ep = val)"
        using val(2) by (auto simp: number_value_def Let_def split: prod.splits)
      have w: "eval_symbol opt cp v' w = ?args w (truth (n \<noteq> 0)) n"
        unfolding e Some option.case val n Let_def prod.case if_not_P [OF n(2)] ..
      show ?thesis unfolding w unfolding e None option.case by (rule args) (simp_all add: refines_def)
    qed
  next
    case (Some i)
    then have "find_index s cp (length cp - length (skipsym cp)) 0 (nsyms s) = Some i" "skipsym cp \<noteq> cp"
      by (auto split: if_splits)
    with knows_find [OF assms(1), of cp "length cp - length (skipsym cp)"] obtain j where
      j: "?f w = Some j" "symvalue w j = symvalue s i" by auto
    show ?thesis unfolding e Some j(1) option.case by (rule known [OF j(2)])
  qed
qed

text \<open>Calls that compare: a loop starts from comparable results.\<close>

fun rel_call :: "ev_call \<Rightarrow> 32 word \<Rightarrow> ev_call \<Rightarrow> 32 word \<Rightarrow> bool" where
  "rel_call Unary v Unary v' = True"
| "rel_call (Table k) v (Table k') v' = (k = k' \<and> k < 4)"
| "rel_call (Loop k lt) v (Loop k' lt') v' =
     (k = k' \<and> k < 4 \<and> lt \<noteq> LT_ERROR \<and> lt' \<noteq> LT_ERROR \<and> refines (v, lt) (v', lt') \<and> ev_ok lt' v')"
| "rel_call _ _ _ _ = False"

definition rel_rec :: "ev_fn \<Rightarrow> ev_fn \<Rightarrow> bool" where
  "rel_rec f g \<longleftrightarrow>
     (\<forall>call v call' v' cp s w. rel_call call v call' v' \<and> knows_more s w \<longrightarrow>
        rel_step rel_ev (f call v cp s) (g call' v' cp w))"

lemma rel_recD:
  "rel_rec f g \<Longrightarrow> rel_call call v call' v' \<Longrightarrow> knows_more s w \<Longrightarrow>
     rel_step rel_ev (f call v cp s) (g call' v' cp w)"
  by (simp add: rel_rec_def)

lemma rel_inner: "k < 4 \<Longrightarrow> rel_call (ops_inner k) v (ops_inner k) v'"
  by (simp add: ops_inner_def)

lemma rel_if:
  "(P \<Longrightarrow> rel_step R a b) \<Longrightarrow> (\<not> P \<Longrightarrow> rel_step R c d) \<Longrightarrow>
     rel_step R (if P then a else c) (if P then b else d)"
  by simp

lemma rel_unary_not:
  "rel_ev a b \<Longrightarrow> knows_more s w \<Longrightarrow> rel_step rel_ev (unary_not (a, s)) (unary_not (b, w))"
  by (cases a; cases b) (auto simp: unary_not_def refines_def)

lemma rel_unary_close:
  "rel_ev a b \<Longrightarrow> knows_more s w \<Longrightarrow> rel_step rel_ev (unary_close opt (a, s)) (unary_close opt (b, w))"
  by (cases a; cases b)
    (auto simp: unary_close_def intro!: rel_andthen [OF rel_skipcomment])

lemma rel_unary:
  assumes "rel_rec f g" "knows_more s w" "\<not> symlist opt"
  shows "rel_step rel_ev (unary_body f opt v cp s) (unary_body g opt v' cp w)"
  unfolding unary_body_def
proof (rule rel_andthen [OF rel_skipcomment [OF assms(2)]], clarify)
  fix c s1 w1
  assume k: "knows_more s1 w1"
  have "rel_step rel_ev (andthen (f Unary v (tl c) s1) unary_not) (andthen (g Unary v' (tl c) w1) unary_not)"
    by (rule rel_andthen [OF rel_recD [OF assms(1) _ k]]) (auto intro: rel_unary_not)
  moreover have "rel_step rel_ev (andthen (f (Table 0) v (tl c) s1) (unary_close opt))
      (andthen (g (Table 0) v' (tl c) w1) (unary_close opt))"
    by (rule rel_andthen [OF rel_recD [OF assms(1) _ k]]) (auto intro: rel_unary_close)
  ultimately show "rel_step rel_ev
      (if c \<noteq> [] \<and> hd c = CHR ''!'' then andthen (f Unary v (tl c) s1) unary_not
       else if c \<noteq> [] \<and> hd c = CHR ''(''
       then andthen (f (Table 0) v (tl c) s1) (unary_close opt)
       else if c \<noteq> [] \<and> c_isdigit (hd c) then eval_number c v s1
       else if starts_with c ''defined'' \<and> (drop 7 c = [] \<or> endsym (hd (drop 7 c)))
       then eval_defined opt c v s1
       else if c \<noteq> [] \<and> \<not> endsym (hd c) then eval_symbol opt c v s1
       else Inr ((LT_ERROR, v, c), s1))
      (if c \<noteq> [] \<and> hd c = CHR ''!'' then andthen (g Unary v' (tl c) w1) unary_not
       else if c \<noteq> [] \<and> hd c = CHR ''(''
       then andthen (g (Table 0) v' (tl c) w1) (unary_close opt)
       else if c \<noteq> [] \<and> c_isdigit (hd c) then eval_number c v' w1
       else if starts_with c ''defined'' \<and> (drop 7 c = [] \<or> endsym (hd (drop 7 c)))
       then eval_defined opt c v' w1
       else if c \<noteq> [] \<and> \<not> endsym (hd c) then eval_symbol opt c v' w1
       else Inr ((LT_ERROR, v', c), w1))"
    using rel_number [OF k] rel_defined [OF k assms(3)] rel_symbol [OF k assms(3)] k
    by (intro rel_if) auto
qed

lemma rel_table:
  assumes "rel_rec f g" "knows_more s w" "k < 4"
  shows "rel_step rel_ev (table_body f k v cp s) (table_body g k v' cp w)"
  unfolding table_body_def
proof (rule rel_andthen [OF rel_recD [OF assms(1) rel_inner [OF assms(3)] assms(2)]], clarify)
  fix lt v1 c1 s1 lt' v1' c1' w1
  assume r: "rel_ev (lt, v1, c1) (lt', v1', c1')" and k: "knows_more s1 w1"
  show "rel_step rel_ev
      (if lt = LT_ERROR then Inr ((LT_ERROR, v1, c1), s1) else f (Loop k lt) v1 c1 s1)
      (if lt' = LT_ERROR then Inr ((LT_ERROR, v1', c1'), w1) else g (Loop k lt') v1' c1' w1)"
  proof (cases "lt = LT_ERROR")
    case False
    with r have "c1' = c1" "lt' \<noteq> LT_ERROR" "rel_call (Loop k lt) v1 (Loop k lt') v1'"
      using assms(3) by auto
    with False show ?thesis using rel_recD [OF assms(1) _ k] by simp
  qed (use r k in auto)
qed

lemma rel_loop:
  assumes "rel_rec f g" "knows_more s w" "rel_call (Loop k lt) v (Loop k lt') v'"
  shows "rel_step rel_ev (loop_body f opt k lt v cp s) (loop_body g opt k lt' v' cp w)"
  unfolding loop_body_def
proof (rule rel_andthen [OF rel_skipcomment [OF assms(2)]], clarify)
  fix c s1 w1
  assume k1: "knows_more s1 w1"
  from assms(3) have k: "k < 4" and l: "lt \<noteq> LT_ERROR" "lt' \<noteq> LT_ERROR" "refines (v, lt) (v', lt')" "ev_ok lt' v'"
    by auto
  let ?next = "\<lambda>rec fn lt v ((rt, val, cp1), s1).
             if rt = LT_ERROR then Inr ((LT_ERROR, v, cp1), s1)
             else (let (v', lt') = fn opt v lt v rt val in rec (Loop k lt') v' cp1 s1)"
  have "rel_step rel_ev
      (andthen (f (ops_inner k) 0 (drop (length str) c) s1) (?next f fn lt v))
      (andthen (g (ops_inner k) 0 (drop (length str) c) w1) (?next g fn lt' v'))"
    if o: "find_op (eval_ops ! k) c = Some (str, fn)" for str fn
  proof (rule rel_andthen [OF rel_recD [OF assms(1) rel_inner [OF k] k1]], clarify)
    fix rt val c2 s2 rt' val' c2' w2
    assume r: "rel_ev (rt, val, c2) (rt', val', c2')" and k2: "knows_more s2 w2"
    have fn: "fn \<in> table_ops" using find_op_in [OF o k] by blast
    show "rel_step rel_ev
        (if rt = LT_ERROR then Inr ((LT_ERROR, v, c2), s2)
         else (let (v', lt') = fn opt v lt v rt val in f (Loop k lt') v' c2 s2))
        (if rt' = LT_ERROR then Inr ((LT_ERROR, v', c2'), w2)
         else (let (v', lt') = fn opt v' lt' v' rt' val' in g (Loop k lt') v' c2' w2))"
    proof (cases "rt = LT_ERROR")
      case False
      obtain x xt where x: "fn opt v lt v rt val = (x, xt)" by fastforce
      obtain x' xt' where x': "fn opt v' lt' v' rt' val' = (x', xt')" by fastforce
      from False r have e: "c2' = c2" "rt' \<noteq> LT_ERROR" "refines (val, rt) (val', rt')" "ev_ok rt' val'"
        by auto
      have "refines (x, xt) (x', xt')"
        using op_refines [OF fn l(3) e(3) l(4) e(4), of opt] by (simp add: x x')
      with op_ok [OF fn x] op_ok [OF fn x'] k have "rel_call (Loop k xt) x (Loop k xt') x'" by simp
      from rel_recD [OF assms(1) this k2] False e(1,2) show ?thesis by (simp add: x x')
    qed (use r k2 in auto)
  qed
  then show "rel_step rel_ev
      (case find_op (eval_ops ! k) c of None \<Rightarrow> Inr ((lt, v, c), s1)
       | Some (str, fn) \<Rightarrow> andthen (f (ops_inner k) 0 (drop (length str) c) s1) (?next f fn lt v))
      (case find_op (eval_ops ! k) c of None \<Rightarrow> Inr ((lt', v', c), w1)
       | Some (str, fn) \<Rightarrow> andthen (g (ops_inner k) 0 (drop (length str) c) w1) (?next g fn lt' v'))"
    using k1 l by (auto split: option.split)
qed

lemma rel_eval:
  assumes "\<not> symlist opt"
  shows "rel_rec (eval n opt) (eval n opt)"
proof (induction n)
  case (Suc n)
  show ?case
    unfolding rel_rec_def
  proof (intro allI impI, elim conjE)
    fix call v call' v' cp s w
    assume c: "rel_call call v call' v'" and k: "knows_more s w"
    from rel_unary [OF Suc k assms] rel_table [OF Suc k] rel_loop [OF Suc k] c
    show "rel_step rel_ev (eval (Suc n) opt call v cp s) (eval (Suc n) opt call' v' cp w)"
      by (cases call; cases call') auto
  qed
qed (simp add: rel_rec_def)

text \<open>The pointers agree, and the type is the same unless it was not decided.\<close>

lemma ifeval_refines:
  assumes "\<not> symlist opt" "knows_more s w"
  shows "rel_step (\<lambda>(lt, cp) (lt', cp'). cp' = cp \<and> (lt = Dir LT_IF \<or> lt' = lt))
    (ifeval opt cp s) (ifeval opt cp w)"
  unfolding ifeval_def
proof (rule rel_andthen [OF rel_recD [OF rel_eval [OF assms(1)] _ knows_more_update(3) [OF assms(2)]]], simp, clarify)
  fix ret v cp1 s1 ret' v' cp1' w1
  assume "rel_ev (ret, v, cp1) (ret', v', cp1')" "knows_more s1 w1"
  then show "rel_step (\<lambda>(lt, cp) (lt', cp'). cp' = cp \<and> (lt = Dir LT_IF \<or> lt' = lt))
      (Inr ((if constexpr s1 then Dir LT_IF else if ret = LT_ERROR then Dir LT_IF else ret,
                if ret = LT_ERROR then cp else cp1), s1))
      (Inr ((if constexpr w1 then Dir LT_IF else if ret' = LT_ERROR then Dir LT_IF else ret',
                if ret' = LT_ERROR then cp else cp1'), w1))"
    using knows_more_fields [of s1 w1] by (auto simp: refines_def)
qed

end
