(* ===== verification/Unifdef_Machine.thy ===== *)
theory Unifdef_Machine
  imports Unifdef_Eval
begin

text \<open>
  The state machine of \<open>unifdef.c\<close>: the output of a line, the state transition functions and
  their table, \<open>parseline\<close> and the driver \<open>process\<close>.
\<close>

section \<open>Output of a line\<close>

definition newline_str :: "ustate \<Rightarrow> cstr" where
  "newline_str s = (case newline s of Some n \<Rightarrow> n | None \<Rightarrow> [])"

definition blank_line :: "cstr \<Rightarrow> bool" where
  "blank_line l = list_all (\<lambda>c. c \<in> {CHR '' '', CHR 0x09, CHR 0x0D, CHR 0x0A}) l"

definition flushline :: "options \<Rightarrow> bool \<Rightarrow> ustate \<Rightarrow> ustate" where
  "flushline opt keep s =
     (if symlist opt then s
      else if keep \<noteq> complement opt
      then (let blankline = blank_line (tline s) in
            if blankline \<and> compblank opt \<and> blankcount s \<noteq> blankmax s
            then s\<lparr>delcount := delcount s + 1, blankcount := blankcount s + 1\<rparr>
            else (let bc = (if blankline then blankcount s + 1 else 0) in
                  s\<lparr>written := written s
                      @ (if lnnum opt \<and> delcount s > 0
                         then [To_stdout (''#line '' @ decimal (linenum s) @ newline_str s)] else [])
                      @ [To_output (tline s)],
                    delcount := 0, blankcount := bc, blankmax := bc\<rparr>))
      else s\<lparr>written := written s @ (if lnblank opt then [To_output (newline_str s)] else []),
             exitstat := 1, delcount := delcount s + 1, blankcount := 0\<rparr>)"

section \<open>Utility functions of the state machine\<close>

definition ignoreoff :: "ustate \<Rightarrow> stop + ustate" where
  "ignoreoff s =
     (if depth s = 0 then Inl Abort
      else Inr (s\<lparr>ignoring := (ignoring s)(depth s := ignoring s (depth s - 1))\<rparr>))"

definition ignoreon :: "ustate \<Rightarrow> ustate" where
  "ignoreon s = s\<lparr>ignoring := (ignoring s)(depth s := True)\<rparr>"

text \<open>\<open>snprintf\<close> cuts the replacement at the end of the buffer.\<close>

definition keywordedit :: "options \<Rightarrow> cstr \<Rightarrow> ustate \<Rightarrow> ustate" where
  "keywordedit opt replacement s =
     flushline opt True
       (s\<lparr>tline := take (keyword s) (tline s)
                  @ take (MAXLINE + EDITSLOP - keyword s - 1) (replacement @ newline_str s)\<rparr>)"

definition nest :: "ustate \<Rightarrow> stop + ustate" where
  "nest s =
     (if depth s > MAXDEPTH - 1 then Inl Abort
      else if depth s = MAXDEPTH - 1 then error ''Too many levels of nesting'' s
      else Inr (s\<lparr>depth := depth s + 1, stifline := (stifline s)(depth s + 1 := linenum s)\<rparr>))"

definition unnest :: "ustate \<Rightarrow> stop + ustate" where
  "unnest s = (if depth s = 0 then Inl Abort else Inr (s\<lparr>depth := depth s - 1\<rparr>))"

definition state :: "Ifstate \<Rightarrow> ustate \<Rightarrow> ustate" where
  "state is s = s\<lparr>ifstate := (ifstate s)(depth s := is)\<rparr>"

definition closeout :: "options \<Rightarrow> ustate \<Rightarrow> ustate" where
  "closeout opt s =
     (if symdepth opt \<and> \<not> zerosyms s then s\<lparr>written := written s @ [To_stdout LF]\<rparr> else s)"

section \<open>State transition functions\<close>

text \<open>The functions by name, and what each does.\<close>

datatype state_fn =
    Eelif | Eelse | Eendif | Eeof | Eioccc
  | print | drop_line
  | Strue | Sfalse | Selse
  | Pelif | Pelse | Pendif
  | Dfalse | Delif | Delse | Dendif
  | Fdrop | Fpass | Ftrue | Ffalse
  | Oiffy | Oif | Oelif
  | Idrop | Itrue | Ifalse
  | Mpass | Mtrue | Melif | Melse
  | done_fn | abort_fn

text \<open>Writing or dropping the line, ending the ignored part and entering a state.\<close>

definition flush_off_state :: "options \<Rightarrow> bool \<Rightarrow> Ifstate \<Rightarrow> ustate \<Rightarrow> stop + ustate" where
  "flush_off_state opt keep is s = andthen (ignoreoff (flushline opt keep s)) (\<lambda>s1. Inr (state is s1))"

definition flush_state :: "options \<Rightarrow> bool \<Rightarrow> Ifstate \<Rightarrow> ustate \<Rightarrow> stop + ustate" where
  "flush_state opt keep is s = Inr (state is (flushline opt keep s))"

definition begin_group :: "options \<Rightarrow> bool \<Rightarrow> Ifstate \<Rightarrow> ustate \<Rightarrow> stop + ustate" where
  "begin_group opt keep is s = andthen (nest s) (flush_off_state opt keep is)"

definition with_ignore :: "(ustate \<Rightarrow> stop + ustate) \<Rightarrow> ustate \<Rightarrow> stop + ustate" where
  "with_ignore f s = andthen (f s) (\<lambda>s1. Inr (ignoreon s1))"

definition Eioccc_msg :: cstr where
  "Eioccc_msg = ''Obfuscated preprocessor control line''"

definition unless_iocccok ::
  "options \<Rightarrow> (ustate \<Rightarrow> stop + ustate) \<Rightarrow> ustate \<Rightarrow> stop + ustate" where
  "unless_iocccok opt f s = (if \<not> iocccok opt then error Eioccc_msg s else f s)"

definition edit_if :: "ustate \<Rightarrow> ustate" where
  "edit_if s = s\<lparr>tline := take (keyword s) (tline s) @ ''if  '' @ drop (keyword s + 4) (tline s)\<rparr>"

fun run_fn :: "state_fn \<Rightarrow> options \<Rightarrow> ustate \<Rightarrow> stop + ustate" where
  "run_fn Eelif opt s = error ''Inappropriate #elif'' s"
| "run_fn Eelse opt s = error ''Inappropriate #else'' s"
| "run_fn Eendif opt s = error ''Inappropriate #endif'' s"
| "run_fn Eeof opt s = error ''Premature EOF'' s"
| "run_fn Eioccc opt s = error Eioccc_msg s"
| "run_fn print opt s = Inr (flushline opt True s)"
| "run_fn drop_line opt s = Inr (flushline opt False s)"
| "run_fn Strue opt s = flush_off_state opt False IS_TRUE_PREFIX s"
| "run_fn Sfalse opt s = flush_off_state opt False IS_FALSE_PREFIX s"
| "run_fn Selse opt s = flush_state opt False IS_TRUE_ELSE s"
| "run_fn Pelif opt s = flush_off_state opt True IS_PASS_MIDDLE s"
| "run_fn Pelse opt s = flush_state opt True IS_PASS_ELSE s"
| "run_fn Pendif opt s = unnest (flushline opt True s)"
| "run_fn Dfalse opt s = flush_off_state opt False IS_FALSE_TRAILER s"
| "run_fn Delif opt s = flush_off_state opt False IS_FALSE_MIDDLE s"
| "run_fn Delse opt s = flush_state opt False IS_FALSE_ELSE s"
| "run_fn Dendif opt s = unnest (flushline opt False s)"
| "run_fn Fdrop opt s = begin_group opt False IS_FALSE_TRAILER s"
| "run_fn Fpass opt s = begin_group opt True IS_PASS_MIDDLE s"
| "run_fn Ftrue opt s = begin_group opt False IS_TRUE_PREFIX s"
| "run_fn Ffalse opt s = begin_group opt False IS_FALSE_PREFIX s"
| "run_fn Oiffy opt s = unless_iocccok opt (with_ignore (begin_group opt True IS_PASS_MIDDLE)) s"
| "run_fn Oif opt s = unless_iocccok opt (begin_group opt True IS_PASS_MIDDLE) s"
| "run_fn Oelif opt s = unless_iocccok opt (flush_off_state opt True IS_PASS_MIDDLE) s"
| "run_fn Idrop opt s = with_ignore (begin_group opt False IS_FALSE_TRAILER) s"
| "run_fn Itrue opt s = with_ignore (begin_group opt False IS_TRUE_PREFIX) s"
| "run_fn Ifalse opt s = with_ignore (begin_group opt False IS_FALSE_PREFIX) s"
| "run_fn Mpass opt s = flush_off_state opt True IS_PASS_MIDDLE (edit_if s)"
| "run_fn Mtrue opt s = Inr (state IS_TRUE_MIDDLE (keywordedit opt ''else'' s))"
| "run_fn Melif opt s = Inr (state IS_FALSE_TRAILER (keywordedit opt ''endif'' s))"
| "run_fn Melse opt s = Inr (state IS_FALSE_ELSE (keywordedit opt ''endif'' s))"
| "run_fn done_fn opt s =
     (if incomment s \<noteq> NO_COMMENT then error ''EOF in comment'' s else Inl (Done (closeout opt s)))"
| "run_fn abort_fn opt s = Inl Abort"

text \<open>The numbers of the enumeration \<open>Linetype\<close>, and the table.\<close>

fun directive_number :: "directive \<Rightarrow> nat" where
  "directive_number LT_TRUEI = 0"
| "directive_number LT_FALSEI = 1"
| "directive_number LT_IF = 2"
| "directive_number LT_TRUE = 3"
| "directive_number LT_FALSE = 4"
| "directive_number LT_ELIF = 5"
| "directive_number LT_ELTRUE = 6"
| "directive_number LT_ELFALSE = 7"
| "directive_number LT_ELSE = 8"
| "directive_number LT_ENDIF = 9"

fun column :: "Linetype \<Rightarrow> nat" where
  "column (Dir d) = directive_number d"
| "column (LT_DODGY d) = 10 + directive_number d"
| "column LT_PLAIN = 20"
| "column LT_EOF = 21"
| "column LT_ERROR = 22"

fun trans_row :: "Ifstate \<Rightarrow> state_fn list" where
  "trans_row IS_OUTSIDE =
     [Itrue, Ifalse, Fpass, Ftrue, Ffalse, Eelif, Eelif, Eelif, Eelse, Eendif,
      Oiffy, Oiffy,  Fpass, Oif,   Oif,    Eelif, Eelif, Eelif, Eelse, Eendif,
      print, done_fn, abort_fn]"
| "trans_row IS_FALSE_PREFIX =
     [Idrop, Idrop, Fdrop, Fdrop, Fdrop, Mpass, Strue,  Sfalse, Selse,  Dendif,
      Idrop, Idrop, Fdrop, Fdrop, Fdrop, Mpass, Eioccc, Eioccc, Eioccc, Eioccc,
      drop_line, Eeof, abort_fn]"
| "trans_row IS_TRUE_PREFIX =
     [Itrue, Ifalse, Fpass, Ftrue, Ffalse, Dfalse, Dfalse, Dfalse, Delse,  Dendif,
      Oiffy, Oiffy,  Fpass, Oif,   Oif,    Eioccc, Eioccc, Eioccc, Eioccc, Eioccc,
      print, Eeof, abort_fn]"
| "trans_row IS_PASS_MIDDLE =
     [Itrue, Ifalse, Fpass, Ftrue, Ffalse, Pelif, Mtrue, Delif, Pelse, Pendif,
      Oiffy, Oiffy,  Fpass, Oif,   Oif,    Pelif, Oelif, Oelif, Pelse, Pendif,
      print, Eeof, abort_fn]"
| "trans_row IS_FALSE_MIDDLE =
     [Idrop, Idrop, Fdrop, Fdrop, Fdrop, Pelif,  Mtrue,  Delif,  Pelse,  Pendif,
      Idrop, Idrop, Fdrop, Fdrop, Fdrop, Eioccc, Eioccc, Eioccc, Eioccc, Eioccc,
      drop_line, Eeof, abort_fn]"
| "trans_row IS_TRUE_MIDDLE =
     [Itrue, Ifalse, Fpass, Ftrue, Ffalse, Melif,  Melif,  Melif,  Melse,  Pendif,
      Oiffy, Oiffy,  Fpass, Oif,   Oif,    Eioccc, Eioccc, Eioccc, Eioccc, Pendif,
      print, Eeof, abort_fn]"
| "trans_row IS_PASS_ELSE =
     [Itrue, Ifalse, Fpass, Ftrue, Ffalse, Eelif, Eelif, Eelif, Eelse, Pendif,
      Oiffy, Oiffy,  Fpass, Oif,   Oif,    Eelif, Eelif, Eelif, Eelse, Pendif,
      print, Eeof, abort_fn]"
| "trans_row IS_FALSE_ELSE =
     [Idrop, Idrop, Fdrop, Fdrop, Fdrop, Eelif, Eelif, Eelif, Eelse, Dendif,
      Idrop, Idrop, Fdrop, Fdrop, Fdrop, Eelif, Eelif, Eelif, Eelse, Eioccc,
      drop_line, Eeof, abort_fn]"
| "trans_row IS_TRUE_ELSE =
     [Itrue, Ifalse, Fpass, Ftrue, Ffalse, Eelif, Eelif, Eelif, Eelse, Dendif,
      Oiffy, Oiffy,  Fpass, Oif,   Oif,    Eelif, Eelif, Eelif, Eelse, Eioccc,
      print, Eeof, abort_fn]"
| "trans_row IS_FALSE_TRAILER =
     [Idrop, Idrop, Fdrop, Fdrop, Fdrop, Dfalse, Dfalse, Dfalse, Delse, Dendif,
      Idrop, Idrop, Fdrop, Fdrop, Fdrop, Dfalse, Dfalse, Dfalse, Delse, Eioccc,
      drop_line, Eeof, abort_fn]"

definition trans_table :: "Ifstate \<Rightarrow> Linetype \<Rightarrow> state_fn" where
  "trans_table is lt = trans_row is ! column lt"

section \<open>Parsing a line\<close>

text \<open>
  \<open>fgets\<close> with a buffer of \<open>n\<close> bytes: a line with its newline, at most \<open>n - 1\<close> bytes of it,
  \<open>None\<close> at the end of the file. A buffer of one byte takes the NUL and no input.
\<close>

definition fgets :: "nat \<Rightarrow> cstr \<Rightarrow> (cstr \<times> cstr) option" where
  "fgets n inp =
     (if n = 0 then None
      else if n = 1 then Some ([], inp)
      else if inp = [] then None
      else (let l = takeWhile (\<lambda>c. c \<noteq> CHR 0x0A) inp;
                chunk = take (n - 1) (if length l < length inp then l @ LF else l)
            in Some (chunk, drop (length chunk) inp)))"

definition c_string :: "cstr \<Rightarrow> cstr" where
  "c_string raw = takeWhile (\<lambda>c. c \<noteq> CHR 0x00) raw"

text \<open>\<open>strrchr\<close>, as an index.\<close>

fun strrchr :: "cstr \<Rightarrow> char \<Rightarrow> nat option" where
  "strrchr [] c = None"
| "strrchr (x # xs) c =
     (case strrchr xs c of Some i \<Rightarrow> Some (Suc i) | None \<Rightarrow> if x = c then Some 0 else None)"

definition newline_of :: "cstr \<Rightarrow> cstr" where
  "newline_of l =
     (case (strrchr l (CHR 0x0A), strrchr l (CHR 0x0D)) of
        (Some i, Some j) \<Rightarrow> if i = j + 1 then [CHR 0x0D, CHR 0x0A] else LF
      | _ \<Rightarrow> LF)"

text \<open>The type of an \<open>#ifdef\<close> or \<open>#ifndef\<close> whose symbol has the index \<open>i\<close>.\<close>

definition ifdef_type :: "bool \<Rightarrow> nat option \<Rightarrow> ustate \<Rightarrow> directive" where
  "ifdef_type ifndef cursym s =
     (case cursym of
        None \<Rightarrow> LT_IF
      | Some i \<Rightarrow>
          (let r1 = (if ifndef then LT_FALSE else LT_TRUE);
               r2 = (if symvalue s i = None then (if r1 = LT_TRUE then LT_FALSE else LT_TRUE) else r1)
           in if ignore s i then (if r2 = LT_TRUE then LT_TRUEI else LT_FALSEI) else r2))"

text \<open>\<open>- LT_IF + LT_ELIF\<close> on the results of \<open>ifeval\<close>.\<close>

fun elif_type :: "Linetype \<Rightarrow> Linetype" where
  "elif_type (Dir LT_IF) = Dir LT_ELIF"
| "elif_type (Dir LT_TRUE) = Dir LT_ELTRUE"
| "elif_type (Dir LT_FALSE) = Dir LT_ELFALSE"
| "elif_type lt = lt"

definition is_keyword :: "cstr \<Rightarrow> cstr \<Rightarrow> nat \<Rightarrow> bool" where
  "is_keyword s cp len = (strlcmp s cp len = 0)"

text \<open>The chain of tests on the keyword at \<open>kw\<close>, with the pointer after it at \<open>cp\<close>.\<close>

definition parse_keyword ::
  "options \<Rightarrow> cstr \<Rightarrow> nat \<Rightarrow> cstr \<Rightarrow> ustate \<Rightarrow> (Linetype \<times> cstr) step" where
  "parse_keyword opt kw kwlen cp s =
     (if is_keyword ''ifdef'' kw kwlen \<or> is_keyword ''ifndef'' kw kwlen
      then andthen (skipcomment opt cp s) (\<lambda>(cp1, s1).
             (let (cursym, s2) = findsym opt cp1 s1
              in Inr ((Dir (ifdef_type (kw ! 2 = CHR ''n'') cursym s2), skipsym cp1), s2)))
      else if is_keyword ''if'' kw kwlen then ifeval opt cp s
      else if is_keyword ''elif'' kw kwlen
      then andthen (ifeval opt cp s) (\<lambda>((lt, cp1), s1). Inr ((elif_type lt, cp1), s1))
      else if is_keyword ''else'' kw kwlen then Inr ((Dir LT_ELSE, cp), s)
      else if is_keyword ''endif'' kw kwlen then Inr ((Dir LT_ENDIF, cp), s)
      else Inr ((LT_PLAIN, cp), s\<lparr>linestate := LS_DIRTY\<rparr>))"

text \<open>A directive with something after it is not decided.\<close>

fun undecide :: "Linetype \<Rightarrow> Linetype" where
  "undecide (Dir LT_TRUE) = Dir LT_IF"
| "undecide (Dir LT_FALSE) = Dir LT_IF"
| "undecide (Dir LT_TRUEI) = Dir LT_IF"
| "undecide (Dir LT_FALSEI) = Dir LT_IF"
| "undecide (Dir LT_ELTRUE) = Dir LT_ELIF"
| "undecide (Dir LT_ELFALSE) = Dir LT_ELIF"
| "undecide lt = lt"

fun dodge :: "Linetype \<Rightarrow> Linetype" where
  "dodge (Dir d) = LT_DODGY d"
| "dodge lt = lt"

text \<open>The rest of the directive: what follows it, comments across lines, a missing newline.\<close>

definition directive_tail ::
  "bool \<Rightarrow> Linetype \<Rightarrow> cstr \<Rightarrow> ustate \<Rightarrow> Linetype \<times> cstr \<times> ustate" where
  "directive_tail wascomment rv cp s =
     (let (rv1, s1) = (if cp \<noteq> [] then (undecide rv, s\<lparr>linestate := LS_DIRTY\<rparr>) else (rv, s));
          inc = (incomment s1 \<noteq> NO_COMMENT);
          (rv2, s2) = (if rv1 \<noteq> LT_PLAIN \<and> (wascomment \<or> inc)
                       then (dodge rv1, if inc then s1\<lparr>linestate := LS_DIRTY\<rparr> else s1)
                       else (rv1, s1))
      in if linestate s2 = LS_HASH
         then (let len = length (tline s2) - length cp in
               case fgets (MAXLINE - len) (input s2) of
                 None \<Rightarrow> (rv2, [], s2\<lparr>tline := take len (tline s2) @ newline_str s2,
                                      linestate := LS_START\<rparr>)
               | Some (raw, rest) \<Rightarrow>
                   (rv2, c_string raw, s2\<lparr>tline := take len (tline s2) @ c_string raw, input := rest,
                                         linestate := LS_DIRTY\<rparr>))
         else (rv2, cp, s2))"

text \<open>A line that may be a directive: \<open>cp\<close> is after its hash.\<close>

definition parse_directive :: "options \<Rightarrow> bool \<Rightarrow> cstr \<Rightarrow> ustate \<Rightarrow> (Linetype \<times> cstr) step" where
  "parse_directive opt wascomment cp s =
     (let s1 = s\<lparr>keyword := length (tline s) - length cp\<rparr>;
          cp1 = skipsym cp;
          kwlen = length cp - length cp1
      in if starts_with cp1 BS_CRLF \<or> starts_with cp1 BS_LF then error Eioccc_msg s1
         else andthen (parse_keyword opt cp kwlen cp1 s1) (\<lambda>((rv, cp2), s2).
              andthen (skipcomment opt cp2 s2) (\<lambda>(cp3, s3).
                (let (rv', cp4, s4) = directive_tail wascomment rv cp3 s3 in Inr ((rv', cp4), s4)))))"

text \<open>The last loop of \<open>parseline\<close>.\<close>

function skip_rest :: "options \<Rightarrow> cstr \<Rightarrow> ustate \<Rightarrow> stop + ustate" where
  "skip_rest opt cp s =
     (if cp = [] then Inr s
      else andthen (skipcomment opt (tl cp) s) (\<lambda>(cp', s'). skip_rest opt cp' s'))"
  by pat_completeness auto
termination
proof (relation "measure (\<lambda>(opt, cp, s). length cp)", goal_cases)
  case (2 opt cp s r cp' s')
  then show ?case using skipcomment_length by (cases cp) (fastforce simp: le_imp_less_Suc)+
qed simp

declare skip_rest.simps [simp del]

definition read_line :: "cstr \<Rightarrow> cstr \<Rightarrow> ustate \<Rightarrow> ustate" where
  "read_line raw rest s =
     (let s1 = s\<lparr>input := rest, tline := c_string raw\<rparr>
      in if newline s1 = None then s1\<lparr>newline := Some (newline_of (tline s1))\<rparr> else s1)"

definition find_hash :: "options \<Rightarrow> ustate \<Rightarrow> cstr step" where
  "find_hash opt s =
     andthen (skipcomment opt (tline s) s) (\<lambda>(cp, s1).
       if linestate s1 = LS_START
       then (if cp \<noteq> [] \<and> hd cp = CHR ''#''
             then skipcomment opt (tl cp) (s1\<lparr>linestate := LS_HASH, firstsym := True\<rparr>)
             else if cp \<noteq> [] then Inr (cp, s1\<lparr>linestate := LS_DIRTY\<rparr>)
             else Inr (cp, s1))
       else Inr (cp, s1))"

definition parseline :: "options \<Rightarrow> ustate \<Rightarrow> stop + Linetype \<times> ustate" where
  "parseline opt s0 =
     (let s = s0\<lparr>linenum := linenum s0 + 1\<rparr> in
      case fgets MAXLINE (input s) of
        None \<Rightarrow> Inr (LT_EOF, s)
      | Some (raw, rest) \<Rightarrow>
          (let s1 = read_line raw rest s; wascomment = (incomment s1 \<noteq> NO_COMMENT) in
           andthen (find_hash opt s1) (\<lambda>(cp, s2).
           andthen (if incomment s2 = NO_COMMENT \<and> linestate s2 = LS_HASH
                    then parse_directive opt wascomment cp s2
                    else Inr ((LT_PLAIN, cp), s2)) (\<lambda>((rv, cp1), s3).
           andthen (if linestate s3 = LS_DIRTY then skip_rest opt cp1 s3 else Inr s3) (\<lambda>s4.
             Inr (rv, s4))))))"

section \<open>What the parts leave alone\<close>

text \<open>The part of the state the machine works on, and the symbols.\<close>

definition machine :: "ustate \<Rightarrow> (nat \<Rightarrow> Ifstate) \<times> (nat \<Rightarrow> bool) \<times> (nat \<Rightarrow> nat) \<times> nat \<times> nat \<times> 32 word \<times> 32 word \<times> nat" where
  "machine s = (ifstate s, ignoring s, stifline s, depth s, delcount s, blankcount s, blankmax s, exitstat s)"

definition symbols :: "ustate \<Rightarrow> (nat \<Rightarrow> cstr) \<times> (nat \<Rightarrow> cstr option) \<times> (nat \<Rightarrow> bool) \<times> nat" where
  "symbols s = (symname s, symvalue s, ignore s, nsyms s)"

definition keeps :: "ustate \<Rightarrow> ustate \<Rightarrow> bool" where
  "keeps s s' \<longleftrightarrow> machine s' = machine s \<and> symbols s' = symbols s"

lemma keeps_refl [simp]: "keeps s s"
  by (simp add: keeps_def)

lemma keeps_trans: "keeps a b \<Longrightarrow> keeps b c \<Longrightarrow> keeps a c"
  by (simp add: keeps_def)

lemma keeps_updates [simp]:
  "keeps s (t\<lparr>linestate := ls\<rparr>) = keeps s t" "keeps s (t\<lparr>input := i\<rparr>) = keeps s t"
  "keeps s (t\<lparr>tline := l\<rparr>) = keeps s t" "keeps s (t\<lparr>keyword := k\<rparr>) = keeps s t"
  "keeps s (t\<lparr>newline := nl\<rparr>) = keeps s t" "keeps s (t\<lparr>linenum := n\<rparr>) = keeps s t"
  "keeps s (t\<lparr>firstsym := b\<rparr>) = keeps s t"
  by (simp_all add: keeps_def machine_def symbols_def)

lemma same_env_keeps: "same_env s s' \<Longrightarrow> keeps s s' \<and> input s' = input s \<and> tline s' = tline s
    \<and> newline s' = newline s \<and> linenum s' = linenum s \<and> keyword s' = keyword s"
  by (drule same_env_fields) (simp add: keeps_def machine_def symbols_def)

lemma keeps_skipcomment:
  "skipcomment opt cp s = Inr (t, s') \<Longrightarrow> keeps s s' \<and> input s' = input s \<and> tline s' = tline s
     \<and> newline s' = newline s \<and> linenum s' = linenum s \<and> keyword s' = keyword s"
  by (blast dest: same_env_skipcomment same_env_keeps)

lemma parse_keyword_frame:
  assumes "parse_keyword opt kw len cp s = Inr ((rv, t), s')"
  shows "same_env s s' \<and> suffix_of t cp"
proof -
  have ifdef: "same_env s s' \<and> suffix_of t cp"
    if "andthen (skipcomment opt cp s) (\<lambda>(cp1, s1).
             (let (cursym, s2) = findsym opt cp1 s1
              in Inr ((Dir (ifdef_type (kw ! 2 = CHR ''n'') cursym s2), skipsym cp1), s2)))
        = Inr ((rv, t), s')"
  proof -
    from that obtain cp1 s1 where k: "skipcomment opt cp s = Inr (cp1, s1)"
      and f: "snd (findsym opt cp1 s1) = s'" "t = skipsym cp1"
      by (auto simp: andthen_Inr_iff Let_def split_beta)
    then show ?thesis
      using same_env_skipcomment [OF k] same_env_findsym [of opt cp1 s1] skipsym_suffix
        skipcomment_suffix [OF k] same_env_trans suffix_of_trans
      by (metis prod.collapse)
  qed
  have dirty: "same_env s (s\<lparr>linestate := LS_DIRTY\<rparr>)" by (simp add: same_env_def)
  show ?thesis
    using assms ifdef ifeval_frame dirty
    unfolding parse_keyword_def
    by (auto simp: andthen_Inr_iff split: if_splits)
qed

lemma parse_keyword_type:
  assumes "parse_keyword opt kw len cp s = Inr ((rv, t), s')"
  shows "(\<exists>d. rv = Dir d) \<or> rv = LT_PLAIN"
proof -
  have ifeval: "\<exists>d. lt = Dir d" if "ifeval opt cp s = Inr ((lt, c), u)" for lt c u
    using ifeval_type [OF that] by (auto simp: decided_def)
  have elif: "\<exists>d'. elif_type (Dir d) = Dir d'" for d by (cases d) auto
  have "\<exists>d. elif_type lt = Dir d" if "ifeval opt cp s = Inr ((lt, c), u)" for lt c u
    using ifeval [OF that] elif by auto
  with ifeval assms show ?thesis
    unfolding parse_keyword_def by (simp add: andthen_Inr_iff Let_def split_beta split: if_splits) blast+
qed

lemma fgets_None: "1 < n \<Longrightarrow> fgets n inp = None \<longleftrightarrow> inp = []"
  by (simp add: fgets_def Let_def)

lemma fgets_Some:
  assumes "fgets n inp = Some (raw, rest)"
  shows "inp = raw @ rest" "1 < n \<Longrightarrow> raw \<noteq> []" "length raw < n"
proof -
  show len: "length raw < n"
    using assms by (auto simp: fgets_def Let_def split: if_splits)
  show ne: "raw \<noteq> []" if "1 < n"
    using assms that by (cases inp) (auto simp: fgets_def Let_def split: if_splits)
  show "inp = raw @ rest"
  proof (cases "n = 1")
    case True
    with assms show ?thesis by (simp add: fgets_def)
  next
    case False
    define l where "l = takeWhile (\<lambda>c. c \<noteq> CHR 0x0A) inp"
    define full where "full = (if length l < length inp then l @ LF else l)"
    have l: "l = take (length l) inp" unfolding l_def by (rule takeWhile_eq_take)
    have full: "\<exists>k. full = take k inp"
    proof (cases "length l < length inp")
      case True
      then have "inp ! length l = CHR 0x0A" using nth_length_takeWhile unfolding l_def by blast
      with l True have "full = take (Suc (length l)) inp"
        unfolding full_def by (simp add: take_Suc_conv_app_nth)
      then show ?thesis ..
    next
      case False
      with l show ?thesis unfolding full_def by (intro exI [where x = "length l"]) simp
    qed
    have r: "raw = take (n - 1) full" "rest = drop (length raw) inp"
      using assms False unfolding fgets_def Let_def full_def [symmetric] l_def [symmetric]
      by (auto split: if_splits)
    with full obtain j where "raw = take j inp" by (metis take_take)
    with r(2) show ?thesis by (auto simp: min_def)
  qed
qed

text \<open>Every part of \<open>parseline\<close> keeps the machine and the symbols.\<close>

lemma find_hash_frame:
  "find_hash opt s = Inr (cp, s') \<Longrightarrow> keeps s s' \<and> input s' = input s \<and> tline s' = tline s
     \<and> newline s' = newline s \<and> linenum s' = linenum s \<and> suffix_of cp (tline s)"
proof -
  assume "find_hash opt s = Inr (cp, s')"
  then obtain c t where c: "skipcomment opt (tline s) s = Inr (c, t)" and
    r: "(if linestate t = LS_START
       then (if c \<noteq> [] \<and> hd c = CHR ''#''
             then skipcomment opt (tl c) (t\<lparr>linestate := LS_HASH, firstsym := True\<rparr>)
             else if c \<noteq> [] then Inr (c, t\<lparr>linestate := LS_DIRTY\<rparr>)
             else Inr (c, t))
       else Inr (c, t)) = Inr (cp, s')"
    by (auto simp: find_hash_def andthen_Inr_iff)
  note k = keeps_skipcomment [OF c] and f = skipcomment_suffix [OF c]
  show ?thesis
  proof (cases "linestate t = LS_START \<and> c \<noteq> [] \<and> hd c = CHR ''#''")
    case True
    with r have c2: "skipcomment opt (tl c) (t\<lparr>linestate := LS_HASH, firstsym := True\<rparr>) = Inr (cp, s')"
      by simp
    have "keeps s (t\<lparr>linestate := LS_HASH, firstsym := True\<rparr>)" using k by simp
    with keeps_skipcomment [OF c2] have "keeps s s'" using keeps_trans by blast
    moreover have "suffix_of cp (tline s)"
      using f skipcomment_suffix [OF c2] suffix_of_trans suffix_of_tailed by blast
    ultimately show ?thesis using k keeps_skipcomment [OF c2] by simp
  qed (use r k f in \<open>auto split: if_splits\<close>)
qed

lemma directive_tail_frame:
  assumes "directive_tail was rv cp s = (rv', cp', s')"
  shows "keeps s s' \<and> (\<exists>raw. input s = raw @ input s') \<and> newline s' = newline s
    \<and> linenum s' = linenum s \<and> keyword s' = keyword s"
  using assms
  by (auto simp: directive_tail_def Let_def dest: fgets_Some(1)
      split: if_splits option.splits prod.splits)

lemma undecide_Dir: "(\<exists>d. rv = Dir d) \<or> rv = LT_PLAIN \<Longrightarrow> (\<exists>d. undecide rv = Dir d) \<or> undecide rv = LT_PLAIN"
  by (elim disjE exE, rename_tac d, case_tac d) auto

lemma directive_tail_type:
  assumes "directive_tail was rv cp s = (rv', cp', s')" "(\<exists>d. rv = Dir d) \<or> rv = LT_PLAIN"
  shows "rv' \<noteq> LT_EOF \<and> rv' \<noteq> LT_ERROR"
proof -
  have "rv' \<in> {rv, undecide rv, dodge rv, dodge (undecide rv)}"
    using assms(1) by (auto simp: directive_tail_def Let_def split: if_splits option.splits prod.splits)
  with assms(2) undecide_Dir [OF assms(2)] show ?thesis by auto
qed

lemma skip_rest_frame:
  "skip_rest opt cp s = Inr s' \<Longrightarrow> keeps s s' \<and> input s' = input s \<and> tline s' = tline s
     \<and> newline s' = newline s \<and> linenum s' = linenum s \<and> keyword s' = keyword s"
proof (induction opt cp s rule: skip_rest.induct)
  case (1 opt cp s)
  show ?case
  proof (cases "cp = []")
    case True
    with 1(2) show ?thesis by (simp add: skip_rest.simps)
  next
    case False
    with 1(2) obtain c t where c: "skipcomment opt (tl cp) s = Inr (c, t)"
      and r: "skip_rest opt c t = Inr s'"
      unfolding skip_rest.simps [of opt cp s] by (auto simp: andthen_Inr_iff)
    from 1(1) [OF False c refl r] keeps_skipcomment [OF c] show ?thesis
      using keeps_trans by metis
  qed
qed

lemma parse_directive_frame:
  assumes "parse_directive opt was cp s = Inr ((rv, t), s')"
  shows "keeps s s' \<and> (\<exists>raw. input s = raw @ input s') \<and> newline s' = newline s
    \<and> linenum s' = linenum s \<and> keyword s' = length (tline s) - length cp \<and> rv \<noteq> LT_EOF \<and> rv \<noteq> LT_ERROR"
proof -
  let ?s1 = "s\<lparr>keyword := length (tline s) - length cp\<rparr>"
  obtain rv1 cp2 s2 cp3 s3 where
    1: "parse_keyword opt cp (length cp - length (skipsym cp)) (skipsym cp) ?s1 = Inr ((rv1, cp2), s2)" and
    2: "skipcomment opt cp2 s2 = Inr (cp3, s3)" and
    3: "directive_tail was rv1 cp3 s3 = (rv, t, s')"
    using assms
    unfolding parse_directive_def error_def Let_def
    by (auto simp: andthen_Inr_iff split_beta split: if_splits)
  note k1 = same_env_keeps [OF conjunct1 [OF parse_keyword_frame [OF 1]]]
  note k2 = keeps_skipcomment [OF 2] and k3 = directive_tail_frame [OF 3]
  have "keeps s ?s1" by simp
  with k1 k2 k3 have "keeps s s'" using keeps_trans by blast
  then show ?thesis
    using k1 k2 k3 directive_tail_type [OF 3 parse_keyword_type [OF 1]] by auto
qed

lemma read_line_simps [simp]:
  "keeps s (read_line raw rest t) = keeps s t" "input (read_line raw rest t) = rest"
  "tline (read_line raw rest t) = c_string raw" "linenum (read_line raw rest t) = linenum t"
  "incomment (read_line raw rest t) = incomment t" "linestate (read_line raw rest t) = linestate t"
  "newline (read_line raw rest t) \<noteq> None" "written (read_line raw rest t) = written t"
  "keyword (read_line raw rest t) = keyword t"
  by (auto simp: read_line_def Let_def)

lemma parseline_parts:
  assumes "parseline opt s = Inr (lt, s')" "input s \<noteq> []"
  obtains raw rest cp s2 cp1 s3 where
    "fgets MAXLINE (input s) = Some (raw, rest)"
    "find_hash opt (read_line raw rest (s\<lparr>linenum := linenum s + 1\<rparr>)) = Inr (cp, s2)"
    "(if incomment s2 = NO_COMMENT \<and> linestate s2 = LS_HASH
      then parse_directive opt (incomment s \<noteq> NO_COMMENT) cp s2 else Inr ((LT_PLAIN, cp), s2))
     = Inr ((lt, cp1), s3)"
    "(if linestate s3 = LS_DIRTY then skip_rest opt cp1 s3 else Inr s3) = Inr s'"
proof -
  have "fgets MAXLINE (input s) \<noteq> None" using assms(2) by (simp add: fgets_None MAXLINE_def)
  then obtain raw rest where f: "fgets MAXLINE (input s) = Some (raw, rest)" by auto
  with assms(1) obtain cp s2 cp1 s3 where
    "find_hash opt (read_line raw rest (s\<lparr>linenum := linenum s + 1\<rparr>)) = Inr (cp, s2)"
    "(if incomment s2 = NO_COMMENT \<and> linestate s2 = LS_HASH
      then parse_directive opt (incomment s \<noteq> NO_COMMENT) cp s2 else Inr ((LT_PLAIN, cp), s2))
     = Inr ((lt, cp1), s3)"
    "(if linestate s3 = LS_DIRTY then skip_rest opt cp1 s3 else Inr s3) = Inr s'"
    by (auto simp: parseline_def Let_def andthen_Inr_iff cong: if_cong)
  with f that show thesis by blast
qed

lemma parseline_EOF:
  assumes "input s = []"
  shows "parseline opt s = Inr (LT_EOF, s\<lparr>linenum := linenum s + 1\<rparr>)"
  using assms by (simp add: parseline_def Let_def fgets_def MAXLINE_def)

lemma parseline_frame:
  assumes "parseline opt s = Inr (lt, s')" "input s \<noteq> []"
  shows "keeps s s' \<and> length (input s') < length (input s) \<and> newline s' \<noteq> None
    \<and> linenum s' = linenum s + 1 \<and> lt \<noteq> LT_EOF \<and> lt \<noteq> LT_ERROR"
proof -
  obtain raw rest cp s2 cp1 s3 where
    1: "fgets MAXLINE (input s) = Some (raw, rest)" and
    2: "find_hash opt (read_line raw rest (s\<lparr>linenum := linenum s + 1\<rparr>)) = Inr (cp, s2)" and
    3: "(if incomment s2 = NO_COMMENT \<and> linestate s2 = LS_HASH
      then parse_directive opt (incomment s \<noteq> NO_COMMENT) cp s2 else Inr ((LT_PLAIN, cp), s2))
     = Inr ((lt, cp1), s3)" and
    4: "(if linestate s3 = LS_DIRTY then skip_rest opt cp1 s3 else Inr s3) = Inr s'"
    by (rule parseline_parts [OF assms])
  note f = find_hash_frame [OF 2]
  have a: "keeps s s2" "input s2 = rest" "newline s2 \<noteq> None" "linenum s2 = linenum s + 1"
    using f keeps_trans [of s "read_line raw rest (s\<lparr>linenum := linenum s + 1\<rparr>)" s2] by simp_all
  have b: "keeps s2 s3 \<and> (\<exists>raw. input s2 = raw @ input s3) \<and> newline s3 = newline s2
      \<and> linenum s3 = linenum s2 \<and> lt \<noteq> LT_EOF \<and> lt \<noteq> LT_ERROR"
  proof (cases "incomment s2 = NO_COMMENT \<and> linestate s2 = LS_HASH")
    case True
    with 3 have "parse_directive opt (incomment s \<noteq> NO_COMMENT) cp s2 = Inr ((lt, cp1), s3)" by simp
    from parse_directive_frame [OF this] show ?thesis by blast
  next
    case False
    with 3 have "s3 = s2" "lt = LT_PLAIN" by (simp_all split: if_splits)
    then show ?thesis by simp
  qed
  have c: "keeps s3 s' \<and> input s' = input s3 \<and> newline s' = newline s3 \<and> linenum s' = linenum s3"
    using 4 skip_rest_frame [of opt cp1 s3 s'] by (cases "linestate s3 = LS_DIRTY") simp_all
  have "raw \<noteq> []" "input s = raw @ rest"
    using fgets_Some [OF 1] by (simp_all add: MAXLINE_def)
  moreover have "keeps s s'" using a b c keeps_trans by blast
  ultimately show ?thesis using a b c by auto
qed

section \<open>The driver\<close>

text \<open>\<open>flushline\<close> changes the output and its counters only.\<close>

lemma flushline_fields [simp]:
  "input (flushline opt k s) = input s" "depth (flushline opt k s) = depth s"
  "ifstate (flushline opt k s) = ifstate s" "ignoring (flushline opt k s) = ignoring s"
  "stifline (flushline opt k s) = stifline s" "tline (flushline opt k s) = tline s"
  "keyword (flushline opt k s) = keyword s" "newline (flushline opt k s) = newline s"
  "incomment (flushline opt k s) = incomment s" "linestate (flushline opt k s) = linestate s"
  "symbols (flushline opt k s) = symbols s" "linenum (flushline opt k s) = linenum s"
  by (simp_all add: flushline_def symbols_def Let_def)

lemmas step_defs = flush_off_state_def flush_state_def begin_group_def with_ignore_def
  unless_iocccok_def edit_if_def keywordedit_def nest_def unnest_def ignoreoff_def ignoreon_def
  state_def error_def

text \<open>
  What a transition does to the stack of states: nothing, a new state on top, one more level,
  one level less; \<open>None\<close> for the functions that stop.
\<close>

datatype effect = Stay | Set Ifstate | Push Ifstate | Pop

fun effect_of :: "state_fn \<Rightarrow> effect option" where
  "effect_of print = Some Stay"
| "effect_of drop_line = Some Stay"
| "effect_of Strue = Some (Set IS_TRUE_PREFIX)"
| "effect_of Sfalse = Some (Set IS_FALSE_PREFIX)"
| "effect_of Selse = Some (Set IS_TRUE_ELSE)"
| "effect_of Pelif = Some (Set IS_PASS_MIDDLE)"
| "effect_of Pelse = Some (Set IS_PASS_ELSE)"
| "effect_of Pendif = Some Pop"
| "effect_of Dfalse = Some (Set IS_FALSE_TRAILER)"
| "effect_of Delif = Some (Set IS_FALSE_MIDDLE)"
| "effect_of Delse = Some (Set IS_FALSE_ELSE)"
| "effect_of Dendif = Some Pop"
| "effect_of Fdrop = Some (Push IS_FALSE_TRAILER)"
| "effect_of Fpass = Some (Push IS_PASS_MIDDLE)"
| "effect_of Ftrue = Some (Push IS_TRUE_PREFIX)"
| "effect_of Ffalse = Some (Push IS_FALSE_PREFIX)"
| "effect_of Oiffy = Some (Push IS_PASS_MIDDLE)"
| "effect_of Oif = Some (Push IS_PASS_MIDDLE)"
| "effect_of Oelif = Some (Set IS_PASS_MIDDLE)"
| "effect_of Idrop = Some (Push IS_FALSE_TRAILER)"
| "effect_of Itrue = Some (Push IS_TRUE_PREFIX)"
| "effect_of Ifalse = Some (Push IS_FALSE_PREFIX)"
| "effect_of Mpass = Some (Set IS_PASS_MIDDLE)"
| "effect_of Mtrue = Some (Set IS_TRUE_MIDDLE)"
| "effect_of Melif = Some (Set IS_FALSE_TRAILER)"
| "effect_of Melse = Some (Set IS_FALSE_ELSE)"
| "effect_of _ = None"

definition has_effect :: "effect option \<Rightarrow> ustate \<Rightarrow> ustate \<Rightarrow> bool" where
  "has_effect e s s' \<longleftrightarrow>
     (case e of
        Some Stay \<Rightarrow> depth s' = depth s \<and> ifstate s' = ifstate s
      | Some (Set x) \<Rightarrow> depth s' = depth s \<and> ifstate s' = (ifstate s)(depth s := x)
      | Some (Push x) \<Rightarrow> depth s < MAXDEPTH - 1 \<and> depth s' = depth s + 1
          \<and> ifstate s' = (ifstate s)(depth s + 1 := x)
      | Some Pop \<Rightarrow> 0 < depth s \<and> depth s' = depth s - 1 \<and> ifstate s' = ifstate s
      | None \<Rightarrow> False)"

lemma flush_off_effect:
  "flush_off_state opt k x s = Inr s' \<Longrightarrow> input s' = input s \<and> has_effect (Some (Set x)) s s'"
  by (auto simp: flush_off_state_def ignoreoff_def state_def has_effect_def split: if_splits)

lemma flush_effect:
  "flush_state opt k x s = Inr s' \<Longrightarrow> input s' = input s \<and> has_effect (Some (Set x)) s s'"
  by (auto simp: flush_state_def state_def has_effect_def)

lemma unnest_effect:
  "unnest (flushline opt k s) = Inr s' \<Longrightarrow> input s' = input s \<and> has_effect (Some Pop) s s'"
  by (auto simp: unnest_def has_effect_def split: if_splits)

lemma begin_effect:
  "begin_group opt k x s = Inr s' \<Longrightarrow> input s' = input s \<and> has_effect (Some (Push x)) s s'"
  by (auto simp: begin_group_def nest_def error_def flush_off_state_def ignoreoff_def state_def
      has_effect_def MAXDEPTH_def split: if_splits)

lemma ignoreon_effect: "has_effect e s (ignoreon s') = has_effect e s s'" "input (ignoreon s') = input s'"
  by (auto simp: has_effect_def ignoreon_def split: option.splits effect.splits)

lemma run_fn_effect:
  assumes "run_fn f opt s = Inr s'"
  shows "input s' = input s \<and> has_effect (effect_of f) s s'"
  using assms
proof (cases f)
  case Mpass
  with assms flush_off_effect [of opt True IS_PASS_MIDDLE "edit_if s" s'] show ?thesis
    by (simp add: edit_if_def has_effect_def)
next
  case Mtrue
  with assms show ?thesis by (auto simp: keywordedit_def state_def has_effect_def)
next
  case Melif
  with assms show ?thesis by (auto simp: keywordedit_def state_def has_effect_def)
next
  case Melse
  with assms show ?thesis by (auto simp: keywordedit_def state_def has_effect_def)
next
  case print
  with assms show ?thesis by (auto simp: has_effect_def)
next
  case drop_line
  with assms show ?thesis by (auto simp: has_effect_def)
qed (simp_all add: error_def with_ignore_def unless_iocccok_def andthen_Inr_iff split: if_splits,
  (auto dest!: flush_off_effect flush_effect unnest_effect begin_effect simp: ignoreon_effect)+)

lemma run_fn_input: "run_fn f opt s = Inr s' \<Longrightarrow> input s' = input s"
  by (drule run_fn_effect) simp

lemma trans_table_EOF: "trans_table is LT_EOF \<in> {done_fn, Eeof}"
  by (cases "is") (simp_all add: trans_table_def)

lemma run_EOF: "\<exists>e. run_fn (trans_table is LT_EOF) opt s = Inl e"
  using trans_table_EOF [of "is"] by (auto simp: error_def)

text \<open>
  The loop of \<open>process\<close> only ends when a function of the table exits; the result is the reason.
  At the end of the input every row of the table has such a function.
\<close>

function process_loop :: "options \<Rightarrow> ustate \<Rightarrow> stop" where
  "process_loop opt s =
     (case parseline opt s of
        Inl e \<Rightarrow> e
      | Inr (lineval, s1) \<Rightarrow>
          (case run_fn (trans_table (ifstate s1 (depth s1)) lineval) opt s1 of
             Inl e \<Rightarrow> e
           | Inr s2 \<Rightarrow> process_loop opt s2))"
  by pat_completeness auto
termination
proof (relation "measure (\<lambda>(opt, s). length (input s))", goal_cases)
  case (2 opt s p lt s1 s2)
  show ?case
  proof (cases "input s = []")
    case True
    with 2(1,2) have "lt = LT_EOF" by (auto simp: parseline_EOF)
    with 2(3) run_EOF [of "ifstate s1 (depth s1)" opt s1] show ?thesis by simp
  next
    case False
    with 2 parseline_frame [of opt s lt s1] run_fn_input [OF 2(3)] show ?thesis by simp
  qed
qed simp

declare process_loop.simps [simp del]

definition process :: "options \<Rightarrow> ustate \<Rightarrow> stop" where
  "process opt s = process_loop opt (s\<lparr>blankcount := 1000, blankmax := 1000\<rparr>)"

section \<open>The invariant of the stack\<close>

text \<open>The depth indexes the arrays, and the bottom of the stack is the only \<open>IS_OUTSIDE\<close>.\<close>

definition wf_machine :: "ustate \<Rightarrow> bool" where
  "wf_machine s \<longleftrightarrow> depth s < MAXDEPTH \<and> ifstate s 0 = IS_OUTSIDE
     \<and> (\<forall>d. 0 < d \<and> d \<le> depth s \<longrightarrow> ifstate s d \<noteq> IS_OUTSIDE)"

definition effect_allowed :: "bool \<Rightarrow> effect option \<Rightarrow> bool" where
  "effect_allowed outside e \<longleftrightarrow>
     (case e of
        Some (Set x) \<Rightarrow> \<not> outside \<and> x \<noteq> IS_OUTSIDE
      | Some (Push x) \<Rightarrow> x \<noteq> IS_OUTSIDE
      | Some Pop \<Rightarrow> \<not> outside
      | _ \<Rightarrow> True)"

lemma trans_table_allowed:
  "lt \<noteq> LT_ERROR \<Longrightarrow> effect_allowed (is = IS_OUTSIDE) (effect_of (trans_table is lt))
     \<and> trans_table is lt \<noteq> abort_fn"
proof (cases lt)
  case (Dir d)
  then show ?thesis by (cases "is"; cases d; simp add: trans_table_def effect_allowed_def)
next
  case (LT_DODGY d)
  then show ?thesis by (cases "is"; cases d; simp add: trans_table_def effect_allowed_def)
qed (cases "is"; simp add: trans_table_def effect_allowed_def)+

lemma effect_keeps_wf:
  assumes "wf_machine s" "has_effect e s s'" "effect_allowed (depth s = 0) e"
  shows "wf_machine s'"
  using assms
  by (cases e; cases "the e") (auto simp: wf_machine_def has_effect_def effect_allowed_def)

lemma wf_outside: "wf_machine s \<Longrightarrow> (ifstate s (depth s) = IS_OUTSIDE) = (depth s = 0)"
  by (auto simp: wf_machine_def)

lemma run_keeps_wf:
  assumes "wf_machine s" "lt \<noteq> LT_ERROR" "run_fn (trans_table (ifstate s (depth s)) lt) opt s = Inr s'"
  shows "wf_machine s'"
proof (rule effect_keeps_wf [OF assms(1) conjunct2 [OF run_fn_effect [OF assms(3)]]])
  show "effect_allowed (depth s = 0) (effect_of (trans_table (ifstate s (depth s)) lt))"
    using trans_table_allowed [OF assms(2), of "ifstate s (depth s)"]
    unfolding wf_outside [OF assms(1)] by blast
qed

lemma parts_abort:
  "flush_off_state opt k x s = Inl e \<Longrightarrow> e = Abort \<and> depth s = 0"
  "unnest (flushline opt k s) = Inl e \<Longrightarrow> e = Abort \<and> depth s = 0"
  "depth s < MAXDEPTH \<Longrightarrow> begin_group opt k x s = Inl e \<Longrightarrow> \<exists>m. e = Error m s"
  by (auto simp: flush_off_state_def ignoreoff_def unnest_def begin_group_def nest_def error_def
      MAXDEPTH_def andthen_Inl_iff andthen_Inr_iff split: if_splits)

lemma run_fn_stop:
  assumes "run_fn f opt s = Inl e" "depth s < MAXDEPTH"
  shows "e = Abort \<and> (f = abort_fn \<or> depth s = 0 \<and> (\<exists>x. effect_of f \<in> {Some Pop, Some (Set x)}))
    \<or> (\<exists>m u. e = Error m u) \<or> (f = done_fn \<and> (\<exists>u. e = Done u))"
  using assms
  by (cases f; simp add: error_def with_ignore_def unless_iocccok_def andthen_Inl_iff flush_state_def
      split: if_splits)
    (auto dest!: parts_abort simp: edit_if_def)

lemma run_fn_abort:
  assumes "run_fn f opt s = Inl Abort" "depth s < MAXDEPTH"
  shows "f = abort_fn \<or> (depth s = 0 \<and> (effect_of f = Some Pop \<or> (\<exists>x. effect_of f = Some (Set x))))"
  using run_fn_stop [OF assms] by auto

lemma run_no_abort:
  assumes "wf_machine s" "lt \<noteq> LT_ERROR"
  shows "run_fn (trans_table (ifstate s (depth s)) lt) opt s \<noteq> Inl Abort"
proof
  assume a: "run_fn (trans_table (ifstate s (depth s)) lt) opt s = Inl Abort"
  have "depth s < MAXDEPTH" using assms(1) by (simp add: wf_machine_def)
  from run_fn_abort [OF a this] trans_table_allowed [OF assms(2), of "ifstate s (depth s)"]
    wf_outside [OF assms(1)]
  show False by (auto simp: effect_allowed_def)
qed

lemma keeps_wf: "keeps s s' \<Longrightarrow> wf_machine s' = wf_machine s"
  by (simp add: keeps_def machine_def wf_machine_def)

text \<open>No part of \<open>parseline\<close> aborts or runs out of fuel.\<close>

definition proper :: "stop \<Rightarrow> bool" where
  "proper e \<longleftrightarrow> e \<noteq> Abort \<and> e \<noteq> Out_of_fuel"

lemma skipcomment_proper: "skipcomment opt cp s = Inl e \<Longrightarrow> proper e"
  by (auto simp: skipcomment_def error_def proper_def split: if_splits prod.splits sum.splits)

lemma skip_rest_proper: "skip_rest opt cp s = Inl e \<Longrightarrow> proper e"
proof (induction opt cp s rule: skip_rest.induct)
  case (1 opt cp s)
  then show ?case
    unfolding skip_rest.simps [of opt cp s]
    by (auto simp: andthen_Inl_iff dest: skipcomment_proper split: if_splits)
qed

end
