(* ===== verification/Unifdef_Run.thy ===== *)
theory Unifdef_Run
  imports Unifdef_Machine
begin

text \<open>
  A whole run of \<open>unifdef.c\<close>: the parts of \<open>parseline\<close> only stop with a message of \<open>error\<close>, and
  from a well-formed stack the driver ends with such a message or in \<open>done\<close> at the end of the
  input, outside every group and comment; \<open>abort\<close> is never reached.
\<close>

definition is_error :: "stop \<Rightarrow> bool" where
  "is_error e \<longleftrightarrow> (\<exists>m u. e = Error m u)"

lemma is_error_Error [simp]: "is_error (Error m u)"
  by (simp add: is_error_def)

lemma skipcomment_error: "skipcomment opt cp s = Inl e \<Longrightarrow> is_error e"
  by (auto simp: skipcomment_def error_def split: if_splits prod.splits sum.splits)

lemma skipargs_loop_error: "skipargs_loop opt l cp s = Inl e \<Longrightarrow> is_error e"
proof (induction opt l cp s rule: skipargs_loop.induct)
  case (1 opt level cp s)
  then show ?case
    unfolding skipargs_loop.simps [of opt level cp s]
    by (auto simp: andthen_Inl_iff Let_def dest: skipcomment_error split: if_splits)
qed

lemma skipargs_error: "skipargs opt cp s = Inl e \<Longrightarrow> is_error e"
  by (auto simp: skipargs_def andthen_Inl_iff dest: skipcomment_error skipargs_loop_error split: if_splits)

lemma leaves_error:
  "eval_number cp v s = Inl e \<Longrightarrow> is_error e" "eval_defined opt cp v s = Inl e \<Longrightarrow> is_error e"
  "eval_symbol opt cp v s = Inl e \<Longrightarrow> is_error e" "unary_not r = Inl e \<Longrightarrow> is_error e"
  "unary_close opt r = Inl e \<Longrightarrow> is_error e"
      apply (simp add: eval_number_def Let_def split_beta split: if_splits)
     apply (auto simp: eval_defined_def andthen_Inl_iff Let_def split_beta dest: skipcomment_error
      split: if_splits)[1]
    apply (auto simp: eval_symbol_def andthen_Inl_iff Let_def split_beta dest: skipargs_error
      split: if_splits option.splits)[1]
   apply (simp add: unary_not_def Let_def split_beta split: if_splits)
  apply (auto simp: unary_close_def andthen_Inl_iff Let_def split_beta dest: skipcomment_error
      split: if_splits)[1]
  done

definition rec_error :: "ev_fn \<Rightarrow> bool" where
  "rec_error rec \<longleftrightarrow> (\<forall>call v cp s e. rec call v cp s = Inl e \<longrightarrow> e = Out_of_fuel \<or> is_error e)"

lemma bodies_error:
  assumes "rec_error rec"
  shows "unary_body rec opt v cp s = Inl e \<Longrightarrow> e = Out_of_fuel \<or> is_error e"
    "table_body rec k v cp s = Inl e \<Longrightarrow> e = Out_of_fuel \<or> is_error e"
    "loop_body rec opt k lt v cp s = Inl e \<Longrightarrow> e = Out_of_fuel \<or> is_error e"
proof -
  note r = assms [unfolded rec_error_def, rule_format]
  show "unary_body rec opt v cp s = Inl e \<Longrightarrow> e = Out_of_fuel \<or> is_error e"
    by (auto simp: unary_body_def andthen_Inl_iff dest: r skipcomment_error leaves_error split: if_splits)
  show "table_body rec k v cp s = Inl e \<Longrightarrow> e = Out_of_fuel \<or> is_error e"
    by (auto simp: table_body_def andthen_Inl_iff dest: r split: if_splits)
  show "loop_body rec opt k lt v cp s = Inl e \<Longrightarrow> e = Out_of_fuel \<or> is_error e"
    by (auto simp: loop_body_def andthen_Inl_iff Let_def split_beta dest: r skipcomment_error
        split: if_splits option.splits)
qed

lemma eval_error: "rec_error (eval n opt)"
proof (induction n)
  case (Suc n)
  show ?case
    unfolding rec_error_def
  proof (intro allI impI)
    fix call v cp s e
    assume "eval (Suc n) opt call v cp s = Inl e"
    then show "e = Out_of_fuel \<or> is_error e" using bodies_error [OF Suc] by (cases call) auto
  qed
qed (simp add: rec_error_def)

lemma ifeval_error: "ifeval opt cp s = Inl e \<Longrightarrow> is_error e"
  using eval_error [of "eval_fuel cp" opt] ifeval_fuel [of opt cp s]
  by (fastforce simp: ifeval_def andthen_Inl_iff rec_error_def)

lemma parse_keyword_error: "parse_keyword opt kw len cp s = Inl e \<Longrightarrow> is_error e"
  by (auto simp: parse_keyword_def andthen_Inl_iff Let_def split_beta dest: skipcomment_error ifeval_error
      split: if_splits)

lemma parse_directive_error: "parse_directive opt was cp s = Inl e \<Longrightarrow> is_error e"
  by (auto simp: parse_directive_def andthen_Inl_iff Let_def error_def split_beta
      dest: skipcomment_error parse_keyword_error split: if_splits)

lemma skip_rest_error: "skip_rest opt cp s = Inl e \<Longrightarrow> is_error e"
proof (induction opt cp s rule: skip_rest.induct)
  case (1 opt cp s)
  then show ?case
    unfolding skip_rest.simps [of opt cp s]
    by (auto simp: andthen_Inl_iff dest: skipcomment_error split: if_splits)
qed

lemma find_hash_error: "find_hash opt s = Inl e \<Longrightarrow> is_error e"
  by (auto simp: find_hash_def andthen_Inl_iff dest: skipcomment_error split: if_splits)

lemma parseline_error: "parseline opt s = Inl e \<Longrightarrow> is_error e"
  by (auto simp: parseline_def andthen_Inl_iff Let_def split_beta
      dest: find_hash_error parse_directive_error skip_rest_error
      split: if_splits option.splits)

lemma parseline_wf:
  assumes "parseline opt s = Inr (lt, s')" "wf_machine s"
  shows "wf_machine s' \<and> lt \<noteq> LT_ERROR"
proof (cases "input s = []")
  case True
  with assms show ?thesis by (auto simp: parseline_EOF wf_machine_def)
next
  case False
  from parseline_frame [OF assms(1) False] assms(2) show ?thesis by (auto simp: keeps_wf)
qed

text \<open>The result of a run: an error with its message, or \<open>done\<close> with nothing left open.\<close>

lemma process_loop_result:
  "wf_machine s \<Longrightarrow> is_error (process_loop opt s)
     \<or> (\<exists>u. process_loop opt s = Done (closeout opt u) \<and> depth u = 0 \<and> incomment u = NO_COMMENT
            \<and> input u = [])"
proof (induction opt s rule: process_loop.induct)
  case (1 opt s)
  show ?case
  proof (cases "parseline opt s")
    case (Inl e)
    then show ?thesis using parseline_error by (simp add: process_loop.simps)
  next
    case (Inr p)
    then obtain lt s1 where p: "parseline opt s = Inr (lt, s1)" by (cases p) auto
    note wf = parseline_wf [OF p 1(2)]
    let ?f = "trans_table (ifstate s1 (depth s1)) lt"
    show ?thesis
    proof (cases "run_fn ?f opt s1")
      case r: (Inr s2)
      have "wf_machine s2" using run_keeps_wf [OF _ _ r] wf by blast
      with 1(1) [OF p refl r] p r show ?thesis by (simp add: process_loop.simps [of opt s])
    next
      case r: (Inl e)
      have d: "depth s1 < MAXDEPTH" using wf by (simp add: wf_machine_def)
      have "e \<noteq> Abort" using run_no_abort [of s1 lt opt] wf r by auto
      then consider "is_error e" | "?f = done_fn" "\<exists>u. e = Done u"
        using run_fn_stop [OF r d] by (auto simp: is_error_def)
      then show ?thesis
      proof cases
        case 2
        have "lt = LT_EOF \<and> ifstate s1 (depth s1) = IS_OUTSIDE"
        proof (cases lt)
          case (Dir x)
          with 2(1) show ?thesis
            by (cases "ifstate s1 (depth s1)"; cases x; simp add: trans_table_def)
        next
          case (LT_DODGY x)
          with 2(1) show ?thesis
            by (cases "ifstate s1 (depth s1)"; cases x; simp add: trans_table_def)
        qed (use 2(1) wf in \<open>cases "ifstate s1 (depth s1)"; simp add: trans_table_def\<close>)+
        then have o: "depth s1 = 0" "lt = LT_EOF" using wf wf_outside by auto
        have "input s = []" using parseline_frame [OF p] o(2) by blast
        then have "input s1 = []" using p by (auto simp: parseline_EOF)
        with r 2 o p show ?thesis
          by (auto simp: process_loop.simps [of opt s] error_def split: if_splits)
      qed (use p r in \<open>simp add: process_loop.simps [of opt s]\<close>)
    qed
  qed
qed

end
