(* ===== verification/Unifdef_Cpp.thy ===== *)
theory Unifdef_Cpp
  imports Unifdef_Run
begin

text \<open>
  The meaning of \<open>unifdef.c\<close>: a reference semantics of conditional directives, a relation between
  the stack of the state machine and the nesting that the C preprocessor sees in the input and in
  the output, and the simulation of every entry of the transition table.
\<close>

section \<open>The preprocessor on lines\<close>

text \<open>
  A line as the C preprocessor sees it, with the truth of its condition where it has one, and
  the text it has.
\<close>

datatype kind = KIf bool | KElif bool | KElse | KEndif | KPlain

type_synonym pline = "kind \<times> cstr"

text \<open>
  A level of nesting: whether the group is in active text, whether a part of it has been taken,
  whether the current part is active, and whether its \<open>#else\<close> has been seen.
\<close>

type_synonym frame = "bool \<times> bool \<times> bool \<times> bool"

fun active :: "frame list \<Rightarrow> bool" where
  "active [] = True"
| "active ((outer, taken, cur, els) # fs) = cur"

fun cpp_line :: "frame list \<Rightarrow> kind \<Rightarrow> frame list option" where
  "cpp_line fs (KIf b) = Some ((active fs, b, active fs \<and> b, False) # fs)"
| "cpp_line ((out, tk, cur, False) # fs) (KElif b) = Some ((out, tk \<or> b, out \<and> \<not> tk \<and> b, False) # fs)"
| "cpp_line ((out, tk, cur, False) # fs) KElse = Some ((out, True, out \<and> \<not> tk, True) # fs)"
| "cpp_line (f # fs) KEndif = Some fs"
| "cpp_line fs KPlain = Some fs"
| "cpp_line _ _ = None"

fun cpp :: "frame list \<Rightarrow> pline list \<Rightarrow> (cstr list \<times> frame list) option" where
  "cpp fs [] = Some ([], fs)"
| "cpp fs ((k, t) # ls) =
     do { fs' \<leftarrow> cpp_line fs k;
          (out, fs'') \<leftarrow> cpp fs' ls;
          Some ((if k = KPlain \<and> active fs then t # out else out), fs'') }"

lemma cpp_append:
  "cpp fs (a @ b) = do { (o1, fs1) \<leftarrow> cpp fs a; (o2, fs2) \<leftarrow> cpp fs1 b; Some (o1 @ o2, fs2) }"
proof (induction fs a rule: cpp.induct)
  case (2 fs k t ls)
  show ?case
  proof (cases "cpp_line fs k")
    case (Some fs')
    with 2 show ?thesis by (cases "cpp fs' ls"; cases "cpp (snd (the (cpp fs' ls))) b") (auto simp: split_beta)
  qed simp
qed (auto simp: split_beta split: option.split)

section \<open>What a transition prints\<close>

datatype emit = E_none | E_line | E_if | E_else | E_endif

fun emit_of :: "state_fn \<Rightarrow> emit" where
  "emit_of print = E_line"
| "emit_of Pelif = E_line"
| "emit_of Pelse = E_line"
| "emit_of Pendif = E_line"
| "emit_of Fpass = E_line"
| "emit_of Oiffy = E_line"
| "emit_of Oif = E_line"
| "emit_of Oelif = E_line"
| "emit_of Mpass = E_if"
| "emit_of Mtrue = E_else"
| "emit_of Melif = E_endif"
| "emit_of Melse = E_endif"
| "emit_of _ = E_none"

text \<open>The kind of an input line whose condition has the truth \<open>b\<close>, and of what is printed.\<close>

fun kind_of_directive :: "directive \<Rightarrow> bool \<Rightarrow> kind" where
  "kind_of_directive LT_ELIF b = KElif b"
| "kind_of_directive LT_ELTRUE b = KElif b"
| "kind_of_directive LT_ELFALSE b = KElif b"
| "kind_of_directive LT_ELSE b = KElse"
| "kind_of_directive LT_ENDIF b = KEndif"
| "kind_of_directive _ b = KIf b"

fun kind_of :: "Linetype \<Rightarrow> bool \<Rightarrow> kind" where
  "kind_of (Dir d) b = kind_of_directive d b"
| "kind_of (LT_DODGY d) b = kind_of_directive d b"
| "kind_of _ b = KPlain"

fun emitted :: "emit \<Rightarrow> Linetype \<Rightarrow> bool \<Rightarrow> kind list" where
  "emitted E_none lt b = []"
| "emitted E_line lt b = [kind_of lt b]"
| "emitted E_if lt b = [KIf b]"
| "emitted E_else lt b = [KElse]"
| "emitted E_endif lt b = [KEndif]"

text \<open>A truth value agrees with what the line type says about the condition.\<close>

fun agrees :: "Linetype \<Rightarrow> bool \<Rightarrow> bool" where
  "agrees (Dir LT_TRUE) b = b"
| "agrees (Dir LT_TRUEI) b = b"
| "agrees (Dir LT_ELTRUE) b = b"
| "agrees (Dir LT_FALSE) b = (\<not> b)"
| "agrees (Dir LT_FALSEI) b = (\<not> b)"
| "agrees (Dir LT_ELFALSE) b = (\<not> b)"
| "agrees _ b = True"

section \<open>The simulation\<close>

text \<open>States in which plain lines are printed.\<close>

definition printing :: "Ifstate \<Rightarrow> bool" where
  "printing is \<longleftrightarrow> is \<in> {IS_OUTSIDE, IS_TRUE_PREFIX, IS_PASS_MIDDLE, IS_TRUE_MIDDLE, IS_PASS_ELSE, IS_TRUE_ELSE}"

text \<open>
  The stack of the machine, the frames of the input and the frames of the output. The output has
  a frame for a group exactly in the states with \<open>PASS\<close> or \<open>MIDDLE\<close> in their name.
\<close>

fun related :: "Ifstate list \<Rightarrow> frame list \<Rightarrow> frame list \<Rightarrow> bool" where
  "related [st] [] os = (st = IS_OUTSIDE \<and> os = [])"
| "related (st # sts) ((out, tk, cur, els) # fs) os =
     (out = active fs \<and>
      (case st of
         IS_OUTSIDE \<Rightarrow> False
       | IS_FALSE_PREFIX \<Rightarrow> printing (hd sts) \<and> \<not> tk \<and> \<not> cur \<and> \<not> els \<and> related sts fs os
       | IS_TRUE_PREFIX \<Rightarrow> printing (hd sts) \<and> tk \<and> cur = out \<and> \<not> els \<and> related sts fs os
       | IS_TRUE_ELSE \<Rightarrow> printing (hd sts) \<and> cur = out \<and> els \<and> related sts fs os
       | IS_FALSE_ELSE \<Rightarrow> \<not> cur \<and> els \<and> related sts fs os
       | IS_FALSE_TRAILER \<Rightarrow> (tk \<or> \<not> out) \<and> \<not> cur \<and> \<not> els \<and> related sts fs os
       | _ \<Rightarrow>
          (case os of
             [] \<Rightarrow> False
           | (out', tk', cur', els') # os' \<Rightarrow>
               printing (hd sts) \<and> related sts fs os' \<and> out' = out \<and>
               (case st of
                  IS_PASS_MIDDLE \<Rightarrow> tk' = tk \<and> cur' = cur \<and> \<not> els \<and> \<not> els'
                | IS_FALSE_MIDDLE \<Rightarrow> tk' = tk \<and> \<not> cur \<and> \<not> els \<and> \<not> els'
                | IS_TRUE_MIDDLE \<Rightarrow> tk \<and> cur' = cur \<and> \<not> els
                | _ \<Rightarrow> cur' = cur \<and> els \<and> els'))))"
| "related _ _ _ = False"

lemma related_active:
  "related sts fs os \<Longrightarrow> (printing (hd sts) \<longrightarrow> active os = active fs) \<and> (\<not> printing (hd sts) \<longrightarrow> \<not> active fs)"
proof (induction sts fs os rule: related.induct)
  case (2 st sts out tk cur els fs os)
  then show ?case
    by (cases st) (auto simp: printing_def split: list.splits)
qed (auto simp: printing_def)

fun apply_effect :: "effect option \<Rightarrow> Ifstate list \<Rightarrow> Ifstate list option" where
  "apply_effect (Some Stay) sts = Some sts"
| "apply_effect (Some (Set x)) (st # sts) = Some (x # sts)"
| "apply_effect (Some (Push x)) sts = Some (x # sts)"
| "apply_effect (Some Pop) (st # sts) = Some sts"
| "apply_effect _ _ = None"

text \<open>One line: the machine and the two preprocessors stay related, with the same text.\<close>

definition simulates :: "Ifstate list \<Rightarrow> frame list \<Rightarrow> frame list \<Rightarrow> Linetype \<Rightarrow> bool \<Rightarrow> cstr \<Rightarrow> bool" where
  "simulates sts fs os lt b t \<longleftrightarrow>
     (case apply_effect (effect_of (trans_table (hd sts) lt)) sts of
        None \<Rightarrow> True
      | Some sts' \<Rightarrow>
          (\<exists>fs' os'. cpp_line fs (kind_of lt b) = Some fs'
             \<and> cpp os (map (\<lambda>k. (k, t)) (emitted (emit_of (trans_table (hd sts) lt)) lt b))
                = Some (if kind_of lt b = KPlain \<and> active fs then [t] else [], os')
             \<and> related sts' fs' os'))"

lemma related_levels:
  assumes "related (st # sts) fs os"
  obtains "fs = []" "sts = []" "os = []" "st = IS_OUTSIDE"
  | tk cur els fs' where "fs = (active fs', tk, cur, els) # fs'" "st \<noteq> IS_OUTSIDE"
  using assms by (cases "(st # sts, fs, os)" rule: related.cases) (auto split: Ifstate.splits)

lemma printing_simps [simp]:
  "printing IS_OUTSIDE" "printing IS_TRUE_PREFIX" "printing IS_PASS_MIDDLE" "printing IS_TRUE_MIDDLE"
  "printing IS_PASS_ELSE" "printing IS_TRUE_ELSE" "\<not> printing IS_FALSE_PREFIX"
  "\<not> printing IS_FALSE_MIDDLE" "\<not> printing IS_FALSE_ELSE" "\<not> printing IS_FALSE_TRAILER"
  by (simp_all add: printing_def)

lemma sim_push:
  assumes "related (st # sts) fs os" "agrees (Dir d) b" "d \<in> {LT_TRUEI, LT_FALSEI, LT_IF, LT_TRUE, LT_FALSE}"
  shows "simulates (st # sts) fs os (Dir d) b t" "simulates (st # sts) fs os (LT_DODGY d) b' t"
proof -
  note act = related_active [OF assms(1), simplified]
  show "simulates (st # sts) fs os (Dir d) b t"
    using assms act by (cases st; auto simp: simulates_def trans_table_def)
  show "simulates (st # sts) fs os (LT_DODGY d) b' t"
    using assms(1,3) act by (cases st; auto simp: simulates_def trans_table_def)
qed

lemma sim_other:
  assumes "related (st # sts) fs os" "agrees lt b"
    "lt \<in> Dir ` {LT_ELIF, LT_ELTRUE, LT_ELFALSE, LT_ELSE, LT_ENDIF} \<union> LT_DODGY ` {LT_ELIF, LT_ELTRUE, LT_ELFALSE, LT_ELSE, LT_ENDIF} \<union> {LT_PLAIN, LT_EOF, LT_ERROR}"
  shows "simulates (st # sts) fs os lt b t"
proof -
  note act = related_active [OF assms(1), simplified]
  from assms(1) show ?thesis
  proof (cases rule: related_levels)
    case 1
    with assms(3) show ?thesis by (auto simp: simulates_def trans_table_def)
  next
    case (2 tk cur els fs')
    have inner: "active os' = active fs'" if "printing (hd sts)" "related sts fs' os'" for os'
      using related_active [OF that(2)] that(1) by blast
    from 2 assms act show ?thesis
      by (cases st; auto simp: simulates_def trans_table_def inner split: list.splits)
  qed
qed

lemma simulation_step:
  assumes "related sts fs os" "agrees lt b"
  shows "simulates sts fs os lt b t"
proof -
  from assms(1) obtain st sts' where sts: "sts = st # sts'" by (cases sts) auto
  show ?thesis
  proof (cases lt)
    case (Dir d)
    with assms show ?thesis unfolding sts
      by (cases d) (auto intro: sim_push sim_other simp del: agrees.simps)
  next
    case (LT_DODGY d)
    have "agrees (Dir d) True \<or> agrees (Dir d) False" by (cases d) auto
    with LT_DODGY assms show ?thesis unfolding sts
      by (cases d) (auto intro: sim_push(2) sim_other simp del: agrees.simps)
  qed (use assms sts in \<open>auto intro!: sim_other\<close>)
qed

section \<open>Runs\<close>

text \<open>The options under which lines are only kept, edited or dropped.\<close>

definition plain_output :: "options \<Rightarrow> bool" where
  "plain_output opt \<longleftrightarrow> \<not> symlist opt \<and> \<not> complement opt \<and> \<not> lnblank opt \<and> \<not> compblank opt \<and> \<not> lnnum opt"

definition edited_text :: "cstr \<Rightarrow> ustate \<Rightarrow> cstr" where
  "edited_text r s =
     take (keyword s) (tline s) @ take (MAXLINE + EDITSLOP - keyword s - 1) (r @ newline_str s)"

fun emit_text :: "emit \<Rightarrow> ustate \<Rightarrow> cstr list" where
  "emit_text E_none s = []"
| "emit_text E_line s = [tline s]"
| "emit_text E_if s = [tline (edit_if s)]"
| "emit_text E_else s = [edited_text ''else'' s]"
| "emit_text E_endif s = [edited_text ''endif'' s]"

lemma flushline_plain:
  "plain_output opt \<Longrightarrow> written (flushline opt k s) = written s @ (if k then [To_output (tline s)] else [])"
  by (simp add: flushline_def plain_output_def Let_def)

lemma parts_written:
  assumes "plain_output opt"
  shows "flush_off_state opt k x s = Inr s' \<Longrightarrow> written s' = written s @ (if k then [To_output (tline s)] else [])"
    "flush_state opt k x s = Inr s' \<Longrightarrow> written s' = written s @ (if k then [To_output (tline s)] else [])"
    "unnest (flushline opt k s) = Inr s' \<Longrightarrow> written s' = written s @ (if k then [To_output (tline s)] else [])"
    "begin_group opt k x s = Inr s' \<Longrightarrow> written s' = written s @ (if k then [To_output (tline s)] else [])"
  using flushline_plain [OF assms]
  by (auto simp: flush_off_state_def flush_state_def begin_group_def nest_def unnest_def ignoreoff_def
      state_def error_def split: if_splits)

lemma ignoreon_written [simp]: "written (ignoreon s) = written s"
  by (simp add: ignoreon_def)

lemma run_fn_written:
  assumes "plain_output opt" "run_fn f opt s = Inr s'"
  shows "written s' = written s @ map To_output (emit_text (emit_of f) s)"
proof -
  note parts = parts_written [OF assms(1)]
  have edit: "written (edit_if s) = written s" by (simp add: edit_if_def)
  show ?thesis
    using assms(2)
    by (cases f; simp add: error_def with_ignore_def unless_iocccok_def andthen_Inr_iff keywordedit_def
          state_def edited_text_def flushline_plain [OF assms(1)] split: if_splits)
      (auto dest!: parts simp: edit flushline_plain [OF assms(1)])
qed

text \<open>What a step of a run read and printed.\<close>

type_synonym event = "Linetype \<times> cstr \<times> emit \<times> cstr list"

inductive steps :: "options \<Rightarrow> ustate \<Rightarrow> event list \<Rightarrow> ustate \<Rightarrow> bool" for opt where
  steps_Nil: "steps opt s [] s"
| steps_Cons: "parseline opt s = Inr (lt, s1) \<Longrightarrow>
    f = trans_table (ifstate s1 (depth s1)) lt \<Longrightarrow> run_fn f opt s1 = Inr s2 \<Longrightarrow>
    steps opt s2 evs s3 \<Longrightarrow>
    steps opt s ((lt, tline s1, emit_of f, emit_text (emit_of f) s1) # evs) s3"

lemma process_loop_steps:
  "process_loop opt s = Done u \<Longrightarrow>
     \<exists>evs s0 s1. steps opt s evs s0 \<and> parseline opt s0 = Inr (LT_EOF, s1)
       \<and> ifstate s1 (depth s1) = IS_OUTSIDE \<and> u = closeout opt s1 \<and> incomment s1 = NO_COMMENT"
proof (induction opt s rule: process_loop.induct)
  case (1 opt s)
  from 1(2) obtain lt s1 where p: "parseline opt s = Inr (lt, s1)"
    by (auto simp: process_loop.simps [of opt s] is_error_def dest: parseline_error split: sum.splits)
  let ?f = "trans_table (ifstate s1 (depth s1)) lt"
  show ?case
  proof (cases "run_fn ?f opt s1")
    case (Inr s2)
    with 1(2) p have "process_loop opt s2 = Done u" by (simp add: process_loop.simps [of opt s])
    with 1(1) [OF p refl Inr] obtain evs s0 s3 where
      "steps opt s2 evs s0" and e: "parseline opt s0 = Inr (LT_EOF, s3)"
      "ifstate s3 (depth s3) = IS_OUTSIDE" "u = closeout opt s3" "incomment s3 = NO_COMMENT" by blast
    from steps_Cons [OF p refl Inr this(1)] e show ?thesis by blast
  next
    case (Inl e)
    with 1(2) p have r: "run_fn ?f opt s1 = Inl (Done u)" by (simp add: process_loop.simps [of opt s])
    then have f: "?f = done_fn"
      by (cases ?f) (auto simp: error_def with_ignore_def unless_iocccok_def andthen_Inl_iff flush_state_def
          flush_off_state_def begin_group_def nest_def unnest_def ignoreoff_def split: if_splits)
    have "lt = LT_EOF \<and> ifstate s1 (depth s1) = IS_OUTSIDE"
    proof (cases lt)
      case (Dir x)
      with f show ?thesis by (cases "ifstate s1 (depth s1)"; cases x; simp add: trans_table_def)
    next
      case (LT_DODGY x)
      with f show ?thesis by (cases "ifstate s1 (depth s1)"; cases x; simp add: trans_table_def)
    qed (use f in \<open>cases "ifstate s1 (depth s1)"; simp add: trans_table_def\<close>)+
    with p r f steps_Nil [of opt s] show ?thesis by (auto simp: error_def split: if_splits)
  qed
qed

section \<open>The output means what the input means\<close>

text \<open>The stack of the machine, the top first.\<close>

definition stack_of :: "ustate \<Rightarrow> Ifstate list" where
  "stack_of s = map (ifstate s) (rev [0..<Suc (depth s)])"

lemma stack_of_hd: "hd (stack_of s) = ifstate s (depth s)"
  by (simp add: stack_of_def)

lemma stack_of_effect: "has_effect e s s' \<Longrightarrow> apply_effect e (stack_of s) = Some (stack_of s')"
proof (cases e)
  case (Some x)
  assume h: "has_effect e s s'"
  show ?thesis
  proof (cases x)
    case Pop
    with h Some obtain n where "depth s = Suc n" by (auto simp: has_effect_def gr0_conv_Suc)
    with h Some Pop show ?thesis by (auto simp: has_effect_def stack_of_def)
  qed (use h Some in \<open>auto simp: has_effect_def stack_of_def\<close>)
qed (simp add: has_effect_def)

lemma keeps_stack: "keeps s s' \<Longrightarrow> stack_of s' = stack_of s"
  by (simp add: keeps_def machine_def stack_of_def)

lemma keeps_outside: "keeps s s' \<Longrightarrow> ifstate s' = ifstate s \<and> depth s' = depth s"
  by (simp add: keeps_def machine_def)

text \<open>The lines of a run with the truth values \<open>bs\<close> of their conditions.\<close>

fun input_lines :: "event list \<Rightarrow> bool list \<Rightarrow> pline list" where
  "input_lines ((lt, t, em, ts) # evs) (b # bs) = (kind_of lt b, t) # input_lines evs bs"
| "input_lines _ _ = []"

fun output_lines :: "event list \<Rightarrow> bool list \<Rightarrow> pline list" where
  "output_lines ((lt, t, em, ts) # evs) (b # bs) = zip (emitted em lt b) ts @ output_lines evs bs"
| "output_lines _ _ = []"

definition printed_texts :: "event list \<Rightarrow> cstr list" where
  "printed_texts evs = concat (map (\<lambda>(lt, t, em, ts). ts) evs)"

fun all_agree :: "event list \<Rightarrow> bool list \<Rightarrow> bool" where
  "all_agree ((lt, t, em, ts) # evs) (b # bs) = (agrees lt b \<and> all_agree evs bs)"
| "all_agree [] [] = True"
| "all_agree _ _ = False"

lemma emit_text_length: "length (emitted em lt b) = length (emit_text em s)"
  by (cases em) auto

lemma output_lines_texts:
  "steps opt s evs s' \<Longrightarrow> all_agree evs bs \<Longrightarrow> map snd (output_lines evs bs) = printed_texts evs"
proof (induction arbitrary: bs rule: steps.induct)
  case (steps_Cons s lt s1 f s2 evs s3)
  then show ?case
    by (cases bs) (auto simp: printed_texts_def emit_text_length)
next
  case (steps_Nil s)
  then show ?case by (cases bs) (auto simp: printed_texts_def)
qed

text \<open>Without \<open>-s\<close>, parsing prints nothing.\<close>

definition prints :: "written list \<Rightarrow> 'a step \<Rightarrow> bool" where
  "prints w r \<longleftrightarrow> (\<forall>x t. r = Inr (x, t) \<longrightarrow> written t = w)"

lemma prints_Inr [simp]: "prints w (Inr (x, t)) \<longleftrightarrow> written t = w" "prints w (Inl e)"
  by (auto simp: prints_def)

lemma prints_andthen:
  "prints w r \<Longrightarrow> (\<And>a t. written t = w \<Longrightarrow> prints w (f (a, t))) \<Longrightarrow> prints w (andthen r f)"
  by (cases r) (auto simp: prints_def)

lemma prints_if: "(P \<Longrightarrow> prints w a) \<Longrightarrow> (\<not> P \<Longrightarrow> prints w b) \<Longrightarrow> prints w (if P then a else b)"
  by simp

lemma prints_skipcomment: "written s = w \<Longrightarrow> prints w (skipcomment opt cp s)"
  by (auto simp: prints_def dest: skipcomment_frame)

lemma prints_skipargs_loop: "written s = w \<Longrightarrow> prints w (skipargs_loop opt l cp s)"
proof (induction opt l cp s rule: skipargs_loop.induct)
  case (1 opt level cp s)
  let ?l1 = "if hd cp = CHR ''('' then level + 1 else level"
  let ?l2 = "if hd cp = CHR '')'' then ?l1 - 1 else ?l1"
  show ?case
  proof (cases "cp = []")
    case True
    with 1(2) show ?thesis by (simp add: skipargs_loop.simps)
  next
    case False
    have "prints w (if ?l2 \<noteq> 0 \<and> a \<noteq> [] then skipargs_loop opt ?l2 a b else Inr ((?l2, a), b))"
      if k: "skipcomment opt (tl cp) s = Inr (a, b)" for a b
    proof -
      have b: "written b = w" using prints_skipcomment [OF 1(2)] k by (auto simp: prints_def)
      show ?thesis by (rule prints_if) (use 1(1) [OF False refl refl k refl] b in auto)
    qed
    then show ?thesis
      unfolding skipargs_loop.simps [of opt level cp s] using False
      by (cases "skipcomment opt (tl cp) s") (auto simp: Let_def)
  qed
qed

lemma prints_skipargs: "written s = w \<Longrightarrow> prints w (skipargs opt cp s)"
  unfolding skipargs_def
  by (intro prints_andthen prints_skipcomment) (auto intro!: prints_andthen prints_skipargs_loop)

lemmas prints_rules = prints_andthen prints_if prints_skipcomment prints_skipargs

lemma prints_leaves:
  assumes "\<not> symlist opt" "written s = w"
  shows "prints w (eval_number cp v s)" "prints w (eval_defined opt cp v s)"
    "prints w (eval_symbol opt cp v s)" "prints w (unary_not (x, s))" "prints w (unary_close opt (x, s))"
proof -
  show "prints w (eval_number cp v s)"
    using assms(2) by (simp add: eval_number_def Let_def split_beta)
  show "prints w (eval_defined opt cp v s)"
    unfolding eval_defined_def findsym_no_list [OF assms(1)] Let_def
    by (intro prints_andthen prints_skipcomment assms(2))
      (auto simp: split_beta intro!: prints_rules)
  show "prints w (eval_symbol opt cp v s)"
    unfolding eval_symbol_def findsym_no_list [OF assms(1)] Let_def
    using assms(2) by (auto simp: split_beta split: option.split intro!: prints_rules)
  show "prints w (unary_not (x, s))"
    using assms(2) by (simp add: unary_not_def Let_def split_beta)
  show "prints w (unary_close opt (x, s))"
    using assms(2) by (auto simp: unary_close_def Let_def split_beta intro!: prints_rules)
qed

lemma prints_eval:
  "\<not> symlist opt \<Longrightarrow> written s = w \<Longrightarrow> prints w (eval n opt call v cp s)"
proof (induction n arbitrary: call v cp s w)
  case (Suc n)
  note rec = Suc.IH [OF Suc.prems(1)] and leaf = prints_leaves [OF Suc.prems(1)]
  show ?case
  proof (cases call)
    case Unary
    have "prints w (unary_body (eval n opt) opt v cp s)"
      unfolding unary_body_def
    proof (rule prints_andthen [OF prints_skipcomment [OF Suc.prems(2)]], simp only: prod.case)
      fix c and t :: ustate
      assume t: "written t = w"
      show "prints w (if c \<noteq> [] \<and> hd c = CHR ''!'' then andthen (eval n opt Unary v (tl c) t) unary_not
       else if c \<noteq> [] \<and> hd c = CHR ''(''
       then andthen (eval n opt (Table 0) v (tl c) t) (unary_close opt)
       else if c \<noteq> [] \<and> c_isdigit (hd c) then eval_number c v t
       else if starts_with c ''defined'' \<and> (drop 7 c = [] \<or> endsym (hd (drop 7 c)))
       then eval_defined opt c v t
       else if c \<noteq> [] \<and> \<not> endsym (hd c) then eval_symbol opt c v t
       else Inr ((LT_ERROR, v, c), t))"
        using t by (intro prints_if prints_andthen rec leaf) auto
    qed
    with Unary show ?thesis by simp
  next
    case (Table k)
    have "prints w (table_body (eval n opt) k v cp s)"
      unfolding table_body_def
      by (rule prints_andthen [OF rec [OF Suc.prems(2)]]) (auto intro: rec)
    with Table show ?thesis by simp
  next
    case (Loop k lt)
    have "prints w (loop_body (eval n opt) opt k lt v cp s)"
      unfolding loop_body_def
      by (rule prints_andthen [OF prints_skipcomment [OF Suc.prems(2)]])
        (auto split: option.split prod.split intro!: prints_andthen rec)
    with Loop show ?thesis by simp
  qed
qed simp

lemma prints_ifeval:
  assumes "\<not> symlist opt" "written s = w"
  shows "prints w (ifeval opt cp s)"
  unfolding ifeval_def
  by (rule prints_andthen [OF prints_eval [OF assms(1)]]) (use assms(2) in auto)

lemma prints_parse_keyword:
  assumes "\<not> symlist opt" "written s = w"
  shows "prints w (parse_keyword opt kw len cp s)"
  unfolding parse_keyword_def findsym_no_list [OF assms(1)] Let_def
  using assms(2)
  by (intro prints_if prints_andthen prints_skipcomment prints_ifeval assms(1)) (auto simp: split_beta)

lemma directive_tail_written [simp]: "written (snd (snd (directive_tail was rv cp s))) = written s"
  by (auto simp: directive_tail_def Let_def split: if_splits option.splits prod.splits)

lemma prints_parse_directive:
  assumes "\<not> symlist opt" "written s = w"
  shows "prints w (parse_directive opt was cp s)"
  unfolding parse_directive_def Let_def error_def
  by (intro prints_if prints_andthen, simp)
    (auto simp: split_beta intro!: prints_andthen prints_skipcomment
      prints_parse_keyword [OF assms(1)] assms(2))

lemma skip_rest_written: "skip_rest opt cp s = Inr s' \<Longrightarrow> written s' = written s"
proof (induction opt cp s rule: skip_rest.induct)
  case (1 opt cp s)
  show ?case
  proof (cases "cp = []")
    case True
    with 1(2) show ?thesis by (simp add: skip_rest.simps)
  next
    case False
    with 1(2) obtain c t where c: "skipcomment opt (tl cp) s = Inr (c, t)" and r: "skip_rest opt c t = Inr s'"
      unfolding skip_rest.simps [of opt cp s] by (auto simp: andthen_Inr_iff)
    from 1(1) [OF False c refl r] prints_skipcomment [OF refl, of s opt "tl cp"] c show ?thesis
      by (simp add: prints_def)
  qed
qed

lemma parseline_keeps:
  assumes "\<not> symlist opt" "parseline opt s = Inr (lt, s')"
  shows "written s' = written s \<and> keeps s s'"
proof (cases "input s = []")
  case True
  with assms(2) show ?thesis by (auto simp: parseline_EOF)
next
  case False
  obtain raw rest cp s2 cp1 s3 where
    2: "find_hash opt (read_line raw rest (s\<lparr>linenum := linenum s + 1\<rparr>)) = Inr (cp, s2)" and
    3: "(if incomment s2 = NO_COMMENT \<and> linestate s2 = LS_HASH
      then parse_directive opt (incomment s \<noteq> NO_COMMENT) cp s2 else Inr ((LT_PLAIN, cp), s2))
     = Inr ((lt, cp1), s3)" and
    4: "(if linestate s3 = LS_DIRTY then skip_rest opt cp1 s3 else Inr s3) = Inr s'"
    by (rule parseline_parts [OF assms(2) False])
  have "prints (written s) (find_hash opt (read_line raw rest (s\<lparr>linenum := linenum s + 1\<rparr>)))"
    unfolding find_hash_def by (auto intro!: prints_andthen prints_skipcomment prints_if)
  with 2 have a: "written s2 = written s" by (simp add: prints_def)
  have "prints (written s) (if incomment s2 = NO_COMMENT \<and> linestate s2 = LS_HASH
      then parse_directive opt (incomment s \<noteq> NO_COMMENT) cp s2 else Inr ((LT_PLAIN, cp), s2))"
    by (intro prints_if prints_parse_directive assms(1) a) (simp add: a)
  with 3 have b: "written s3 = written s" by (simp add: prints_def)
  have "written s' = written s3"
    using 4 skip_rest_written [of opt cp1 s3 s'] by (cases "linestate s3 = LS_DIRTY") simp_all
  with b parseline_frame [OF assms(2) False] show ?thesis by simp
qed

lemma cpp_emitted:
  "cpp os (zip (emitted em lt b) (emit_text em s)) = cpp os (map (\<lambda>k. (k, tline s)) (emitted em lt b))"
  by (cases em) auto

lemma steps_simulated:
  assumes "plain_output opt"
  shows "steps opt s evs s' \<Longrightarrow> all_agree evs bs \<Longrightarrow> related (stack_of s) fs os \<Longrightarrow>
    written s' = written s @ map To_output (printed_texts evs)
    \<and> (\<exists>texts fs' os'. cpp fs (input_lines evs bs) = Some (texts, fs')
         \<and> cpp os (output_lines evs bs) = Some (texts, os') \<and> related (stack_of s') fs' os')"
proof (induction arbitrary: bs fs os rule: steps.induct)
  case (steps_Nil s)
  then show ?case by (cases bs) (auto simp: printed_texts_def)
next
  case (steps_Cons s lt s1 f s2 evs s3)
  from steps_Cons.prems(1) obtain b bs' where bs: "bs = b # bs'" and b: "agrees lt b" "all_agree evs bs'"
    by (cases bs) auto
  have list: "\<not> symlist opt" using assms by (simp add: plain_output_def)
  note k = parseline_keeps [OF list steps_Cons.hyps(1)]
  have st: "stack_of s1 = stack_of s" using k keeps_stack by blast
  have top: "f = trans_table (hd (stack_of s)) lt"
    using steps_Cons.hyps(2) by (simp add: stack_of_hd flip: st)
  have eff: "apply_effect (effect_of f) (stack_of s) = Some (stack_of s2)"
    using stack_of_effect [OF conjunct2 [OF run_fn_effect [OF steps_Cons.hyps(3)]]] by (simp add: st)
  from simulation_step [OF steps_Cons.prems(2) b(1), of "tline s1"] eff obtain fs1 os1 where
    1: "cpp_line fs (kind_of lt b) = Some fs1"
      "cpp os (map (\<lambda>k. (k, tline s1)) (emitted (emit_of f) lt b))
         = Some (if kind_of lt b = KPlain \<and> active fs then [tline s1] else [], os1)"
      "related (stack_of s2) fs1 os1"
    by (auto simp: simulates_def simp flip: top)
  from steps_Cons.IH [OF b(2) 1(3)] obtain texts fs' os' where
    w: "written s3 = written s2 @ map To_output (printed_texts evs)" and
    2: "cpp fs1 (input_lines evs bs') = Some (texts, fs')"
      "cpp os1 (output_lines evs bs') = Some (texts, os')" "related (stack_of s3) fs' os'" by blast
  have "written s3 = written s @ map To_output (emit_text (emit_of f) s1 @ printed_texts evs)"
    using w run_fn_written [OF assms steps_Cons.hyps(3)] k by simp
  moreover have "cpp fs (input_lines ((lt, tline s1, emit_of f, emit_text (emit_of f) s1) # evs) bs)
      = Some ((if kind_of lt b = KPlain \<and> active fs then [tline s1] else []) @ texts, fs')"
    using 1(1) 2(1) bs by simp
  moreover have "cpp os (output_lines ((lt, tline s1, emit_of f, emit_text (emit_of f) s1) # evs) bs)
      = Some ((if kind_of lt b = KPlain \<and> active fs then [tline s1] else []) @ texts, os')"
    using 1(2) 2(2) bs by (simp add: cpp_append cpp_emitted)
  ultimately show ?case using 2(3) by (auto simp: printed_texts_def)
qed

text \<open>At the end of the input nothing is open, neither in the input nor in the output.\<close>

lemma related_outside: "related [IS_OUTSIDE] fs os \<Longrightarrow> fs = [] \<and> os = []"
  by (cases fs) (auto)

definition initial :: "ustate \<Rightarrow> bool" where
  "initial s \<longleftrightarrow> depth s = 0 \<and> ifstate s 0 = IS_OUTSIDE \<and> written s = []"

lemma run_simulated:
  assumes "plain_output opt" "\<not> symdepth opt" "initial s" "process opt s = Done u"
  shows "\<exists>evs. written u = map To_output (printed_texts evs)
    \<and> (\<forall>bs. all_agree evs bs \<longrightarrow>
         map snd (output_lines evs bs) = printed_texts evs
         \<and> (\<exists>texts. cpp [] (input_lines evs bs) = Some (texts, [])
              \<and> cpp [] (output_lines evs bs) = Some (texts, [])))
    \<and> steps opt (s\<lparr>blankcount := 1000, blankmax := 1000\<rparr>) evs
         (u\<lparr>linenum := linenum u - 1\<rparr>)"
proof -
  let ?s = "s\<lparr>blankcount := 1000, blankmax := 1000\<rparr>"
  have i: "depth ?s = 0" "ifstate ?s 0 = IS_OUTSIDE" "written ?s = []" using assms(3) by (simp_all add: initial_def)
  from assms(4) obtain evs s0 s1 where st: "steps opt ?s evs s0" and p: "parseline opt s0 = Inr (LT_EOF, s1)"
    and o: "ifstate s1 (depth s1) = IS_OUTSIDE" and u: "u = closeout opt s1"
    using process_loop_steps [of opt ?s u] by (auto simp: process_def)
  have "input s0 = []" using parseline_frame [OF p] by blast
  with p have s1: "s1 = s0\<lparr>linenum := linenum s0 + 1\<rparr>" by (simp add: parseline_EOF)
  have u1: "u = s1" using u assms(2) by (simp add: closeout_def)
  then have u0: "u\<lparr>linenum := linenum u - 1\<rparr> = s0" using s1 by simp
  have rel: "related (stack_of ?s) [] []" using i by (simp add: stack_of_def)
  have wf: "wf_machine s0"
  proof -
    have "steps opt a e c \<Longrightarrow> wf_machine a \<Longrightarrow> wf_machine c" for a e c
    proof (induction rule: steps.induct)
      case (steps_Cons a lt b f c evs d)
      with parseline_wf [OF steps_Cons.hyps(1)] run_keeps_wf [of b lt opt c] show ?case by blast
    qed
    moreover have "wf_machine ?s" using i by (auto simp: wf_machine_def MAXDEPTH_def)
    ultimately show ?thesis using st by blast
  qed
  have "depth s0 = 0" using o wf wf_outside [OF wf] s1 by simp
  then have stack: "stack_of s0 = [IS_OUTSIDE]" using wf by (simp add: stack_of_def wf_machine_def)
  note sim = steps_simulated [OF assms(1) st _ rel]
  have "all_agree evs (map (\<lambda>(lt, _). agrees lt True) evs)"
  proof (induction evs)
    case (Cons e es)
    have "agrees lt (agrees lt True)" for lt by (induction lt "agrees lt True" rule: agrees.induct) auto
    with Cons show ?case by (cases e) auto
  qed simp
  from sim [OF this] have "written u = map To_output (printed_texts evs)" using u1 s1 i by simp
  moreover have "map snd (output_lines evs bs) = printed_texts evs
         \<and> (\<exists>texts. cpp [] (input_lines evs bs) = Some (texts, [])
              \<and> cpp [] (output_lines evs bs) = Some (texts, []))" if "all_agree evs bs" for bs
    using sim [OF that] output_lines_texts [OF st that] related_outside unfolding stack by blast
  ultimately show ?thesis using st u0 by auto
qed

section \<open>The lines of a run are the input\<close>

lemma c_string_id: "no_nul s \<Longrightarrow> c_string s = s"
  by (auto simp: c_string_def no_nul_def takeWhile_eq_all_conv)

lemma no_nul_append [simp]: "no_nul (a @ b) \<longleftrightarrow> no_nul a \<and> no_nul b"
  by (auto simp: no_nul_def)

lemma directive_tail_text:
  assumes "directive_tail was rv cp s = (rv', cp', s')" "no_nul (input s)" "suffix_of cp (tline s)"
    "linestate s = LS_HASH \<Longrightarrow> length (tline s) < MAXLINE"
  shows "tline s' @ input s' = tline s @ input s \<and> no_nul (input s')
     \<or> (input s = [] \<and> input s' = [] \<and> tline s' = tline s @ newline_str s)"
proof -
  have nl: "newline_str (t\<lparr>linestate := x\<rparr>) = newline_str t" for t x by (simp add: newline_str_def)
  have e: "raw @ rest = input s \<and> c_string raw = raw \<and> no_nul rest"
    if "fgets (MAXLINE - length (tline s)) (input s) = Some (raw, rest)" for raw rest
    using fgets_Some(1) [OF that] assms(2) by (auto simp: c_string_id)
  have n: "input s = []" if "fgets (MAXLINE - length (tline s)) (input s) = None" "length (tline s) < MAXLINE"
    using that by (auto simp: fgets_def Let_def split: if_splits)
  show ?thesis
    using assms e n
    by (auto simp: directive_tail_def Let_def nl split: if_splits option.splits prod.splits)
qed

lemma parse_directive_text:
  assumes "parse_directive opt was cp s = Inr ((rv, t), s')" "no_nul (input s)" "suffix_of cp (tline s)"
    "length (tline s) < MAXLINE"
  shows "tline s' @ input s' = tline s @ input s \<and> no_nul (input s')
     \<or> (input s = [] \<and> input s' = [] \<and> tline s' = tline s @ newline_str s')"
proof -
  let ?s1 = "s\<lparr>keyword := length (tline s) - length cp\<rparr>"
  obtain rv1 cp2 s2 cp3 s3 where
    1: "parse_keyword opt cp (length cp - length (skipsym cp)) (skipsym cp) ?s1 = Inr ((rv1, cp2), s2)" and
    2: "skipcomment opt cp2 s2 = Inr (cp3, s3)" and
    3: "directive_tail was rv1 cp3 s3 = (rv, t, s')"
    using assms(1) unfolding parse_directive_def error_def Let_def
    by (auto simp: andthen_Inr_iff split_beta split: if_splits)
  note f1 = parse_keyword_frame [OF 1]
  note k1 = same_env_keeps [OF conjunct1 [OF f1]] and k2 = keeps_skipcomment [OF 2]
  have "suffix_of cp3 (tline s)"
    using f1 skipcomment_suffix [OF 2] skipsym_suffix assms(3) suffix_of_trans by blast
  then show ?thesis
    using directive_tail_text [OF 3] directive_tail_frame [OF 3] k1 k2 assms(2,4)
    by (simp add: newline_str_def)
qed

lemma parseline_text:
  assumes "parseline opt s = Inr (lt, s')" "input s \<noteq> []" "no_nul (input s)"
  shows "tline s' @ input s' = input s \<and> no_nul (input s')
     \<or> (input s' = [] \<and> tline s' = input s @ newline_str s')"
proof -
  obtain raw rest cp s2 cp1 s3 where
    1: "fgets MAXLINE (input s) = Some (raw, rest)" and
    2: "find_hash opt (read_line raw rest (s\<lparr>linenum := linenum s + 1\<rparr>)) = Inr (cp, s2)" and
    3: "(if incomment s2 = NO_COMMENT \<and> linestate s2 = LS_HASH
      then parse_directive opt (incomment s \<noteq> NO_COMMENT) cp s2 else Inr ((LT_PLAIN, cp), s2))
     = Inr ((lt, cp1), s3)" and
    4: "(if linestate s3 = LS_DIRTY then skip_rest opt cp1 s3 else Inr s3) = Inr s'"
    by (rule parseline_parts [OF assms(1,2)])
  note f = fgets_Some [OF 1]
  have raw: "input s = raw @ rest" "length raw < MAXLINE" "c_string raw = raw" "no_nul rest"
    using f assms(3) by (auto simp: c_string_id)
  note h = find_hash_frame [OF 2, simplified]
  have a: "tline s2 = raw" "input s2 = rest" "suffix_of cp (tline s2)" using h raw by simp_all
  have c: "tline s' = tline s3 \<and> input s' = input s3 \<and> newline s' = newline s3"
    using 4 skip_rest_frame [of opt cp1 s3 s'] by (cases "linestate s3 = LS_DIRTY") simp_all
  show ?thesis
  proof (cases "incomment s2 = NO_COMMENT \<and> linestate s2 = LS_HASH")
    case True
    with 3 have "parse_directive opt (incomment s \<noteq> NO_COMMENT) cp s2 = Inr ((lt, cp1), s3)" by simp
    from parse_directive_text [OF this] a raw c show ?thesis by (auto simp: newline_str_def)
  next
    case False
    with 3 have "s3 = s2" by (simp split: if_splits)
    with a raw c show ?thesis by simp
  qed
qed

definition line_texts :: "event list \<Rightarrow> cstr list" where
  "line_texts evs = map (\<lambda>(lt, t, em, ts). t) evs"

lemma steps_text:
  "steps opt s evs s' \<Longrightarrow> no_nul (input s) \<Longrightarrow> input s' = [] \<Longrightarrow>
     concat (line_texts evs) = input s \<or> (\<exists>u. concat (line_texts evs) = input s @ newline_str u)"
proof (induction rule: steps.induct)
  case (steps_Cons s lt s1 f s2 evs s3)
  have i: "input s2 = input s1" by (rule run_fn_input [OF steps_Cons.hyps(3)])
  have "lt \<noteq> LT_EOF"
  proof
    assume "lt = LT_EOF"
    with run_EOF [of "ifstate s1 (depth s1)" opt s1] steps_Cons.hyps(2,3) show False by auto
  qed
  then have "input s \<noteq> []" using steps_Cons.hyps(1) by (auto simp: parseline_EOF)
  from parseline_text [OF steps_Cons.hyps(1) this steps_Cons.prems(1)] show ?case
  proof
    assume "tline s1 @ input s1 = input s \<and> no_nul (input s1)"
    then have "no_nul (input s2)" and t: "input s = tline s1 @ input s2" using i by auto
    from steps_Cons.IH [OF this(1) steps_Cons.prems(2)] show ?thesis
    proof
      assume "concat (line_texts evs) = input s2"
      then show ?thesis by (simp add: line_texts_def t)
    next
      assume "\<exists>u. concat (line_texts evs) = input s2 @ newline_str u"
      then obtain u where "concat (line_texts evs) = input s2 @ newline_str u" ..
      then show ?thesis by (intro disjI2 exI [where x = u]) (simp add: line_texts_def t)
    qed
  next
    assume a: "input s1 = [] \<and> tline s1 = input s @ newline_str s1"
    have "evs = []"
    proof (rule ccontr)
      assume "evs \<noteq> []"
      with steps_Cons.hyps(4) obtain lt' u where
        p: "parseline opt s2 = Inr (lt', u)" and r: "\<exists>v. run_fn (trans_table (ifstate u (depth u)) lt') opt u = Inr v"
        by (cases rule: steps.cases) auto
      from p a i have "lt' = LT_EOF" by (auto simp: parseline_EOF)
      with r run_EOF [of "ifstate u (depth u)" opt u] show False by auto
    qed
    with a show ?thesis by (auto simp: line_texts_def)
  qed
qed (simp add: line_texts_def)

end
