(* ===== verification/Unifdef_Properties.thy ===== *)
theory Unifdef_Properties
  imports Unifdef_Cpp
begin

text \<open>
  The properties of \<open>unifdef.c\<close>, and a small program run on which they are exercised.
\<close>

section \<open>A run\<close>

text \<open>\<open>-k -DFOO\<close>.\<close>

definition demo_options :: options where
  "demo_options = \<lparr>compblank = False, lnblank = False, complement = False, iocccok = False,
     strictlogic = False, killconsts = True, lnnum = False, symlist = False, symdepth = False,
     text_file = False\<rparr>"

definition demo_state :: "cstr \<Rightarrow> ustate" where
  "demo_state inp =
     \<lparr>symname = (\<lambda>i. ''FOO''), symvalue = (\<lambda>i. Some ''1''), ignore = (\<lambda>i. False), nsyms = 1,
      input = inp, written = [], linenum = 0, tline = [], keyword = 0, newline = None,
      incomment = NO_COMMENT, linestate = LS_START, ifstate = (\<lambda>i. IS_OUTSIDE),
      ignoring = (\<lambda>i. False), stifline = (\<lambda>i. 0), depth = 0, delcount = 0, blankcount = 0,
      blankmax = 0, constexpr = False, zerosyms = True, firstsym = False, exitstat = 0\<rparr>"

definition demo_input :: cstr where
  "demo_input = ''#ifdef FOO'' @ LF @ ''x'' @ LF @ ''#endif'' @ LF"



section \<open>The meaning of the output\<close>



section \<open>Runs end properly\<close>

text \<open>
  C14: from a well-formed stack every run ends, either in \<open>error\<close> with a message or in \<open>done\<close>
  with the input consumed, outside every group and every comment; \<open>abort\<close> is never reached and
  the fuel of the evaluator never runs out.
\<close>
theorem process_ends:
  assumes "wf_machine s"
  shows "(\<exists>m u. process opt s = Error m u)
    \<or> (\<exists>u. process opt s = Done (closeout opt u) \<and> depth u = 0 \<and> incomment u = NO_COMMENT \<and> input u = [])"
  using process_loop_result [of "s\<lparr>blankcount := 1000, blankmax := 1000\<rparr>" opt] assms
  by (auto simp: process_def is_error_def wf_machine_def)

theorem process_ends_witness:
  "(\<exists>m u. process demo_options (demo_state demo_input) = Error m u)
    \<or> (\<exists>u. process demo_options (demo_state demo_input) = Done (closeout demo_options u) \<and> depth u = 0
          \<and> incomment u = NO_COMMENT \<and> input u = [])"
  by (rule process_ends) (auto simp: wf_machine_def demo_state_def MAXDEPTH_def)

text \<open>
  C34: every transition keeps the stack of \<open>#if\<close> states well formed: the depth stays an index of
  the arrays, and only the bottom is \<open>IS_OUTSIDE\<close>.
\<close>
theorem transition_invariant:
  assumes "wf_machine s" "lt \<noteq> LT_ERROR" "run_fn (trans_table (ifstate s (depth s)) lt) opt s = Inr s'"
  shows "depth s' < MAXDEPTH \<and> wf_machine s'"
  using run_keeps_wf [OF assms] by (simp add: wf_machine_def)

theorem transition_invariant_witness:
  "\<exists>s'. run_fn (trans_table (ifstate (demo_state []) (depth (demo_state []))) (Dir LT_TRUE)) demo_options
      (demo_state []) = Inr s' \<and> wf_machine s'"
proof -
  have wf: "wf_machine (demo_state [])" by (auto simp: wf_machine_def demo_state_def MAXDEPTH_def)
  obtain s' where s': "run_fn (trans_table (ifstate (demo_state []) (depth (demo_state []))) (Dir LT_TRUE))
      demo_options (demo_state []) = Inr s'"
    by (simp add: trans_table_def demo_state_def begin_group_def nest_def MAXDEPTH_def
        flush_off_state_def ignoreoff_def)
  from transition_invariant [OF wf _ s'] s' show ?thesis by blast
qed

section \<open>Expressions\<close>

text \<open>
  when more symbols are given numeric values, a decided \<open>#if\<close> keeps its outcome, and an
  unknown one is read to the same place; the unknown value is never confused with a known one.
\<close>
theorem ifeval_monotone:
  assumes "\<not> symlist opt" "knows_more s w" "ifeval opt cp s = Inr ((lt, cp1), s1)"
  shows "\<exists>lt' w1. ifeval opt cp w = Inr ((lt', cp1), w1) \<and> (lt = Dir LT_IF \<or> lt' = lt)"
  using ifeval_refines [OF assms(1,2), of cp] assms(3)
  by (auto simp: rel_step_def split: sum.splits)

theorem ifeval_monotone_witness:
  "\<exists>lt' w1. ifeval demo_options ''BAR'' (demo_state []) = Inr ((lt', []), w1)"
proof -
  let ?s = "(demo_state [])\<lparr>nsyms := 0\<rparr>"
  have k: "knows_more ?s (demo_state [])"
    by (auto simp: knows_more_def table_extends_def demo_state_def number_value_def c_strtol_int_def
        c_strtoll_def scan_integer_def hex_prefix_def is_digit_of_def digit_val_def ctype_defs)
  have "\<exists>lt s1. ifeval demo_options ''BAR'' ?s = Inr ((lt, []), s1)"
    by (simp add: ifeval_def eval_fuel_def numeral_eq_Suc table_body_def unary_body_def loop_body_def
        ops_inner_def skipcomment_def skip_comment.simps scan_step_def eval_symbol_def findsym_def
        endsym_def ctype_defs skipargs_def eval_ops_def demo_state_def demo_options_def Let_def)
  then obtain lt s1 where "ifeval demo_options ''BAR'' ?s = Inr ((lt, []), s1)" by blast
  from ifeval_monotone [OF _ k this] show ?thesis by (auto simp: demo_options_def)
qed

text \<open>
  C32: \<open>ifeval\<close> returns, or stops with a message of the scanner: the recursion of the evaluator
  is bounded by the length of the expression. The result is one of the three types of an \<open>#if\<close>,
  and the pointer never moves backwards or past the end.
\<close>
theorem ifeval_terminates:
  "(\<exists>m u. ifeval opt cp s = Inl (Error m u))
   \<or> (\<exists>lt cp1 s1. ifeval opt cp s = Inr ((lt, cp1), s1)
        \<and> lt \<in> {Dir LT_IF, Dir LT_TRUE, Dir LT_FALSE} \<and> suffix_of cp1 cp)"
proof (cases "ifeval opt cp s")
  case (Inl e)
  then show ?thesis using ifeval_error [OF Inl] by (auto simp: is_error_def)
next
  case (Inr p)
  then obtain lt cp1 s1 where "ifeval opt cp s = Inr ((lt, cp1), s1)" by (cases p) auto
  with ifeval_type [OF this] ifeval_frame [OF this] show ?thesis by (auto simp: decided_def)
qed

section \<open>Scanning and editing\<close>

text \<open>
  \<open>skipcomment\<close> moves forward over the string only, and where it stops before the end, in a
  file that is not text, it is outside every comment and literal, on a character that is no blank.
\<close>
theorem skipcomment_correct:
  assumes "skipcomment opt cp s = Inr (t, s')"
  shows "suffix_of t cp
    \<and> (\<not> (text_file opt \<or> ignoring s (depth s)) \<longrightarrow>
        t = [] \<or> incomment s' = NO_COMMENT \<and> hd t \<notin> {CHR 0x0A, CHR '' '', CHR 0x0D, CHR 0x09})"
proof -
  have "t = [] \<or> incomment s' = NO_COMMENT \<and> hd t \<notin> {CHR 0x0A, CHR '' '', CHR 0x0D, CHR 0x09}"
    if n: "\<not> (text_file opt \<or> ignoring s (depth s))"
  proof -
    from assms n obtain ic ls where "skip_comment (incomment s) (linestate s) cp = Inr (t, ic, ls)"
      "incomment s' = ic" by (auto simp: skipcomment_def error_def split: sum.splits)
    with skip_comment_stop show ?thesis by blast
  qed
  with skipcomment_suffix [OF assms] show ?thesis by blast
qed

theorem skipcomment_correct_witness:
  "\<exists>s'. skipcomment demo_options ''/* c */ x'' (demo_state []) = Inr (''x'', s') \<and> suffix_of ''x'' ''/* c */ x''"
proof -
  obtain s' where s': "skipcomment demo_options ''/* c */ x'' (demo_state []) = Inr (''x'', s')"
    by (simp add: skipcomment_def skip_comment.simps scan_step_def demo_options_def demo_state_def)
  from skipcomment_correct [OF s'] s' show ?thesis by blast
qed

text \<open>
  the directive that replaces an \<open>#elif\<close> or \<open>#else\<close> always fits the buffer: when the keyword
  is inside the line read and the newline is one of the two the program uses, \<open>keywordedit\<close>
  writes the whole replacement.
\<close>
theorem keywordedit_fits:
  assumes "keyword s \<le> length (tline s)" "length (tline s) < MAXLINE"
    "newline s = Some LF \<or> newline s = Some [CHR 0x0D, CHR 0x0A]" "r = ''else'' \<or> r = ''endif''"
  shows "tline (keywordedit opt r s) = take (keyword s) (tline s) @ r @ newline_str s
    \<and> length (tline (keywordedit opt r s)) < MAXLINE + EDITSLOP"
  using assms by (auto simp: keywordedit_def newline_str_def EDITSLOP_def MAXLINE_def)

theorem keywordedit_fits_witness:
  "tline (keywordedit demo_options ''else'' ((demo_state [])\<lparr>tline := ''#elif 1'', keyword := 1, newline := Some LF\<rparr>))
     = ''#else'' @ LF"
  using keywordedit_fits [of "(demo_state [])\<lparr>tline := ''#elif 1'', keyword := 1, newline := Some LF\<rparr>"
      "''else''" demo_options]
  by (simp add: MAXLINE_def newline_str_def)

section \<open>Symbols\<close>

lemma strlcmp_prefix: "n \<le> length t \<Longrightarrow> n \<le> length t' \<Longrightarrow> take n t = take n t' \<Longrightarrow> strlcmp s t n = strlcmp s t' n"
proof (induction n arbitrary: s t t')
  case (Suc n)
  from Suc.prems obtain c t1 t1' where t: "t = c # t1" "t' = c # t1'" by (cases t; cases t') auto
  from Suc.prems have p: "n \<le> length t1" "n \<le> length t1'" "take n t1 = take n t1'"
    by (simp_all add: t)
  show ?case unfolding t strlcmp.simps Suc.IH [OF p] ..
qed simp

lemma find_index_cong:
  "(\<And>m. i \<le> m \<Longrightarrow> m < i + k \<Longrightarrow> strlcmp (symname s m) t n = strlcmp (symname s' m) t' n) \<Longrightarrow>
     find_index s t n i k = find_index s' t' n i k"
proof (induction k arbitrary: i)
  case (Suc k)
  have "find_index s t n (Suc i) k = find_index s' t' n (Suc i) k"
    using Suc.prems by (intro Suc.IH) auto
  with Suc.prems [of i] show ?case by simp
qed simp

lemma find_index_last:
  "find_index s t n i k = None \<Longrightarrow> strlcmp (symname s (i + k)) t n = 0 \<Longrightarrow>
     find_index s t n i (Suc k) = Some (i + k)"
proof (induction k arbitrary: i)
  case (Suc k)
  then have "find_index s t n (Suc i) (Suc k) = Some (Suc i + k)"
    by (intro Suc.IH) (auto split: if_splits)
  with Suc.prems(1) show ?case by (simp split: if_splits)
qed simp

lemma find_index_first:
  "find_index s t n i k = Some j \<Longrightarrow> (\<And>m. m \<noteq> j \<Longrightarrow> symname s' m = symname s m) \<Longrightarrow>
     strlcmp (symname s' j) t n = 0 \<Longrightarrow> find_index s' t n i k = Some j"
proof (induction k arbitrary: i)
  case (Suc k)
  then show ?case by (cases "i = j") (auto split: if_splits)
qed simp

text \<open>
  after \<open>-Dname=val\<close>, a lookup of \<open>name\<close> anywhere in a line finds the symbol with that value
  and with the ignore flag it was given.
\<close>
theorem addsym_findsym:
  assumes "\<not> symlist opt" "name \<noteq> []" "\<forall>c \<in> set name. \<not> endsym c" "no_nul name"
    "rest = [] \<or> endsym (hd rest)" "nsyms s < MAXSYMS"
  shows "\<exists>s' i. addsym opt ig True (name @ CHR ''='' # val) s = Inr s'
    \<and> findsym opt (name @ rest) s' = (Some i, s') \<and> symvalue s' i = Some val \<and> ignore s' i = ig"
proof -
  let ?d = "name @ CHR ''='' # val" and ?r = "name @ rest" and ?n = "length name"
  have eq: "endsym (CHR ''='')" by (simp add: endsym_def ctype_defs)
  have sk: "skipsym ?d = CHR ''='' # val" "skipsym ?r = rest"
    using assms(3,5) eq by (auto simp: skipsym_dropWhile dropWhile_append2 intro: dropWhile_append2 [THEN trans])
      (cases rest; simp)
  have z: "strlcmp name ?d ?n = 0" "strlcmp name ?r ?n = 0"
    using strlcmp_eq_0 [of name "take ?n ?d" ?n] strlcmp_prefix [of ?n ?d name name]
      strlcmp_prefix [of ?n ?r name name] strlcmp_eq_0 [of name name ?n] assms(4) by simp_all
  have same: "find_index u ?r ?n i k = find_index u ?d ?n i k" for u i k
    by (rule find_index_cong, rule strlcmp_prefix) simp_all
  have f: "findsym opt ?d s = (find_index s ?d ?n 0 (nsyms s), s)"
    using sk assms(1,2) by (simp add: findsym_def)
  have g: "findsym opt ?r u = (find_index u ?d ?n 0 (nsyms u), u)" for u
    using sk assms(1,2) same by (simp add: findsym_def)
  show ?thesis
  proof (cases "find_index s ?d ?n 0 (nsyms s)")
    case None
    let ?s' = "s\<lparr>nsyms := nsyms s + 1, ignore := (ignore s)(nsyms s := ig),
        symname := (symname s)(nsyms s := name), symvalue := (symvalue s)(nsyms s := Some val)\<rparr>"
    have a: "addsym opt ig True ?d s = Inr ?s'"
      using None sk f assms(6) by (simp add: addsym_def Let_def)
    have "find_index ?s' ?d ?n 0 (nsyms ?s') = Some (nsyms s)"
    proof -
      have "find_index ?s' ?d ?n 0 (nsyms s) = find_index s ?d ?n 0 (nsyms s)"
        by (rule find_index_cong) simp
      with None find_index_last [of ?s' ?d ?n 0 "nsyms s"] z(1) show ?thesis by (simp del: find_index.simps)
    qed
    then show ?thesis using a g [of ?s'] by simp
  next
    case (Some j)
    let ?s' = "s\<lparr>ignore := (ignore s)(j := ig),
        symname := (symname s)(j := name), symvalue := (symvalue s)(j := Some val)\<rparr>"
    have a: "addsym opt ig True ?d s = Inr ?s'"
      using Some sk f by (simp add: addsym_def Let_def)
    have "find_index ?s' ?d ?n 0 (nsyms ?s') = Some j"
      by (rule find_index_first) (use Some z(1) in auto)
    then show ?thesis using a g [of ?s'] by simp
  qed
qed

theorem addsym_findsym_witness:
  "\<exists>s' i. addsym demo_options False True ''BAR=7'' (demo_state []) = Inr s'
     \<and> findsym demo_options ''BAR)'' s' = (Some i, s') \<and> symvalue s' i = Some ''7''"
  using addsym_findsym [of demo_options "''BAR''" "'')''" "demo_state []" False "''7''"]
  by (auto simp: demo_options_def demo_state_def endsym_def ctype_defs no_nul_def MAXSYMS_def)

end
