(* ===== verification/Fdt_Base.thy ===== *)
theory Fdt_Base
  imports Prelude
begin

text \<open>
  The flattened device tree of \<open>dtc/libfdt\<close>: the blob in memory, its header, and the functions of
  \<open>fdt.c\<close> that check the header and walk the structure block.

  A blob is the list of the bytes of its buffer and a pointer into it is the distance from its
  start, so \<open>NULL\<close> is \<open>None\<close> and a pointer \<open>p\<close> is \<open>Some p\<close>. A function returns \<open>None\<close> when it
  reads or writes outside of the buffer, which is undefined in C, and \<open>Some\<close> of what it returns
  otherwise. A C \<open>int\<close>, \<open>uint32_t\<close> or \<open>size_t\<close> is an integer of its range; every conversion to
  one of them is written out (\<open>s32\<close>, \<open>u32\<close>, \<open>u64\<close>; \<open>size_t\<close> has 64 bits), so that wrap-around is
  where the code has it. A trailing underscore of a C name is a prime here.
\<close>

named_theorems blob_simps \<open>what the accessors of a large enough buffer return\<close>

section \<open>Integers of a width\<close>

definition u32 :: "int \<Rightarrow> int" where
  "u32 x = x mod 2 ^ 32"

definition u64 :: "int \<Rightarrow> int" where
  "u64 x = x mod 2 ^ 64"

definition s32 :: "int \<Rightarrow> int" where
  "s32 x = (x + 2 ^ 31) mod 2 ^ 32 - 2 ^ 31"

abbreviation (input) INT_MAX :: int where
  "INT_MAX \<equiv> 2 ^ 31 - 1"

definition is_int :: "int \<Rightarrow> bool" where
  "is_int x = (- (2 ^ 31) \<le> x \<and> x \<le> INT_MAX)"

definition is_u32 :: "int \<Rightarrow> bool" where
  "is_u32 x = (0 \<le> x \<and> x < 2 ^ 32)"

lemma u32_id: "0 \<le> x \<Longrightarrow> x < 2 ^ 32 \<Longrightarrow> u32 x = x"
  by (simp add: u32_def)

lemma u32_neg: "- (2 ^ 32) \<le> x \<Longrightarrow> x < 0 \<Longrightarrow> u32 x = x + 2 ^ 32"
proof -
  assume a: "- (2 ^ 32) \<le> x" "x < 0"
  have "u32 x = (x + 2 ^ 32) mod 2 ^ 32" by (simp add: u32_def)
  also have "\<dots> = x + 2 ^ 32" using a by (intro mod_pos_pos_trivial) auto
  finally show ?thesis .
qed

lemma u32_over: "2 ^ 32 \<le> x \<Longrightarrow> x < 2 * 2 ^ 32 \<Longrightarrow> u32 x = x - 2 ^ 32"
proof -
  assume a: "2 ^ 32 \<le> x" "x < 2 * 2 ^ 32"
  have "u32 x = (x - 2 ^ 32) mod 2 ^ 32" unfolding u32_def by (metis minus_mod_self2)
  also have "\<dots> = x - 2 ^ 32" using a by (intro mod_pos_pos_trivial) auto
  finally show ?thesis .
qed

lemma u32_range: "0 \<le> u32 x" "u32 x < 2 ^ 32"
  by (simp_all add: u32_def)

lemma u64_id: "0 \<le> x \<Longrightarrow> x < 2 ^ 64 \<Longrightarrow> u64 x = x"
  by (simp add: u64_def)

lemma s32_id: "is_int x \<Longrightarrow> s32 x = x"
  by (simp add: s32_def is_int_def)

lemma s32_over: "2 ^ 31 \<le> x \<Longrightarrow> x < 2 ^ 32 + 2 ^ 31 \<Longrightarrow> s32 x = x - 2 ^ 32"
proof -
  assume a: "2 ^ 31 \<le> x" "x < 2 ^ 32 + 2 ^ 31"
  have "(x + 2 ^ 31) mod 2 ^ 32 = (x + 2 ^ 31 - 2 ^ 32) mod (2 ^ 32 :: int)" by (metis minus_mod_self2)
  also have "\<dots> = x + 2 ^ 31 - 2 ^ 32" using a by (intro mod_pos_pos_trivial) auto
  finally show ?thesis by (simp add: s32_def)
qed

lemma is_int_s32: "is_int (s32 x)"
proof -
  have "0 \<le> (x + 2 ^ 31) mod 2 ^ 32" "(x + 2 ^ 31) mod 2 ^ 32 < (2 ^ 32 :: int)" by simp_all
  then show ?thesis unfolding is_int_def s32_def by (simp add: linorder_not_less)
qed

section \<open>Bytes in memory\<close>

type_synonym blob = "8 word list"

definition inside :: "blob \<Rightarrow> int \<Rightarrow> int \<Rightarrow> bool" where
  "inside fdt p n = (0 \<le> p \<and> 0 \<le> n \<and> p + n \<le> int (length fdt))"

definition bytes_at :: "blob \<Rightarrow> int \<Rightarrow> int \<Rightarrow> 8 word list" where
  "bytes_at fdt p n = take (nat n) (drop (nat p) fdt)"

text \<open>Reading and writing \<open>n\<close> bytes at a pointer.\<close>

definition rd_bytes :: "blob \<Rightarrow> int \<Rightarrow> int \<Rightarrow> 8 word list option" where
  "rd_bytes fdt p n = (if inside fdt p n then Some (bytes_at fdt p n) else None)"

definition wr_bytes :: "blob \<Rightarrow> int \<Rightarrow> 8 word list \<Rightarrow> blob option" where
  "wr_bytes fdt p bs =
     (if inside fdt p (int (length bs))
      then Some (take (nat p) fdt @ bs @ drop (nat p + length bs) fdt) else None)"

definition rd8 :: "blob \<Rightarrow> int \<Rightarrow> 8 word option" where
  "rd8 fdt p = (if 0 \<le> p \<and> p < int (length fdt) then Some (fdt ! nat p) else None)"

text \<open>\<open>fdt32_ld\<close>, \<open>fdt64_ld\<close> and the stores: big-endian numbers.\<close>

fun be_value :: "8 word list \<Rightarrow> int" where
  "be_value bs = foldl (\<lambda>v b. v * 256 + uint b) 0 bs"

definition fdt32_ld :: "blob \<Rightarrow> int \<Rightarrow> int option" where
  "fdt32_ld fdt p = do { bs \<leftarrow> rd_bytes fdt p 4; Some (be_value bs) }"

definition fdt64_ld :: "blob \<Rightarrow> int \<Rightarrow> int option" where
  "fdt64_ld fdt p = do { bs \<leftarrow> rd_bytes fdt p 8; Some (be_value bs) }"

definition cpu_to_fdt32 :: "int \<Rightarrow> 8 word list" where
  "cpu_to_fdt32 v = map word_of_int [v div 2 ^ 24, v div 2 ^ 16, v div 2 ^ 8, v]"

definition cpu_to_fdt64 :: "int \<Rightarrow> 8 word list" where
  "cpu_to_fdt64 v = cpu_to_fdt32 (v div 2 ^ 32) @ cpu_to_fdt32 v"

definition wr32 :: "blob \<Rightarrow> int \<Rightarrow> int \<Rightarrow> blob option" where
  "wr32 fdt p v = wr_bytes fdt p (cpu_to_fdt32 v)"

text \<open>\<open>memchr\<close> for a byte among the next \<open>n\<close>, \<open>strlen\<close> and \<open>memcmp\<close> against a string the caller
  holds.\<close>

function mem_chr :: "blob \<Rightarrow> int \<Rightarrow> 8 word \<Rightarrow> int \<Rightarrow> int option option" where
  "mem_chr fdt p c n =
     (if n \<le> 0 then Some None
      else do { b \<leftarrow> rd8 fdt p; if b = c then Some (Some p) else mem_chr fdt (p + 1) c (n - 1) })"
  by auto
termination by (relation "measure (\<lambda>(fdt, p, c, n). nat n)") auto

declare mem_chr.simps [simp del]

definition str_len :: "blob \<Rightarrow> int \<Rightarrow> int option" where
  "str_len fdt p =
     do { r \<leftarrow> mem_chr fdt p 0 (int (length fdt) + 1 - p);
          case r of None \<Rightarrow> None | Some q \<Rightarrow> Some (q - p) }"

definition mem_eq :: "blob \<Rightarrow> int \<Rightarrow> 8 word list \<Rightarrow> bool option" where
  "mem_eq fdt p s = do { bs \<leftarrow> rd_bytes fdt p (int (length s)); Some (bs = s) }"

section \<open>The header\<close>

abbreviation (input) FDT_MAGIC :: int where "FDT_MAGIC \<equiv> 0xd00dfeed"
abbreviation (input) FDT_SW_MAGIC :: int where "FDT_SW_MAGIC \<equiv> 2 ^ 32 - 1 - FDT_MAGIC"

abbreviation (input) FDT_TAGSIZE :: int where "FDT_TAGSIZE \<equiv> 4"
abbreviation (input) FDT_BEGIN_NODE :: int where "FDT_BEGIN_NODE \<equiv> 1"
abbreviation (input) FDT_END_NODE :: int where "FDT_END_NODE \<equiv> 2"
abbreviation (input) FDT_PROP :: int where "FDT_PROP \<equiv> 3"
abbreviation (input) FDT_NOP :: int where "FDT_NOP \<equiv> 4"
abbreviation (input) FDT_END :: int where "FDT_END \<equiv> 9"

abbreviation (input) FDT_FIRST_SUPPORTED_VERSION :: int where "FDT_FIRST_SUPPORTED_VERSION \<equiv> 0x02"
abbreviation (input) FDT_LAST_SUPPORTED_VERSION :: int where "FDT_LAST_SUPPORTED_VERSION \<equiv> 0x11"

abbreviation (input) FDT_ERR_NOTFOUND :: int where "FDT_ERR_NOTFOUND \<equiv> 1"
abbreviation (input) FDT_ERR_EXISTS :: int where "FDT_ERR_EXISTS \<equiv> 2"
abbreviation (input) FDT_ERR_NOSPACE :: int where "FDT_ERR_NOSPACE \<equiv> 3"
abbreviation (input) FDT_ERR_BADOFFSET :: int where "FDT_ERR_BADOFFSET \<equiv> 4"
abbreviation (input) FDT_ERR_BADPATH :: int where "FDT_ERR_BADPATH \<equiv> 5"
abbreviation (input) FDT_ERR_BADPHANDLE :: int where "FDT_ERR_BADPHANDLE \<equiv> 6"
abbreviation (input) FDT_ERR_BADSTATE :: int where "FDT_ERR_BADSTATE \<equiv> 7"
abbreviation (input) FDT_ERR_TRUNCATED :: int where "FDT_ERR_TRUNCATED \<equiv> 8"
abbreviation (input) FDT_ERR_BADMAGIC :: int where "FDT_ERR_BADMAGIC \<equiv> 9"
abbreviation (input) FDT_ERR_BADVERSION :: int where "FDT_ERR_BADVERSION \<equiv> 10"
abbreviation (input) FDT_ERR_BADSTRUCTURE :: int where "FDT_ERR_BADSTRUCTURE \<equiv> 11"
abbreviation (input) FDT_ERR_BADLAYOUT :: int where "FDT_ERR_BADLAYOUT \<equiv> 12"
abbreviation (input) FDT_ERR_INTERNAL :: int where "FDT_ERR_INTERNAL \<equiv> 13"
abbreviation (input) FDT_ERR_BADNCELLS :: int where "FDT_ERR_BADNCELLS \<equiv> 14"
abbreviation (input) FDT_ERR_BADVALUE :: int where "FDT_ERR_BADVALUE \<equiv> 15"

text \<open>The fields of \<open>struct fdt_header\<close>, in its order.\<close>

definition fdt_magic :: "blob \<Rightarrow> int option" where
  "fdt_magic fdt = fdt32_ld fdt 0"

definition fdt_totalsize :: "blob \<Rightarrow> int option" where
  "fdt_totalsize fdt = fdt32_ld fdt 4"

definition fdt_off_dt_struct :: "blob \<Rightarrow> int option" where
  "fdt_off_dt_struct fdt = fdt32_ld fdt 8"

definition fdt_off_dt_strings :: "blob \<Rightarrow> int option" where
  "fdt_off_dt_strings fdt = fdt32_ld fdt 12"

definition fdt_off_mem_rsvmap :: "blob \<Rightarrow> int option" where
  "fdt_off_mem_rsvmap fdt = fdt32_ld fdt 16"

definition fdt_version :: "blob \<Rightarrow> int option" where
  "fdt_version fdt = fdt32_ld fdt 20"

definition fdt_last_comp_version :: "blob \<Rightarrow> int option" where
  "fdt_last_comp_version fdt = fdt32_ld fdt 24"

definition fdt_boot_cpuid_phys :: "blob \<Rightarrow> int option" where
  "fdt_boot_cpuid_phys fdt = fdt32_ld fdt 28"

definition fdt_size_dt_strings :: "blob \<Rightarrow> int option" where
  "fdt_size_dt_strings fdt = fdt32_ld fdt 32"

definition fdt_size_dt_struct :: "blob \<Rightarrow> int option" where
  "fdt_size_dt_struct fdt = fdt32_ld fdt 36"

lemmas header_defs = fdt_magic_def fdt_totalsize_def fdt_off_dt_struct_def fdt_off_dt_strings_def
  fdt_off_mem_rsvmap_def fdt_version_def fdt_last_comp_version_def fdt_boot_cpuid_phys_def
  fdt_size_dt_strings_def fdt_size_dt_struct_def

definition fdt_ro_probe' :: "blob \<Rightarrow> int option" where
  "fdt_ro_probe' fdt = do {
     magic \<leftarrow> fdt_magic fdt;
     if magic = FDT_MAGIC then do {
       version \<leftarrow> fdt_version fdt;
       if version < FDT_FIRST_SUPPORTED_VERSION then Some (- FDT_ERR_BADVERSION)
       else do {
         last \<leftarrow> fdt_last_comp_version fdt;
         Some (if last > FDT_LAST_SUPPORTED_VERSION then - FDT_ERR_BADVERSION else 0) } }
     else if magic = FDT_SW_MAGIC then do {
       size \<leftarrow> fdt_size_dt_struct fdt;
       Some (if size = 0 then - FDT_ERR_BADSTATE else 0) }
     else Some (- FDT_ERR_BADMAGIC) }"

definition check_off' :: "int \<Rightarrow> int \<Rightarrow> int \<Rightarrow> bool" where
  "check_off' hdrsize totalsize off \<longleftrightarrow> off \<ge> hdrsize \<and> off \<le> totalsize"

definition check_block' :: "int \<Rightarrow> int \<Rightarrow> int \<Rightarrow> int \<Rightarrow> bool" where
  "check_block' hdrsize totalsize base siz =
     (if \<not> check_off' hdrsize totalsize base then False
      else if u32 (base + siz) < base then False
      else if \<not> check_off' hdrsize totalsize (u32 (base + siz)) then False
      else True)"

definition fdt_header_size' :: "int \<Rightarrow> int" where
  "fdt_header_size' version =
     (if version \<le> 1 then 7 * 4
      else if version \<le> 2 then 7 * 4 + 4
      else if version \<le> 3 then 7 * 4 + 4 + 4
      else if version \<le> 16 then 7 * 4 + 4 + 4
      else 7 * 4 + 4 + 4 + 4)"

text \<open>\<open>fdt_check_header\<close>, after the magic number and the versions have been checked.\<close>

definition check_blocks :: "blob \<Rightarrow> int \<Rightarrow> int option" where
  "check_blocks fdt hdrsize = do {
     total \<leftarrow> fdt_totalsize fdt;
     if total < hdrsize \<or> total > INT_MAX then Some (- FDT_ERR_TRUNCATED)
     else do {
       rsvmap \<leftarrow> fdt_off_mem_rsvmap fdt;
       if \<not> check_off' hdrsize total rsvmap then Some (- FDT_ERR_TRUNCATED)
       else do {
         version \<leftarrow> fdt_version fdt;
         struct \<leftarrow> fdt_off_dt_struct fdt;
         ok \<leftarrow> (if version < 17 then Some (check_off' hdrsize total struct)
               else do { size \<leftarrow> fdt_size_dt_struct fdt; Some (check_block' hdrsize total struct size) });
         if \<not> ok then Some (- FDT_ERR_TRUNCATED)
         else do {
           strings \<leftarrow> fdt_off_dt_strings fdt;
           size \<leftarrow> fdt_size_dt_strings fdt;
           Some (if \<not> check_block' hdrsize total strings size then - FDT_ERR_TRUNCATED else 0) } } } }"

definition fdt_check_header :: "blob \<Rightarrow> int option" where
  "fdt_check_header fdt = do {
     magic \<leftarrow> fdt_magic fdt;
     if magic \<noteq> FDT_MAGIC then Some (- FDT_ERR_BADMAGIC)
     else do {
       version \<leftarrow> fdt_version fdt;
       last \<leftarrow> fdt_last_comp_version fdt;
       if version < FDT_FIRST_SUPPORTED_VERSION \<or> last > FDT_LAST_SUPPORTED_VERSION
       then Some (- FDT_ERR_BADVERSION)
       else if version < last then Some (- FDT_ERR_BADVERSION)
       else check_blocks fdt (fdt_header_size' version) } }"

section \<open>Tags\<close>

definition fdt_offset_ptr' :: "blob \<Rightarrow> int \<Rightarrow> int option" where
  "fdt_offset_ptr' fdt offset = do { struct \<leftarrow> fdt_off_dt_struct fdt; Some (struct + offset) }"

definition fdt_offset_ptr :: "blob \<Rightarrow> int \<Rightarrow> int \<Rightarrow> int option option" where
  "fdt_offset_ptr fdt offset len = do {
     struct \<leftarrow> fdt_off_dt_struct fdt;
     total \<leftarrow> fdt_totalsize fdt;
     let absoffset = u32 (offset + struct);
     if absoffset < u32 offset \<or> u32 (absoffset + len) < absoffset \<or> u32 (absoffset + len) > total
     then Some None
     else do {
       version \<leftarrow> fdt_version fdt;
       bad \<leftarrow> (if version \<ge> 0x11 then do {
                 size \<leftarrow> fdt_size_dt_struct fdt;
                 Some (u32 (offset + len) < u32 offset \<or> u32 (offset + len) > size) }
              else Some False);
       if bad then Some None
       else do { p \<leftarrow> fdt_offset_ptr' fdt offset; Some (Some p) } } }"

text \<open>\<open>FDT_ALIGN\<close> for a power of two.\<close>

definition FDT_ALIGN :: "int \<Rightarrow> int \<Rightarrow> int" where
  "FDT_ALIGN x a = (x + a - 1) div a * a"

definition FDT_TAGALIGN :: "int \<Rightarrow> int" where
  "FDT_TAGALIGN x = FDT_ALIGN x FDT_TAGSIZE"

text \<open>
  The loop that skips the name of a node: the offset after its NUL, or \<open>None\<close> inside where
  \<open>fdt_offset_ptr\<close> has returned \<open>NULL\<close>. It ends because the absolute offset grows and
  \<open>fdt_offset_ptr\<close> refuses one that has wrapped.
\<close>

definition absolute :: "blob \<Rightarrow> int \<Rightarrow> int" where
  "absolute fdt offset = u32 (offset + the (fdt_off_dt_struct fdt))"

lemma s32_u32: "u32 (s32 x + y) = u32 (x + y)"
proof -
  have "u32 (s32 x + y) = ((x + 2 ^ 31) mod 2 ^ 32 + (y - 2 ^ 31)) mod 2 ^ 32"
    unfolding u32_def s32_def by (simp add: algebra_simps)
  also have "\<dots> = ((x + 2 ^ 31) + (y - 2 ^ 31)) mod 2 ^ 32" by (simp only: mod_add_left_eq)
  finally show ?thesis by (simp add: u32_def algebra_simps)
qed

lemma offset_ptr_absolute:
  assumes "fdt_offset_ptr fdt offset 1 = Some (Some p)"
  shows "absolute fdt (s32 (offset + 1)) = absolute fdt offset + 1" "absolute fdt offset < 2 ^ 32"
proof -
  obtain st where st: "fdt_off_dt_struct fdt = Some st"
    using assms by (auto simp: fdt_offset_ptr_def)
  let ?a = "u32 (offset + st)"
  have a: "absolute fdt offset = ?a" by (simp add: absolute_def st)
  have nw: "\<not> u32 (?a + 1) < ?a"
    using assms by (auto simp: fdt_offset_ptr_def st Let_def split: if_splits)
  have "u32 (offset + 1 + st) = u32 (?a + 1)"
    unfolding u32_def by (metis add.commute add.left_commute mod_add_left_eq)
  then have "absolute fdt (s32 (offset + 1)) = u32 (?a + 1)"
    by (simp add: absolute_def st s32_u32)
  moreover have "u32 (?a + 1) = ?a + 1"
  proof (cases "?a + 1 < 2 ^ 32")
    case True
    then show ?thesis using u32_range [of "offset + st"] by (intro u32_id) auto
  next
    case False
    then have "?a = 2 ^ 32 - 1" using u32_range(2) [of "offset + st"] by linarith
    then show ?thesis using nw by (simp add: u32_def)
  qed
  ultimately show "absolute fdt (s32 (offset + 1)) = absolute fdt offset + 1" using a by simp
  show "absolute fdt offset < 2 ^ 32" unfolding a by (rule u32_range)
qed

function skip_name :: "blob \<Rightarrow> int \<Rightarrow> int option option" where
  "skip_name fdt offset = do {
     p \<leftarrow> fdt_offset_ptr fdt offset 1;
     case p of
       None \<Rightarrow> Some None
     | Some q \<Rightarrow> do {
         c \<leftarrow> rd8 fdt q;
         if c \<noteq> 0 then skip_name fdt (s32 (offset + 1)) else Some (Some (s32 (offset + 1))) } }"
  by auto
termination
  by (relation "measure (\<lambda>(fdt, offset). nat (2 ^ 32 - absolute fdt offset))")
    (use offset_ptr_absolute in \<open>fastforce\<close>)+

declare skip_name.simps [simp del]

text \<open>The case of a property: the offset after its value, from the offset of its length.\<close>

definition skip_property :: "blob \<Rightarrow> int \<Rightarrow> int option option" where
  "skip_property fdt offset = do {
     lenp \<leftarrow> fdt_offset_ptr fdt offset 4;
     case lenp of
       None \<Rightarrow> Some None
     | Some q \<Rightarrow> do {
         len \<leftarrow> fdt32_ld fdt q;
         version \<leftarrow> fdt_version fdt;
         let offset = s32 (offset + (12 - FDT_TAGSIZE + len));
         Some (Some (if version < 0x10 \<and> len \<ge> 8 \<and> u32 (offset - len) mod 8 \<noteq> 0
                     then s32 (offset + 4) else offset)) } }"

definition fdt_next_tag :: "blob \<Rightarrow> int \<Rightarrow> (int \<times> int) option" where
  "fdt_next_tag fdt startoffset = do {
     tagp \<leftarrow> fdt_offset_ptr fdt startoffset FDT_TAGSIZE;
     case tagp of
       None \<Rightarrow> Some (FDT_END, - FDT_ERR_TRUNCATED)
     | Some p \<Rightarrow> do {
         tag \<leftarrow> fdt32_ld fdt p;
         let offset = s32 (startoffset + FDT_TAGSIZE);
         after \<leftarrow>
           (if tag = FDT_BEGIN_NODE then skip_name fdt offset
            else if tag = FDT_PROP then skip_property fdt offset
            else if tag = FDT_END \<or> tag = FDT_END_NODE \<or> tag = FDT_NOP then Some (Some offset)
            else Some None);
         case after of
           None \<Rightarrow> Some (FDT_END, - FDT_ERR_BADSTRUCTURE)
         | Some offset \<Rightarrow> do {
             r \<leftarrow> fdt_offset_ptr fdt startoffset (u32 (offset - startoffset));
             case r of
               None \<Rightarrow> Some (FDT_END, - FDT_ERR_BADSTRUCTURE)
             | Some _ \<Rightarrow> Some (tag, s32 (FDT_TAGALIGN offset)) } } }"

definition check_offset :: "int \<Rightarrow> blob \<Rightarrow> int \<Rightarrow> int option" where
  "check_offset wanted fdt offset =
     (if offset < 0 \<or> offset mod FDT_TAGSIZE \<noteq> 0 then Some (- FDT_ERR_BADOFFSET)
      else do {
        (tag, nextoffset) \<leftarrow> fdt_next_tag fdt offset;
        Some (if tag \<noteq> wanted then - FDT_ERR_BADOFFSET else nextoffset) })"

definition fdt_check_node_offset' :: "blob \<Rightarrow> int \<Rightarrow> int option" where
  "fdt_check_node_offset' = check_offset FDT_BEGIN_NODE"

definition fdt_check_prop_offset' :: "blob \<Rightarrow> int \<Rightarrow> int option" where
  "fdt_check_prop_offset' = check_offset FDT_PROP"

section \<open>Nodes\<close>

text \<open>
  The loops over the tags take fuel: on a malformed blob one of them does not end (the property
  \<open>wrapping_property_stalls\<close>). \<open>blob_fuel\<close> is enough for every other blob.
\<close>

definition blob_fuel :: "blob \<Rightarrow> nat" where
  "blob_fuel fdt = length fdt + 2"

fun next_node_n :: "nat \<Rightarrow> blob \<Rightarrow> int \<Rightarrow> int option \<Rightarrow> (int \<times> int option) option" where
  "next_node_n 0 fdt nextoffset depth = None"
| "next_node_n (Suc n) fdt nextoffset depth = do {
     let offset = nextoffset;
     (tag, nextoffset) \<leftarrow> fdt_next_tag fdt offset;
     if tag = FDT_BEGIN_NODE then Some (offset, map_option (\<lambda>d. s32 (d + 1)) depth)
     else if tag = FDT_END_NODE then
       (case depth of
          None \<Rightarrow> next_node_n n fdt nextoffset depth
        | Some d \<Rightarrow>
            if s32 (d - 1) < 0 then Some (nextoffset, Some (s32 (d - 1)))
            else next_node_n n fdt nextoffset (Some (s32 (d - 1))))
     else if tag = FDT_END then
       Some (if nextoffset \<ge> 0 \<or> (nextoffset = - FDT_ERR_TRUNCATED \<and> depth = None)
             then - FDT_ERR_NOTFOUND else nextoffset, depth)
     else next_node_n n fdt nextoffset depth }"

definition fdt_next_node :: "blob \<Rightarrow> int \<Rightarrow> int option \<Rightarrow> (int \<times> int option) option" where
  "fdt_next_node fdt offset depth =
     (if offset \<ge> 0 then do {
        nextoffset \<leftarrow> fdt_check_node_offset' fdt offset;
        if nextoffset < 0 then Some (nextoffset, depth)
        else next_node_n (blob_fuel fdt) fdt nextoffset depth }
      else next_node_n (blob_fuel fdt) fdt 0 depth)"

definition fdt_first_subnode :: "blob \<Rightarrow> int \<Rightarrow> int option" where
  "fdt_first_subnode fdt offset = do {
     (offset, depth) \<leftarrow> fdt_next_node fdt offset (Some 0);
     Some (if offset < 0 \<or> depth \<noteq> Some 1 then - FDT_ERR_NOTFOUND else offset) }"

fun next_subnode_n :: "nat \<Rightarrow> blob \<Rightarrow> int \<Rightarrow> int \<Rightarrow> int option" where
  "next_subnode_n 0 fdt offset depth = None"
| "next_subnode_n (Suc n) fdt offset depth = do {
     (offset, d) \<leftarrow> fdt_next_node fdt offset (Some depth);
     let depth = the d;
     if offset < 0 \<or> depth < 1 then Some (- FDT_ERR_NOTFOUND)
     else if depth > 1 then next_subnode_n n fdt offset depth
     else Some offset }"

definition fdt_next_subnode :: "blob \<Rightarrow> int \<Rightarrow> int option" where
  "fdt_next_subnode fdt offset = next_subnode_n (blob_fuel fdt) fdt offset 1"

section \<open>Strings and moves\<close>

text \<open>\<open>fdt_find_string_\<close>: the first place of the table where the string stands with its NUL. The
  table is \<open>tabsize\<close> bytes at \<open>strtab\<close>; \<open>p\<close> runs up to its last possible place.\<close>

function find_string_at :: "blob \<Rightarrow> int \<Rightarrow> int \<Rightarrow> 8 word list \<Rightarrow> int option option" where
  "find_string_at fdt p lst s =
     (if p \<le> lst then do {
        eq \<leftarrow> mem_eq fdt p (s @ [0]);
        if eq then Some (Some p) else find_string_at fdt (p + 1) lst s }
      else Some None)"
  by auto
termination by (relation "measure (\<lambda>(fdt, p, lst, s). nat (lst - p + 1))") auto

declare find_string_at.simps [simp del]

definition fdt_find_string' :: "blob \<Rightarrow> int \<Rightarrow> int \<Rightarrow> 8 word list \<Rightarrow> int option option" where
  "fdt_find_string' fdt strtab tabsize s =
     find_string_at fdt strtab (strtab + tabsize - s32 (int (length s) + 1)) s"

text \<open>\<open>fdt_move\<close> into another buffer; its contents are the result.\<close>

definition fdt_move :: "blob \<Rightarrow> blob \<Rightarrow> int \<Rightarrow> (int \<times> blob) option" where
  "fdt_move fdt buf bufsize = do {
     err \<leftarrow> fdt_ro_probe' fdt;
     if err \<noteq> 0 then Some (err, buf)
     else do {
       total \<leftarrow> fdt_totalsize fdt;
       if total > u32 bufsize then Some (- FDT_ERR_NOSPACE, buf)
       else do {
         bs \<leftarrow> rd_bytes fdt 0 total;
         buf \<leftarrow> wr_bytes buf 0 bs;
         Some (0, buf) } } }"

end
