(* ===== verification/Fdt_Safe.thy ===== *)
theory Fdt_Safe
  imports Fdt_Base
begin

text \<open>
  Reading a blob whose header has been checked: the accessors never read outside of the buffer,
  and what \<open>fdt_offset_ptr\<close>, \<open>fdt_next_tag\<close> and the node walk return is described by bounds on the
  structure block.
\<close>

section \<open>Bytes\<close>

lemma length_bytes_at: "inside fdt p n \<Longrightarrow> length (bytes_at fdt p n) = nat n"
  by (auto simp: inside_def bytes_at_def)

lemma foldl_be_value: "foldl (\<lambda>v b. v * 256 + uint b) a bs
    = a * 256 ^ length bs + foldl (\<lambda>v b. v * 256 + uint b) 0 (bs :: 8 word list)"
proof (induction bs arbitrary: a)
  case (Cons b bs)
  have "foldl (\<lambda>v b. v * 256 + uint b) a (b # bs) = foldl (\<lambda>v b. v * 256 + uint b) (a * 256 + uint b) bs"
    "foldl (\<lambda>v b. v * 256 + uint b) 0 (b # bs) = foldl (\<lambda>v b. v * 256 + uint b) (uint b) bs" by simp_all
  then show ?case by (simp only: Cons.IH [of "a * 256 + uint b"] Cons.IH [of "uint b"]) (simp add: algebra_simps)
qed simp

lemma be_value_Cons: "be_value (b # bs) = uint b * 256 ^ length bs + be_value bs"
  using foldl_be_value [of "uint b" bs] by simp

lemma be_value_nonneg: "0 \<le> be_value bs"
proof (induction bs)
  case (Cons b bs)
  then show ?case by (simp add: be_value_Cons del: be_value.simps)
qed simp

lemma be_value_less: "be_value bs < 256 ^ length bs"
proof (induction bs)
  case (Cons b bs)
  have "uint b + 1 \<le> 256" using uint_lt2p [of b] by simp
  then have "(uint b + 1) * 256 ^ length bs \<le> 256 * 256 ^ length bs"
    by (rule mult_right_mono) simp
  then have "uint b * 256 ^ length bs + 256 ^ length bs \<le> 256 * 256 ^ length bs"
    unfolding distrib_right mult_1 .
  with Cons show ?case unfolding be_value_Cons list.size add_0_right add_Suc_right power_Suc by linarith
qed simp

declare be_value.simps [simp del]

definition hdr :: "blob \<Rightarrow> int \<Rightarrow> int" where
  "hdr fdt p = be_value (bytes_at fdt p 4)"

lemma ld32_inside: "inside fdt p 4 \<Longrightarrow> fdt32_ld fdt p = Some (hdr fdt p)"
  by (simp add: fdt32_ld_def rd_bytes_def hdr_def)

lemma hdr_range: "0 \<le> hdr fdt p" "hdr fdt p < 2 ^ 32"
proof -
  have "length (bytes_at fdt p 4) \<le> 4" by (simp add: bytes_at_def)
  then have "(256 :: int) ^ length (bytes_at fdt p 4) \<le> 256 ^ 4" by (intro power_increasing) auto
  then show "hdr fdt p < 2 ^ 32" using be_value_less [of "bytes_at fdt p 4"] by (simp add: hdr_def)
qed (simp add: hdr_def be_value_nonneg)

section \<open>A blob whose header has been checked\<close>

definition blob_ok :: "blob \<Rightarrow> bool" where
  "blob_ok fdt \<longleftrightarrow> 40 \<le> length fdt \<and> hdr fdt 4 \<le> int (length fdt) \<and> hdr fdt 4 \<le> INT_MAX
     \<and> 28 \<le> hdr fdt 8 \<and> hdr fdt 8 \<le> hdr fdt 4"

text \<open>The bytes of the structure block that \<open>fdt_offset_ptr\<close> allows.\<close>

definition struct_end :: "blob \<Rightarrow> int" where
  "struct_end fdt =
     (if hdr fdt 20 \<ge> 0x11 then min (hdr fdt 4 - hdr fdt 8) (hdr fdt 36) else hdr fdt 4 - hdr fdt 8)"

lemma header_reads [blob_simps]:
  assumes "40 \<le> length fdt"
  shows "fdt_magic fdt = Some (hdr fdt 0)" "fdt_totalsize fdt = Some (hdr fdt 4)"
    "fdt_off_dt_struct fdt = Some (hdr fdt 8)" "fdt_off_dt_strings fdt = Some (hdr fdt 12)"
    "fdt_off_mem_rsvmap fdt = Some (hdr fdt 16)" "fdt_version fdt = Some (hdr fdt 20)"
    "fdt_last_comp_version fdt = Some (hdr fdt 24)" "fdt_boot_cpuid_phys fdt = Some (hdr fdt 28)"
    "fdt_size_dt_strings fdt = Some (hdr fdt 32)" "fdt_size_dt_struct fdt = Some (hdr fdt 36)"
  using assms by (simp_all add: header_defs ld32_inside inside_def)

lemma blob_okD:
  assumes "blob_ok fdt"
  shows "40 \<le> length fdt" "hdr fdt 4 \<le> int (length fdt)" "hdr fdt 4 \<le> INT_MAX" "28 \<le> hdr fdt 8"
    "hdr fdt 8 \<le> hdr fdt 4"
  using assms by (simp_all add: blob_ok_def)

lemmas blob_reads [blob_simps] = header_reads [OF blob_okD(1)]

lemma check_header_ok:
  assumes "fdt_check_header fdt = Some 0" "40 \<le> length fdt" "hdr fdt 4 \<le> int (length fdt)"
  shows "blob_ok fdt" "hdr fdt 0 = FDT_MAGIC" "2 \<le> hdr fdt 20" "hdr fdt 24 \<le> 0x11"
  using assms by (auto simp: fdt_check_header_def check_blocks_def blob_simps fdt_header_size'_def
      check_off'_def check_block'_def blob_ok_def split: if_splits)

lemma struct_end_le: "struct_end fdt \<le> hdr fdt 4 - hdr fdt 8"
  by (simp add: struct_end_def)

lemma struct_end_int: "blob_ok fdt \<Longrightarrow> struct_end fdt \<le> INT_MAX - 28"
  using struct_end_le [of fdt] blob_okD [of fdt] by linarith

lemma struct_inside:
  "blob_ok fdt \<Longrightarrow> 0 \<le> off \<Longrightarrow> 0 \<le> n \<Longrightarrow> off + n \<le> struct_end fdt \<Longrightarrow> inside fdt (hdr fdt 8 + off) n"
  using struct_end_le [of fdt] blob_okD [of fdt] by (simp add: inside_def)

theorem offset_ptr_spec:
  assumes ok: "blob_ok fdt" and off: "is_int off" and n: "is_u32 n"
  shows "fdt_offset_ptr fdt off n =
    Some (if 0 \<le> off \<and> off + n \<le> struct_end fdt then Some (hdr fdt 8 + off) else None)"
proof -
  note b = blob_okD [OF ok]
  let ?s = "hdr fdt 8" let ?t = "hdr fdt 4"
  have n0: "0 \<le> n" "n < 2 ^ 32" using n by (simp_all add: is_u32_def)
  show ?thesis
  proof (cases "0 \<le> off")
    case False
    have neg: "u32 off = off + 2 ^ 32" using off False by (intro u32_neg) (auto simp: is_int_def)
    have "u32 (off + ?s) < u32 off \<or> u32 (off + ?s) > ?t"
    proof (cases "off + ?s < 0")
      case True
      then have "u32 (off + ?s) = off + ?s + 2 ^ 32"
        using off b by (intro u32_neg) (auto simp: is_int_def)
      then show ?thesis using b off by (auto simp: is_int_def)
    next
      case nn: False
      then have "u32 (off + ?s) = off + ?s" using False b by (intro u32_id) auto
      then show ?thesis using neg b False by auto
    qed
    moreover have "u32 (u32 (off + ?s) + n) < u32 (off + ?s) \<or> u32 (u32 (off + ?s) + n) > ?t"
      if "u32 (off + ?s) > ?t"
    proof (cases "u32 (off + ?s) + n < 2 ^ 32")
      case True
      then have "u32 (u32 (off + ?s) + n) = u32 (off + ?s) + n"
        using n0 u32_range(1) [of "off + ?s"] by (intro u32_id) auto
      then show ?thesis using that n0 by auto
    next
      case over: False
      then have "u32 (u32 (off + ?s) + n) = u32 (off + ?s) + n - 2 ^ 32"
        using n0 u32_range(2) [of "off + ?s"] by (intro u32_over) auto
      then show ?thesis using n0 by auto
    qed
    ultimately show ?thesis using False ok by (auto simp: fdt_offset_ptr_def blob_simps Let_def)
  next
    case True
    have id: "u32 off = off" using off True by (intro u32_id) (auto simp: is_int_def)
    have sum: "u32 (off + ?s) = off + ?s" using off True b by (intro u32_id) (auto simp: is_int_def)
    have wrap: "u32 (x + n) < x \<or> u32 (x + n) > m \<longleftrightarrow> x + n > m"
      if "0 \<le> x" "x < 2 ^ 32" "0 \<le> m" "m < 2 ^ 32" for x m :: int
    proof (cases "x + n < 2 ^ 32")
      case True
      then have "u32 (x + n) = x + n" using n0 that by (intro u32_id) auto
      then show ?thesis using n0 by auto
    next
      case False
      then have "u32 (x + n) = x + n - 2 ^ 32" using n0 that by (intro u32_over) auto
      then show ?thesis using n0 that False by auto
    qed
    have w1: "u32 (off + ?s + n) < off + ?s \<or> u32 (off + ?s + n) > ?t \<longleftrightarrow> off + ?s + n > ?t"
      using wrap [of "off + ?s" ?t] off True b by (auto simp: is_int_def)
    have w2: "u32 (off + n) < off \<or> u32 (off + n) > hdr fdt 36 \<longleftrightarrow> off + n > hdr fdt 36"
      using wrap [of off "hdr fdt 36"] off True hdr_range [of fdt 36] by (auto simp: is_int_def)
    show ?thesis using True ok w1 w2 hdr_range(1) [of fdt 8]
      by (simp add: fdt_offset_ptr_def blob_simps Let_def id sum fdt_offset_ptr'_def struct_end_def)
        (auto simp: algebra_simps)
  qed
qed

section \<open>Tags\<close>

lemma rd8_inside: "inside fdt p 1 \<Longrightarrow> rd8 fdt p = Some (fdt ! nat p)"
  by (auto simp: rd8_def inside_def)

definition name_ends :: "blob \<Rightarrow> int \<Rightarrow> int \<Rightarrow> bool" where
  "name_ends fdt off e \<longleftrightarrow> off < e \<and> e \<le> struct_end fdt \<and> fdt ! nat (hdr fdt 8 + (e - 1)) = 0
     \<and> (\<forall>i. off \<le> i \<and> i < e - 1 \<longrightarrow> fdt ! nat (hdr fdt 8 + i) \<noteq> 0)"

lemma skip_name_spec:
  assumes "blob_ok fdt" "0 \<le> off" "is_int off"
  shows "\<exists>r. skip_name fdt off = Some r \<and> (\<forall>e. r = Some e \<longrightarrow> name_ends fdt off e)"
  using assms
proof (induction fdt off rule: skip_name.induct)
  case (1 fdt off)
  note ptr = offset_ptr_spec [OF 1(2) 1(4), of 1]
  let ?c = "fdt ! nat (hdr fdt 8 + off)"
  show ?case
  proof (cases "off + 1 \<le> struct_end fdt")
    case False
    then show ?thesis using ptr by (simp add: skip_name.simps [of fdt off] is_u32_def)
  next
    case True
    then have p: "fdt_offset_ptr fdt off 1 = Some (Some (hdr fdt 8 + off))"
      using ptr 1(3) by (simp add: is_u32_def)
    have c: "rd8 fdt (hdr fdt 8 + off) = Some ?c"
      using struct_inside [OF 1(2,3), of 1] True by (intro rd8_inside) simp
    have e: "s32 (off + 1) = off + 1" "is_int (off + 1)"
      using True struct_end_int [OF 1(2)] 1(3) by (auto intro!: s32_id simp: is_int_def)
    show ?thesis
    proof (cases "?c = 0")
      case True
      with \<open>off + 1 \<le> struct_end fdt\<close> show ?thesis
        by (auto simp add: skip_name.simps [of fdt off] p c e name_ends_def)
    next
      case False
      obtain r where r: "skip_name fdt (off + 1) = Some r"
        "\<forall>e. r = Some e \<longrightarrow> name_ends fdt (off + 1) e"
        using 1(1) [OF p refl c False] 1(2,3) e by auto
      have "name_ends fdt off e" if "name_ends fdt (off + 1) e" for e
        unfolding name_ends_def
      proof (intro conjI allI impI)
        fix i assume "off \<le> i \<and> i < e - 1"
        then show "fdt ! nat (hdr fdt 8 + i) \<noteq> 0"
          using that False by (cases "i = off") (auto simp: name_ends_def)
      qed (use that in \<open>auto simp: name_ends_def\<close>)
      with r False show ?thesis by (auto simp: skip_name.simps [of fdt off] p c e)
    qed
  qed
qed

text \<open>The value of the length field of a property at an offset.\<close>

definition prop_len :: "blob \<Rightarrow> int \<Rightarrow> int" where
  "prop_len fdt off = hdr fdt (hdr fdt 8 + off + 4)"

definition prop_pad :: "blob \<Rightarrow> int \<Rightarrow> int" where
  "prop_pad fdt off =
     (if hdr fdt 20 < 0x10 \<and> prop_len fdt off \<ge> 8 \<and> (off + 12) mod 8 \<noteq> 0 then 4 else 0)"

text \<open>The bytes of a property with its header and the padding of old versions, as the code adds
  them up.\<close>

definition prop_size :: "blob \<Rightarrow> int \<Rightarrow> int" where
  "prop_size fdt off = u32 (12 + prop_len fdt off + prop_pad fdt off)"

lemma TAGALIGN_bounds: "x \<le> FDT_TAGALIGN x" "FDT_TAGALIGN x \<le> x + 3" "FDT_TAGALIGN x mod 4 = 0"
  by (auto simp: FDT_TAGALIGN_def FDT_ALIGN_def)

lemma s32_cong: "is_int y \<Longrightarrow> x mod 2 ^ 32 = y mod 2 ^ 32 \<Longrightarrow> s32 x = y"
proof -
  assume y: "is_int y" and m: "x mod 2 ^ 32 = y mod 2 ^ 32"
  have "(x + 2 ^ 31) mod 2 ^ 32 = (y + 2 ^ 31) mod 2 ^ 32" using m by (metis mod_add_left_eq)
  then have "s32 x = s32 y" by (simp add: s32_def)
  then show ?thesis using s32_id [OF y] by simp
qed

lemma s32_under: "- (2 ^ 32) - 2 ^ 31 \<le> x \<Longrightarrow> x < - (2 ^ 31) \<Longrightarrow> s32 x = x + 2 ^ 32"
proof (rule s32_cong)
  show "x mod 2 ^ 32 = (x + 2 ^ 32) mod 2 ^ 32" by (rule mod_add_self2 [symmetric])
qed (simp add: is_int_def)

lemma s32_add: "s32 (s32 x + y) = s32 (x + y)"
proof (rule s32_cong)
  have "(s32 x + y) mod 2 ^ 32 = (x + y) mod 2 ^ 32" using s32_u32 [of x y] by (simp add: u32_def)
  also have "\<dots> = s32 (x + y) mod 2 ^ 32" using s32_u32 [of "x + y" 0] by (simp add: u32_def)
  finally show "(s32 x + y) mod 2 ^ 32 = s32 (x + y) mod 2 ^ 32" .
qed (rule is_int_s32)

lemma after_spec:
  assumes ok: "blob_ok fdt" and off: "0 \<le> off" "is_int off"
  shows "fdt_offset_ptr fdt off (u32 (s32 (off + d) - off)) =
           Some (if off + u32 d \<le> struct_end fdt then Some (hdr fdt 8 + off) else None)"
    "off + u32 d \<le> struct_end fdt \<Longrightarrow> s32 (off + d) = off + u32 d"
    "off + u32 d \<le> struct_end fdt \<Longrightarrow> s32 (FDT_TAGALIGN (off + u32 d)) = FDT_TAGALIGN (off + u32 d)"
proof -
  have d: "u32 (s32 (off + d) - off) = u32 d" using s32_u32 [of "off + d" "- off"] by simp
  show "fdt_offset_ptr fdt off (u32 (s32 (off + d) - off)) =
      Some (if off + u32 d \<le> struct_end fdt then Some (hdr fdt 8 + off) else None)"
    using offset_ptr_spec [OF ok off(2), of "u32 d"] off(1) u32_range [of d]
    by (simp add: d is_u32_def)
  assume le: "off + u32 d \<le> struct_end fdt"
  then have i: "is_int (off + u32 d)"
    using struct_end_int [OF ok] off u32_range(1) [of d] by (simp add: is_int_def)
  then show "s32 (off + d) = off + u32 d"
    by (intro s32_cong) (auto simp: u32_def mod_add_right_eq)
  show "s32 (FDT_TAGALIGN (off + u32 d)) = FDT_TAGALIGN (off + u32 d)"
    using TAGALIGN_bounds [of "off + u32 d"] le struct_end_int [OF ok] off u32_range(1) [of d]
    by (intro s32_id) (auto simp: is_int_def)
qed

lemma next_tag_truncated:
  assumes "blob_ok fdt" "is_int off" "\<not> (0 \<le> off \<and> off + 4 \<le> struct_end fdt)"
  shows "fdt_next_tag fdt off = Some (FDT_END, - FDT_ERR_TRUNCATED)"
  using offset_ptr_spec [OF assms(1,2), of 4] assms(3) by (simp add: fdt_next_tag_def is_u32_def)

lemma tag_start:
  assumes "blob_ok fdt" "0 \<le> off" "off + 4 \<le> struct_end fdt"
  shows "fdt_offset_ptr fdt off 4 = Some (Some (hdr fdt 8 + off))"
    "fdt32_ld fdt (hdr fdt 8 + off) = Some (hdr fdt (hdr fdt 8 + off))"
    "s32 (off + 4) = off + 4" "is_int off" "is_int (off + 4)"
proof -
  show i: "is_int off" "is_int (off + 4)" using assms struct_end_int [OF assms(1)] by (auto simp: is_int_def)
  then show "fdt_offset_ptr fdt off 4 = Some (Some (hdr fdt 8 + off))" "s32 (off + 4) = off + 4"
    using offset_ptr_spec [OF assms(1), of off 4] assms by (simp_all add: is_u32_def s32_id)
  show "fdt32_ld fdt (hdr fdt 8 + off) = Some (hdr fdt (hdr fdt 8 + off))"
    using struct_inside [OF assms(1,2), of 4] assms by (intro ld32_inside) simp
qed

lemma next_tag_plain:
  assumes "blob_ok fdt" "0 \<le> off" "off + 4 \<le> struct_end fdt"
    and "hdr fdt (hdr fdt 8 + off) \<in> {FDT_END_NODE, FDT_NOP, FDT_END}"
  shows "fdt_next_tag fdt off = Some (hdr fdt (hdr fdt 8 + off), FDT_TAGALIGN (off + 4))"
  using tag_start [OF assms(1-3)] after_spec [OF assms(1,2), of 4] assms(3,4)
  by (auto simp: fdt_next_tag_def u32_id)

lemma next_tag_other:
  assumes "blob_ok fdt" "0 \<le> off" "off + 4 \<le> struct_end fdt"
    and "hdr fdt (hdr fdt 8 + off) \<notin> {FDT_BEGIN_NODE, FDT_END_NODE, FDT_PROP, FDT_NOP, FDT_END}"
  shows "fdt_next_tag fdt off = Some (FDT_END, - FDT_ERR_BADSTRUCTURE)"
  using tag_start [OF assms(1-3)] assms(4) by (simp add: fdt_next_tag_def)

lemma next_tag_begin:
  assumes "blob_ok fdt" "0 \<le> off" "off + 4 \<le> struct_end fdt"
    and "hdr fdt (hdr fdt 8 + off) = FDT_BEGIN_NODE" "skip_name fdt (off + 4) = Some r"
  shows "fdt_next_tag fdt off = Some (case r of None \<Rightarrow> (FDT_END, - FDT_ERR_BADSTRUCTURE)
     | Some e \<Rightarrow> (FDT_BEGIN_NODE, FDT_TAGALIGN e))"
proof (cases r)
  case None
  then show ?thesis using tag_start [OF assms(1-3)] assms(4,5) by (simp add: fdt_next_tag_def)
next
  case (Some e)
  have e: "off + 4 < e" "e \<le> struct_end fdt"
    using skip_name_spec [OF assms(1), of "off + 4"] tag_start [OF assms(1-3)] assms(2,5) Some
    by (auto simp: name_ends_def)
  then have u: "u32 (e - off) = e - off"
    using struct_end_int [OF assms(1)] assms(2) by (intro u32_id) auto
  have s: "s32 (off + (e - off)) = e" using after_spec(2) [OF assms(1,2), of "e - off"] tag_start [OF assms(1-3)] u e by simp
  then show ?thesis
    using tag_start [OF assms(1-3)] assms(4,5) Some e u
      after_spec(1,3) [OF assms(1,2), of "e - off"]
    by (simp add: fdt_next_tag_def)
qed

lemma skip_property_spec:
  assumes "blob_ok fdt" "0 \<le> off" "off + 8 \<le> struct_end fdt"
  shows "skip_property fdt (off + 4) = Some (Some (s32 (off + (12 + prop_len fdt off + prop_pad fdt off))))"
proof -
  let ?len = "prop_len fdt off"
  have p: "fdt_offset_ptr fdt (off + 4) 4 = Some (Some (hdr fdt 8 + (off + 4)))"
    "fdt32_ld fdt (hdr fdt 8 + (off + 4)) = Some ?len"
    using tag_start [OF assms(1), of "off + 4"] assms(2,3) by (simp_all add: prop_len_def add.assoc)
  let ?o = "s32 (off + 4 + (8 + ?len))"
  have "u32 (?o - ?len) = u32 (off + 12)"
    using s32_u32 [of "off + 4 + (8 + ?len)" "- ?len"] by (simp add: algebra_simps)
  also have "u32 (off + 12) mod 8 = (off + 12) mod 8" by (simp add: u32_def mod_mod_cancel)
  finally have u: "u32 (?o - ?len) mod 8 = (off + 12) mod 8" by simp
  have "skip_property fdt (off + 4) = Some (Some (if hdr fdt 20 < 0x10 \<and> ?len \<ge> 8 \<and> (off + 12) mod 8 \<noteq> 0
      then s32 (?o + 4) else ?o))"
    unfolding skip_property_def u [symmetric] using p assms(1) by (simp add: blob_simps Let_def)
  also have "\<dots> = Some (Some (s32 (off + (12 + ?len + prop_pad fdt off))))"
    using s32_add [of "off + 4 + (8 + ?len)" 4] by (simp add: prop_pad_def algebra_simps)
  finally show ?thesis .
qed

lemma next_tag_prop:
  assumes "blob_ok fdt" "0 \<le> off" "off + 4 \<le> struct_end fdt"
    and "hdr fdt (hdr fdt 8 + off) = FDT_PROP"
  shows "fdt_next_tag fdt off = Some
     (if off + 8 \<le> struct_end fdt \<and> off + prop_size fdt off \<le> struct_end fdt
      then (FDT_PROP, FDT_TAGALIGN (off + prop_size fdt off)) else (FDT_END, - FDT_ERR_BADSTRUCTURE))"
proof (cases "off + 8 \<le> struct_end fdt")
  case False
  then have "skip_property fdt (off + 4) = Some None"
    using offset_ptr_spec [OF assms(1), of "off + 4" 4] tag_start [OF assms(1-3)]
    by (simp add: is_u32_def skip_property_def)
  then show ?thesis using tag_start [OF assms(1-3)] assms(4) False by (simp add: fdt_next_tag_def)
next
  case True
  show ?thesis
    using tag_start [OF assms(1-3)] assms(4) True skip_property_spec [OF assms(1,2) True]
      after_spec [OF assms(1,2) tag_start(4) [OF assms(1-3)], of "12 + prop_len fdt off + prop_pad fdt off"]
    by (simp add: fdt_next_tag_def prop_size_def)
qed

text \<open>
  What \<open>fdt_next_tag\<close> returns in every case: an error, or the tag that stands at the offset and the
  offset of the next one. Only where the length of a property is so large that its end wraps
  around is the next offset not past the tag.
\<close>

definition tag_error :: "int \<Rightarrow> int \<Rightarrow> bool" where
  "tag_error tag nxt \<longleftrightarrow> tag = FDT_END \<and> (nxt = - FDT_ERR_TRUNCATED \<or> nxt = - FDT_ERR_BADSTRUCTURE)"

definition wraps :: "blob \<Rightarrow> int \<Rightarrow> bool" where
  "wraps fdt off \<longleftrightarrow> hdr fdt (hdr fdt 8 + off) = FDT_PROP
     \<and> 2 ^ 32 \<le> 12 + prop_len fdt off + prop_pad fdt off"

lemma prop_size_exact:
  assumes "hdr fdt (hdr fdt 8 + off) = FDT_PROP" "\<not> wraps fdt off"
  shows "prop_size fdt off = 12 + prop_len fdt off + prop_pad fdt off" "12 \<le> prop_size fdt off"
proof -
  have "0 \<le> prop_len fdt off" "0 \<le> prop_pad fdt off"
    by (simp_all add: prop_len_def prop_pad_def hdr_range)
  then show "prop_size fdt off = 12 + prop_len fdt off + prop_pad fdt off" "12 \<le> prop_size fdt off"
    using assms u32_id [of "12 + prop_len fdt off + prop_pad fdt off"]
    by (simp_all add: wraps_def prop_size_def)
qed

definition tag_read :: "blob \<Rightarrow> int \<Rightarrow> int \<Rightarrow> int \<Rightarrow> bool" where
  "tag_read fdt off tag nxt \<longleftrightarrow> 0 \<le> off \<and> off + 4 \<le> struct_end fdt \<and> tag = hdr fdt (hdr fdt 8 + off)
     \<and> tag \<in> {FDT_BEGIN_NODE, FDT_END_NODE, FDT_PROP, FDT_NOP, FDT_END}
     \<and> nxt \<le> struct_end fdt + 3 \<and> nxt mod 4 = 0
     \<and> (if wraps fdt off then off \<le> nxt else off + 4 \<le> nxt)
     \<and> (tag = FDT_PROP \<longrightarrow> off + 8 \<le> struct_end fdt \<and> off + prop_size fdt off \<le> struct_end fdt)"

theorem next_tag_spec:
  assumes ok: "blob_ok fdt" and off: "is_int off"
  shows "\<exists>tag nxt. fdt_next_tag fdt off = Some (tag, nxt) \<and> (tag_error tag nxt \<or> tag_read fdt off tag nxt)"
proof (cases "0 \<le> off \<and> off + 4 \<le> struct_end fdt")
  case False
  then show ?thesis using next_tag_truncated [OF ok off] by (simp add: tag_error_def)
next
  case True
  then have b: "0 \<le> off" "off + 4 \<le> struct_end fdt" by simp_all
  let ?t = "hdr fdt (hdr fdt 8 + off)"
  consider "?t = FDT_BEGIN_NODE" | "?t = FDT_PROP" | "?t \<in> {FDT_END_NODE, FDT_NOP, FDT_END}"
    | "?t \<notin> {FDT_BEGIN_NODE, FDT_END_NODE, FDT_PROP, FDT_NOP, FDT_END}"
    by auto
  then show ?thesis
  proof cases
    case 1
    obtain r where r: "skip_name fdt (off + 4) = Some r"
      "\<forall>e. r = Some e \<longrightarrow> off + 4 < e \<and> e \<le> struct_end fdt"
      using skip_name_spec [OF ok, of "off + 4"] b tag_start [OF ok b] by (auto simp: name_ends_def)
    show ?thesis
    proof (cases r)
      case None
      then show ?thesis using next_tag_begin [OF ok b 1 r(1)] by (simp add: tag_error_def)
    next
      case (Some e)
      then show ?thesis using next_tag_begin [OF ok b 1 r(1)] r(2) b 1 TAGALIGN_bounds [of e]
        by (simp add: tag_read_def wraps_def)
    qed
  next
    case 2
    have p: "0 \<le> prop_size fdt off" by (simp add: prop_size_def u32_range)
    show ?thesis using next_tag_prop [OF ok b 2] b 2 p TAGALIGN_bounds [of "off + prop_size fdt off"]
        prop_size_exact(2) [OF 2]
      by (auto simp add: tag_read_def tag_error_def)
  next
    case 3
    then show ?thesis using next_tag_plain [OF ok b 3] b TAGALIGN_bounds [of "off + 4"]
      by (auto simp: tag_read_def wraps_def)
  next
    case 4
    then show ?thesis using next_tag_other [OF ok b] by (simp add: tag_error_def)
  qed
qed

text \<open>Only the last sixteen lengths of \<open>uint32_t\<close> wrap.\<close>

lemma wraps_len: "wraps fdt off \<Longrightarrow> 2 ^ 32 - 16 \<le> prop_len fdt off"
  by (auto simp: wraps_def prop_pad_def split: if_splits)

section \<open>Walks over a blob without such a property\<close>

definition no_wraps :: "blob \<Rightarrow> bool" where
  "no_wraps fdt = list_all (\<lambda>i. \<not> wraps fdt (4 * int i)) [0..<nat (struct_end fdt)]"

lemma no_wrapsD:
  assumes "no_wraps fdt" "0 \<le> off" "off mod 4 = 0" "off + 4 \<le> struct_end fdt"
  shows "\<not> wraps fdt off"
proof -
  have "off = 4 * int (nat (off div 4))" using assms(2,3) by auto
  moreover have "nat (off div 4) < nat (struct_end fdt)" using assms(2,4) by linarith
  ultimately show ?thesis using assms(1) unfolding no_wraps_def list_all_iff
    by (metis atLeast0LessThan atLeast_upt lessThan_iff)
qed

text \<open>An offset where a tag may stand.\<close>

definition at_tag :: "blob \<Rightarrow> int \<Rightarrow> bool" where
  "at_tag fdt off \<longleftrightarrow> 0 \<le> off \<and> off mod 4 = 0 \<and> off \<le> struct_end fdt + 3"

lemma at_tag_int: "blob_ok fdt \<Longrightarrow> at_tag fdt off \<Longrightarrow> is_int off"
  using struct_end_int [of fdt] by (auto simp: at_tag_def is_int_def)

lemma tag_readD:
  assumes "tag_read fdt off tag nxt"
  shows "0 \<le> off" "off + 4 \<le> struct_end fdt" "tag = hdr fdt (hdr fdt 8 + off)"
    "nxt \<le> struct_end fdt + 3" "nxt mod 4 = 0" "off \<le> nxt" "\<not> wraps fdt off \<Longrightarrow> off + 4 \<le> nxt"
  using assms by (simp_all add: tag_read_def split: if_splits)

lemma next_tag_step:
  assumes "blob_ok fdt" "no_wraps fdt" "at_tag fdt off"
  shows "\<exists>tag nxt. fdt_next_tag fdt off = Some (tag, nxt) \<and> (tag_error tag nxt
    \<or> tag_read fdt off tag nxt \<and> \<not> wraps fdt off \<and> off + 4 \<le> nxt \<and> at_tag fdt nxt)"
proof -
  obtain tag nxt where t: "fdt_next_tag fdt off = Some (tag, nxt)"
    "tag_error tag nxt \<or> tag_read fdt off tag nxt"
    using next_tag_spec [OF assms(1) at_tag_int [OF assms(1,3)]] by blast
  have "\<not> wraps fdt off \<and> off + 4 \<le> nxt \<and> at_tag fdt nxt" if r: "tag_read fdt off tag nxt"
  proof -
    have "off mod 4 = 0" using assms(3) by (simp add: at_tag_def)
    then have w: "\<not> wraps fdt off" using no_wrapsD [OF assms(2)] tag_readD(1,2) [OF r] by simp
    have "at_tag fdt nxt" using tag_readD(1,4,5,6) [OF r] unfolding at_tag_def by linarith
    with w tag_readD(7) [OF r] show ?thesis by simp
  qed
  with t show ?thesis by blast
qed

text \<open>
  What the node walk returns from \<open>lo\<close> on: an error, the offset of a \<open>BEGIN_NODE\<close> tag, or, where
  the depth falls below zero, the offset after the \<open>END_NODE\<close> tag.
\<close>

definition node_result :: "blob \<Rightarrow> int \<Rightarrow> int option \<Rightarrow> int \<Rightarrow> bool" where
  "node_result fdt lo depth off \<longleftrightarrow>
     off \<in> {- FDT_ERR_NOTFOUND, - FDT_ERR_TRUNCATED, - FDT_ERR_BADSTRUCTURE}
     \<or> lo \<le> off \<and> at_tag fdt off \<and>
       ((\<exists>nxt. fdt_next_tag fdt off = Some (FDT_BEGIN_NODE, nxt)) \<or> (\<exists>k<0. depth = Some k))"

lemma node_result_later: "node_result fdt lo depth off \<Longrightarrow> lo' \<le> lo \<Longrightarrow> node_result fdt lo' depth off"
  by (auto simp: node_result_def)

lemma next_node_n_spec:
  assumes "blob_ok fdt" "no_wraps fdt"
  shows "at_tag fdt off \<Longrightarrow> struct_end fdt + 4 - off < 4 * int n \<Longrightarrow>
    \<exists>r d. next_node_n n fdt off depth = Some (r, d) \<and> node_result fdt off d r \<and> (d = None \<longleftrightarrow> depth = None)"
proof (induction n arbitrary: off depth)
  case 0
  then show ?case by (simp add: at_tag_def)
next
  case (Suc n)
  obtain tag nxt where t: "fdt_next_tag fdt off = Some (tag, nxt)"
    "tag_error tag nxt \<or> tag_read fdt off tag nxt \<and> \<not> wraps fdt off \<and> off + 4 \<le> nxt \<and> at_tag fdt nxt"
    using next_tag_step [OF assms Suc.prems(1)] by blast
  show ?case
  proof (cases "tag_error tag nxt")
    case True
    then show ?thesis using t(1) by (auto simp: tag_error_def node_result_def)
  next
    case False
    then have r: "tag_read fdt off tag nxt" "off + 4 \<le> nxt" "at_tag fdt nxt" using t(2) by auto
    have go: "\<exists>r d. next_node_n n fdt nxt depth' = Some (r, d) \<and> node_result fdt off d r \<and> (d = None \<longleftrightarrow> depth' = None)"
      for depth'
    proof -
      have "struct_end fdt + 4 - nxt < 4 * int n" using Suc.prems(2) r(2) by simp
      then obtain r d where "next_node_n n fdt nxt depth' = Some (r, d)" "node_result fdt nxt d r"
        "d = None \<longleftrightarrow> depth' = None" using Suc.IH [OF r(3), of depth'] by blast
      moreover have "node_result fdt off d r"
        using node_result_later [OF \<open>node_result fdt nxt d r\<close>, of off] r(2) by simp
      ultimately show ?thesis by blast
    qed
    consider "tag = FDT_BEGIN_NODE" | "tag = FDT_END_NODE" | "tag = FDT_END" | "tag = FDT_PROP \<or> tag = FDT_NOP"
      using r(1) by (auto simp: tag_read_def)
    then show ?thesis
    proof cases
      case 1
      then show ?thesis using t(1) Suc.prems(1) by (auto simp: node_result_def)
    next
      case 2
      show ?thesis
      proof (cases depth)
        case None
        then show ?thesis using t(1) go [of None] 2 by simp
      next
        case (Some k)
        show ?thesis
        proof (cases "s32 (k - 1) < 0")
          case True
          then show ?thesis using t(1) 2 Some r(2,3) by (simp add: node_result_def)
        next
          case False
          then show ?thesis using t(1) 2 Some go [of "Some (s32 (k - 1))"] by simp
        qed
      qed
    next
      case 3
      then show ?thesis using t(1) r(3) by (auto simp: node_result_def at_tag_def)
    next
      case 4
      then show ?thesis using t(1) go [of depth] by auto
    qed
  qed
qed

end
