(* ===== verification/Fdt_Read.thy ===== *)
theory Fdt_Read
  imports Fdt_Safe
begin

text \<open>
  The read-only functions of \<open>fdt_ro.c\<close> and \<open>fdt_addresses.c\<close>, and \<open>fdt_strerror.c\<close>. A function
  that returns a pointer and stores a length or an error through \<open>lenp\<close> returns the pair of them.
  A string of the caller is the list of its bytes without the NUL; a name with an explicit length
  is the list of that many bytes.
\<close>

definition chars :: "string \<Rightarrow> 8 word list" where
  "chars = map of_char"

section \<open>Names and strings\<close>

text \<open>\<open>strrchr\<close> in a string of the blob.\<close>

fun last_index :: "'a \<Rightarrow> 'a list \<Rightarrow> nat option" where
  "last_index c [] = None"
| "last_index c (x # xs) =
     (case last_index c xs of Some i \<Rightarrow> Some (Suc i) | None \<Rightarrow> if x = c then Some 0 else None)"

definition str_rchr :: "blob \<Rightarrow> int \<Rightarrow> 8 word \<Rightarrow> int option option" where
  "str_rchr fdt p c = do {
     len \<leftarrow> str_len fdt p;
     bs \<leftarrow> rd_bytes fdt p len;
     Some (map_option (\<lambda>i. p + int i) (last_index c bs)) }"

definition slash :: "8 word" where "slash = 0x2f"
definition at_sign :: "8 word" where "at_sign = 0x40"

definition fdt_get_name :: "blob \<Rightarrow> int \<Rightarrow> (int option \<times> int) option" where
  "fdt_get_name fdt nodeoffset = do {
     nh \<leftarrow> fdt_offset_ptr' fdt nodeoffset;
     err \<leftarrow> fdt_ro_probe' fdt;
     if err \<noteq> 0 then Some (None, err)
     else do {
       err \<leftarrow> fdt_check_node_offset' fdt nodeoffset;
       if err < 0 then Some (None, err)
       else do {
         let nameptr = nh + 4;
         version \<leftarrow> fdt_version fdt;
         if version < 0x10 then do {
           leaf \<leftarrow> str_rchr fdt nameptr slash;
           case leaf of
             None \<Rightarrow> Some (None, - FDT_ERR_BADSTRUCTURE)
           | Some l \<Rightarrow> do { len \<leftarrow> str_len fdt (l + 1); Some (Some (l + 1), s32 len) } }
         else do { len \<leftarrow> str_len fdt nameptr; Some (Some nameptr, s32 len) } } } }"

definition fdt_nodename_eq' :: "blob \<Rightarrow> int \<Rightarrow> 8 word list \<Rightarrow> bool option" where
  "fdt_nodename_eq' fdt offset s = do {
     (p, olen) \<leftarrow> fdt_get_name fdt offset;
     case p of
       None \<Rightarrow> Some False
     | Some p \<Rightarrow>
         if olen < int (length s) then Some False
         else do {
           eq \<leftarrow> mem_eq fdt p s;
           if \<not> eq then Some False
           else do {
             c \<leftarrow> rd8 fdt (p + int (length s));
             if c = 0 then Some True
             else Some (at_sign \<notin> set s \<and> c = at_sign) } } }"

text \<open>\<open>fdt_get_string\<close>: \<open>string_limit\<close> is the part that finds how far the string may reach, or the
  error.\<close>

definition string_limit :: "blob \<Rightarrow> int \<Rightarrow> int \<Rightarrow> (int + int) option" where
  "string_limit fdt stroffset absoffset = do {
     total \<leftarrow> fdt_totalsize fdt;
     if absoffset \<ge> total then Some (Inl (- FDT_ERR_BADOFFSET))
     else do {
       let len = total - absoffset;
       magic \<leftarrow> fdt_magic fdt;
       if magic = FDT_MAGIC then
         if stroffset < 0 then Some (Inl (- FDT_ERR_BADOFFSET))
         else do {
           version \<leftarrow> fdt_version fdt;
           if version \<ge> 17 then do {
             siz \<leftarrow> fdt_size_dt_strings fdt;
             if stroffset \<ge> siz then Some (Inl (- FDT_ERR_BADOFFSET))
             else Some (Inr (if u32 (siz - stroffset) < len then u32 (siz - stroffset) else len)) }
           else Some (Inr len) }
       else if magic = FDT_SW_MAGIC then do {
         siz \<leftarrow> fdt_size_dt_strings fdt;
         if stroffset \<ge> 0 \<or> u32 stroffset < u32 (- siz) then Some (Inl (- FDT_ERR_BADOFFSET))
         else Some (Inr (if u64 (s32 (- stroffset)) < len then s32 (- stroffset) else len)) }
       else Some (Inl (- FDT_ERR_INTERNAL)) } }"

definition fdt_get_string :: "blob \<Rightarrow> int \<Rightarrow> (int option \<times> int) option" where
  "fdt_get_string fdt stroffset = do {
     strings \<leftarrow> fdt_off_dt_strings fdt;
     let absoffset = u32 (stroffset + strings);
     err \<leftarrow> fdt_ro_probe' fdt;
     if err \<noteq> 0 then Some (None, err)
     else do {
       limit \<leftarrow> string_limit fdt stroffset absoffset;
       case limit of
         Inl err \<Rightarrow> Some (None, err)
       | Inr len \<Rightarrow> do {
           n \<leftarrow> mem_chr fdt absoffset 0 len;
           case n of
             None \<Rightarrow> Some (None, - FDT_ERR_TRUNCATED)
           | Some n \<Rightarrow> Some (Some absoffset, s32 (n - absoffset)) } } }"

definition fdt_string :: "blob \<Rightarrow> int \<Rightarrow> int option option" where
  "fdt_string fdt stroffset = do { (p, len) \<leftarrow> fdt_get_string fdt stroffset; Some p }"

definition fdt_string_eq' :: "blob \<Rightarrow> int \<Rightarrow> 8 word list \<Rightarrow> bool option" where
  "fdt_string_eq' fdt stroffset s = do {
     (p, slen) \<leftarrow> fdt_get_string fdt stroffset;
     case p of
       None \<Rightarrow> Some False
     | Some p \<Rightarrow> if slen = int (length s) then mem_eq fdt p s else Some False }"

section \<open>The memory reservation map\<close>

definition fdt_mem_rsv :: "blob \<Rightarrow> int \<Rightarrow> int option option" where
  "fdt_mem_rsv fdt n = do {
     let offset = s32 (n * 16);
     rsvmap \<leftarrow> fdt_off_mem_rsvmap fdt;
     let absoffset = s32 (rsvmap + offset);
     if u32 absoffset < rsvmap then Some None
     else do {
       total \<leftarrow> fdt_totalsize fdt;
       if u64 absoffset > u64 (total - 16) then Some None
       else Some (Some (rsvmap + 16 * n)) } }"

definition fdt_get_mem_rsv :: "blob \<Rightarrow> int \<Rightarrow> (int \<times> (int \<times> int) option) option" where
  "fdt_get_mem_rsv fdt n = do {
     err \<leftarrow> fdt_ro_probe' fdt;
     if err \<noteq> 0 then Some (err, None)
     else do {
       re \<leftarrow> fdt_mem_rsv fdt n;
       case re of
         None \<Rightarrow> Some (- FDT_ERR_BADOFFSET, None)
       | Some p \<Rightarrow> do {
           address \<leftarrow> fdt64_ld fdt p;
           siz \<leftarrow> fdt64_ld fdt (p + 8);
           Some (0, Some (address, siz)) } } }"

fun num_mem_rsv_n :: "nat \<Rightarrow> blob \<Rightarrow> int \<Rightarrow> int option" where
  "num_mem_rsv_n 0 fdt i = None"
| "num_mem_rsv_n (Suc n) fdt i = do {
     re \<leftarrow> fdt_mem_rsv fdt i;
     case re of
       None \<Rightarrow> Some (- FDT_ERR_TRUNCATED)
     | Some p \<Rightarrow> do {
         siz \<leftarrow> fdt64_ld fdt (p + 8);
         if siz = 0 then Some i else num_mem_rsv_n n fdt (s32 (i + 1)) } }"

definition fdt_num_mem_rsv :: "blob \<Rightarrow> int option" where
  "fdt_num_mem_rsv fdt = num_mem_rsv_n (blob_fuel fdt) fdt 0"

section \<open>Properties\<close>

fun nextprop_n :: "nat \<Rightarrow> blob \<Rightarrow> int \<Rightarrow> int option" where
  "nextprop_n 0 fdt offset = None"
| "nextprop_n (Suc n) fdt offset = do {
     (tag, nextoffset) \<leftarrow> fdt_next_tag fdt offset;
     if tag = FDT_END then Some (if nextoffset \<ge> 0 then - FDT_ERR_BADSTRUCTURE else nextoffset)
     else if tag = FDT_PROP then Some offset
     else if tag = FDT_NOP then nextprop_n n fdt nextoffset
     else Some (- FDT_ERR_NOTFOUND) }"

definition nextprop' :: "blob \<Rightarrow> int \<Rightarrow> int option" where
  "nextprop' fdt offset = nextprop_n (blob_fuel fdt) fdt offset"

definition fdt_first_property_offset :: "blob \<Rightarrow> int \<Rightarrow> int option" where
  "fdt_first_property_offset fdt nodeoffset = do {
     offset \<leftarrow> fdt_check_node_offset' fdt nodeoffset;
     if offset < 0 then Some offset else nextprop' fdt offset }"

definition fdt_next_property_offset :: "blob \<Rightarrow> int \<Rightarrow> int option" where
  "fdt_next_property_offset fdt offset = do {
     offset \<leftarrow> fdt_check_prop_offset' fdt offset;
     if offset < 0 then Some offset else nextprop' fdt offset }"

definition fdt_get_property_by_offset' :: "blob \<Rightarrow> int \<Rightarrow> (int option \<times> int) option" where
  "fdt_get_property_by_offset' fdt offset = do {
     err \<leftarrow> fdt_check_prop_offset' fdt offset;
     if err < 0 then Some (None, err)
     else do {
       prop \<leftarrow> fdt_offset_ptr' fdt offset;
       len \<leftarrow> fdt32_ld fdt (prop + 4);
       Some (Some prop, s32 len) } }"

definition fdt_get_property_by_offset :: "blob \<Rightarrow> int \<Rightarrow> (int option \<times> int) option" where
  "fdt_get_property_by_offset fdt offset = do {
     version \<leftarrow> fdt_version fdt;
     if version < 0x10 then Some (None, - FDT_ERR_BADVERSION)
     else fdt_get_property_by_offset' fdt offset }"

text \<open>\<open>fdt_get_property_namelen_\<close> returns the property, the length or error, and the offset.\<close>

fun get_property_n :: "nat \<Rightarrow> blob \<Rightarrow> int \<Rightarrow> 8 word list \<Rightarrow> (int option \<times> int \<times> int) option" where
  "get_property_n 0 fdt offset name = None"
| "get_property_n (Suc n) fdt offset name =
     (if offset < 0 then Some (None, offset, offset)
      else do {
        (prop, len) \<leftarrow> fdt_get_property_by_offset' fdt offset;
        case prop of
          None \<Rightarrow> Some (None, - FDT_ERR_INTERNAL, offset)
        | Some p \<Rightarrow> do {
            nameoff \<leftarrow> fdt32_ld fdt (p + 8);
            eq \<leftarrow> fdt_string_eq' fdt (s32 nameoff) name;
            if eq then Some (Some p, len, offset)
            else do {
              offset \<leftarrow> fdt_next_property_offset fdt offset;
              get_property_n n fdt offset name } } })"

definition fdt_get_property_namelen' :: "blob \<Rightarrow> int \<Rightarrow> 8 word list \<Rightarrow> (int option \<times> int \<times> int) option" where
  "fdt_get_property_namelen' fdt offset name = do {
     offset \<leftarrow> fdt_first_property_offset fdt offset;
     get_property_n (blob_fuel fdt) fdt offset name }"

definition fdt_get_property_namelen :: "blob \<Rightarrow> int \<Rightarrow> 8 word list \<Rightarrow> (int option \<times> int) option" where
  "fdt_get_property_namelen fdt offset name = do {
     version \<leftarrow> fdt_version fdt;
     if version < 0x10 then Some (None, - FDT_ERR_BADVERSION)
     else do {
       (prop, len, poffset) \<leftarrow> fdt_get_property_namelen' fdt offset name;
       Some (prop, len) } }"

definition fdt_get_property :: "blob \<Rightarrow> int \<Rightarrow> 8 word list \<Rightarrow> (int option \<times> int) option" where
  "fdt_get_property fdt nodeoffset name = fdt_get_property_namelen fdt nodeoffset name"

text \<open>The value of a property at an offset, after the padding of old versions.\<close>

definition prop_data :: "blob \<Rightarrow> int \<Rightarrow> int \<Rightarrow> int option" where
  "prop_data fdt prop offset = do {
     version \<leftarrow> fdt_version fdt;
     if version < 0x10 \<and> u64 (offset + 12) mod 8 \<noteq> 0 then do {
       len \<leftarrow> fdt32_ld fdt (prop + 4);
       Some (if len \<ge> 8 then prop + 12 + 4 else prop + 12) }
     else Some (prop + 12) }"

definition fdt_getprop_namelen :: "blob \<Rightarrow> int \<Rightarrow> 8 word list \<Rightarrow> (int option \<times> int) option" where
  "fdt_getprop_namelen fdt nodeoffset name = do {
     (prop, len, poffset) \<leftarrow> fdt_get_property_namelen' fdt nodeoffset name;
     case prop of
       None \<Rightarrow> Some (None, len)
     | Some p \<Rightarrow> do { d \<leftarrow> prop_data fdt p poffset; Some (Some d, len) } }"

definition fdt_getprop :: "blob \<Rightarrow> int \<Rightarrow> 8 word list \<Rightarrow> (int option \<times> int) option" where
  "fdt_getprop fdt nodeoffset name = fdt_getprop_namelen fdt nodeoffset name"

text \<open>\<open>fdt_getprop_by_offset\<close> with a place for the name: the value, the name and the length.\<close>

definition fdt_getprop_by_offset :: "blob \<Rightarrow> int \<Rightarrow> (int option \<times> int option \<times> int) option" where
  "fdt_getprop_by_offset fdt offset = do {
     (prop, len) \<leftarrow> fdt_get_property_by_offset' fdt offset;
     case prop of
       None \<Rightarrow> Some (None, None, len)
     | Some p \<Rightarrow> do {
         nameoff \<leftarrow> fdt32_ld fdt (p + 8);
         (name, namelen) \<leftarrow> fdt_get_string fdt (s32 nameoff);
         case name of
           None \<Rightarrow> Some (None, None, namelen)
         | Some nm \<Rightarrow> do { d \<leftarrow> prop_data fdt p offset; Some (Some d, Some nm, len) } } }"

definition fdt_get_phandle :: "blob \<Rightarrow> int \<Rightarrow> int option" where
  "fdt_get_phandle fdt nodeoffset = do {
     (php, len) \<leftarrow> fdt_getprop fdt nodeoffset (chars ''phandle'');
     if php \<noteq> None \<and> len = 4 then fdt32_ld fdt (the php)
     else do {
       (php, len) \<leftarrow> fdt_getprop fdt nodeoffset (chars ''linux,phandle'');
       if php \<noteq> None \<and> len = 4 then fdt32_ld fdt (the php) else Some 0 } }"

fun max_phandle_n :: "nat \<Rightarrow> blob \<Rightarrow> int \<Rightarrow> int \<Rightarrow> int option" where
  "max_phandle_n 0 fdt offset max_phandle = None"
| "max_phandle_n (Suc n) fdt offset max_phandle =
     (if offset = - FDT_ERR_NOTFOUND then Some max_phandle
      else if offset < 0 then Some (2 ^ 32 - 1)
      else do {
        phandle \<leftarrow> fdt_get_phandle fdt offset;
        (nxt, _) \<leftarrow> fdt_next_node fdt offset None;
        max_phandle_n n fdt nxt
          (if phandle \<noteq> 2 ^ 32 - 1 \<and> phandle > max_phandle then phandle else max_phandle) })"

definition fdt_get_max_phandle :: "blob \<Rightarrow> int option" where
  "fdt_get_max_phandle fdt = do {
     (offset, _) \<leftarrow> fdt_next_node fdt (- 1) None;
     max_phandle_n (blob_fuel fdt) fdt offset 0 }"

section \<open>Finding nodes\<close>

fun subnode_n :: "nat \<Rightarrow> blob \<Rightarrow> int \<Rightarrow> int \<Rightarrow> 8 word list \<Rightarrow> int option" where
  "subnode_n 0 fdt offset depth name = None"
| "subnode_n (Suc n) fdt offset depth name =
     (if offset \<ge> 0 \<and> depth \<ge> 0 then do {
        eq \<leftarrow> (if depth = 1 then fdt_nodename_eq' fdt offset name else Some False);
        if eq then Some offset
        else do {
          (offset, d) \<leftarrow> fdt_next_node fdt offset (Some depth);
          subnode_n n fdt offset (the d) name } }
      else if depth < 0 then Some (- FDT_ERR_NOTFOUND)
      else Some offset)"

definition fdt_subnode_offset_namelen :: "blob \<Rightarrow> int \<Rightarrow> 8 word list \<Rightarrow> int option" where
  "fdt_subnode_offset_namelen fdt offset name = do {
     err \<leftarrow> fdt_ro_probe' fdt;
     if err \<noteq> 0 then Some err else subnode_n (blob_fuel fdt) fdt offset 0 name }"

definition fdt_subnode_offset :: "blob \<Rightarrow> int \<Rightarrow> 8 word list \<Rightarrow> int option" where
  "fdt_subnode_offset fdt parentoffset name = fdt_subnode_offset_namelen fdt parentoffset name"

lemma dropWhile_shrinks: "dropWhile (\<lambda>c. c = a) p \<noteq> [] \<Longrightarrow>
  length (dropWhile (\<lambda>c. c \<noteq> a) (dropWhile (\<lambda>c. c = a) p)) < length p"
proof -
  assume n: "dropWhile (\<lambda>c. c = a) p \<noteq> []"
  then obtain x xs where c: "dropWhile (\<lambda>c. c = a) p = x # xs" by (meson list.exhaust)
  then have "x \<noteq> a" using hd_dropWhile [of "\<lambda>c. c = a" p] by simp
  then have "length (dropWhile (\<lambda>c. c \<noteq> a) (x # xs)) \<le> length xs" by (simp add: length_dropWhile_le)
  also have "length xs < length (dropWhile (\<lambda>c. c = a) p)" using c by simp
  also have "\<dots> \<le> length p" by (simp add: length_dropWhile_le)
  finally show ?thesis using c by simp
qed

text \<open>
  \<open>fdt_path_offset_namelen\<close>: the loop over the components of the path, and the alias in front of
  them. A path is the list of its bytes; an empty one is followed by its NUL. The two functions
  call each other, and an alias may name itself, so they take fuel (\<open>alias_loops\<close>).
\<close>

function walk_path :: "blob \<Rightarrow> int \<Rightarrow> 8 word list \<Rightarrow> int option" where
  "walk_path fdt offset p =
     (if dropWhile (\<lambda>c. c = slash) p = [] then Some offset
      else do {
        let q = dropWhile (\<lambda>c. c = slash) p;
        offset \<leftarrow> fdt_subnode_offset_namelen fdt offset (takeWhile (\<lambda>c. c \<noteq> slash) q);
        if offset < 0 then Some offset
        else walk_path fdt offset (dropWhile (\<lambda>c. c \<noteq> slash) q) })"
  by auto

termination
  by (relation "measure (\<lambda>(fdt, offset, p). length p)") (auto simp: dropWhile_shrinks)

declare walk_path.simps [simp del]

definition c_string_at :: "blob \<Rightarrow> int \<Rightarrow> 8 word list option" where
  "c_string_at fdt p = do { len \<leftarrow> str_len fdt p; rd_bytes fdt p len }"

fun path_offset_n :: "nat \<Rightarrow> blob \<Rightarrow> 8 word list \<Rightarrow> int option"
  and get_alias_n :: "nat \<Rightarrow> blob \<Rightarrow> 8 word list \<Rightarrow> int option option" where
  "path_offset_n 0 fdt path = None"
| "path_offset_n (Suc n) fdt path = do {
     err \<leftarrow> fdt_ro_probe' fdt;
     if err \<noteq> 0 then Some err
     else if path = [] \<or> hd path \<noteq> slash then do {
       let q = dropWhile (\<lambda>c. c \<noteq> slash) path;
       p \<leftarrow> get_alias_n n fdt (takeWhile (\<lambda>c. c \<noteq> slash) path);
       case p of
         None \<Rightarrow> Some (- FDT_ERR_BADPATH)
       | Some p \<Rightarrow> do {
           alias \<leftarrow> c_string_at fdt p;
           offset \<leftarrow> path_offset_n n fdt alias;
           walk_path fdt offset q } }
     else walk_path fdt 0 path }"
| "get_alias_n 0 fdt name = None"
| "get_alias_n (Suc n) fdt name = do {
     aliasoffset \<leftarrow> path_offset_n n fdt (chars ''/aliases'');
     if aliasoffset < 0 then Some None
     else do { (p, len) \<leftarrow> fdt_getprop_namelen fdt aliasoffset name; Some p } }"

definition fdt_path_offset_namelen :: "blob \<Rightarrow> 8 word list \<Rightarrow> int option" where
  "fdt_path_offset_namelen fdt path = path_offset_n (blob_fuel fdt) fdt path"

definition fdt_path_offset :: "blob \<Rightarrow> 8 word list \<Rightarrow> int option" where
  "fdt_path_offset fdt path = fdt_path_offset_namelen fdt path"

definition fdt_get_alias_namelen :: "blob \<Rightarrow> 8 word list \<Rightarrow> int option option" where
  "fdt_get_alias_namelen fdt name = get_alias_n (blob_fuel fdt) fdt name"

definition fdt_get_alias :: "blob \<Rightarrow> 8 word list \<Rightarrow> int option option" where
  "fdt_get_alias fdt name = fdt_get_alias_namelen fdt name"

section \<open>Walking up\<close>

text \<open>
  \<open>fdt_get_path\<close>: the buffer of the caller is the list \<open>buf\<close>, \<open>p\<close> the number of bytes written,
  and \<open>pdepth\<close> the number of components. \<open>drop_component\<close> is the inner loop, which goes back to
  the byte after the slash before.
\<close>

function drop_component :: "8 word list \<Rightarrow> int \<Rightarrow> int option" where
  "drop_component buf p = do {
     let p = p - 1;
     c \<leftarrow> rd8 buf (p - 1);
     if c \<noteq> slash then drop_component buf p else Some p }"
  by auto
termination
  by (relation "measure (\<lambda>(buf, p). nat p)") (auto simp: rd8_def split: if_splits)

declare drop_component.simps [simp del]

fun drop_components :: "nat \<Rightarrow> 8 word list \<Rightarrow> int \<Rightarrow> int option" where
  "drop_components 0 buf p = Some p"
| "drop_components (Suc k) buf p = do { p \<leftarrow> drop_component buf p; drop_components k buf p }"

definition add_component :: "blob \<Rightarrow> int \<Rightarrow> 8 word list \<Rightarrow> int \<Rightarrow> int \<Rightarrow>
    (int + 8 word list \<times> int \<times> int) option" where
  "add_component fdt offset buf p pdepth = do {
     (name, namelen) \<leftarrow> fdt_get_name fdt offset;
     case name of
       None \<Rightarrow> Some (Inl namelen)
     | Some nm \<Rightarrow>
         if p + namelen + 1 \<le> int (length buf) then do {
           bs \<leftarrow> rd_bytes fdt nm namelen;
           buf \<leftarrow> wr_bytes buf p bs;
           buf \<leftarrow> wr_bytes buf (p + namelen) [slash];
           Some (Inr (buf, p + namelen + 1, pdepth + 1)) }
         else Some (Inr (buf, p, pdepth)) }"

definition walk_error :: "int \<Rightarrow> int" where
  "walk_error offset =
     (if offset = - FDT_ERR_NOTFOUND \<or> offset \<ge> 0 then - FDT_ERR_BADOFFSET
      else if offset = - FDT_ERR_BADOFFSET then - FDT_ERR_BADSTRUCTURE
      else offset)"

fun get_path_n :: "nat \<Rightarrow> blob \<Rightarrow> int \<Rightarrow> int \<Rightarrow> int \<Rightarrow> 8 word list \<Rightarrow> int \<Rightarrow> int \<Rightarrow>
    (int \<times> 8 word list) option" where
  "get_path_n 0 fdt nodeoffset offset depth buf p pdepth = None"
| "get_path_n (Suc n) fdt nodeoffset offset depth buf p pdepth =
     (if offset \<ge> 0 \<and> offset \<le> nodeoffset then do {
        p \<leftarrow> drop_components (nat (pdepth - depth)) buf p;
        let pdepth = (if pdepth > depth then depth else pdepth);
        r \<leftarrow> (if pdepth \<ge> depth then add_component fdt offset buf p pdepth
             else Some (Inr (buf, p, pdepth)));
        case r of
          Inl err \<Rightarrow> Some (err, buf)
        | Inr (buf, p, pdepth) \<Rightarrow>
            if offset = nodeoffset then
              if pdepth < depth + 1 then Some (- FDT_ERR_NOSPACE, buf)
              else do { buf \<leftarrow> wr_bytes buf (if p > 1 then p - 1 else p) [0]; Some (0, buf) }
            else do {
              (offset, d) \<leftarrow> fdt_next_node fdt offset (Some depth);
              get_path_n n fdt nodeoffset offset (the d) buf p pdepth } }
      else Some (walk_error offset, buf))"

definition fdt_get_path :: "blob \<Rightarrow> int \<Rightarrow> 8 word list \<Rightarrow> (int \<times> 8 word list) option" where
  "fdt_get_path fdt nodeoffset buf = do {
     err \<leftarrow> fdt_ro_probe' fdt;
     if err \<noteq> 0 then Some (err, buf)
     else if length buf < 2 then Some (- FDT_ERR_NOSPACE, buf)
     else get_path_n (blob_fuel fdt) fdt nodeoffset 0 0 buf 0 0 }"

text \<open>\<open>fdt_supernode_atdepth_offset\<close> returns the offset or error, and the depth where it stores
  one.\<close>

fun supernode_n :: "nat \<Rightarrow> blob \<Rightarrow> int \<Rightarrow> int \<Rightarrow> int \<Rightarrow> int \<Rightarrow> int \<Rightarrow> (int \<times> int option) option" where
  "supernode_n 0 fdt nodeoffset supernodedepth offset depth supernodeoffset = None"
| "supernode_n (Suc n) fdt nodeoffset supernodedepth offset depth supernodeoffset =
     (if offset \<ge> 0 \<and> offset \<le> nodeoffset then do {
        let supernodeoffset = (if depth = supernodedepth then offset else supernodeoffset);
        if offset = nodeoffset then
          Some (if supernodedepth > depth then - FDT_ERR_NOTFOUND else supernodeoffset, Some depth)
        else do {
          (offset, d) \<leftarrow> fdt_next_node fdt offset (Some depth);
          supernode_n n fdt nodeoffset supernodedepth offset (the d) supernodeoffset } }
      else Some (walk_error offset, None))"

definition fdt_supernode_atdepth_offset :: "blob \<Rightarrow> int \<Rightarrow> int \<Rightarrow> (int \<times> int option) option" where
  "fdt_supernode_atdepth_offset fdt nodeoffset supernodedepth = do {
     err \<leftarrow> fdt_ro_probe' fdt;
     if err \<noteq> 0 then Some (err, None)
     else if supernodedepth < 0 then Some (- FDT_ERR_NOTFOUND, None)
     else supernode_n (blob_fuel fdt) fdt nodeoffset supernodedepth 0 0 (- FDT_ERR_INTERNAL) }"

definition fdt_node_depth :: "blob \<Rightarrow> int \<Rightarrow> int option" where
  "fdt_node_depth fdt nodeoffset = do {
     (err, nodedepth) \<leftarrow> fdt_supernode_atdepth_offset fdt nodeoffset 0;
     if err \<noteq> 0 then Some (if err < 0 then err else - FDT_ERR_INTERNAL)
     else nodedepth }"

definition fdt_parent_offset :: "blob \<Rightarrow> int \<Rightarrow> int option" where
  "fdt_parent_offset fdt nodeoffset = do {
     nodedepth \<leftarrow> fdt_node_depth fdt nodeoffset;
     if nodedepth < 0 then Some nodedepth
     else do {
       (offset, _) \<leftarrow> fdt_supernode_atdepth_offset fdt nodeoffset (nodedepth - 1);
       Some offset } }"

section \<open>Searching the whole tree\<close>

fun by_prop_value_n :: "nat \<Rightarrow> blob \<Rightarrow> int \<Rightarrow> 8 word list \<Rightarrow> 8 word list \<Rightarrow> int option" where
  "by_prop_value_n 0 fdt offset propname propval = None"
| "by_prop_value_n (Suc n) fdt offset propname propval =
     (if offset < 0 then Some offset
      else do {
        (val, len) \<leftarrow> fdt_getprop fdt offset propname;
        eq \<leftarrow> (if val \<noteq> None \<and> len = int (length propval) then mem_eq fdt (the val) propval
              else Some False);
        if eq then Some offset
        else do {
          (offset, _) \<leftarrow> fdt_next_node fdt offset None;
          by_prop_value_n n fdt offset propname propval } })"

definition fdt_node_offset_by_prop_value :: "blob \<Rightarrow> int \<Rightarrow> 8 word list \<Rightarrow> 8 word list \<Rightarrow> int option" where
  "fdt_node_offset_by_prop_value fdt startoffset propname propval = do {
     err \<leftarrow> fdt_ro_probe' fdt;
     if err \<noteq> 0 then Some err
     else do {
       (offset, _) \<leftarrow> fdt_next_node fdt startoffset None;
       by_prop_value_n (blob_fuel fdt) fdt offset propname propval } }"

fun by_phandle_n :: "nat \<Rightarrow> blob \<Rightarrow> int \<Rightarrow> int \<Rightarrow> int option" where
  "by_phandle_n 0 fdt offset phandle = None"
| "by_phandle_n (Suc n) fdt offset phandle =
     (if offset < 0 then Some offset
      else do {
        ph \<leftarrow> fdt_get_phandle fdt offset;
        if ph = phandle then Some offset
        else do {
          (offset, _) \<leftarrow> fdt_next_node fdt offset None;
          by_phandle_n n fdt offset phandle } })"

definition fdt_node_offset_by_phandle :: "blob \<Rightarrow> int \<Rightarrow> int option" where
  "fdt_node_offset_by_phandle fdt phandle =
     (if phandle = 0 \<or> phandle = 2 ^ 32 - 1 then Some (- FDT_ERR_BADPHANDLE)
      else do {
        err \<leftarrow> fdt_ro_probe' fdt;
        if err \<noteq> 0 then Some err
        else do {
          (offset, _) \<leftarrow> fdt_next_node fdt (- 1) None;
          by_phandle_n (blob_fuel fdt) fdt offset phandle } })"

section \<open>String lists\<close>

text \<open>\<open>fdt_stringlist_contains\<close>; the list is \<open>listlen\<close> bytes at \<open>strlist\<close>.\<close>

lemma mem_chr_found: "mem_chr fdt p c n = Some (Some q) \<Longrightarrow> p \<le> q \<and> q < p + n"
proof (induction fdt p c n rule: mem_chr.induct)
  case (1 fdt p c n)
  show ?case
  proof (cases "n \<le> 0")
    case True
    then show ?thesis using 1(2) by (simp add: mem_chr.simps [of fdt p c n])
  next
    case False
    then obtain b where b: "rd8 fdt p = Some b" using 1(2) by (auto simp: mem_chr.simps [of fdt p c n])
    show ?thesis
    proof (cases "b = c")
      case True
      then show ?thesis using 1(2) False b by (simp add: mem_chr.simps [of fdt p c n])
    next
      case ne: False
      then have "mem_chr fdt (p + 1) c (n - 1) = Some (Some q)"
        using 1(2) False b by (simp add: mem_chr.simps [of fdt p c n])
      then show ?thesis using 1(1) [OF False b ne] by simp
    qed
  qed
qed

function fdt_stringlist_contains :: "blob \<Rightarrow> int \<Rightarrow> int \<Rightarrow> 8 word list \<Rightarrow> int option" where
  "fdt_stringlist_contains fdt strlist listlen str =
     (if listlen \<ge> int (length str) then do {
        eq \<leftarrow> mem_eq fdt strlist (str @ [0]);
        if eq then Some 1
        else do {
          p \<leftarrow> mem_chr fdt strlist 0 listlen;
          case p of
            None \<Rightarrow> Some 0
          | Some p \<Rightarrow> fdt_stringlist_contains fdt (p + 1) (listlen - ((p - strlist) + 1)) str } }
      else Some 0)"
  by auto
termination
  by (relation "measure (\<lambda>(fdt, strlist, listlen, str). nat listlen)") (auto dest: mem_chr_found)

declare fdt_stringlist_contains.simps [simp del]

text \<open>\<open>strnlen\<close>, and the three loops over the strings of a property.\<close>

definition str_nlen :: "blob \<Rightarrow> int \<Rightarrow> int \<Rightarrow> int option" where
  "str_nlen fdt p n = do {
     r \<leftarrow> mem_chr fdt p 0 n;
     Some (case r of None \<Rightarrow> n | Some q \<Rightarrow> q - p) }"

fun count_n :: "nat \<Rightarrow> blob \<Rightarrow> int \<Rightarrow> int \<Rightarrow> int \<Rightarrow> int option" where
  "count_n 0 fdt lst stop count = None"
| "count_n (Suc n) fdt lst stop count =
     (if lst < stop then do {
        l \<leftarrow> str_nlen fdt lst (stop - lst);
        let length = s32 (l + 1);
        if lst + length > stop then Some (- FDT_ERR_BADVALUE)
        else count_n n fdt (lst + length) stop (s32 (count + 1)) }
      else Some count)"

definition fdt_stringlist_count :: "blob \<Rightarrow> int \<Rightarrow> 8 word list \<Rightarrow> int option" where
  "fdt_stringlist_count fdt nodeoffset property = do {
     (lst, length) \<leftarrow> fdt_getprop fdt nodeoffset property;
     case lst of
       None \<Rightarrow> Some length
     | Some l \<Rightarrow> count_n (blob_fuel fdt) fdt l (l + length) 0 }"

fun search_n :: "nat \<Rightarrow> blob \<Rightarrow> int \<Rightarrow> int \<Rightarrow> 8 word list \<Rightarrow> int \<Rightarrow> int option" where
  "search_n 0 fdt lst stop string idx = None"
| "search_n (Suc n) fdt lst stop string idx =
     (if lst < stop then do {
        l \<leftarrow> str_nlen fdt lst (stop - lst);
        let len = s32 (l + 1);
        if lst + len > stop then Some (- FDT_ERR_BADVALUE)
        else do {
          eq \<leftarrow> (if len = int (length string) + 1 then mem_eq fdt lst (string @ [0]) else Some False);
          if eq then Some idx
          else search_n n fdt (lst + len) stop string (s32 (idx + 1)) } }
      else Some (- FDT_ERR_NOTFOUND))"

definition fdt_stringlist_search :: "blob \<Rightarrow> int \<Rightarrow> 8 word list \<Rightarrow> 8 word list \<Rightarrow> int option" where
  "fdt_stringlist_search fdt nodeoffset property string = do {
     (lst, length) \<leftarrow> fdt_getprop fdt nodeoffset property;
     case lst of
       None \<Rightarrow> Some length
     | Some l \<Rightarrow> search_n (blob_fuel fdt) fdt l (l + length) string 0 }"

fun get_n :: "nat \<Rightarrow> blob \<Rightarrow> int \<Rightarrow> int \<Rightarrow> int \<Rightarrow> (int option \<times> int) option" where
  "get_n 0 fdt lst stop idx = None"
| "get_n (Suc n) fdt lst stop idx =
     (if lst < stop then do {
        l \<leftarrow> str_nlen fdt lst (stop - lst);
        let length = s32 (l + 1);
        if lst + length > stop then Some (None, - FDT_ERR_BADVALUE)
        else if idx = 0 then Some (Some lst, length - 1)
        else get_n n fdt (lst + length) stop (s32 (idx - 1)) }
      else Some (None, - FDT_ERR_NOTFOUND))"

definition fdt_stringlist_get :: "blob \<Rightarrow> int \<Rightarrow> 8 word list \<Rightarrow> int \<Rightarrow> (int option \<times> int) option" where
  "fdt_stringlist_get fdt nodeoffset property idx = do {
     (lst, length) \<leftarrow> fdt_getprop fdt nodeoffset property;
     case lst of
       None \<Rightarrow> Some (None, length)
     | Some l \<Rightarrow> get_n (blob_fuel fdt) fdt l (l + length) idx }"

definition fdt_node_check_compatible :: "blob \<Rightarrow> int \<Rightarrow> 8 word list \<Rightarrow> int option" where
  "fdt_node_check_compatible fdt nodeoffset compatible = do {
     (prop, len) \<leftarrow> fdt_getprop fdt nodeoffset (chars ''compatible'');
     case prop of
       None \<Rightarrow> Some len
     | Some p \<Rightarrow> do {
         r \<leftarrow> fdt_stringlist_contains fdt p len compatible;
         Some (if r = 0 then 1 else 0) } }"

fun by_compatible_n :: "nat \<Rightarrow> blob \<Rightarrow> int \<Rightarrow> 8 word list \<Rightarrow> int option" where
  "by_compatible_n 0 fdt offset compatible = None"
| "by_compatible_n (Suc n) fdt offset compatible =
     (if offset < 0 then Some offset
      else do {
        err \<leftarrow> fdt_node_check_compatible fdt offset compatible;
        if err < 0 \<and> err \<noteq> - FDT_ERR_NOTFOUND then Some err
        else if err = 0 then Some offset
        else do {
          (offset, _) \<leftarrow> fdt_next_node fdt offset None;
          by_compatible_n n fdt offset compatible } })"

definition fdt_node_offset_by_compatible :: "blob \<Rightarrow> int \<Rightarrow> 8 word list \<Rightarrow> int option" where
  "fdt_node_offset_by_compatible fdt startoffset compatible = do {
     err \<leftarrow> fdt_ro_probe' fdt;
     if err \<noteq> 0 then Some err
     else do {
       (offset, _) \<leftarrow> fdt_next_node fdt startoffset None;
       by_compatible_n (blob_fuel fdt) fdt offset compatible } }"

section \<open>The full check\<close>

fun check_full_n :: "nat \<Rightarrow> blob \<Rightarrow> int \<Rightarrow> int \<Rightarrow> int option" where
  "check_full_n 0 fdt nextoffset depth = None"
| "check_full_n (Suc n) fdt nextoffset depth = do {
     let offset = nextoffset;
     (tag, nextoffset) \<leftarrow> fdt_next_tag fdt offset;
     if nextoffset < 0 then Some nextoffset
     else if tag = FDT_NOP then check_full_n n fdt nextoffset depth
     else if tag = FDT_END then Some (if depth \<noteq> 0 then - FDT_ERR_BADSTRUCTURE else 0)
     else if tag = FDT_BEGIN_NODE then
       (if u32 (depth + 1) > INT_MAX then Some (- FDT_ERR_BADSTRUCTURE)
        else check_full_n n fdt nextoffset (u32 (depth + 1)))
     else if tag = FDT_END_NODE then
       (if depth = 0 then Some (- FDT_ERR_BADSTRUCTURE)
        else check_full_n n fdt nextoffset (u32 (depth - 1)))
     else if tag = FDT_PROP then do {
       (prop, propname, err) \<leftarrow> fdt_getprop_by_offset fdt offset;
       if prop = None then Some err else check_full_n n fdt nextoffset depth }
     else Some (- FDT_ERR_INTERNAL) }"

definition fdt_check_full :: "blob \<Rightarrow> int \<Rightarrow> int option" where
  "fdt_check_full fdt bufsize =
     (if bufsize < 7 * 4 then Some (- FDT_ERR_TRUNCATED)
      else do {
        err \<leftarrow> fdt_check_header fdt;
        if err \<noteq> 0 then Some err
        else do {
          total \<leftarrow> fdt_totalsize fdt;
          if bufsize < total then Some (- FDT_ERR_TRUNCATED)
          else do {
            num_memrsv \<leftarrow> fdt_num_mem_rsv fdt;
            if num_memrsv < 0 then Some num_memrsv
            else check_full_n (blob_fuel fdt) fdt 0 0 } } })"

section \<open>Cell counts and error names\<close>

abbreviation (input) FDT_MAX_NCELLS :: int where "FDT_MAX_NCELLS \<equiv> 4"

definition fdt_cells :: "blob \<Rightarrow> int \<Rightarrow> 8 word list \<Rightarrow> int option" where
  "fdt_cells fdt nodeoffset name = do {
     (c, len) \<leftarrow> fdt_getprop fdt nodeoffset name;
     case c of
       None \<Rightarrow> Some len
     | Some c \<Rightarrow>
         if len \<noteq> 4 then Some (- FDT_ERR_BADNCELLS)
         else do {
           v \<leftarrow> fdt32_ld fdt c;
           let val = s32 v;
           Some (if val \<le> 0 \<or> val > FDT_MAX_NCELLS then - FDT_ERR_BADNCELLS else val) } }"

definition fdt_address_cells :: "blob \<Rightarrow> int \<Rightarrow> int option" where
  "fdt_address_cells fdt nodeoffset = do {
     val \<leftarrow> fdt_cells fdt nodeoffset (chars ''#address-cells'');
     Some (if val = - FDT_ERR_NOTFOUND then 2 else val) }"

definition fdt_size_cells :: "blob \<Rightarrow> int \<Rightarrow> int option" where
  "fdt_size_cells fdt nodeoffset = do {
     val \<leftarrow> fdt_cells fdt nodeoffset (chars ''#size-cells'');
     Some (if val = - FDT_ERR_NOTFOUND then 1 else val) }"

definition fdt_errtable :: "string option list" where
  "fdt_errtable = [None,
     Some ''FDT_ERR_NOTFOUND'', Some ''FDT_ERR_EXISTS'', Some ''FDT_ERR_NOSPACE'',
     Some ''FDT_ERR_BADOFFSET'', Some ''FDT_ERR_BADPATH'', Some ''FDT_ERR_BADPHANDLE'',
     Some ''FDT_ERR_BADSTATE'', Some ''FDT_ERR_TRUNCATED'', Some ''FDT_ERR_BADMAGIC'',
     Some ''FDT_ERR_BADVERSION'', Some ''FDT_ERR_BADSTRUCTURE'', Some ''FDT_ERR_BADLAYOUT'',
     Some ''FDT_ERR_INTERNAL'', Some ''FDT_ERR_BADNCELLS'', Some ''FDT_ERR_BADVALUE'',
     Some ''FDT_ERR_BADOVERLAY'', Some ''FDT_ERR_NOPHANDLES'']"

definition fdt_strerror :: "int \<Rightarrow> string" where
  "fdt_strerror errval =
     (if errval > 0 then ''<valid offset/length>''
      else if errval = 0 then ''<no error>''
      else if u64 errval > u64 (- int (length fdt_errtable))
      then (case fdt_errtable ! nat (- errval) of Some s \<Rightarrow> s | None \<Rightarrow> ''<unknown error>'')
      else ''<unknown error>'')"

end
