(* ===== verification/Fdt_Query.thy ===== *)
theory Fdt_Query
  imports Fdt_Read
begin

text \<open>
  The queries of \<open>Fdt_Read\<close> on a checked blob: they return, they read nothing outside of the
  buffer, and the pointers they return are inside of it. \<open>returns x P\<close> is total correctness of a
  computation; its rules follow the constructs of the definitions.
\<close>

section \<open>Total correctness\<close>

definition returns :: "'a option \<Rightarrow> ('a \<Rightarrow> bool) \<Rightarrow> bool" where
  "returns x P \<longleftrightarrow> (\<exists>r. x = Some r \<and> P r)"

named_theorems returns_rules \<open>one rule per construct\<close>

lemma returns_Some [returns_rules]: "P r \<Longrightarrow> returns (Some r) P"
  by (simp add: returns_def)

lemma returns_Some_iff [simp]: "returns (Some r) P \<longleftrightarrow> P r"
  by (simp add: returns_def)

lemma returns_bind [returns_rules]:
  "returns x P \<Longrightarrow> (\<And>r. P r \<Longrightarrow> returns (f r) Q) \<Longrightarrow> returns (Option.bind x f) Q"
  by (auto simp: returns_def)

lemma returns_if [returns_rules]:
  "(c \<Longrightarrow> returns x P) \<Longrightarrow> (\<not> c \<Longrightarrow> returns y P) \<Longrightarrow> returns (if c then x else y) P"
  by simp

lemma returns_option [returns_rules]:
  "(r = None \<Longrightarrow> returns x P) \<Longrightarrow> (\<And>p. r = Some p \<Longrightarrow> returns (f p) P) \<Longrightarrow>
    returns (case r of None \<Rightarrow> x | Some p \<Rightarrow> f p) P"
  by (cases r) auto

lemma returns_prod [returns_rules]:
  "(\<And>a b. r = (a, b) \<Longrightarrow> returns (f a b) P) \<Longrightarrow> returns (case r of (a, b) \<Rightarrow> f a b) P"
  by (cases r) auto

lemma returns_sum [returns_rules]:
  "(\<And>a. r = Inl a \<Longrightarrow> returns (f a) P) \<Longrightarrow> (\<And>b. r = Inr b \<Longrightarrow> returns (g b) P) \<Longrightarrow>
    returns (case r of Inl a \<Rightarrow> f a | Inr b \<Rightarrow> g b) P"
  by (cases r) auto

lemma returns_Let [returns_rules]: "returns (f x) P \<Longrightarrow> returns (Let x f) P"
  by simp

lemma returns_weaken: "returns x P \<Longrightarrow> (\<And>r. P r \<Longrightarrow> Q r) \<Longrightarrow> returns x Q"
  by (auto simp: returns_def)

lemma returnsD: "returns x P \<Longrightarrow> \<exists>r. x = Some r \<and> P r"
  by (simp add: returns_def)

section \<open>Memory\<close>

lemma ld32_returns: "inside fdt p 4 \<Longrightarrow> returns (fdt32_ld fdt p) (\<lambda>v. v = hdr fdt p)"
  by (simp add: ld32_inside returns_def)

lemma ld64_returns: "inside fdt p 8 \<Longrightarrow> returns (fdt64_ld fdt p) (\<lambda>v. 0 \<le> v)"
  by (simp add: fdt64_ld_def rd_bytes_def returns_def be_value_nonneg)

lemma rd_bytes_returns: "inside fdt p n \<Longrightarrow> returns (rd_bytes fdt p n) (\<lambda>bs. bs = bytes_at fdt p n)"
  by (simp add: rd_bytes_def returns_def)

lemma mem_eq_returns:
  "inside fdt p (int (length s)) \<Longrightarrow>
    returns (mem_eq fdt p s) (\<lambda>b. b \<longleftrightarrow> bytes_at fdt p (int (length s)) = s)"
  by (simp add: mem_eq_def rd_bytes_def returns_def)

definition chr_found :: "blob \<Rightarrow> int \<Rightarrow> 8 word \<Rightarrow> int \<Rightarrow> int option \<Rightarrow> bool" where
  "chr_found fdt p c n r =
     (case r of
        None \<Rightarrow> (\<forall>i. p \<le> i \<and> i < p + n \<longrightarrow> fdt ! nat i \<noteq> c)
      | Some q \<Rightarrow> p \<le> q \<and> q < p + n \<and> fdt ! nat q = c \<and> (\<forall>i. p \<le> i \<and> i < q \<longrightarrow> fdt ! nat i \<noteq> c))"

lemma mem_chr_returns:
  "0 \<le> p \<Longrightarrow> p + n \<le> int (length fdt) \<Longrightarrow> returns (mem_chr fdt p c n) (chr_found fdt p c n)"
proof (induction fdt p c n rule: mem_chr.induct)
  case (1 fdt p c n)
  show ?case
  proof (cases "n \<le> 0")
    case True
    then show ?thesis by (auto simp add: mem_chr.simps [of fdt p c n] returns_def chr_found_def)
  next
    case False
    then have b: "rd8 fdt p = Some (fdt ! nat p)" using 1(2,3) by (simp add: rd8_def)
    show ?thesis
    proof (cases "fdt ! nat p = c")
      case True
      then have "chr_found fdt p c n (Some p)"
        using False unfolding chr_found_def option.case by (intro conjI allI impI) auto
      then show ?thesis using True False by (simp add: mem_chr.simps [of fdt p c n] b returns_def)
    next
      case ne: False
      obtain r where r: "mem_chr fdt (p + 1) c (n - 1) = Some r" "chr_found fdt (p + 1) c (n - 1) r"
        using 1(1) [OF False b ne] 1(2,3) by (auto simp: returns_def)
      have at: "i = p \<or> p + 1 \<le> i" if "p \<le> i" for i using that by linarith
      have "chr_found fdt p c n r"
        using r(2) ne at by (cases r) (fastforce simp: chr_found_def)+
      then show ?thesis using False ne by (simp add: mem_chr.simps [of fdt p c n] b r(1) returns_def)
    qed
  qed
qed

text \<open>A string that is terminated inside of the buffer.\<close>

definition terminated :: "blob \<Rightarrow> int \<Rightarrow> int \<Rightarrow> bool" where
  "terminated fdt p len \<longleftrightarrow> 0 \<le> p \<and> 0 \<le> len \<and> p + len < int (length fdt)
     \<and> fdt ! nat (p + len) = 0 \<and> (\<forall>i. p \<le> i \<and> i < p + len \<longrightarrow> fdt ! nat i \<noteq> 0)"

lemma terminated_unique: "terminated fdt p l \<Longrightarrow> terminated fdt p l' \<Longrightarrow> l = l'"
proof (rule ccontr)
  assume t: "terminated fdt p l" "terminated fdt p l'" "l \<noteq> l'"
  then consider "l < l'" | "l' < l" by linarith
  then show False
  proof cases
    case 1
    then have "fdt ! nat (p + l) \<noteq> 0" using t unfolding terminated_def by auto
    then show False using t by (simp add: terminated_def)
  next
    case 2
    then have "fdt ! nat (p + l') \<noteq> 0" using t unfolding terminated_def by auto
    then show False using t by (simp add: terminated_def)
  qed
qed

lemma rd8_outside: "int (length fdt) \<le> p \<Longrightarrow> rd8 fdt p = None"
  by (simp add: rd8_def)

lemma mem_chr_stops:
  assumes "terminated fdt p l" "l < n"
  shows "mem_chr fdt p 0 n = Some (Some (p + l))"
  using assms
proof (induction "nat l" arbitrary: p l n)
  case 0
  then have "l = 0" by (simp add: terminated_def)
  then show ?case using 0 by (simp add: mem_chr.simps [of fdt p 0 n] terminated_def rd8_def)
next
  case (Suc k)
  then have l: "0 < l" by linarith
  then have c: "fdt ! nat p \<noteq> 0" "rd8 fdt p = Some (fdt ! nat p)"
    using Suc(3) by (auto simp: terminated_def rd8_def)
  have "terminated fdt (p + 1) (l - 1)" using Suc(3) l by (auto simp: terminated_def)
  then have "mem_chr fdt (p + 1) 0 (n - 1) = Some (Some (p + 1 + (l - 1)))"
    using Suc(2,4) by (intro Suc(1)) auto
  then show ?case using c l Suc(4) by (simp add: mem_chr.simps [of fdt p 0 n])
qed

lemma str_len_terminated: "terminated fdt p l \<Longrightarrow> str_len fdt p = Some l"
  using mem_chr_stops [of fdt p l "int (length fdt) + 1 - p"]
  by (auto simp: str_len_def terminated_def)

lemma terminated_before:
  assumes "0 \<le> p" "p \<le> q" "q < int (length fdt)" "fdt ! nat q = 0"
  shows "\<exists>l. terminated fdt p l \<and> p + l \<le> q"
proof -
  obtain r where r: "chr_found fdt p 0 (q + 1 - p) r"
    using mem_chr_returns [of p "q + 1 - p" fdt 0] assms by (auto simp: returns_def)
  then obtain x where "r = Some x" using assms(2,4) by (cases r) (auto simp: chr_found_def)
  then have "terminated fdt p (x - p) \<and> p + (x - p) \<le> q"
    using r assms by (auto simp: chr_found_def terminated_def)
  then show ?thesis by blast
qed

lemma terminated_drop:
  assumes "terminated fdt p l" "0 \<le> k" "k \<le> l"
  shows "terminated fdt (p + k) (l - k)"
  using assms by (auto simp: terminated_def)

lemma str_len_returns: "terminated fdt p l \<Longrightarrow> returns (str_len fdt p) (\<lambda>n. n = l)"
  by (simp add: str_len_terminated returns_def)

section \<open>Offsets\<close>

text \<open>A blob on which the walks are safe: its header has been checked and no property wraps.\<close>

definition fdt_ok :: "blob \<Rightarrow> bool" where
  "fdt_ok fdt \<longleftrightarrow> blob_ok fdt \<and> no_wraps fdt"

lemma fdt_okD: "fdt_ok fdt \<Longrightarrow> blob_ok fdt" "fdt_ok fdt \<Longrightarrow> no_wraps fdt"
  by (simp_all add: fdt_ok_def)

lemmas fdt_reads [blob_simps] = blob_reads [OF fdt_okD(1)]

lemma ro_probe_returns: "fdt_ok fdt \<Longrightarrow> returns (fdt_ro_probe' fdt) (\<lambda>r. r \<le> 0)"
  by (simp add: fdt_ro_probe'_def blob_simps returns_def)

definition offset_of :: "int \<Rightarrow> blob \<Rightarrow> int \<Rightarrow> int \<Rightarrow> bool" where
  "offset_of tag fdt off nxt \<longleftrightarrow> at_tag fdt off \<and> fdt_next_tag fdt off = Some (tag, nxt)
     \<and> tag_read fdt off tag nxt \<and> \<not> wraps fdt off \<and> off + 4 \<le> nxt \<and> at_tag fdt nxt"

lemma check_offset_returns:
  assumes "fdt_ok fdt" "is_int off" "wanted \<noteq> FDT_END"
  shows "returns (check_offset wanted fdt off) (\<lambda>r. r = - FDT_ERR_BADOFFSET \<or> offset_of wanted fdt off r)"
proof -
  obtain tag nxt where t: "fdt_next_tag fdt off = Some (tag, nxt)"
    "tag_error tag nxt \<or> tag_read fdt off tag nxt"
    using next_tag_spec [OF fdt_okD(1) [OF assms(1)] assms(2)] by blast
  show ?thesis
  proof (cases "0 \<le> off \<and> off mod 4 = 0 \<and> tag = wanted")
    case False
    then show ?thesis using t(1) by (auto simp: check_offset_def returns_def)
  next
    case True
    then have r: "tag_read fdt off wanted nxt" using t(2) assms(3) by (auto simp: tag_error_def)
    then have a: "at_tag fdt off" using True tag_readD(2) [OF r] unfolding at_tag_def by linarith
    then obtain "offset_of wanted fdt off nxt"
      using next_tag_step [OF fdt_okD [OF assms(1)] a] t(1) True assms(3)
      by (auto simp: offset_of_def tag_error_def)
    then show ?thesis using t(1) True by (simp add: check_offset_def returns_def)
  qed
qed

lemma offset_of_int: "fdt_ok fdt \<Longrightarrow> offset_of tag fdt off nxt \<Longrightarrow> is_int off \<and> is_int nxt"
  using at_tag_int [OF fdt_okD(1)] by (simp add: offset_of_def)

lemma offset_of_nonneg: "offset_of tag fdt off nxt \<Longrightarrow> 0 \<le> off \<and> 0 \<le> nxt \<and> off < nxt"
  by (simp add: offset_of_def at_tag_def)

lemma blob_fuel_enough:
  assumes "blob_ok fdt" "0 \<le> off"
  shows "struct_end fdt + 4 - off < 4 * int (blob_fuel fdt)"
  using struct_end_le [of fdt] blob_okD [OF assms(1)] assms(2) by (simp add: blob_fuel_def)

lemma next_node_returns:
  assumes ok: "fdt_ok fdt" and off: "is_int off"
  shows "returns (fdt_next_node fdt off depth)
     (\<lambda>(r, d). (r = - FDT_ERR_BADOFFSET \<and> d = depth \<or> node_result fdt (if 0 \<le> off then off + 4 else 0) d r)
        \<and> (d = None \<longleftrightarrow> depth = None))"
proof -
  have walk: "returns (next_node_n (blob_fuel fdt) fdt o' depth)
      (\<lambda>(r, d). node_result fdt lo d r \<and> (d = None \<longleftrightarrow> depth = None))"
    if at: "at_tag fdt o'" and lo: "lo \<le> o'" for o' lo
  proof -
    have "struct_end fdt + 4 - o' < 4 * int (blob_fuel fdt)"
      using at blob_fuel_enough [OF fdt_okD(1) [OF ok]] by (simp add: at_tag_def)
    then obtain r d where "next_node_n (blob_fuel fdt) fdt o' depth = Some (r, d)"
      "node_result fdt o' d r" "d = None \<longleftrightarrow> depth = None"
      using next_node_n_spec [OF fdt_okD [OF ok] at, of "blob_fuel fdt" depth] by blast
    then show ?thesis using node_result_later [OF _ lo] by (auto simp: returns_def)
  qed
  show ?thesis
  proof (cases "0 \<le> off")
    case False
    have "0 \<le> hdr fdt 4 - hdr fdt 8" using blob_okD [OF fdt_okD(1) [OF ok]] by simp
    then have "0 \<le> struct_end fdt" using hdr_range(1) [of fdt 36] by (simp add: struct_end_def)
    then have "at_tag fdt 0" by (simp add: at_tag_def)
    then show ?thesis using walk [of 0 0] False by (auto simp: fdt_next_node_def returns_def)
  next
    case True
    have "returns (check_offset FDT_BEGIN_NODE fdt off)
        (\<lambda>r. r = - FDT_ERR_BADOFFSET \<or> offset_of FDT_BEGIN_NODE fdt off r)"
      by (rule check_offset_returns [OF ok off]) simp
    then show ?thesis
    proof (rule returnsD [THEN exE])
      fix r assume r: "check_offset FDT_BEGIN_NODE fdt off = Some r
        \<and> (r = - FDT_ERR_BADOFFSET \<or> offset_of FDT_BEGIN_NODE fdt off r)"
      show ?thesis
      proof (cases "offset_of FDT_BEGIN_NODE fdt off r")
        case True
        then have "at_tag fdt r" "off + 4 \<le> r" "0 \<le> r" "0 \<le> off"
          using offset_of_nonneg [OF True] by (auto simp: offset_of_def)
        then show ?thesis using walk [of r "off + 4"] r
          by (auto simp: fdt_next_node_def fdt_check_node_offset'_def returns_def)
      next
        case False
        then show ?thesis using r True by (auto simp: fdt_next_node_def fdt_check_node_offset'_def returns_def)
      qed
    qed
  qed
qed

text \<open>The offset of a node.\<close>

definition is_node :: "blob \<Rightarrow> int \<Rightarrow> bool" where
  "is_node fdt off \<longleftrightarrow> at_tag fdt off \<and> (\<exists>nxt. fdt_next_tag fdt off = Some (FDT_BEGIN_NODE, nxt))"

lemma is_node_offset: "fdt_ok fdt \<Longrightarrow> is_node fdt off \<longleftrightarrow> (\<exists>nxt. offset_of FDT_BEGIN_NODE fdt off nxt)"
proof
  assume ok: "fdt_ok fdt" and n: "is_node fdt off"
  then obtain nxt where t: "at_tag fdt off" "fdt_next_tag fdt off = Some (FDT_BEGIN_NODE, nxt)"
    by (auto simp: is_node_def)
  then have "offset_of FDT_BEGIN_NODE fdt off nxt"
    using next_tag_step [OF fdt_okD [OF ok] t(1)] by (auto simp: offset_of_def tag_error_def)
  then show "\<exists>nxt. offset_of FDT_BEGIN_NODE fdt off nxt" ..
qed (auto simp: is_node_def offset_of_def)

lemma next_node_none:
  assumes "fdt_ok fdt" "is_int off"
  shows "returns (fdt_next_node fdt off None)
     (\<lambda>(r, d). r < 0 \<or> (is_node fdt r \<and> (if 0 \<le> off then off + 4 else 0) \<le> r))"
  by (rule returns_weaken [OF next_node_returns [OF assms]])
    (auto simp: node_result_def is_node_def)

section \<open>Names and strings\<close>

lemma terminated_inside: "terminated fdt p l \<Longrightarrow> inside fdt p l" "terminated fdt p l \<Longrightarrow> inside fdt p (l + 1)"
  by (auto simp: terminated_def inside_def)

lemma node_name:
  assumes ok: "fdt_ok fdt" and n: "offset_of FDT_BEGIN_NODE fdt off nxt"
  shows "\<exists>l. terminated fdt (hdr fdt 8 + off + 4) l \<and> off + 4 + l + 1 \<le> struct_end fdt
    \<and> nxt = FDT_TAGALIGN (off + 4 + l + 1)"
proof -
  note b = fdt_okD(1) [OF ok]
  have r: "tag_read fdt off FDT_BEGIN_NODE nxt" and t: "fdt_next_tag fdt off = Some (FDT_BEGIN_NODE, nxt)"
    using n by (simp_all add: offset_of_def)
  note r' = tag_readD [OF r]
  obtain s where s: "skip_name fdt (off + 4) = Some s" "\<forall>e. s = Some e \<longrightarrow> name_ends fdt (off + 4) e"
    using skip_name_spec [OF b, of "off + 4"] r'(1) tag_start(5) [OF b r'(1,2)] by auto
  then obtain e where e: "s = Some e" "nxt = FDT_TAGALIGN e"
    using next_tag_begin [OF b r'(1,2) r'(3) [symmetric] s(1)] t by (auto split: option.splits)
  then have ne: "name_ends fdt (off + 4) e" using s by simp
  let ?l = "e - 1 - (off + 4)"
  have "hdr fdt 8 + (e - 1) < int (length fdt)"
    using ne struct_end_le [of fdt] blob_okD [OF b] by (simp add: name_ends_def)
  then have "terminated fdt (hdr fdt 8 + off + 4) ?l"
    unfolding terminated_def
  proof (intro conjI allI impI)
    show "fdt ! nat (hdr fdt 8 + off + 4 + ?l) = 0" using ne by (simp add: name_ends_def)
    fix i assume i: "hdr fdt 8 + off + 4 \<le> i \<and> i < hdr fdt 8 + off + 4 + ?l"
    then have "off + 4 \<le> i - hdr fdt 8 \<and> i - hdr fdt 8 < e - 1" by linarith
    then have "fdt ! nat (hdr fdt 8 + (i - hdr fdt 8)) \<noteq> 0" using ne unfolding name_ends_def by blast
    then show "fdt ! nat i \<noteq> 0" by simp
  qed (use ne r'(1) blob_okD [OF b] in \<open>auto simp: name_ends_def\<close>)
  moreover have "off + 4 + ?l + 1 \<le> struct_end fdt" "nxt = FDT_TAGALIGN (off + 4 + ?l + 1)"
    using ne e(2) by (simp_all add: name_ends_def)
  ultimately show ?thesis by blast
qed

lemma last_index_less: "last_index c xs = Some i \<Longrightarrow> i < length xs"
  by (induction xs arbitrary: i) (auto split: option.splits if_splits)

lemma str_rchr_returns:
  assumes "terminated fdt p l"
  shows "returns (str_rchr fdt p c) (\<lambda>r. \<forall>q. r = Some q \<longrightarrow> terminated fdt (q + 1) (l - (q + 1 - p)) \<and> p \<le> q)"
proof -
  have "terminated fdt (p + int i + 1) (l - (int i + 1))"
    if "last_index c (bytes_at fdt p l) = Some i" for i
  proof -
    have "i < nat l" using last_index_less [OF that] length_bytes_at [OF terminated_inside(1) [OF assms]] by simp
    then show ?thesis using terminated_drop [OF assms, of "int i + 1"] by (simp add: add.assoc)
  qed
  then show ?thesis using terminated_inside(1) [OF assms]
    by (auto simp: str_rchr_def str_len_terminated [OF assms] rd_bytes_def returns_def algebra_simps)
qed

lemma string_int: "fdt_ok fdt \<Longrightarrow> terminated fdt p l \<Longrightarrow> p + l < 2 ^ 31 \<Longrightarrow> s32 l = l"
  by (intro s32_id) (auto simp: terminated_def is_int_def)

definition name_result :: "blob \<Rightarrow> int \<Rightarrow> int option \<Rightarrow> int \<Rightarrow> bool" where
  "name_result fdt off p len \<longleftrightarrow>
     (case p of None \<Rightarrow> len < 0
      | Some q \<Rightarrow> is_node fdt off \<and> terminated fdt q len \<and> hdr fdt 8 + off + 4 \<le> q
          \<and> q + len < hdr fdt 8 + struct_end fdt)"

lemma struct_end_total: "blob_ok fdt \<Longrightarrow> hdr fdt 8 + struct_end fdt \<le> INT_MAX"
  using struct_end_le [of fdt] blob_okD [of fdt] by linarith

theorem get_name_returns:
  assumes ok: "fdt_ok fdt" and off: "is_int off"
  shows "returns (fdt_get_name fdt off) (\<lambda>(p, len). name_result fdt off p len)"
proof -
  have main: "returns (do {
         let nameptr = hdr fdt 8 + off + 4;
         version \<leftarrow> fdt_version fdt;
         if version < 0x10 then do {
           leaf \<leftarrow> str_rchr fdt nameptr slash;
           case leaf of
             None \<Rightarrow> Some (None, - FDT_ERR_BADSTRUCTURE)
           | Some l \<Rightarrow> do { len \<leftarrow> str_len fdt (l + 1); Some (Some (l + 1), s32 len) } }
         else do { len \<leftarrow> str_len fdt nameptr; Some (Some nameptr, s32 len) } })
      (\<lambda>(p, len). name_result fdt off p len)" (is "returns ?m _")
    if n: "offset_of FDT_BEGIN_NODE fdt off nxt" for nxt
  proof -
    obtain l where l: "terminated fdt (hdr fdt 8 + off + 4) l" "off + 4 + l + 1 \<le> struct_end fdt"
      using node_name [OF ok n] by blast
    have node: "is_node fdt off" using n is_node_offset [OF ok] by blast
    note e = struct_end_total [OF fdt_okD(1) [OF ok]]
    have whole: "s32 l = l" using string_int [OF ok l(1)] l(2) e by simp
    have tail: "s32 l' = l'" "q + 1 + l' = hdr fdt 8 + off + 4 + l"
      if "terminated fdt (q + 1) (l - (q + 1 - (hdr fdt 8 + off + 4)))"
        "l' = l - (q + 1 - (hdr fdt 8 + off + 4))" for q l'
      using string_int [OF ok that(1)] that(2) l(2) e by simp_all
    show ?thesis
    proof (cases "hdr fdt 20 < 0x10")
      case False
      then show ?thesis using l node whole ok
        by (simp add: blob_simps str_len_terminated returns_def name_result_def)
    next
      case True
      obtain r where r: "str_rchr fdt (hdr fdt 8 + off + 4) slash = Some r"
        "\<forall>q. r = Some q \<longrightarrow> terminated fdt (q + 1) (l - (q + 1 - (hdr fdt 8 + off + 4)))
          \<and> hdr fdt 8 + off + 4 \<le> q"
        using str_rchr_returns [OF l(1), of slash] by (auto simp: returns_def)
      show ?thesis
      proof (cases r)
        case None
        then show ?thesis using True r(1) ok by (simp add: blob_simps returns_def name_result_def)
      next
        case (Some q)
        then have q: "terminated fdt (q + 1) (l - (q + 1 - (hdr fdt 8 + off + 4)))"
          "hdr fdt 8 + off + 4 \<le> q" using r(2) by auto
        show ?thesis using True r(1) Some q ok node tail [OF q(1) refl] str_len_terminated [OF q(1)] l(2)
          by (simp add: blob_simps returns_def name_result_def)
      qed
    qed
  qed
  note ro = ro_probe_returns [OF ok]
  have c: "returns (fdt_check_node_offset' fdt off)
      (\<lambda>r. r = - FDT_ERR_BADOFFSET \<or> offset_of FDT_BEGIN_NODE fdt off r)"
    unfolding fdt_check_node_offset'_def by (rule check_offset_returns [OF ok off]) simp
  have nh: "returns (fdt_offset_ptr' fdt off) (\<lambda>p. p = hdr fdt 8 + off)"
    using ok by (simp add: fdt_offset_ptr'_def blob_simps returns_def)
  show ?thesis
    unfolding fdt_get_name_def
    by (rule returns_bind [OF nh], rule returns_bind [OF ro], rule returns_if,
        simp add: returns_def name_result_def, rule returns_bind [OF c], rule returns_if,
        simp add: returns_def name_result_def)
      (use main in auto)
qed

lemma rd8_returns: "inside fdt p 1 \<Longrightarrow> returns (rd8 fdt p) (\<lambda>c. c = fdt ! nat p)"
  by (simp add: rd8_inside returns_def)

theorem nodename_eq_returns:
  assumes "fdt_ok fdt" "is_int off"
  shows "returns (fdt_nodename_eq' fdt off s) (\<lambda>b. b \<longrightarrow> is_node fdt off)"
proof -
  have in_name: "inside fdt q (int (length s))" "inside fdt (q + int (length s)) 1"
    if "terminated fdt q len" "int (length s) \<le> len" for q len
    using that by (auto simp: terminated_def inside_def)
  show ?thesis
    unfolding fdt_nodename_eq'_def
    by (rule returns_bind [OF get_name_returns [OF assms]], rule returns_prod, rule returns_option,
        simp, rule returns_if, simp,
        rule returns_bind [OF mem_eq_returns], force simp: name_result_def intro: in_name,
        rule returns_if, simp, rule returns_bind [OF rd8_returns])
      (auto simp: name_result_def intro: in_name)
qed

definition string_result :: "blob \<Rightarrow> int option \<Rightarrow> int \<Rightarrow> bool" where
  "string_result fdt p len \<longleftrightarrow>
     (case p of None \<Rightarrow> len < 0 | Some q \<Rightarrow> terminated fdt q len \<and> q + len < hdr fdt 4)"

lemma string_limit_returns:
  assumes ok: "fdt_ok fdt" and off: "is_int off" and abs: "0 \<le> lo" "lo < 2 ^ 32"
  shows "returns (string_limit fdt off lo)
    (\<lambda>r. case r of Inl e \<Rightarrow> e < 0 | Inr len \<Rightarrow> lo + len \<le> hdr fdt 4)"
proof -
  have a: "u32 (hdr fdt 32 - off) < hdr fdt 4 - lo \<Longrightarrow> lo + u32 (hdr fdt 32 - off) \<le> hdr fdt 4"
    by simp
  have b: "lo + s32 (- off) \<le> hdr fdt 4" if "u64 (s32 (- off)) < hdr fdt 4 - lo"
  proof (cases "0 \<le> s32 (- off)")
    case True
    then have "u64 (s32 (- off)) = s32 (- off)"
      using is_int_s32 [of "- off"] by (intro u64_id) (auto simp: is_int_def)
    then show ?thesis using that by simp
  next
    case False
    have "0 \<le> u64 (s32 (- off))" by (simp add: u64_def)
    then show ?thesis using that False by linarith
  qed
  show ?thesis using ok a b by (simp add: string_limit_def blob_simps Let_def returns_def)
qed

theorem get_string_returns:
  assumes ok: "fdt_ok fdt" and off: "is_int off"
  shows "returns (fdt_get_string fdt off) (\<lambda>(p, len). string_result fdt p len)"
proof -
  let ?a = "u32 (off + hdr fdt 12)"
  note b = blob_okD [OF fdt_okD(1) [OF ok]]
  have found: "string_result fdt (Some ?a) (s32 (q - ?a))"
    if "chr_found fdt ?a 0 len (Some q)" "?a + len \<le> hdr fdt 4" for q len
  proof -
    have t: "terminated fdt ?a (q - ?a)" "q < hdr fdt 4"
      using that b u32_range(1) [of "off + hdr fdt 12"] by (auto simp: chr_found_def terminated_def)
    then have "s32 (q - ?a) = q - ?a" using string_int [OF ok t(1)] b by simp
    then show ?thesis using t by (simp add: string_result_def)
  qed
  have rest: "returns (do {
       limit \<leftarrow> string_limit fdt off ?a;
       case limit of
         Inl err \<Rightarrow> Some (None, err)
       | Inr len \<Rightarrow> do {
           n \<leftarrow> mem_chr fdt ?a 0 len;
           case n of
             None \<Rightarrow> Some (None, - FDT_ERR_TRUNCATED)
           | Some n \<Rightarrow> Some (Some ?a, s32 (n - ?a)) } })
     (\<lambda>(p, len). string_result fdt p len)"
  proof (rule returns_bind [OF string_limit_returns [OF ok off u32_range]], rule returns_sum)
    fix r :: "int + int" and e assume "case r of Inl e \<Rightarrow> e < 0 | Inr len \<Rightarrow> ?a + len \<le> hdr fdt 4" "r = Inl e"
    then show "returns (Some (None, e)) (\<lambda>(p, len). string_result fdt p len)"
      by (simp add: string_result_def)
  next
    fix r :: "int + int" and len
    assume "case r of Inl e \<Rightarrow> e < 0 | Inr len \<Rightarrow> ?a + len \<le> hdr fdt 4" "r = Inr len"
    then have le: "?a + len \<le> hdr fdt 4" by simp
    then have "?a + len \<le> int (length fdt)" using b by simp
    then show "returns (do { n \<leftarrow> mem_chr fdt ?a 0 len;
           case n of None \<Rightarrow> Some (None, - FDT_ERR_TRUNCATED)
           | Some n \<Rightarrow> Some (Some ?a, s32 (n - ?a)) }) (\<lambda>(p, len). string_result fdt p len)"
      using found [OF _ le]
      by (intro returns_bind [OF mem_chr_returns [OF u32_range(1)]] returns_option)
        (auto simp: string_result_def)
  qed
  show ?thesis
    unfolding fdt_get_string_def
    by (rule returns_bind [of _ "\<lambda>v. v = hdr fdt 12"], use ok in \<open>simp add: blob_simps returns_def\<close>,
        rule returns_Let, rule returns_bind [OF ro_probe_returns [OF ok]], rule returns_if,
        simp add: string_result_def)
      (use rest in simp)
qed

lemma string_eq_returns:
  assumes "fdt_ok fdt" "is_int off"
  shows "returns (fdt_string_eq' fdt off s) (\<lambda>b. True)"
  unfolding fdt_string_eq'_def
  by (rule returns_bind [OF get_string_returns [OF assms]], rule returns_prod, rule returns_option,
      simp, rule returns_if, rule returns_weaken [OF mem_eq_returns])
    (auto simp: string_result_def intro: terminated_inside)

section \<open>The memory reservation map\<close>

text \<open>The index is bounded: from \<open>2 ^ 28\<close> on its offset wraps around (\<open>mem_rsv_wraps\<close>).\<close>

theorem mem_rsv_returns:
  assumes ok: "fdt_ok fdt" and n: "0 \<le> n" "n < 2 ^ 27"
  shows "returns (fdt_mem_rsv fdt n) (\<lambda>r. \<forall>p. r = Some p \<longrightarrow> p = hdr fdt 16 + 16 * n \<and> p + 16 \<le> hdr fdt 4)"
proof -
  note b = blob_okD [OF fdt_okD(1) [OF ok]]
  have o: "s32 (n * 16) = n * 16" using n by (intro s32_id) (auto simp: is_int_def)
  let ?x = "hdr fdt 16 + n * 16"
  have t: "u64 (hdr fdt 4 - 16) = hdr fdt 4 - 16" using b by (intro u64_id) auto
  consider "?x < 2 ^ 31" | "2 ^ 31 \<le> ?x" "?x < 2 ^ 32" | "2 ^ 32 \<le> ?x" by linarith
  then show ?thesis
  proof cases
    case 1
    then have "s32 ?x = ?x" "u64 ?x = ?x"
      using n hdr_range [of fdt 16] by (auto intro!: s32_id u64_id simp: is_int_def)
    then show ?thesis using ok o t
      by (auto simp: fdt_mem_rsv_def blob_simps returns_def Let_def)
  next
    case 2
    then have s: "s32 ?x = ?x - 2 ^ 32" by (intro s32_over) auto
    have "u64 (?x - 2 ^ 32) = ?x - 2 ^ 32 + 2 ^ 64"
    proof -
      have "u64 (?x - 2 ^ 32) = (?x - 2 ^ 32 + 2 ^ 64) mod 2 ^ 64" unfolding u64_def by (rule mod_add_self2 [symmetric])
      also have "\<dots> = ?x - 2 ^ 32 + 2 ^ 64" using 2 by (intro mod_pos_pos_trivial) auto
      finally show ?thesis .
    qed
    then have "u64 (s32 ?x) > u64 (hdr fdt 4 - 16)" using s t b 2 by simp
    then show ?thesis using ok o by (simp add: fdt_mem_rsv_def blob_simps returns_def Let_def)
  next
    case 3
    have "s32 ?x = ?x - 2 ^ 32" using 3 n hdr_range [of fdt 16] by (intro s32_over) auto
    moreover have "u32 (?x - 2 ^ 32) = ?x - 2 ^ 32"
      using 3 n hdr_range [of fdt 16] by (intro u32_id) auto
    ultimately have "u32 (s32 ?x) < hdr fdt 16" using n by simp
    then show ?thesis using ok o by (simp add: fdt_mem_rsv_def blob_simps returns_def Let_def)
  qed
qed

lemma get_mem_rsv_returns:
  assumes ok: "fdt_ok fdt" and n: "0 \<le> n" "n < 2 ^ 27"
  shows "returns (fdt_get_mem_rsv fdt n) (\<lambda>(err, v). err \<le> 0 \<and> (v = None \<longleftrightarrow> err < 0))"
proof -
  have i: "inside fdt p 8" "inside fdt (p + 8) 8"
    if "p = hdr fdt 16 + 16 * n \<and> p + 16 \<le> hdr fdt 4" for p
    using that n hdr_range [of fdt 16] blob_okD [OF fdt_okD(1) [OF ok]] by (auto simp: inside_def)
  show ?thesis
    unfolding fdt_get_mem_rsv_def
    by (rule returns_bind [OF ro_probe_returns [OF ok]], rule returns_if, simp,
        rule returns_bind [OF mem_rsv_returns [OF ok n]], rule returns_option, simp,
        rule returns_bind [OF ld64_returns], simp add: i, rule returns_bind [OF ld64_returns], simp add: i)
      simp
qed

theorem num_mem_rsv_returns:
  assumes ok: "fdt_ok fdt"
  shows "returns (fdt_num_mem_rsv fdt) (\<lambda>r. r = - FDT_ERR_TRUNCATED \<or> 0 \<le> r \<and> 16 * r + 16 \<le> hdr fdt 4)"
proof -
  note b = blob_okD [OF fdt_okD(1) [OF ok]]
  have "returns (num_mem_rsv_n n fdt i) (\<lambda>r. r = - FDT_ERR_TRUNCATED \<or> 0 \<le> r \<and> 16 * r + 16 \<le> hdr fdt 4)"
    if "0 \<le> i" "16 * i \<le> hdr fdt 4" "hdr fdt 4 < 16 * (i + int n)" for n i
    using that
  proof (induction n arbitrary: i)
    case (Suc n)
    have i27: "i < 2 ^ 27" using Suc.prems(2) b by simp
    have ins: "inside fdt (p + 8) 8"
      if "p = hdr fdt 16 + 16 * i \<and> p + 16 \<le> hdr fdt 4" for p
      using that Suc.prems(1) hdr_range [of fdt 16] b by (auto simp: inside_def)
    have next_i: "s32 (i + 1) = i + 1" using i27 Suc.prems(1) by (intro s32_id) (auto simp: is_int_def)
    have step: "16 * (i + 1) \<le> hdr fdt 4"
      if "p = hdr fdt 16 + 16 * i \<and> p + 16 \<le> hdr fdt 4" for p
      using that hdr_range [of fdt 16] by simp
    show ?case
      unfolding num_mem_rsv_n.simps
      by (rule returns_bind [OF mem_rsv_returns [OF ok Suc.prems(1) i27]], rule returns_option,
          simp, rule returns_bind [OF ld64_returns], simp add: ins, rule returns_if)
        (use Suc next_i step in \<open>auto simp: returns_Some\<close>)
  qed simp
  from this [of 0 "blob_fuel fdt"] show ?thesis
    unfolding fdt_num_mem_rsv_def using b hdr_range [of fdt 4] by (simp add: blob_fuel_def)
qed

end
