(* ===== verification/Fdt_Search.thy ===== *)
theory Fdt_Search
  imports Fdt_Query
begin

text \<open>
  The queries that look for properties and nodes: they return on every checked blob, and the value
  of a property lies inside of the structure block.
\<close>

section \<open>Properties\<close>

lemma nextprop_returns:
  assumes ok: "fdt_ok fdt" and o: "at_tag fdt off"
  shows "returns (nextprop' fdt off) (\<lambda>r. r < 0 \<or> off \<le> r \<and> (\<exists>nxt. offset_of FDT_PROP fdt r nxt))"
proof -
  have "returns (nextprop_n n fdt off) (\<lambda>r. r < 0 \<or> off \<le> r \<and> (\<exists>nxt. offset_of FDT_PROP fdt r nxt))"
    if "at_tag fdt off" "struct_end fdt + 4 - off < 4 * int n" for n off
    using that
  proof (induction n arbitrary: off)
    case 0
    then show ?case by (simp add: at_tag_def)
  next
    case (Suc n)
    obtain tag nxt where t: "fdt_next_tag fdt off = Some (tag, nxt)"
      "tag_error tag nxt \<or> tag_read fdt off tag nxt \<and> \<not> wraps fdt off \<and> off + 4 \<le> nxt \<and> at_tag fdt nxt"
      using next_tag_step [OF fdt_okD [OF ok] Suc.prems(1)] by blast
    show ?case
    proof (cases "tag = FDT_NOP")
      case True
      then have nxt: "at_tag fdt nxt" "off + 4 \<le> nxt" using t(2) by (auto simp: tag_error_def)
      then have "struct_end fdt + 4 - nxt < 4 * int n" using Suc.prems(2) by simp
      from Suc.IH [OF nxt(1) this] True t(1) nxt(2) show ?thesis
        by (auto simp: returns_def)
    next
      case False
      then show ?thesis using t Suc.prems(1) by (auto simp: offset_of_def tag_error_def)
    qed
  qed
  then show ?thesis
    using o blob_fuel_enough [OF fdt_okD(1) [OF ok], of off] by (simp add: nextprop'_def at_tag_def)
qed

lemma first_property_returns:
  assumes "fdt_ok fdt" "is_int off"
  shows "returns (fdt_first_property_offset fdt off) (\<lambda>r. r < 0 \<or> off < r \<and> (\<exists>nxt. offset_of FDT_PROP fdt r nxt))"
  unfolding fdt_first_property_offset_def fdt_check_node_offset'_def
  by (rule returns_bind [OF check_offset_returns [OF assms]], simp, rule returns_if, simp,
      rule returns_weaken [OF nextprop_returns [OF assms(1)]])
    (auto simp: offset_of_def)

lemma next_property_returns:
  assumes "fdt_ok fdt" "is_int off"
  shows "returns (fdt_next_property_offset fdt off)
    (\<lambda>r. r < 0 \<or> off + 4 \<le> r \<and> (\<exists>nxt. offset_of FDT_PROP fdt r nxt))"
  unfolding fdt_next_property_offset_def fdt_check_prop_offset'_def
  by (rule returns_bind [OF check_offset_returns [OF assms]], simp, rule returns_if, simp,
      rule returns_weaken [OF nextprop_returns [OF assms(1)]])
    (auto simp: offset_of_def)

text \<open>A property at an offset: its header and its value are in the structure block.\<close>

lemma offset_of_prop:
  assumes "fdt_ok fdt" "offset_of FDT_PROP fdt off nxt"
  shows "off + 12 + prop_len fdt off + prop_pad fdt off \<le> struct_end fdt"
    "0 \<le> prop_len fdt off" "0 \<le> prop_pad fdt off" "is_int (prop_len fdt off)" "0 \<le> off"
proof -
  have t: "tag_read fdt off FDT_PROP nxt" "\<not> wraps fdt off" using assms(2) by (auto simp: offset_of_def)
  then have "hdr fdt (hdr fdt 8 + off) = FDT_PROP" by (simp add: tag_read_def)
  then have "prop_size fdt off = 12 + prop_len fdt off + prop_pad fdt off"
    using prop_size_exact(1) t(2) by simp
  moreover have "off + prop_size fdt off \<le> struct_end fdt" "0 \<le> off" using t(1) by (simp_all add: tag_read_def)
  ultimately show le: "off + 12 + prop_len fdt off + prop_pad fdt off \<le> struct_end fdt"
    and o: "0 \<le> off" by simp_all
  show p: "0 \<le> prop_len fdt off" "0 \<le> prop_pad fdt off" by (simp_all add: prop_len_def prop_pad_def hdr_range)
  then show "is_int (prop_len fdt off)"
    using le o struct_end_int [OF fdt_okD(1) [OF assms(1)]] by (simp add: is_int_def)
qed

definition prop_found :: "blob \<Rightarrow> int \<Rightarrow> int option \<Rightarrow> int \<Rightarrow> bool" where
  "prop_found fdt off p len \<longleftrightarrow>
     (case p of
        None \<Rightarrow> len < 0
      | Some q \<Rightarrow> q = hdr fdt 8 + off \<and> len = prop_len fdt off \<and> (\<exists>nxt. offset_of FDT_PROP fdt off nxt))"

lemma offset_ptr_raw: "fdt_ok fdt \<Longrightarrow> fdt_offset_ptr' fdt off = Some (hdr fdt 8 + off)"
  by (simp add: fdt_offset_ptr'_def blob_simps)

lemma prop_word:
  assumes "fdt_ok fdt" "offset_of FDT_PROP fdt off nxt" "k \<in> {4, 8}"
  shows "inside fdt (hdr fdt 8 + off + k) 4"
  using struct_inside [OF fdt_okD(1) [OF assms(1)], of "off + k" 4] offset_of_prop [OF assms(1,2)] assms(3)
  by (auto simp: add.assoc)

lemma property_by_offset_returns:
  assumes ok: "fdt_ok fdt" and off: "is_int off"
  shows "returns (fdt_get_property_by_offset' fdt off) (\<lambda>(p, len). prop_found fdt off p len)"
  unfolding fdt_get_property_by_offset'_def fdt_check_prop_offset'_def
proof (rule returns_bind [OF check_offset_returns [OF ok off]], simp, rule returns_if)
  fix r assume r: "r = - FDT_ERR_BADOFFSET \<or> offset_of FDT_PROP fdt off r"
  { assume "r < 0"
    then show "returns (Some (None, r)) (\<lambda>(p, len). prop_found fdt off p len)"
      by (simp add: prop_found_def) }
  assume "\<not> r < 0"
  then have o: "offset_of FDT_PROP fdt off r" using r by auto
  have "fdt32_ld fdt (hdr fdt 8 + off + 4) = Some (prop_len fdt off)"
    using ld32_inside [OF prop_word [OF ok o, of 4]] by (simp add: prop_len_def)
  then show "returns (do { prop \<leftarrow> fdt_offset_ptr' fdt off; len \<leftarrow> fdt32_ld fdt (prop + 4);
      Some (Some prop, s32 len) }) (\<lambda>(p, len). prop_found fdt off p len)"
    using o offset_of_prop(4) [OF ok o] by (auto simp: offset_ptr_raw [OF ok] prop_found_def s32_id)
qed

text \<open>The search through the properties of a node.\<close>

definition named_prop :: "blob \<Rightarrow> int option \<times> int \<times> int \<Rightarrow> bool" where
  "named_prop fdt r =
     (case r of (p, len, poff) \<Rightarrow>
        (p = None \<longrightarrow> len < 0) \<and> (p \<noteq> None \<longrightarrow> prop_found fdt poff p len))"

lemma named_prop_simps [simp]:
  "named_prop fdt (None, len, poff) \<longleftrightarrow> len < 0"
  "named_prop fdt (Some q, len, poff) \<longleftrightarrow> prop_found fdt poff (Some q) len"
  by (simp_all add: named_prop_def)

lemma get_property_n_returns:
  assumes ok: "fdt_ok fdt"
  shows "off < 0 \<or> (\<exists>nxt. offset_of FDT_PROP fdt off nxt) \<Longrightarrow> 0 < n \<and> (off < 0 \<or> struct_end fdt + 4 - off < 4 * int n) \<Longrightarrow>
    returns (get_property_n n fdt off name) (named_prop fdt)"
proof (induction n arbitrary: off)
  case 0
  then show ?case by (auto simp: offset_of_def at_tag_def)
next
  case (Suc n)
  show ?case
  proof (cases "off < 0")
    case True
    then show ?thesis by (simp add: named_prop_def)
  next
    case False
    then obtain nxt where o: "offset_of FDT_PROP fdt off nxt" using Suc.prems(1) by auto
    have i: "is_int off" using offset_of_int [OF ok o] by simp
    have nameoff: "returns (fdt32_ld fdt (p + 8)) (\<lambda>v. True)" if "prop_found fdt off (Some p) len" for p len
      using ld32_inside [OF prop_word [OF ok o, of 8]] that by (simp add: prop_found_def)
    have next_prop: "returns (do { off' \<leftarrow> fdt_next_property_offset fdt off; get_property_n n fdt off' name })
        (named_prop fdt)"
    proof (rule returns_bind [OF next_property_returns [OF ok i]])
      fix r assume r: "r < 0 \<or> off + 4 \<le> r \<and> (\<exists>nxt. offset_of FDT_PROP fdt r nxt)"
      have "0 < n"
      proof (rule ccontr)
        assume "\<not> 0 < n"
        then have "struct_end fdt < off" using Suc.prems(2) False by simp
        then show False using offset_of_prop [OF ok o] by simp
      qed
      then show "returns (get_property_n n fdt r name) (named_prop fdt)"
        using r Suc.prems(2) False by (intro Suc.IH) auto
    qed
    show ?thesis
      unfolding get_property_n.simps using False next_prop
      by (simp, intro returns_bind [OF property_by_offset_returns [OF ok i]] returns_prod returns_option)
        (auto
          intro!: returns_bind [OF nameoff] returns_bind [OF string_eq_returns [OF ok is_int_s32]])
  qed
qed

lemma get_property_namelen_returns:
  assumes ok: "fdt_ok fdt" and off: "is_int off"
  shows "returns (fdt_get_property_namelen' fdt off name) (named_prop fdt)"
  unfolding fdt_get_property_namelen'_def
proof (rule returns_bind [OF first_property_returns [OF ok off]])
  fix r assume r: "r < 0 \<or> off < r \<and> (\<exists>nxt. offset_of FDT_PROP fdt r nxt)"
  have "0 < blob_fuel fdt \<and> (r < 0 \<or> struct_end fdt + 4 - r < 4 * int (blob_fuel fdt))"
    using blob_fuel_enough [OF fdt_okD(1) [OF ok], of r] by (cases "r < 0") (auto simp: blob_fuel_def)
  then show "returns (get_property_n (blob_fuel fdt) fdt r name) (named_prop fdt)"
    using r by (intro get_property_n_returns [OF ok]) auto
qed

text \<open>The value of a property: a region of the structure block.\<close>

definition value_result :: "blob \<Rightarrow> int option \<times> int \<Rightarrow> bool" where
  "value_result fdt r =
     (case r of
        (None, len) \<Rightarrow> len < 0
      | (Some q, len) \<Rightarrow> 0 \<le> len \<and> hdr fdt 8 \<le> q \<and> q + len \<le> hdr fdt 8 + struct_end fdt)"

lemma value_inside: "fdt_ok fdt \<Longrightarrow> value_result fdt (Some q, len) \<Longrightarrow> inside fdt q len"
  using struct_end_le [of fdt] blob_okD [OF fdt_okD(1), of fdt] by (auto simp: value_result_def inside_def)

lemma prop_data_returns:
  assumes ok: "fdt_ok fdt" and o: "offset_of FDT_PROP fdt off nxt"
  shows "returns (prop_data fdt (hdr fdt 8 + off) off)
     (\<lambda>q. q = hdr fdt 8 + off + 12 + prop_pad fdt off \<and> value_result fdt (Some q, prop_len fdt off))"
proof -
  have len: "fdt32_ld fdt (hdr fdt 8 + off + 4) = Some (prop_len fdt off)"
    using ld32_inside [OF prop_word [OF ok o, of 4]] by (simp add: prop_len_def)
  have u: "u64 (off + 12) = off + 12"
    using offset_of_int [OF ok o] offset_of_prop(5) [OF ok o] by (intro u64_id) (auto simp: is_int_def)
  have "returns (prop_data fdt (hdr fdt 8 + off) off) (\<lambda>q. q = hdr fdt 8 + off + 12 + prop_pad fdt off)"
    using ok by (auto simp: prop_data_def blob_simps u len prop_pad_def)
  then show ?thesis
    by (rule returns_weaken) (use offset_of_prop [OF ok o] in \<open>simp add: value_result_def\<close>)
qed

theorem getprop_returns:
  assumes "fdt_ok fdt" "is_int off"
  shows "returns (fdt_getprop_namelen fdt off name) (value_result fdt)"
  unfolding fdt_getprop_namelen_def
proof (rule returns_bind [OF get_property_namelen_returns [OF assms]], intro returns_prod returns_option)
  fix r p a b len poff assume r: "named_prop fdt r" "r = (p, a)" "a = (len, poff)"
  { assume "p = None"
    then show "returns (Some (None, len)) (value_result fdt)"
      using r by (simp add: named_prop_def value_result_def) }
  fix q assume "p = Some q"
  then have f: "prop_found fdt poff (Some q) len" using r by (simp add: named_prop_def)
  then obtain nxt where o: "offset_of FDT_PROP fdt poff nxt" by (auto simp: prop_found_def)
  show "returns (do { d \<leftarrow> prop_data fdt q poff; Some (Some d, len) }) (value_result fdt)"
    using returnsD [OF prop_data_returns [OF assms(1) o]] f by (auto simp: prop_found_def)
qed

lemma getprop_by_offset_returns:
  assumes "fdt_ok fdt" "is_int off"
  shows "returns (fdt_getprop_by_offset fdt off) (\<lambda>(p, nm, len). value_result fdt (p, len)
     \<and> (\<forall>q. p = Some q \<longrightarrow> (\<exists>x l. nm = Some x \<and> terminated fdt x l)))"
  unfolding fdt_getprop_by_offset_def
proof (rule returns_bind [OF property_by_offset_returns [OF assms]], intro returns_prod returns_option)
  fix r p len assume r: "case r of (p, len) \<Rightarrow> prop_found fdt off p len" "r = (p, len)"
  { assume "p = None"
    then show "returns (Some (None, None, len)) (\<lambda>(p, nm, len). value_result fdt (p, len)
       \<and> (\<forall>q. p = Some q \<longrightarrow> (\<exists>x l. nm = Some x \<and> terminated fdt x l)))"
      using r by (simp add: prop_found_def value_result_def) }
  fix q assume "p = Some q"
  then have f: "prop_found fdt off (Some q) len" using r by simp
  then obtain nxt where o: "offset_of FDT_PROP fdt off nxt" by (auto simp: prop_found_def)
  have nameoff: "fdt32_ld fdt (q + 8) = Some (hdr fdt (hdr fdt 8 + off + 8))"
    using ld32_inside [OF prop_word [OF assms(1) o, of 8]] f by (simp add: prop_found_def)
  obtain x l where str: "fdt_get_string fdt (s32 (hdr fdt (hdr fdt 8 + off + 8))) = Some (x, l)" "string_result fdt x l"
    using get_string_returns [OF assms(1) is_int_s32] by (fastforce simp: returns_def)
  show "returns (do { nameoff \<leftarrow> fdt32_ld fdt (q + 8);
      (name, namelen) \<leftarrow> fdt_get_string fdt (s32 nameoff);
      case name of None \<Rightarrow> Some (None, None, namelen)
      | Some nm \<Rightarrow> do { d \<leftarrow> prop_data fdt q off; Some (Some d, Some nm, len) } })
    (\<lambda>(p, nm, len). value_result fdt (p, len) \<and> (\<forall>q. p = Some q \<longrightarrow> (\<exists>x l. nm = Some x \<and> terminated fdt x l)))"
    using returnsD [OF prop_data_returns [OF assms(1) o]] f str nameoff
    by (cases x) (auto simp: prop_found_def string_result_def value_result_def)
qed

lemma get_phandle_returns:
  assumes "fdt_ok fdt" "is_int off"
  shows "returns (fdt_get_phandle fdt off) (\<lambda>v. 0 \<le> v)"
proof -
  have ld: "returns (fdt32_ld fdt q) (\<lambda>v. 0 \<le> v)" if "value_result fdt (Some q, 4)" for q
    by (rule returns_weaken [OF ld32_returns [OF value_inside [OF assms(1) that]]]) (simp add: hdr_range)
  show ?thesis
    unfolding fdt_get_phandle_def fdt_getprop_def
    by (rule returns_bind [OF getprop_returns [OF assms]], rule returns_prod, rule returns_if,
        use ld in force, rule returns_bind [OF getprop_returns [OF assms]], rule returns_prod,
        rule returns_if, use ld in force) simp
qed

section \<open>Searches through all nodes\<close>

lemma next_node_depth:
  assumes "fdt_ok fdt" "at_tag fdt off"
  shows "returns (fdt_next_node fdt off (Some depth)) (\<lambda>(r, d). (r < 0 \<or> off + 4 \<le> r \<and> at_tag fdt r) \<and> d \<noteq> None)"
proof -
  have "0 \<le> off" using assms(2) by (simp add: at_tag_def)
  then show ?thesis
    by (intro returns_weaken [OF next_node_returns [OF assms(1) at_tag_int [OF fdt_okD(1) [OF assms(1)] assms(2)]]])
      (auto simp: node_result_def)
qed

text \<open>Enough fuel for a loop over increasing offsets.\<close>

definition fuel_for :: "blob \<Rightarrow> int \<Rightarrow> nat \<Rightarrow> bool" where
  "fuel_for fdt off n \<longleftrightarrow> 0 < n \<and> (off < 0 \<or> struct_end fdt + 8 - off < 4 * int n)"

lemma fuel_for_blob: "fdt_ok fdt \<Longrightarrow> fuel_for fdt off (blob_fuel fdt)"
  using struct_end_le [of fdt] blob_okD [OF fdt_okD(1), of fdt] by (cases "off < 0") (auto simp: fuel_for_def blob_fuel_def)

lemma fuel_for_step:
  assumes "fuel_for fdt off (Suc n)" "at_tag fdt off" "r < 0 \<or> off + 4 \<le> r \<and> at_tag fdt r"
  shows "fuel_for fdt r n"
  using assms by (auto simp: fuel_for_def at_tag_def)

lemma node_below_end: "is_node fdt off \<Longrightarrow> fdt_ok fdt \<Longrightarrow> off + 4 \<le> struct_end fdt \<and> 0 \<le> off \<and> at_tag fdt off"
  using is_node_offset [of fdt off] by (auto simp: offset_of_def tag_read_def at_tag_def)

text \<open>
  The three searches from node to node share a contract: a test that returns on every node and a
  loop that stops where it says so, or at the end of the walk.
\<close>

locale node_search =
  fixes test :: "blob \<Rightarrow> int \<Rightarrow> int option option"
    and loop :: "nat \<Rightarrow> blob \<Rightarrow> int \<Rightarrow> int option"
    and good :: "blob \<Rightarrow> bool"
  assumes good_ok: "good fdt \<Longrightarrow> fdt_ok fdt"
    and loop_ends: "off < 0 \<Longrightarrow> loop (Suc n) fdt off = Some off"
    and loop_steps: "0 \<le> off \<Longrightarrow> loop (Suc n) fdt off = do {
        t \<leftarrow> test fdt off;
        case t of
          Some r \<Rightarrow> Some r
        | None \<Rightarrow> do { (nxt, _) \<leftarrow> fdt_next_node fdt off None; loop n fdt nxt } }"
    and test_returns: "good fdt \<Longrightarrow> is_node fdt off \<Longrightarrow>
        returns (test fdt off) (\<lambda>t. \<forall>r. t = Some r \<longrightarrow> r = off \<or> r < 0)"
begin

lemma loop_returns:
  assumes good: "good fdt"
  shows "off < 0 \<or> is_node fdt off \<Longrightarrow> fuel_for fdt off n \<Longrightarrow>
    returns (loop n fdt off) (\<lambda>r. r < 0 \<or> is_node fdt r \<and> test fdt r = Some (Some r))"
proof (induction n arbitrary: off)
  case 0
  then show ?case by (simp add: fuel_for_def)
next
  case (Suc n)
  note ok = good_ok [OF good]
  show ?case
  proof (cases "off < 0")
    case True
    then show ?thesis by (simp add: loop_ends)
  next
    case False
    then have node: "is_node fdt off" using Suc.prems(1) by simp
    note b = node_below_end [OF node ok]
    have i: "is_int off" using at_tag_int [OF fdt_okD(1) [OF ok]] b by blast
    obtain t where t: "test fdt off = Some t" "\<forall>r. t = Some r \<longrightarrow> r = off \<or> r < 0"
      using test_returns [OF good node] by (auto simp: returns_def)
    show ?thesis
    proof (cases t)
      case (Some r)
      then show ?thesis using t node False by (auto simp: loop_steps)
    next
      case None
      have "returns (do { (nxt, _) \<leftarrow> fdt_next_node fdt off None; loop n fdt nxt })
          (\<lambda>r. r < 0 \<or> is_node fdt r \<and> test fdt r = Some (Some r))"
      proof (rule returns_bind [OF next_node_none [OF ok i]], rule returns_prod)
        fix x r d assume "case x of (r, d) \<Rightarrow> r < 0 \<or> is_node fdt r \<and> (if 0 \<le> off then off + 4 else 0) \<le> r"
          "x = (r, d)"
        then have r: "r < 0 \<or> is_node fdt r \<and> off + 4 \<le> r" using b by auto
        then have "fuel_for fdt r n"
          using fuel_for_step [OF Suc.prems(2), of r] b node_below_end [OF _ ok, of r] by auto
        then show "returns (loop n fdt r) (\<lambda>r. r < 0 \<or> is_node fdt r \<and> test fdt r = Some (Some r))"
          using r by (intro Suc.IH) auto
      qed
      then show ?thesis using t None False by (simp add: loop_steps)
    qed
  qed
qed

lemma search_returns:
  assumes good: "good fdt" and off: "is_int off"
  shows "returns (do {
      err \<leftarrow> fdt_ro_probe' fdt;
      if err \<noteq> 0 then Some err
      else do { (offset, _) \<leftarrow> fdt_next_node fdt off None; loop (blob_fuel fdt) fdt offset } })
    (\<lambda>r. r < 0 \<or> is_node fdt r \<and> test fdt r = Some (Some r))"
proof (rule returns_bind [OF ro_probe_returns [OF good_ok [OF good]]], rule returns_if, simp,
    rule returns_bind [OF next_node_none [OF good_ok [OF good] off]], rule returns_prod)
  fix x r d assume "case x of (r, d) \<Rightarrow> r < 0 \<or> is_node fdt r \<and> (if 0 \<le> off then off + 4 else 0) \<le> r"
    "x = (r, d)"
  then show "returns (loop (blob_fuel fdt) fdt r) (\<lambda>r. r < 0 \<or> is_node fdt r \<and> test fdt r = Some (Some r))"
    by (intro loop_returns [OF good] fuel_for_blob [OF good_ok [OF good]]) auto
qed

end

definition has_prop_value :: "8 word list \<Rightarrow> 8 word list \<Rightarrow> blob \<Rightarrow> int \<Rightarrow> int option option" where
  "has_prop_value propname propval fdt off = do {
     (val, len) \<leftarrow> fdt_getprop fdt off propname;
     eq \<leftarrow> (if val \<noteq> None \<and> len = int (length propval) then mem_eq fdt (the val) propval else Some False);
     Some (if eq then Some off else None) }"

definition has_phandle :: "int \<Rightarrow> blob \<Rightarrow> int \<Rightarrow> int option option" where
  "has_phandle phandle fdt off = do {
     ph \<leftarrow> fdt_get_phandle fdt off;
     Some (if ph = phandle then Some off else None) }"

lemma node_int: "fdt_ok fdt \<Longrightarrow> is_node fdt off \<Longrightarrow> is_int off"
  using at_tag_int [OF fdt_okD(1)] by (simp add: is_node_def)

lemma has_prop_value_returns:
  assumes "fdt_ok fdt" "is_node fdt off"
  shows "returns (has_prop_value nm v fdt off) (\<lambda>t. \<forall>r. t = Some r \<longrightarrow> r = off \<or> r < 0)"
proof -
  have eq: "returns (mem_eq fdt q v) (\<lambda>b. True)" if "value_result fdt (Some q, int (length v))" for q
    by (rule returns_weaken [OF mem_eq_returns [OF value_inside [OF assms(1) that]]]) simp
  show ?thesis
    unfolding has_prop_value_def fdt_getprop_def
    by (rule returns_bind [OF getprop_returns [OF assms(1) node_int [OF assms]]], rule returns_prod,
        rule returns_bind [of _ "\<lambda>_. True"], rule returns_if)
      (use eq in auto)
qed

lemma has_phandle_returns:
  assumes "fdt_ok fdt" "is_node fdt off"
  shows "returns (has_phandle ph fdt off) (\<lambda>t. \<forall>r. t = Some r \<longrightarrow> r = off \<or> r < 0)"
  unfolding has_phandle_def
  by (rule returns_bind [OF get_phandle_returns [OF assms(1) node_int [OF assms]]]) simp

interpretation by_value: node_search "has_prop_value nm v" "\<lambda>n fdt off. by_prop_value_n n fdt off nm v" fdt_ok for nm v
proof unfold_locales
  show "by_prop_value_n (Suc n) fdt off nm v = do {
        t \<leftarrow> has_prop_value nm v fdt off;
        case t of Some r \<Rightarrow> Some r
        | None \<Rightarrow> do { (nxt, _) \<leftarrow> fdt_next_node fdt off None; by_prop_value_n n fdt nxt nm v } }"
    if "0 \<le> off" for off n fdt
    using that by (auto simp: has_prop_value_def split_def intro!: Option.bind_cong)
qed (simp_all add: has_prop_value_returns)

interpretation by_phandle: node_search "has_phandle ph" "\<lambda>n fdt off. by_phandle_n n fdt off ph" fdt_ok for ph
proof unfold_locales
  show "by_phandle_n (Suc n) fdt off ph = do {
        t \<leftarrow> has_phandle ph fdt off;
        case t of Some r \<Rightarrow> Some r
        | None \<Rightarrow> do { (nxt, _) \<leftarrow> fdt_next_node fdt off None; by_phandle_n n fdt nxt ph } }"
    if "0 \<le> off" for off n fdt
    using that by (auto simp: has_phandle_def intro!: Option.bind_cong)
qed (simp_all add: has_phandle_returns)

section \<open>String lists\<close>

text \<open>
  \<open>fdt_stringlist_contains\<close> compares one byte more than is left of the list, so it is safe where
  a byte follows the list in the buffer.
\<close>

lemma stringlist_contains_returns:
  "0 \<le> p \<Longrightarrow> p + n < int (length fdt) \<Longrightarrow>
    returns (fdt_stringlist_contains fdt p n s) (\<lambda>r. r = 0 \<or> r = 1)"
proof (induction fdt p n s rule: fdt_stringlist_contains.induct)
  case (1 fdt p n s)
  show ?case
  proof (cases "n \<ge> int (length s)")
    case False
    then show ?thesis by (simp add: fdt_stringlist_contains.simps [of fdt p n s])
  next
    case True
    then have i: "inside fdt p (int (length (s @ [0])))" using 1(2,3) by (simp add: inside_def)
    obtain e where e: "mem_eq fdt p (s @ [0]) = Some e"
      using mem_eq_returns [OF i] by (auto simp: returns_def)
    obtain r where r: "mem_chr fdt p 0 n = Some r" "chr_found fdt p 0 n r"
      using mem_chr_returns [of p n fdt 0] 1(2,3) by (auto simp: returns_def)
    show ?thesis
    proof (cases "e \<or> r = None")
      case True
      then show ?thesis using e r by (auto simp: fdt_stringlist_contains.simps [of fdt p n s])
    next
      case False
      then obtain q where q: "r = Some q" "p \<le> q" "q < p + n" using r(2) by (auto simp: chr_found_def)
      have "returns (fdt_stringlist_contains fdt (q + 1) (n - ((q - p) + 1)) s) (\<lambda>r. r = 0 \<or> r = 1)"
        using 1(1) [OF True e _ r(1) q(1)] False 1(2,3) q by simp
      then show ?thesis using e r(1) q(1) True False by (simp add: fdt_stringlist_contains.simps [of fdt p n s])
    qed
  qed
qed

text \<open>A blob in which a byte follows the structure block, as the strings do in every layout the
  library writes.\<close>

definition roomy :: "blob \<Rightarrow> bool" where
  "roomy fdt \<longleftrightarrow> fdt_ok fdt \<and> hdr fdt 8 + struct_end fdt < int (length fdt)"

lemma check_compatible_returns:
  assumes ok: "roomy fdt" and off: "is_int off"
  shows "returns (fdt_node_check_compatible fdt off compatible) (\<lambda>r. r \<le> 1)"
proof -
  have fo: "fdt_ok fdt" using ok by (simp add: roomy_def)
  have c: "returns (fdt_stringlist_contains fdt q len compatible) (\<lambda>r. r = 0 \<or> r = 1)"
    if "value_result fdt (Some q, len)" for q len
    using that ok hdr_range(1) [of fdt 8] by (intro stringlist_contains_returns) (auto simp: value_result_def roomy_def)
  show ?thesis
    unfolding fdt_node_check_compatible_def fdt_getprop_def
    by (rule returns_bind [OF getprop_returns [OF fo off]], rule returns_prod, rule returns_option,
        force simp: value_result_def, rule returns_bind [OF c])
      auto
qed

definition is_compatible :: "8 word list \<Rightarrow> blob \<Rightarrow> int \<Rightarrow> int option option" where
  "is_compatible compatible fdt off = do {
     err \<leftarrow> fdt_node_check_compatible fdt off compatible;
     Some (if err < 0 \<and> err \<noteq> - FDT_ERR_NOTFOUND then Some err else if err = 0 then Some off else None) }"

lemma is_compatible_returns:
  assumes "roomy fdt" "is_node fdt off"
  shows "returns (is_compatible c fdt off) (\<lambda>t. \<forall>r. t = Some r \<longrightarrow> r = off \<or> r < 0)"
proof -
  have "is_int off" using assms node_int [of fdt off] by (simp add: roomy_def)
  then show ?thesis
    unfolding is_compatible_def by (rule returns_bind [OF check_compatible_returns [OF assms(1)]]) auto
qed

interpretation by_compatible: node_search "is_compatible c" "\<lambda>n fdt off. by_compatible_n n fdt off c" roomy for c
proof unfold_locales
  show "by_compatible_n (Suc n) fdt off c = do {
        t \<leftarrow> is_compatible c fdt off;
        case t of Some r \<Rightarrow> Some r
        | None \<Rightarrow> do { (nxt, _) \<leftarrow> fdt_next_node fdt off None; by_compatible_n n fdt nxt c } }"
    if "0 \<le> off" for off n fdt
    using that by (auto simp: is_compatible_def intro!: Option.bind_cong)
qed (simp_all add: is_compatible_returns roomy_def)

lemma str_nlen_returns:
  "0 \<le> p \<Longrightarrow> p + n \<le> int (length fdt) \<Longrightarrow> 0 \<le> n \<Longrightarrow> returns (str_nlen fdt p n) (\<lambda>l. 0 \<le> l \<and> l \<le> n)"
  unfolding str_nlen_def
  by (rule returns_bind [OF mem_chr_returns]) (auto simp: chr_found_def split: option.splits)

lemma list_step:
  assumes "0 \<le> l" "l \<le> stop - p" "stop - p < INT_MAX"
  shows "s32 (l + 1) = l + 1"
  using assms by (intro s32_id) (auto simp: is_int_def)

text \<open>The three loops over the strings of a list that lies in the buffer.\<close>

definition list_region :: "blob \<Rightarrow> int \<Rightarrow> int \<Rightarrow> nat \<Rightarrow> bool" where
  "list_region fdt p stop n \<longleftrightarrow> 0 \<le> p \<and> stop \<le> int (length fdt) \<and> stop - p < INT_MAX \<and> 0 < n
     \<and> stop - p < int n"

lemma list_region_step:
  assumes "list_region fdt p stop (Suc n)" "p < stop" "0 \<le> l" "\<not> p + (l + 1) > stop"
  shows "list_region fdt (p + (l + 1)) stop n"
  using assms by (auto simp: list_region_def)

lemma list_region_nlen:
  assumes "list_region fdt p stop n" "p < stop"
  shows "returns (str_nlen fdt p (stop - p)) (\<lambda>l. 0 \<le> l \<and> s32 (l + 1) = l + 1)"
  using assms list_step [of _ stop p]
  by (intro returns_weaken [OF str_nlen_returns]) (auto simp: list_region_def)

lemma count_n_returns: "list_region fdt p stop n \<Longrightarrow> returns (count_n n fdt p stop c) (\<lambda>r. True)"
proof (induction n arbitrary: p c)
  case (Suc n)
  show ?case
    unfolding count_n.simps
    by (rule returns_if, rule returns_bind [OF list_region_nlen [OF Suc.prems]], simp)
      (use Suc list_region_step [OF Suc.prems] in \<open>auto simp: Let_def\<close>)
qed (simp add: list_region_def)

lemma search_n_returns: "list_region fdt p stop n \<Longrightarrow> returns (search_n n fdt p stop s c) (\<lambda>r. True)"
proof (induction n arbitrary: p c)
  case (Suc n)
  have eq: "returns (mem_eq fdt p (s @ [0])) (\<lambda>e. True)"
    if "l = int (length s)" "\<not> p + (l + 1) > stop" for l
    using Suc.prems that by (intro returns_weaken [OF mem_eq_returns]) (auto simp: inside_def list_region_def)
  show ?case
    unfolding search_n.simps
    by (rule returns_if, rule returns_bind [OF list_region_nlen [OF Suc.prems]], simp, rule returns_Let,
        rule returns_if, simp, rule returns_bind [of _ "\<lambda>_. True"], rule returns_if)
      (use Suc eq list_region_step [OF Suc.prems] in \<open>auto simp: Let_def\<close>)
qed (simp add: list_region_def)

lemma get_n_returns: "list_region fdt p stop n \<Longrightarrow>
  returns (get_n n fdt p stop i) (\<lambda>(q, l). \<forall>x. q = Some x \<longrightarrow> p \<le> x \<and> 0 \<le> l \<and> x + l + 1 \<le> stop)"
proof (induction n arbitrary: p i)
  case (Suc n)
  have later: "returns (get_n n fdt (p + (l + 1)) stop j)
      (\<lambda>(q, l). \<forall>x. q = Some x \<longrightarrow> p \<le> x \<and> 0 \<le> l \<and> x + l + 1 \<le> stop)"
    if "p < stop" "0 \<le> l" "\<not> p + (l + 1) > stop" for l j
    by (rule returns_weaken [OF Suc.IH [OF list_region_step [OF Suc.prems that]]]) (use that in auto)
  show ?case
    unfolding get_n.simps
    by (rule returns_if, rule returns_bind [OF list_region_nlen [OF Suc.prems]], simp, rule returns_Let,
        rule returns_if, simp, rule returns_if)
      (use later in \<open>auto simp: Let_def\<close>)
qed (simp add: list_region_def)

lemma value_list_region:
  assumes "fdt_ok fdt" "value_result fdt (Some p, len)"
  shows "list_region fdt p (p + len) (blob_fuel fdt)"
  using value_inside [OF assms] struct_end_int [OF fdt_okD(1) [OF assms(1)]] assms(2)
  by (auto simp: list_region_def inside_def value_result_def blob_fuel_def)

lemma stringlists_return:
  assumes "fdt_ok fdt" "is_int off"
  shows "returns (fdt_stringlist_count fdt off nm) (\<lambda>r. True)"
    "returns (fdt_stringlist_search fdt off nm s) (\<lambda>r. True)"
    "returns (fdt_stringlist_get fdt off nm i) (\<lambda>(q, l). \<forall>x. q = Some x \<longrightarrow> inside fdt x (l + 1))"
proof -
  note start = returns_bind [OF getprop_returns [OF assms, of nm]]
  note r = value_list_region [OF assms(1)]
  show "returns (fdt_stringlist_count fdt off nm) (\<lambda>r. True)"
    unfolding fdt_stringlist_count_def fdt_getprop_def
    by (rule start, rule returns_prod, rule returns_option, simp, rule count_n_returns, rule r) simp
  show "returns (fdt_stringlist_search fdt off nm s) (\<lambda>r. True)"
    unfolding fdt_stringlist_search_def fdt_getprop_def
    by (rule start, rule returns_prod, rule returns_option, simp, rule search_n_returns, rule r) simp
  have "returns (get_n (blob_fuel fdt) fdt p (p + len) i) (\<lambda>(q, l). \<forall>x. q = Some x \<longrightarrow> inside fdt x (l + 1))"
    if "value_result fdt (Some p, len)" for p len
    by (rule returns_weaken [OF get_n_returns [OF r [OF that]]])
      (use r [OF that] in \<open>auto simp: inside_def list_region_def\<close>)
  then show "returns (fdt_stringlist_get fdt off nm i) (\<lambda>(q, l). \<forall>x. q = Some x \<longrightarrow> inside fdt x (l + 1))"
    unfolding fdt_stringlist_get_def fdt_getprop_def
    by (intro start returns_prod returns_option) auto
qed

end
