(* ===== verification/Fdt_Paths.thy ===== *)
theory Fdt_Paths
  imports Fdt_Search
begin

text \<open>
  The walks that follow the depth of the nodes: subnodes, paths, parents, and the full check, which
  is shown to accept exactly the blobs whose tags are nested as an inductive definition says.
\<close>

section \<open>Subnodes and paths\<close>

lemma subnode_n_returns:
  assumes ok: "fdt_ok fdt"
  shows "off < 0 \<or> at_tag fdt off \<Longrightarrow> fuel_for fdt off n \<Longrightarrow>
    returns (subnode_n n fdt off depth s) (\<lambda>r. r < 0 \<or> is_node fdt r)"
proof (induction n arbitrary: off depth)
  case 0
  then show ?case by (simp add: fuel_for_def)
next
  case (Suc n)
  show ?case
  proof (cases "0 \<le> off \<and> 0 \<le> depth")
    case False
    then show ?thesis by auto
  next
    case True
    then have o: "0 \<le> off" "0 \<le> depth" by simp_all
    then have at: "at_tag fdt off" using Suc.prems(1) by auto
    have i: "is_int off" using at_tag_int [OF fdt_okD(1) [OF ok] at] .
    have eq: "returns (if depth = 1 then fdt_nodename_eq' fdt off s else Some False)
        (\<lambda>b. b \<longrightarrow> is_node fdt off)"
      using nodename_eq_returns [OF ok i] by simp
    have go: "returns (do { (offset, d) \<leftarrow> fdt_next_node fdt off (Some depth); subnode_n n fdt offset (the d) s })
        (\<lambda>r. r < 0 \<or> is_node fdt r)"
    proof (rule returns_bind [OF next_node_depth [OF ok at]], rule returns_prod)
      fix x r and d :: "int option" assume "case x of (r, d) \<Rightarrow> (r < 0 \<or> off + 4 \<le> r \<and> at_tag fdt r) \<and> d \<noteq> None" "x = (r, d)"
      then have r: "r < 0 \<or> off + 4 \<le> r \<and> at_tag fdt r" by simp
      then have "fuel_for fdt r n" using Suc.prems(2) o at by (auto simp: fuel_for_def at_tag_def)
      then show "returns (subnode_n n fdt r (the d) s) (\<lambda>r. r < 0 \<or> is_node fdt r)"
        using r by (intro Suc.IH) auto
    qed
    show ?thesis
      unfolding subnode_n.simps
      by (rule returns_if, rule returns_bind [OF eq], rule returns_if) (use True go in auto)
  qed
qed

theorem subnode_returns:
  assumes ok: "fdt_ok fdt" and off: "off < 0 \<or> at_tag fdt off"
  shows "returns (fdt_subnode_offset_namelen fdt off s) (\<lambda>r. r < 0 \<or> is_node fdt r)"
  unfolding fdt_subnode_offset_namelen_def
  by (rule returns_bind [OF ro_probe_returns [OF ok]], rule returns_if, simp,
      rule subnode_n_returns [OF ok off fuel_for_blob [OF ok]])

lemma walk_path_returns:
  assumes ok: "fdt_ok fdt"
  shows "off < 0 \<or> at_tag fdt off \<Longrightarrow> returns (walk_path fdt off p) (\<lambda>r. r < 0 \<or> at_tag fdt r)"
  using ok
proof (induction fdt off p rule: walk_path.induct)
  case (1 fdt off p)
  let ?q = "dropWhile (\<lambda>c. c = slash) p"
  show ?case
  proof (cases "?q = []")
    case True
    then show ?thesis using 1(2) by (simp add: walk_path.simps [of fdt off p])
  next
    case False
    obtain r where sub: "fdt_subnode_offset_namelen fdt off (takeWhile (\<lambda>c. c \<noteq> slash) ?q) = Some r"
      and r: "r < 0 \<or> is_node fdt r"
      using subnode_returns [OF 1(3,2)] by (auto simp: returns_def)
    have "returns (walk_path fdt r (dropWhile (\<lambda>c. c \<noteq> slash) ?q)) (\<lambda>r. r < 0 \<or> at_tag fdt r)"
      if "\<not> r < 0"
      using 1(1) [OF False refl sub that _ 1(3)] r by (auto simp: is_node_def)
    then show ?thesis using False sub 1(2) by (auto simp add: walk_path.simps [of fdt off p] Let_def)
  qed
qed

lemma at_tag_0: "blob_ok fdt \<Longrightarrow> at_tag fdt 0"
  using blob_okD [of fdt] hdr_range(1) [of fdt 36] by (auto simp: at_tag_def struct_end_def)

text \<open>A path from the root needs no alias.\<close>

lemma absolute_path_n:
  assumes ok: "fdt_ok fdt" and p: "p \<noteq> []" "hd p = slash"
  shows "returns (path_offset_n (Suc n) fdt p) (\<lambda>r. r < 0 \<or> at_tag fdt r)"
  unfolding path_offset_n.simps
  by (rule returns_bind [OF ro_probe_returns [OF ok]])
    (use p walk_path_returns [OF ok] at_tag_0 [OF fdt_okD(1) [OF ok]] in auto)

lemma aliases_path: "chars ''/aliases'' \<noteq> []" "hd (chars ''/aliases'') = slash"
  by (simp_all add: chars_def slash_def)

lemma get_alias_n_returns:
  assumes ok: "fdt_ok fdt"
  shows "returns (get_alias_n (Suc (Suc n)) fdt name) (\<lambda>r. \<forall>q. r = Some q \<longrightarrow> 28 \<le> q \<and> q \<le> int (length fdt))"
  unfolding get_alias_n.simps
proof (rule returns_bind [OF absolute_path_n [OF ok aliases_path]], rule returns_if, simp)
  fix r assume r: "r < 0 \<or> at_tag fdt r" "\<not> r < 0"
  then have i: "is_int r" using at_tag_int [OF fdt_okD(1) [OF ok]] by auto
  have "28 \<le> q \<and> q \<le> int (length fdt)" if "value_result fdt (Some q, len)" for q len
    using value_inside [OF ok that] that blob_okD [OF fdt_okD(1) [OF ok]]
    by (auto simp: inside_def value_result_def)
  then show "returns (do { (p, len) \<leftarrow> fdt_getprop_namelen fdt r name; Some p })
      (\<lambda>r. \<forall>q. r = Some q \<longrightarrow> 28 \<le> q \<and> q \<le> int (length fdt))"
    by (intro returns_bind [OF getprop_returns [OF ok i]] returns_prod) auto
qed

lemma absolute_path_fuel:
  "p \<noteq> [] \<Longrightarrow> hd p = slash \<Longrightarrow> path_offset_n (Suc n) fdt p = path_offset_n (Suc m) fdt p"
  by simp

lemma get_alias_fuel: "get_alias_n (Suc (Suc n)) fdt name = get_alias_n (Suc (Suc m)) fdt name"
  by (simp only: get_alias_n.simps absolute_path_fuel [OF aliases_path, of n fdt m])

text \<open>
  An alias whose value starts with the alias itself sends \<open>fdt_path_offset\<close> into a recursion that
  does not end.
\<close>

lemma alias_loops_n:
  assumes a: "fdt_get_alias fdt name = Some (Some p)" and c: "c_string_at fdt p = Some v"
    and v: "v = [] \<or> hd v \<noteq> slash" "takeWhile (\<lambda>c. c \<noteq> slash) v = name"
    and probe: "fdt_ro_probe' fdt = Some 0"
  shows "path_offset_n n fdt v = None"
proof -
  have alias_n: "get_alias_n n fdt name = None \<or> get_alias_n n fdt name = Some (Some p)" for n
  proof (cases "2 \<le> n")
    case True
    then obtain k where "n = Suc (Suc k)" using le_Suc_ex [of 2 n] by auto
    moreover have "get_alias_n (Suc (Suc k)) fdt name = Some (Some p)"
      using a get_alias_fuel [of k fdt name "length fdt"]
      unfolding fdt_get_alias_def fdt_get_alias_namelen_def blob_fuel_def add_2_eq_Suc' by (simp only:)
    ultimately show ?thesis by simp
  next
    case False
    then have "n = 0 \<or> n = 1" by linarith
    then show ?thesis by auto
  qed
  show ?thesis
  proof (induction n)
    case (Suc n)
    then show ?case using v alias_n [of n] c probe by auto
  qed simp
qed

section \<open>Parents\<close>

lemma walk_error_negative: "walk_error r < 0 \<longleftrightarrow> True"
  by (simp add: walk_error_def)

lemma supernode_n_returns:
  assumes ok: "fdt_ok fdt"
  shows "off < 0 \<or> at_tag fdt off \<Longrightarrow> fuel_for fdt off n \<Longrightarrow>
    super < 0 \<or> at_tag fdt super \<and> super \<le> node \<Longrightarrow>
    returns (supernode_n n fdt node sd off depth super)
      (\<lambda>(r, d). (r < 0 \<or> at_tag fdt r \<and> r \<le> node) \<and> (d = None \<longrightarrow> r < 0))"
proof (induction n arbitrary: off depth super)
  case 0
  then show ?case by (simp add: fuel_for_def)
next
  case (Suc n)
  show ?case
  proof (cases "0 \<le> off \<and> off \<le> node")
    case False
    then show ?thesis by (auto simp: walk_error_negative)
  next
    case True
    then have at: "at_tag fdt off" using Suc.prems(1) by auto
    let ?s = "if depth = sd then off else super"
    have s: "?s < 0 \<or> at_tag fdt ?s \<and> ?s \<le> node" using Suc.prems(3) at True by auto
    have "returns (do { (offset, d) \<leftarrow> fdt_next_node fdt off (Some depth);
        supernode_n n fdt node sd offset (the d) ?s })
      (\<lambda>(r, d). (r < 0 \<or> at_tag fdt r \<and> r \<le> node) \<and> (d = None \<longrightarrow> r < 0))"
    proof (rule returns_bind [OF next_node_depth [OF ok at]], rule returns_prod)
      fix x r and d :: "int option" assume "case x of (r, d) \<Rightarrow> (r < 0 \<or> off + 4 \<le> r \<and> at_tag fdt r) \<and> d \<noteq> None" "x = (r, d)"
      then have r: "r < 0 \<or> off + 4 \<le> r \<and> at_tag fdt r" by simp
      then have "fuel_for fdt r n" using fuel_for_step [OF Suc.prems(2) at] by simp
      then show "returns (supernode_n n fdt node sd r (the d) ?s)
          (\<lambda>(r, d). (r < 0 \<or> at_tag fdt r \<and> r \<le> node) \<and> (d = None \<longrightarrow> r < 0))"
        using r s by (intro Suc.IH) auto
    qed
    then show ?thesis unfolding supernode_n.simps using True s by (auto simp: Let_def)
  qed
qed

lemma supernode_returns:
  assumes ok: "fdt_ok fdt"
  shows "returns (fdt_supernode_atdepth_offset fdt node sd)
    (\<lambda>(r, d). (r < 0 \<or> at_tag fdt r \<and> r \<le> node) \<and> (d = None \<longrightarrow> r < 0))"
  unfolding fdt_supernode_atdepth_offset_def
  by (rule returns_bind [OF ro_probe_returns [OF ok]], rule returns_if, simp, rule returns_if, simp,
      rule supernode_n_returns [OF ok _ fuel_for_blob [OF ok]])
    (simp_all add: at_tag_0 [OF fdt_okD(1) [OF ok]])

theorem parent_returns:
  assumes ok: "fdt_ok fdt"
  shows "returns (fdt_node_depth fdt node) (\<lambda>r. True)"
    "returns (fdt_parent_offset fdt node) (\<lambda>r. r < 0 \<or> at_tag fdt r \<and> r \<le> node)"
proof -
  show d: "returns (fdt_node_depth fdt node) (\<lambda>r. True)"
    unfolding fdt_node_depth_def
    by (rule returns_bind [OF supernode_returns [OF ok]]) (auto simp: returns_def)
  show "returns (fdt_parent_offset fdt node) (\<lambda>r. r < 0 \<or> at_tag fdt r \<and> r \<le> node)"
    unfolding fdt_parent_offset_def
    by (rule returns_bind [OF d], rule returns_if, simp, rule returns_bind [OF supernode_returns [OF ok]]) auto
qed

lemma cells_returns:
  assumes ok: "fdt_ok fdt" and off: "is_int off"
  shows "returns (fdt_cells fdt off name) (\<lambda>r. r < 0 \<or> 1 \<le> r \<and> r \<le> FDT_MAX_NCELLS)"
proof -
  have ld: "returns (fdt32_ld fdt q) (\<lambda>v. True)" if "value_result fdt (Some q, 4)" for q
    by (rule returns_weaken [OF ld32_returns [OF value_inside [OF ok that]]]) simp
  show ?thesis
    unfolding fdt_cells_def fdt_getprop_def
    by (rule returns_bind [OF getprop_returns [OF assms]], rule returns_prod, rule returns_option,
        simp add: value_result_def, rule returns_if, simp, rule returns_bind [OF ld], simp)
      (auto simp: Let_def)
qed

section \<open>The full check\<close>

text \<open>The tags from an offset on are nested, at a depth, and the value and the name of every
  property are in their blocks.\<close>

inductive nested :: "blob \<Rightarrow> int \<Rightarrow> int \<Rightarrow> bool" for fdt where
  nested_end: "fdt_next_tag fdt off = Some (FDT_END, nxt) \<Longrightarrow> 0 \<le> nxt \<Longrightarrow> nested fdt off 0"
| nested_nop: "fdt_next_tag fdt off = Some (FDT_NOP, nxt) \<Longrightarrow> nested fdt nxt d \<Longrightarrow> nested fdt off d"
| nested_begin: "fdt_next_tag fdt off = Some (FDT_BEGIN_NODE, nxt) \<Longrightarrow> nested fdt nxt (d + 1) \<Longrightarrow>
    nested fdt off d"
| nested_end_node: "fdt_next_tag fdt off = Some (FDT_END_NODE, nxt) \<Longrightarrow> 0 < d \<Longrightarrow> nested fdt nxt (d - 1) \<Longrightarrow>
    nested fdt off d"
| nested_prop: "fdt_next_tag fdt off = Some (FDT_PROP, nxt) \<Longrightarrow>
    fdt_getprop_by_offset fdt off = Some (Some v, nm, len) \<Longrightarrow> nested fdt nxt d \<Longrightarrow> nested fdt off d"

inductive_simps nested_iff: "nested fdt off d"

lemma check_full_n_nested:
  assumes ok: "fdt_ok fdt"
  shows "at_tag fdt off \<Longrightarrow> fuel_for fdt off n \<Longrightarrow> 0 \<le> d \<Longrightarrow> 4 * d \<le> off \<Longrightarrow>
    returns (check_full_n n fdt off d) (\<lambda>r. r \<le> 0 \<and> (r = 0 \<longleftrightarrow> nested fdt off d))"
proof (induction n arbitrary: off d)
  case 0
  then show ?case by (simp add: fuel_for_def)
next
  case (Suc n)
  obtain tag nxt where t: "fdt_next_tag fdt off = Some (tag, nxt)"
    "tag_error tag nxt \<or> tag_read fdt off tag nxt \<and> \<not> wraps fdt off \<and> off + 4 \<le> nxt \<and> at_tag fdt nxt"
    using next_tag_step [OF fdt_okD [OF ok] Suc.prems(1)] by blast
  note nest = nested_iff [of fdt off d] t(1)
  have small: "d + 1 \<le> INT_MAX"
    using Suc.prems(1,4) struct_end_int [OF fdt_okD(1) [OF ok]] by (simp add: at_tag_def)
  show ?case
  proof (cases "tag_error tag nxt")
    case True
    then show ?thesis using nest by (auto simp: tag_error_def)
  next
    case False
    then have r: "tag_read fdt off tag nxt" "off + 4 \<le> nxt" "at_tag fdt nxt" using t(2) by auto
    have nn: "\<not> nxt < 0" using r(3) by (simp add: at_tag_def)
    have fuel: "fuel_for fdt nxt n" using fuel_for_step [OF Suc.prems(2,1)] r by simp
    have go: "returns (check_full_n n fdt nxt k) (\<lambda>r. r \<le> 0 \<and> (r = 0 \<longleftrightarrow> nested fdt nxt k))"
      if "0 \<le> k" "4 * k \<le> nxt" for k
      using Suc.IH [OF r(3) fuel that] .
    consider "tag = FDT_BEGIN_NODE" | "tag = FDT_END_NODE" | "tag = FDT_END" | "tag = FDT_PROP" | "tag = FDT_NOP"
      using r(1) by (auto simp: tag_read_def)
    then show ?thesis
    proof cases
      case 1
      have "u32 (d + 1) = d + 1" using small Suc.prems(3) by (intro u32_id) auto
      then show ?thesis using nest 1 nn go [of "d + 1"] small Suc.prems r(2) by (auto simp: Let_def)
    next
      case 2
      have "u32 (d - 1) = d - 1" if "d \<noteq> 0" using small Suc.prems(3) that by (intro u32_id) auto
      then show ?thesis using nest 2 nn go [of "d - 1"] Suc.prems r(2) by (auto simp: Let_def)
    next
      case 3
      then show ?thesis using nest nn by auto
    next
      case 4
      have i: "is_int off" using at_tag_int [OF fdt_okD(1) [OF ok] Suc.prems(1)] .
      obtain p nm len where g: "fdt_getprop_by_offset fdt off = Some (p, nm, len)" "value_result fdt (p, len)"
        using getprop_by_offset_returns [OF ok i] by (auto simp: returns_def)
      show ?thesis using nest 4 nn go [of d] Suc.prems r(2) g by (cases p) (auto simp: value_result_def)
    next
      case 5
      then show ?thesis using nest nn go [of d] Suc.prems r(2) by auto
    qed
  qed
qed

text \<open>
  A property whose length wraps to its own offset: \<open>fdt_next_tag\<close> returns the offset it was given,
  and no amount of fuel brings a loop past it.
\<close>

lemma next_tag_stalls:
  assumes ok: "blob_ok fdt" and off: "0 \<le> off" "off mod 4 = 0" "off + 8 \<le> struct_end fdt"
    and p: "hdr fdt (hdr fdt 8 + off) = FDT_PROP" "prop_len fdt off = 2 ^ 32 - 12" "16 \<le> hdr fdt 20"
  shows "fdt_next_tag fdt off = Some (FDT_PROP, off)"
proof -
  have z: "prop_size fdt off = 0" using p(2,3) by (simp add: prop_size_def prop_pad_def u32_def)
  have a: "FDT_TAGALIGN off = off" using off(2) by (auto simp: FDT_TAGALIGN_def FDT_ALIGN_def)
  show ?thesis using next_tag_prop [OF ok off(1) _ p(1)] off(3) z a by simp
qed

lemma stalled_loops:
  assumes "fdt_next_tag fdt off = Some (FDT_PROP, off)" "0 \<le> off"
  shows "next_node_n n fdt off depth = None"
    "fdt_getprop_by_offset fdt off = Some (Some v, nm, len) \<Longrightarrow> check_full_n n fdt off d = None"
  using assms by (induction n) simp_all

end
