(* ===== verification/Fdt_Write.thy ===== *)
theory Fdt_Write
  imports Fdt_Read
begin

text \<open>
  The sequential writer of \<open>fdt_sw.c\<close> and \<open>fdt_empty_tree.c\<close>. Every function takes the buffer and
  returns its error code with the buffer after it; \<open>None\<close> is a write or a read outside of the
  buffer. The three states of the writer are in the header: \<open>off_dt_strings\<close> is 0 while the
  reservation map is written, then \<open>totalsize\<close>; \<open>fdt_finish\<close> replaces the magic number.
\<close>

section \<open>Setters\<close>

definition fdt_set_magic :: "blob \<Rightarrow> int \<Rightarrow> blob option" where
  "fdt_set_magic fdt val = wr32 fdt 0 val"

definition fdt_set_totalsize :: "blob \<Rightarrow> int \<Rightarrow> blob option" where
  "fdt_set_totalsize fdt val = wr32 fdt 4 val"

definition fdt_set_off_dt_struct :: "blob \<Rightarrow> int \<Rightarrow> blob option" where
  "fdt_set_off_dt_struct fdt val = wr32 fdt 8 val"

definition fdt_set_off_dt_strings :: "blob \<Rightarrow> int \<Rightarrow> blob option" where
  "fdt_set_off_dt_strings fdt val = wr32 fdt 12 val"

definition fdt_set_off_mem_rsvmap :: "blob \<Rightarrow> int \<Rightarrow> blob option" where
  "fdt_set_off_mem_rsvmap fdt val = wr32 fdt 16 val"

definition fdt_set_version :: "blob \<Rightarrow> int \<Rightarrow> blob option" where
  "fdt_set_version fdt val = wr32 fdt 20 val"

definition fdt_set_last_comp_version :: "blob \<Rightarrow> int \<Rightarrow> blob option" where
  "fdt_set_last_comp_version fdt val = wr32 fdt 24 val"

definition fdt_set_boot_cpuid_phys :: "blob \<Rightarrow> int \<Rightarrow> blob option" where
  "fdt_set_boot_cpuid_phys fdt val = wr32 fdt 28 val"

definition fdt_set_size_dt_strings :: "blob \<Rightarrow> int \<Rightarrow> blob option" where
  "fdt_set_size_dt_strings fdt val = wr32 fdt 32 val"

definition fdt_set_size_dt_struct :: "blob \<Rightarrow> int \<Rightarrow> blob option" where
  "fdt_set_size_dt_struct fdt val = wr32 fdt 36 val"

lemmas setter_defs = fdt_set_magic_def fdt_set_totalsize_def fdt_set_off_dt_struct_def
  fdt_set_off_dt_strings_def fdt_set_off_mem_rsvmap_def fdt_set_version_def
  fdt_set_last_comp_version_def fdt_set_boot_cpuid_phys_def fdt_set_size_dt_strings_def
  fdt_set_size_dt_struct_def

section \<open>The states\<close>

definition fdt_sw_probe' :: "blob \<Rightarrow> int option" where
  "fdt_sw_probe' fdt = do {
     magic \<leftarrow> fdt_magic fdt;
     Some (if magic = FDT_MAGIC then - FDT_ERR_BADSTATE
           else if magic \<noteq> FDT_SW_MAGIC then - FDT_ERR_BADMAGIC else 0) }"

definition fdt_sw_probe_memrsv' :: "blob \<Rightarrow> int option" where
  "fdt_sw_probe_memrsv' fdt = do {
     err \<leftarrow> fdt_sw_probe' fdt;
     if err \<noteq> 0 then Some err
     else do {
       strings \<leftarrow> fdt_off_dt_strings fdt;
       Some (if strings \<noteq> 0 then - FDT_ERR_BADSTATE else 0) } }"

definition fdt_sw_probe_struct' :: "blob \<Rightarrow> int option" where
  "fdt_sw_probe_struct' fdt = do {
     err \<leftarrow> fdt_sw_probe' fdt;
     if err \<noteq> 0 then Some err
     else do {
       strings \<leftarrow> fdt_off_dt_strings fdt;
       total \<leftarrow> fdt_totalsize fdt;
       Some (if strings \<noteq> total then - FDT_ERR_BADSTATE else 0) } }"

text \<open>The macros \<open>FDT_SW_PROBE_MEMRSV\<close> and \<open>FDT_SW_PROBE_STRUCT\<close>: run the rest unless the probe
  fails.\<close>

definition probed :: "(blob \<Rightarrow> int option) \<Rightarrow> blob \<Rightarrow> (int \<times> blob) option \<Rightarrow> (int \<times> blob) option" where
  "probed probe fdt rest = do { err \<leftarrow> probe fdt; if err \<noteq> 0 then Some (err, fdt) else rest }"

text \<open>\<open>fdt_grab_space_\<close>: the new end of the structure block, unless it would meet the strings.\<close>

definition fdt_grab_space' :: "blob \<Rightarrow> int \<Rightarrow> (int option \<times> blob) option" where
  "fdt_grab_space' fdt len = do {
     siz \<leftarrow> fdt_size_dt_struct fdt;
     let offset = s32 siz;
     total \<leftarrow> fdt_totalsize fdt;
     struct \<leftarrow> fdt_off_dt_struct fdt;
     strings \<leftarrow> fdt_size_dt_strings fdt;
     let spaceleft = s32 (total - struct - strings);
     if u64 (offset + len) < u64 offset \<or> u64 (offset + len) > u64 spaceleft then Some (None, fdt)
     else do {
       fdt \<leftarrow> fdt_set_size_dt_struct fdt (u32 (offset + len));
       p \<leftarrow> fdt_offset_ptr' fdt offset;
       Some (Some p, fdt) } }"

section \<open>Creating a tree\<close>

definition fdt_create :: "blob \<Rightarrow> int \<Rightarrow> (int \<times> blob) option" where
  "fdt_create buf bufsize =
     (let hdrsize = FDT_ALIGN 40 16 in
      if u64 bufsize < hdrsize then Some (- FDT_ERR_NOSPACE, buf)
      else do {
        fdt \<leftarrow> wr_bytes buf 0 (replicate (nat bufsize) 0);
        fdt \<leftarrow> fdt_set_magic fdt FDT_SW_MAGIC;
        fdt \<leftarrow> fdt_set_version fdt FDT_LAST_SUPPORTED_VERSION;
        fdt \<leftarrow> fdt_set_last_comp_version fdt FDT_FIRST_SUPPORTED_VERSION;
        fdt \<leftarrow> fdt_set_totalsize fdt bufsize;
        fdt \<leftarrow> fdt_set_off_mem_rsvmap fdt hdrsize;
        rsvmap \<leftarrow> fdt_off_mem_rsvmap fdt;
        fdt \<leftarrow> fdt_set_off_dt_struct fdt rsvmap;
        fdt \<leftarrow> fdt_set_off_dt_strings fdt 0;
        Some (0, fdt) })"

text \<open>
  \<open>fdt_resize\<close> works on two buffers that may overlap: both are in the memory \<open>mem\<close>, at \<open>fdt\<close> and
  \<open>buf\<close>.
\<close>

definition memmove :: "blob \<Rightarrow> int \<Rightarrow> int \<Rightarrow> int \<Rightarrow> blob option" where
  "memmove mem dst src n = do { bs \<leftarrow> rd_bytes mem src n; wr_bytes mem dst bs }"

definition fdt_resize :: "blob \<Rightarrow> int \<Rightarrow> int \<Rightarrow> int \<Rightarrow> (int \<times> blob) option" where
  "fdt_resize mem fdt buf bufsize = do {
     let old = drop (nat fdt) mem;
     err \<leftarrow> fdt_sw_probe' old;
     if err \<noteq> 0 then Some (err, mem)
     else do {
       struct \<leftarrow> fdt_off_dt_struct old;
       siz \<leftarrow> fdt_size_dt_struct old;
       tailsize \<leftarrow> fdt_size_dt_strings old;
       total \<leftarrow> fdt_totalsize old;
       let headsize = u32 (struct + siz);
       if headsize + tailsize > total then Some (- FDT_ERR_INTERNAL, mem)
       else if headsize + tailsize > u64 bufsize then Some (- FDT_ERR_NOSPACE, mem)
       else do {
         let oldtail = fdt + total - tailsize;
         let newtail = buf + bufsize - tailsize;
         mem \<leftarrow> (if buf \<le> fdt then do {
                  mem \<leftarrow> memmove mem buf fdt headsize;
                  memmove mem newtail oldtail tailsize }
                else do {
                  mem \<leftarrow> memmove mem newtail oldtail tailsize;
                  memmove mem buf fdt headsize });
         mem \<leftarrow> wr32 mem (buf + 4) bufsize;
         strings \<leftarrow> fdt_off_dt_strings (drop (nat buf) mem);
         mem \<leftarrow> (if strings \<noteq> 0 then wr32 mem (buf + 12) bufsize else Some mem);
         Some (0, mem) } } }"

definition fdt_add_reservemap_entry :: "blob \<Rightarrow> int \<Rightarrow> int \<Rightarrow> (int \<times> blob) option" where
  "fdt_add_reservemap_entry fdt addr siz =
     probed fdt_sw_probe_memrsv' fdt (do {
       struct \<leftarrow> fdt_off_dt_struct fdt;
       let offset = s32 struct;
       total \<leftarrow> fdt_totalsize fdt;
       if u64 (offset + 16) > total then Some (- FDT_ERR_NOSPACE, fdt)
       else do {
         fdt \<leftarrow> wr_bytes fdt offset (cpu_to_fdt64 addr);
         fdt \<leftarrow> wr_bytes fdt (offset + 8) (cpu_to_fdt64 siz);
         fdt \<leftarrow> fdt_set_off_dt_struct fdt (u32 (offset + 16));
         Some (0, fdt) } })"

definition fdt_finish_reservemap :: "blob \<Rightarrow> (int \<times> blob) option" where
  "fdt_finish_reservemap fdt = do {
     (err, fdt) \<leftarrow> fdt_add_reservemap_entry fdt 0 0;
     if err \<noteq> 0 then Some (err, fdt)
     else do {
       total \<leftarrow> fdt_totalsize fdt;
       fdt \<leftarrow> fdt_set_off_dt_strings fdt total;
       Some (0, fdt) } }"

section \<open>Nodes and properties\<close>

definition fdt_begin_node :: "blob \<Rightarrow> 8 word list \<Rightarrow> (int \<times> blob) option" where
  "fdt_begin_node fdt name =
     probed fdt_sw_probe_struct' fdt (do {
       let namelen = s32 (int (length name) + 1);
       (nh, fdt) \<leftarrow> fdt_grab_space' fdt (u64 (4 + FDT_TAGALIGN namelen));
       case nh of
         None \<Rightarrow> Some (- FDT_ERR_NOSPACE, fdt)
       | Some nh \<Rightarrow> do {
           fdt \<leftarrow> wr32 fdt nh FDT_BEGIN_NODE;
           fdt \<leftarrow> wr_bytes fdt (nh + 4) (name @ [0]);
           Some (0, fdt) } })"

definition fdt_end_node :: "blob \<Rightarrow> (int \<times> blob) option" where
  "fdt_end_node fdt =
     probed fdt_sw_probe_struct' fdt (do {
       (en, fdt) \<leftarrow> fdt_grab_space' fdt FDT_TAGSIZE;
       case en of
         None \<Rightarrow> Some (- FDT_ERR_NOSPACE, fdt)
       | Some en \<Rightarrow> do { fdt \<leftarrow> wr32 fdt en FDT_END_NODE; Some (0, fdt) } })"

text \<open>\<open>fdt_find_add_string_\<close>: the strings grow down from the end of the buffer, so an offset is
  negative; 0 means that there is no room.\<close>

definition fdt_find_add_string_sw :: "blob \<Rightarrow> 8 word list \<Rightarrow> (int \<times> blob) option" where
  "fdt_find_add_string_sw fdt s = do {
     strtab \<leftarrow> fdt_totalsize fdt;
     siz \<leftarrow> fdt_size_dt_strings fdt;
     let strtabsize = s32 siz;
     let len = s32 (int (length s) + 1);
     p \<leftarrow> fdt_find_string' fdt (strtab - strtabsize) strtabsize s;
     case p of
       Some p \<Rightarrow> Some (s32 (p - strtab), fdt)
     | None \<Rightarrow> do {
         let offset = s32 (- strtabsize - len);
         struct \<leftarrow> fdt_off_dt_struct fdt;
         struct_size \<leftarrow> fdt_size_dt_struct fdt;
         let struct_top = s32 (struct + struct_size);
         total \<leftarrow> fdt_totalsize fdt;
         if u32 (total + offset) < u32 struct_top then Some (0, fdt)
         else do {
           fdt \<leftarrow> wr_bytes fdt (strtab + offset) (s @ [0]);
           fdt \<leftarrow> fdt_set_size_dt_strings fdt (u32 (strtabsize + len));
           Some (offset, fdt) } } }"

text \<open>\<open>fdt_property_placeholder\<close> also returns the place of the value.\<close>

definition fdt_property_placeholder :: "blob \<Rightarrow> 8 word list \<Rightarrow> int \<Rightarrow> (int \<times> int \<times> blob) option" where
  "fdt_property_placeholder fdt name len = do {
     err \<leftarrow> fdt_sw_probe_struct' fdt;
     if err \<noteq> 0 then Some (err, 0, fdt)
     else do {
       (nameoff, fdt) \<leftarrow> fdt_find_add_string_sw fdt name;
       if nameoff = 0 then Some (- FDT_ERR_NOSPACE, 0, fdt)
       else do {
         (prop, fdt) \<leftarrow> fdt_grab_space' fdt (u64 (12 + FDT_TAGALIGN len));
         case prop of
           None \<Rightarrow> Some (- FDT_ERR_NOSPACE, 0, fdt)
         | Some prop \<Rightarrow> do {
             fdt \<leftarrow> wr32 fdt prop FDT_PROP;
             fdt \<leftarrow> wr32 fdt (prop + 8) nameoff;
             fdt \<leftarrow> wr32 fdt (prop + 4) len;
             Some (0, prop + 12, fdt) } } } }"

definition fdt_property :: "blob \<Rightarrow> 8 word list \<Rightarrow> 8 word list \<Rightarrow> (int \<times> blob) option" where
  "fdt_property fdt name val = do {
     (ret, p, fdt) \<leftarrow> fdt_property_placeholder fdt name (int (length val));
     if ret \<noteq> 0 then Some (ret, fdt)
     else do { fdt \<leftarrow> wr_bytes fdt p val; Some (0, fdt) } }"

definition fdt_property_u32 :: "blob \<Rightarrow> 8 word list \<Rightarrow> int \<Rightarrow> (int \<times> blob) option" where
  "fdt_property_u32 fdt name val = fdt_property fdt name (cpu_to_fdt32 val)"

definition fdt_property_u64 :: "blob \<Rightarrow> 8 word list \<Rightarrow> int \<Rightarrow> (int \<times> blob) option" where
  "fdt_property_u64 fdt name val = fdt_property fdt name (cpu_to_fdt64 val)"

section \<open>Finishing\<close>

text \<open>The loop that corrects the string offsets: it returns the last \<open>nextoffset\<close>.\<close>

fun finish_n :: "nat \<Rightarrow> blob \<Rightarrow> int \<Rightarrow> (int \<times> blob) option" where
  "finish_n 0 fdt offset = None"
| "finish_n (Suc n) fdt offset = do {
     (tag, nextoffset) \<leftarrow> fdt_next_tag fdt offset;
     if tag = FDT_END then Some (nextoffset, fdt)
     else if tag = FDT_PROP then do {
       prop \<leftarrow> fdt_offset_ptr' fdt offset;
       nameoff \<leftarrow> fdt32_ld fdt (prop + 8);
       siz \<leftarrow> fdt_size_dt_strings fdt;
       fdt \<leftarrow> wr32 fdt (prop + 8) (s32 (s32 nameoff + siz));
       finish_n n fdt nextoffset }
     else finish_n n fdt nextoffset }"

definition fdt_finish :: "blob \<Rightarrow> (int \<times> blob) option" where
  "fdt_finish fdt =
     probed fdt_sw_probe_struct' fdt (do {
       (end_tag, fdt) \<leftarrow> fdt_grab_space' fdt 4;
       case end_tag of
         None \<Rightarrow> Some (- FDT_ERR_NOSPACE, fdt)
       | Some e \<Rightarrow> do {
           fdt \<leftarrow> wr32 fdt e FDT_END;
           total \<leftarrow> fdt_totalsize fdt;
           siz \<leftarrow> fdt_size_dt_strings fdt;
           struct \<leftarrow> fdt_off_dt_struct fdt;
           struct_size \<leftarrow> fdt_size_dt_struct fdt;
           let oldstroffset = s32 (total - siz);
           let newstroffset = s32 (struct + struct_size);
           fdt \<leftarrow> memmove fdt newstroffset oldstroffset siz;
           fdt \<leftarrow> fdt_set_off_dt_strings fdt newstroffset;
           (nextoffset, fdt) \<leftarrow> finish_n (blob_fuel fdt) fdt 0;
           if nextoffset < 0 then Some (nextoffset, fdt)
           else do {
             siz \<leftarrow> fdt_size_dt_strings fdt;
             fdt \<leftarrow> fdt_set_totalsize fdt (u32 (newstroffset + siz));
             fdt \<leftarrow> fdt_set_magic fdt FDT_MAGIC;
             Some (0, fdt) } } })"

end
