(* ===== verification/Fdt_Layout.thy ===== *)
theory Fdt_Layout
  imports Fdt_Write Fdt_Search
begin

text \<open>
  The layout the sequential writer builds, as a concatenation of blocks, and what its operations
  do to it: the abstract view of \<open>fdt_sw.c\<close>.
\<close>

section \<open>Bytes of a concatenation\<close>

lemma bytes_at_append: "bytes_at (A @ B @ C) (int (length A)) (int (length B)) = B"
  by (simp add: bytes_at_def)

lemma inside_append: "inside (A @ B @ C) (int (length A)) (int (length B))"
  by (simp add: inside_def)

lemma rd_bytes_append: "p = int (length A) \<Longrightarrow> n = int (length B) \<Longrightarrow> rd_bytes (A @ B @ C) p n = Some B"
  by (simp add: rd_bytes_def inside_append bytes_at_append)

lemma wr_bytes_append:
  "p = int (length A) \<Longrightarrow> length B = length B' \<Longrightarrow> wr_bytes (A @ B @ C) p B' = Some (A @ B' @ C)"
  by (simp add: wr_bytes_def inside_def)

lemma uint_byte: "uint (word_of_int x :: 8 word) = x mod 256"
  by (simp add: uint_word_of_int)

lemma length_be [simp]: "length (cpu_to_fdt32 v) = 4" "length (cpu_to_fdt64 v) = 8"
  by (simp_all add: cpu_to_fdt32_def cpu_to_fdt64_def)

lemma be_value_32 [simp]: "be_value (cpu_to_fdt32 v) = u32 v"
proof -
  have 1: "v mod 2 ^ 32 = 2 ^ 16 * (v div 2 ^ 16 mod 2 ^ 16) + v mod 2 ^ 16"
    using zmod_zmult2_eq [of "2 ^ 16" v "2 ^ 16"] by simp
  have 2: "v mod 2 ^ 16 = 2 ^ 8 * (v div 2 ^ 8 mod 2 ^ 8) + v mod 2 ^ 8"
    using zmod_zmult2_eq [of "2 ^ 8" v "2 ^ 8"] by simp
  have 3: "v div 2 ^ 16 mod 2 ^ 16 = 2 ^ 8 * (v div 2 ^ 16 div 2 ^ 8 mod 2 ^ 8) + v div 2 ^ 16 mod 2 ^ 8"
    using zmod_zmult2_eq [of "2 ^ 8" "v div 2 ^ 16" "2 ^ 8"] by simp
  have 4: "v div 2 ^ 16 div 2 ^ 8 = v div 2 ^ 24" by (simp add: zdiv_zmult2_eq [symmetric])
  show ?thesis unfolding u32_def 1 2 3 4
    by (simp add: cpu_to_fdt32_def be_value_Cons uint_byte) (simp add: be_value.simps)
qed

lemma hdr_append: "p = int (length A) \<Longrightarrow> hdr (A @ cpu_to_fdt32 v @ C) p = u32 v"
  using bytes_at_append [of A "cpu_to_fdt32 v" C] by (simp add: hdr_def)

section \<open>The header\<close>

definition header :: "int list \<Rightarrow> 8 word list" where
  "header fs = concat (map cpu_to_fdt32 fs)"

lemma length_header [simp]: "length (header fs) = 4 * length fs"
  by (induction fs) (simp_all add: header_def)

lemma header_split:
  assumes "k < length fs"
  shows "header fs = header (take k fs) @ cpu_to_fdt32 (fs ! k) @ header (drop (Suc k) fs)"
  unfolding header_def by (subst id_take_nth_drop [OF assms]) (simp only: map_append concat_append list.map concat.simps)

lemma header_read: "k < length fs \<Longrightarrow> p = 4 * int k \<Longrightarrow> hdr (header fs @ X) p = u32 (fs ! k)"
  using hdr_append [of p "header (take k fs)" "fs ! k" "header (drop (Suc k) fs) @ X"]
  by (simp add: header_split [of k fs] min_def)

lemma header_write:
  assumes "k < length fs" "p = 4 * int k"
  shows "wr32 (header fs @ X) p v = Some (header (fs[k := v]) @ X)"
proof -
  have "header (fs[k := v]) = header (take k fs) @ cpu_to_fdt32 v @ header (drop (Suc k) fs)"
    using assms(1) header_split [of k "fs[k := v]"] by simp
  then show ?thesis
    using wr_bytes_append [of p "header (take k fs)" "cpu_to_fdt32 (fs ! k)" "cpu_to_fdt32 v" "header (drop (Suc k) fs) @ X"]
      assms by (simp add: wr32_def header_split [of k fs] min_def)
qed

lemma header_reads_10:
  "hdr (header [a, b, c, d, e, f, g, h, i, j] @ X) 0 = u32 a"
  "hdr (header [a, b, c, d, e, f, g, h, i, j] @ X) 4 = u32 b"
  "hdr (header [a, b, c, d, e, f, g, h, i, j] @ X) 8 = u32 c"
  "hdr (header [a, b, c, d, e, f, g, h, i, j] @ X) 12 = u32 d"
  "hdr (header [a, b, c, d, e, f, g, h, i, j] @ X) 16 = u32 e"
  "hdr (header [a, b, c, d, e, f, g, h, i, j] @ X) 20 = u32 f"
  "hdr (header [a, b, c, d, e, f, g, h, i, j] @ X) 24 = u32 g"
  "hdr (header [a, b, c, d, e, f, g, h, i, j] @ X) 28 = u32 h"
  "hdr (header [a, b, c, d, e, f, g, h, i, j] @ X) 32 = u32 i"
  "hdr (header [a, b, c, d, e, f, g, h, i, j] @ X) 36 = u32 j"
  using header_read [of 0 "[a, b, c, d, e, f, g, h, i, j]" 0 X] header_read [of 1 "[a, b, c, d, e, f, g, h, i, j]" 4 X]
    header_read [of 2 "[a, b, c, d, e, f, g, h, i, j]" 8 X] header_read [of 3 "[a, b, c, d, e, f, g, h, i, j]" 12 X]
    header_read [of 4 "[a, b, c, d, e, f, g, h, i, j]" 16 X] header_read [of 5 "[a, b, c, d, e, f, g, h, i, j]" 20 X]
    header_read [of 6 "[a, b, c, d, e, f, g, h, i, j]" 24 X] header_read [of 7 "[a, b, c, d, e, f, g, h, i, j]" 28 X]
    header_read [of 8 "[a, b, c, d, e, f, g, h, i, j]" 32 X] header_read [of 9 "[a, b, c, d, e, f, g, h, i, j]" 36 X]
  by simp_all

lemma header_writes:
  "fdt_set_magic (header [a, b, c, d, e, f, g, h, i, j] @ X) v = Some (header [v, b, c, d, e, f, g, h, i, j] @ X)"
  "fdt_set_totalsize (header [a, b, c, d, e, f, g, h, i, j] @ X) v = Some (header [a, v, c, d, e, f, g, h, i, j] @ X)"
  "fdt_set_off_dt_struct (header [a, b, c, d, e, f, g, h, i, j] @ X) v = Some (header [a, b, v, d, e, f, g, h, i, j] @ X)"
  "fdt_set_off_dt_strings (header [a, b, c, d, e, f, g, h, i, j] @ X) v = Some (header [a, b, c, v, e, f, g, h, i, j] @ X)"
  "fdt_set_off_mem_rsvmap (header [a, b, c, d, e, f, g, h, i, j] @ X) v = Some (header [a, b, c, d, v, f, g, h, i, j] @ X)"
  "fdt_set_version (header [a, b, c, d, e, f, g, h, i, j] @ X) v = Some (header [a, b, c, d, e, v, g, h, i, j] @ X)"
  "fdt_set_last_comp_version (header [a, b, c, d, e, f, g, h, i, j] @ X) v = Some (header [a, b, c, d, e, f, v, h, i, j] @ X)"
  "fdt_set_boot_cpuid_phys (header [a, b, c, d, e, f, g, h, i, j] @ X) v = Some (header [a, b, c, d, e, f, g, v, i, j] @ X)"
  "fdt_set_size_dt_strings (header [a, b, c, d, e, f, g, h, i, j] @ X) v = Some (header [a, b, c, d, e, f, g, h, v, j] @ X)"
  "fdt_set_size_dt_struct (header [a, b, c, d, e, f, g, h, i, j] @ X) v = Some (header [a, b, c, d, e, f, g, h, i, v] @ X)"
  using header_write [of 0 "[a, b, c, d, e, f, g, h, i, j]" 0 X v] header_write [of 1 "[a, b, c, d, e, f, g, h, i, j]" 4 X v]
    header_write [of 2 "[a, b, c, d, e, f, g, h, i, j]" 8 X v] header_write [of 3 "[a, b, c, d, e, f, g, h, i, j]" 12 X v]
    header_write [of 4 "[a, b, c, d, e, f, g, h, i, j]" 16 X v] header_write [of 5 "[a, b, c, d, e, f, g, h, i, j]" 20 X v]
    header_write [of 6 "[a, b, c, d, e, f, g, h, i, j]" 24 X v] header_write [of 7 "[a, b, c, d, e, f, g, h, i, j]" 28 X v]
    header_write [of 8 "[a, b, c, d, e, f, g, h, i, j]" 32 X v] header_write [of 9 "[a, b, c, d, e, f, g, h, i, j]" 36 X v]
  by (simp_all add: setter_defs)

section \<open>The image of the writer\<close>

text \<open>
  Total size, the offset of the strings in the header (0 or the total), the reservation map, the
  structure block and the strings; between the last two there are zeros.
\<close>

definition sw_image :: "nat \<Rightarrow> int \<Rightarrow> 8 word list \<Rightarrow> 8 word list \<Rightarrow> 8 word list \<Rightarrow> blob" where
  "sw_image T os rs st strs =
     header [FDT_SW_MAGIC, int T, 48 + int (length rs), os, 48, 17, 2, 0, int (length strs), int (length st)]
     @ replicate 8 0 @ rs @ st @ replicate (T - (48 + length rs + length st + length strs)) 0 @ strs"

definition sw_fits :: "nat \<Rightarrow> int \<Rightarrow> 8 word list \<Rightarrow> 8 word list \<Rightarrow> 8 word list \<Rightarrow> bool" where
  "sw_fits T os rs st strs \<longleftrightarrow> 48 + length rs + length st + length strs \<le> T \<and> int T \<le> INT_MAX
     \<and> 0 \<le> os \<and> os \<le> int T"

lemma length_sw_image: "sw_fits T os rs st strs \<Longrightarrow> length (sw_image T os rs st strs) = T"
  by (simp add: sw_image_def sw_fits_def)

lemma sw_image_hdr:
  assumes "sw_fits T os rs st strs"
  shows "hdr (sw_image T os rs st strs) 0 = FDT_SW_MAGIC" "hdr (sw_image T os rs st strs) 4 = int T"
    "hdr (sw_image T os rs st strs) 8 = 48 + int (length rs)" "hdr (sw_image T os rs st strs) 12 = os"
    "hdr (sw_image T os rs st strs) 16 = 48" "hdr (sw_image T os rs st strs) 20 = 17"
    "hdr (sw_image T os rs st strs) 24 = 2" "hdr (sw_image T os rs st strs) 32 = int (length strs)"
    "hdr (sw_image T os rs st strs) 36 = int (length st)"
  using assms by (auto simp: sw_image_def header_reads_10 sw_fits_def u32_id)

lemma sw_image_40: "sw_fits T os rs st strs \<Longrightarrow> 40 \<le> length (sw_image T os rs st strs)"
  using length_sw_image [of T os rs st strs] by (simp add: sw_fits_def)

lemmas sw_image_reads = header_reads [OF sw_image_40]

lemma sw_image_ok: "sw_fits T os rs st strs \<Longrightarrow> blob_ok (sw_image T os rs st strs)"
  by (simp add: blob_ok_def sw_image_hdr length_sw_image) (simp add: sw_fits_def)

section \<open>What the operations do to the image\<close>

lemma header_zeros: "header [0, 0, 0, 0, 0, 0, 0, 0, 0, 0] = replicate 40 0"
  by (simp add: header_def cpu_to_fdt32_def numeral_eq_Suc)

lemma create_image:
  assumes "48 \<le> length buf" "int (length buf) \<le> INT_MAX"
  shows "fdt_create buf (int (length buf)) = Some (0, sw_image (length buf) 0 [] [] [])"
proof -
  let ?n = "length buf"
  have z: "replicate ?n (0 :: 8 word) = header [0, 0, 0, 0, 0, 0, 0, 0, 0, 0] @ replicate (?n - 40) 0"
    using assms(1) by (simp add: header_zeros replicate_add [symmetric])
  have w: "wr_bytes buf 0 (replicate ?n 0) = Some (header [0, 0, 0, 0, 0, 0, 0, 0, 0, 0] @ replicate (?n - 40) 0)"
    unfolding z [symmetric] by (simp add: wr_bytes_def inside_def)
  have s: "replicate (?n - 40) (0 :: 8 word) = replicate 8 0 @ replicate (?n - 48) 0"
    using assms(1) by (simp add: replicate_add [symmetric])
  have u: "u64 (int ?n) = int ?n" using assms(2) by (intro u64_id) auto
  have r: "fdt_off_mem_rsvmap (header [a, b, c, d, 48, f, g, h, i, j] @ X) = Some 48" for a b c d f g h i j X
    using header_reads(5) [of "header [a, b, c, d, 48, f, g, h, i, j] @ X"] by (simp add: header_reads_10 u32_id)
  show ?thesis
    using assms(1) u w by (simp add: fdt_create_def FDT_ALIGN_def Let_def header_writes r sw_image_def s)
qed

text \<open>The probes accept an image in the right state.\<close>

lemma probe_image:
  assumes "sw_fits T os rs st strs"
  shows "fdt_sw_probe' (sw_image T os rs st strs) = Some 0"
    "fdt_sw_probe_memrsv' (sw_image T os rs st strs) = Some (if os \<noteq> 0 then - FDT_ERR_BADSTATE else 0)"
    "fdt_sw_probe_struct' (sw_image T os rs st strs) = Some (if os \<noteq> int T then - FDT_ERR_BADSTATE else 0)"
  using sw_image_reads [OF assms] sw_image_hdr [OF assms]
  by (simp_all add: fdt_sw_probe'_def fdt_sw_probe_memrsv'_def fdt_sw_probe_struct'_def)

lemma probed_ok: "probe fdt = Some 0 \<Longrightarrow> probed probe fdt rest = rest"
  by (simp add: probed_def)

text \<open>The zeros of an image come apart where an operation writes.\<close>

lemma gap_split: "a + b \<le> n \<Longrightarrow> replicate (n - a) x = replicate b x @ replicate (n - (a + b)) x"
  by (simp add: replicate_add [symmetric])

lemma rsv_entry_image:
  assumes f: "sw_fits T 0 rs [] []"
  shows "fdt_add_reservemap_entry (sw_image T 0 rs [] []) a n =
    Some (if 48 + length rs + 16 \<le> T
          then (0, sw_image T 0 (rs @ cpu_to_fdt64 a @ cpu_to_fdt64 n) [] [])
          else (- FDT_ERR_NOSPACE, sw_image T 0 rs [] []))"
proof -
  let ?I = "sw_image T 0 rs [] []"
  let ?o = "48 + int (length rs)"
  have b: "48 + length rs \<le> T" "int T \<le> INT_MAX" using f by (auto simp: sw_fits_def)
  have i: "s32 ?o = ?o" "u64 (?o + 16) = ?o + 16" using b by (auto intro!: s32_id u64_id simp: is_int_def)
  note reads = sw_image_reads [OF f] sw_image_hdr [OF f]
  show ?thesis
  proof (cases "48 + length rs + 16 \<le> T")
    case False
    then show ?thesis using probe_image(2) [OF f] reads i
      by (simp add: fdt_add_reservemap_entry_def probed_ok Let_def)
  next
    case True
    have g: "replicate (T - (48 + length rs)) (0 :: 8 word) = replicate 8 0 @ replicate 8 0 @ replicate (T - (48 + length rs + 16)) 0"
      using True by (simp add: replicate_add [symmetric])
    let ?H = "header [FDT_SW_MAGIC, int T, 48 + int (length rs), 0, 48, 17, 2, 0, 0, 0] @ replicate 8 0 @ rs"
    let ?R = "replicate (T - (48 + length rs + 16)) (0 :: 8 word)"
    have I: "?I = ?H @ replicate 8 0 @ replicate 8 0 @ ?R" by (simp add: sw_image_def g)
    have w1: "wr_bytes ?I ?o (cpu_to_fdt64 a) = Some (?H @ cpu_to_fdt64 a @ replicate 8 0 @ ?R)"
      unfolding I by (rule wr_bytes_append) simp_all
    have w2: "wr_bytes (?H @ cpu_to_fdt64 a @ replicate 8 0 @ ?R) (?o + 8) (cpu_to_fdt64 n)
        = Some (?H @ cpu_to_fdt64 a @ cpu_to_fdt64 n @ ?R)"
      using wr_bytes_append [of "?o + 8" "?H @ cpu_to_fdt64 a" "replicate 8 0" "cpu_to_fdt64 n" ?R] by simp
    have w3: "fdt_set_off_dt_struct (?H @ cpu_to_fdt64 a @ cpu_to_fdt64 n @ ?R) (u32 (?o + 16))
        = Some (sw_image T 0 (rs @ cpu_to_fdt64 a @ cpu_to_fdt64 n) [] [])"
      using True b by (simp add: header_writes sw_image_def u32_id)
    show ?thesis using True probe_image(2) [OF f] reads i w1 w2 w3
      by (simp add: fdt_add_reservemap_entry_def probed_ok Let_def)
  qed
qed

lemma finish_reservemap_image:
  assumes f: "sw_fits T 0 rs [] []"
  shows "fdt_finish_reservemap (sw_image T 0 rs [] []) =
    Some (if 48 + length rs + 16 \<le> T
          then (0, sw_image T (int T) (rs @ cpu_to_fdt64 0 @ cpu_to_fdt64 0) [] [])
          else (- FDT_ERR_NOSPACE, sw_image T 0 rs [] []))"
proof (cases "48 + length rs + 16 \<le> T")
  case True
  let ?rs = "rs @ cpu_to_fdt64 0 @ cpu_to_fdt64 0"
  have f': "sw_fits T 0 ?rs [] []" using True f by (simp add: sw_fits_def)
  have "fdt_set_off_dt_strings (sw_image T 0 ?rs [] []) (int T) = Some (sw_image T (int T) ?rs [] [])"
    by (simp add: sw_image_def header_writes)
  then show ?thesis
    using True rsv_entry_image [OF f, of 0 0] sw_image_reads(2) [OF f'] sw_image_hdr(2) [OF f']
    by (simp add: fdt_finish_reservemap_def)
qed (simp add: fdt_finish_reservemap_def rsv_entry_image [OF f])

lemma grab_image:
  assumes f: "sw_fits T os rs st strs" and len: "0 \<le> len" "len \<le> 2 ^ 33"
  shows "fdt_grab_space' (sw_image T os rs st strs) len =
    Some (if 48 + int (length rs) + int (length st) + len + int (length strs) \<le> int T
          then (Some (48 + int (length rs) + int (length st)),
                sw_image T os rs (st @ replicate (nat len) 0) strs)
          else (None, sw_image T os rs st strs))"
proof -
  have b: "48 + length rs + length st + length strs \<le> T" "int T \<le> INT_MAX" using f by (auto simp: sw_fits_def)
  have i: "s32 (int (length st)) = int (length st)" using b by (intro s32_id) (auto simp: is_int_def)
  have l: "s32 (int T - (48 + int (length rs)) - int (length strs)) = int T - (48 + int (length rs)) - int (length strs)"
    using b by (intro s32_id) (auto simp: is_int_def)
  have u: "u64 (int (length st) + len) = int (length st) + len" "u64 (int (length st)) = int (length st)"
    "u64 (int T - (48 + int (length rs)) - int (length strs)) = int T - (48 + int (length rs)) - int (length strs)"
    using b len by (auto intro!: u64_id)
  note reads = sw_image_reads [OF f] sw_image_hdr [OF f]
  show ?thesis
  proof (cases "48 + int (length rs) + int (length st) + len + int (length strs) \<le> int T")
    case False
    then show ?thesis using reads i l u len by (simp add: fdt_grab_space'_def Let_def)
  next
    case True
    let ?st = "st @ replicate (nat len) 0"
    have f': "sw_fits T os rs ?st strs" using f True len by (auto simp: sw_fits_def)
    have u32: "u32 (int (length st) + len) = int (length ?st)"
      using True b len by (subst u32_id) auto
    have g: "replicate (T - (48 + length rs + length st + length strs)) (0 :: 8 word)
        = replicate (nat len) 0 @ replicate (T - (48 + length rs + length ?st + length strs)) 0"
    proof -
      have "T - (48 + length rs + length st + length strs) = nat len + (T - (48 + length rs + length ?st + length strs))"
        using True by simp
      then show ?thesis by (simp only: replicate_add)
    qed
    have "fdt_set_size_dt_struct (sw_image T os rs st strs) (u32 (int (length st) + len)) = Some (sw_image T os rs ?st strs)"
      unfolding u32 by (simp add: sw_image_def header_writes) (simp add: g)
    then show ?thesis using True reads i l u len sw_image_reads(3) [OF f'] sw_image_hdr(3) [OF f']
      by (simp add: fdt_grab_space'_def Let_def fdt_offset_ptr'_def)
  qed
qed

text \<open>A write into the structure block.\<close>

lemma write_image:
  assumes "st = A @ B @ C" "length B = length B'" "p = 48 + int (length rs) + int (length A)"
  shows "wr_bytes (sw_image T os rs st strs) p B' = Some (sw_image T os rs (A @ B' @ C) strs)"
proof -
  let ?H = "header [FDT_SW_MAGIC, int T, 48 + int (length rs), os, 48, 17, 2, 0, int (length strs), int (length st)]
     @ replicate 8 0 @ rs @ A"
  let ?R = "C @ replicate (T - (48 + length rs + length st + length strs)) 0 @ strs"
  have "wr_bytes (?H @ B @ ?R) p B' = Some (?H @ B' @ ?R)"
    using assms by (intro wr_bytes_append) auto
  then show ?thesis using assms by (simp add: sw_image_def)
qed

lemma write32_image:
  assumes "st = A @ B @ C" "length B = 4" "p = 48 + int (length rs) + int (length A)"
  shows "wr32 (sw_image T os rs st strs) p v = Some (sw_image T os rs (A @ cpu_to_fdt32 v @ C) strs)"
  unfolding wr32_def using assms by (intro write_image) simp_all

end
