(* ===== verification/Fdt_Tokens.thy ===== *)
theory Fdt_Tokens
  imports Fdt_Layout
begin

text \<open>
  The structure block as a sequence of tokens: their encoding, what the writer appends and what
  \<open>fdt_next_tag\<close> and the accessors read back at each of them.
\<close>

section \<open>Encoding\<close>

datatype token = Node_begin "8 word list" | Node_end | Prop int "8 word list" | Nop | Fin

definition pad4 :: "8 word list \<Rightarrow> 8 word list" where
  "pad4 xs = xs @ replicate (nat (FDT_TAGALIGN (int (length xs)) - int (length xs))) 0"

fun enc :: "token \<Rightarrow> 8 word list" where
  "enc (Node_begin nm) = cpu_to_fdt32 FDT_BEGIN_NODE @ pad4 (nm @ [0])"
| "enc Node_end = cpu_to_fdt32 FDT_END_NODE"
| "enc (Prop off v) = cpu_to_fdt32 FDT_PROP @ cpu_to_fdt32 (int (length v)) @ cpu_to_fdt32 off @ pad4 v"
| "enc Nop = cpu_to_fdt32 FDT_NOP"
| "enc Fin = cpu_to_fdt32 FDT_END"

fun tag_of :: "token \<Rightarrow> int" where
  "tag_of (Node_begin nm) = FDT_BEGIN_NODE"
| "tag_of Node_end = FDT_END_NODE"
| "tag_of (Prop off v) = FDT_PROP"
| "tag_of Nop = FDT_NOP"
| "tag_of Fin = FDT_END"

lemma length_pad4: "int (length (pad4 xs)) = FDT_TAGALIGN (int (length xs))"
  using TAGALIGN_bounds(1) [of "int (length xs)"] by (simp add: pad4_def)

lemma length_enc:
  "int (length (enc (Node_begin nm))) = 4 + FDT_TAGALIGN (int (length nm) + 1)"
  "length (enc Node_end) = 4"
  "int (length (enc (Prop off v))) = 12 + FDT_TAGALIGN (int (length v))"
  "length (enc Nop) = 4"
  "length (enc Fin) = 4"
  using length_pad4 [of "nm @ [0]"] length_pad4 [of v] by (simp_all add: add.commute)

lemma TAGALIGN_mod: "x mod 4 = 0 \<Longrightarrow> FDT_TAGALIGN (x + y) = x + FDT_TAGALIGN y"
proof -
  assume "x mod 4 = 0"
  then obtain k where "x = 4 * k" by (metis dvd_def mod_eq_0_iff_dvd)
  moreover have "(3 + (4 * k + y)) div 4 = k + (3 + y) div 4" by presburger
  ultimately show ?thesis by (simp add: FDT_TAGALIGN_def FDT_ALIGN_def)
qed

lemma enc_mod4: "int (length (enc t)) mod 4 = 0"
proof (cases t)
  case (Node_begin nm)
  then show ?thesis using length_enc(1) [of nm] TAGALIGN_bounds(3) [of "int (length nm) + 1"]
    by (simp add: mod_add_eq [symmetric, of 4])
next
  case (Prop off v)
  then show ?thesis using length_enc(3) [of off v] TAGALIGN_bounds(3) [of "int (length v)"]
    by (simp add: mod_add_eq [symmetric, of 12])
qed (simp_all add: length_enc)

definition encs :: "token list \<Rightarrow> 8 word list" where
  "encs ts = concat (map enc ts)"

lemma encs_simps [simp]: "encs [] = []" "encs (t # ts) = enc t @ encs ts" "encs (ts @ us) = encs ts @ encs us"
  by (simp_all add: encs_def)

lemma encs_mod4: "int (length (encs ts)) mod 4 = 0"
proof (induction ts)
  case (Cons t ts)
  then show ?case using enc_mod4 [of t] by (simp add: mod_add_eq [symmetric, of "int (length (enc t))"])
qed simp

text \<open>The bytes that count: the padding behind a name or a value may be anything.\<close>

fun core :: "token \<Rightarrow> 8 word list" where
  "core (Node_begin nm) = cpu_to_fdt32 FDT_BEGIN_NODE @ nm @ [0]"
| "core (Prop off v) = cpu_to_fdt32 FDT_PROP @ cpu_to_fdt32 (int (length v)) @ cpu_to_fdt32 off @ v"
| "core t = enc t"

definition encodes :: "token \<Rightarrow> 8 word list \<Rightarrow> bool" where
  "encodes t bs \<longleftrightarrow> (\<exists>z. bs = core t @ z) \<and> length bs = length (enc t)"

lemma encodes_enc: "encodes t (enc t)"
  by (cases t) (auto simp: encodes_def pad4_def)

lemma encodes_length: "encodes t bs \<Longrightarrow> length bs = length (enc t)"
  by (simp add: encodes_def)

section \<open>What the writer appends\<close>

lemma begin_node_image:
  assumes f: "sw_fits T (int T) rs st strs" and nm: "int (length nm) < INT_MAX - 8"
  shows "fdt_begin_node (sw_image T (int T) rs st strs) nm =
    Some (if 48 + int (length rs) + int (length st) + int (length (enc (Node_begin nm))) + int (length strs) \<le> int T
          then (0, sw_image T (int T) rs (st @ enc (Node_begin nm)) strs)
          else (- FDT_ERR_NOSPACE, sw_image T (int T) rs st strs))"
proof -
  let ?n = "int (length nm) + 1"
  let ?len = "int (length (enc (Node_begin nm)))"
  have l: "s32 ?n = ?n" "u64 (4 + FDT_TAGALIGN ?n) = ?len" "?len \<le> 2 ^ 33"
    using nm TAGALIGN_bounds [of ?n] length_enc(1) [of nm] by (auto intro!: s32_id u64_id simp: is_int_def)
  note g = grab_image [OF f _ l(3)]
  show ?thesis
  proof (cases "48 + int (length rs) + int (length st) + ?len + int (length strs) \<le> int T")
    case False
    then show ?thesis using probe_image(3) [OF f] l(1,2) g
      by (simp add: fdt_begin_node_def probed_ok Let_def)
  next
    case True
    let ?pad = "replicate (nat (FDT_TAGALIGN ?n - ?n)) (0 :: 8 word)"
    have len: "nat ?len = 4 + (Suc (length nm) + nat (FDT_TAGALIGN ?n - ?n))"
      using length_enc(1) [of nm] TAGALIGN_bounds(1) [of ?n] by simp
    have z: "replicate (nat ?len) (0 :: 8 word) = replicate 4 0 @ replicate (Suc (length nm)) 0 @ ?pad"
      unfolding len by (simp only: replicate_add)
    let ?p = "48 + int (length rs) + int (length st)"
    have w1: "wr32 (sw_image T (int T) rs (st @ replicate (nat ?len) 0) strs) ?p FDT_BEGIN_NODE =
        Some (sw_image T (int T) rs (st @ cpu_to_fdt32 FDT_BEGIN_NODE @ replicate (Suc (length nm)) 0 @ ?pad) strs)"
      unfolding z
      using write32_image [of _ st "replicate 4 0" "replicate (Suc (length nm)) 0 @ ?pad" ?p rs] by simp
    have w2: "wr_bytes (sw_image T (int T) rs (st @ cpu_to_fdt32 FDT_BEGIN_NODE @ replicate (Suc (length nm)) 0 @ ?pad) strs)
          (?p + 4) (nm @ [0]) =
        Some (sw_image T (int T) rs (st @ enc (Node_begin nm)) strs)"
      using write_image [of _ "st @ cpu_to_fdt32 FDT_BEGIN_NODE" "replicate (Suc (length nm)) 0" ?pad "nm @ [0]" "?p + 4" rs T "int T" strs]
      by (simp add: pad4_def add.commute)
    show ?thesis using True probe_image(3) [OF f] l(1,2) g w1 w2
      by (simp add: fdt_begin_node_def probed_ok Let_def)
  qed
qed

lemma end_node_image:
  assumes f: "sw_fits T (int T) rs st strs"
  shows "fdt_end_node (sw_image T (int T) rs st strs) =
    Some (if 48 + int (length rs) + int (length st) + 4 + int (length strs) \<le> int T
          then (0, sw_image T (int T) rs (st @ enc Node_end) strs)
          else (- FDT_ERR_NOSPACE, sw_image T (int T) rs st strs))"
proof -
  have w: "wr32 (sw_image T (int T) rs (st @ replicate 4 0) strs) (48 + int (length rs) + int (length st)) FDT_END_NODE =
      Some (sw_image T (int T) rs (st @ enc Node_end) strs)"
    using write32_image [of "st @ replicate 4 0" st "replicate 4 0" "[]"] by simp
  show ?thesis using probe_image(3) [OF f] grab_image [OF f, of 4] w
    by (auto simp: fdt_end_node_def probed_ok)
qed

text \<open>The strings block: a name stands at a negative offset from its end.\<close>

definition name_at :: "8 word list \<Rightarrow> int \<Rightarrow> 8 word list \<Rightarrow> bool" where
  "name_at strs off nm \<longleftrightarrow> (\<exists>A C. strs = A @ nm @ 0 # C \<and> off = - int (length (nm @ 0 # C)))"

lemma name_at_prepend: "name_at strs off nm \<Longrightarrow> name_at (X @ strs) off nm"
  unfolding name_at_def by (metis append.assoc)

lemma name_at_new: "name_at (nm @ 0 # strs) (- int (length nm + 1 + length strs)) nm"
  unfolding name_at_def by (rule exI [of _ "[]"], rule exI [of _ strs]) simp

lemma find_string_at_some:
  "find_string_at fdt p l s = Some (Some q) \<Longrightarrow> p \<le> q \<and> q \<le> l \<and> inside fdt q (int (length s) + 1)
    \<and> bytes_at fdt q (int (length s) + 1) = s @ [0]"
proof (induction fdt p l s rule: find_string_at.induct)
  case (1 fdt p l s)
  show ?case
  proof (cases "p \<le> l")
    case False
    then show ?thesis using 1(2) by (simp add: find_string_at.simps [of fdt p l s])
  next
    case True
    then obtain e where e: "mem_eq fdt p (s @ [0]) = Some e"
      using 1(2) by (auto simp: find_string_at.simps [of fdt p l s])
    show ?thesis
    proof (cases e)
      case True
      then have "q = p" using 1(2) e \<open>p \<le> l\<close> by (simp add: find_string_at.simps [of fdt p l s])
      moreover have "inside fdt p (int (length s) + 1) \<and> bytes_at fdt p (int (length s) + 1) = s @ [0]"
        using e True by (auto simp: mem_eq_def rd_bytes_def add.commute split: if_splits)
      ultimately show ?thesis using \<open>p \<le> l\<close> by simp
    next
      case False
      then have "find_string_at fdt (p + 1) l s = Some (Some q)"
        using 1(2) e \<open>p \<le> l\<close> by (simp add: find_string_at.simps [of fdt p l s])
      then show ?thesis using 1(1) [OF \<open>p \<le> l\<close> e False] by simp
    qed
  qed
qed

lemma image_strings: "sw_fits T os rs st strs \<Longrightarrow>
  \<exists>P. sw_image T os rs st strs = P @ strs \<and> int (length P) = int T - int (length strs)"
  by (rule exI [of _ "header [FDT_SW_MAGIC, int T, 48 + int (length rs), os, 48, 17, 2, 0, int (length strs), int (length st)]
     @ replicate 8 0 @ rs @ st @ replicate (T - (48 + length rs + length st + length strs)) 0"])
    (auto simp: sw_image_def sw_fits_def)

lemma found_name:
  assumes "fdt = P @ strs" "int (length P) \<le> q" "inside fdt q (int (length s) + 1)"
    "bytes_at fdt q (int (length s) + 1) = s @ [0]"
  shows "name_at strs (q - int (length P) - int (length strs)) s"
proof -
  let ?k = "nat (q - int (length P))"
  have n: "nat q = length P + ?k" "nat (int (length s) + 1) = Suc (length s)" using assms(2) by simp_all
  have tk: "take (Suc (length s)) (drop ?k strs) = s @ [0]"
    using assms(4) unfolding bytes_at_def n assms(1) by simp
  have k: "?k + Suc (length s) \<le> length strs"
    using assms(1,2,3) by (simp add: inside_def)
  have d: "drop ?k strs = s @ 0 # drop (?k + Suc (length s)) strs"
    using append_take_drop_id [of "Suc (length s)" "drop ?k strs"] tk by (simp add: add.commute)
  have "strs = take ?k strs @ s @ 0 # drop (?k + Suc (length s)) strs"
    using append_take_drop_id [of ?k strs] d by simp
  moreover have "q - int (length P) - int (length strs) = - int (length (s @ 0 # drop (?k + Suc (length s)) strs))"
    using k assms(2) by simp
  ultimately show ?thesis unfolding name_at_def by blast
qed

lemma find_add_string_image:
  assumes f: "sw_fits T (int T) rs st strs"
    and r: "fdt_find_add_string_sw (sw_image T (int T) rs st strs) s = Some (off, fdt')"
    and s: "int (length s) < INT_MAX"
  shows "\<exists>strs' X. fdt' = sw_image T (int T) rs st strs' \<and> sw_fits T (int T) rs st strs' \<and> strs' = X @ strs
    \<and> (off = 0 \<or> name_at strs' off s)"
proof -
  let ?I = "sw_image T (int T) rs st strs"
  have b: "48 + length rs + length st + length strs \<le> T" "int T \<le> INT_MAX" using f by (auto simp: sw_fits_def)
  note reads = sw_image_reads [OF f] sw_image_hdr [OF f]
  have i: "s32 (int (length strs)) = int (length strs)" "s32 (int (length s) + 1) = int (length s) + 1"
    using b s by (auto intro!: s32_id simp: is_int_def)
  let ?find = "find_string_at ?I (int T - int (length strs)) (int T - (int (length s) + 1)) s"
  obtain p where p: "?find = Some p" using r reads i by (auto simp: fdt_find_add_string_sw_def Let_def fdt_find_string'_def)
  show ?thesis
  proof (cases p)
    case (Some q)
    have q: "int T - int (length strs) \<le> q" "q \<le> int T - (int (length s) + 1)"
      "inside ?I q (int (length s) + 1)" "bytes_at ?I q (int (length s) + 1) = s @ [0]"
      using find_string_at_some [of ?I "int T - int (length strs)" "int T - (int (length s) + 1)" s q] p Some by auto
    obtain P where P: "?I = P @ strs" "int (length P) = int T - int (length strs)" using image_strings [OF f] by blast
    have "s32 (q - int T) = q - int T" using q(1,2) b by (intro s32_id) (auto simp: is_int_def)
    then have "off = q - int T" "fdt' = ?I"
      using r reads i p Some by (auto simp: fdt_find_add_string_sw_def Let_def fdt_find_string'_def)
    moreover have "name_at strs (q - int T) s" using found_name [OF P(1) _ q(3,4)] q(1) P(2) by simp
    ultimately show ?thesis using f by (metis append_Nil)
  next
    case None
    let ?len = "int (length s) + 1"
    have o: "s32 (- int (length strs) - ?len) = - int (length strs) - ?len" if "int (length strs) + ?len \<le> int T"
      using that b by (intro s32_id) (auto simp: is_int_def)
    have top: "s32 (48 + int (length rs) + int (length st)) = 48 + int (length rs) + int (length st)"
      "u32 (48 + int (length rs) + int (length st)) = 48 + int (length rs) + int (length st)"
      using b by (auto intro!: s32_id u32_id simp: is_int_def)
    show ?thesis
    proof (cases "off = 0 \<and> fdt' = ?I")
      case True
      then show ?thesis using f by (metis append_Nil)
    next
      case False
      let ?off = "s32 (- int (length strs) - ?len)"
      have no: "\<not> u32 (int T + ?off) < 48 + int (length rs) + int (length st)"
        and w: "\<exists>fdt1. wr_bytes ?I (int T + ?off) (s @ [0]) = Some fdt1
          \<and> fdt_set_size_dt_strings fdt1 (u32 (int (length strs) + ?len)) = Some fdt' \<and> off = ?off"
        using r reads i p None top False
        by (auto simp: fdt_find_add_string_sw_def Let_def fdt_find_string'_def split: if_splits)
      have room: "int (length strs) + ?len \<le> int T"
      proof (rule ccontr)
        assume c: "\<not> int (length strs) + ?len \<le> int T"
        have "int T + ?off < 0 \<or> int T < int T + ?off + ?len"
        proof (cases "- int (length strs) - ?len \<ge> - (2 ^ 31)")
          case True
          then have "?off = - int (length strs) - ?len" by (intro s32_id) (auto simp: is_int_def)
          then show ?thesis using c by simp
        next
          case False
          have "?off = - int (length strs) - ?len + 2 ^ 32"
            using False b s by (intro s32_under) auto
          then show ?thesis using b s by simp
        qed
        then have "wr_bytes ?I (int T + ?off) (s @ [0]) = None"
          using length_sw_image [OF f] by (auto simp: wr_bytes_def inside_def)
        with w show False by simp
      qed
      have off: "off = - int (length strs) - ?len" "?off = - int (length strs) - ?len" using w o [OF room] by auto
      have "u32 (int T + ?off) = int T - int (length strs) - ?len"
        unfolding off(2) using room b by (subst u32_id) auto
      then have fit: "48 + length rs + length st + length strs + Suc (length s) \<le> T" using no by simp
      let ?H = "header [FDT_SW_MAGIC, int T, 48 + int (length rs), int T, 48, 17, 2, 0, int (length strs), int (length st)]
         @ replicate 8 0 @ rs @ st @ replicate (T - (48 + length rs + length st + length (s @ 0 # strs))) 0"
      have I: "?I = ?H @ replicate (Suc (length s)) 0 @ strs"
      proof -
        have "T - (48 + length rs + length st + length strs) = (T - (48 + length rs + length st + length (s @ 0 # strs))) + Suc (length s)"
          using fit by simp
        then have "replicate (T - (48 + length rs + length st + length strs)) (0 :: 8 word)
            = replicate (T - (48 + length rs + length st + length (s @ 0 # strs))) 0 @ replicate (Suc (length s)) 0"
          by (simp only: replicate_add)
        then show ?thesis by (simp only: sw_image_def append.assoc)
      qed
      have "wr_bytes ?I (int T + ?off) (s @ [0]) = Some (?H @ (s @ [0]) @ strs)"
        unfolding I off(2) using fit by (intro wr_bytes_append) auto
      then have "fdt_set_size_dt_strings (?H @ (s @ [0]) @ strs) (u32 (int (length strs) + ?len)) = Some fdt'" using w by simp
      moreover have "u32 (int (length strs) + ?len) = int (length (s @ 0 # strs))"
        using fit b by (subst u32_id) auto
      ultimately have "fdt' = sw_image T (int T) rs st (s @ 0 # strs)"
        by (simp add: header_writes sw_image_def)
      moreover have "sw_fits T (int T) rs st (s @ 0 # strs)" using fit b by (simp add: sw_fits_def)
      moreover have "off = - int (length s + 1 + length strs)" using off(1) by simp
      then have "name_at (s @ 0 # strs) off s" by (simp only: name_at_new)
      ultimately show ?thesis by (metis append.assoc append_Cons append_Nil)
    qed
  qed
qed

lemma property_image:
  assumes f: "sw_fits T (int T) rs st strs"
    and r: "fdt_property (sw_image T (int T) rs st strs) nm v = Some (0, fdt')"
    and len: "int (length nm) < INT_MAX" "int (length v) < INT_MAX - 16"
  shows "\<exists>strs' X off. fdt' = sw_image T (int T) rs (st @ enc (Prop off v)) strs'
    \<and> sw_fits T (int T) rs (st @ enc (Prop off v)) strs' \<and> strs' = X @ strs \<and> name_at strs' off nm"
proof -
  let ?n = "int (length v)"
  obtain off fdt1 where fa: "fdt_find_add_string_sw (sw_image T (int T) rs st strs) nm = Some (off, fdt1)"
    using r probe_image(3) [OF f] by (auto simp: fdt_property_def fdt_property_placeholder_def)
  obtain strs' X where s: "fdt1 = sw_image T (int T) rs st strs'" "sw_fits T (int T) rs st strs'"
    "strs' = X @ strs" "off = 0 \<or> name_at strs' off nm"
    using find_add_string_image [OF f fa len(1)] by blast
  let ?len = "int (length (enc (Prop off v)))"
  have l: "u64 (12 + FDT_TAGALIGN ?n) = ?len" "0 \<le> ?len" "?len \<le> 2 ^ 33"
    using len TAGALIGN_bounds [of ?n] length_enc(3) [of off v] by (auto intro!: u64_id)
  let ?p = "48 + int (length rs) + int (length st)"
  have nz: "off \<noteq> 0" and room: "?p + ?len + int (length strs') \<le> int T"
    using r probe_image(3) [OF f] fa grab_image [OF s(2) l(2,3)] l(1) s(1)
    by (auto simp: fdt_property_def fdt_property_placeholder_def split: if_splits)
  let ?pad = "replicate (nat (FDT_TAGALIGN ?n - ?n)) (0 :: 8 word)"
  let ?img = "\<lambda>st. sw_image T (int T) rs st strs'"
  have z: "replicate (nat ?len) (0 :: 8 word) = replicate 4 0 @ replicate 4 0 @ replicate 4 0 @ replicate (length v) 0 @ ?pad"
  proof -
    have "nat ?len = 4 + (4 + (4 + (length v + nat (FDT_TAGALIGN ?n - ?n))))"
      using length_enc(3) [of off v] TAGALIGN_bounds(1) [of ?n] by simp
    then show ?thesis by (simp only: replicate_add)
  qed
  have w1: "wr32 (?img (st @ replicate (nat ?len) 0)) ?p FDT_PROP =
      Some (?img (st @ cpu_to_fdt32 FDT_PROP @ replicate 4 0 @ replicate 4 0 @ replicate (length v) 0 @ ?pad))"
    unfolding z by (rule write32_image [of _ st "replicate 4 0"]) simp_all
  have w2: "wr32 (?img (st @ cpu_to_fdt32 FDT_PROP @ replicate 4 0 @ replicate 4 0 @ replicate (length v) 0 @ ?pad)) (?p + 8) off =
      Some (?img (st @ cpu_to_fdt32 FDT_PROP @ replicate 4 0 @ cpu_to_fdt32 off @ replicate (length v) 0 @ ?pad))"
    using write32_image [of _ "st @ cpu_to_fdt32 FDT_PROP @ replicate 4 0" "replicate 4 0" "replicate (length v) 0 @ ?pad" "?p + 8" rs]
    by simp
  have w3: "wr32 (?img (st @ cpu_to_fdt32 FDT_PROP @ replicate 4 0 @ cpu_to_fdt32 off @ replicate (length v) 0 @ ?pad)) (?p + 4) ?n =
      Some (?img (st @ cpu_to_fdt32 FDT_PROP @ cpu_to_fdt32 ?n @ cpu_to_fdt32 off @ replicate (length v) 0 @ ?pad))"
    using write32_image [of _ "st @ cpu_to_fdt32 FDT_PROP" "replicate 4 0" "cpu_to_fdt32 off @ replicate (length v) 0 @ ?pad" "?p + 4" rs]
    by simp
  have w4: "wr_bytes (?img (st @ cpu_to_fdt32 FDT_PROP @ cpu_to_fdt32 ?n @ cpu_to_fdt32 off @ replicate (length v) 0 @ ?pad)) (?p + 12) v =
      Some (?img (st @ enc (Prop off v)))"
    using write_image [of _ "st @ cpu_to_fdt32 FDT_PROP @ cpu_to_fdt32 ?n @ cpu_to_fdt32 off" "replicate (length v) 0" ?pad v "?p + 12" rs]
    by (simp add: pad4_def)
  have "fdt' = ?img (st @ enc (Prop off v))"
    using r probe_image(3) [OF f] fa grab_image [OF s(2) l(2,3)] l(1) s(1) nz room w1 w2 w3 w4
    by (simp add: fdt_property_def fdt_property_placeholder_def add.assoc)
  moreover have "sw_fits T (int T) rs (st @ enc (Prop off v)) strs'"
    using s(2) room unfolding sw_fits_def length_append by linarith
  ultimately show ?thesis using s(3,4) nz by blast
qed

section \<open>Calls of the writer\<close>

datatype call = Begin_node "8 word list" | Property "8 word list" "8 word list" | End_node

fun apply_call :: "call \<Rightarrow> blob \<Rightarrow> (int \<times> blob) option" where
  "apply_call (Begin_node nm) fdt = fdt_begin_node fdt nm"
| "apply_call (Property nm v) fdt = fdt_property fdt nm v"
| "apply_call End_node fdt = fdt_end_node fdt"

text \<open>A client that stops at the first error.\<close>

fun run_calls :: "call list \<Rightarrow> blob \<Rightarrow> (int \<times> blob) option" where
  "run_calls [] fdt = Some (0, fdt)"
| "run_calls (c # cs) fdt = do {
     (err, fdt) \<leftarrow> apply_call c fdt;
     if err \<noteq> 0 then Some (err, fdt) else run_calls cs fdt }"

text \<open>Names are C strings, and sizes are of \<open>int\<close>.\<close>

fun call_ok :: "call \<Rightarrow> bool" where
  "call_ok (Begin_node nm) \<longleftrightarrow> 0 \<notin> set nm \<and> int (length nm) < INT_MAX - 16"
| "call_ok (Property nm v) \<longleftrightarrow> 0 \<notin> set nm \<and> int (length nm) < INT_MAX \<and> int (length v) < INT_MAX - 16"
| "call_ok End_node \<longleftrightarrow> True"

fun token_of :: "8 word list \<Rightarrow> call \<Rightarrow> token \<Rightarrow> bool" where
  "token_of strs (Begin_node nm) t \<longleftrightarrow> t = Node_begin nm"
| "token_of strs (Property nm v) t \<longleftrightarrow> (\<exists>off. t = Prop off v \<and> name_at strs off nm)"
| "token_of strs End_node t \<longleftrightarrow> t = Node_end"

lemma token_of_prepend: "token_of strs c t \<Longrightarrow> token_of (X @ strs) c t"
  by (cases c) (auto intro: name_at_prepend)

lemma sw_fits_append: "sw_fits T os rs st strs \<Longrightarrow> 48 + int (length rs) + int (length st) + int (length bs) + int (length strs) \<le> int T \<Longrightarrow>
    sw_fits T os rs (st @ bs) strs"
  by (simp add: sw_fits_def)

lemma apply_call_image:
  assumes f: "sw_fits T (int T) rs st strs" and c: "call_ok c"
    and r: "apply_call c (sw_image T (int T) rs st strs) = Some (0, fdt')"
  shows "\<exists>t strs' X. fdt' = sw_image T (int T) rs (st @ enc t) strs' \<and> sw_fits T (int T) rs (st @ enc t) strs'
    \<and> strs' = X @ strs \<and> token_of strs' c t"
proof (cases c)
  case (Begin_node nm)
  then have "fdt' = sw_image T (int T) rs (st @ enc (Node_begin nm)) strs"
    "48 + int (length rs) + int (length st) + int (length (enc (Node_begin nm))) + int (length strs) \<le> int T"
    using r c begin_node_image [OF f, of nm] by (auto split: if_splits)
  then show ?thesis using sw_fits_append [OF f, of "enc (Node_begin nm)"] Begin_node by fastforce
next
  case (Property nm v)
  then show ?thesis using r c property_image [OF f, of nm v fdt'] by fastforce
next
  case End_node
  then have "fdt' = sw_image T (int T) rs (st @ enc Node_end) strs"
    "48 + int (length rs) + int (length st) + int (length (enc Node_end)) + int (length strs) \<le> int T"
    using r end_node_image [OF f] by (auto split: if_splits)
  then show ?thesis using sw_fits_append [OF f, of "enc Node_end"] End_node by fastforce
qed

lemma run_calls_image:
  "sw_fits T (int T) rs st strs \<Longrightarrow> list_all call_ok cs \<Longrightarrow>
    run_calls cs (sw_image T (int T) rs st strs) = Some (0, fdt') \<Longrightarrow>
    \<exists>ts strs' X. fdt' = sw_image T (int T) rs (st @ encs ts) strs' \<and> sw_fits T (int T) rs (st @ encs ts) strs'
      \<and> strs' = X @ strs \<and> list_all2 (token_of strs') cs ts"
proof (induction cs arbitrary: st strs)
  case Nil
  then show ?case by (intro exI [of _ "[]"] exI [of _ strs]) simp
next
  case (Cons c cs)
  obtain fdt1 where c: "apply_call c (sw_image T (int T) rs st strs) = Some (0, fdt1)"
    "run_calls cs fdt1 = Some (0, fdt')"
    using Cons.prems(3) by (auto split: if_splits)
  obtain t strs1 X where 1: "fdt1 = sw_image T (int T) rs (st @ enc t) strs1" "sw_fits T (int T) rs (st @ enc t) strs1"
    "strs1 = X @ strs" "token_of strs1 c t"
    using apply_call_image [OF Cons.prems(1) _ c(1)] Cons.prems(2) by auto
  obtain ts strs2 Y where 2: "fdt' = sw_image T (int T) rs ((st @ enc t) @ encs ts) strs2"
    "sw_fits T (int T) rs ((st @ enc t) @ encs ts) strs2" "strs2 = Y @ strs1" "list_all2 (token_of strs2) cs ts"
    using Cons.IH [OF 1(2)] Cons.prems(2) c(2) 1(1) by auto
  have "token_of strs2 c t" using token_of_prepend [OF 1(4)] 2(3) by simp
  then have "list_all2 (token_of strs2) (c # cs) (t # ts)" using 2(4) by simp
  moreover have "(st @ enc t) @ encs ts = st @ encs (t # ts)" by simp
  moreover have "strs2 = (Y @ X) @ strs" using 1(3) 2(3) by simp
  ultimately show ?case using 2(1,2) by metis
qed

end
