(* ===== verification/Fdt_Roundtrip.thy ===== *)
theory Fdt_Roundtrip
  imports Fdt_Tokens
begin

text \<open>
  Reading the structure block back: what \<open>fdt_next_tag\<close> and the accessors return at a token that
  stands in a blob, the loop of \<open>fdt_finish\<close>, and the blob it leaves.
\<close>

section \<open>A token in a blob\<close>

text \<open>The token stands at an offset of the structure block, and all of it is in the block.\<close>

definition token_at :: "blob \<Rightarrow> int \<Rightarrow> token \<Rightarrow> bool" where
  "token_at fdt off t \<longleftrightarrow> 0 \<le> off \<and> off mod 4 = 0 \<and> off + int (length (enc t)) \<le> struct_end fdt
     \<and> (\<exists>P bs Q. fdt = P @ bs @ Q \<and> encodes t bs \<and> int (length P) = hdr fdt 8 + off)"

fun token_ok :: "token \<Rightarrow> bool" where
  "token_ok (Node_begin nm) \<longleftrightarrow> 0 \<notin> set nm"
| "token_ok (Prop off v) \<longleftrightarrow> int (length v) < INT_MAX"
| "token_ok t \<longleftrightarrow> True"

lemma hdr_middle: "fdt = A @ cpu_to_fdt32 v @ C \<Longrightarrow> int (length A) = p \<Longrightarrow> hdr fdt p = u32 v"
  using hdr_append [of p A v C] by simp

lemma token_words:
  assumes fdt: "fdt = P @ bs @ Q" "int (length P) = p" and bs: "encodes t bs"
  shows "hdr fdt p = tag_of t"
    "t = Prop off v \<Longrightarrow> int (length v) < 2 ^ 32 \<Longrightarrow> hdr fdt (p + 4) = int (length v)"
    "t = Prop off v \<Longrightarrow> hdr fdt (p + 8) = u32 off"
    "t = Prop off v \<Longrightarrow> bytes_at fdt (p + 12) (int (length v)) = v"
    "t = Node_begin nm \<Longrightarrow> bytes_at fdt (p + 4) (int (length nm) + 1) = nm @ [0]"
proof -
  obtain z where "bs = core t @ z" using bs by (auto simp: encodes_def)
  then have f: "fdt = P @ core t @ (z @ Q)" using fdt(1) by simp
  show "hdr fdt p = tag_of t"
    using f fdt(2) hdr_middle [of fdt P _ _ p] by (cases t) (fastforce simp: u32_def)+
  show "hdr fdt (p + 4) = int (length v)" if "t = Prop off v" "int (length v) < 2 ^ 32"
  proof -
    have "fdt = (P @ cpu_to_fdt32 FDT_PROP) @ cpu_to_fdt32 (int (length v)) @ (cpu_to_fdt32 off @ v @ z @ Q)"
      using that f by simp
    from hdr_middle [OF this, of "p + 4"] show ?thesis using fdt(2) that(2) by (simp add: u32_id)
  qed
  show "hdr fdt (p + 8) = u32 off" if "t = Prop off v"
  proof -
    have "fdt = (P @ cpu_to_fdt32 FDT_PROP @ cpu_to_fdt32 (int (length v))) @ cpu_to_fdt32 off @ (v @ z @ Q)"
      using that f by simp
    from hdr_middle [OF this, of "p + 8"] show ?thesis using fdt(2) by simp
  qed
  show "bytes_at fdt (p + 12) (int (length v)) = v" if "t = Prop off v"
  proof -
    let ?A = "P @ cpu_to_fdt32 FDT_PROP @ cpu_to_fdt32 (int (length v)) @ cpu_to_fdt32 off"
    have "fdt = ?A @ v @ (z @ Q)" using that f by simp
    moreover have "p + 12 = int (length ?A)" using fdt(2) by simp
    ultimately show ?thesis using bytes_at_append [of ?A v] by metis
  qed
  show "bytes_at fdt (p + 4) (int (length nm) + 1) = nm @ [0]" if "t = Node_begin nm"
  proof -
    let ?A = "P @ cpu_to_fdt32 FDT_BEGIN_NODE"
    have "fdt = ?A @ (nm @ [0]) @ (z @ Q)" using that f by simp
    moreover have "p + 4 = int (length ?A)" "int (length nm) + 1 = int (length (nm @ [0]))" using fdt(2) by simp_all
    ultimately show ?thesis using bytes_at_append [of ?A "nm @ [0]"] by metis
  qed
qed

text \<open>A name in the blob is a terminated string.\<close>

lemma terminated_name:
  assumes "bytes_at fdt p (int (length nm) + 1) = nm @ [0]" "inside fdt p (int (length nm) + 1)" "0 \<notin> set nm"
  shows "terminated fdt p (int (length nm))"
proof -
  have at: "fdt ! nat (p + int k) = (nm @ [0]) ! k" if "k < Suc (length nm)" for k
  proof -
    have np: "nat p \<le> length fdt" using assms(2) by (auto simp: inside_def)
    have "(nm @ [0]) ! k = take (nat (int (length nm) + 1)) (drop (nat p) fdt) ! k"
      using assms(1) by (simp add: bytes_at_def)
    also have "\<dots> = fdt ! (nat p + k)" using that np by simp
    also have "nat p + k = nat (p + int k)" using assms(2) by (simp add: inside_def nat_add_distrib)
    finally show ?thesis by simp
  qed
  show ?thesis unfolding terminated_def
  proof (intro conjI allI impI)
    show "fdt ! nat (p + int (length nm)) = 0" using at [of "length nm"] by simp
    fix i assume i: "p \<le> i \<and> i < p + int (length nm)"
    define k where "k = nat (i - p)"
    have k: "k < length nm" "i = p + int k" using i by (auto simp: k_def)
    have "nm ! k \<noteq> 0" using assms(3) nth_mem [OF k(1)] by metis
    then show "fdt ! nat i \<noteq> 0" using at [of k] k by (simp add: nth_append)
  qed (use assms(2) in \<open>auto simp: inside_def\<close>)
qed

lemma skip_name_finds:
  assumes ok: "blob_ok fdt" and t: "terminated fdt (hdr fdt 8 + off) l" and off: "0 \<le> off" "off + l + 1 \<le> struct_end fdt"
  shows "skip_name fdt off = Some (Some (off + l + 1))"
  using t off
proof (induction "nat l" arbitrary: off l)
  case 0
  then have l: "l = 0" by (simp add: terminated_def)
  have i: "is_int off" "is_int (off + 1)" using 0(3,4) l struct_end_int [OF ok] by (auto simp: is_int_def)
  have p: "fdt_offset_ptr fdt off 1 = Some (Some (hdr fdt 8 + off))"
    using offset_ptr_spec [OF ok i(1), of 1] 0(3,4) l by (simp add: is_u32_def)
  have "rd8 fdt (hdr fdt 8 + off) = Some 0" using 0(2) l by (simp add: terminated_def rd8_def)
  then show ?case using p l i by (simp add: skip_name.simps [of fdt off] s32_id)
next
  case (Suc k)
  then have l: "0 < l" by linarith
  have i: "is_int off" "is_int (off + 1)" using Suc(4,5) l struct_end_int [OF ok] by (auto simp: is_int_def)
  have p: "fdt_offset_ptr fdt off 1 = Some (Some (hdr fdt 8 + off))"
    using offset_ptr_spec [OF ok i(1), of 1] Suc(4,5) l by (simp add: is_u32_def)
  have c: "rd8 fdt (hdr fdt 8 + off) = Some (fdt ! nat (hdr fdt 8 + off))" "fdt ! nat (hdr fdt 8 + off) \<noteq> 0"
    using Suc(3) l by (auto simp: terminated_def rd8_def)
  have "terminated fdt (hdr fdt 8 + (off + 1)) (l - 1)" using terminated_drop [OF Suc(3), of 1] l by (simp add: add.assoc)
  moreover have "k = nat (l - 1)" using Suc(2) l by simp
  ultimately have "skip_name fdt (off + 1) = Some (Some (off + 1 + (l - 1) + 1))"
    using Suc(4,5) by (intro Suc(1)) auto
  then show ?case using p c i by (simp add: skip_name.simps [of fdt off] s32_id)
qed

lemma next_tag_token:
  assumes ok: "blob_ok fdt" and v: "16 \<le> hdr fdt 20" and t: "token_at fdt off t" "token_ok t"
  shows "fdt_next_tag fdt off = Some (tag_of t, off + int (length (enc t)))"
proof -
  obtain P bs Q where PQ: "fdt = P @ bs @ Q" "int (length P) = hdr fdt 8 + off" "encodes t bs"
    using t(1) by (auto simp: token_at_def)
  have o: "0 \<le> off" "off mod 4 = 0" "off + int (length (enc t)) \<le> struct_end fdt"
    using t(1) by (auto simp: token_at_def)
  note w = token_words [OF PQ]
  have four: "4 \<le> int (length (enc t))" by (cases t) auto
  then have o4: "off + 4 \<le> struct_end fdt" using o(3) by simp
  show ?thesis
  proof (cases t)
    case (Node_begin nm)
    have len: "int (length (enc t)) = 4 + FDT_TAGALIGN (int (length nm) + 1)" using length_enc(1) Node_begin by simp
    then have b: "off + 4 + int (length nm) + 1 \<le> struct_end fdt"
      using o(3) TAGALIGN_bounds(1) [of "int (length nm) + 1"] by simp
    have "inside fdt (hdr fdt 8 + off + 4) (int (length nm) + 1)"
      using struct_inside [OF ok, of "off + 4" "int (length nm) + 1"] o(1) b by (simp add: add.assoc)
    then have "terminated fdt (hdr fdt 8 + (off + 4)) (int (length nm))"
      using terminated_name [OF w(5)] Node_begin t(2) by (simp add: add.assoc)
    then have s: "skip_name fdt (off + 4) = Some (Some (off + 4 + int (length nm) + 1))"
      using o(1) b by (intro skip_name_finds [OF ok]) auto
    have "(off + 4) mod 4 = 0" using o(2) by presburger
    then have "FDT_TAGALIGN (off + 4 + int (length nm) + 1) = off + int (length (enc t))"
      using TAGALIGN_mod [of "off + 4" "int (length nm) + 1"] len by (simp add: add.assoc)
    then show ?thesis using next_tag_begin [OF ok o(1) o4 _ s] w(1) Node_begin by simp
  next
    case Node_end
    have "FDT_TAGALIGN (off + 4) = off + 4" using TAGALIGN_mod [OF o(2), of 4] by (simp add: FDT_TAGALIGN_def FDT_ALIGN_def)
    then show ?thesis using next_tag_plain [OF ok o(1) o4] w(1) Node_end by simp
  next
    case (Prop noff v)
    have len: "int (length (enc t)) = 12 + FDT_TAGALIGN (int (length v))" using length_enc(3) Prop by simp
    have lv: "int (length v) < INT_MAX" using t(2) Prop by simp
    have pl: "prop_len fdt off = int (length v)" using w(2) [OF Prop] lv by (simp add: prop_len_def)
    then have ps: "prop_size fdt off = 12 + int (length v)"
      using v lv u32_id [of "12 + int (length v)"] by (simp add: prop_size_def prop_pad_def)
    have "(off + 12) mod 4 = 0" using o(2) by presburger
    then have "FDT_TAGALIGN (off + prop_size fdt off) = off + int (length (enc t))"
      using TAGALIGN_mod [of "off + 12" "int (length v)"] len ps by (simp add: add.assoc)
    moreover have "off + prop_size fdt off \<le> struct_end fdt"
      using o(3) len ps TAGALIGN_bounds(1) [of "int (length v)"] by simp
    ultimately show ?thesis
      using next_tag_prop [OF ok o(1) o4] w(1) Prop ps by simp
  next
    case Nop
    have "FDT_TAGALIGN (off + 4) = off + 4" using TAGALIGN_mod [OF o(2), of 4] by (simp add: FDT_TAGALIGN_def FDT_ALIGN_def)
    then show ?thesis using next_tag_plain [OF ok o(1) o4] w(1) Nop by simp
  next
    case Fin
    have "FDT_TAGALIGN (off + 4) = off + 4" using TAGALIGN_mod [OF o(2), of 4] by (simp add: FDT_TAGALIGN_def FDT_ALIGN_def)
    then show ?thesis using next_tag_plain [OF ok o(1) o4] w(1) Fin by simp
  qed
qed

section \<open>The finished blob\<close>

text \<open>The blob with the strings after the structure block: magic number, total size, reservation
  map, structure block, strings, and what is left of the buffer.\<close>

definition fdt_image :: "int \<Rightarrow> int \<Rightarrow> 8 word list \<Rightarrow> 8 word list \<Rightarrow> 8 word list \<Rightarrow> 8 word list \<Rightarrow> blob" where
  "fdt_image magic T rs st strs Y =
     header [magic, T, 48 + int (length rs), 48 + int (length rs) + int (length st), 48, 17, 2, 0,
        int (length strs), int (length st)]
     @ replicate 8 0 @ rs @ st @ strs @ Y"

definition fits :: "int \<Rightarrow> 8 word list \<Rightarrow> 8 word list \<Rightarrow> 8 word list \<Rightarrow> 8 word list \<Rightarrow> bool" where
  "fits T rs st strs Y \<longleftrightarrow> 48 + int (length rs) + int (length st) + int (length strs) \<le> T
     \<and> T \<le> 48 + int (length rs) + int (length st) + int (length strs) + int (length Y) \<and> T \<le> INT_MAX"

lemma length_image: "length (fdt_image m T rs st strs Y) = 48 + length rs + length st + length strs + length Y"
  by (simp add: fdt_image_def)

lemma image_hdr:
  assumes "fits T rs st strs Y"
  shows "hdr (fdt_image m T rs st strs Y) 0 = u32 m" "hdr (fdt_image m T rs st strs Y) 4 = T"
    "hdr (fdt_image m T rs st strs Y) 8 = 48 + int (length rs)"
    "hdr (fdt_image m T rs st strs Y) 12 = 48 + int (length rs) + int (length st)"
    "hdr (fdt_image m T rs st strs Y) 16 = 48" "hdr (fdt_image m T rs st strs Y) 20 = 17"
    "hdr (fdt_image m T rs st strs Y) 24 = 2" "hdr (fdt_image m T rs st strs Y) 32 = int (length strs)"
    "hdr (fdt_image m T rs st strs Y) 36 = int (length st)"
  using assms by (auto simp: fdt_image_def header_reads_10 fits_def u32_id)

lemma image_40: "40 \<le> length (fdt_image m T rs st strs Y)"
  by (simp add: length_image)

lemmas image_reads = header_reads [OF image_40]

lemma image_ok: "fits T rs st strs Y \<Longrightarrow> blob_ok (fdt_image m T rs st strs Y)"
  by (simp add: blob_ok_def image_hdr length_image) (simp add: fits_def)

lemma image_struct_end: "fits T rs st strs Y \<Longrightarrow> struct_end (fdt_image m T rs st strs Y) = int (length st)"
  by (simp add: struct_end_def image_hdr) (simp add: fits_def)

text \<open>The part of the blob in front of the place \<open>A\<close> of the structure block.\<close>

abbreviation (input) front :: "int \<Rightarrow> int \<Rightarrow> 8 word list \<Rightarrow> 8 word list \<Rightarrow> 8 word list \<Rightarrow> 8 word list \<Rightarrow> 8 word list" where
  "front m T rs st strs A \<equiv> header [m, T, 48 + int (length rs), 48 + int (length rs) + int (length st), 48, 17, 2, 0,
        int (length strs), int (length st)] @ replicate 8 0 @ rs @ A"

lemma image_place:
  assumes f: "fits T rs st strs Y" and st: "st = A @ bs @ B"
  shows "\<exists>P Q. fdt_image m T rs st strs Y = P @ bs @ Q \<and> int (length P) = 48 + int (length rs) + int (length A)"
  by (rule exI [of _ "front m T rs st strs A"], rule exI [of _ "B @ strs @ Y"]) (simp add: fdt_image_def st)

lemma image_token:
  assumes f: "fits T rs st strs Y" and st: "st = A @ bs @ B" and t: "encodes t bs" and A: "int (length A) mod 4 = 0"
  shows "token_at (fdt_image m T rs st strs Y) (int (length A)) t"
  unfolding token_at_def
proof (intro conjI)
  show "\<exists>P bs Q. fdt_image m T rs st strs Y = P @ bs @ Q \<and> encodes t bs
      \<and> int (length P) = hdr (fdt_image m T rs st strs Y) 8 + int (length A)"
    using image_place [OF f st, of m] t by (metis image_hdr(3) [OF f])
  show "int (length A) + int (length (enc t)) \<le> struct_end (fdt_image m T rs st strs Y)"
    unfolding image_struct_end [OF f] using encodes_length [OF t] by (simp add: st)
qed (use A in simp_all)

lemma block_next_tag:
  assumes f: "fits T rs st strs Y" and st: "st = A @ bs @ B" "encodes t bs" "int (length A) mod 4 = 0" and t: "token_ok t"
  shows "fdt_next_tag (fdt_image m T rs st strs Y) (int (length A)) = Some (tag_of t, int (length A) + int (length (enc t)))"
  using next_tag_token [OF image_ok [OF f] _ image_token [OF f st] t] image_hdr(6) [OF f] by simp

lemma image_next_tag:
  assumes f: "fits T rs st strs Y" and st: "st = encs ts @ enc t @ encs us" and t: "token_ok t"
  shows "fdt_next_tag (fdt_image m T rs st strs Y) (int (length (encs ts)))
    = Some (tag_of t, int (length (encs ts)) + int (length (enc t)))"
  by (rule block_next_tag [OF f st encodes_enc encs_mod4 t])

text \<open>The loop of \<open>fdt_finish\<close>: every property gets an offset from the start of the strings.\<close>

fun rebase :: "int \<Rightarrow> token \<Rightarrow> token" where
  "rebase n (Prop off v) = Prop (s32 (s32 (u32 off) + n)) v"
| "rebase n t = t"

lemma length_rebase: "length (enc (rebase n t)) = length (enc t)"
  by (cases t) simp_all

lemma encs_rebase: "length (encs (map (rebase n) ts)) = length (encs ts)"
  by (induction ts) (simp_all add: length_rebase)

lemma fits_length: "fits T rs st strs Y \<Longrightarrow> length st' = length st \<Longrightarrow> fits T rs st' strs Y"
  by (simp add: fits_def)

lemma image_write32:
  assumes "fits T rs st strs Y" "st = A @ B @ C" "length B = 4" "p = 48 + int (length rs) + int (length A)"
  shows "wr32 (fdt_image m T rs st strs Y) p v = Some (fdt_image m T rs (A @ cpu_to_fdt32 v @ C) strs Y)"
proof -
  let ?H = "header [m, T, 48 + int (length rs), 48 + int (length rs) + int (length st), 48, 17, 2, 0,
        int (length strs), int (length st)] @ replicate 8 0 @ rs @ A"
  have "wr_bytes (?H @ B @ (C @ strs @ Y)) p (cpu_to_fdt32 v) = Some (?H @ cpu_to_fdt32 v @ (C @ strs @ Y))"
    using assms by (intro wr_bytes_append) simp_all
  then show ?thesis using assms by (simp add: wr32_def fdt_image_def)
qed

lemma finish_property:
  assumes f: "fits T rs st strs Y" and st: "st = A @ enc (Prop off v) @ B" and A: "int (length A) mod 4 = 0"
  shows "fdt32_ld (fdt_image m T rs st strs Y) (48 + int (length rs) + int (length A) + 8) = Some (u32 off)"
    "wr32 (fdt_image m T rs st strs Y) (48 + int (length rs) + int (length A) + 8) (s32 (s32 (u32 off) + n))
     = Some (fdt_image m T rs (A @ enc (rebase n (Prop off v)) @ B) strs Y)"
proof -
  let ?I = "fdt_image m T rs st strs Y"
  obtain P Q where PQ: "?I = P @ enc (Prop off v) @ Q" "int (length P) = 48 + int (length rs) + int (length A)"
    using image_place [OF f st, of m] by blast
  have "inside ?I (48 + int (length rs) + int (length A) + 8) 4"
    by (simp add: inside_def length_image st)
  then show "fdt32_ld ?I (48 + int (length rs) + int (length A) + 8) = Some (u32 off)"
    using token_words(3) [OF PQ encodes_enc refl] ld32_inside by simp
  have "st = (A @ cpu_to_fdt32 FDT_PROP @ cpu_to_fdt32 (int (length v))) @ cpu_to_fdt32 off @ (pad4 v @ B)"
    using st by simp
  from image_write32 [OF f this, of "48 + int (length rs) + int (length A) + 8" m "s32 (s32 (u32 off) + n)"]
  show "wr32 ?I (48 + int (length rs) + int (length A) + 8) (s32 (s32 (u32 off) + n))
     = Some (fdt_image m T rs (A @ enc (rebase n (Prop off v)) @ B) strs Y)" by simp
qed

lemma finish_n_image:
  assumes n: "n = int (length strs)"
  shows "fits T rs (encs (map (rebase n) ts) @ encs us @ enc Fin) strs Y \<Longrightarrow> list_all token_ok us \<Longrightarrow> Fin \<notin> set us \<Longrightarrow>
    length us < fuel \<Longrightarrow>
    finish_n fuel (fdt_image m T rs (encs (map (rebase n) ts) @ encs us @ enc Fin) strs Y) (int (length (encs ts)))
    = Some (int (length (encs ts)) + int (length (encs us)) + 4,
        fdt_image m T rs (encs (map (rebase n) (ts @ us)) @ enc Fin) strs Y)"
proof (induction us arbitrary: ts fuel)
  case Nil
  obtain k where k: "fuel = Suc k" using Nil.prems(4) by (cases fuel) auto
  have "fdt_next_tag (fdt_image m T rs (encs (map (rebase n) ts) @ encs [] @ enc Fin) strs Y) (int (length (encs ts)))
      = Some (FDT_END, int (length (encs ts)) + 4)"
    using image_next_tag [OF Nil.prems(1), of "map (rebase n) ts" Fin "[]" m] by (simp add: encs_rebase)
  then show ?case using k by simp
next
  case (Cons t us)
  let ?st = "encs (map (rebase n) ts) @ encs (t # us) @ enc Fin"
  let ?I = "fdt_image m T rs ?st strs Y"
  let ?A = "encs (map (rebase n) ts)"
  obtain k where k: "fuel = Suc k" "length us < k" using Cons.prems(4) by (cases fuel) auto
  have st: "?st = ?A @ enc t @ encs (us @ [Fin])" by simp
  have tag: "fdt_next_tag ?I (int (length (encs ts))) = Some (tag_of t, int (length (encs (ts @ [t]))))"
    using image_next_tag [OF Cons.prems(1) st, of m] Cons.prems(2) by (simp add: encs_rebase)
  have not_end: "tag_of t \<noteq> FDT_END" using Cons.prems(3) by (cases t) auto
  let ?st' = "?A @ enc (rebase n t) @ encs us @ enc Fin"
  have st': "?st' = encs (map (rebase n) (ts @ [t])) @ encs us @ enc Fin" by simp
  have f': "fits T rs ?st' strs Y"
    by (rule fits_length [OF Cons.prems(1)]) (simp add: length_rebase)
  have rest: "finish_n k (fdt_image m T rs ?st' strs Y) (int (length (encs (ts @ [t]))))
      = Some (int (length (encs (ts @ [t]))) + int (length (encs us)) + 4,
          fdt_image m T rs (encs (map (rebase n) ((ts @ [t]) @ us)) @ enc Fin) strs Y)"
    unfolding st' using Cons.prems(2,3) f' k(2) unfolding st' by (intro Cons.IH) auto
  show ?case
  proof (cases "\<exists>off v. t = Prop off v")
    case False
    then have "?st' = ?st" "tag_of t \<noteq> FDT_PROP" by (cases t; simp)+
    then show ?thesis using k(1) tag not_end rest by simp
  next
    case True
    then obtain off v where t: "t = Prop off v" by blast
    have p: "fdt_offset_ptr' ?I (int (length (encs ts))) = Some (48 + int (length rs) + int (length ?A))"
      "fdt_size_dt_strings ?I = Some n"
      using image_reads(3,9) [of m T rs ?st strs Y] image_hdr(3,8) [OF Cons.prems(1), of m] n
      by (simp_all add: fdt_offset_ptr'_def encs_rebase)
    show ?thesis using k(1) tag not_end rest p
        finish_property(1) [OF Cons.prems(1), of ?A off v "encs (us @ [Fin])" m]
        finish_property(2) [OF Cons.prems(1), of ?A off v "encs (us @ [Fin])" m n] encs_mod4 [of "map (rebase n) ts"] t
      by (simp add: add.assoc)
  qed
qed

lemma image_writes:
  "fdt_set_magic (fdt_image m T rs st strs Y) v = Some (fdt_image v T rs st strs Y)"
  "fdt_set_totalsize (fdt_image m T rs st strs Y) v = Some (fdt_image m v rs st strs Y)"
  by (simp_all add: fdt_image_def header_writes)

lemma encs_length: "4 * length ts \<le> length (encs ts)"
proof (induction ts)
  case (Cons t ts)
  have "4 \<le> length (enc t)" by (cases t) auto
  with Cons show ?case by simp
qed simp

text \<open>Moving the strings down to the structure block.\<close>

lemma move_strings:
  assumes f: "sw_fits T os rs st strs"
  shows "\<exists>Y. memmove (sw_image T os rs st strs) (48 + int (length rs) + int (length st)) (int T - int (length strs)) (int (length strs))
       = Some (header [FDT_SW_MAGIC, int T, 48 + int (length rs), os, 48, 17, 2, 0, int (length strs), int (length st)]
           @ replicate 8 0 @ rs @ st @ strs @ Y)
     \<and> int (length Y) = int T - (48 + int (length rs) + int (length st) + int (length strs))"
proof -
  let ?H = "header [FDT_SW_MAGIC, int T, 48 + int (length rs), os, 48, 17, 2, 0, int (length strs), int (length st)]
       @ replicate 8 0 @ rs @ st"
  let ?G = "replicate (T - (48 + length rs + length st + length strs)) 0 @ strs"
  have b: "48 + length rs + length st + length strs \<le> T" using f by (simp add: sw_fits_def)
  obtain P where P: "sw_image T os rs st strs = P @ strs" "int (length P) = int T - int (length strs)"
    using image_strings [OF f] by blast
  have r: "rd_bytes (sw_image T os rs st strs) (int T - int (length strs)) (int (length strs)) = Some strs"
    using rd_bytes_append [of _ P _ strs "[]"] P by simp
  have I: "sw_image T os rs st strs = ?H @ take (length strs) ?G @ drop (length strs) ?G"
    by (simp only: sw_image_def append_take_drop_id append.assoc)
  have "wr_bytes (sw_image T os rs st strs) (48 + int (length rs) + int (length st)) strs = Some (?H @ strs @ drop (length strs) ?G)"
    unfolding I using b by (intro wr_bytes_append) auto
  moreover have "int (length (drop (length strs) ?G)) = int T - (48 + int (length rs) + int (length st) + int (length strs))"
    using b by simp
  ultimately show ?thesis using r by (auto simp: memmove_def)
qed

lemma finish_image:
  assumes f: "sw_fits T (int T) rs (encs ts) strs" and ts: "list_all token_ok ts" "Fin \<notin> set ts"
    and r: "fdt_finish (sw_image T (int T) rs (encs ts) strs) = Some (0, fdt')"
  shows "\<exists>Y T'. fdt' = fdt_image FDT_MAGIC T' rs (encs (map (rebase (int (length strs))) ts) @ enc Fin) strs Y
     \<and> fits T' rs (encs (map (rebase (int (length strs))) ts) @ enc Fin) strs Y"
proof -
  let ?n = "int (length strs)"
  let ?st = "encs ts @ enc Fin"
  note g = grab_image [OF f, of 4]
  have room: "48 + int (length rs) + int (length (encs ts)) + 4 + ?n \<le> int T"
    using r probe_image(3) [OF f] g by (auto simp: fdt_finish_def probed_ok split: if_splits)
  have f': "sw_fits T (int T) rs ?st strs" using f room by (simp add: sw_fits_def)
  have w: "wr32 (sw_image T (int T) rs (encs ts @ replicate 4 0) strs) (48 + int (length rs) + int (length (encs ts))) FDT_END
      = Some (sw_image T (int T) rs ?st strs)"
    using write32_image [of "encs ts @ replicate 4 0" "encs ts" "replicate 4 0" "[]"] by simp
  note reads = sw_image_reads [OF f'] sw_image_hdr [OF f']
  let ?new = "48 + int (length rs) + int (length ?st)"
  have b: "?new + ?n \<le> int T" "int T \<le> INT_MAX" using f' by (auto simp: sw_fits_def)
  have s: "s32 (int T - ?n) = int T - ?n" "s32 ?new = ?new" "u32 (?new + ?n) = ?new + ?n"
    using b by (auto intro!: s32_id u32_id simp: is_int_def)
  obtain Y where m: "memmove (sw_image T (int T) rs ?st strs) ?new (int T - ?n) ?n
       = Some (header [FDT_SW_MAGIC, int T, 48 + int (length rs), int T, 48, 17, 2, 0, ?n, int (length ?st)]
           @ replicate 8 0 @ rs @ ?st @ strs @ Y)"
    and Y: "int (length Y) = int T - (?new + ?n)"
    using move_strings [OF f'] by (auto simp: add.assoc)
  let ?X = "header [FDT_SW_MAGIC, int T, 48 + int (length rs), int T, 48, 17, 2, 0, ?n, int (length ?st)]
           @ replicate 8 0 @ rs @ ?st @ strs @ Y"
  have so: "fdt_set_off_dt_strings ?X ?new = Some (fdt_image FDT_SW_MAGIC (int T) rs ?st strs Y)"
    by (simp add: header_writes fdt_image_def add.assoc)
  have fi: "fits (int T) rs ?st strs Y" using b Y by (simp add: fits_def)
  have fi0: "fits (int T) rs (encs (map (rebase ?n) []) @ encs ts @ enc Fin) strs Y" using fi by simp
  have fuel: "length ts < blob_fuel (fdt_image FDT_SW_MAGIC (int T) rs ?st strs Y)"
    using encs_length [of ts] by (simp add: blob_fuel_def length_image)
  have loop: "finish_n (blob_fuel (fdt_image FDT_SW_MAGIC (int T) rs ?st strs Y)) (fdt_image FDT_SW_MAGIC (int T) rs ?st strs Y) 0
      = Some (int (length (encs ts)) + 4, fdt_image FDT_SW_MAGIC (int T) rs (encs (map (rebase ?n) ts) @ enc Fin) strs Y)"
    using finish_n_image [OF refl fi0 ts fuel, of FDT_SW_MAGIC] by simp
  have fe: "fits (int T) rs (encs (map (rebase ?n) ts) @ enc Fin) strs Y"
    by (rule fits_length [OF fi]) (simp add: encs_rebase)
  have "fdt' = fdt_image FDT_MAGIC (?new + ?n) rs (encs (map (rebase ?n) ts) @ enc Fin) strs Y"
    using r probe_image(3) [OF f] g room w reads s m so loop
      image_reads(9) [of FDT_SW_MAGIC "int T" rs "encs (map (rebase ?n) ts) @ enc Fin" strs Y] image_hdr(8) [OF fe, of FDT_SW_MAGIC]
    by (simp add: fdt_finish_def probed_ok Let_def image_writes add.assoc)
  moreover have "fits (?new + ?n) rs (encs (map (rebase ?n) ts) @ enc Fin) strs Y"
    using b by (simp add: fits_def encs_rebase)
  ultimately show ?thesis by blast
qed

section \<open>Reading back\<close>

text \<open>
  The blob reads back as a sequence of calls of the writer: at each offset the tag, the name and
  the value are those of the call, and the end tag stands after the last.
\<close>

fun reads_back :: "blob \<Rightarrow> int \<Rightarrow> call list \<Rightarrow> bool" where
  "reads_back fdt off [] \<longleftrightarrow> fdt_next_tag fdt off = Some (FDT_END, off + 4)"
| "reads_back fdt off (Begin_node nm # cs) \<longleftrightarrow>
     (\<exists>nxt p. fdt_next_tag fdt off = Some (FDT_BEGIN_NODE, nxt)
        \<and> fdt_get_name fdt off = Some (Some p, int (length nm))
        \<and> bytes_at fdt p (int (length nm)) = nm \<and> reads_back fdt nxt cs)"
| "reads_back fdt off (Property nm v # cs) \<longleftrightarrow>
     (\<exists>nxt d x. fdt_next_tag fdt off = Some (FDT_PROP, nxt)
        \<and> fdt_getprop_by_offset fdt off = Some (Some d, Some x, int (length v))
        \<and> bytes_at fdt d (int (length v)) = v \<and> c_string_at fdt x = Some nm \<and> reads_back fdt nxt cs)"
| "reads_back fdt off (End_node # cs) \<longleftrightarrow>
     (\<exists>nxt. fdt_next_tag fdt off = Some (FDT_END_NODE, nxt) \<and> reads_back fdt nxt cs)"

lemma image_ro_probe:
  assumes "fits T rs st strs Y"
  shows "fdt_ro_probe' (fdt_image FDT_MAGIC T rs st strs Y) = Some 0"
  using image_reads [of FDT_MAGIC T rs st strs Y] image_hdr [OF assms, of FDT_MAGIC]
  by (simp add: fdt_ro_probe'_def u32_def)

lemma image_check_header:
  assumes "fits T rs st strs Y"
  shows "fdt_check_header (fdt_image FDT_MAGIC T rs st strs Y) = Some 0"
  using image_reads [of FDT_MAGIC T rs st strs Y] image_hdr [OF assms, of FDT_MAGIC] assms
  by (simp add: fdt_check_header_def check_blocks_def fdt_header_size'_def check_off'_def check_block'_def u32_def fits_def)

lemma image_string:
  assumes f: "fits T rs st strs Y" and s: "strs = A @ nm @ 0 # C" "0 \<notin> set nm"
  defines "p \<equiv> 48 + int (length rs) + int (length st) + int (length A)"
  shows "fdt_get_string (fdt_image FDT_MAGIC T rs st strs Y) (int (length A)) = Some (Some p, int (length nm))"
    "c_string_at (fdt_image FDT_MAGIC T rs st strs Y) p = Some nm"
proof -
  let ?I = "fdt_image FDT_MAGIC T rs st strs Y"
  note reads = image_reads [of FDT_MAGIC T rs st strs Y] image_hdr [OF f, of FDT_MAGIC]
  have b: "p + int (length nm) + 1 + int (length C) \<le> T" "T \<le> INT_MAX"
    using f s(1) by (simp_all add: fits_def p_def)
  have I: "\<exists>P. ?I = P @ (nm @ [0]) @ (C @ Y) \<and> int (length P) = p"
    by (rule exI [of _ "header [FDT_MAGIC, T, 48 + int (length rs), 48 + int (length rs) + int (length st), 48, 17, 2, 0,
        int (length strs), int (length st)] @ replicate 8 0 @ rs @ st @ A"]) (simp add: fdt_image_def s(1) p_def)
  then obtain P where P: "?I = P @ (nm @ [0]) @ (C @ Y)" "int (length P) = p" by blast
  have at: "bytes_at ?I p (int (length nm) + 1) = nm @ [0]" "inside ?I p (int (length nm) + 1)"
    using bytes_at_append [of P "nm @ [0]" "C @ Y"] inside_append [of P "nm @ [0]" "C @ Y"] P by (simp_all add: add.commute)
  have t: "terminated ?I p (int (length nm))" by (rule terminated_name [OF at s(2)])
  have u: "u32 (int (length A) + (48 + int (length rs) + int (length st))) = p"
    using b by (subst u32_id) (auto simp: p_def)
  have l: "u32 (int (length strs) - int (length A)) = int (length nm) + 1 + int (length C)"
    using b s(1) by (subst u32_id) (auto simp: p_def)
  let ?lim = "if u32 (int (length strs) - int (length A)) < T - p then u32 (int (length strs) - int (length A)) else T - p"
  have lim: "int (length nm) < ?lim" using b l by auto
  have limit: "string_limit ?I (int (length A)) p = Some (Inr ?lim)"
  proof -
    have "int (length A) < int (length strs)" "u32 FDT_MAGIC = FDT_MAGIC" "p < T"
      using s(1) b by (simp_all add: u32_def)
    then show ?thesis using reads by (simp add: string_limit_def Let_def)
  qed
  have "s32 (int (length nm)) = int (length nm)" using b by (intro s32_id) (auto simp: is_int_def p_def)
  then show "fdt_get_string ?I (int (length A)) = Some (Some p, int (length nm))"
    using reads u image_ro_probe [OF f] limit mem_chr_stops [OF t lim]
    by (simp add: fdt_get_string_def Let_def)
  have "bytes_at ?I p (int (length nm)) = nm"
    using bytes_at_append [of P nm "[0] @ C @ Y"] P by simp
  then show "c_string_at ?I p = Some nm"
    using str_len_terminated [OF t] terminated_inside(1) [OF t] by (simp add: c_string_at_def rd_bytes_def)
qed

lemma block_name:
  assumes f: "fits T rs st strs Y" and st: "st = A @ bs @ B" "encodes (Node_begin nm) bs" "int (length A) mod 4 = 0"
    and nm: "0 \<notin> set nm"
  shows "fdt_get_name (fdt_image FDT_MAGIC T rs st strs Y) (int (length A))
      = Some (Some (48 + int (length rs) + int (length A) + 4), int (length nm))
    \<and> bytes_at (fdt_image FDT_MAGIC T rs st strs Y) (48 + int (length rs) + int (length A) + 4) (int (length nm)) = nm"
proof -
  let ?I = "fdt_image FDT_MAGIC T rs st strs Y" and ?o = "int (length A)"
  let ?p = "48 + int (length rs) + ?o + 4"
  note reads = image_reads [of FDT_MAGIC T rs st strs Y] image_hdr [OF f, of FDT_MAGIC]
  obtain P Q where PQ: "?I = P @ bs @ Q" "int (length P) = 48 + int (length rs) + ?o"
    using image_place [OF f st(1), of FDT_MAGIC] by blast
  have at: "bytes_at ?I ?p (int (length nm) + 1) = nm @ [0]" using token_words(5) [OF PQ st(2) refl] .
  have "?p + (int (length nm) + 1) \<le> 48 + int (length rs) + int (length st)"
    using length_enc(1) [of nm] TAGALIGN_bounds(1) [of "int (length nm) + 1"] encodes_length [OF st(2)]
    unfolding st(1) length_append by simp
  then have ins: "inside ?I ?p (int (length nm) + 1)" by (simp add: inside_def length_image)
  have t: "terminated ?I ?p (int (length nm))" by (rule terminated_name [OF at ins nm])
  have "?p + int (length nm) < 2 ^ 31" using f \<open>?p + _ \<le> _\<close> by (simp add: fits_def)
  then have s: "s32 (int (length nm)) = int (length nm)" by (intro s32_id) (auto simp: is_int_def)
  have c: "fdt_check_node_offset' ?I ?o = Some (?o + int (length (enc (Node_begin nm))))"
    using block_next_tag [OF f st, of FDT_MAGIC] nm st(3)
    by (simp add: fdt_check_node_offset'_def check_offset_def)
  have "fdt_get_name ?I ?o = Some (Some ?p, int (length nm))"
    using reads image_ro_probe [OF f] c str_len_terminated [OF t] s
    by (simp add: fdt_get_name_def Let_def fdt_offset_ptr'_def)
  moreover have "bytes_at ?I ?p (int (length nm)) = nm"
  proof -
    obtain z where "bs = core (Node_begin nm) @ z" using st(2) by (auto simp: encodes_def)
    then have "?I = (P @ cpu_to_fdt32 FDT_BEGIN_NODE) @ nm @ ([0] @ z @ Q)" using PQ(1) by simp
    moreover have "?p = int (length (P @ cpu_to_fdt32 FDT_BEGIN_NODE))" using PQ(2) by simp
    ultimately show ?thesis using bytes_at_append [of "P @ cpu_to_fdt32 FDT_BEGIN_NODE" nm] by metis
  qed
  ultimately show ?thesis by blast
qed

text \<open>The header of a property of the structure block.\<close>

lemma block_property:
  assumes f: "fits T rs st strs Y" and st: "st = A @ bs @ B" "encodes (Prop noff v) bs" "int (length A) mod 4 = 0"
    and v: "int (length v) < INT_MAX" and o: "0 \<le> noff" "noff \<le> INT_MAX"
  defines "I \<equiv> fdt_image FDT_MAGIC T rs st strs Y" and "p \<equiv> 48 + int (length rs) + int (length A)"
  shows "fdt32_ld I (p + 4) = Some (int (length v))" "fdt32_ld I (p + 8) = Some noff"
    "s32 (int (length v)) = int (length v)" "s32 noff = noff" "bytes_at I (p + 12) (int (length v)) = v"
    "fdt_check_prop_offset' I (int (length A)) = Some (int (length A) + int (length (enc (Prop noff v))))"
proof -
  obtain P Q where PQ: "I = P @ bs @ Q" "int (length P) = p"
    using image_place [OF f st(1), of FDT_MAGIC] by (auto simp: I_def p_def)
  note w = token_words [OF PQ st(2)]
  have "p + 12 \<le> 48 + int (length rs) + int (length st)"
    unfolding st(1) length_append using length_enc(3) [of noff v] TAGALIGN_bounds(1) [of "int (length v)"] encodes_length [OF st(2)]
    by (simp add: p_def)
  then have ins: "inside I (p + 4) 4" "inside I (p + 8) 4" by (simp_all add: inside_def length_image I_def p_def)
  show "fdt32_ld I (p + 4) = Some (int (length v))" "fdt32_ld I (p + 8) = Some noff"
    using ld32_inside [OF ins(1)] ld32_inside [OF ins(2)] w(2) [OF refl] w(3) [OF refl] v o by (simp_all add: u32_id)
  show "s32 (int (length v)) = int (length v)" "s32 noff = noff"
    using v o by (auto intro!: s32_id simp: is_int_def)
  show "bytes_at I (p + 12) (int (length v)) = v" by (rule w(4) [OF refl])
  show "fdt_check_prop_offset' I (int (length A)) = Some (int (length A) + int (length (enc (Prop noff v))))"
    using block_next_tag [OF f st, of FDT_MAGIC] v st(3) I_def
    by (simp add: fdt_check_prop_offset'_def check_offset_def del: enc.simps)
qed

lemma image_property:
  assumes f: "fits T rs st strs Y" and st: "st = encs ts @ enc (Prop (int (length A)) v) @ encs us"
    and s: "strs = A @ nm @ 0 # C" "0 \<notin> set nm" and v: "int (length v) < INT_MAX"
  shows "\<exists>d x. fdt_getprop_by_offset (fdt_image FDT_MAGIC T rs st strs Y) (int (length (encs ts)))
      = Some (Some d, Some x, int (length v))
    \<and> bytes_at (fdt_image FDT_MAGIC T rs st strs Y) d (int (length v)) = v
    \<and> c_string_at (fdt_image FDT_MAGIC T rs st strs Y) x = Some nm"
proof -
  let ?I = "fdt_image FDT_MAGIC T rs st strs Y" and ?o = "int (length (encs ts))"
  let ?p = "48 + int (length rs) + ?o"
  let ?x = "48 + int (length rs) + int (length st) + int (length A)"
  note reads = image_reads [of FDT_MAGIC T rs st strs Y] image_hdr [OF f, of FDT_MAGIC]
  have a: "int (length A) \<le> INT_MAX" using f s(1) by (simp add: fits_def)
  note b = block_property [OF f st encodes_enc encs_mod4 v _ a]
  have "fdt_getprop_by_offset ?I ?o = Some (Some (?p + 12), Some ?x, int (length v))"
    using reads b(1-4,6) image_string(1) [OF f s]
    by (simp add: fdt_getprop_by_offset_def fdt_get_property_by_offset'_def fdt_offset_ptr'_def prop_data_def)
  then show ?thesis using b(5) image_string(2) [OF f s] by auto
qed

text \<open>A token of the writer, after \<open>fdt_finish\<close> has moved the offset of its name.\<close>

lemma rebase_name:
  assumes "name_at strs off nm" "int (length strs) \<le> INT_MAX"
  shows "\<exists>A C. strs = A @ nm @ 0 # C \<and> rebase (int (length strs)) (Prop off v) = Prop (int (length A)) v"
proof -
  obtain A C where n: "strs = A @ nm @ 0 # C" "off = - int (length (nm @ 0 # C))" using assms(1) by (auto simp: name_at_def)
  have "off < 0" "- (2 ^ 31) \<le> off" using n assms(2) by simp_all
  then have "s32 (u32 off) = off" using s32_cong [of off "u32 off"] by (simp add: is_int_def u32_def)
  moreover have "s32 (off + int (length strs)) = int (length A)"
    using n assms(2) by (subst s32_id) (auto simp: is_int_def)
  ultimately show ?thesis using n by auto
qed

lemma reads_back_image:
  assumes "list_all2 (token_of strs) cs us" "list_all call_ok cs"
    "fits T rs (encs (map (rebase (int (length strs))) (ts @ us)) @ enc Fin) strs Y"
  shows "reads_back (fdt_image FDT_MAGIC T rs (encs (map (rebase (int (length strs))) (ts @ us)) @ enc Fin) strs Y)
     (int (length (encs ts))) cs"
  using assms
proof (induction cs us arbitrary: ts rule: list_all2_induct)
  case Nil
  let ?b = "map (rebase (int (length strs)))"
  have "encs (?b (ts @ [])) @ enc Fin = encs (?b ts) @ enc Fin @ encs []" by simp
  from image_next_tag [OF Nil(2) this, of FDT_MAGIC] show ?case by (simp add: encs_rebase)
next
  case (Cons c cs t us)
  let ?r = "rebase (int (length strs))"
  let ?st = "encs (map ?r (ts @ t # us)) @ enc Fin"
  let ?I = "fdt_image FDT_MAGIC T rs ?st strs Y"
  have st: "?st = encs (map ?r ts) @ enc (?r t) @ encs (map ?r us @ [Fin])" by simp
  have o: "int (length (encs (map ?r ts))) = int (length (encs ts))" by (simp add: encs_rebase)
  have f: "fits T rs ?st strs Y" using Cons.prems(2) .
  have rest: "reads_back ?I (int (length (encs (ts @ [t])))) cs"
    using Cons.IH [of "ts @ [t]"] Cons.prems by simp
  have next_tag: "fdt_next_tag ?I (int (length (encs ts))) = Some (tag_of t, int (length (encs (ts @ [t]))))" if "token_ok (?r t)"
    using image_next_tag [OF f st that, of FDT_MAGIC] by (cases t) (simp_all add: encs_rebase)
  show ?case
  proof (cases c)
    case (Begin_node nm)
    then have t: "t = Node_begin nm" "0 \<notin> set nm" using Cons.hyps(1) Cons.prems(1) by auto
    have st': "?st = encs (map ?r ts) @ enc (Node_begin nm) @ encs (map ?r us @ [Fin])" using st t(1) by simp
    show ?thesis using block_name [OF f st' encodes_enc encs_mod4 t(2)] next_tag rest t Begin_node unfolding o by auto
  next
    case (Property nm v)
    then obtain off where t: "t = Prop off v" "name_at strs off nm" "0 \<notin> set nm" "int (length v) < INT_MAX"
      using Cons.hyps(1) Cons.prems(1) by auto
    have "int (length strs) \<le> INT_MAX" using f by (simp add: fits_def)
    then obtain A C where A: "strs = A @ nm @ 0 # C" "?r t = Prop (int (length A)) v"
      using rebase_name [OF t(2)] t(1) by blast
    have st': "?st = encs (map ?r ts) @ enc (Prop (int (length A)) v) @ encs (map ?r us @ [Fin])" using st A(2) by simp
    show ?thesis using image_property [OF f st' A(1) t(3,4)] next_tag rest t(1,4) A(2) Property unfolding o by auto
  next
    case End_node
    then have t: "t = Node_end" using Cons.hyps(1) by simp
    then show ?thesis using next_tag rest End_node by simp
  qed
qed

end
