(* ===== verification/Fdt_Properties.thy ===== *)
theory Fdt_Properties
  imports Fdt_Paths Fdt_Roundtrip
begin

text \<open>
  The properties of \<open>libfdt\<close>: the sequential writer and the reader are inverse to each other, the
  queries on a checked blob return, and the cases in which the code does not keep that promise.
\<close>

section \<open>A client of the writer\<close>

text \<open>Create a tree in a buffer, add reservation entries and nodes, and finish it; the first error
  ends the run.\<close>

fun add_entries :: "(int \<times> int) list \<Rightarrow> blob \<Rightarrow> (int \<times> blob) option" where
  "add_entries [] fdt = Some (0, fdt)"
| "add_entries ((a, n) # es) fdt = do {
     (err, fdt) \<leftarrow> fdt_add_reservemap_entry fdt a n;
     if err \<noteq> 0 then Some (err, fdt) else add_entries es fdt }"

definition write_tree :: "blob \<Rightarrow> (int \<times> int) list \<Rightarrow> call list \<Rightarrow> (int \<times> blob) option" where
  "write_tree buf es cs = do {
     (err, fdt) \<leftarrow> fdt_create buf (int (length buf));
     if err \<noteq> 0 then Some (err, fdt)
     else do {
       (err, fdt) \<leftarrow> add_entries es fdt;
       if err \<noteq> 0 then Some (err, fdt)
       else do {
         (err, fdt) \<leftarrow> fdt_finish_reservemap fdt;
         if err \<noteq> 0 then Some (err, fdt)
         else do {
           (err, fdt) \<leftarrow> run_calls cs fdt;
           if err \<noteq> 0 then Some (err, fdt) else fdt_finish fdt } } } }"

definition enc_entry :: "int \<times> int \<Rightarrow> 8 word list" where
  "enc_entry e = cpu_to_fdt64 (fst e) @ cpu_to_fdt64 (snd e)"

definition enc_entries :: "(int \<times> int) list \<Rightarrow> 8 word list" where
  "enc_entries es = concat (map enc_entry es)"

lemma length_enc_entries: "length (enc_entries es) = 16 * length es"
  by (induction es) (simp_all add: enc_entries_def enc_entry_def)

lemma add_entries_image:
  "sw_fits T 0 rs [] [] \<Longrightarrow> add_entries es (sw_image T 0 rs [] []) = Some (0, fdt) \<Longrightarrow>
    fdt = sw_image T 0 (rs @ enc_entries es) [] [] \<and> sw_fits T 0 (rs @ enc_entries es) [] []"
proof (induction es arbitrary: rs)
  case Nil
  then show ?case by (simp add: enc_entries_def)
next
  case (Cons e es)
  obtain a n where e: "e = (a, n)" by fastforce
  have room: "48 + length rs + 16 \<le> T"
    and r: "add_entries es (sw_image T 0 (rs @ enc_entry e) [] []) = Some (0, fdt)"
    using Cons.prems(2) rsv_entry_image [OF Cons.prems(1), of a n] e
    by (auto simp: enc_entry_def split: if_splits)
  have "sw_fits T 0 (rs @ enc_entry e) [] []" using Cons.prems(1) room by (simp add: sw_fits_def enc_entry_def)
  from Cons.IH [OF this r] show ?case by (simp add: enc_entries_def)
qed

lemma be_value_append: "be_value (xs @ ys) = be_value xs * 256 ^ length ys + be_value ys"
proof (induction xs)
  case (Cons x xs)
  then show ?case by (simp add: be_value_Cons power_add algebra_simps)
qed (simp add: be_value.simps)

lemma be_value_64: "be_value (cpu_to_fdt64 v) = u64 v"
proof -
  have "be_value (cpu_to_fdt64 v) = u32 (v div 2 ^ 32) * 256 ^ 4 + u32 v"
    by (simp add: cpu_to_fdt64_def be_value_append)
  also have "\<dots> = 2 ^ 32 * (v div 2 ^ 32 mod 2 ^ 32) + v mod 2 ^ 32" by (simp add: u32_def)
  also have "\<dots> = v mod (2 ^ 32 * 2 ^ 32)" by (rule zmod_zmult2_eq [symmetric]) simp
  finally show ?thesis by (simp add: u64_def)
qed

lemma image_entry:
  assumes f: "fits T rs st strs Y" and rs: "rs = enc_entries (es @ (a, n) # es') @ tl_bytes"
  shows "fdt_get_mem_rsv (fdt_image FDT_MAGIC T rs st strs Y) (int (length es)) = Some (0, Some (u64 a, u64 n))"
proof -
  let ?I = "fdt_image FDT_MAGIC T rs st strs Y" and ?i = "int (length es)"
  note reads = image_reads [of FDT_MAGIC T rs st strs Y] image_hdr [OF f, of FDT_MAGIC]
  have len: "int (length rs) = 16 * ?i + 16 + 16 * int (length es') + int (length tl_bytes)"
    by (simp add: rs length_enc_entries)
  have b: "48 + 16 * ?i + 16 \<le> T" "T \<le> INT_MAX" using f len by (simp_all add: fits_def)
  have s: "s32 (?i * 16) = ?i * 16" "s32 (48 + ?i * 16) = 48 + ?i * 16" "u32 (48 + ?i * 16) = 48 + ?i * 16"
    "u64 (48 + ?i * 16) = 48 + ?i * 16" "u64 (T - 16) = T - 16"
    using b by (auto intro!: s32_id u32_id u64_id simp: is_int_def)
  have p: "fdt_mem_rsv ?I ?i = Some (Some (48 + 16 * ?i))"
    using reads s b by (simp add: fdt_mem_rsv_def Let_def)
  let ?H = "header [FDT_MAGIC, T, 48 + int (length rs), 48 + int (length rs) + int (length st), 48, 17, 2, 0,
        int (length strs), int (length st)] @ replicate 8 0 @ enc_entries es"
  let ?R = "enc_entries es' @ tl_bytes @ st @ strs @ Y"
  have I: "?I = ?H @ cpu_to_fdt64 a @ cpu_to_fdt64 n @ ?R"
    by (simp add: fdt_image_def rs enc_entries_def enc_entry_def)
  have I2: "?I = (?H @ cpu_to_fdt64 a) @ cpu_to_fdt64 n @ ?R" by (simp only: I append.assoc)
  have "rd_bytes ?I (48 + 16 * ?i) 8 = Some (cpu_to_fdt64 a)"
    unfolding I by (rule rd_bytes_append) (simp_all add: length_enc_entries)
  moreover have "rd_bytes ?I (48 + 16 * ?i + 8) 8 = Some (cpu_to_fdt64 n)"
    unfolding I2 by (rule rd_bytes_append) (simp_all add: length_enc_entries)
  ultimately show ?thesis
    using p image_ro_probe [OF f] by (simp add: fdt_get_mem_rsv_def fdt64_ld_def be_value_64)
qed

text \<open>The blob that a successful run leaves.\<close>

lemma token_of_ok: "token_of strs c t \<Longrightarrow> call_ok c \<Longrightarrow> token_ok t \<and> t \<noteq> Fin"
  by (cases c) auto

lemma write_tree_image:
  assumes cs: "list_all call_ok cs" and buf: "int (length buf) \<le> INT_MAX"
    and r: "write_tree buf es cs = Some (0, fdt)"
  shows "\<exists>T rs ts strs Y. fdt = fdt_image FDT_MAGIC T rs (encs (map (rebase (int (length strs))) ts) @ enc Fin) strs Y
    \<and> fits T rs (encs (map (rebase (int (length strs))) ts) @ enc Fin) strs Y
    \<and> rs = enc_entries es @ cpu_to_fdt64 0 @ cpu_to_fdt64 0 \<and> list_all2 (token_of strs) cs ts"
proof -
  let ?T = "length buf"
  have big: "48 \<le> ?T"
  proof (rule ccontr)
    assume "\<not> 48 \<le> ?T"
    moreover have "u64 (int ?T) = int ?T" using buf by (intro u64_id) auto
    ultimately show False using r by (simp add: write_tree_def fdt_create_def FDT_ALIGN_def Let_def)
  qed
  have f0: "sw_fits ?T 0 [] [] []" using big buf by (simp add: sw_fits_def)
  obtain fdt1 where e: "add_entries es (sw_image ?T 0 [] [] []) = Some (0, fdt1)"
    and r1: "do { (err, fdt) \<leftarrow> fdt_finish_reservemap fdt1;
         if err \<noteq> 0 then Some (err, fdt)
         else do { (err, fdt) \<leftarrow> run_calls cs fdt; if err \<noteq> 0 then Some (err, fdt) else fdt_finish fdt } } = Some (0, fdt)"
    using r create_image [OF big buf] by (auto simp: write_tree_def split: if_splits)
  have f1: "fdt1 = sw_image ?T 0 (enc_entries es) [] []" "sw_fits ?T 0 (enc_entries es) [] []"
    using add_entries_image [OF f0 e] by simp_all
  let ?rs = "enc_entries es @ cpu_to_fdt64 0 @ cpu_to_fdt64 0"
  have room: "48 + length (enc_entries es) + 16 \<le> ?T"
    and r2: "do { (err, fdt) \<leftarrow> run_calls cs (sw_image ?T (int ?T) ?rs [] []);
         if err \<noteq> 0 then Some (err, fdt) else fdt_finish fdt } = Some (0, fdt)"
    using r1 finish_reservemap_image [OF f1(2)] f1(1) by (auto split: if_splits)
  have f2: "sw_fits ?T (int ?T) ?rs [] []" using room buf by (simp add: sw_fits_def)
  obtain fdt2 where c: "run_calls cs (sw_image ?T (int ?T) ?rs [] []) = Some (0, fdt2)" "fdt_finish fdt2 = Some (0, fdt)"
    using r2 by (auto split: if_splits)
  obtain ts strs where t: "fdt2 = sw_image ?T (int ?T) ?rs (encs ts) strs" "sw_fits ?T (int ?T) ?rs (encs ts) strs"
    "list_all2 (token_of strs) cs ts"
    using run_calls_image [OF f2 cs c(1)] by auto
  have "list_all token_ok ts \<and> Fin \<notin> set ts"
    using t(3) cs
  proof (induction rule: list_all2_induct)
    case (Cons c cs t ts)
    then show ?case using token_of_ok [of strs c t] by auto
  qed simp
  then obtain Y T' where "fdt = fdt_image FDT_MAGIC T' ?rs (encs (map (rebase (int (length strs))) ts) @ enc Fin) strs Y"
    "fits T' ?rs (encs (map (rebase (int (length strs))) ts) @ enc Fin) strs Y"
    using finish_image [OF t(2)] c(2) t(1) by blast
  with t(3) show ?thesis by blast
qed

text \<open>
  C2: whatever a client writes with the sequential functions reads back. When every call has
  returned 0, the header passes \<open>fdt_check_header\<close>, every reservation entry is returned by
  \<open>fdt_get_mem_rsv\<close>, and from offset 0 on the tags, names and values are those of the calls, in
  their order, up to the end tag.
\<close>
theorem sequential_write_reads_back:
  assumes "list_all call_ok cs" "int (length buf) \<le> INT_MAX" "write_tree buf es cs = Some (0, fdt)"
  shows "fdt_check_header fdt = Some 0 \<and> reads_back fdt 0 cs
    \<and> (\<forall>i < length es. fdt_get_mem_rsv fdt (int i) = Some (0, Some (u64 (fst (es ! i)), u64 (snd (es ! i)))))"
proof -
  obtain T rs ts strs Y where
    fdt: "fdt = fdt_image FDT_MAGIC T rs (encs (map (rebase (int (length strs))) ts) @ enc Fin) strs Y"
    and f: "fits T rs (encs (map (rebase (int (length strs))) ts) @ enc Fin) strs Y"
    and rs: "rs = enc_entries es @ cpu_to_fdt64 0 @ cpu_to_fdt64 0" and ts: "list_all2 (token_of strs) cs ts"
    using write_tree_image [OF assms] by blast
  have "fdt_get_mem_rsv fdt (int i) = Some (0, Some (u64 (fst (es ! i)), u64 (snd (es ! i))))" if "i < length es" for i
  proof -
    have "es = take i es @ (fst (es ! i), snd (es ! i)) # drop (Suc i) es"
      using id_take_nth_drop [OF that] by simp
    then have "rs = enc_entries (take i es @ (fst (es ! i), snd (es ! i)) # drop (Suc i) es) @ cpu_to_fdt64 0 @ cpu_to_fdt64 0"
      using rs by metis
    from image_entry [OF f this] show ?thesis using that by (simp add: fdt min_def)
  qed
  moreover have "reads_back fdt 0 cs"
    using reads_back_image [OF ts assms(1), of T rs "[]" Y] f by (simp add: fdt)
  ultimately show ?thesis using image_check_header [OF f] by (simp add: fdt)
qed

section \<open>A tree\<close>

definition demo_calls :: "call list" where
  "demo_calls = [Begin_node [], Property (chars ''a'') [1, 2], Begin_node (chars ''n''), End_node, End_node]"

definition demo_entries :: "(int \<times> int) list" where
  "demo_entries = [(16, 32)]"

definition demo_fdt :: blob where
  "demo_fdt =
     [208, 13, 254, 237, 0, 0, 0, 126, 0, 0, 0, 80, 0, 0, 0, 124, 0, 0, 0, 48,
      0, 0, 0, 17, 0, 0, 0, 2, 0, 0, 0, 0, 0, 0, 0, 2, 0, 0, 0, 44, 0, 0, 0, 0,
      0, 0, 0, 0, 0, 0, 0, 0, 0, 0, 0, 16, 0, 0, 0, 0, 0, 0, 0, 32, 0, 0, 0, 0,
      0, 0, 0, 0, 0, 0, 0, 0, 0, 0, 0, 0, 0, 0, 0, 1, 0, 0, 0, 0, 0, 0, 0, 3,
      0, 0, 0, 2, 0, 0, 0, 0, 1, 2, 0, 0, 0, 0, 0, 1, 110, 0, 0, 0, 0, 0, 0, 2,
      0, 0, 0, 2, 0, 0, 0, 9, 97, 0, 0, 0, 0, 0, 0, 0, 0, 0, 0, 0, 0, 0, 0, 0,
      0, 0, 0, 0, 0, 0, 0, 0, 0, 0, 0, 0, 0, 0, 0, 0, 0, 0, 97, 0]"

text \<open>The same tree with a length of \<open>0xfffffff4\<close> in its property.\<close>

definition wrapped_fdt :: blob where
  "wrapped_fdt = demo_fdt[92 := 255, 93 := 255, 94 := 255, 95 := 244]"

lemma demo_ok: "fdt_check_header demo_fdt = Some 0" "40 \<le> length demo_fdt"
  "hdr demo_fdt 4 \<le> int (length demo_fdt)" "no_wraps demo_fdt"
  by code_simp+

theorem sequential_write_reads_back_witness:
  "fdt_check_header demo_fdt = Some 0 \<and> reads_back demo_fdt 0 demo_calls
    \<and> fdt_get_mem_rsv demo_fdt 0 = Some (0, Some (16, 32))"
proof -
  have "list_all call_ok demo_calls" "write_tree (replicate 160 0) demo_entries demo_calls = Some (0, demo_fdt)"
    by code_simp+
  from sequential_write_reads_back [OF this(1) _ this(2)] show ?thesis
    by (auto simp: demo_entries_def u64_def)
qed

section \<open>Reading a checked blob\<close>

text \<open>
  C20: on a blob whose header \<open>fdt_check_header\<close> has accepted and whose buffer holds its total size,
  \<open>fdt_next_tag\<close> is defined for every offset: it never reads outside of the buffer. It returns an
  error, or the tag at the offset, which lies in the structure block, and the offset of the next,
  which is aligned, at most three bytes behind the block, and past the tag unless the length of
  a property wraps around.
\<close>
theorem next_tag_safe:
  assumes "fdt_check_header fdt = Some 0" "40 \<le> length fdt" "hdr fdt 4 \<le> int (length fdt)" "is_int off"
  shows "\<exists>tag nxt. fdt_next_tag fdt off = Some (tag, nxt) \<and> (tag_error tag nxt \<or> tag_read fdt off tag nxt)"
  using next_tag_spec [OF check_header_ok(1) [OF assms(1-3)] assms(4)] .

theorem next_tag_safe_witness:
  "\<exists>tag nxt. fdt_next_tag demo_fdt 8 = Some (tag, nxt) \<and> (tag_error tag nxt \<or> tag_read demo_fdt 8 tag nxt)"
  by (rule next_tag_safe [OF demo_ok(1-3)]) (simp add: is_int_def)



text \<open>
  C31: a node that \<open>fdt_node_offset_by_prop_value\<close> returns is a node of the tree and has a property
  of the name, whose value is the one that was looked for.
\<close>
theorem prop_value_found:
  assumes "fdt_check_header fdt = Some 0" "40 \<le> length fdt" "hdr fdt 4 \<le> int (length fdt)" "no_wraps fdt"
    and "is_int start" "fdt_node_offset_by_prop_value fdt start name val = Some r" "0 \<le> r"
  shows "is_node fdt r \<and> (\<exists>q. fdt_getprop fdt r name = Some (Some q, int (length val))
    \<and> bytes_at fdt q (int (length val)) = val)"
proof -
  have ok: "fdt_ok fdt" using check_header_ok(1) [OF assms(1-3)] assms(4) by (simp add: fdt_ok_def)
  have "is_node fdt r \<and> has_prop_value name val fdt r = Some (Some r)"
    using by_value.search_returns [OF ok assms(5), of name val] assms(6,7)
    by (auto simp: returns_def fdt_node_offset_by_prop_value_def)
  then show ?thesis
    by (auto simp: has_prop_value_def mem_eq_def rd_bytes_def split: if_splits)
qed

theorem prop_value_found_witness:
  "is_node demo_fdt 0 \<and> (\<exists>q. fdt_getprop demo_fdt 0 (chars ''a'') = Some (Some q, int (length [1, 2 :: 8 word]))
    \<and> bytes_at demo_fdt q (int (length [1, 2 :: 8 word])) = [1, 2])"
proof (rule prop_value_found [OF demo_ok])
  show "fdt_node_offset_by_prop_value demo_fdt (- 1) (chars ''a'') [1, 2] = Some 0" by code_simp
qed (simp_all add: is_int_def)

text \<open>
  C6: \<open>fdt_check_full\<close> accepts exactly the well-formed trees. On a checked blob in which no property
  wraps it returns, and it returns 0 if and only if the buffer is large enough, the reservation
  map has an end, and from offset 0 on the tags are nested and end at depth 0, with the
  value and the name of every property inside of their blocks.
\<close>
theorem check_full_exact:
  assumes "fdt_check_header fdt = Some 0" "40 \<le> length fdt" "hdr fdt 4 \<le> int (length fdt)" "no_wraps fdt"
  shows "\<exists>r. fdt_check_full fdt bufsize = Some r
    \<and> (r = 0 \<longleftrightarrow> hdr fdt 4 \<le> bufsize \<and> (\<exists>n\<ge>0. fdt_num_mem_rsv fdt = Some n) \<and> nested fdt 0 0)"
proof -
  have ok: "fdt_ok fdt" using check_header_ok(1) [OF assms(1-3)] assms(4) by (simp add: fdt_ok_def)
  have b: "28 \<le> hdr fdt 4" using blob_okD [OF fdt_okD(1) [OF ok]] by simp
  obtain n where n: "fdt_num_mem_rsv fdt = Some n" using num_mem_rsv_returns [OF ok] by (auto simp: returns_def)
  obtain r where "check_full_n (blob_fuel fdt) fdt 0 0 = Some r" "r = 0 \<longleftrightarrow> nested fdt 0 0"
    using check_full_n_nested [OF ok at_tag_0 [OF fdt_okD(1) [OF ok]] fuel_for_blob [OF ok], of 0]
    by (auto simp: returns_def)
  then show ?thesis using assms(1) n b header_reads(2) [OF assms(2)] by (auto simp: fdt_check_full_def)
qed

theorem check_full_exact_witness:
  "\<exists>r. fdt_check_full demo_fdt 160 = Some r
    \<and> (r = 0 \<longleftrightarrow> hdr demo_fdt 4 \<le> 160 \<and> (\<exists>n\<ge>0. fdt_num_mem_rsv demo_fdt = Some n) \<and> nested demo_fdt 0 0)"
  by (rule check_full_exact [OF demo_ok])

section \<open>Where the promise is not kept\<close>

text \<open>
  C35: a property of length \<open>2 ^ 32 - 12\<close> stops every walk. Its end wraps around to its own offset,
  \<open>fdt_next_tag\<close> returns the property with that offset as the next, and neither the walk of
  \<open>fdt_next_node\<close> nor the loop of \<open>fdt_check_full\<close>, which is meant for untrusted blobs, ever ends.
\<close>
theorem wrapping_property_stalls:
  assumes "fdt_check_header fdt = Some 0" "40 \<le> length fdt" "hdr fdt 4 \<le> int (length fdt)"
    and "0 \<le> off" "off mod 4 = 0" "off + 8 \<le> struct_end fdt" "16 \<le> hdr fdt 20"
    and "hdr fdt (hdr fdt 8 + off) = FDT_PROP" "prop_len fdt off = 2 ^ 32 - 12"
    and "fdt_getprop_by_offset fdt off = Some (Some v, nm, len)"
  shows "fdt_next_tag fdt off = Some (FDT_PROP, off)
    \<and> (\<forall>n. next_node_n n fdt off depth = None) \<and> (\<forall>n. check_full_n n fdt off d = None)"
proof -
  have "fdt_next_tag fdt off = Some (FDT_PROP, off)"
    using next_tag_stalls [OF check_header_ok(1) [OF assms(1-3)] assms(4-6,8,9,7)] .
  with stalled_loops [OF this assms(4)] assms(10) show ?thesis by blast
qed

theorem wrapping_property_stalls_witness:
  "fdt_next_tag wrapped_fdt 8 = Some (FDT_PROP, 8)
    \<and> (\<forall>n. next_node_n n wrapped_fdt 8 None = None) \<and> (\<forall>n. check_full_n n wrapped_fdt 8 1 = None)"
proof (rule wrapping_property_stalls)
  show "fdt_getprop_by_offset wrapped_fdt 8 = Some (Some 100, Some 124, - 12)" by code_simp
  show "hdr wrapped_fdt (hdr wrapped_fdt 8 + 8) = FDT_PROP" "prop_len wrapped_fdt 8 = 2 ^ 32 - 12"
    "16 \<le> hdr wrapped_fdt 20" "8 + 8 \<le> struct_end wrapped_fdt" "fdt_check_header wrapped_fdt = Some 0"
    "40 \<le> length wrapped_fdt" "hdr wrapped_fdt 4 \<le> int (length wrapped_fdt)"
    by code_simp+
qed simp_all

end
