(* ===== verification/Fdt_Edit.thy ===== *)
theory Fdt_Edit
  imports Fdt_Write
begin

text \<open>
  Editing in place: \<open>fdt_wip.c\<close>, which keeps the sizes of the blocks, and \<open>fdt_rw.c\<close>, which moves
  what stands behind the place of the change. As in the writer a function returns its error code
  with the buffer after it. \<open>fdt_open_into\<close> and \<open>fdt_packblocks_\<close> work on two trees that may
  overlap; they take the memory and the pointers to both.
\<close>

section \<open>fdt_wip.c\<close>

definition fdt_setprop_inplace_namelen_partial ::
  "blob \<Rightarrow> int \<Rightarrow> 8 word list \<Rightarrow> int \<Rightarrow> 8 word list \<Rightarrow> (int \<times> blob) option" where
  "fdt_setprop_inplace_namelen_partial fdt nodeoffset name idx val = do {
     (propval, proplen) \<leftarrow> fdt_getprop_namelen fdt nodeoffset name;
     case propval of
       None \<Rightarrow> Some (proplen, fdt)
     | Some p \<Rightarrow>
         if u32 proplen < u32 (int (length val) + idx) then Some (- FDT_ERR_NOSPACE, fdt)
         else do { fdt \<leftarrow> wr_bytes fdt (p + idx) val; Some (0, fdt) } }"

definition fdt_setprop_inplace :: "blob \<Rightarrow> int \<Rightarrow> 8 word list \<Rightarrow> 8 word list \<Rightarrow> (int \<times> blob) option" where
  "fdt_setprop_inplace fdt nodeoffset name val = do {
     (propval, proplen) \<leftarrow> fdt_getprop fdt nodeoffset name;
     case propval of
       None \<Rightarrow> Some (proplen, fdt)
     | Some p \<Rightarrow>
         if proplen \<noteq> int (length val) then Some (- FDT_ERR_NOSPACE, fdt)
         else fdt_setprop_inplace_namelen_partial fdt nodeoffset name 0 val }"

text \<open>\<open>fdt_nop_region_\<close>: whole words, as long as one starts before the end.\<close>

function nop_region' :: "blob \<Rightarrow> int \<Rightarrow> int \<Rightarrow> blob option" where
  "nop_region' fdt p stop =
     (if p < stop then do { fdt \<leftarrow> wr32 fdt p FDT_NOP; nop_region' fdt (p + 4) stop } else Some fdt)"
  by auto
termination by (relation "measure (\<lambda>(fdt, p, stop). nat (stop - p))") auto

declare nop_region'.simps [simp del]

definition fdt_nop_property :: "blob \<Rightarrow> int \<Rightarrow> 8 word list \<Rightarrow> (int \<times> blob) option" where
  "fdt_nop_property fdt nodeoffset name = do {
     (prop, len) \<leftarrow> fdt_get_property fdt nodeoffset name;
     case prop of
       None \<Rightarrow> Some (len, fdt)
     | Some p \<Rightarrow> do { fdt \<leftarrow> nop_region' fdt p (p + s32 (len + 12)); Some (0, fdt) } }"

fun node_end_n :: "nat \<Rightarrow> blob \<Rightarrow> int \<Rightarrow> int \<Rightarrow> int option" where
  "node_end_n 0 fdt offset depth = None"
| "node_end_n (Suc n) fdt offset depth =
     (if offset \<ge> 0 \<and> depth \<ge> 0 then do {
        (offset, d) \<leftarrow> fdt_next_node fdt offset (Some depth);
        node_end_n n fdt offset (the d) }
      else Some offset)"

definition fdt_node_end_offset' :: "blob \<Rightarrow> int \<Rightarrow> int option" where
  "fdt_node_end_offset' fdt offset = node_end_n (blob_fuel fdt) fdt offset 0"

definition fdt_nop_node :: "blob \<Rightarrow> int \<Rightarrow> (int \<times> blob) option" where
  "fdt_nop_node fdt nodeoffset = do {
     endoffset \<leftarrow> fdt_node_end_offset' fdt nodeoffset;
     if endoffset < 0 then Some (endoffset, fdt)
     else do {
       p \<leftarrow> fdt_offset_ptr fdt nodeoffset 0;
       case p of
         None \<Rightarrow> None
       | Some p \<Rightarrow> do { fdt \<leftarrow> nop_region' fdt p (p + (endoffset - nodeoffset)); Some (0, fdt) } } }"

section \<open>Splicing\<close>

definition fdt_blocks_misordered' :: "blob \<Rightarrow> int \<Rightarrow> int \<Rightarrow> bool option" where
  "fdt_blocks_misordered' fdt mem_rsv_size struct_size = do {
     rsvmap \<leftarrow> fdt_off_mem_rsvmap fdt;
     struct \<leftarrow> fdt_off_dt_struct fdt;
     strings \<leftarrow> fdt_off_dt_strings fdt;
     total \<leftarrow> fdt_totalsize fdt;
     siz \<leftarrow> fdt_size_dt_strings fdt;
     Some (rsvmap < FDT_ALIGN 40 8
           \<or> struct < u32 (rsvmap + mem_rsv_size)
           \<or> strings < u32 (struct + struct_size)
           \<or> total < u32 (strings + siz)) }"

definition fdt_rw_probe' :: "blob \<Rightarrow> (int \<times> blob) option" where
  "fdt_rw_probe' fdt = do {
     err \<leftarrow> fdt_ro_probe' fdt;
     if err \<noteq> 0 then Some (err, fdt)
     else do {
       version \<leftarrow> fdt_version fdt;
       if version < 17 then Some (- FDT_ERR_BADVERSION, fdt)
       else do {
         siz \<leftarrow> fdt_size_dt_struct fdt;
         bad \<leftarrow> fdt_blocks_misordered' fdt 16 (s32 siz);
         if bad then Some (- FDT_ERR_BADLAYOUT, fdt)
         else do {
           fdt \<leftarrow> (if version > 17 then fdt_set_version fdt 17 else Some fdt);
           Some (0, fdt) } } } }"

text \<open>The macro \<open>FDT_RW_PROBE\<close>.\<close>

definition rw_probed :: "blob \<Rightarrow> (blob \<Rightarrow> (int \<times> blob) option) \<Rightarrow> (int \<times> blob) option" where
  "rw_probed fdt rest = do { (err, fdt) \<leftarrow> fdt_rw_probe' fdt; if err \<noteq> 0 then Some (err, fdt) else rest fdt }"

definition fdt_data_size' :: "blob \<Rightarrow> int option" where
  "fdt_data_size' fdt = do {
     strings \<leftarrow> fdt_off_dt_strings fdt;
     siz \<leftarrow> fdt_size_dt_strings fdt;
     Some (s32 (strings + siz)) }"

definition fdt_splice' :: "blob \<Rightarrow> int \<Rightarrow> int \<Rightarrow> int \<Rightarrow> (int \<times> blob) option" where
  "fdt_splice' fdt p oldlen newlen = do {
     stop \<leftarrow> fdt_data_size' fdt;
     if p + oldlen < p \<or> p + oldlen > stop then Some (- FDT_ERR_BADOFFSET, fdt)
     else if p < 0 \<or> stop - oldlen + newlen < 0 then Some (- FDT_ERR_BADOFFSET, fdt)
     else do {
       total \<leftarrow> fdt_totalsize fdt;
       if stop - oldlen + newlen > total then Some (- FDT_ERR_NOSPACE, fdt)
       else do {
         fdt \<leftarrow> memmove fdt (p + newlen) (p + oldlen) (stop - p - oldlen);
         Some (0, fdt) } } }"

definition fdt_splice_mem_rsv' :: "blob \<Rightarrow> int \<Rightarrow> int \<Rightarrow> int \<Rightarrow> (int \<times> blob) option" where
  "fdt_splice_mem_rsv' fdt p oldn newn = do {
     let delta = s32 ((newn - oldn) * 16);
     (err, fdt) \<leftarrow> fdt_splice' fdt p (s32 (oldn * 16)) (s32 (newn * 16));
     if err \<noteq> 0 then Some (err, fdt)
     else do {
       struct \<leftarrow> fdt_off_dt_struct fdt;
       fdt \<leftarrow> fdt_set_off_dt_struct fdt (u32 (struct + delta));
       strings \<leftarrow> fdt_off_dt_strings fdt;
       fdt \<leftarrow> fdt_set_off_dt_strings fdt (u32 (strings + delta));
       Some (0, fdt) } }"

definition fdt_splice_struct' :: "blob \<Rightarrow> int \<Rightarrow> int \<Rightarrow> int \<Rightarrow> (int \<times> blob) option" where
  "fdt_splice_struct' fdt p oldlen newlen = do {
     let delta = s32 (newlen - oldlen);
     (err, fdt) \<leftarrow> fdt_splice' fdt p oldlen newlen;
     if err \<noteq> 0 then Some (err, fdt)
     else do {
       siz \<leftarrow> fdt_size_dt_struct fdt;
       fdt \<leftarrow> fdt_set_size_dt_struct fdt (u32 (siz + delta));
       strings \<leftarrow> fdt_off_dt_strings fdt;
       fdt \<leftarrow> fdt_set_off_dt_strings fdt (u32 (strings + delta));
       Some (0, fdt) } }"

definition fdt_splice_string' :: "blob \<Rightarrow> int \<Rightarrow> (int \<times> blob) option" where
  "fdt_splice_string' fdt newlen = do {
     strings \<leftarrow> fdt_off_dt_strings fdt;
     siz \<leftarrow> fdt_size_dt_strings fdt;
     (err, fdt) \<leftarrow> fdt_splice' fdt (strings + siz) 0 newlen;
     if err \<noteq> 0 then Some (err, fdt)
     else do {
       siz \<leftarrow> fdt_size_dt_strings fdt;
       fdt \<leftarrow> fdt_set_size_dt_strings fdt (u32 (siz + newlen));
       Some (0, fdt) } }"

text \<open>\<open>fdt_find_add_string_\<close> of \<open>fdt_rw.c\<close>: the offset of the name or an error.\<close>

definition fdt_find_add_string_rw :: "blob \<Rightarrow> 8 word list \<Rightarrow> (int \<times> blob) option" where
  "fdt_find_add_string_rw fdt s = do {
     strtab \<leftarrow> fdt_off_dt_strings fdt;
     siz \<leftarrow> fdt_size_dt_strings fdt;
     let len = s32 (int (length s) + 1);
     p \<leftarrow> fdt_find_string' fdt strtab (s32 siz) s;
     case p of
       Some p \<Rightarrow> Some (s32 (p - strtab), fdt)
     | None \<Rightarrow> do {
         let new = strtab + siz;
         (err, fdt) \<leftarrow> fdt_splice_string' fdt len;
         if err \<noteq> 0 then Some (err, fdt)
         else do { fdt \<leftarrow> wr_bytes fdt new (s @ [0]); Some (s32 (new - strtab), fdt) } } }"

section \<open>fdt_rw.c\<close>

definition fdt_add_mem_rsv :: "blob \<Rightarrow> int \<Rightarrow> int \<Rightarrow> (int \<times> blob) option" where
  "fdt_add_mem_rsv fdt address siz = rw_probed fdt (\<lambda>fdt. do {
     n \<leftarrow> fdt_num_mem_rsv fdt;
     rsvmap \<leftarrow> fdt_off_mem_rsvmap fdt;
     let re = rsvmap + 16 * n;
     (err, fdt) \<leftarrow> fdt_splice_mem_rsv' fdt re 0 1;
     if err \<noteq> 0 then Some (err, fdt)
     else do {
       fdt \<leftarrow> wr_bytes fdt re (cpu_to_fdt64 address);
       fdt \<leftarrow> wr_bytes fdt (re + 8) (cpu_to_fdt64 siz);
       Some (0, fdt) } })"

definition fdt_del_mem_rsv :: "blob \<Rightarrow> int \<Rightarrow> (int \<times> blob) option" where
  "fdt_del_mem_rsv fdt n = do {
     rsvmap \<leftarrow> fdt_off_mem_rsvmap fdt;
     let re = rsvmap + 16 * n;
     rw_probed fdt (\<lambda>fdt. do {
       num \<leftarrow> fdt_num_mem_rsv fdt;
       if n \<ge> num then Some (- FDT_ERR_NOTFOUND, fdt) else fdt_splice_mem_rsv' fdt re 1 0 }) }"

text \<open>The functions with a \<open>struct fdt_property **\<close> also return the property.\<close>

definition fdt_resize_property' :: "blob \<Rightarrow> int \<Rightarrow> 8 word list \<Rightarrow> int \<Rightarrow> (int \<times> int option \<times> blob) option" where
  "fdt_resize_property' fdt nodeoffset name len = do {
     (prop, oldlen) \<leftarrow> fdt_get_property fdt nodeoffset name;
     case prop of
       None \<Rightarrow> Some (oldlen, None, fdt)
     | Some p \<Rightarrow> do {
         (err, fdt) \<leftarrow> fdt_splice_struct' fdt (p + 12) (s32 (FDT_TAGALIGN oldlen)) (s32 (FDT_TAGALIGN len));
         if err \<noteq> 0 then Some (err, Some p, fdt)
         else do { fdt \<leftarrow> wr32 fdt (p + 4) len; Some (0, Some p, fdt) } } }"

definition fdt_add_property' :: "blob \<Rightarrow> int \<Rightarrow> 8 word list \<Rightarrow> int \<Rightarrow> (int \<times> int option \<times> blob) option" where
  "fdt_add_property' fdt nodeoffset name len = do {
     nextoffset \<leftarrow> fdt_check_node_offset' fdt nodeoffset;
     if nextoffset < 0 then Some (nextoffset, None, fdt)
     else do {
       (namestroff, fdt) \<leftarrow> fdt_find_add_string_rw fdt name;
       if namestroff < 0 then Some (namestroff, None, fdt)
       else do {
         prop \<leftarrow> fdt_offset_ptr' fdt nextoffset;
         let proplen = s32 (12 + FDT_TAGALIGN len);
         (err, fdt) \<leftarrow> fdt_splice_struct' fdt prop 0 proplen;
         if err \<noteq> 0 then Some (err, Some prop, fdt)
         else do {
           fdt \<leftarrow> wr32 fdt prop FDT_PROP;
           fdt \<leftarrow> wr32 fdt (prop + 8) namestroff;
           fdt \<leftarrow> wr32 fdt (prop + 4) len;
           Some (0, Some prop, fdt) } } } }"

definition fdt_set_name :: "blob \<Rightarrow> int \<Rightarrow> 8 word list \<Rightarrow> (int \<times> blob) option" where
  "fdt_set_name fdt nodeoffset name = rw_probed fdt (\<lambda>fdt. do {
     (namep, oldlen) \<leftarrow> fdt_get_name fdt nodeoffset;
     case namep of
       None \<Rightarrow> Some (oldlen, fdt)
     | Some namep \<Rightarrow> do {
         let newlen = s32 (int (length name));
         (err, fdt) \<leftarrow> fdt_splice_struct' fdt namep (s32 (FDT_TAGALIGN (oldlen + 1))) (s32 (FDT_TAGALIGN (newlen + 1)));
         if err \<noteq> 0 then Some (err, fdt)
         else do { fdt \<leftarrow> wr_bytes fdt namep (name @ [0]); Some (0, fdt) } } })"

definition fdt_setprop_placeholder :: "blob \<Rightarrow> int \<Rightarrow> 8 word list \<Rightarrow> int \<Rightarrow> (int \<times> int \<times> blob) option" where
  "fdt_setprop_placeholder fdt nodeoffset name len = do {
     (err, fdt) \<leftarrow> fdt_rw_probe' fdt;
     if err \<noteq> 0 then Some (err, 0, fdt)
     else do {
       (err, prop, fdt) \<leftarrow> fdt_resize_property' fdt nodeoffset name len;
       (err, prop, fdt) \<leftarrow> (if err = - FDT_ERR_NOTFOUND then fdt_add_property' fdt nodeoffset name len
                           else Some (err, prop, fdt));
       if err \<noteq> 0 then Some (err, 0, fdt) else Some (0, the prop + 12, fdt) } }"

definition fdt_setprop :: "blob \<Rightarrow> int \<Rightarrow> 8 word list \<Rightarrow> 8 word list \<Rightarrow> (int \<times> blob) option" where
  "fdt_setprop fdt nodeoffset name val = do {
     (err, prop_data, fdt) \<leftarrow> fdt_setprop_placeholder fdt nodeoffset name (int (length val));
     if err \<noteq> 0 then Some (err, fdt)
     else do { fdt \<leftarrow> (if val \<noteq> [] then wr_bytes fdt prop_data val else Some fdt); Some (0, fdt) } }"

definition fdt_appendprop :: "blob \<Rightarrow> int \<Rightarrow> 8 word list \<Rightarrow> 8 word list \<Rightarrow> (int \<times> blob) option" where
  "fdt_appendprop fdt nodeoffset name val = rw_probed fdt (\<lambda>fdt. do {
     (prop, oldlen) \<leftarrow> fdt_get_property fdt nodeoffset name;
     case prop of
       Some p \<Rightarrow> do {
         let newlen = s32 (int (length val) + oldlen);
         (err, fdt) \<leftarrow> fdt_splice_struct' fdt (p + 12) (s32 (FDT_TAGALIGN oldlen)) (s32 (FDT_TAGALIGN newlen));
         if err \<noteq> 0 then Some (err, fdt)
         else do {
           fdt \<leftarrow> wr32 fdt (p + 4) newlen;
           fdt \<leftarrow> wr_bytes fdt (p + 12 + oldlen) val;
           Some (0, fdt) } }
     | None \<Rightarrow> do {
         (err, prop, fdt) \<leftarrow> fdt_add_property' fdt nodeoffset name (int (length val));
         if err \<noteq> 0 then Some (err, fdt)
         else do { fdt \<leftarrow> wr_bytes fdt (the prop + 12) val; Some (0, fdt) } } })"

definition fdt_delprop :: "blob \<Rightarrow> int \<Rightarrow> 8 word list \<Rightarrow> (int \<times> blob) option" where
  "fdt_delprop fdt nodeoffset name = rw_probed fdt (\<lambda>fdt. do {
     (prop, len) \<leftarrow> fdt_get_property fdt nodeoffset name;
     case prop of
       None \<Rightarrow> Some (len, fdt)
     | Some p \<Rightarrow> fdt_splice_struct' fdt p (s32 (12 + FDT_TAGALIGN len)) 0 })"

text \<open>The loop of \<open>fdt_add_subnode_namelen\<close> that skips the properties of the parent.\<close>

fun after_props_n :: "nat \<Rightarrow> blob \<Rightarrow> int \<Rightarrow> int option" where
  "after_props_n 0 fdt nextoffset = None"
| "after_props_n (Suc n) fdt nextoffset = do {
     let offset = nextoffset;
     (tag, nextoffset) \<leftarrow> fdt_next_tag fdt offset;
     if tag = FDT_PROP \<or> tag = FDT_NOP then after_props_n n fdt nextoffset else Some offset }"

definition fdt_add_subnode_namelen :: "blob \<Rightarrow> int \<Rightarrow> 8 word list \<Rightarrow> (int \<times> blob) option" where
  "fdt_add_subnode_namelen fdt parentoffset name = rw_probed fdt (\<lambda>fdt. do {
     offset \<leftarrow> fdt_subnode_offset_namelen fdt parentoffset name;
     if offset \<ge> 0 then Some (- FDT_ERR_EXISTS, fdt)
     else if offset \<noteq> - FDT_ERR_NOTFOUND then Some (offset, fdt)
     else do {
       (tag, nextoffset) \<leftarrow> fdt_next_tag fdt parentoffset;
       offset \<leftarrow> after_props_n (blob_fuel fdt) fdt nextoffset;
       nh \<leftarrow> fdt_offset_ptr' fdt offset;
       let namelen = int (length name);
       let nodelen = s32 (4 + FDT_TAGALIGN (namelen + 1) + FDT_TAGSIZE);
       (err, fdt) \<leftarrow> fdt_splice_struct' fdt nh 0 nodelen;
       if err \<noteq> 0 then Some (err, fdt)
       else do {
         fdt \<leftarrow> wr32 fdt nh FDT_BEGIN_NODE;
         fdt \<leftarrow> wr_bytes fdt (nh + 4) (replicate (nat (FDT_TAGALIGN (namelen + 1))) 0);
         fdt \<leftarrow> wr_bytes fdt (nh + 4) name;
         fdt \<leftarrow> wr32 fdt (nh + nodelen - FDT_TAGSIZE) FDT_END_NODE;
         Some (offset, fdt) } } })"

definition fdt_add_subnode :: "blob \<Rightarrow> int \<Rightarrow> 8 word list \<Rightarrow> (int \<times> blob) option" where
  "fdt_add_subnode fdt parentoffset name = fdt_add_subnode_namelen fdt parentoffset name"

definition fdt_del_node :: "blob \<Rightarrow> int \<Rightarrow> (int \<times> blob) option" where
  "fdt_del_node fdt nodeoffset = rw_probed fdt (\<lambda>fdt. do {
     endoffset \<leftarrow> fdt_node_end_offset' fdt nodeoffset;
     if endoffset < 0 then Some (endoffset, fdt)
     else do {
       p \<leftarrow> fdt_offset_ptr' fdt nodeoffset;
       fdt_splice_struct' fdt p (endoffset - nodeoffset) 0 } })"

section \<open>Moving a tree\<close>

definition at_ptr :: "blob \<Rightarrow> int \<Rightarrow> blob" where
  "at_ptr mem p = drop (nat p) mem"

definition fdt_packblocks' :: "blob \<Rightarrow> int \<Rightarrow> int \<Rightarrow> int \<Rightarrow> int \<Rightarrow> blob option" where
  "fdt_packblocks' mem old new mem_rsv_size struct_size = do {
     let mem_rsv_off = FDT_ALIGN 40 8;
     let struct_off = s32 (mem_rsv_off + mem_rsv_size);
     let strings_off = s32 (struct_off + struct_size);
     rsvmap \<leftarrow> fdt_off_mem_rsvmap (at_ptr mem old);
     mem \<leftarrow> memmove mem (new + mem_rsv_off) (old + rsvmap) mem_rsv_size;
     mem \<leftarrow> wr32 mem (new + 16) mem_rsv_off;
     struct \<leftarrow> fdt_off_dt_struct (at_ptr mem old);
     mem \<leftarrow> memmove mem (new + struct_off) (old + struct) struct_size;
     mem \<leftarrow> wr32 mem (new + 8) struct_off;
     mem \<leftarrow> wr32 mem (new + 36) struct_size;
     strings \<leftarrow> fdt_off_dt_strings (at_ptr mem old);
     siz \<leftarrow> fdt_size_dt_strings (at_ptr mem old);
     mem \<leftarrow> memmove mem (new + strings_off) (old + strings) siz;
     mem \<leftarrow> wr32 mem (new + 12) strings_off;
     siz \<leftarrow> fdt_size_dt_strings (at_ptr mem old);
     wr32 mem (new + 32) siz }"

fun struct_size_n :: "nat \<Rightarrow> blob \<Rightarrow> int \<Rightarrow> int option" where
  "struct_size_n 0 fdt struct_size = None"
| "struct_size_n (Suc n) fdt struct_size = do {
     (tag, struct_size) \<leftarrow> fdt_next_tag fdt struct_size;
     if tag \<noteq> FDT_END then struct_size_n n fdt struct_size else Some struct_size }"

text \<open>\<open>fdt_move\<close> within the memory, for the case that needs no reordering.\<close>

definition fdt_move_mem :: "blob \<Rightarrow> int \<Rightarrow> int \<Rightarrow> int \<Rightarrow> (int \<times> blob) option" where
  "fdt_move_mem mem fdt buf bufsize = do {
     err \<leftarrow> fdt_ro_probe' (at_ptr mem fdt);
     if err \<noteq> 0 then Some (err, mem)
     else do {
       total \<leftarrow> fdt_totalsize (at_ptr mem fdt);
       if total > u32 bufsize then Some (- FDT_ERR_NOSPACE, mem)
       else do { mem \<leftarrow> memmove mem buf fdt total; Some (0, mem) } } }"

definition fdt_open_into :: "blob \<Rightarrow> int \<Rightarrow> int \<Rightarrow> int \<Rightarrow> (int \<times> blob) option" where
  "fdt_open_into mem fdt buf bufsize = do {
     total \<leftarrow> fdt_totalsize (at_ptr mem fdt);
     let fdtend = fdt + total;
     err \<leftarrow> fdt_ro_probe' (at_ptr mem fdt);
     if err \<noteq> 0 then Some (err, mem)
     else do {
       num \<leftarrow> fdt_num_mem_rsv (at_ptr mem fdt);
       let mem_rsv_size = s32 ((num + 1) * 16);
       version \<leftarrow> fdt_version (at_ptr mem fdt);
       struct_size \<leftarrow> (if version \<ge> 17 then do { siz \<leftarrow> fdt_size_dt_struct (at_ptr mem fdt); Some (s32 siz) }
                      else struct_size_n (blob_fuel mem) (at_ptr mem fdt) 0);
       if version < 17 \<and> struct_size < 0 then Some (struct_size, mem)
       else do {
         misordered \<leftarrow> fdt_blocks_misordered' (at_ptr mem fdt) mem_rsv_size struct_size;
         if \<not> misordered then do {
           (err, mem) \<leftarrow> fdt_move_mem mem fdt buf bufsize;
           if err \<noteq> 0 then Some (err, mem)
           else do {
             mem \<leftarrow> wr32 mem (buf + 20) 17;
             mem \<leftarrow> wr32 mem (buf + 36) struct_size;
             mem \<leftarrow> wr32 mem (buf + 4) bufsize;
             Some (0, mem) } }
         else do {
           siz \<leftarrow> fdt_size_dt_strings (at_ptr mem fdt);
           let newsize = s32 (FDT_ALIGN 40 8 + mem_rsv_size + struct_size + siz);
           if bufsize < newsize then Some (- FDT_ERR_NOSPACE, mem)
           else do {
             let overlaps = (buf + newsize > fdt \<and> buf < fdtend);
             let tmp = (if overlaps then fdtend else buf);
             if overlaps \<and> tmp + newsize > buf + bufsize then Some (- FDT_ERR_NOSPACE, mem)
             else do {
               mem \<leftarrow> fdt_packblocks' mem fdt tmp mem_rsv_size struct_size;
               mem \<leftarrow> memmove mem buf tmp newsize;
               mem \<leftarrow> wr32 mem buf FDT_MAGIC;
               mem \<leftarrow> wr32 mem (buf + 4) bufsize;
               mem \<leftarrow> wr32 mem (buf + 20) 17;
               mem \<leftarrow> wr32 mem (buf + 24) 16;
               cpuid \<leftarrow> fdt_boot_cpuid_phys (at_ptr mem fdt);
               mem \<leftarrow> wr32 mem (buf + 28) cpuid;
               Some (0, mem) } } } } } }"

definition fdt_pack :: "blob \<Rightarrow> (int \<times> blob) option" where
  "fdt_pack fdt = rw_probed fdt (\<lambda>fdt. do {
     num \<leftarrow> fdt_num_mem_rsv fdt;
     let mem_rsv_size = s32 ((num + 1) * 16);
     siz \<leftarrow> fdt_size_dt_struct fdt;
     fdt \<leftarrow> fdt_packblocks' fdt 0 0 mem_rsv_size (s32 siz);
     data \<leftarrow> fdt_data_size' fdt;
     fdt \<leftarrow> fdt_set_totalsize fdt (u32 data);
     Some (0, fdt) })"

definition fdt_create_empty_tree :: "blob \<Rightarrow> int \<Rightarrow> (int \<times> blob) option" where
  "fdt_create_empty_tree buf bufsize = do {
     (err, buf) \<leftarrow> fdt_create buf bufsize;
     if err \<noteq> 0 then Some (err, buf)
     else do {
       (err, buf) \<leftarrow> fdt_finish_reservemap buf;
       if err \<noteq> 0 then Some (err, buf)
       else do {
         (err, buf) \<leftarrow> fdt_begin_node buf [];
         if err \<noteq> 0 then Some (err, buf)
         else do {
           (err, buf) \<leftarrow> fdt_end_node buf;
           if err \<noteq> 0 then Some (err, buf)
           else do {
             (err, buf) \<leftarrow> fdt_finish buf;
             if err \<noteq> 0 then Some (err, buf)
             else fdt_open_into buf 0 0 bufsize } } } } }"

end
