(* ===== verification/Fdt_Faults.thy ===== *)
theory Fdt_Faults
  imports Fdt_Properties Fdt_Edit
begin

text \<open>
  Where \<open>libfdt\<close> leaves its buffers or does not return: each property states the case as an
  implication on the arguments, and its witness is a buffer for which the code gets there.
\<close>

section \<open>Aliases\<close>

text \<open>An alias \<open>a\<close> in \<open>/aliases\<close> whose value is \<open>a\<close>.\<close>

definition alias_fdt :: blob where
  "alias_fdt =
     [208, 13, 254, 237, 0, 0, 0, 114, 0, 0, 0, 64, 0, 0, 0, 112, 0, 0, 0, 48,
      0, 0, 0, 17, 0, 0, 0, 2, 0, 0, 0, 0, 0, 0, 0, 2, 0, 0, 0, 48]
     @ replicate 24 0
     @ [0, 0, 0, 1, 0, 0, 0, 0, 0, 0, 0, 1, 97, 108, 105, 97, 115, 101, 115, 0,
        0, 0, 0, 3, 0, 0, 0, 2, 0, 0, 0, 0, 97, 0, 0, 0, 0, 0, 0, 2, 0, 0, 0, 2, 0, 0, 0, 9, 97, 0]"

text \<open>
  C36: an alias whose value starts with its own name never resolves. \<open>fdt_path_offset_namelen\<close> looks
  the alias up, calls itself with the value and gets to the same alias again: no number of calls is
  enough.
\<close>
theorem alias_recursion:
  assumes "fdt_ro_probe' fdt = Some 0" "fdt_get_alias fdt name = Some (Some p)" "c_string_at fdt p = Some val"
    and "val = [] \<or> hd val \<noteq> slash" "takeWhile (\<lambda>c. c \<noteq> slash) val = name"
  shows "(\<forall>n. path_offset_n n fdt val = None) \<and> fdt_path_offset fdt val = None"
  using alias_loops_n [OF assms(2-5,1)] by (simp add: fdt_path_offset_def fdt_path_offset_namelen_def)

theorem alias_recursion_witness:
  "(\<forall>n. path_offset_n n alias_fdt (chars ''a'') = None) \<and> fdt_path_offset alias_fdt (chars ''a'') = None"
proof (rule alias_recursion)
  show "fdt_ro_probe' alias_fdt = Some 0" by code_simp
  show "fdt_get_alias alias_fdt (chars ''a'') = Some (Some 96)" by code_simp
  show "c_string_at alias_fdt 96 = Some (chars ''a'')" by code_simp
  show "takeWhile (\<lambda>c. c \<noteq> slash) (chars ''a'') = chars ''a''" by code_simp
  show "chars ''a'' = [] \<or> hd (chars ''a'') \<noteq> slash" by code_simp
qed

section \<open>Reads outside of the buffer\<close>

text \<open>
  C37: the header check reads past a version 2 header. Such a header has 32 bytes, and a
  blob of 32 bytes passes all the earlier tests, but the size of the strings, which the check of
  their block needs, is a field of version 3.
\<close>
theorem check_header_overread:
  assumes "length fdt = 32" "hdr fdt 0 = FDT_MAGIC" "hdr fdt 20 = 2" "hdr fdt 24 \<le> 2" "hdr fdt 4 = 32"
    and "hdr fdt 16 = 32" "hdr fdt 8 = 32"
  shows "fdt_check_header fdt = None \<and> fdt_header_size' (hdr fdt 20) = 32"
proof -
  have reads: "fdt32_ld fdt p = Some (hdr fdt p)" if "0 \<le> p" "p \<le> 28" for p
    using that assms(1) by (intro ld32_inside) (simp add: inside_def)
  have "fdt32_ld fdt 32 = None" using assms(1) by (simp add: fdt32_ld_def rd_bytes_def inside_def)
  then show ?thesis using assms reads
    by (simp add: fdt_check_header_def check_blocks_def header_defs fdt_header_size'_def check_off'_def check_block'_def)
qed

definition v2_header :: blob where
  "v2_header = [208, 13, 254, 237, 0, 0, 0, 32, 0, 0, 0, 32, 0, 0, 0, 32, 0, 0, 0, 32,
     0, 0, 0, 2, 0, 0, 0, 1, 0, 0, 0, 0]"

theorem check_header_overread_witness:
  "fdt_check_header v2_header = None \<and> fdt_header_size' (hdr v2_header 20) = 32"
  by (rule check_header_overread) code_simp+

text \<open>
  the index of a reservation entry is multiplied in 32 bits. For an index \<open>2 ^ 28\<close> past one
  that has an entry the product wraps around to the offset of that entry and passes the checks,
  and \<open>fdt_get_mem_rsv\<close> reads 4 GiB behind it.
\<close>
theorem mem_rsv_index_wraps:
  assumes "fdt_check_header fdt = Some 0" "40 \<le> length fdt" "hdr fdt 4 \<le> int (length fdt)" "length fdt < 2 ^ 32"
    and "0 \<le> n" "n < 2 ^ 27" "fdt_mem_rsv fdt n = Some (Some p)"
  shows "is_int (n + 2 ^ 28) \<and> fdt_mem_rsv fdt (n + 2 ^ 28) = Some (Some (p + 2 ^ 32))
    \<and> fdt_get_mem_rsv fdt (n + 2 ^ 28) = None"
proof -
  note reads = header_reads [OF assms(2)]
  have wrap: "s32 ((n + 2 ^ 28) * 16) = s32 (n * 16)"
  proof -
    have "(n + 2 ^ 28) * 16 + 2 ^ 31 = n * 16 + 2 ^ 31 + (2 ^ 32 :: int)" by simp
    then show ?thesis unfolding s32_def by (metis mod_add_self2)
  qed
  have p: "p = hdr fdt 16 + 16 * n" using assms(7) reads by (auto simp: fdt_mem_rsv_def Let_def split: if_splits)
  have "fdt_mem_rsv fdt (n + 2 ^ 28) = Some (Some (hdr fdt 16 + 16 * (n + 2 ^ 28)))"
    using assms(7) reads unfolding fdt_mem_rsv_def Let_def wrap by (simp split: if_splits)
  then have r: "fdt_mem_rsv fdt (n + 2 ^ 28) = Some (Some (p + 2 ^ 32))" by (simp add: p algebra_simps)
  have probe: "fdt_ro_probe' fdt = Some 0"
    using check_header_ok [OF assms(1-3)] reads by (simp add: fdt_ro_probe'_def)
  have "fdt64_ld fdt (p + 2 ^ 32) = None"
    using assms(4,5) hdr_range(1) [of fdt 16] by (simp add: p fdt64_ld_def rd_bytes_def inside_def)
  then have "fdt_get_mem_rsv fdt (n + 2 ^ 28) = None"
    using r probe by (simp add: fdt_get_mem_rsv_def)
  with r assms(5,6) show ?thesis by (simp add: is_int_def)
qed

theorem mem_rsv_index_wraps_witness:
  "is_int (0 + 2 ^ 28) \<and> fdt_mem_rsv demo_fdt (0 + 2 ^ 28) = Some (Some (48 + 2 ^ 32))
    \<and> fdt_get_mem_rsv demo_fdt (0 + 2 ^ 28) = None"
proof (rule mem_rsv_index_wraps [OF demo_ok(1-3)])
  show "length demo_fdt < 2 ^ 32" by (simp add: demo_fdt_def)
  show "fdt_mem_rsv demo_fdt 0 = Some (Some 48)" by code_simp
qed simp_all

text \<open>
  \<open>fdt_stringlist_contains\<close> compares the terminating NUL of the string as well, and it does so
  while the list has as many bytes as the string has characters: with an unterminated list at the
  end of a buffer it reads the byte behind it.
\<close>
theorem stringlist_contains_overread:
  assumes "0 \<le> p" "p + int (length str) = int (length fdt)"
  shows "fdt_stringlist_contains fdt p (int (length str)) str = None"
  using assms by (simp add: fdt_stringlist_contains.simps [of fdt p] mem_eq_def rd_bytes_def inside_def)

theorem stringlist_contains_overread_witness:
  "fdt_stringlist_contains v2_header 28 (int (length [1, 2, 3, 4 :: 8 word])) [1, 2, 3, 4] = None"
  by (rule stringlist_contains_overread) (simp_all add: v2_header_def)

section \<open>Writes outside of the buffer\<close>

text \<open>
  C38: a long name makes the writer write in front of its buffer. The room for a new string is
  computed without sign: when the string does not fit below the strings that are there, the
  difference wraps around, passes the comparison with the end of the structure block, and
  \<open>fdt_property\<close> copies the name to an address before the tree.
\<close>
theorem property_name_underruns:
  assumes "40 \<le> length fdt" "fdt_sw_probe_struct' fdt = Some 0" "hdr fdt 4 \<le> INT_MAX"
    and "hdr fdt 8 + hdr fdt 36 \<le> hdr fdt 4" "hdr fdt 32 \<le> int (length nm)"
    and "hdr fdt 4 < hdr fdt 32 + int (length nm) + 1" "hdr fdt 32 + int (length nm) < INT_MAX"
  shows "fdt_property fdt nm val = None"
proof -
  let ?T = "hdr fdt 4" and ?s = "hdr fdt 32" and ?l = "int (length nm) + 1"
  note reads = header_reads [OF assms(1)] hdr_range [of fdt 4] hdr_range [of fdt 32] hdr_range [of fdt 8] hdr_range [of fdt 36]
  have s: "s32 ?s = ?s" "s32 ?l = ?l" "s32 (- ?s - ?l) = - ?s - ?l" "s32 (hdr fdt 8 + hdr fdt 36) = hdr fdt 8 + hdr fdt 36"
    using assms(3-7) reads by (auto intro!: s32_id simp: is_int_def)
  have u: "u32 (hdr fdt 8 + hdr fdt 36) = hdr fdt 8 + hdr fdt 36" "u32 (?T + (- ?s - ?l)) = ?T - ?s - ?l + 2 ^ 32"
    using assms(3-7) reads by (simp_all add: u32_id u32_neg)
  have f: "fdt_find_string' fdt (?T - ?s) ?s nm = Some None"
    using s assms(5) by (simp add: fdt_find_string'_def Let_def find_string_at.simps [of fdt])
  have "wr_bytes fdt (?T + (- ?s - ?l)) (nm @ [0]) = None"
    using assms(6) by (simp add: wr_bytes_def inside_def)
  then have "fdt_find_add_string_sw fdt nm = None"
    using reads s u f assms(3-7) by (simp add: fdt_find_add_string_sw_def Let_def)
  then show ?thesis using assms(2) by (simp add: fdt_property_def fdt_property_placeholder_def)
qed

text \<open>A buffer of 64 bytes, right after \<open>fdt_finish_reservemap\<close>.\<close>

definition small_sw :: blob where
  "small_sw = [47, 242, 1, 18, 0, 0, 0, 64, 0, 0, 0, 64, 0, 0, 0, 64, 0, 0, 0, 48,
     0, 0, 0, 17, 0, 0, 0, 2] @ replicate 36 0"

lemma small_sw_created:
  "do { (err, fdt) \<leftarrow> fdt_create (replicate 64 0) 64; fdt_finish_reservemap fdt } = Some (0, small_sw)"
  by code_simp

theorem property_name_underruns_witness: "fdt_property small_sw (replicate 64 97) [1] = None"
proof (rule property_name_underruns)
  show "40 \<le> length small_sw" by (simp add: small_sw_def)
  show "fdt_sw_probe_struct' small_sw = Some 0" by code_simp
  have h: "hdr small_sw 4 = 64" "hdr small_sw 8 = 64" "hdr small_sw 36 = 0" "hdr small_sw 32 = 0" by code_simp+
  show "hdr small_sw 4 \<le> INT_MAX" "hdr small_sw 8 + hdr small_sw 36 \<le> hdr small_sw 4"
    "hdr small_sw 32 \<le> int (length (replicate 64 (97 :: 8 word)))"
    "hdr small_sw 4 < hdr small_sw 32 + int (length (replicate 64 (97 :: 8 word))) + 1"
    "hdr small_sw 32 + int (length (replicate 64 (97 :: 8 word))) < INT_MAX"
    unfolding h by simp_all
qed

text \<open>
  \<open>fdt_get_path\<close> of an offset behind the end of the root runs below the start of the buffer of
  the caller: the depth is negative there, and the loop that drops components finds no slash. The
  blob passes \<open>fdt_check_full\<close>, and the same call for a node of it gives the path.
\<close>
theorem get_path_underruns:
  "fdt_check_full demo_fdt 160 = Some 0 \<and> fdt_get_path demo_fdt 40 (replicate 16 0) = None"
  by code_simp

end
