(* ===== verification/Fdt_Tree.thy ===== *)
theory Fdt_Tree
  imports Fdt_Roundtrip Fdt_Edit
begin

text \<open>
  The abstract view of \<open>fdt_wip.c\<close> and \<open>fdt_rw.c\<close>: a tree is a reservation map, a list of tokens,
  a strings block and the room that is left, and a buffer holds it. This theory gives the lookup of
  a property on the list of tokens; the next one the edits.
\<close>

section \<open>A buffer that holds a tree\<close>

text \<open>The bytes of a structure block encode a list of tokens, whatever the padding.\<close>

fun block :: "token list \<Rightarrow> 8 word list \<Rightarrow> bool" where
  "block [] st \<longleftrightarrow> st = []"
| "block (t # ts) st \<longleftrightarrow> (\<exists>bs rest. st = bs @ rest \<and> encodes t bs \<and> block ts rest)"

lemma block_append: "block (ts @ us) st \<longleftrightarrow> (\<exists>a b. st = a @ b \<and> block ts a \<and> block us b)"
proof (induction ts arbitrary: st)
  case (Cons t ts)
  show ?case by (simp add: Cons.IH) (metis append.assoc)
qed simp

lemma block_length: "block ts st \<Longrightarrow> length st = length (encs ts)"
  by (induction ts arbitrary: st) (auto simp: encodes_length)

lemma block_encs: "block ts (encs ts)"
  by (induction ts) (auto intro: encodes_enc)

lemma block_mod4: "block ts st \<Longrightarrow> int (length st) mod 4 = 0"
  using block_length encs_mod4 by metis

text \<open>The size of a list of tokens in the block, which is also the offset behind it.\<close>

definition bytes :: "token list \<Rightarrow> int" where
  "bytes ts = int (length (encs ts))"

lemma bytes_simps [simp]:
  "bytes [] = 0" "bytes (t # ts) = int (length (enc t)) + bytes ts" "bytes (ts @ us) = bytes ts + bytes us"
  by (simp_all add: bytes_def)

lemma bytes_nonneg [simp]: "0 \<le> bytes ts"
  by (simp add: bytes_def)

lemma bytes_ge: "4 * int (length ts) \<le> bytes ts"
  using encs_length [of ts] by (simp add: bytes_def)

text \<open>A name of the strings block, by its offset.\<close>

definition string_at :: "8 word list \<Rightarrow> int \<Rightarrow> 8 word list \<Rightarrow> bool" where
  "string_at strs off nm \<longleftrightarrow> 0 \<notin> set nm \<and> (\<exists>A C. strs = A @ nm @ 0 # C \<and> off = int (length A))"

fun token_in :: "8 word list \<Rightarrow> token \<Rightarrow> bool" where
  "token_in strs (Node_begin nm) \<longleftrightarrow> 0 \<notin> set nm"
| "token_in strs (Prop off v) \<longleftrightarrow> int (length v) < INT_MAX \<and> (\<exists>nm. string_at strs off nm)"
| "token_in strs Fin \<longleftrightarrow> False"
| "token_in strs t \<longleftrightarrow> True"

definition holds :: "blob \<Rightarrow> 8 word list \<Rightarrow> token list \<Rightarrow> 8 word list \<Rightarrow> int \<Rightarrow> bool" where
  "holds fdt rs ts strs room \<longleftrightarrow>
     (\<exists>T st Y. fdt = fdt_image FDT_MAGIC T rs st strs Y \<and> fits T rs st strs Y \<and> block (ts @ [Fin]) st
        \<and> room = T - (48 + int (length rs) + int (length st) + int (length strs)))
     \<and> list_all (token_in strs) ts \<and> 16 \<le> length rs"

lemma token_in_ok: "token_in strs t \<Longrightarrow> token_ok t"
  by (cases t) auto

lemma string_at_unique:
  assumes "string_at strs off a" "string_at strs off b"
  shows "a = b"
proof -
  obtain A C where A: "strs = A @ a @ 0 # C" "off = int (length A)" "0 \<notin> set a" using assms(1) by (auto simp: string_at_def)
  obtain B D where B: "strs = B @ b @ 0 # D" "off = int (length B)" "0 \<notin> set b" using assms(2) by (auto simp: string_at_def)
  have "A @ (a @ 0 # C) = B @ (b @ 0 # D)" "length A = length B" using A B by simp_all
  then have "a @ 0 # C = b @ 0 # D" by (metis append_eq_append_conv)
  moreover have "takeWhile (\<lambda>c. c \<noteq> 0) (a @ 0 # C) = a" "takeWhile (\<lambda>c. c \<noteq> 0) (b @ 0 # D) = b"
    using A(3) B(3) by (simp_all add: takeWhile_tail) (auto simp: takeWhile_eq_all_conv)
  ultimately show ?thesis by simp
qed

section \<open>Tags and properties of the tree\<close>

lemma holds_split:
  assumes "holds fdt rs (us @ t # ws) strs room"
  obtains T A bs B Y where "fdt = fdt_image FDT_MAGIC T rs (A @ bs @ B) strs Y" "fits T rs (A @ bs @ B) strs Y"
    "block us A" "encodes t bs" "block (ws @ [Fin]) B" "int (length A) = bytes us" "int (length A) mod 4 = 0"
    "room = T - (48 + int (length rs) + bytes (us @ t # ws) + 4 + int (length strs))"
proof -
  obtain T st Y where h: "fdt = fdt_image FDT_MAGIC T rs st strs Y" "fits T rs st strs Y" "block ((us @ t # ws) @ [Fin]) st"
    "room = T - (48 + int (length rs) + int (length st) + int (length strs))"
    using assms by (auto simp: holds_def)
  obtain A bs B where s: "st = A @ bs @ B" "block us A" "encodes t bs" "block (ws @ [Fin]) B"
    using h(3) unfolding append.assoc append_Cons block_append [of us] block.simps by blast
  have l: "int (length A) = bytes us" "int (length st) = bytes (us @ t # ws) + 4"
    using block_length [OF s(2)] block_length [OF h(3)] by (simp_all add: bytes_def)
  then have "room = T - (48 + int (length rs) + bytes (us @ t # ws) + 4 + int (length strs))" using h(4) by linarith
  with h(1,2) s(2-4) l(1) block_mod4 [OF s(2)] show ?thesis unfolding s(1) by (rule that)
qed

lemma holds_token: "holds fdt rs (us @ t # ws) strs room \<Longrightarrow> token_in strs t"
  by (simp add: holds_def)

lemma holds_next_tag:
  assumes h: "holds fdt rs (us @ t # ws) strs room"
  shows "fdt_next_tag fdt (bytes us) = Some (tag_of t, bytes (us @ [t]))"
proof -
  obtain T A bs B Y where s: "fdt = fdt_image FDT_MAGIC T rs (A @ bs @ B) strs Y" "fits T rs (A @ bs @ B) strs Y"
    "encodes t bs" "int (length A) = bytes us" "int (length A) mod 4 = 0"
    using holds_split [OF h] by metis
  show ?thesis
    using block_next_tag [OF s(2) refl s(3,5) token_in_ok [OF holds_token [OF h]], of FDT_MAGIC] s(1,4) by simp
qed

lemma holds_end_tag:
  assumes h: "holds fdt rs ts strs room"
  shows "fdt_next_tag fdt (bytes ts) = Some (FDT_END, bytes ts + 4)"
proof -
  obtain T st Y where s: "fdt = fdt_image FDT_MAGIC T rs st strs Y" "fits T rs st strs Y" "block (ts @ [Fin]) st"
    using h by (auto simp: holds_def)
  obtain A where A: "st = A @ enc Fin @ []" "block ts A"
    using s(3) by (auto simp: block_append encodes_def)
  have "int (length A) = bytes ts" using block_length [OF A(2)] by (simp add: bytes_def)
  then show ?thesis
    using block_next_tag [OF s(2) A(1) encodes_enc block_mod4 [OF A(2)], of FDT_MAGIC] s(1) by simp
qed

lemma holds_header:
  assumes "holds fdt rs ts strs room"
  shows "fdt_ro_probe' fdt = Some 0" "fdt_version fdt = Some 17" "fdt_off_dt_struct fdt = Some (48 + int (length rs))"
    "40 \<le> length fdt" "length ts < blob_fuel fdt" "48 + int (length rs) + bytes ts + 4 + int (length strs) + room \<le> INT_MAX"
proof -
  obtain T st Y where s: "fdt = fdt_image FDT_MAGIC T rs st strs Y" "fits T rs st strs Y" "block (ts @ [Fin]) st"
    "room = T - (48 + int (length rs) + int (length st) + int (length strs))"
    using assms by (auto simp: holds_def)
  show "fdt_ro_probe' fdt = Some 0" using image_ro_probe [OF s(2)] s(1) by simp
  show "fdt_version fdt = Some 17" "fdt_off_dt_struct fdt = Some (48 + int (length rs))" "40 \<le> length fdt"
    using image_reads [of FDT_MAGIC T rs st strs Y] image_hdr [OF s(2), of FDT_MAGIC] image_40 s(1) by simp_all
  have l: "int (length st) = bytes ts + 4" using block_length [OF s(3)] by (simp add: bytes_def)
  show "length ts < blob_fuel fdt" using bytes_ge [of ts] l s(1) by (simp add: blob_fuel_def length_image)
  show "48 + int (length rs) + bytes ts + 4 + int (length strs) + room \<le> INT_MAX"
    using l s(2,4) by (simp add: fits_def)
qed

text \<open>The name of a property.\<close>

lemma holds_string_eq:
  assumes h: "holds fdt rs ts strs room" and s: "string_at strs off nm"
  shows "fdt_string_eq' fdt off name = Some (nm = name)"
proof -
  obtain T st Y where i: "fdt = fdt_image FDT_MAGIC T rs st strs Y" "fits T rs st strs Y"
    using h by (auto simp: holds_def)
  obtain A C where A: "strs = A @ nm @ 0 # C" "off = int (length A)" "0 \<notin> set nm" using s by (auto simp: string_at_def)
  let ?p = "48 + int (length rs) + int (length st) + int (length A)"
  have g: "fdt_get_string fdt off = Some (Some ?p, int (length nm))"
    using image_string(1) [OF i(2) A(1,3)] i(1) A(2) by simp
  show ?thesis
  proof (cases "length nm = length name")
    case False
    then show ?thesis using g by (auto simp: fdt_string_eq'_def)
  next
    case True
    have "fdt = (front FDT_MAGIC T rs st strs (st @ A)) @ nm @ (0 # C @ Y)"
      using i(1) A(1) by (simp add: fdt_image_def)
    then have "rd_bytes fdt ?p (int (length nm)) = Some nm"
      by (simp only:) (rule rd_bytes_append; simp)
    then show ?thesis using g True by (simp add: fdt_string_eq'_def mem_eq_def)
  qed
qed

text \<open>Where \<open>nextprop_\<close> gets to on a list of tokens at an offset.\<close>

fun next_prop :: "token list \<Rightarrow> int \<Rightarrow> int" where
  "next_prop [] off = - FDT_ERR_BADSTRUCTURE"
| "next_prop (Prop _ _ # ts) off = off"
| "next_prop (Nop # ts) off = next_prop ts (off + 4)"
| "next_prop (_ # ts) off = - FDT_ERR_NOTFOUND"

lemma nextprop_n_tree:
  "holds fdt rs (us @ ws) strs room \<Longrightarrow> length ws < n \<Longrightarrow> nextprop_n n fdt (bytes us) = Some (next_prop ws (bytes us))"
proof (induction ws arbitrary: us n)
  case Nil
  then show ?case using holds_end_tag [of fdt rs us strs room] by (cases n) auto
next
  case (Cons t ws)
  obtain k where k: "n = Suc k" "length ws < k" using Cons.prems(2) by (cases n) auto
  have "fdt_next_tag fdt (bytes us) = Some (tag_of t, bytes (us @ [t]))" using holds_next_tag [OF Cons.prems(1)] .
  moreover have "nextprop_n k fdt (bytes (us @ [t])) = Some (next_prop ws (bytes (us @ [t])))"
    using Cons.IH [of "us @ [t]" k] Cons.prems(1) k(2) by simp
  moreover have "t \<noteq> Fin" using holds_token [OF Cons.prems(1)] by auto
  ultimately show ?case using k(1) by (cases t) simp_all
qed

lemma nextprop_tree: "holds fdt rs (us @ ws) strs room \<Longrightarrow> nextprop' fdt (bytes us) = Some (next_prop ws (bytes us))"
  using nextprop_n_tree [of fdt rs us ws strs room "blob_fuel fdt"] holds_header(5) [of fdt rs "us @ ws" strs room]
  by (simp add: nextprop'_def)

lemma holds_property:
  assumes h: "holds fdt rs (us @ Prop off v # ws) strs room"
  shows "fdt_check_prop_offset' fdt (bytes us) = Some (bytes (us @ [Prop off v]))"
    "fdt_get_property_by_offset' fdt (bytes us) = Some (Some (48 + int (length rs) + bytes us), int (length v))"
    "fdt32_ld fdt (48 + int (length rs) + bytes us + 8) = Some off" "s32 off = off"
    "bytes_at fdt (48 + int (length rs) + bytes us + 12) (int (length v)) = v"
    "fdt_next_property_offset fdt (bytes us) = Some (next_prop ws (bytes (us @ [Prop off v])))"
proof -
  obtain T A bs B Y where s: "fdt = fdt_image FDT_MAGIC T rs (A @ bs @ B) strs Y" "fits T rs (A @ bs @ B) strs Y"
    "encodes (Prop off v) bs" "int (length A) = bytes us" "int (length A) mod 4 = 0"
    using holds_split [OF h] by metis
  have v: "int (length v) < INT_MAX" and o: "\<exists>nm. string_at strs off nm" using holds_token [OF h] by simp_all
  then have "0 \<le> off" "off \<le> INT_MAX" using s(2) by (auto simp: string_at_def fits_def)
  note p = block_property [OF s(2) refl s(3,5) v this, folded s(1), unfolded s(4)]
  show c: "fdt_check_prop_offset' fdt (bytes us) = Some (bytes (us @ [Prop off v]))" using p(6) by simp
  show "fdt32_ld fdt (48 + int (length rs) + bytes us + 8) = Some off" "s32 off = off"
    "bytes_at fdt (48 + int (length rs) + bytes us + 12) (int (length v)) = v"
    using p(2,4,5) by simp_all
  have nn: "\<not> bytes (us @ [Prop off v]) < 0" using bytes_nonneg [of "us @ [Prop off v]"] by linarith
  show "fdt_get_property_by_offset' fdt (bytes us) = Some (Some (48 + int (length rs) + bytes us), int (length v))"
    using c nn p(1,3) holds_header(3) [OF h]
    by (simp add: fdt_get_property_by_offset'_def fdt_offset_ptr'_def del: bytes_simps)
  have "holds fdt rs ((us @ [Prop off v]) @ ws) strs room" using h by simp
  from nextprop_tree [OF this]
  show "fdt_next_property_offset fdt (bytes us) = Some (next_prop ws (bytes (us @ [Prop off v])))"
    using c nn by (simp add: fdt_next_property_offset_def del: bytes_simps)
qed

text \<open>The properties in front of the one that is looked for.\<close>

definition others :: "8 word list \<Rightarrow> 8 word list \<Rightarrow> token list \<Rightarrow> bool" where
  "others strs name ps \<longleftrightarrow>
     list_all (\<lambda>t. t = Nop \<or> (\<exists>off v nm. t = Prop off v \<and> string_at strs off nm \<and> nm \<noteq> name)) ps"

text \<open>What the search finds when the properties are over.\<close>

fun hits :: "8 word list \<Rightarrow> 8 word list \<Rightarrow> token list \<Rightarrow> bool" where
  "hits strs name (Prop off v # ws) \<longleftrightarrow> string_at strs off name"
| "hits strs name ws \<longleftrightarrow> False"

fun search_result :: "int \<Rightarrow> token list \<Rightarrow> int \<Rightarrow> int option \<times> int \<times> int" where
  "search_result base (Prop off v # ws) o' = (Some (base + o'), int (length v), o')"
| "search_result base ws o' = (None, next_prop ws o', next_prop ws o')"

fun props_over :: "token list \<Rightarrow> bool" where
  "props_over (Prop _ _ # ws) \<longleftrightarrow> False"
| "props_over (Nop # ws) \<longleftrightarrow> False"
| "props_over ws \<longleftrightarrow> True"

lemma get_property_tree:
  "holds fdt rs (us @ ps @ ws) strs room \<Longrightarrow> others strs name ps \<Longrightarrow> hits strs name ws \<or> props_over ws \<Longrightarrow>
    length ps < n \<Longrightarrow>
    get_property_n n fdt (next_prop (ps @ ws) (bytes us)) name = Some (search_result (48 + int (length rs)) ws (bytes (us @ ps)))"
proof (induction ps arbitrary: us n)
  case Nil
  obtain k where k: "n = Suc k" using Nil.prems(4) by (cases n) auto
  show ?case
  proof (cases "hits strs name ws")
    case True
    then obtain off v ws' where w: "ws = Prop off v # ws'" "string_at strs off name" by (cases "(strs, name, ws)" rule: hits.cases) auto
    have h: "holds fdt rs (us @ Prop off v # ws') strs room" using Nil.prems(1) w(1) by simp
    have "\<not> bytes us < 0" using bytes_nonneg [of us] by linarith
    then show ?thesis using holds_property [OF h] holds_string_eq [OF h w(2), of name] w(1) k by simp
  next
    case False
    then have "props_over ws" using Nil.prems(3) by simp
    then show ?thesis using k by (cases ws rule: props_over.cases) simp_all
  qed
next
  case (Cons t ps)
  obtain k where k: "n = Suc k" "length ps < k" using Cons.prems(4) by (cases n) auto
  have h: "holds fdt rs ((us @ [t]) @ ps @ ws) strs room" using Cons.prems(1) by simp
  have o: "others strs name ps" using Cons.prems(2) by (simp add: others_def)
  consider "t = Nop" | off v nm where "t = Prop off v" "string_at strs off nm" "nm \<noteq> name"
    using Cons.prems(2) by (auto simp: others_def)
  then show ?case
  proof cases
    case 1
    then show ?thesis using Cons.IH [OF h o Cons.prems(3), of n] k by simp
  next
    case 2
    have h': "holds fdt rs (us @ Prop off v # (ps @ ws)) strs room" using Cons.prems(1) 2(1) by simp
    have "\<not> bytes us < 0" using bytes_nonneg [of us] by linarith
    then show ?thesis using holds_property [OF h'] holds_string_eq [OF h' 2(2), of name] 2(1,3) k(1)
        Cons.IH [OF h o Cons.prems(3) k(2)] by simp
  qed
qed

text \<open>The lookup in a node: \<open>ps\<close> are the properties before the first of the name, or all.\<close>

lemma holds_node_offset:
  assumes h: "holds fdt rs (us @ Node_begin nm # ws) strs room"
  shows "fdt_check_node_offset' fdt (bytes us) = Some (bytes (us @ [Node_begin nm]))"
proof -
  have "bytes us mod 4 = 0" using encs_mod4 by (simp add: bytes_def)
  moreover have "\<not> bytes us < 0" using bytes_nonneg [of us] by linarith
  ultimately show ?thesis
    using holds_next_tag [OF h] by (simp add: fdt_check_node_offset'_def check_offset_def del: bytes_simps)
qed

lemma namelen_tree:
  assumes h: "holds fdt rs (us @ Node_begin nm # ps @ ws) strs room"
    and o: "others strs name ps" and w: "hits strs name ws \<or> props_over ws"
  shows "fdt_get_property_namelen' fdt (bytes us) name
    = Some (search_result (48 + int (length rs)) ws (bytes (us @ Node_begin nm # ps)))"
proof -
  have h': "holds fdt rs ((us @ [Node_begin nm]) @ ps @ ws) strs room" using h by simp
  have nn: "\<not> bytes (us @ [Node_begin nm]) < 0" using bytes_nonneg [of "us @ [Node_begin nm]"] by linarith
  have "fdt_first_property_offset fdt (bytes us) = Some (next_prop (ps @ ws) (bytes (us @ [Node_begin nm])))"
    using holds_node_offset [OF h] nextprop_tree [OF h'] nn by (simp add: fdt_first_property_offset_def del: bytes_simps)
  moreover have "length ps < blob_fuel fdt" using holds_header(5) [OF h] by simp
  ultimately show ?thesis
    using get_property_tree [OF h' o w, of "blob_fuel fdt"] by (simp add: fdt_get_property_namelen'_def)
qed

lemma get_property_tree_found:
  assumes h: "holds fdt rs (us @ Node_begin nm # ps @ Prop off v # ws) strs room"
    and o: "others strs name ps" "string_at strs off name"
  shows "fdt_get_property fdt (bytes us) name
      = Some (Some (48 + int (length rs) + bytes (us @ Node_begin nm # ps)), int (length v))"
    "fdt_getprop fdt (bytes us) name
      = Some (Some (48 + int (length rs) + bytes (us @ Node_begin nm # ps) + 12), int (length v))"
  using namelen_tree [OF h o(1)] o(2) holds_header(2) [OF h]
  by (simp_all add: fdt_get_property_def fdt_get_property_namelen_def fdt_getprop_def fdt_getprop_namelen_def prop_data_def)

lemma get_property_tree_missing:
  assumes h: "holds fdt rs (us @ Node_begin nm # ps @ ws) strs room"
    and o: "others strs name ps" and w: "props_over ws" "ws \<noteq> []"
  shows "fdt_get_property fdt (bytes us) name = Some (None, - FDT_ERR_NOTFOUND)"
    and getprop_tree_missing: "fdt_getprop fdt (bytes us) name = Some (None, - FDT_ERR_NOTFOUND)"
proof -
  have r: "search_result b ws x = (None, - FDT_ERR_NOTFOUND, - FDT_ERR_NOTFOUND)" if "Fin \<notin> set ws" for b x
    using w that by (cases ws rule: props_over.cases) simp_all
  have "list_all (token_in strs) ws" using h by (simp add: holds_def)
  then have "Fin \<notin> set ws" by (auto simp: list_all_iff)
  with r show "fdt_get_property fdt (bytes us) name = Some (None, - FDT_ERR_NOTFOUND)"
    "fdt_getprop fdt (bytes us) name = Some (None, - FDT_ERR_NOTFOUND)"
    using namelen_tree [OF h o] w(1) holds_header(2) [OF h]
    by (simp_all add: fdt_get_property_def fdt_get_property_namelen_def fdt_getprop_def fdt_getprop_namelen_def)
qed

end
