(* ===== verification/Fdt_Splice.thy ===== *)
theory Fdt_Splice
  imports Fdt_Tree
begin

text \<open>
  The edits of \<open>fdt_wip.c\<close> and \<open>fdt_rw.c\<close> on a buffer that holds a tree: what splicing does to the
  blocks, and each operation as an operation on the list of tokens.
\<close>

section \<open>Splicing\<close>

lemma image_data_size:
  assumes "fits T rs st strs Y"
  shows "fdt_data_size' (fdt_image FDT_MAGIC T rs st strs Y)
    = Some (48 + int (length rs) + int (length st) + int (length strs))"
proof -
  have "s32 (48 + int (length rs) + int (length st) + int (length strs)) = 48 + int (length rs) + int (length st) + int (length strs)"
    using assms by (intro s32_id) (simp add: fits_def is_int_def)
  then show ?thesis
    using image_reads [of FDT_MAGIC T rs st strs Y] image_hdr [OF assms, of FDT_MAGIC] by (simp add: fdt_data_size'_def)
qed

lemma take_front: "length F = m \<Longrightarrow> take (m + n) (F @ R) = F @ take n R"
  by simp

lemma drop_front: "length F = m \<Longrightarrow> drop (m + n) (F @ R) = drop n R"
  by simp

text \<open>A part \<open>old\<close> of the data makes room for \<open>n\<close> bytes; what follows it in the data is \<open>C\<close>.\<close>

lemma splice_bytes:
  assumes size: "fdt_data_size' fdt = Some (int (length F) + int (length old) + int (length C))"
    and fdt: "fdt = F @ old @ C @ Y" and T: "fdt_totalsize fdt = Some T" "T \<le> int (length fdt)"
  shows "fdt_splice' fdt (int (length F)) (int (length old)) (int n) =
     Some (if int (length F) + int n + int (length C) > T then (- FDT_ERR_NOSPACE, fdt)
           else (0, F @ take n (old @ C @ Y) @ C @ drop (n + length C) (old @ C @ Y)))"
proof -
  have "rd_bytes fdt (int (length F) + int (length old)) (int (length C)) = Some C"
    using rd_bytes_append [of "int (length F) + int (length old)" "F @ old" "int (length C)" C Y] fdt by simp
  moreover have "wr_bytes fdt (int (length F) + int n) C
      = Some (F @ take n (old @ C @ Y) @ C @ drop (n + length C) (old @ C @ Y))"
    if "int (length F) + int n + int (length C) \<le> T"
  proof -
    have "inside fdt (int (length F) + int n) (int (length C))" using that T(2) by (simp add: inside_def)
    moreover have "nat (int (length F) + int n) = length F + n" by linarith
    ultimately show ?thesis unfolding wr_bytes_def using fdt by (simp add: add.assoc)
  qed
  ultimately show ?thesis using size T(1)
    by (auto simp: fdt_splice'_def memmove_def algebra_simps)
qed

lemma splice_struct_image:
  fixes n :: nat
  assumes f: "fits T rs (A @ old @ B) strs Y"
  defines "X \<equiv> take n (old @ B @ strs @ Y)" and "Y' \<equiv> drop (n + length B + length strs) (old @ B @ strs @ Y)"
  shows "fdt_splice_struct' (fdt_image FDT_MAGIC T rs (A @ old @ B) strs Y) (48 + int (length rs) + int (length A)) (int (length old)) (int n) =
     Some (if 48 + int (length rs) + int (length A) + int n + int (length B) + int (length strs) > T
           then (- FDT_ERR_NOSPACE, fdt_image FDT_MAGIC T rs (A @ old @ B) strs Y)
           else (0, fdt_image FDT_MAGIC T rs (A @ X @ B) strs Y'))"
    and "48 + int (length rs) + int (length A) + int n + int (length B) + int (length strs) \<le> T \<Longrightarrow>
      length X = n \<and> fits T rs (A @ X @ B) strs Y'"
proof -
  let ?I = "fdt_image FDT_MAGIC T rs (A @ old @ B) strs Y"
  let ?F = "front FDT_MAGIC T rs (A @ old @ B) strs A"
  let ?used = "48 + int (length rs) + int (length A) + int n + int (length B) + int (length strs)"
  have b: "48 + int (length rs) + int (length A) + int (length old) + int (length B) + int (length strs) \<le> T"
    "T \<le> 48 + int (length rs) + int (length A) + int (length old) + int (length B) + int (length strs) + int (length Y)" "T \<le> INT_MAX"
    using f by (simp_all add: fits_def)
  have I: "?I = ?F @ old @ (B @ strs) @ Y" by (simp add: fdt_image_def)
  have F: "int (length ?F) = 48 + int (length rs) + int (length A)" by simp
  have size: "fdt_data_size' ?I = Some (int (length ?F) + int (length old) + int (length (B @ strs)))"
    using image_data_size [OF f] by simp
  have T: "fdt_totalsize ?I = Some T" "T \<le> int (length ?I)"
    using image_reads(2) [of FDT_MAGIC T rs "A @ old @ B" strs Y] image_hdr(2) [OF f, of FDT_MAGIC] b(2) by (simp_all add: length_image)
  note sp = splice_bytes [OF size I T, of n, unfolded F]
  show fit: "length X = n \<and> fits T rs (A @ X @ B) strs Y'" if "?used \<le> T"
  proof -
    have "n \<le> length (old @ B @ strs @ Y)" using that b by simp
    then have l: "length X = n" by (simp add: X_def)
    moreover have "int n + int (length Y') = int (length old) + int (length Y)"
    proof -
      have "length Y' + (n + length B + length strs) = length (old @ B @ strs @ Y)"
        unfolding Y'_def length_drop using that b by simp
      then show ?thesis by simp
    qed
    ultimately show ?thesis using that b by (simp add: fits_def)
  qed
  show "fdt_splice_struct' ?I (48 + int (length rs) + int (length A)) (int (length old)) (int n) =
     Some (if ?used > T then (- FDT_ERR_NOSPACE, ?I) else (0, fdt_image FDT_MAGIC T rs (A @ X @ B) strs Y'))"
  proof (cases "?used > T")
    case True
    then show ?thesis using sp by (simp add: fdt_splice_struct'_def add.assoc)
  next
    case False
    let ?R = "A @ X @ B @ strs @ Y'"
    let ?J = "header [FDT_MAGIC, T, 48 + int (length rs), 48 + int (length rs) + int (length (A @ old @ B)), 48, 17, 2, 0,
        int (length strs), int (length (A @ old @ B))] @ (replicate 8 0 @ rs @ ?R)"
    have l: "length X = n" using fit False by simp
    have s: "fdt_splice' ?I (48 + int (length rs) + int (length A)) (int (length old)) (int n) = Some (0, ?J)"
      using sp False by (simp add: X_def Y'_def add.assoc)
    have d: "s32 (int n - int (length old)) = int n - int (length old)"
      using b False by (intro s32_id) (auto simp: is_int_def)
    have u: "u32 (int (length (A @ old @ B)) + (int n - int (length old))) = int (length (A @ X @ B))"
      "u32 (48 + int (length rs) + int (length (A @ old @ B)) + (int n - int (length old))) = 48 + int (length rs) + int (length (A @ X @ B))"
      using b False l by (subst u32_id; simp)+
    have u0: "u32 (int (length (A @ old @ B))) = int (length (A @ old @ B))"
      "u32 (48 + int (length rs) + int (length (A @ old @ B))) = 48 + int (length rs) + int (length (A @ old @ B))"
      using b by (subst u32_id; simp)+
    have r: "fdt_size_dt_struct (header [a, b', c, d, e, f', g, h, i, j] @ Z) = Some (u32 j)"
      "fdt_off_dt_strings (header [a, b', c, d, e, f', g, h, i, j] @ Z) = Some (u32 d)" for a b' c d e f' g h i j Z
      using header_reads [of "header [a, b', c, d, e, f', g, h, i, j] @ Z"] by (simp_all add: header_reads_10)
    show ?thesis using s d False
      by (simp add: fdt_splice_struct'_def Let_def r header_writes u u0 fdt_image_def del: length_append)
  qed
qed

section \<open>Parts of the tree\<close>

lemma holdsI:
  assumes "fits T rs (A @ X @ B) strs Y" "block us A" "block ms X" "block (ws @ [Fin]) B"
    and "list_all (token_in strs) (us @ ms @ ws)" "16 \<le> length rs"
    and "room = T - (48 + int (length rs) + bytes (us @ ms @ ws) + 4 + int (length strs))"
  shows "holds (fdt_image FDT_MAGIC T rs (A @ X @ B) strs Y) rs (us @ ms @ ws) strs room"
proof -
  have "block ((us @ ms @ ws) @ [Fin]) (A @ X @ B)"
    using assms(2-4) by (metis append.assoc block_append)
  moreover have "int (length (A @ X @ B)) = bytes (us @ ms @ ws) + 4"
    using block_length [OF calculation] by (simp add: bytes_def)
  ultimately show ?thesis using assms(1,5-7) unfolding holds_def by fastforce
qed

lemma holds_parts:
  assumes "holds fdt rs (us @ ms @ ws) strs room"
  obtains T A X B Y where "fdt = fdt_image FDT_MAGIC T rs (A @ X @ B) strs Y" "fits T rs (A @ X @ B) strs Y"
    "block us A" "block ms X" "block (ws @ [Fin]) B" "int (length A) = bytes us" "int (length X) = bytes ms"
    "int (length B) = bytes ws + 4" "room = T - (48 + int (length rs) + bytes (us @ ms @ ws) + 4 + int (length strs))"
proof -
  obtain T st Y where h: "fdt = fdt_image FDT_MAGIC T rs st strs Y" "fits T rs st strs Y" "block ((us @ ms @ ws) @ [Fin]) st"
    "room = T - (48 + int (length rs) + int (length st) + int (length strs))"
    using assms by (auto simp: holds_def)
  obtain A X B where s: "st = A @ X @ B" "block us A" "block ms X" "block (ws @ [Fin]) B"
    using h(3) unfolding append.assoc append_Cons block_append [of us] block_append [of ms] by blast
  have l: "int (length A) = bytes us" "int (length X) = bytes ms" "int (length B) = bytes ws + 4"
    using s(2-4)[THEN block_length] by (simp_all add: bytes_def)
  have "room = T - (48 + int (length rs) + bytes (us @ ms @ ws) + 4 + int (length strs))" using h(4) l unfolding s(1) by simp
  with h(1,2) s(2-4) l show ?thesis unfolding s(1) by (rule that)
qed

lemma holds_tokens: "holds fdt rs ts strs room \<Longrightarrow> list_all (token_in strs) ts" "holds fdt rs ts strs room \<Longrightarrow> 16 \<le> length rs"
  by (simp_all add: holds_def)

lemma rw_probed_tree:
  assumes "holds fdt rs ts strs room"
  shows "fdt_rw_probe' fdt = Some (0, fdt)" "rw_probed fdt rest = rest fdt"
proof -
  obtain T st Y where h: "fdt = fdt_image FDT_MAGIC T rs st strs Y" "fits T rs st strs Y"
    using assms by (auto simp: holds_def)
  have b: "48 + int (length rs) + int (length st) + int (length strs) \<le> T" "T \<le> INT_MAX" using h(2) by (simp_all add: fits_def)
  have u: "u32 (48 + 16) = 64" "s32 (int (length st)) = int (length st)"
    "u32 (48 + int (length rs) + int (length st)) = 48 + int (length rs) + int (length st)"
    "u32 (48 + int (length rs) + int (length st) + int (length strs)) = 48 + int (length rs) + int (length st) + int (length strs)"
    using b by (auto intro!: u32_id s32_id simp: is_int_def)
  have "fdt_blocks_misordered' fdt 16 (s32 (int (length st))) = Some False"
    using image_reads [of FDT_MAGIC T rs st strs Y] image_hdr [OF h(2), of FDT_MAGIC] h(1) u b(1) holds_tokens(2) [OF assms]
    by (simp add: fdt_blocks_misordered'_def FDT_ALIGN_def)
  then show "fdt_rw_probe' fdt = Some (0, fdt)"
    using holds_header(1,2) [OF assms] image_reads(10) [of FDT_MAGIC T rs st strs Y] image_hdr(9) [OF h(2), of FDT_MAGIC] h(1)
    by (simp add: fdt_rw_probe'_def)
  then show "rw_probed fdt rest = rest fdt" by (simp add: rw_probed_def)
qed

lemma splice_out:
  assumes h: "holds fdt rs (us @ ms @ ws) strs room"
  shows "\<exists>fdt'. fdt_splice_struct' fdt (48 + int (length rs) + bytes us) (bytes ms) 0 = Some (0, fdt')
    \<and> holds fdt' rs (us @ ws) strs (room + bytes ms)"
proof -
  obtain T A X B Y where p: "fdt = fdt_image FDT_MAGIC T rs (A @ X @ B) strs Y" "fits T rs (A @ X @ B) strs Y"
    "block us A" "block (ws @ [Fin]) B" "int (length A) = bytes us" "int (length X) = bytes ms"
    "room = T - (48 + int (length rs) + bytes (us @ ms @ ws) + 4 + int (length strs))"
    using holds_parts [OF h] by metis
  let ?Y = "drop (0 + length B + length strs) (X @ B @ strs @ Y)"
  note s = splice_struct_image [OF p(2), of 0]
  have "48 + int (length rs) + int (length A) + int 0 + int (length B) + int (length strs) \<le> T"
    using p(2) by (simp add: fits_def)
  then have "fdt_splice_struct' fdt (48 + int (length rs) + bytes us) (bytes ms) 0 = Some (0, fdt_image FDT_MAGIC T rs (A @ [] @ B) strs ?Y)"
    "fits T rs (A @ [] @ B) strs ?Y"
    using s p(1,5,6) by simp_all
  moreover have "holds (fdt_image FDT_MAGIC T rs (A @ [] @ B) strs ?Y) rs (us @ [] @ ws) strs (room + bytes ms)"
    by (rule holdsI [OF calculation(2) p(3) _ p(4)]) (use holds_tokens [OF h] p(7) in simp_all)
  ultimately show ?thesis by auto
qed

lemma splice_in:
  fixes n :: nat
  assumes h: "holds fdt rs (us @ ws) strs room"
  shows "int n > room \<Longrightarrow> fdt_splice_struct' fdt (48 + int (length rs) + bytes us) 0 (int n) = Some (- FDT_ERR_NOSPACE, fdt)"
    "int n \<le> room \<Longrightarrow> \<exists>T A X B Y. fdt_splice_struct' fdt (48 + int (length rs) + bytes us) 0 (int n)
        = Some (0, fdt_image FDT_MAGIC T rs (A @ X @ B) strs Y)
      \<and> fits T rs (A @ X @ B) strs Y \<and> block us A \<and> length X = n \<and> block (ws @ [Fin]) B
      \<and> int (length A) = bytes us
      \<and> room - int n = T - (48 + int (length rs) + bytes us + int n + bytes ws + 4 + int (length strs))"
proof -
  have "holds fdt rs (us @ [] @ ws) strs room" using h by simp
  then obtain T A X B Y where p: "fdt = fdt_image FDT_MAGIC T rs (A @ X @ B) strs Y" "fits T rs (A @ X @ B) strs Y"
    "block us A" "block (ws @ [Fin]) B" "int (length A) = bytes us" "int (length X) = 0" "int (length B) = bytes ws + 4"
    "room = T - (48 + int (length rs) + bytes (us @ [] @ ws) + 4 + int (length strs))"
    using holds_parts by (metis bytes_simps(1))
  note s = splice_struct_image [OF p(2), of n]
  show "int n > room \<Longrightarrow> fdt_splice_struct' fdt (48 + int (length rs) + bytes us) 0 (int n) = Some (- FDT_ERR_NOSPACE, fdt)"
    using s(1) p(1,5-8) by simp
  let ?X = "take n (X @ B @ strs @ Y)" and ?Y = "drop (n + length B + length strs) (X @ B @ strs @ Y)"
  assume "int n \<le> room"
  then have "48 + int (length rs) + int (length A) + int n + int (length B) + int (length strs) \<le> T"
    using p(5,7,8) by simp
  with s p(1,3-8) have "fdt_splice_struct' fdt (48 + int (length rs) + bytes us) 0 (int n)
        = Some (0, fdt_image FDT_MAGIC T rs (A @ ?X @ B) strs ?Y)
      \<and> fits T rs (A @ ?X @ B) strs ?Y \<and> block us A \<and> length ?X = n \<and> block (ws @ [Fin]) B
      \<and> int (length A) = bytes us
      \<and> room - int n = T - (48 + int (length rs) + bytes us + int n + bytes ws + 4 + int (length strs))"
    by simp
  then show "\<exists>T A X B Y. fdt_splice_struct' fdt (48 + int (length rs) + bytes us) 0 (int n)
        = Some (0, fdt_image FDT_MAGIC T rs (A @ X @ B) strs Y)
      \<and> fits T rs (A @ X @ B) strs Y \<and> block us A \<and> length X = n \<and> block (ws @ [Fin]) B
      \<and> int (length A) = bytes us
      \<and> room - int n = T - (48 + int (length rs) + bytes us + int n + bytes ws + 4 + int (length strs))"
    by blast
qed

section \<open>Deleting a property\<close>

lemma prop_bytes: "int (length v) < INT_MAX - 16 \<Longrightarrow> s32 (12 + FDT_TAGALIGN (int (length v))) = bytes [Prop off v]"
  using length_enc(3) [of off v] TAGALIGN_bounds [of "int (length v)"] by (simp add: bytes_def s32_id is_int_def)

lemma holds_value_small:
  assumes "holds fdt rs (us @ Prop off v # ws) strs room"
  shows "int (length v) < INT_MAX - 64"
proof -
  obtain T A X B Y where p: "fits T rs (A @ X @ B) strs Y" "int (length X) = bytes [Prop off v]"
    using holds_parts [of fdt rs us "[Prop off v]" ws strs room] assms by (metis append_Cons append_Nil)
  then show ?thesis
    using length_enc(3) [of off v] TAGALIGN_bounds(1) [of "int (length v)"] holds_tokens(2) [OF assms]
    by (simp add: fits_def bytes_def del: enc.simps)
qed

lemma delprop_tree:
  assumes h: "holds fdt rs (us @ Node_begin nm # ps @ Prop off v # ws) strs room"
    and o: "others strs name ps" "string_at strs off name"
  shows "\<exists>fdt'. fdt_delprop fdt (bytes us) name = Some (0, fdt')
    \<and> holds fdt' rs (us @ Node_begin nm # ps @ ws) strs (room + bytes [Prop off v])"
proof -
  have h': "holds fdt rs ((us @ Node_begin nm # ps) @ [Prop off v] @ ws) strs room" using h by simp
  have "int (length v) < INT_MAX - 16" using holds_value_small [of fdt rs "us @ Node_begin nm # ps" off v ws strs room] h by simp
  note b = prop_bytes [OF this, of off]
  show ?thesis
    using splice_out [OF h'] get_property_tree_found(1) [OF h o]
    unfolding fdt_delprop_def rw_probed_tree(2) [OF h] by (simp add: b del: bytes_simps)
qed

section \<open>Setting a property\<close>

lemma image_write_bytes:
  assumes "fits T rs (A @ D @ C) strs Y" "length D = length D'" "p = 48 + int (length rs) + int (length A)"
  shows "wr_bytes (fdt_image m T rs (A @ D @ C) strs Y) p D' = Some (fdt_image m T rs (A @ D' @ C) strs Y)"
proof -
  let ?H = "front m T rs (A @ D @ C) strs A"
  have "wr_bytes (?H @ D @ (C @ strs @ Y)) p D' = Some (?H @ D' @ (C @ strs @ Y))"
    using assms by (intro wr_bytes_append) simp_all
  then show ?thesis using assms(2) by (simp add: fdt_image_def)
qed

text \<open>The header of a property gets its length, and the place behind its first \<open>k\<close> bytes the
  bytes \<open>w\<close>.\<close>

lemma fill_property:
  assumes f: "fits T rs (A @ (cpu_to_fdt32 FDT_PROP @ L @ cpu_to_fdt32 off) @ X @ B) strs Y"
    and L: "length L = 4" and X: "int (length X) = FDT_TAGALIGN (int k + int (length w))"
  defines "p \<equiv> 48 + int (length rs) + int (length A)"
  shows "\<exists>fdt1 bs. wr32 (fdt_image m T rs (A @ (cpu_to_fdt32 FDT_PROP @ L @ cpu_to_fdt32 off) @ X @ B) strs Y)
        (p + 4) (int k + int (length w)) = Some fdt1
      \<and> wr_bytes fdt1 (p + 12 + int k) w = Some (fdt_image m T rs (A @ bs @ B) strs Y)
      \<and> encodes (Prop off (take k X @ w)) bs \<and> length bs = 12 + length X"
proof -
  let ?n = "int k + int (length w)"
  let ?T = "cpu_to_fdt32 FDT_PROP" and ?O = "cpu_to_fdt32 off"
  have kw: "k + length w \<le> length X" using X TAGALIGN_bounds(1) [of ?n] by linarith
  let ?J = "fdt_image m T rs (A @ ?T @ cpu_to_fdt32 ?n @ ?O @ X @ B) strs Y"
  let ?bs = "?T @ cpu_to_fdt32 ?n @ ?O @ take k X @ w @ drop (k + length w) X"
  have "wr32 (fdt_image m T rs ((A @ ?T) @ L @ (?O @ X @ B)) strs Y) (p + 4) ?n
      = Some (fdt_image m T rs ((A @ ?T) @ cpu_to_fdt32 ?n @ (?O @ X @ B)) strs Y)"
    unfolding wr32_def using f L by (intro image_write_bytes) (simp_all add: p_def)
  then have w1: "wr32 (fdt_image m T rs (A @ (?T @ L @ ?O) @ X @ B) strs Y) (p + 4) ?n = Some ?J" by simp
  have "take k X @ take (length w) (drop k X) @ drop (k + length w) X = X"
    by (metis add.commute append_take_drop_id drop_drop)
  then have J: "?J = fdt_image m T rs ((A @ ?T @ cpu_to_fdt32 ?n @ ?O @ take k X)
        @ take (length w) (drop k X) @ (drop (k + length w) X @ B)) strs Y"
    by (metis append.assoc)
  have "wr_bytes ?J (p + 12 + int k) w
      = Some (fdt_image m T rs ((A @ ?T @ cpu_to_fdt32 ?n @ ?O @ take k X) @ w @ (drop (k + length w) X @ B)) strs Y)"
    unfolding J using f L kw by (intro image_write_bytes) (simp_all add: p_def fits_def)
  then have w2: "wr_bytes ?J (p + 12 + int k) w = Some (fdt_image m T rs (A @ ?bs @ B) strs Y)" by simp
  have n: "int (length (take k X @ w)) = ?n" using kw by simp
  have "int (length (enc (Prop off (take k X @ w)))) = 12 + int (length X)"
    by (simp only: length_enc(3) n X)
  with n kw have e: "encodes (Prop off (take k X @ w)) ?bs" "length ?bs = 12 + length X"
    unfolding encodes_def by (auto simp del: enc.simps)
  show ?thesis using w1 w2 e by blast
qed

text \<open>The value of a property gets \<open>n\<close> bytes of the block.\<close>

lemma resize_splice:
  fixes n :: nat
  assumes h: "holds fdt rs (us @ Prop off v # ws) strs room"
  defines "p \<equiv> 48 + int (length rs) + bytes us" and "old \<equiv> FDT_TAGALIGN (int (length v))"
  shows "int n - old > room \<Longrightarrow> fdt_splice_struct' fdt (p + 12) old (int n) = Some (- FDT_ERR_NOSPACE, fdt)"
    "int n - old \<le> room \<Longrightarrow> \<exists>T A X B Y. fdt_splice_struct' fdt (p + 12) old (int n)
        = Some (0, fdt_image FDT_MAGIC T rs
            (A @ (cpu_to_fdt32 FDT_PROP @ cpu_to_fdt32 (int (length v)) @ cpu_to_fdt32 off) @ X @ B) strs Y)
      \<and> fits T rs (A @ (cpu_to_fdt32 FDT_PROP @ cpu_to_fdt32 (int (length v)) @ cpu_to_fdt32 off) @ X @ B) strs Y
      \<and> block us A \<and> length X = n \<and> block (ws @ [Fin]) B \<and> int (length A) = bytes us
      \<and> (length v \<le> n \<longrightarrow> take (length v) X = v)
      \<and> room - int n + old = T - (48 + int (length rs) + bytes us + 12 + int n + bytes ws + 4 + int (length strs))"
proof -
  let ?H = "cpu_to_fdt32 FDT_PROP @ cpu_to_fdt32 (int (length v)) @ cpu_to_fdt32 off"
  have "holds fdt rs (us @ [Prop off v] @ ws) strs room" using h by simp
  then obtain T A bs B Y where p: "fdt = fdt_image FDT_MAGIC T rs (A @ bs @ B) strs Y" "fits T rs (A @ bs @ B) strs Y"
    "block us A" "block [Prop off v] bs" "block (ws @ [Fin]) B" "int (length A) = bytes us" "int (length bs) = bytes [Prop off v]"
    "int (length B) = bytes ws + 4" "room = T - (48 + int (length rs) + bytes (us @ [Prop off v] @ ws) + 4 + int (length strs))"
    using holds_parts by metis
  obtain z where z: "bs = ?H @ v @ z" using p(4) by (auto simp: encodes_def)
  have lb: "bytes [Prop off v] = 12 + old" using length_enc(3) [of off v] by (simp add: bytes_def old_def)
  then have old: "int (length (v @ z)) = old" using p(7) z by simp
  have st: "A @ bs @ B = (A @ ?H) @ (v @ z) @ B" using z by simp
  note s = splice_struct_image [OF p(2) [unfolded st], of n, folded st p(1)]
  have q: "48 + int (length rs) + int (length (A @ ?H)) = p + 12" using p(6) by (simp add: p_def)
  have room: "room = T - (48 + int (length rs) + (bytes us + 12 + old + bytes ws) + 4 + int (length strs))"
    using p(9) lb by (simp del: bytes_simps(2)) simp
  show "int n - old > room \<Longrightarrow> fdt_splice_struct' fdt (p + 12) old (int n) = Some (- FDT_ERR_NOSPACE, fdt)"
    using s(1) unfolding q old using p(1,8) room by (simp add: p_def)
  let ?X = "take n ((v @ z) @ B @ strs @ Y)" and ?Y = "drop (n + length B + length strs) ((v @ z) @ B @ strs @ Y)"
  assume r: "int n - old \<le> room"
  then have t: "p + 12 + int n + int (length B) + int (length strs) \<le> T" using p(8) room by (simp add: p_def)
  have i: "fdt_splice_struct' fdt (p + 12) old (int n) = Some (0, fdt_image FDT_MAGIC T rs (A @ ?H @ ?X @ B) strs ?Y)"
    using s(1) t p(1) unfolding q old by simp
  have j: "length ?X = n" "fits T rs (A @ ?H @ ?X @ B) strs ?Y" using s(2) t unfolding q by simp_all
  have k: "length v \<le> n \<longrightarrow> take (length v) ?X = v" by (simp add: min_def)
  have l: "room - int n + old = T - (48 + int (length rs) + bytes us + 12 + int n + bytes ws + 4 + int (length strs))"
    using room by simp
  from i j p(3) k p(5,6) l show "\<exists>T A X B Y. fdt_splice_struct' fdt (p + 12) old (int n)
        = Some (0, fdt_image FDT_MAGIC T rs (A @ ?H @ X @ B) strs Y)
      \<and> fits T rs (A @ ?H @ X @ B) strs Y
      \<and> block us A \<and> length X = n \<and> block (ws @ [Fin]) B \<and> int (length A) = bytes us
      \<and> (length v \<le> n \<longrightarrow> take (length v) X = v)
      \<and> room - int n + old = T - (48 + int (length rs) + bytes us + 12 + int n + bytes ws + 4 + int (length strs))"
    by blast
qed

text \<open>Resizing a value and writing \<open>w\<close> behind its first \<open>k\<close> bytes: \<open>k\<close> is 0 in \<open>fdt_setprop\<close> and
  the old length in \<open>fdt_appendprop\<close>.\<close>

lemma resize_fill:
  fixes w :: "8 word list" and k :: nat
  assumes h: "holds fdt rs (us @ Prop off v # ws) strs room" and k: "k = 0 \<or> k = length v"
  defines "p \<equiv> 48 + int (length rs) + bytes us" and "old \<equiv> FDT_TAGALIGN (int (length v))"
    and "n \<equiv> int k + int (length w)"
  shows "FDT_TAGALIGN n - old > room \<Longrightarrow> fdt_splice_struct' fdt (p + 12) old (FDT_TAGALIGN n) = Some (- FDT_ERR_NOSPACE, fdt)"
    "FDT_TAGALIGN n - old \<le> room \<Longrightarrow> n < INT_MAX \<Longrightarrow> \<exists>fdt1 fdt2 fdt3.
       fdt_splice_struct' fdt (p + 12) old (FDT_TAGALIGN n) = Some (0, fdt1) \<and> wr32 fdt1 (p + 4) n = Some fdt2
       \<and> wr_bytes fdt2 (p + 12 + int k) w = Some fdt3
       \<and> holds fdt3 rs (us @ Prop off (take k v @ w) # ws) strs (room + old - FDT_TAGALIGN n)"
proof -
  have N: "int (nat (FDT_TAGALIGN n)) = FDT_TAGALIGN n" using TAGALIGN_bounds(1) [of n] by (simp add: n_def)
  note s = resize_splice [OF h, of "nat (FDT_TAGALIGN n)", unfolded N]
  show "FDT_TAGALIGN n - old > room \<Longrightarrow> fdt_splice_struct' fdt (p + 12) old (FDT_TAGALIGN n) = Some (- FDT_ERR_NOSPACE, fdt)"
    using s(1) unfolding p_def old_def .
  assume room: "FDT_TAGALIGN n - old \<le> room" and nb: "n < INT_MAX"
  let ?H = "cpu_to_fdt32 FDT_PROP @ cpu_to_fdt32 (int (length v)) @ cpu_to_fdt32 off"
  obtain T A X B Y where i: "fdt_splice_struct' fdt (p + 12) old (FDT_TAGALIGN n) = Some (0, fdt_image FDT_MAGIC T rs (A @ ?H @ X @ B) strs Y)"
    "fits T rs (A @ ?H @ X @ B) strs Y" "block us A" "length X = nat (FDT_TAGALIGN n)" "block (ws @ [Fin]) B" "int (length A) = bytes us"
    "length v \<le> nat (FDT_TAGALIGN n) \<longrightarrow> take (length v) X = v"
    "room - FDT_TAGALIGN n + old = T - (48 + int (length rs) + bytes us + 12 + FDT_TAGALIGN n + bytes ws + 4 + int (length strs))"
    using s(2) room unfolding p_def old_def by blast
  have X: "int (length X) = FDT_TAGALIGN (int k + int (length w))" using i(4) N by (simp add: n_def)
  obtain fdt1 bs where w: "wr32 (fdt_image FDT_MAGIC T rs (A @ ?H @ X @ B) strs Y) (p + 4) n = Some fdt1"
    "wr_bytes fdt1 (p + 12 + int k) w = Some (fdt_image FDT_MAGIC T rs (A @ bs @ B) strs Y)"
    "encodes (Prop off (take k X @ w)) bs" "length bs = 12 + length X"
    using fill_property [OF i(2) _ X, of FDT_MAGIC] i(6) by (auto simp: p_def n_def)
  have "take k X = take k v"
  proof (cases "k = 0")
    case False
    then have "length v \<le> nat (FDT_TAGALIGN n)" using k TAGALIGN_bounds(1) [of n] by (simp add: n_def)
    then show ?thesis using i(7) k by auto
  qed simp
  then have bs: "block [Prop off (take k v @ w)] bs" using w(3) by simp
  have f: "fits T rs (A @ bs @ B) strs Y" using fits_length [OF i(2)] w(4) by simp
  have "length (take k v @ w) = k + length w" using k by auto
  then have lb: "bytes [Prop off (take k v @ w)] = 12 + FDT_TAGALIGN n"
    using length_enc(3) [of off "take k v @ w"] by (simp add: bytes_def n_def)
  have "holds (fdt_image FDT_MAGIC T rs (A @ bs @ B) strs Y) rs (us @ [Prop off (take k v @ w)] @ ws) strs (room + old - FDT_TAGALIGN n)"
  proof (rule holdsI [OF f i(3) bs i(5)])
    show "list_all (token_in strs) (us @ [Prop off (take k v @ w)] @ ws)"
      using holds_tokens(1) [OF h] nb \<open>length (take k v @ w) = _\<close> by (auto simp: n_def)
    show "room + old - FDT_TAGALIGN n = T - (48 + int (length rs) + bytes (us @ [Prop off (take k v @ w)] @ ws) + 4 + int (length strs))"
      using i(8) unfolding bytes_simps(3) lb by simp
  qed (use holds_tokens(2) [OF h] in simp)
  then show "\<exists>fdt1 fdt2 fdt3.
       fdt_splice_struct' fdt (p + 12) old (FDT_TAGALIGN n) = Some (0, fdt1) \<and> wr32 fdt1 (p + 4) n = Some fdt2
       \<and> wr_bytes fdt2 (p + 12 + int k) w = Some fdt3
       \<and> holds fdt3 rs (us @ Prop off (take k v @ w) # ws) strs (room + old - FDT_TAGALIGN n)"
    using i(1) w(1,2) by auto
qed

section \<open>Adding a name\<close>

lemma string_at_append: "string_at strs off nm \<Longrightarrow> string_at (strs @ X) off nm"
  by (fastforce simp: string_at_def)

lemma token_in_append: "token_in strs t \<Longrightarrow> token_in (strs @ X) t"
  by (cases t) (auto intro: string_at_append)

lemma find_string_at_total:
  "(\<And>q. p \<le> q \<Longrightarrow> q \<le> lst \<Longrightarrow> inside fdt q (int (length s) + 1)) \<Longrightarrow> \<exists>r. find_string_at fdt p lst s = Some r"
proof (induction fdt p lst s rule: find_string_at.induct)
  case (1 fdt p lst s)
  show ?case
  proof (cases "p \<le> lst")
    case True
    then have e: "mem_eq fdt p (s @ [0]) = Some (bytes_at fdt p (int (length s) + 1) = s @ [0])"
      using 1(2) [of p] by (simp add: mem_eq_def rd_bytes_def add.commute)
    have "\<exists>r. find_string_at fdt (p + 1) lst s = Some r" if "bytes_at fdt p (int (length s) + 1) \<noteq> s @ [0]"
      using 1(1) [OF True e] that 1(2) by simp
    then show ?thesis using True e by (cases "bytes_at fdt p (int (length s) + 1) = s @ [0]") (auto simp: find_string_at.simps [of fdt p lst s])
  next
    case False
    then show ?thesis by (simp add: find_string_at.simps [of fdt p lst s])
  qed
qed

lemma splice_string_image:
  fixes n :: nat
  assumes f: "fits T rs st strs Y"
  shows "fdt_splice_string' (fdt_image FDT_MAGIC T rs st strs Y) (int n) =
     Some (if 48 + int (length rs) + int (length st) + int (length strs) + int n > T
           then (- FDT_ERR_NOSPACE, fdt_image FDT_MAGIC T rs st strs Y)
           else (0, fdt_image FDT_MAGIC T rs st (strs @ take n Y) (drop n Y)))"
    and "48 + int (length rs) + int (length st) + int (length strs) + int n \<le> T \<Longrightarrow>
      length (take n Y) = n \<and> fits T rs st (strs @ take n Y) (drop n Y)"
proof -
  let ?I = "fdt_image FDT_MAGIC T rs st strs Y"
  let ?used = "48 + int (length rs) + int (length st) + int (length strs)"
  let ?F = "front FDT_MAGIC T rs st strs (st @ strs)"
  have b: "?used \<le> T" "T \<le> ?used + int (length Y)" "T \<le> INT_MAX" using f by (simp_all add: fits_def)
  show fit: "length (take n Y) = n \<and> fits T rs st (strs @ take n Y) (drop n Y)" if "?used + int n \<le> T"
    using that b by (simp add: fits_def)
  have I: "?I = ?F @ [] @ [] @ Y" by (simp add: fdt_image_def)
  have size: "fdt_data_size' ?I = Some (int (length ?F) + int (length ([] :: 8 word list)) + int (length ([] :: 8 word list)))"
    using image_data_size [OF f] by simp
  note r = image_reads [of FDT_MAGIC T rs st strs Y] image_hdr [OF f, of FDT_MAGIC]
  have T: "fdt_totalsize ?I = Some T" "T \<le> int (length ?I)" using r b(2) by (simp_all add: length_image)
  note sp = splice_bytes [OF size I T, of n]
  show "fdt_splice_string' ?I (int n) =
     Some (if ?used + int n > T then (- FDT_ERR_NOSPACE, ?I) else (0, fdt_image FDT_MAGIC T rs st (strs @ take n Y) (drop n Y)))"
  proof (cases "?used + int n > T")
    case True
    then show ?thesis using sp r by (simp add: fdt_splice_string'_def add.assoc)
  next
    case False
    have J: "?F @ take n Y @ drop n Y = ?I" by (simp add: fdt_image_def)
    have s: "fdt_splice' ?I ?used 0 (int n) = Some (0, ?I)" using sp False J by (simp add: add.assoc)
    have u: "u32 (int (length strs) + int n) = int (length (strs @ take n Y))"
      using fit b False by (subst u32_id) auto
    show ?thesis using s r u False fit
      by (simp add: fdt_splice_string'_def fdt_image_def header_writes add.assoc)
  qed
qed

text \<open>\<open>fdt_find_add_string_\<close>: the name is there, there is no room, or it is added at the end.\<close>

lemma find_add_string_tree:
  assumes h: "holds fdt rs ts strs room" and nm: "0 \<notin> set name" "int (length name) < INT_MAX - 8"
  shows "(\<exists>off. fdt_find_add_string_rw fdt name = Some (off, fdt) \<and> string_at strs off name)
    \<or> int (length name) + 1 > room \<and> fdt_find_add_string_rw fdt name = Some (- FDT_ERR_NOSPACE, fdt)
    \<or> (\<exists>fdt'. fdt_find_add_string_rw fdt name = Some (int (length strs), fdt')
        \<and> holds fdt' rs ts (strs @ name @ [0]) (room - int (length name) - 1))"
proof -
  obtain T st Y where i: "fdt = fdt_image FDT_MAGIC T rs st strs Y" "fits T rs st strs Y" "block (ts @ [Fin]) st"
    "room = T - (48 + int (length rs) + int (length st) + int (length strs))"
    using h by (auto simp: holds_def)
  let ?s = "48 + int (length rs) + int (length st)" and ?n = "int (length strs)" and ?l = "int (length name) + 1"
  have b: "?s + ?n \<le> T" "T \<le> ?s + ?n + int (length Y)" "T \<le> INT_MAX" using i(2) by (simp_all add: fits_def)
  have s: "s32 ?l = ?l" "s32 ?n = ?n" using nm(2) b by (auto intro!: s32_id simp: is_int_def)
  note r = image_reads [of FDT_MAGIC T rs st strs Y, folded i(1)] image_hdr [OF i(2), of FDT_MAGIC, folded i(1)]
  have "inside fdt q ?l" if "?s \<le> q" "q \<le> ?s + ?n - ?l" for q using that i(1) by (simp add: inside_def length_image)
  then obtain found where find: "find_string_at fdt ?s (?s + ?n - ?l) name = Some found"
    using find_string_at_total [of ?s "?s + ?n - ?l" fdt name] by blast
  then have find': "fdt_find_string' fdt ?s ?n name = Some found" using s by (simp add: fdt_find_string'_def)
  show ?thesis
  proof (cases found)
    case (Some q)
    have q: "?s \<le> q" "q \<le> ?s + ?n - ?l" "bytes_at fdt q ?l = name @ [0]"
      using find_string_at_some [OF find [unfolded Some]] by auto
    define k where "k = nat (q - ?s)"
    have k: "q = ?s + int k" "k + length name + 1 \<le> length strs" using q(1,2) by (simp_all add: k_def)
    let ?P = "front FDT_MAGIC T rs st strs st @ take k strs" and ?M = "take (length name + 1) (drop k strs)"
    let ?Q = "drop (k + length name + 1) strs @ Y"
    have "take k strs @ ?M @ drop (k + length name + 1) strs = strs"
      by (metis add.assoc add.commute append_take_drop_id drop_drop)
    then have "fdt = ?P @ ?M @ ?Q" using i(1) by (simp add: fdt_image_def)
    moreover have "int (length ?P) = q" "int (length ?M) = ?l" using k by simp_all
    ultimately have "name @ [0] = ?M" using bytes_at_append [of ?P ?M ?Q] q(3) by metis
    then have "strs = take k strs @ name @ 0 # drop (length name + 1) (drop k strs)"
      by (metis append.assoc append_Cons append_Nil append_take_drop_id)
    moreover have "int k = int (length (take k strs))" using k(2) by simp
    ultimately have "string_at strs (int k) name" using nm(1) unfolding string_at_def by blast
    moreover have "s32 (q - ?s) = int k" using k b by (subst s32_id) (auto simp: is_int_def)
    ultimately show ?thesis using find' Some r s by (simp add: fdt_find_add_string_rw_def Let_def)
  next
    case None
    have n: "int (length name + 1) = ?l" by simp
    note sp = splice_string_image [OF i(2), of "length name + 1", folded i(1), unfolded n]
    show ?thesis
    proof (cases "?l > room")
      case True
      then show ?thesis using find' None r s sp(1) i(4) by (simp add: fdt_find_add_string_rw_def Let_def)
    next
      case False
      let ?X = "take (length name + 1) Y" and ?Y = "drop (length name + 1) Y"
      have sp': "fdt_splice_string' fdt ?l = Some (0, fdt_image FDT_MAGIC T rs st (strs @ ?X) ?Y)"
        "length ?X = length name + 1" "fits T rs st (strs @ ?X) ?Y"
        using sp False i(4) by simp_all
      have "fdt_image FDT_MAGIC T rs st (strs @ ?X) ?Y = front FDT_MAGIC T rs st (strs @ ?X) (st @ strs) @ ?X @ ?Y"
        by (simp add: fdt_image_def)
      then have "wr_bytes (fdt_image FDT_MAGIC T rs st (strs @ ?X) ?Y) (?s + ?n) (name @ [0])
          = Some (front FDT_MAGIC T rs st (strs @ ?X) (st @ strs) @ (name @ [0]) @ ?Y)"
        using sp'(2) by (simp only:) (rule wr_bytes_append; simp)
      also have "front FDT_MAGIC T rs st (strs @ ?X) (st @ strs) @ (name @ [0]) @ ?Y
          = fdt_image FDT_MAGIC T rs st (strs @ name @ [0]) ?Y"
        using sp'(2) by (simp add: fdt_image_def)
      finally have w: "wr_bytes (fdt_image FDT_MAGIC T rs st (strs @ ?X) ?Y) (?s + ?n) (name @ [0])
          = Some (fdt_image FDT_MAGIC T rs st (strs @ name @ [0]) ?Y)" .
      have "fits T rs st (strs @ name @ [0]) ?Y" using sp'(2,3) by (simp add: fits_def)
      then have "holds (fdt_image FDT_MAGIC T rs st (strs @ name @ [0]) ?Y) rs ts (strs @ name @ [0]) (room - int (length name) - 1)"
        using i(3,4) holds_tokens [OF h] unfolding holds_def by (fastforce simp: list_all_iff intro: token_in_append)
      then show ?thesis using find' None r s sp'(1) w by (simp add: fdt_find_add_string_rw_def Let_def)
    qed
  qed
qed

text \<open>The new property is the first of the node.\<close>

lemma insert_property:
  assumes h: "holds fdt rs (us @ ws) strs room" and off: "string_at strs off name" and w: "int (length w) < INT_MAX - 16"
  defines "p \<equiv> 48 + int (length rs) + bytes us" and "n \<equiv> 12 + FDT_TAGALIGN (int (length w))"
  shows "n > room \<Longrightarrow> fdt_splice_struct' fdt p 0 n = Some (- FDT_ERR_NOSPACE, fdt)"
    "n \<le> room \<Longrightarrow> \<exists>fdt1 fdt2 fdt3 fdt4 fdt5. fdt_splice_struct' fdt p 0 n = Some (0, fdt1)
       \<and> wr32 fdt1 p FDT_PROP = Some fdt2 \<and> wr32 fdt2 (p + 8) off = Some fdt3
       \<and> wr32 fdt3 (p + 4) (int (length w)) = Some fdt4 \<and> wr_bytes fdt4 (p + 12) w = Some fdt5
       \<and> holds fdt5 rs (us @ Prop off w # ws) strs (room - n)"
proof -
  have N: "int (nat n) = n" using TAGALIGN_bounds(1) [of "int (length w)"] by (simp add: n_def)
  note s = splice_in [OF h, of "nat n", unfolded N]
  show "n > room \<Longrightarrow> fdt_splice_struct' fdt p 0 n = Some (- FDT_ERR_NOSPACE, fdt)" using s(1) unfolding p_def .
  assume room: "n \<le> room"
  obtain T A Z B Y where i: "fdt_splice_struct' fdt p 0 n = Some (0, fdt_image FDT_MAGIC T rs (A @ Z @ B) strs Y)"
    "fits T rs (A @ Z @ B) strs Y" "block us A" "length Z = nat n" "block (ws @ [Fin]) B" "int (length A) = bytes us"
    "room - n = T - (48 + int (length rs) + bytes us + n + bytes ws + 4 + int (length strs))"
    using s(2) room unfolding p_def by blast
  define L X where "L = take 4 (drop 4 Z)" and "X = drop 12 Z"
  let ?Z1 = "take 4 Z" and ?Z3 = "take 4 (drop 8 Z)"
  let ?T = "cpu_to_fdt32 FDT_PROP" and ?O = "cpu_to_fdt32 off"
  have n12: "12 \<le> nat n" using TAGALIGN_bounds(1) [of "int (length w)"] by (simp add: n_def)
  have "drop 12 Z = drop 4 (drop 8 Z)" "drop 8 Z = drop 4 (drop 4 Z)" by simp_all
  then have Z: "Z = ?Z1 @ L @ ?Z3 @ X" unfolding L_def X_def by (metis append_take_drop_id)
  have len: "length ?Z1 = 4" "length L = 4" "length ?Z3 = 4" "int (length X) = FDT_TAGALIGN (int 0 + int (length w))"
    using i(4) n12 N by (simp_all add: L_def X_def n_def)
  have pA: "p = 48 + int (length rs) + int (length A)" using i(6) by (simp add: p_def)
  let ?I = "\<lambda>st. fdt_image FDT_MAGIC T rs st strs Y"
  have f: "fits T rs st strs Y" if "length st = length (A @ Z @ B)" for st using fits_length [OF i(2) that] .
  have "length Z = length ?Z1 + (length L + (length ?Z3 + length X))" by (metis Z length_append)
  then have lZ: "length Z = 12 + length X" unfolding len(1-3) by simp
  have w1: "wr32 (?I (A @ Z @ B)) p FDT_PROP = Some (?I (A @ ?T @ L @ ?Z3 @ X @ B))"
  proof -
    have "wr_bytes (?I (A @ ?Z1 @ (L @ ?Z3 @ X @ B))) p ?T = Some (?I (A @ ?T @ (L @ ?Z3 @ X @ B)))"
      by (rule image_write_bytes [OF f _ pA]) (use len lZ in simp_all)
    then show ?thesis unfolding wr32_def by (metis Z append.assoc)
  qed
  have w2: "wr32 (?I (A @ ?T @ L @ ?Z3 @ X @ B)) (p + 8) off = Some (?I (A @ (?T @ L @ ?O) @ X @ B))"
  proof -
    have "wr_bytes (?I ((A @ ?T @ L) @ ?Z3 @ (X @ B))) (p + 8) ?O = Some (?I ((A @ ?T @ L) @ ?O @ (X @ B)))"
      by (rule image_write_bytes [OF f]) (use len lZ pA in simp_all)
    then show ?thesis unfolding wr32_def by simp
  qed
  have f3: "fits T rs (A @ (?T @ L @ ?O) @ X @ B) strs Y" by (rule f) (use len lZ in simp)
  obtain fdt4 bs where w3: "wr32 (?I (A @ (?T @ L @ ?O) @ X @ B)) (p + 4) (int (length w)) = Some fdt4"
    "wr_bytes fdt4 (p + 12) w = Some (?I (A @ bs @ B))" "encodes (Prop off w) bs" "length bs = 12 + length X"
    using fill_property [OF f3 len(2,4), of FDT_MAGIC] pA by auto
  have lb: "bytes [Prop off w] = n" using length_enc(3) [of off w] by (simp add: bytes_def n_def)
  have "holds (?I (A @ bs @ B)) rs (us @ [Prop off w] @ ws) strs (room - n)"
  proof (rule holdsI [OF f i(3) _ i(5)])
    show "length (A @ bs @ B) = length (A @ Z @ B)" using w3(4) lZ by simp
    show "block [Prop off w] bs" using w3(3) by simp
    show "list_all (token_in strs) (us @ [Prop off w] @ ws)" using holds_tokens(1) [OF h] off w by auto
    show "room - n = T - (48 + int (length rs) + bytes (us @ [Prop off w] @ ws) + 4 + int (length strs))"
      using i(7) unfolding bytes_simps(3) lb by simp
  qed (use holds_tokens(2) [OF h] in simp)
  then show "\<exists>fdt1 fdt2 fdt3 fdt4 fdt5. fdt_splice_struct' fdt p 0 n = Some (0, fdt1)
       \<and> wr32 fdt1 p FDT_PROP = Some fdt2 \<and> wr32 fdt2 (p + 8) off = Some fdt3
       \<and> wr32 fdt3 (p + 4) (int (length w)) = Some fdt4 \<and> wr_bytes fdt4 (p + 12) w = Some fdt5
       \<and> holds fdt5 rs (us @ Prop off w # ws) strs (room - n)"
    using i(1) w1 w2 w3(1,2) by auto
qed

end
