(* ===== verification/Fdt_Edits.thy ===== *)
theory Fdt_Edits
  imports Fdt_Splice
begin

text \<open>
  The operations of \<open>fdt_rw.c\<close> and \<open>fdt_wip.c\<close> on a buffer that holds a tree, each as an edit of the
  list of tokens.
\<close>

section \<open>Properties\<close>

lemma value_small: "int (length w) < INT_MAX - 64 \<Longrightarrow> s32 (FDT_TAGALIGN (int (length w))) = FDT_TAGALIGN (int (length w))"
  using TAGALIGN_bounds [of "int (length w)"] by (intro s32_id) (simp add: is_int_def)

lemma setprop_tree_found:
  assumes h: "holds fdt rs (us @ Node_begin nm # ps @ Prop off v # ws) strs room"
    and o: "others strs name ps" "string_at strs off name" and w: "int (length w) < INT_MAX - 64"
  shows "(\<exists>fdt'. fdt_setprop fdt (bytes us) name w = Some (0, fdt')
        \<and> holds fdt' rs (us @ Node_begin nm # ps @ Prop off w # ws) strs
            (room + FDT_TAGALIGN (int (length v)) - FDT_TAGALIGN (int (length w))))
    \<or> FDT_TAGALIGN (int (length w)) - FDT_TAGALIGN (int (length v)) > room
      \<and> fdt_setprop fdt (bytes us) name w = Some (- FDT_ERR_NOSPACE, fdt)"
proof -
  let ?us = "us @ Node_begin nm # ps"
  let ?p = "48 + int (length rs) + bytes ?us"
  have h': "holds fdt rs (?us @ Prop off v # ws) strs room" using h by simp
  have v: "int (length v) < INT_MAX - 64" using holds_value_small [OF h'] .
  note r = resize_fill [OF h', of 0 w, simplified]
  note s = value_small [OF v] value_small [OF w]
  note g = get_property_tree_found(1) [OF h o]
  show ?thesis
  proof (cases "FDT_TAGALIGN (int (length w)) - FDT_TAGALIGN (int (length v)) > room")
    case True
    have "fdt_splice_struct' fdt (?p + 12) (FDT_TAGALIGN (int (length v))) (FDT_TAGALIGN (int (length w))) = Some (- FDT_ERR_NOSPACE, fdt)"
      using resize_fill(1) [OF h', of 0 w] True by simp
    then show ?thesis using True s g rw_probed_tree(1) [OF h]
      by (simp add: fdt_setprop_def fdt_setprop_placeholder_def fdt_resize_property'_def del: bytes_simps)
  next
    case False
    obtain fdt1 fdt2 fdt3 where f:
      "fdt_splice_struct' fdt (?p + 12) (FDT_TAGALIGN (int (length v))) (FDT_TAGALIGN (int (length w))) = Some (0, fdt1)"
      "wr32 fdt1 (?p + 4) (int (length w)) = Some fdt2" "wr_bytes fdt2 (?p + 12) w = Some fdt3"
      "holds fdt3 rs (?us @ Prop off w # ws) strs (room + FDT_TAGALIGN (int (length v)) - FDT_TAGALIGN (int (length w)))"
      using resize_fill(2) [OF h', of 0 w] False w by auto
    have e: "w \<noteq> [] \<longrightarrow> wr_bytes fdt2 (?p + 12) w = Some fdt3" "w = [] \<longrightarrow> fdt2 = fdt3"
      using f(3) by (auto simp: wr_bytes_def split: if_splits)
    have "fdt_setprop_placeholder fdt (bytes us) name (int (length w)) = Some (0, ?p + 12, fdt2)"
      using s g rw_probed_tree(1) [OF h] f(1,2)
      by (simp add: fdt_setprop_placeholder_def fdt_resize_property'_def del: bytes_simps)
    then have "fdt_setprop fdt (bytes us) name w = Some (0, fdt3)"
      unfolding fdt_setprop_def using e by (simp del: bytes_simps)
    then show ?thesis using f(4) by simp
  qed
qed

lemma appendprop_tree_found:
  assumes h: "holds fdt rs (us @ Node_begin nm # ps @ Prop off v # ws) strs room"
    and o: "others strs name ps" "string_at strs off name" and w: "int (length (v @ w)) < INT_MAX - 64"
  shows "(\<exists>fdt'. fdt_appendprop fdt (bytes us) name w = Some (0, fdt')
        \<and> holds fdt' rs (us @ Node_begin nm # ps @ Prop off (v @ w) # ws) strs
            (room + FDT_TAGALIGN (int (length v)) - FDT_TAGALIGN (int (length (v @ w)))))
    \<or> FDT_TAGALIGN (int (length (v @ w))) - FDT_TAGALIGN (int (length v)) > room
      \<and> fdt_appendprop fdt (bytes us) name w = Some (- FDT_ERR_NOSPACE, fdt)"
proof -
  let ?us = "us @ Node_begin nm # ps"
  let ?p = "48 + int (length rs) + bytes ?us"
  let ?n = "int (length v) + int (length w)"
  have h': "holds fdt rs (?us @ Prop off v # ws) strs room" using h by simp
  have v: "int (length v) < INT_MAX - 64" using holds_value_small [OF h'] .
  have n: "int (length (v @ w)) = ?n" by simp
  have s: "s32 (FDT_TAGALIGN (int (length v))) = FDT_TAGALIGN (int (length v))" "s32 (FDT_TAGALIGN ?n) = FDT_TAGALIGN ?n"
    "s32 (int (length w) + int (length v)) = ?n"
    using value_small [OF v] value_small [OF w] w by (simp_all add: s32_id is_int_def)
  note g = get_property_tree_found(1) [OF h o]
  show ?thesis
  proof (cases "FDT_TAGALIGN ?n - FDT_TAGALIGN (int (length v)) > room")
    case True
    have "fdt_splice_struct' fdt (?p + 12) (FDT_TAGALIGN (int (length v))) (FDT_TAGALIGN ?n) = Some (- FDT_ERR_NOSPACE, fdt)"
      using resize_fill(1) [OF h', of "length v" w] True by simp
    then show ?thesis using True s g n
      unfolding fdt_appendprop_def rw_probed_tree(2) [OF h] by (simp add: Let_def del: bytes_simps)
  next
    case False
    obtain fdt1 fdt2 fdt3 where f:
      "fdt_splice_struct' fdt (?p + 12) (FDT_TAGALIGN (int (length v))) (FDT_TAGALIGN ?n) = Some (0, fdt1)"
      "wr32 fdt1 (?p + 4) ?n = Some fdt2" "wr_bytes fdt2 (?p + 12 + int (length v)) w = Some fdt3"
      "holds fdt3 rs (?us @ Prop off (v @ w) # ws) strs (room + FDT_TAGALIGN (int (length v)) - FDT_TAGALIGN ?n)"
      using resize_fill(2) [OF h', of "length v" w] False w by auto
    then show ?thesis using s g n
      unfolding fdt_appendprop_def rw_probed_tree(2) [OF h] by (simp add: Let_def del: bytes_simps)
  qed
qed

text \<open>The name is missing: the strings block may grow, and the property becomes the first one.\<close>

lemma setprop_tree_new:
  assumes h: "holds fdt rs (us @ Node_begin nm # ps @ ws) strs room"
    and o: "others strs name ps" "props_over ws" "ws \<noteq> []"
    and nm: "0 \<notin> set name" "int (length name) < INT_MAX - 8" and w: "int (length w) < INT_MAX - 64"
  shows "\<exists>err fdt' strs' room'. fdt_setprop fdt (bytes us) name w = Some (err, fdt')
    \<and> (strs' = strs \<or> strs' = strs @ name @ [0])
    \<and> (err = 0 \<and> (\<exists>off. string_at strs' off name
          \<and> holds fdt' rs (us @ Node_begin nm # Prop off w # ps @ ws) strs' room')
          \<and> room - (12 + FDT_TAGALIGN (int (length w)) + int (length name) + 1) \<le> room'
       \<or> err = - FDT_ERR_NOSPACE \<and> holds fdt' rs (us @ Node_begin nm # ps @ ws) strs' room'
          \<and> room < 12 + FDT_TAGALIGN (int (length w)) + int (length name) + 1)"
proof -
  let ?us = "us @ [Node_begin nm]"
  let ?p = "48 + int (length rs) + bytes ?us" and ?n = "12 + FDT_TAGALIGN (int (length w))"
  have miss: "fdt_resize_property' fdt (bytes us) name (int (length w)) = Some (- FDT_ERR_NOTFOUND, None, fdt)"
    using get_property_tree_missing [OF h o] by (simp add: fdt_resize_property'_def)
  have setprop: "fdt_setprop fdt (bytes us) name w = do {
      (err, prop, fdt) \<leftarrow> fdt_add_property' fdt (bytes us) name (int (length w));
      if err \<noteq> 0 then Some (err, fdt)
      else do { fdt \<leftarrow> (if w \<noteq> [] then wr_bytes fdt (the prop + 12) w else Some fdt); Some (0, fdt) } }"
    using rw_probed_tree(1) [OF h] miss
    by (cases "fdt_add_property' fdt (bytes us) name (int (length w))")
      (auto simp: fdt_setprop_def fdt_setprop_placeholder_def split: prod.splits)
  have nn: "\<not> bytes ?us < 0" using bytes_nonneg [of ?us] by linarith
  have sn: "s32 ?n = ?n" using TAGALIGN_bounds [of "int (length w)"] w by (intro s32_id) (simp add: is_int_def)
  have np: "0 \<le> ?n" using TAGALIGN_bounds(1) [of "int (length w)"] by simp
  have added: "\<exists>err fdt' room'. fdt_setprop fdt (bytes us) name w = Some (err, fdt')
    \<and> (err = 0 \<and> holds fdt' rs (us @ Node_begin nm # Prop off w # ps @ ws) strs' room' \<and> room' = room1 - ?n
       \<or> err = - FDT_ERR_NOSPACE \<and> holds fdt' rs (us @ Node_begin nm # ps @ ws) strs' room' \<and> room1 < ?n)"
    if f: "fdt_find_add_string_rw fdt name = Some (off, fdt1)" and s: "string_at strs' off name"
      and h1: "holds fdt1 rs (us @ Node_begin nm # ps @ ws) strs' room1" for off fdt1 strs' room1
  proof -
    have h2: "holds fdt1 rs (?us @ (ps @ ws)) strs' room1" using h1 by simp
    have off: "\<not> off < 0" using s by (auto simp: string_at_def)
    note ins = insert_property [OF h2 s, of w]
    have base: "fdt_offset_ptr' fdt1 (bytes ?us) = Some ?p" using holds_header(3) [OF h1] by (simp add: fdt_offset_ptr'_def)
    show ?thesis
    proof (cases "?n > room1")
      case True
      then have "fdt_add_property' fdt (bytes us) name (int (length w)) = Some (- FDT_ERR_NOSPACE, Some ?p, fdt1)"
        using ins(1) w holds_node_offset [OF h] nn f off base sn
        by (simp add: fdt_add_property'_def Let_def del: bytes_simps)
      then show ?thesis using setprop True h1 by auto
    next
      case False
      obtain fdt2 fdt3 fdt4 fdt5 fdt6 where g: "fdt_splice_struct' fdt1 ?p 0 ?n = Some (0, fdt2)"
        "wr32 fdt2 ?p FDT_PROP = Some fdt3" "wr32 fdt3 (?p + 8) off = Some fdt4"
        "wr32 fdt4 (?p + 4) (int (length w)) = Some fdt5" "wr_bytes fdt5 (?p + 12) w = Some fdt6"
        "holds fdt6 rs (?us @ Prop off w # (ps @ ws)) strs' (room1 - ?n)"
        using ins(2) w False by auto
      have "fdt_add_property' fdt (bytes us) name (int (length w)) = Some (0, Some ?p, fdt5)"
        using g(1-4) holds_node_offset [OF h] nn f off base sn
        by (simp add: fdt_add_property'_def Let_def del: bytes_simps)
      moreover have "w \<noteq> [] \<longrightarrow> wr_bytes fdt5 (?p + 12) w = Some fdt6" "w = [] \<longrightarrow> fdt5 = fdt6"
        using g(5) by (auto simp: wr_bytes_def split: if_splits)
      ultimately have "fdt_setprop fdt (bytes us) name w = Some (0, fdt6)"
        unfolding setprop by (simp del: bytes_simps)
      then show ?thesis using g(6) by auto
    qed
  qed
  from find_add_string_tree [OF h nm] show ?thesis
  proof (elim disjE exE conjE)
    fix off
    assume f: "fdt_find_add_string_rw fdt name = Some (off, fdt)" "string_at strs off name"
    from added [OF f h] obtain err fdt' room' where a: "fdt_setprop fdt (bytes us) name w = Some (err, fdt')"
      "err = 0 \<and> holds fdt' rs (us @ Node_begin nm # Prop off w # ps @ ws) strs room' \<and> room' = room - ?n
       \<or> err = - FDT_ERR_NOSPACE \<and> holds fdt' rs (us @ Node_begin nm # ps @ ws) strs room' \<and> room < ?n" by blast
    show ?thesis using a f(2) by (intro exI [of _ err] exI [of _ fdt'] exI [of _ strs] exI [of _ room']) auto
  next
    assume f: "int (length name) + 1 > room" "fdt_find_add_string_rw fdt name = Some (- FDT_ERR_NOSPACE, fdt)"
    have "fdt_add_property' fdt (bytes us) name (int (length w)) = Some (- FDT_ERR_NOSPACE, None, fdt)"
      using f(2) holds_node_offset [OF h] nn by (simp add: fdt_add_property'_def del: bytes_simps)
    then show ?thesis using setprop f(1) h np
      by (intro exI [of _ "- FDT_ERR_NOSPACE"] exI [of _ fdt] exI [of _ strs] exI [of _ room]) auto
  next
    fix fdt1
    assume f: "fdt_find_add_string_rw fdt name = Some (int (length strs), fdt1)"
      "holds fdt1 rs (us @ Node_begin nm # ps @ ws) (strs @ name @ [0]) (room - int (length name) - 1)"
    have s: "string_at (strs @ name @ [0]) (int (length strs)) name" using nm(1) by (auto simp: string_at_def)
    from added [OF f(1) s f(2)] obtain err fdt' room' where a: "fdt_setprop fdt (bytes us) name w = Some (err, fdt')"
      "err = 0 \<and> holds fdt' rs (us @ Node_begin nm # Prop (int (length strs)) w # ps @ ws) (strs @ name @ [0]) room'
         \<and> room' = room - int (length name) - 1 - ?n
       \<or> err = - FDT_ERR_NOSPACE \<and> holds fdt' rs (us @ Node_begin nm # ps @ ws) (strs @ name @ [0]) room'
         \<and> room - int (length name) - 1 < ?n" by blast
    show ?thesis using a s
      by (intro exI [of _ err] exI [of _ fdt'] exI [of _ "strs @ name @ [0]"] exI [of _ room']) auto
  qed
qed

section \<open>Nodes\<close>

text \<open>The tokens between the start and the end of a node, with \<open>d\<close> inner nodes open.\<close>

fun inner :: "nat \<Rightarrow> token list \<Rightarrow> bool" where
  "inner d [] \<longleftrightarrow> d = 0"
| "inner d (Node_begin _ # ts) \<longleftrightarrow> inner (Suc d) ts"
| "inner d (Node_end # ts) \<longleftrightarrow> 0 < d \<and> inner (d - 1) ts"
| "inner d (Fin # ts) \<longleftrightarrow> False"
| "inner d (_ # ts) \<longleftrightarrow> inner d ts"

lemma depth_small:
  assumes "int d + int (length ts) < INT_MAX" "ts \<noteq> []"
  shows "s32 (int d + 1) = int (Suc d)" "s32 (int d - 1) = int d - 1"
proof -
  have "int d + 1 < INT_MAX + 1" using assms by (cases ts) auto
  then show "s32 (int d + 1) = int (Suc d)" "s32 (int d - 1) = int d - 1"
    by (simp_all add: s32_id is_int_def)
qed

text \<open>The walk from a place inside of the node, and what its caller does with the node it gets to:
  the loop of \<open>fdt_node_end_offset_\<close> goes on until the depth is negative.\<close>

lemma tree_tokens_small:
  assumes "holds fdt rs ts strs room" "0 \<le> room"
  shows "int (length ts) < INT_MAX"
  using holds_header(6) [OF assms(1)] bytes_ge [of ts] bytes_nonneg [of ts] assms(2) by simp

lemma room_nonneg: "holds fdt rs ts strs room \<Longrightarrow> 0 \<le> room"
  by (auto simp: holds_def fits_def)

lemma next_node_from:
  assumes h: "holds fdt rs (us @ Node_begin nm # ws) strs room"
  shows "fdt_next_node fdt (bytes us) d = next_node_n (blob_fuel fdt) fdt (bytes (us @ [Node_begin nm])) d"
proof -
  have "\<not> bytes (us @ [Node_begin nm]) < 0" using bytes_nonneg [of "us @ [Node_begin nm]"] by linarith
  then show ?thesis using holds_node_offset [OF h] by (simp add: fdt_next_node_def del: bytes_simps)
qed

lemma node_end_walk:
  "holds fdt rs (us @ body @ Node_end # ws) strs room \<Longrightarrow> inner d body \<Longrightarrow> int d + int (length (body @ [Node_end])) < INT_MAX \<Longrightarrow>
    length body < n \<Longrightarrow> length body < m \<Longrightarrow>
    \<exists>off d'. next_node_n n fdt (bytes us) (Some (int d)) = Some (off, Some d')
      \<and> node_end_n m fdt off d' = Some (bytes (us @ body @ [Node_end]))"
proof (induction body arbitrary: us d n m)
  case Nil
  obtain k j where k: "n = Suc k" "m = Suc j" using Nil.prems(4,5) by (cases n; cases m) auto
  have "holds fdt rs (us @ Node_end # ws) strs room" "d = 0" using Nil.prems(1,2) by simp_all
  then show ?case using holds_next_tag [of fdt rs us Node_end ws strs room] k by (simp add: s32_def)
next
  case (Cons t body)
  obtain k where k: "n = Suc k" "length body < k" using Cons.prems(4) by (cases n) auto
  obtain j where j: "m = Suc j" "length body < j" using Cons.prems(5) by (cases m) auto
  have h: "holds fdt rs ((us @ [t]) @ body @ Node_end # ws) strs room" using Cons.prems(1) by simp
  have h': "holds fdt rs (us @ t # (body @ Node_end # ws)) strs room" using Cons.prems(1) by simp
  have tag: "fdt_next_tag fdt (bytes us) = Some (tag_of t, bytes (us @ [t]))" using holds_next_tag [OF h'] .
  note sd = depth_small [OF Cons.prems(3)]
  have fuel: "length body < blob_fuel fdt" using holds_header(5) [OF Cons.prems(1)] by simp
  have m: "length body < m" using Cons.prems(5) by simp
  show ?case
  proof (cases t)
    case (Node_begin nm)
    have "inner (Suc d) body" "int (Suc d) + int (length (body @ [Node_end])) < INT_MAX"
      using Cons.prems(2,3) Node_begin by simp_all
    from Cons.IH [OF h this fuel j(2)] obtain off d' where
      "next_node_n (blob_fuel fdt) fdt (bytes (us @ [t])) (Some (int (Suc d))) = Some (off, Some d')"
      "node_end_n j fdt off d' = Some (bytes ((us @ [t]) @ body @ [Node_end]))" by blast
    moreover have "holds fdt rs (us @ Node_begin nm # (body @ Node_end # ws)) strs room" using h' Node_begin by simp
    ultimately have "node_end_n m fdt (bytes us) (int (Suc d)) = Some (bytes ((us @ [t]) @ body @ [Node_end]))"
      using j(1) next_node_from [of fdt rs us nm] Node_begin by (simp del: bytes_simps)
    then show ?thesis using tag k(1) sd Node_begin by simp
  next
    case Node_end
    have d: "0 < d" "inner (d - 1) body" using Cons.prems(2) Node_end by simp_all
    have "int (d - 1) + int (length (body @ [Node_end])) < INT_MAX" using Cons.prems(3) by simp
    from Cons.IH [OF h d(2) this k(2) m] show ?thesis using tag k(1) sd(2) d(1) Node_end
      by (simp add: of_nat_diff)
  next
    case (Prop off v)
    have "int d + int (length (body @ [Node_end])) < INT_MAX" using Cons.prems(3) by simp
    from Cons.IH [OF h _ this k(2) m] show ?thesis using Cons.prems(2) tag k(1) Prop by simp
  next
    case Nop
    have "int d + int (length (body @ [Node_end])) < INT_MAX" using Cons.prems(3) by simp
    from Cons.IH [OF h _ this k(2) m] show ?thesis using Cons.prems(2) tag k(1) Nop by simp
  next
    case Fin
    then show ?thesis using Cons.prems(2) by simp
  qed
qed

lemma node_end_tree:
  assumes h: "holds fdt rs (us @ Node_begin nm # body @ Node_end # ws) strs room" and i: "inner 0 body"
  shows "fdt_node_end_offset' fdt (bytes us) = Some (bytes (us @ Node_begin nm # body @ [Node_end]))"
proof -
  have h': "holds fdt rs ((us @ [Node_begin nm]) @ body @ Node_end # ws) strs room" using h by simp
  have fuel: "length body < blob_fuel fdt" "length body < blob_fuel fdt - 1" "blob_fuel fdt = Suc (blob_fuel fdt - 1)"
    using holds_header(5) [OF h] by simp_all
  have "int 0 + int (length (body @ [Node_end])) < INT_MAX"
    using tree_tokens_small [OF h room_nonneg [OF h]] by simp
  from node_end_walk [OF h' i this fuel(1,2)] obtain off d' where
    "next_node_n (blob_fuel fdt) fdt (bytes (us @ [Node_begin nm])) (Some 0) = Some (off, Some d')"
    "node_end_n (blob_fuel fdt - 1) fdt off d' = Some (bytes (us @ Node_begin nm # body @ [Node_end]))" by auto
  then have "node_end_n (Suc (blob_fuel fdt - 1)) fdt (bytes us) 0 = Some (bytes (us @ Node_begin nm # body @ [Node_end]))"
    using next_node_from [OF h] by (simp del: bytes_simps)
  then show ?thesis using fuel(3) by (simp add: fdt_node_end_offset'_def)
qed

lemma del_node_tree:
  assumes h: "holds fdt rs (us @ Node_begin nm # body @ Node_end # ws) strs room" and i: "inner 0 body"
  shows "\<exists>fdt'. fdt_del_node fdt (bytes us) = Some (0, fdt')
    \<and> holds fdt' rs (us @ ws) strs (room + bytes (Node_begin nm # body @ [Node_end]))"
proof -
  have h': "holds fdt rs (us @ (Node_begin nm # body @ [Node_end]) @ ws) strs room" using h by simp
  have "\<not> bytes (us @ Node_begin nm # body @ [Node_end]) < 0"
    using bytes_nonneg [of "us @ Node_begin nm # body @ [Node_end]"] by linarith
  moreover have "bytes (us @ Node_begin nm # body @ [Node_end]) - bytes us = bytes (Node_begin nm # body @ [Node_end])" by simp
  ultimately show ?thesis
    using splice_out [OF h'] node_end_tree [OF h i] holds_header(3) [OF h]
    unfolding fdt_del_node_def rw_probed_tree(2) [OF h] by (simp add: fdt_offset_ptr'_def del: bytes_simps)
qed

section \<open>Removing in place\<close>

lemma nops_encs: "length (encs (replicate k Nop)) = 4 * k"
  by (induction k) simp_all

lemma bytes_words: "bytes ms = 4 * int (nat (bytes ms div 4))"
proof -
  have "bytes ms mod 4 = 0" using encs_mod4 by (simp add: bytes_def)
  then have a: "bytes ms = 4 * (bytes ms div 4)" by (metis add_0_right mult_div_mod_eq)
  have "0 \<le> bytes ms div 4" using bytes_nonneg [of ms] by (simp only: pos_imp_zdiv_nonneg_iff zero_less_numeral)
  with a show ?thesis by (metis nat_0_le)
qed

lemma nop_region_image:
  "fits T rs (A @ M @ B) strs Y \<Longrightarrow> length M = 4 * k \<Longrightarrow> p = 48 + int (length rs) + int (length A) \<Longrightarrow>
    p + 4 * int k - 4 < stop \<Longrightarrow> stop \<le> p + 4 * int k \<Longrightarrow>
    nop_region' (fdt_image m T rs (A @ M @ B) strs Y) p stop = Some (fdt_image m T rs (A @ encs (replicate k Nop) @ B) strs Y)"
proof (induction k arbitrary: A M p)
  case 0
  then show ?case by (subst nop_region'.simps) simp
next
  case (Suc k)
  let ?N = "cpu_to_fdt32 FDT_NOP"
  have M: "M = take 4 M @ drop 4 M" "length (take 4 M) = 4" "length (drop 4 M) = 4 * k" using Suc.prems(2) by simp_all
  have w: "wr32 (fdt_image m T rs (A @ M @ B) strs Y) p FDT_NOP = Some (fdt_image m T rs ((A @ ?N) @ drop 4 M @ B) strs Y)"
  proof -
    have e: "A @ take 4 M @ (drop 4 M @ B) = A @ M @ B" by simp
    have "fits T rs (A @ take 4 M @ (drop 4 M @ B)) strs Y" using Suc.prems(1) by (simp only: e)
    from image_write_bytes [OF this, of ?N p m, unfolded e] show ?thesis
      using M(2) Suc.prems(3) by (simp add: wr32_def)
  qed
  have f: "fits T rs ((A @ ?N) @ drop 4 M @ B) strs Y" by (rule fits_length [OF Suc.prems(1)]) (simp add: Suc.prems(2))
  have "p < stop" using Suc.prems(4) by simp
  moreover have "p + 4 = 48 + int (length rs) + int (length (A @ ?N))" using Suc.prems(3) by simp
  moreover have "p + 4 + 4 * int k - 4 < stop" "stop \<le> p + 4 + 4 * int k" using Suc.prems(4,5) by simp_all
  ultimately show ?case using Suc.IH [OF f M(3), of "p + 4"] w by (subst nop_region'.simps) simp
qed

lemma nop_out:
  assumes h: "holds fdt rs (us @ ms @ ws) strs room" and k: "bytes ms = 4 * int k"
    and stop: "48 + int (length rs) + bytes us + bytes ms - 4 < stop" "stop \<le> 48 + int (length rs) + bytes us + bytes ms"
  shows "\<exists>fdt'. nop_region' fdt (48 + int (length rs) + bytes us) stop = Some fdt'
    \<and> holds fdt' rs (us @ replicate k Nop @ ws) strs room"
proof -
  obtain T A X B Y where p: "fdt = fdt_image FDT_MAGIC T rs (A @ X @ B) strs Y" "fits T rs (A @ X @ B) strs Y"
    "block us A" "block (ws @ [Fin]) B" "int (length A) = bytes us" "int (length X) = bytes ms"
    "room = T - (48 + int (length rs) + bytes (us @ ms @ ws) + 4 + int (length strs))"
    using holds_parts [OF h] by metis
  have X: "length X = 4 * k" using p(6) k by simp
  have "nop_region' fdt (48 + int (length rs) + bytes us) stop = Some (fdt_image FDT_MAGIC T rs (A @ encs (replicate k Nop) @ B) strs Y)"
    unfolding p(1) by (rule nop_region_image [OF p(2) X]) (use p(5) k stop in simp_all)
  moreover have "holds (fdt_image FDT_MAGIC T rs (A @ encs (replicate k Nop) @ B) strs Y) rs (us @ replicate k Nop @ ws) strs room"
  proof (rule holdsI [OF _ p(3) block_encs p(4)])
    show "fits T rs (A @ encs (replicate k Nop) @ B) strs Y" by (rule fits_length [OF p(2)]) (simp add: X nops_encs)
    show "list_all (token_in strs) (us @ replicate k Nop @ ws)"
      using holds_tokens(1) [OF h] by (auto simp: list_all_iff set_replicate_conv_if)
    have "bytes (replicate k Nop) = bytes ms" using k nops_encs [of k] by (simp add: bytes_def)
    then show "room = T - (48 + int (length rs) + bytes (us @ replicate k Nop @ ws) + 4 + int (length strs))"
      using p(7) by simp
  qed (use holds_tokens(2) [OF h] in simp)
  ultimately show ?thesis by blast
qed

lemma nop_property_tree:
  assumes h: "holds fdt rs (us @ Node_begin nm # ps @ Prop off v # ws) strs room"
    and o: "others strs name ps" "string_at strs off name"
  shows "\<exists>fdt' k. fdt_nop_property fdt (bytes us) name = Some (0, fdt') \<and> 4 * int k = bytes [Prop off v]
    \<and> holds fdt' rs (us @ Node_begin nm # ps @ replicate k Nop @ ws) strs room"
proof -
  have h': "holds fdt rs ((us @ Node_begin nm # ps) @ [Prop off v] @ ws) strs room" using h by simp
  have v: "int (length v) < INT_MAX - 64" using holds_value_small [of fdt rs "us @ Node_begin nm # ps" off v ws strs room] h by simp
  have lb: "bytes [Prop off v] = 12 + FDT_TAGALIGN (int (length v))" using length_enc(3) [of off v] by (simp add: bytes_def)
  define k where "k = nat (bytes [Prop off v] div 4)"
  have k: "bytes [Prop off v] = 4 * int k" unfolding k_def by (rule bytes_words)
  have s: "s32 (int (length v) + 12) = int (length v) + 12" using v by (intro s32_id) (simp add: is_int_def)
  have "\<exists>fdt'. nop_region' fdt (48 + int (length rs) + bytes (us @ Node_begin nm # ps))
      (48 + int (length rs) + bytes (us @ Node_begin nm # ps) + (int (length v) + 12)) = Some fdt'
    \<and> holds fdt' rs ((us @ Node_begin nm # ps) @ replicate k Nop @ ws) strs room"
    by (rule nop_out [OF h' k]) (use lb TAGALIGN_bounds [of "int (length v)"] in simp_all)
  then show ?thesis using get_property_tree_found(1) [OF h o] s k
    by (auto simp: fdt_nop_property_def simp del: bytes_simps)
qed

lemma nop_node_tree:
  assumes h: "holds fdt rs (us @ Node_begin nm # body @ Node_end # ws) strs room" and i: "inner 0 body"
  shows "\<exists>fdt' k. fdt_nop_node fdt (bytes us) = Some (0, fdt') \<and> 4 * int k = bytes (Node_begin nm # body @ [Node_end])
    \<and> holds fdt' rs (us @ replicate k Nop @ ws) strs room"
proof -
  let ?ms = "Node_begin nm # body @ [Node_end]"
  have h': "holds fdt rs (us @ ?ms @ ws) strs room" using h by simp
  define k where "k = nat (bytes ?ms div 4)"
  have k: "bytes ?ms = 4 * int k" unfolding k_def by (rule bytes_words)
  have end_pos: "\<not> bytes (us @ ?ms) < 0" "bytes (us @ ?ms) - bytes us = bytes ?ms"
    using bytes_nonneg [of "us @ ?ms"] by (simp_all only: not_less bytes_simps(3) add_diff_cancel_left')
  obtain T st Y where img: "fdt = fdt_image FDT_MAGIC T rs st strs Y" "fits T rs st strs Y" "block ((us @ ?ms @ ws) @ [Fin]) st"
    using h' by (auto simp: holds_def)
  have "struct_end fdt = bytes (us @ ?ms @ ws) + 4"
    using image_struct_end [OF img(2)] block_length [OF img(3)] img(1) by (simp add: bytes_def)
  moreover have "is_int (bytes us)"
    using holds_header(6) [OF h'] bytes_nonneg [of us] bytes_nonneg [of "?ms @ ws"] room_nonneg [OF h]
    unfolding is_int_def bytes_simps(3) [of us] by linarith
  ultimately have "fdt_offset_ptr fdt (bytes us) 0 = Some (Some (48 + int (length rs) + bytes us))"
    using offset_ptr_spec [OF image_ok [OF img(2)], of "bytes us" 0 FDT_MAGIC] img(1) image_hdr(3) [OF img(2), of FDT_MAGIC]
      bytes_nonneg [of us] bytes_nonneg [of ?ms] bytes_nonneg [of ws]
    by (simp add: is_u32_def)
  moreover have "4 \<le> bytes ?ms" using bytes_ge [of ?ms] by simp
  then have "\<exists>fdt'. nop_region' fdt (48 + int (length rs) + bytes us) (48 + int (length rs) + bytes us + bytes ?ms) = Some fdt'
    \<and> holds fdt' rs (us @ replicate k Nop @ ws) strs room"
    by (intro nop_out [OF h' k]) simp_all
  ultimately show ?thesis using node_end_tree [OF h i] end_pos k
    by (auto simp: fdt_nop_node_def simp del: bytes_simps)
qed

section \<open>Adding a node\<close>

text \<open>A name without a unit address also matches a node that has one.\<close>

definition name_matches :: "8 word list \<Rightarrow> 8 word list \<Rightarrow> bool" where
  "name_matches nm s \<longleftrightarrow> nm = s \<or> at_sign \<notin> set s \<and> take (length s + 1) nm = s @ [at_sign]"

lemma holds_name:
  assumes h: "holds fdt rs (us @ Node_begin nm # ws) strs room"
  shows "fdt_get_name fdt (bytes us) = Some (Some (48 + int (length rs) + bytes us + 4), int (length nm))"
    "\<exists>P Q. fdt = P @ (nm @ [0]) @ Q \<and> int (length P) = 48 + int (length rs) + bytes us + 4" "0 \<notin> set nm"
proof -
  obtain T A bs B Y where s: "fdt = fdt_image FDT_MAGIC T rs (A @ bs @ B) strs Y" "fits T rs (A @ bs @ B) strs Y"
    "encodes (Node_begin nm) bs" "int (length A) = bytes us" "int (length A) mod 4 = 0"
    using holds_split [OF h] by metis
  show n: "0 \<notin> set nm" using holds_token [OF h] by simp
  show "fdt_get_name fdt (bytes us) = Some (Some (48 + int (length rs) + bytes us + 4), int (length nm))"
    using block_name [OF s(2) refl s(3,5) n] s(1,4) by simp
  obtain z where z: "bs = (cpu_to_fdt32 FDT_BEGIN_NODE @ nm @ [0]) @ z" using s(3) by (auto simp: encodes_def)
  obtain P Q where P: "fdt = P @ bs @ Q" "int (length P) = 48 + int (length rs) + int (length A)"
    using image_place [OF s(2) refl, of FDT_MAGIC] s(1) by blast
  have "fdt = (P @ cpu_to_fdt32 FDT_BEGIN_NODE) @ (nm @ [0]) @ (z @ Q)" using P(1) z by simp
  moreover have "int (length (P @ cpu_to_fdt32 FDT_BEGIN_NODE)) = 48 + int (length rs) + bytes us + 4" using P(2) s(4) by simp
  ultimately show "\<exists>P Q. fdt = P @ (nm @ [0]) @ Q \<and> int (length P) = 48 + int (length rs) + bytes us + 4" by blast
qed

lemma nodename_eq_tree:
  assumes h: "holds fdt rs (us @ Node_begin nm # ws) strs room"
  shows "fdt_nodename_eq' fdt (bytes us) s = Some (name_matches nm s)"
proof -
  obtain P Q where P: "fdt = P @ (nm @ [0]) @ Q" "int (length P) = 48 + int (length rs) + bytes us + 4"
    using holds_name(2) [OF h] by blast
  let ?p = "48 + int (length rs) + bytes us + 4"
  show ?thesis
  proof (cases "length nm < length s")
    case True
    then have "\<not> name_matches nm s" by (auto simp: name_matches_def dest: arg_cong [of _ _ length])
    then show ?thesis using holds_name(1) [OF h] True by (simp add: fdt_nodename_eq'_def)
  next
    case False
    have "rd_bytes fdt ?p (int (length s)) = Some (take (length s) nm)"
    proof -
      have "fdt = P @ take (length s) nm @ (drop (length s) nm @ [0] @ Q)" using P(1) by (metis append.assoc append_take_drop_id)
      then show ?thesis using rd_bytes_append [of ?p P "int (length s)" "take (length s) nm"] P(2) False by simp
    qed
    then have m: "mem_eq fdt ?p s = Some (take (length s) nm = s)" by (simp add: mem_eq_def)
    have c: "rd8 fdt (?p + int (length s)) = Some ((nm @ [0]) ! length s)"
    proof -
      have "nat (?p + int (length s)) = length P + length s" using P(2) by linarith
      then show ?thesis using P False bytes_nonneg [of us] by (simp add: rd8_def nth_append)
    qed
    have z: "(nm @ [0]) ! length s = 0 \<longleftrightarrow> length s = length nm"
      using False holds_name(3) [OF h] by (auto simp: nth_append dest: nth_mem)
    have t: "take (length s + 1) nm = s @ [at_sign] \<longleftrightarrow> take (length s) nm = s \<and> (nm @ [0]) ! length s = at_sign" if "length s \<noteq> length nm"
      using that False by (simp add: take_Suc_conv_app_nth nth_append)
    have u: "take (length s + 1) nm \<noteq> s @ [at_sign]" if "length s = length nm"
      using that by (auto dest: arg_cong [of _ _ length])
    show ?thesis
    proof (cases "length s = length nm")
      case True
      then have "take (length s) nm = nm" "rd8 fdt (?p + int (length s)) = Some 0" using c z by simp_all
      moreover have "name_matches nm s \<longleftrightarrow> nm = s" using u [OF True] by (simp only: name_matches_def simp_thms)
      ultimately show ?thesis using holds_name(1) [OF h] m False by (cases "nm = s") (simp_all add: fdt_nodename_eq'_def)
    next
      case ne: False
      define c where "c = (nm @ [0]) ! length s"
      have "nm \<noteq> s" "c \<noteq> 0" using ne z by (auto simp: c_def)
      moreover have "name_matches nm s \<longleftrightarrow> at_sign \<notin> set s \<and> take (length s) nm = s \<and> c = at_sign"
        using \<open>nm \<noteq> s\<close> t [OF ne] by (simp only: name_matches_def c_def simp_thms)
      ultimately show ?thesis using holds_name(1) [OF h] m \<open>rd8 _ _ = _\<close> False
        by (simp add: fdt_nodename_eq'_def c_def [symmetric])
    qed
  qed
qed

text \<open>The offset of the first child that matches, from a place inside of the node with \<open>d\<close> inner
  nodes open.\<close>

fun find_child :: "8 word list \<Rightarrow> nat \<Rightarrow> token list \<Rightarrow> int \<Rightarrow> int" where
  "find_child name d [] off = - FDT_ERR_NOTFOUND"
| "find_child name d (Node_begin nm # ts) off =
     (if d = 0 \<and> name_matches nm name then off else find_child name (Suc d) ts (off + bytes [Node_begin nm]))"
| "find_child name d (Node_end # ts) off = find_child name (d - 1) ts (off + 4)"
| "find_child name d (t # ts) off = find_child name d ts (off + bytes [t])"

lemma subnode_walk:
  "holds fdt rs (us @ body @ Node_end # ws) strs room \<Longrightarrow> inner d body \<Longrightarrow> int d + int (length (body @ [Node_end])) < INT_MAX \<Longrightarrow>
    length body < n \<Longrightarrow> length body < m \<Longrightarrow>
    \<exists>off d'. next_node_n n fdt (bytes us) (Some (int d)) = Some (off, Some d')
      \<and> subnode_n m fdt off d' name = Some (find_child name d body (bytes us))"
proof (induction body arbitrary: us d n m)
  case Nil
  obtain k j where k: "n = Suc k" "m = Suc j" using Nil.prems(4,5) by (cases n; cases m) auto
  have "holds fdt rs (us @ Node_end # ws) strs room" "d = 0" using Nil.prems(1,2) by simp_all
  then show ?case using holds_next_tag [of fdt rs us Node_end ws strs room] k by (simp add: s32_def)
next
  case (Cons t body)
  obtain k where k: "n = Suc k" "length body < k" using Cons.prems(4) by (cases n) auto
  obtain j where j: "m = Suc j" "length body < j" using Cons.prems(5) by (cases m) auto
  have h: "holds fdt rs ((us @ [t]) @ body @ Node_end # ws) strs room" using Cons.prems(1) by simp
  have h': "holds fdt rs (us @ t # (body @ Node_end # ws)) strs room" using Cons.prems(1) by simp
  have tag: "fdt_next_tag fdt (bytes us) = Some (tag_of t, bytes (us @ [t]))" using holds_next_tag [OF h'] .
  note sd = depth_small [OF Cons.prems(3)]
  have fuel: "length body < blob_fuel fdt" using holds_header(5) [OF Cons.prems(1)] by simp
  have m: "length body < m" using Cons.prems(5) by simp
  have len: "int d + int (length (body @ [Node_end])) < INT_MAX" using Cons.prems(3) by simp
  show ?case
  proof (cases t)
    case (Node_begin nm)
    have hb: "holds fdt rs (us @ Node_begin nm # (body @ Node_end # ws)) strs room" using h' Node_begin by simp
    have "inner (Suc d) body" "int (Suc d) + int (length (body @ [Node_end])) < INT_MAX"
      using Cons.prems(2,3) Node_begin by simp_all
    from Cons.IH [OF h this fuel j(2)] obtain off d' where
      w: "next_node_n (blob_fuel fdt) fdt (bytes (us @ [t])) (Some (int (Suc d))) = Some (off, Some d')"
      "subnode_n j fdt off d' name = Some (find_child name (Suc d) body (bytes (us @ [t])))" by blast
    have "subnode_n m fdt (bytes us) (int (Suc d)) name = Some (find_child name d (t # body) (bytes us))"
    proof (cases "d = 0 \<and> name_matches nm name")
      case True
      then show ?thesis using nodename_eq_tree [OF hb, of name] j(1) Node_begin by (simp del: bytes_simps(2))
    next
      case False
      then have "(if int (Suc d) = 1 then fdt_nodename_eq' fdt (bytes us) name else Some False) = Some False"
        using nodename_eq_tree [OF hb, of name] by auto
      then show ?thesis using w j(1) next_node_from [OF hb] Node_begin False by (auto simp del: bytes_simps(2))
    qed
    then show ?thesis using tag k(1) sd Node_begin by simp
  next
    case Node_end
    have d: "0 < d" "inner (d - 1) body" using Cons.prems(2) Node_end by simp_all
    have "int (d - 1) + int (length (body @ [Node_end])) < INT_MAX" using Cons.prems(3) by simp
    from Cons.IH [OF h d(2) this k(2) m] show ?thesis using tag k(1) sd(2) d(1) Node_end
      by (simp add: of_nat_diff)
  next
    case (Prop off v)
    from Cons.IH [OF h _ len k(2) m] show ?thesis using Cons.prems(2) tag k(1) Prop by (simp del: bytes_simps(2))
  next
    case Nop
    from Cons.IH [OF h _ len k(2) m] show ?thesis using Cons.prems(2) tag k(1) Nop by simp
  next
    case Fin
    then show ?thesis using Cons.prems(2) by simp
  qed
qed

lemma subnode_tree:
  assumes h: "holds fdt rs (us @ Node_begin nm # body @ Node_end # ws) strs room" and i: "inner 0 body"
  shows "fdt_subnode_offset_namelen fdt (bytes us) name = Some (find_child name 0 body (bytes (us @ [Node_begin nm])))"
proof -
  have h': "holds fdt rs ((us @ [Node_begin nm]) @ body @ Node_end # ws) strs room" using h by simp
  have fuel: "length body < blob_fuel fdt" "length body < blob_fuel fdt - 1" "blob_fuel fdt = Suc (blob_fuel fdt - 1)"
    using holds_header(5) [OF h] by simp_all
  have "int 0 + int (length (body @ [Node_end])) < INT_MAX"
    using tree_tokens_small [OF h room_nonneg [OF h]] by simp
  from subnode_walk [OF h' i this fuel(1,2), of name] obtain off d' where
    "next_node_n (blob_fuel fdt) fdt (bytes (us @ [Node_begin nm])) (Some 0) = Some (off, Some d')"
    "subnode_n (blob_fuel fdt - 1) fdt off d' name = Some (find_child name 0 body (bytes (us @ [Node_begin nm])))" by auto
  then have "subnode_n (Suc (blob_fuel fdt - 1)) fdt (bytes us) 0 name = Some (find_child name 0 body (bytes (us @ [Node_begin nm])))"
    using next_node_from [OF h] by (simp del: bytes_simps)
  then show ?thesis using fuel(3) holds_header(1) [OF h] by (simp add: fdt_subnode_offset_namelen_def)
qed

text \<open>The properties of a node stand in front of its children.\<close>

fun is_prop :: "token \<Rightarrow> bool" where
  "is_prop (Prop _ _) \<longleftrightarrow> True"
| "is_prop Nop \<longleftrightarrow> True"
| "is_prop _ \<longleftrightarrow> False"

lemma after_props_tree:
  "holds fdt rs (us @ ps @ ws) strs room \<Longrightarrow> list_all is_prop ps \<Longrightarrow> props_over ws \<Longrightarrow> ws \<noteq> [] \<Longrightarrow> length ps < n \<Longrightarrow>
    after_props_n n fdt (bytes us) = Some (bytes (us @ ps))"
proof (induction ps arbitrary: us n)
  case Nil
  obtain k where k: "n = Suc k" using Nil.prems(5) by (cases n) auto
  obtain t ts where w: "ws = t # ts" using Nil.prems(4) by (cases ws) auto
  have "fdt_next_tag fdt (bytes us) = Some (tag_of t, bytes (us @ [t]))"
    using holds_next_tag [of fdt rs us t ts strs room] Nil.prems(1) w by simp
  then show ?case using Nil.prems(3) w k by (cases t) simp_all
next
  case (Cons p ps)
  obtain k where k: "n = Suc k" "length ps < k" using Cons.prems(5) by (cases n) auto
  have h: "holds fdt rs ((us @ [p]) @ ps @ ws) strs room" using Cons.prems(1) by simp
  have "fdt_next_tag fdt (bytes us) = Some (tag_of p, bytes (us @ [p]))"
    using holds_next_tag [of fdt rs us p "ps @ ws" strs room] Cons.prems(1) by simp
  moreover have "after_props_n k fdt (bytes (us @ [p])) = Some (bytes ((us @ [p]) @ ps))"
    using Cons.IH [OF h _ Cons.prems(3,4) k(2)] Cons.prems(2) by simp
  ultimately show ?case using Cons.prems(2) k(1) by (cases p) simp_all
qed

lemma insert_node:
  assumes h: "holds fdt rs (us @ ws) strs room" and nm: "0 \<notin> set name"
  defines "p \<equiv> 48 + int (length rs) + bytes us" and "n \<equiv> bytes [Node_begin name, Node_end]"
  shows "n > room \<Longrightarrow> fdt_splice_struct' fdt p 0 n = Some (- FDT_ERR_NOSPACE, fdt)"
    "n \<le> room \<Longrightarrow> \<exists>fdt1 fdt2 fdt3 fdt4 fdt5. fdt_splice_struct' fdt p 0 n = Some (0, fdt1)
       \<and> wr32 fdt1 p FDT_BEGIN_NODE = Some fdt2
       \<and> wr_bytes fdt2 (p + 4) (replicate (nat (FDT_TAGALIGN (int (length name) + 1))) 0) = Some fdt3
       \<and> wr_bytes fdt3 (p + 4) name = Some fdt4 \<and> wr32 fdt4 (p + n - 4) FDT_END_NODE = Some fdt5
       \<and> holds fdt5 rs (us @ Node_begin name # Node_end # ws) strs (room - n)"
proof -
  have N: "int (nat n) = n" by (simp add: n_def del: bytes_simps)
  let ?k = "nat (FDT_TAGALIGN (int (length name) + 1))"
  have k: "n = 8 + int ?k" "length name + 1 \<le> ?k"
    using length_enc(1) [of name] length_enc(2) TAGALIGN_bounds(1) [of "int (length name) + 1"] by (simp_all add: n_def bytes_def del: enc.simps)
  note s = splice_in [OF h, of "nat n", unfolded N]
  show "n > room \<Longrightarrow> fdt_splice_struct' fdt p 0 n = Some (- FDT_ERR_NOSPACE, fdt)" using s(1) unfolding p_def .
  assume room: "n \<le> room"
  obtain T A Z B Y where i: "fdt_splice_struct' fdt p 0 n = Some (0, fdt_image FDT_MAGIC T rs (A @ Z @ B) strs Y)"
    "fits T rs (A @ Z @ B) strs Y" "block us A" "length Z = nat n" "block (ws @ [Fin]) B" "int (length A) = bytes us"
    "room - n = T - (48 + int (length rs) + bytes us + n + bytes ws + 4 + int (length strs))"
    using s(2) room unfolding p_def by blast
  let ?I = "\<lambda>st. fdt_image FDT_MAGIC T rs st strs Y"
  let ?Z1 = "take 4 Z" and ?M = "take ?k (drop 4 Z)" and ?Z3 = "drop (4 + ?k) Z"
  let ?T = "cpu_to_fdt32 FDT_BEGIN_NODE" and ?E = "cpu_to_fdt32 FDT_END_NODE"
  have nn: "nat n = 8 + ?k" using k(1) by linarith
  then have len: "length ?Z1 = 4" "length ?M = ?k" "length ?Z3 = 4" using i(4) by simp_all
  have Z: "A @ Z @ B = A @ ?Z1 @ (?M @ ?Z3 @ B)"
    by (metis (no_types) add.commute append.assoc append_take_drop_id drop_drop)
  have pA: "p = 48 + int (length rs) + int (length A)" using i(6) by (simp add: p_def)
  have f: "fits T rs st strs Y" if "length st = length A + nat n + length B" for st
    by (rule fits_length [OF i(2)]) (simp add: that i(4))
  have w1: "wr32 (?I (A @ Z @ B)) p FDT_BEGIN_NODE = Some (?I (A @ ?T @ ?M @ ?Z3 @ B))"
    unfolding wr32_def Z by (rule image_write_bytes [OF f _ pA]) (simp_all only: length_append len nn length_be)
  have w2: "wr_bytes (?I ((A @ ?T) @ ?M @ (?Z3 @ B))) (p + 4) (replicate ?k 0) = Some (?I ((A @ ?T) @ replicate ?k 0 @ (?Z3 @ B)))"
    by (rule image_write_bytes [OF f]) (use len nn pA in \<open>simp_all del: length_take length_drop\<close>)
  let ?z = "replicate (?k - length name) (0 :: 8 word)"
  have z: "replicate ?k (0 :: 8 word) = replicate (length name) 0 @ ?z"
    using k(2) by (simp add: replicate_add [symmetric])
  have w3: "wr_bytes (?I ((A @ ?T) @ replicate (length name) 0 @ (?z @ ?Z3 @ B))) (p + 4) name = Some (?I ((A @ ?T) @ name @ (?z @ ?Z3 @ B)))"
    by (rule image_write_bytes [OF f]) (use len nn pA k(2) in \<open>simp_all del: length_take length_drop\<close>)
  have w4: "wr32 (?I ((A @ ?T @ name @ ?z) @ ?Z3 @ B)) (p + n - 4) FDT_END_NODE = Some (?I ((A @ ?T @ name @ ?z) @ ?E @ B))"
    unfolding wr32_def by (rule image_write_bytes [OF f]) (use len nn pA k in \<open>simp_all del: length_take length_drop\<close>)
  have e: "?T @ name @ ?z = enc (Node_begin name)"
  proof -
    have "?k - length name = Suc (nat (FDT_TAGALIGN (int (length name) + 1) - (int (length name) + 1)))" using k(2) by linarith
    then show ?thesis by (simp add: pad4_def add.commute)
  qed
  have "holds (?I (A @ (enc (Node_begin name) @ ?E) @ B)) rs (us @ [Node_begin name, Node_end] @ ws) strs (room - n)"
  proof (rule holdsI [OF f i(3) _ i(5)])
    show "length (A @ (enc (Node_begin name) @ ?E) @ B) = length A + nat n + length B"
      unfolding e [symmetric] using k nn by simp
    show "block [Node_begin name, Node_end] (enc (Node_begin name) @ ?E)" using block_encs [of "[Node_begin name, Node_end]"] by simp
    show "list_all (token_in strs) (us @ [Node_begin name, Node_end] @ ws)" using holds_tokens(1) [OF h] nm by simp
    show "room - n = T - (48 + int (length rs) + bytes (us @ [Node_begin name, Node_end] @ ws) + 4 + int (length strs))"
      using i(7) unfolding bytes_simps(3) n_def [symmetric] by simp
  qed (use holds_tokens(2) [OF h] in simp)
  then show "\<exists>fdt1 fdt2 fdt3 fdt4 fdt5. fdt_splice_struct' fdt p 0 n = Some (0, fdt1)
       \<and> wr32 fdt1 p FDT_BEGIN_NODE = Some fdt2
       \<and> wr_bytes fdt2 (p + 4) (replicate ?k 0) = Some fdt3
       \<and> wr_bytes fdt3 (p + 4) name = Some fdt4 \<and> wr32 fdt4 (p + n - 4) FDT_END_NODE = Some fdt5
       \<and> holds fdt5 rs (us @ Node_begin name # Node_end # ws) strs (room - n)"
    using i(1) w1 w2 w3 w4 by (simp only: z e [symmetric] append.assoc append_Cons append_Nil) blast
qed

lemma find_child_found: "0 \<le> off \<Longrightarrow> find_child name d body off < 0 \<Longrightarrow> find_child name d body off = - FDT_ERR_NOTFOUND"
  by (induction name d body off rule: find_child.induct) (auto split: if_splits)

lemma add_subnode_tree:
  assumes h: "holds fdt rs (us @ Node_begin nm # ps @ kids @ Node_end # ws) strs room"
    and i: "inner 0 (ps @ kids)" and ps: "list_all is_prop ps" "props_over (kids @ [Node_end])"
    and name: "0 \<notin> set name" "int (length name) < INT_MAX - 64"
    and absent: "find_child name 0 (ps @ kids) (bytes (us @ [Node_begin nm])) < 0"
  shows "(\<exists>fdt'. fdt_add_subnode fdt (bytes us) name = Some (bytes (us @ Node_begin nm # ps), fdt')
        \<and> holds fdt' rs (us @ Node_begin nm # ps @ Node_begin name # Node_end # kids @ Node_end # ws) strs
            (room - bytes [Node_begin name, Node_end]) \<and> bytes [Node_begin name, Node_end] \<le> room)
    \<or> bytes [Node_begin name, Node_end] > room \<and> fdt_add_subnode fdt (bytes us) name = Some (- FDT_ERR_NOSPACE, fdt)"
proof -
  let ?us = "us @ Node_begin nm # ps" and ?ws = "kids @ Node_end # ws"
  let ?n = "bytes [Node_begin name, Node_end]"
  have h1: "holds fdt rs (us @ Node_begin nm # (ps @ kids) @ Node_end # ws) strs room" using h by simp
  have h2: "holds fdt rs ((us @ [Node_begin nm]) @ ps @ ?ws) strs room" using h by simp
  have h3: "holds fdt rs (?us @ ?ws) strs room" using h by simp
  have "find_child name 0 (ps @ kids) (bytes (us @ [Node_begin nm])) = - FDT_ERR_NOTFOUND"
    by (rule find_child_found [OF bytes_nonneg absent])
  then have sub: "fdt_subnode_offset_namelen fdt (bytes us) name = Some (- FDT_ERR_NOTFOUND)"
    using subnode_tree [OF h1 i, of name] by simp
  have tag: "fdt_next_tag fdt (bytes us) = Some (FDT_BEGIN_NODE, bytes (us @ [Node_begin nm]))"
    using holds_next_tag [OF h] by simp
  have "props_over ?ws" using ps(2) by (cases kids rule: props_over.cases) simp_all
  then have after: "after_props_n (blob_fuel fdt) fdt (bytes (us @ [Node_begin nm])) = Some (bytes ?us)"
    using after_props_tree [OF h2 ps(1) _ _, of "blob_fuel fdt"] holds_header(5) [OF h] by simp
  have nh: "fdt_offset_ptr' fdt (bytes ?us) = Some (48 + int (length rs) + bytes ?us)"
    using holds_header(3) [OF h] by (simp add: fdt_offset_ptr'_def)
  have n: "?n = 4 + FDT_TAGALIGN (int (length name) + 1) + 4"
    using length_enc(1) [of name] length_enc(2) by (simp add: bytes_def del: enc.simps)
  have "s32 ?n = ?n"
    using name(2) TAGALIGN_bounds [of "int (length name) + 1"] unfolding n by (intro s32_id) (simp add: is_int_def)
  then have sn: "s32 (4 + FDT_TAGALIGN (int (length name) + 1) + 4) = ?n" by (simp only: n)
  note ins = insert_node [OF h3 name(1)]
  show ?thesis
  proof (cases "?n > room")
    case True
    then show ?thesis using ins(1) sub tag after nh sn
      unfolding fdt_add_subnode_def fdt_add_subnode_namelen_def rw_probed_tree(2) [OF h] by (simp add: Let_def del: bytes_simps)
  next
    case False
    obtain fdt1 fdt2 fdt3 fdt4 fdt5 where g: "fdt_splice_struct' fdt (48 + int (length rs) + bytes ?us) 0 ?n = Some (0, fdt1)"
      "wr32 fdt1 (48 + int (length rs) + bytes ?us) FDT_BEGIN_NODE = Some fdt2"
      "wr_bytes fdt2 (48 + int (length rs) + bytes ?us + 4) (replicate (nat (FDT_TAGALIGN (int (length name) + 1))) 0) = Some fdt3"
      "wr_bytes fdt3 (48 + int (length rs) + bytes ?us + 4) name = Some fdt4"
      "wr32 fdt4 (48 + int (length rs) + bytes ?us + ?n - 4) FDT_END_NODE = Some fdt5"
      "holds fdt5 rs (?us @ Node_begin name # Node_end # ?ws) strs (room - ?n)"
      using ins(2) False by auto
    have "fdt_add_subnode fdt (bytes us) name = Some (bytes ?us, fdt5)"
      using g(1-5) sub tag after nh sn
      unfolding fdt_add_subnode_def fdt_add_subnode_namelen_def rw_probed_tree(2) [OF h] by (simp add: Let_def del: bytes_simps)
    then show ?thesis using g(6) False by simp
  qed
qed

end
