(* ===== verification/Fdt_Edit_Properties.thy ===== *)
theory Fdt_Edit_Properties
  imports Fdt_Edits
begin

text \<open>
  The properties of the editing functions: on a buffer that holds a tree each of them returns, and
  it does on the bytes what its specification does on the list of tokens.
\<close>

section \<open>The specification\<close>

text \<open>The properties of a node as a map from names to values, and its updates.\<close>

definition prop_name :: "8 word list \<Rightarrow> int \<Rightarrow> 8 word list" where
  "prop_name strs off = takeWhile (\<lambda>c. c \<noteq> 0) (drop (nat off) strs)"

fun value_of :: "8 word list \<Rightarrow> 8 word list \<Rightarrow> token list \<Rightarrow> 8 word list option" where
  "value_of strs name (Prop off v # ps) = (if prop_name strs off = name then Some v else value_of strs name ps)"
| "value_of strs name (_ # ps) = value_of strs name ps"
| "value_of strs name [] = None"

fun remove_prop :: "8 word list \<Rightarrow> 8 word list \<Rightarrow> token list \<Rightarrow> token list" where
  "remove_prop strs name (Prop off v # ps) = (if prop_name strs off = name then ps else Prop off v # remove_prop strs name ps)"
| "remove_prop strs name (t # ps) = t # remove_prop strs name ps"
| "remove_prop strs name [] = []"

fun replace_prop :: "8 word list \<Rightarrow> 8 word list \<Rightarrow> 8 word list \<Rightarrow> token list \<Rightarrow> token list" where
  "replace_prop strs name w (Prop off v # ps) =
     (if prop_name strs off = name then Prop off w # ps else Prop off v # replace_prop strs name w ps)"
| "replace_prop strs name w (t # ps) = t # replace_prop strs name w ps"
| "replace_prop strs name w [] = []"

lemma prop_name_at: "string_at strs off nm \<Longrightarrow> prop_name strs off = nm"
proof -
  assume "string_at strs off nm"
  then obtain A C where A: "strs = A @ nm @ 0 # C" "off = int (length A)" "0 \<notin> set nm" by (auto simp: string_at_def)
  then have "prop_name strs off = takeWhile (\<lambda>c. c \<noteq> 0) (nm @ 0 # C)" by (simp add: prop_name_def)
  also have "\<dots> = nm" using A(3) by (induction nm) auto
  finally show ?thesis .
qed

text \<open>The first property of the name splits the list.\<close>

lemma split_props:
  "list_all is_prop ps \<Longrightarrow> list_all (token_in strs) ps \<Longrightarrow>
    (value_of strs name ps = None \<and> others strs name ps)
    \<or> (\<exists>ps1 off v ps2. ps = ps1 @ Prop off v # ps2 \<and> others strs name ps1 \<and> string_at strs off name
        \<and> value_of strs name ps = Some v \<and> remove_prop strs name ps = ps1 @ ps2
        \<and> (\<forall>w. replace_prop strs name w ps = ps1 @ Prop off w # ps2))"
proof (induction ps)
  case Nil
  then show ?case by (simp add: others_def)
next
  case (Cons p ps)
  have "list_all is_prop ps" "list_all (token_in strs) ps" using Cons.prems by simp_all
  note IH = Cons.IH [OF this]
  show ?case
  proof (cases p)
    case (Prop off v)
    obtain nm where nm: "string_at strs off nm" using Cons.prems(2) Prop by auto
    note pn = prop_name_at [OF nm]
    show ?thesis
    proof (cases "nm = name")
      case True
      then show ?thesis using Prop nm pn by (intro disjI2 exI [of _ "[]"]) (simp add: others_def)
    next
      case ne: False
      have o: "others strs name (p # qs)" if "others strs name qs" for qs
        using that Prop nm ne by (auto simp: others_def)
      from IH show ?thesis
      proof (elim disjE exE conjE)
        assume "value_of strs name ps = None" "others strs name ps"
        then show ?thesis using o Prop pn ne by simp
      next
        fix ps1 off' v' ps2
        assume "ps = ps1 @ Prop off' v' # ps2" "others strs name ps1" "string_at strs off' name"
          "value_of strs name ps = Some v'" "remove_prop strs name ps = ps1 @ ps2"
          "\<forall>w. replace_prop strs name w ps = ps1 @ Prop off' w # ps2"
        then show ?thesis using o Prop pn ne by (intro disjI2 exI [of _ "p # ps1"]) auto
      qed
    qed
  next
    case Nop
    have o: "others strs name (Nop # qs)" if "others strs name qs" for qs using that by (simp add: others_def)
    from IH show ?thesis
    proof (elim disjE exE conjE)
      assume "value_of strs name ps = None" "others strs name ps"
      then show ?thesis using o Nop by simp
    next
      fix ps1 off' v' ps2
      assume "ps = ps1 @ Prop off' v' # ps2" "others strs name ps1" "string_at strs off' name"
        "value_of strs name ps = Some v'" "remove_prop strs name ps = ps1 @ ps2"
        "\<forall>w. replace_prop strs name w ps = ps1 @ Prop off' w # ps2"
      then show ?thesis using o Nop by (intro disjI2 exI [of _ "Nop # ps1"]) auto
    qed
  qed (use Cons.prems(1) in simp_all)
qed

text \<open>The node at an offset with its properties; what follows them is a child or the end.\<close>

definition node_at :: "blob \<Rightarrow> 8 word list \<Rightarrow> token list \<Rightarrow> 8 word list \<Rightarrow> token list \<Rightarrow> token list \<Rightarrow> 8 word list \<Rightarrow> int \<Rightarrow> bool" where
  "node_at fdt rs us nm ps ws strs room \<longleftrightarrow>
     holds fdt rs (us @ Node_begin nm # ps @ ws) strs room \<and> list_all is_prop ps \<and> props_over ws \<and> ws \<noteq> []"

lemma node_atD:
  assumes "node_at fdt rs us nm ps ws strs room"
  shows "holds fdt rs (us @ Node_begin nm # ps @ ws) strs room" "list_all is_prop ps" "props_over ws" "ws \<noteq> []"
    "list_all (token_in strs) ps"
  using assms by (auto simp: node_at_def holds_def)

section \<open>The operations\<close>

lemma holds_value:
  assumes h: "holds fdt rs (us @ Prop off v # ws) strs room"
  shows "rd_bytes fdt (48 + int (length rs) + bytes us + 12) (int (length v)) = Some v"
proof -
  have "holds fdt rs (us @ [Prop off v] @ ws) strs room" using h by simp
  then obtain T A X B Y where p: "fdt = fdt_image FDT_MAGIC T rs (A @ X @ B) strs Y" "int (length A) = bytes us"
    "int (length X) = bytes [Prop off v]"
    using holds_parts by metis
  have "12 + int (length v) \<le> int (length X)"
    using p(3) length_enc(3) [of off v] TAGALIGN_bounds(1) [of "int (length v)"] by (simp add: bytes_def del: enc.simps)
  then have "inside fdt (48 + int (length rs) + bytes us + 12) (int (length v))"
    using p(1,2) bytes_nonneg [of us] by (simp add: inside_def length_image)
  then show ?thesis using holds_property(5) [OF h] by (simp add: rd_bytes_def)
qed

lemma getprop_spec:
  assumes "node_at fdt rs us nm ps ws strs room"
  shows "case value_of strs name ps of
      None \<Rightarrow> fdt_getprop fdt (bytes us) name = Some (None, - FDT_ERR_NOTFOUND)
    | Some v \<Rightarrow> \<exists>q. fdt_getprop fdt (bytes us) name = Some (Some q, int (length v)) \<and> rd_bytes fdt q (int (length v)) = Some v"
proof -
  note d = node_atD [OF assms]
  from split_props [OF d(2,5), of name] show ?thesis
  proof (elim disjE exE conjE)
    assume "value_of strs name ps = None" "others strs name ps"
    then show ?thesis using getprop_tree_missing [OF d(1) _ d(3,4)] by simp
  next
    fix ps1 off v ps2
    assume p: "ps = ps1 @ Prop off v # ps2" "others strs name ps1" "string_at strs off name" "value_of strs name ps = Some v"
    have h: "holds fdt rs (us @ Node_begin nm # ps1 @ Prop off v # (ps2 @ ws)) strs room"
      and h': "holds fdt rs ((us @ Node_begin nm # ps1) @ Prop off v # (ps2 @ ws)) strs room"
      using d(1) p(1) by simp_all
    show ?thesis using get_property_tree_found(2) [OF h p(2,3)] holds_value [OF h'] p(4) by simp
  qed
qed

text \<open>As many bytes are enough for a property of a name.\<close>

definition prop_cost :: "8 word list \<Rightarrow> 8 word list \<Rightarrow> int" where
  "prop_cost name w = 12 + FDT_TAGALIGN (int (length w)) + int (length name) + 1"

lemma setprop_spec:
  assumes "node_at fdt rs us nm ps ws strs room"
    and "0 \<notin> set name" "int (length name) < INT_MAX - 8" "int (length w) < INT_MAX - 64"
  shows "\<exists>err fdt' strs' room' off ps'. fdt_setprop fdt (bytes us) name w = Some (err, fdt')
    \<and> (strs' = strs \<or> value_of strs name ps = None \<and> strs' = strs @ name @ [0])
    \<and> (err = 0 \<and> ps' = (if value_of strs name ps = None then Prop off w # ps else replace_prop strs name w ps)
          \<and> string_at strs' off name \<and> room - prop_cost name w \<le> room'
        \<or> err = - FDT_ERR_NOSPACE \<and> ps' = ps \<and> room < prop_cost name w)
    \<and> node_at fdt' rs us nm ps' ws strs' room'"
proof -
  note d = node_atD [OF assms(1)]
  from split_props [OF d(2,5), of name] show ?thesis
  proof (elim disjE exE conjE)
    assume v: "value_of strs name ps = None" and o: "others strs name ps"
    obtain err fdt' strs' room' where r: "fdt_setprop fdt (bytes us) name w = Some (err, fdt')"
      "strs' = strs \<or> strs' = strs @ name @ [0]"
      "err = 0 \<and> (\<exists>off. string_at strs' off name \<and> holds fdt' rs (us @ Node_begin nm # Prop off w # ps @ ws) strs' room')
          \<and> room - prop_cost name w \<le> room'
       \<or> err = - FDT_ERR_NOSPACE \<and> holds fdt' rs (us @ Node_begin nm # ps @ ws) strs' room' \<and> room < prop_cost name w"
      using setprop_tree_new [OF d(1) o d(3,4) assms(2-4)] unfolding prop_cost_def by blast
    from r(3) show ?thesis
    proof (elim disjE exE conjE)
      fix off assume e: "err = 0" "string_at strs' off name" "holds fdt' rs (us @ Node_begin nm # Prop off w # ps @ ws) strs' room'"
        "room - prop_cost name w \<le> room'"
      show ?thesis using r(1,2) e v d(2-4)
        by (intro exI [of _ err] exI [of _ fdt'] exI [of _ strs'] exI [of _ room'] exI [of _ off] exI [of _ "Prop off w # ps"])
          (simp add: node_at_def)
    next
      assume e: "err = - FDT_ERR_NOSPACE" "holds fdt' rs (us @ Node_begin nm # ps @ ws) strs' room'" "room < prop_cost name w"
      show ?thesis using r(1,2) e v d(2-4)
        by (intro exI [of _ err] exI [of _ fdt'] exI [of _ strs'] exI [of _ room'] exI [of _ 0] exI [of _ ps])
          (simp add: node_at_def)
    qed
  next
    fix ps1 off v ps2
    assume p: "ps = ps1 @ Prop off v # ps2" "others strs name ps1" "string_at strs off name" "value_of strs name ps = Some v"
      "\<forall>w. replace_prop strs name w ps = ps1 @ Prop off w # ps2"
    have h: "holds fdt rs (us @ Node_begin nm # ps1 @ Prop off v # (ps2 @ ws)) strs room" using d(1) p(1) by simp
    have cost: "FDT_TAGALIGN (int (length w)) - FDT_TAGALIGN (int (length v)) \<le> prop_cost name w"
      using TAGALIGN_bounds(1) [of "int (length v)"] by (simp add: prop_cost_def)
    from setprop_tree_found [OF h p(2,3) assms(4)] show ?thesis
    proof (elim disjE exE conjE)
      fix fdt' assume "fdt_setprop fdt (bytes us) name w = Some (0, fdt')"
        "holds fdt' rs (us @ Node_begin nm # ps1 @ Prop off w # ps2 @ ws) strs
            (room + FDT_TAGALIGN (int (length v)) - FDT_TAGALIGN (int (length w)))"
      then show ?thesis using p d(2-4) cost
        by (intro exI [of _ 0] exI [of _ fdt'] exI [of _ strs]
            exI [of _ "room + FDT_TAGALIGN (int (length v)) - FDT_TAGALIGN (int (length w))"] exI [of _ off]
            exI [of _ "ps1 @ Prop off w # ps2"]) (simp add: node_at_def)
    next
      assume e: "FDT_TAGALIGN (int (length w)) - FDT_TAGALIGN (int (length v)) > room"
        "fdt_setprop fdt (bytes us) name w = Some (- FDT_ERR_NOSPACE, fdt)"
      then have "room < prop_cost name w" using cost by simp
      then show ?thesis using assms(1) e(2) by auto
    qed
  qed
qed

lemma delprop_spec:
  assumes "node_at fdt rs us nm ps ws strs room"
  shows "case value_of strs name ps of
      None \<Rightarrow> fdt_delprop fdt (bytes us) name = Some (- FDT_ERR_NOTFOUND, fdt)
    | Some v \<Rightarrow> \<exists>fdt'. fdt_delprop fdt (bytes us) name = Some (0, fdt')
        \<and> node_at fdt' rs us nm (remove_prop strs name ps) ws strs (room + 12 + FDT_TAGALIGN (int (length v)))"
proof -
  note d = node_atD [OF assms]
  from split_props [OF d(2,5), of name] show ?thesis
  proof (elim disjE exE conjE)
    assume "value_of strs name ps = None" "others strs name ps"
    then show ?thesis using get_property_tree_missing [OF d(1) _ d(3,4)]
      unfolding fdt_delprop_def rw_probed_tree(2) [OF d(1)] by simp
  next
    fix ps1 off v ps2
    assume p: "ps = ps1 @ Prop off v # ps2" "others strs name ps1" "string_at strs off name" "value_of strs name ps = Some v"
      "remove_prop strs name ps = ps1 @ ps2"
    have h: "holds fdt rs (us @ Node_begin nm # ps1 @ Prop off v # (ps2 @ ws)) strs room" using d(1) p(1) by simp
    have "room + bytes [Prop off v] = room + 12 + FDT_TAGALIGN (int (length v))"
      using length_enc(3) [of off v] by (simp add: bytes_def)
    then show ?thesis using delprop_tree [OF h p(2,3)] p d(2-4) by (auto simp: node_at_def add.assoc simp del: bytes_simps)
  qed
qed

section \<open>A node as a map of its properties\<close>

text \<open>A client sets properties or, without a value, deletes them, and goes on after an error. The
  second function is the map it has in mind, from the error codes it got.\<close>

fun updates :: "('s \<Rightarrow> 'k \<Rightarrow> 'n \<Rightarrow> 'v \<Rightarrow> (int \<times> 's) option) \<Rightarrow> ('s \<Rightarrow> 'k \<Rightarrow> 'n \<Rightarrow> (int \<times> 's) option) \<Rightarrow>
    ('n \<times> 'v option) list \<Rightarrow> 's \<Rightarrow> 'k \<Rightarrow> (int list \<times> 's) option" where
  "updates put del [] s k = Some ([], s)"
| "updates put del ((n, v) # us) s k = do {
     (err, s) \<leftarrow> (case v of Some v \<Rightarrow> put s k n v | None \<Rightarrow> del s k n);
     (errs, s) \<leftarrow> updates put del us s k;
     Some (err # errs, s) }"

fun meant :: "('n \<times> 'v option) list \<Rightarrow> int list \<Rightarrow> ('n \<Rightarrow> 'v option) \<Rightarrow> 'n \<Rightarrow> 'v option" where
  "meant ((n, v) # us) (err # errs) m = meant us errs (if err = 0 then m(n := v) else m)"
| "meant us errs m = m"

text \<open>
  The interface a client relies on: a node stores a map, the lookup reads it, and an update that
  returns 0 changes it in one place; one that does not, leaves it. \<open>accepts\<close> is for the names and values
  the update accepts.
\<close>

locale property_store =
  fixes store :: "'s \<Rightarrow> 'k \<Rightarrow> ('n \<Rightarrow> 'v option) \<Rightarrow> bool"
    and get :: "'s \<Rightarrow> 'k \<Rightarrow> 'n \<Rightarrow> 'v option option"
    and put :: "'s \<Rightarrow> 'k \<Rightarrow> 'n \<Rightarrow> 'v \<Rightarrow> (int \<times> 's) option"
    and del :: "'s \<Rightarrow> 'k \<Rightarrow> 'n \<Rightarrow> (int \<times> 's) option"
    and accepts :: "'n \<Rightarrow> 'v \<Rightarrow> bool"
  assumes get_store: "store s k m \<Longrightarrow> get s k n = Some (m n)"
    and put_store: "store s k m \<Longrightarrow> accepts n v \<Longrightarrow>
      \<exists>err s'. put s k n v = Some (err, s') \<and> store s' k (if err = 0 then m(n \<mapsto> v) else m)"
    and del_store: "store s k m \<Longrightarrow>
      \<exists>err s'. del s k n = Some (err, s') \<and> store s' k (m(n := None)) \<and> (err = 0 \<longleftrightarrow> m n \<noteq> None)"
begin

lemma updates_meant:
  "store s k m \<Longrightarrow> list_all (\<lambda>(n, v). v = None \<or> accepts n (the v)) us \<Longrightarrow>
    \<exists>errs s'. updates put del us s k = Some (errs, s') \<and> store s' k (meant us errs m)"
proof (induction us arbitrary: s m)
  case (Cons u us)
  obtain n v where u: "u = (n, v)" by fastforce
  have "\<exists>err s'. (case v of Some v \<Rightarrow> put s k n v | None \<Rightarrow> del s k n) = Some (err, s')
      \<and> store s' k (if err = 0 then m(n := v) else m)"
  proof (cases v)
    case None
    then obtain err s' where d: "del s k n = Some (err, s')" "store s' k (m(n := None))" "err = 0 \<longleftrightarrow> m n \<noteq> None"
      using del_store [OF Cons.prems(1), of n] by blast
    have "m(n := None) = m" if "err \<noteq> 0" using d(3) that by auto
    then show ?thesis using d(1,2) None by auto
  next
    case (Some w)
    then obtain err s' where "put s k n w = Some (err, s')" "store s' k (if err = 0 then m(n \<mapsto> w) else m)"
      using put_store [OF Cons.prems(1), of n w] Cons.prems(2) u by auto
    then show ?thesis using Some by auto
  qed
  then obtain err s' where 1: "(case v of Some v \<Rightarrow> put s k n v | None \<Rightarrow> del s k n) = Some (err, s')"
    "store s' k (if err = 0 then m(n := v) else m)" by blast
  then show ?case using Cons.IH [OF 1(2)] Cons.prems(2) u by auto
qed simp

lemma updates_read:
  assumes "store s k m" "list_all (\<lambda>(n, v). v = None \<or> accepts n (the v)) us" "updates put del us s k = Some (errs, s')"
  shows "get s' k n = Some (meant us errs m n)"
  using updates_meant [OF assms(1,2)] assms(3) get_store by fastforce

end

text \<open>The properties of a node of a tree, with different names, as such a map.\<close>

fun names :: "8 word list \<Rightarrow> token list \<Rightarrow> 8 word list list" where
  "names strs (Prop off v # ps) = prop_name strs off # names strs ps"
| "names strs (_ # ps) = names strs ps"
| "names strs [] = []"

definition stores :: "blob \<Rightarrow> int \<Rightarrow> (8 word list \<Rightarrow> 8 word list option) \<Rightarrow> bool" where
  "stores fdt off m \<longleftrightarrow> (\<exists>rs us nm ps ws strs room. node_at fdt rs us nm ps ws strs room \<and> off = bytes us
     \<and> distinct (names strs ps) \<and> m = (\<lambda>name. value_of strs name ps))"

definition get_value :: "blob \<Rightarrow> int \<Rightarrow> 8 word list \<Rightarrow> 8 word list option option" where
  "get_value fdt off name = do {
     (p, len) \<leftarrow> fdt_getprop fdt off name;
     case p of
       Some q \<Rightarrow> do { v \<leftarrow> rd_bytes fdt q len; Some (Some v) }
     | None \<Rightarrow> if len = - FDT_ERR_NOTFOUND then Some None else None }"

definition accepted :: "8 word list \<Rightarrow> 8 word list \<Rightarrow> bool" where
  "accepted name w \<longleftrightarrow> 0 \<notin> set name \<and> int (length name) < INT_MAX - 8 \<and> int (length w) < INT_MAX - 64"

lemma names_value: "value_of strs name ps = None \<longleftrightarrow> name \<notin> set (names strs ps)"
  by (induction strs ps rule: names.induct) auto

lemma names_append: "list_all (token_in strs) ps \<Longrightarrow> names (strs @ X) ps = names strs ps \<and> value_of (strs @ X) name ps = value_of strs name ps"
proof (induction strs ps rule: names.induct)
  case (1 strs off v ps)
  then obtain nm where "string_at strs off nm" by auto
  then have "prop_name (strs @ X) off = prop_name strs off" using prop_name_at string_at_append by metis
  then show ?case using 1 by simp
qed simp_all

lemma replace_value:
  "value_of strs name ps \<noteq> None \<Longrightarrow> (\<lambda>n. value_of strs n (replace_prop strs name w ps)) = (\<lambda>n. value_of strs n ps)(name \<mapsto> w)"
  "names strs (replace_prop strs name w ps) = names strs ps"
  by (induction strs name w ps rule: replace_prop.induct) (auto simp: fun_eq_iff split: if_splits)

lemma remove_value:
  assumes "distinct (names strs ps)"
  shows "(\<lambda>n. value_of strs n (remove_prop strs name ps)) = (\<lambda>n. value_of strs n ps)(name := None)"
    "distinct (names strs (remove_prop strs name ps)) \<and> set (names strs (remove_prop strs name ps)) \<subseteq> set (names strs ps)"
  using assms by (induction strs name ps rule: remove_prop.induct) (auto simp: fun_eq_iff names_value)

lemma node_stores:
  assumes "node_at fdt rs us nm ps ws strs room" "distinct (names strs ps)"
  shows "stores fdt (bytes us) (\<lambda>name. value_of strs name ps)"
  using assms unfolding stores_def by blast

lemma get_value_stores:
  assumes "stores fdt off m"
  shows "get_value fdt off name = Some (m name)"
proof -
  obtain rs us nm ps ws strs room where n: "node_at fdt rs us nm ps ws strs room" "off = bytes us"
    "m = (\<lambda>name. value_of strs name ps)" using assms unfolding stores_def by blast
  show ?thesis
  proof (cases "value_of strs name ps")
    case None
    then show ?thesis using getprop_spec [OF n(1), of name] n by (simp add: get_value_def)
  next
    case (Some v)
    then obtain q where "fdt_getprop fdt (bytes us) name = Some (Some q, int (length v))" "rd_bytes fdt q (int (length v)) = Some v"
      using getprop_spec [OF n(1), of name] by auto
    then show ?thesis using n Some by (simp add: get_value_def)
  qed
qed

lemma setprop_stores:
  assumes "stores fdt off m" "accepted name w"
  shows "\<exists>err fdt'. fdt_setprop fdt off name w = Some (err, fdt') \<and> stores fdt' off (if err = 0 then m(name \<mapsto> w) else m)"
proof -
  obtain rs us nm ps ws strs room where n: "node_at fdt rs us nm ps ws strs room" "off = bytes us" "distinct (names strs ps)"
    "m = (\<lambda>name. value_of strs name ps)" using assms(1) unfolding stores_def by blast
  have tok: "list_all (token_in strs) ps" using node_atD(5) [OF n(1)] .
  obtain err fdt' strs' room' o' ps' where r: "fdt_setprop fdt (bytes us) name w = Some (err, fdt')"
    "strs' = strs \<or> value_of strs name ps = None \<and> strs' = strs @ name @ [0]"
    "err = 0 \<and> ps' = (if value_of strs name ps = None then Prop o' w # ps else replace_prop strs name w ps) \<and> string_at strs' o' name
      \<or> err = - FDT_ERR_NOSPACE \<and> ps' = ps"
    "node_at fdt' rs us nm ps' ws strs' room'"
    using setprop_spec [OF n(1), of name w] assms(2) unfolding accepted_def by blast
  have s: "names strs' ps = names strs ps" "\<And>n. value_of strs' n ps = value_of strs n ps"
    using r(2) names_append [OF tok] by auto
  have "stores fdt' off (\<lambda>n. value_of strs' n ps')" if "distinct (names strs' ps')"
    using node_stores [OF r(4) that] n(2) by simp
  moreover have "distinct (names strs' ps') \<and> (\<lambda>n. value_of strs' n ps') = (if err = 0 then m(name \<mapsto> w) else m)"
  proof (cases "err = 0")
    case False
    then show ?thesis using r(3) s n(3,4) by auto
  next
    case True
    then have e: "ps' = (if value_of strs name ps = None then Prop o' w # ps else replace_prop strs name w ps)" "string_at strs' o' name"
      using r(3) by auto
    show ?thesis
    proof (cases "value_of strs name ps")
      case None
      then show ?thesis using e prop_name_at [OF e(2)] True s n(3,4) names_value [of strs name ps] by (auto simp: fun_eq_iff)
    next
      case (Some v)
      then show ?thesis using e r(2) True n(3,4) replace_value [where strs = strs and name = name and ps = ps and w = w] by auto
    qed
  qed
  ultimately show ?thesis using r(1) n(2) by auto
qed

lemma delprop_stores:
  assumes "stores fdt off m"
  shows "\<exists>err fdt'. fdt_delprop fdt off name = Some (err, fdt') \<and> stores fdt' off (m(name := None)) \<and> (err = 0 \<longleftrightarrow> m name \<noteq> None)"
proof -
  obtain rs us nm ps ws strs room where n: "node_at fdt rs us nm ps ws strs room" "off = bytes us" "distinct (names strs ps)"
    "m = (\<lambda>name. value_of strs name ps)" using assms(1) unfolding stores_def by blast
  show ?thesis
  proof (cases "value_of strs name ps")
    case None
    then have "m(name := None) = m" using n(4) by auto
    then show ?thesis using delprop_spec [OF n(1), of name] None assms n(2,4) by simp
  next
    case (Some v)
    then obtain fdt' room' where "fdt_delprop fdt (bytes us) name = Some (0, fdt')"
      "node_at fdt' rs us nm (remove_prop strs name ps) ws strs room'"
      using delprop_spec [OF n(1), of name] by auto
    then show ?thesis using node_stores remove_value [OF n(3), of name] Some n(2,4) by fastforce
  qed
qed

interpretation props: property_store stores get_value fdt_setprop fdt_delprop accepted
  by unfold_locales (use get_value_stores setprop_stores delprop_stores in blast)+

section \<open>A tree with room\<close>

text \<open>The root with a property \<open>a\<close> and a child \<open>n\<close>, in a buffer of 256 bytes.\<close>

definition room_fdt :: blob where
  "room_fdt = fdt_image FDT_MAGIC 256 (replicate 16 0)
     (encs [Node_begin [], Prop 0 [1, 2], Node_begin [110], Node_end, Node_end] @ enc Fin) [97, 0] (replicate 146 0)"

lemma room_holds: "holds room_fdt (replicate 16 0) [Node_begin [], Prop 0 [1, 2], Node_begin [110], Node_end, Node_end] [97, 0] 146"
proof -
  let ?ts = "[Node_begin [], Prop 0 [1, 2], Node_begin [110], Node_end, Node_end]"
  have len: "length (encs ?ts) = 40" by code_simp
  have a: "string_at [97, 0] 0 [97]" unfolding string_at_def by (rule conjI, simp) (rule exI [of _ "[]"], simp)
  have "fits 256 (replicate 16 0) (encs ?ts @ enc Fin) [97, 0] (replicate 146 0)" using len by (simp add: fits_def del: encs_simps)
  moreover have "block (?ts @ [Fin]) (encs ?ts @ enc Fin)" using block_encs [of "?ts @ [Fin]"] by simp
  moreover have "list_all (token_in [97, 0]) ?ts" using a by auto
  ultimately show ?thesis
    unfolding holds_def room_fdt_def using len by (intro conjI exI [of _ 256] exI [of _ "encs ?ts @ enc Fin"] exI [of _ "replicate 146 0"])
      (simp_all del: encs_simps)
qed

lemma room_node:
  "node_at room_fdt (replicate 16 0) [] [] [Prop 0 [1, 2]] [Node_begin [110], Node_end, Node_end] [97, 0] 146"
  using room_holds by (simp add: node_at_def)

section \<open>Properties of a node\<close>

text \<open>
  C28: \<open>fdt_getprop\<close> is the lookup in the map. On a buffer that holds a tree it returns, for a node, the
  place and the length of the value of the first property of the name, and \<open>FDT_ERR_NOTFOUND\<close> if the
  node has none.
\<close>
theorem getprop_refines:
  assumes "node_at fdt rs us nm ps ws strs room"
  shows "case value_of strs name ps of
      None \<Rightarrow> fdt_getprop fdt (bytes us) name = Some (None, - FDT_ERR_NOTFOUND)
    | Some v \<Rightarrow> \<exists>q. fdt_getprop fdt (bytes us) name = Some (Some q, int (length v)) \<and> rd_bytes fdt q (int (length v)) = Some v"
  using getprop_spec [OF assms] .

theorem getprop_refines_witness:
  "\<exists>q. fdt_getprop room_fdt (bytes []) [97] = Some (Some q, int (length [1, 2 :: 8 word]))
    \<and> rd_bytes room_fdt q (int (length [1, 2 :: 8 word])) = Some [1, 2]"
  using getprop_refines [OF room_node, of "[97]"] by (simp add: prop_name_def)

text \<open>
  C7: \<open>fdt_setprop\<close> is the update of the map. It replaces the value of the first property of the name
  or puts a new property in front of the others, with a name that is or gets into the strings
  block; every other token stays. The only error is \<open>FDT_ERR_NOSPACE\<close>, when the room is not enough
  for a new property of a new name, and then the tokens are those of before.
\<close>
theorem setprop_refines:
  assumes "node_at fdt rs us nm ps ws strs room"
    and "0 \<notin> set name" "int (length name) < INT_MAX - 8" "int (length w) < INT_MAX - 64"
  shows "\<exists>err fdt' strs' room' off ps'. fdt_setprop fdt (bytes us) name w = Some (err, fdt')
    \<and> (strs' = strs \<or> value_of strs name ps = None \<and> strs' = strs @ name @ [0])
    \<and> (err = 0 \<and> ps' = (if value_of strs name ps = None then Prop off w # ps else replace_prop strs name w ps)
          \<and> string_at strs' off name \<and> room - prop_cost name w \<le> room'
        \<or> err = - FDT_ERR_NOSPACE \<and> ps' = ps \<and> room < prop_cost name w)
    \<and> node_at fdt' rs us nm ps' ws strs' room'"
  using setprop_spec [OF assms] .

theorem setprop_refines_witness:
  "\<exists>err fdt' strs' room' off ps'. fdt_setprop room_fdt (bytes []) [98] [7, 8, 9] = Some (err, fdt')
    \<and> (strs' = [97, 0] \<or> value_of [97, 0] [98] [Prop 0 [1, 2]] = None \<and> strs' = [97, 0] @ [98] @ [0])
    \<and> (err = 0 \<and> ps' = (if value_of [97, 0] [98] [Prop 0 [1, 2]] = None then Prop off [7, 8, 9] # [Prop 0 [1, 2]]
            else replace_prop [97, 0] [98] [7, 8, 9] [Prop 0 [1, 2]])
          \<and> string_at strs' off [98] \<and> 146 - prop_cost [98] [7, 8, 9] \<le> room'
        \<or> err = - FDT_ERR_NOSPACE \<and> ps' = [Prop 0 [1, 2]] \<and> 146 < prop_cost [98] [7, 8, 9])
    \<and> node_at fdt' (replicate 16 0) [] [] ps' [Node_begin [110], Node_end, Node_end] strs' room'"
  by (rule setprop_refines [OF room_node]) simp_all

text \<open>
  C29: \<open>fdt_delprop\<close> removes exactly the first property of the name and gives its bytes back to the
  room; without one it reports \<open>FDT_ERR_NOTFOUND\<close> and leaves the buffer as it is.
\<close>
theorem delprop_refines:
  assumes "node_at fdt rs us nm ps ws strs room"
  shows "case value_of strs name ps of
      None \<Rightarrow> fdt_delprop fdt (bytes us) name = Some (- FDT_ERR_NOTFOUND, fdt)
    | Some v \<Rightarrow> \<exists>fdt'. fdt_delprop fdt (bytes us) name = Some (0, fdt')
        \<and> node_at fdt' rs us nm (remove_prop strs name ps) ws strs (room + 12 + FDT_TAGALIGN (int (length v)))"
  using delprop_spec [OF assms] .

theorem delprop_refines_witness:
  "\<exists>fdt'. fdt_delprop room_fdt (bytes []) [97] = Some (0, fdt')
    \<and> node_at fdt' (replicate 16 0) [] [] [] [Node_begin [110], Node_end, Node_end] [97, 0] (146 + 12 + FDT_TAGALIGN 2)"
  using delprop_refines [OF room_node, of "[97]"] by (simp add: prop_name_def)

text \<open>
  C3: any sequence of \<open>fdt_setprop\<close> and \<open>fdt_delprop\<close> calls on a node reads back. The calls return,
  whatever their error codes, and afterwards \<open>fdt_getprop\<close> gives for every name what the last call
  for it that returned 0 has set, or what the node had.
\<close>
theorem property_updates_read_back:
  assumes "node_at fdt rs us nm ps ws strs room" "distinct (names strs ps)"
    and "list_all (\<lambda>(n, v). v = None \<or> accepted n (the v)) cs"
  shows "\<exists>errs fdt'. updates fdt_setprop fdt_delprop cs fdt (bytes us) = Some (errs, fdt')
    \<and> (\<forall>name. get_value fdt' (bytes us) name = Some (meant cs errs (\<lambda>n. value_of strs n ps) name))"
  using props.updates_meant [OF node_stores [OF assms(1,2)] assms(3)] get_value_stores by blast

theorem property_updates_read_back_witness:
  "\<exists>errs fdt'. updates fdt_setprop fdt_delprop [([98], Some [7]), ([97], None), ([98], Some [8, 9])] room_fdt (bytes [])
      = Some (errs, fdt')
    \<and> (\<forall>name. get_value fdt' (bytes []) name
        = Some (meant [([98], Some [7]), ([97], None), ([98], Some [8, 9])] errs (\<lambda>n. value_of [97, 0] n [Prop 0 [1, 2]]) name))"
  by (rule property_updates_read_back [OF room_node]) (simp_all add: accepted_def)

section \<open>Nodes\<close>

text \<open>
  C27: \<open>fdt_add_subnode\<close> adds an empty node behind the properties of its parent. When no child of the
  parent matches the name it returns the offset of the new node, whose two tokens are the only
  change, or \<open>FDT_ERR_NOSPACE\<close> with the buffer as it is.
\<close>
theorem add_subnode_refines:
  assumes "holds fdt rs (us @ Node_begin nm # ps @ kids @ Node_end # ws) strs room"
    and "inner 0 (ps @ kids)" "list_all is_prop ps" "props_over (kids @ [Node_end])"
    and "0 \<notin> set name" "int (length name) < INT_MAX - 64"
    and "find_child name 0 (ps @ kids) (bytes (us @ [Node_begin nm])) < 0"
  shows "\<exists>fdt'. fdt_add_subnode fdt (bytes us) name
      = Some (if bytes [Node_begin name, Node_end] \<le> room then bytes (us @ Node_begin nm # ps) else - FDT_ERR_NOSPACE, fdt')
    \<and> (if bytes [Node_begin name, Node_end] \<le> room
       then holds fdt' rs (us @ Node_begin nm # ps @ Node_begin name # Node_end # kids @ Node_end # ws) strs
              (room - bytes [Node_begin name, Node_end])
       else fdt' = fdt)"
  using add_subnode_tree [OF assms] by (auto simp del: bytes_simps)

theorem add_subnode_refines_witness:
  "\<exists>fdt'. fdt_add_subnode room_fdt 0 [109] = Some (24, fdt')
    \<and> holds fdt' (replicate 16 0)
        [Node_begin [], Prop 0 [1, 2], Node_begin [109], Node_end, Node_begin [110], Node_end, Node_end] [97, 0] 134"
proof -
  have h: "holds room_fdt (replicate 16 0) ([] @ Node_begin [] # [Prop 0 [1, 2]] @ [Node_begin [110], Node_end] @ Node_end # []) [97, 0] 146"
    using room_holds by simp
  have n: "bytes [Node_begin [109], Node_end] = 12" "bytes ([] @ Node_begin [] # [Prop 0 [1, 2]]) = 24"
    "find_child [109] 0 ([Prop 0 [1, 2]] @ [Node_begin [110], Node_end]) (bytes ([] @ [Node_begin []])) = - 1" by code_simp+
  show ?thesis using add_subnode_refines [OF h, of "[109]"] unfolding n by (simp add: n)
qed

text \<open>
  C26: \<open>fdt_del_node\<close> removes exactly the node with all that is in it, and the room grows by its bytes.
\<close>
theorem del_node_refines:
  assumes "holds fdt rs (us @ Node_begin nm # body @ Node_end # ws) strs room" "inner 0 body"
  shows "\<exists>fdt'. fdt_del_node fdt (bytes us) = Some (0, fdt')
    \<and> holds fdt' rs (us @ ws) strs (room + bytes (Node_begin nm # body @ [Node_end]))"
  using del_node_tree [OF assms] .

theorem del_node_refines_witness:
  "\<exists>fdt'. fdt_del_node room_fdt (bytes [Node_begin [], Prop 0 [1, 2]]) = Some (0, fdt')
    \<and> holds fdt' (replicate 16 0) ([Node_begin [], Prop 0 [1, 2]] @ [Node_end]) [97, 0]
        (146 + bytes (Node_begin [110] # [] @ [Node_end]))"
  by (rule del_node_refines) (use room_holds in simp_all)

text \<open>
  C30: removal in place. \<open>fdt_nop_property\<close> and \<open>fdt_nop_node\<close> replace the property or the node by as
  many NOP tags as it has words; no other byte of the tree moves.
\<close>
theorem nops_refine:
  assumes "holds fdt rs (us @ Node_begin nm # ps @ Prop off v # ks @ Node_end # ws) strs room"
    and "others strs name ps" "string_at strs off name" "inner 0 (ps @ Prop off v # ks)"
  shows "(\<exists>fdt' k. fdt_nop_property fdt (bytes us) name = Some (0, fdt') \<and> 4 * int k = bytes [Prop off v]
      \<and> holds fdt' rs (us @ Node_begin nm # ps @ replicate k Nop @ ks @ Node_end # ws) strs room)
    \<and> (\<exists>fdt' k. fdt_nop_node fdt (bytes us) = Some (0, fdt')
      \<and> 4 * int k = bytes (Node_begin nm # (ps @ Prop off v # ks) @ [Node_end])
      \<and> holds fdt' rs (us @ replicate k Nop @ ws) strs room)"
  using nop_property_tree [OF assms(1-3)] nop_node_tree [OF _ assms(4), of fdt rs us nm ws strs room] assms(1) by simp

theorem nops_refine_witness:
  "(\<exists>fdt' k. fdt_nop_property room_fdt (bytes []) [97] = Some (0, fdt') \<and> 4 * int k = bytes [Prop 0 [1, 2]]
      \<and> holds fdt' (replicate 16 0) ([] @ Node_begin [] # [] @ replicate k Nop @ [Node_begin [110], Node_end] @ Node_end # []) [97, 0] 146)
    \<and> (\<exists>fdt' k. fdt_nop_node room_fdt (bytes []) = Some (0, fdt')
      \<and> 4 * int k = bytes (Node_begin [] # ([] @ Prop 0 [1, 2] # [Node_begin [110], Node_end]) @ [Node_end])
      \<and> holds fdt' (replicate 16 0) ([] @ replicate k Nop @ []) [97, 0] 146)"
proof (rule nops_refine)
  show "string_at [97, 0] 0 [97]" unfolding string_at_def by (rule conjI, simp) (rule exI [of _ "[]"], simp)
qed (use room_holds in \<open>simp_all add: others_def\<close>)

end
