(* ===== verification/Fdt_Overlay.thy ===== *)
theory Fdt_Overlay
  imports Fdt_Edit
begin

text \<open>
  \<open>fdt_overlay.c\<close>: an overlay \<open>fdto\<close> is merged into a base tree \<open>fdt\<close>. The two are different
  buffers; a function returns its error code with the buffers it may change. A pointer into one of
  them is an offset, and a string is read from the buffer at the time the code reads it. The
  functions that call themselves take fuel for the depth, and a loop over nodes or properties for
  its steps: \<open>blob_fuel\<close> of the tree that is walked, since each step goes forward in it.
\<close>

abbreviation (input) FDT_ERR_BADOVERLAY :: int where "FDT_ERR_BADOVERLAY \<equiv> 16"
abbreviation (input) FDT_ERR_NOPHANDLES :: int where "FDT_ERR_NOPHANDLES \<equiv> 17"

section \<open>The loops of libfdt.h\<close>

text \<open>
  The macros \<open>fdt_for_each_subnode\<close> and \<open>fdt_for_each_property_offset\<close>. The body works on a state
  and returns 0 to go on or the value the function around the loop returns; \<open>tree\<close> is the blob in
  the state that is walked.
\<close>

fun subnodes_n :: "nat \<Rightarrow> ('s \<Rightarrow> blob) \<Rightarrow> (int \<Rightarrow> 's \<Rightarrow> (int \<times> 's) option) \<Rightarrow> int \<Rightarrow> 's \<Rightarrow> (int \<times> 's) option" where
  "subnodes_n 0 tree body node st = None"
| "subnodes_n (Suc n) tree body node st =
     (if node < 0 then Some (0, st)
      else do {
        (ret, st) \<leftarrow> body node st;
        if ret \<noteq> 0 then Some (ret, st)
        else do { node \<leftarrow> fdt_next_subnode (tree st) node; subnodes_n n tree body node st } })"

definition fdt_for_each_subnode ::
  "('s \<Rightarrow> blob) \<Rightarrow> int \<Rightarrow> (int \<Rightarrow> 's \<Rightarrow> (int \<times> 's) option) \<Rightarrow> 's \<Rightarrow> (int \<times> 's) option" where
  "fdt_for_each_subnode tree parent body st = do {
     node \<leftarrow> fdt_first_subnode (tree st) parent;
     subnodes_n (blob_fuel (tree st)) tree body node st }"

fun properties_n :: "nat \<Rightarrow> ('s \<Rightarrow> blob) \<Rightarrow> (int \<Rightarrow> 's \<Rightarrow> (int \<times> 's) option) \<Rightarrow> int \<Rightarrow> 's \<Rightarrow> (int \<times> 's) option" where
  "properties_n 0 tree body property st = None"
| "properties_n (Suc n) tree body property st =
     (if property < 0 then Some (0, st)
      else do {
        (ret, st) \<leftarrow> body property st;
        if ret \<noteq> 0 then Some (ret, st)
        else do { property \<leftarrow> fdt_next_property_offset (tree st) property; properties_n n tree body property st } })"

definition fdt_for_each_property_offset ::
  "('s \<Rightarrow> blob) \<Rightarrow> int \<Rightarrow> (int \<Rightarrow> 's \<Rightarrow> (int \<times> 's) option) \<Rightarrow> 's \<Rightarrow> (int \<times> 's) option" where
  "fdt_for_each_property_offset tree node body st = do {
     property \<leftarrow> fdt_first_property_offset (tree st) node;
     properties_n (blob_fuel (tree st)) tree body property st }"

section \<open>Targets\<close>

definition overlay_get_target_phandle :: "blob \<Rightarrow> int \<Rightarrow> int option" where
  "overlay_get_target_phandle fdto fragment = do {
     (val, len) \<leftarrow> fdt_getprop fdto fragment (chars ''target'');
     case val of
       None \<Rightarrow> Some 0
     | Some v \<Rightarrow>
         if len \<noteq> 4 then Some (2 ^ 32 - 1)
         else do { phandle \<leftarrow> fdt32_ld fdto v; Some phandle } }"

text \<open>The offset or the error, and the pointer to the path for a caller that has a place for it.\<close>

definition overlay_get_target :: "blob \<Rightarrow> blob \<Rightarrow> int \<Rightarrow> (int \<times> int option) option" where
  "overlay_get_target fdt fdto fragment = do {
     phandle \<leftarrow> overlay_get_target_phandle fdto fragment;
     if phandle = 2 ^ 32 - 1 then Some (- FDT_ERR_BADPHANDLE, None)
     else do {
       (ret, path, path_len) \<leftarrow>
         (if phandle = 0 then do {
            (path, path_len) \<leftarrow> fdt_getprop fdto fragment (chars ''target-path'');
            case path of
              None \<Rightarrow> Some (path_len, None, path_len)
            | Some p \<Rightarrow> do {
                s \<leftarrow> c_string_at fdto p;
                ret \<leftarrow> fdt_path_offset fdt s;
                Some (ret, Some p, path_len) } }
          else do { ret \<leftarrow> fdt_node_offset_by_phandle fdt phandle; Some (ret, None, 0) });
       let ret = (if ret < 0 \<and> path_len = - FDT_ERR_NOTFOUND then - FDT_ERR_BADOVERLAY else ret);
       if ret < 0 then Some (ret, None) else Some (ret, path) } }"

section \<open>The phandles of the overlay\<close>

definition fdt_setprop_inplace_u32 :: "blob \<Rightarrow> int \<Rightarrow> 8 word list \<Rightarrow> int \<Rightarrow> (int \<times> blob) option" where
  "fdt_setprop_inplace_u32 fdt nodeoffset name val = fdt_setprop_inplace fdt nodeoffset name (cpu_to_fdt32 val)"

definition overlay_phandle_add_offset :: "blob \<Rightarrow> int \<Rightarrow> 8 word list \<Rightarrow> int \<Rightarrow> (int \<times> blob) option" where
  "overlay_phandle_add_offset fdt node name delta = do {
     (val, len) \<leftarrow> fdt_getprop fdt node name;
     case val of
       None \<Rightarrow> Some (len, fdt)
     | Some v \<Rightarrow>
         if len \<noteq> 4 then Some (- FDT_ERR_BADPHANDLE, fdt)
         else do {
           adj_val \<leftarrow> fdt32_ld fdt v;
           if u32 (adj_val + delta) < adj_val then Some (- FDT_ERR_NOPHANDLES, fdt)
           else do {
             let adj_val = u32 (adj_val + delta);
             if adj_val = 2 ^ 32 - 1 then Some (- FDT_ERR_NOPHANDLES, fdt)
             else fdt_setprop_inplace_u32 fdt node name adj_val } } }"

fun adjust_node_n :: "nat \<Rightarrow> int \<Rightarrow> int \<Rightarrow> blob \<Rightarrow> (int \<times> blob) option" where
  "adjust_node_n 0 delta node fdto = None"
| "adjust_node_n (Suc n) delta node fdto = do {
     (ret, fdto) \<leftarrow> overlay_phandle_add_offset fdto node (chars ''phandle'') delta;
     if ret \<noteq> 0 \<and> ret \<noteq> - FDT_ERR_NOTFOUND then Some (ret, fdto)
     else do {
       (ret, fdto) \<leftarrow> overlay_phandle_add_offset fdto node (chars ''linux,phandle'') delta;
       if ret \<noteq> 0 \<and> ret \<noteq> - FDT_ERR_NOTFOUND then Some (ret, fdto)
       else fdt_for_each_subnode id node (adjust_node_n n delta) fdto } }"

definition overlay_adjust_node_phandles :: "blob \<Rightarrow> int \<Rightarrow> int \<Rightarrow> (int \<times> blob) option" where
  "overlay_adjust_node_phandles fdto node delta = adjust_node_n (blob_fuel fdto) delta node fdto"

definition overlay_adjust_local_phandles :: "blob \<Rightarrow> int \<Rightarrow> (int \<times> blob) option" where
  "overlay_adjust_local_phandles fdto delta = overlay_adjust_node_phandles fdto 0 delta"

section \<open>References inside of the overlay\<close>

text \<open>The loop over the cells of a property of \<open>__local_fixups__\<close>; \<open>fixup_val\<close>, \<open>tree_val\<close> and \<open>name\<close>
  are pointers into the overlay, which the loop changes.\<close>

function update_cells :: "blob \<Rightarrow> int \<Rightarrow> int \<Rightarrow> int \<Rightarrow> int \<Rightarrow> int \<Rightarrow> int \<Rightarrow> int \<Rightarrow> (int \<times> blob) option" where
  "update_cells fdto tree_node fixup_val tree_val name delta i count =
     (if i < count then do {
        poffset \<leftarrow> fdt32_ld fdto (fixup_val + 4 * i);
        adj_val \<leftarrow> fdt32_ld fdto (tree_val + poffset);
        s \<leftarrow> c_string_at fdto name;
        (ret, fdto) \<leftarrow> fdt_setprop_inplace_namelen_partial fdto tree_node s poffset (cpu_to_fdt32 (u32 (adj_val + delta)));
        if ret = - FDT_ERR_NOSPACE then Some (- FDT_ERR_BADOVERLAY, fdto)
        else if ret \<noteq> 0 then Some (ret, fdto)
        else update_cells fdto tree_node fixup_val tree_val name delta (i + 1) count }
      else Some (0, fdto))"
  by auto
termination by (relation "measure (\<lambda>(fdto, tree_node, fixup_val, tree_val, name, delta, i, count). nat (count - i))") auto

declare update_cells.simps [simp del]

text \<open>The body of the loop over the properties of a node of \<open>__local_fixups__\<close>, and the function.\<close>

definition update_property :: "int \<Rightarrow> int \<Rightarrow> int \<Rightarrow> blob \<Rightarrow> (int \<times> blob) option" where
  "update_property delta tree_node fixup_prop fdto = do {
     (fixup_val, name, fixup_len) \<leftarrow> fdt_getprop_by_offset fdto fixup_prop;
     case fixup_val of
       None \<Rightarrow> Some (fixup_len, fdto)
     | Some fv \<Rightarrow>
         if u64 fixup_len mod 4 \<noteq> 0 then Some (- FDT_ERR_BADOVERLAY, fdto)
         else do {
           nm \<leftarrow> name;
           s \<leftarrow> c_string_at fdto nm;
           (tree_val, tree_len) \<leftarrow> fdt_getprop fdto tree_node s;
           case tree_val of
             None \<Rightarrow> Some (if tree_len = - FDT_ERR_NOTFOUND then - FDT_ERR_BADOVERLAY else tree_len, fdto)
           | Some tv \<Rightarrow> update_cells fdto tree_node fv tv nm delta 0 (u64 fixup_len div 4) } }"

fun update_node_n :: "nat \<Rightarrow> int \<Rightarrow> int \<Rightarrow> int \<Rightarrow> blob \<Rightarrow> (int \<times> blob) option" where
  "update_node_n 0 delta tree_node fixup_node fdto = None"
| "update_node_n (Suc n) delta tree_node fixup_node fdto = do {
     (ret, fdto) \<leftarrow> fdt_for_each_property_offset id fixup_node (update_property delta tree_node) fdto;
     if ret \<noteq> 0 then Some (ret, fdto)
     else fdt_for_each_subnode id fixup_node (\<lambda>fixup_child fdto. do {
       (name, namelen) \<leftarrow> fdt_get_name fdto fixup_child;
       nm \<leftarrow> name;
       s \<leftarrow> c_string_at fdto nm;
       tree_child \<leftarrow> fdt_subnode_offset fdto tree_node s;
       if tree_child = - FDT_ERR_NOTFOUND then Some (- FDT_ERR_BADOVERLAY, fdto)
       else if tree_child < 0 then Some (tree_child, fdto)
       else update_node_n n delta tree_child fixup_child fdto }) fdto }"

definition overlay_update_local_node_references :: "blob \<Rightarrow> int \<Rightarrow> int \<Rightarrow> int \<Rightarrow> (int \<times> blob) option" where
  "overlay_update_local_node_references fdto tree_node fixup_node delta =
     update_node_n (blob_fuel fdto) delta tree_node fixup_node fdto"

definition overlay_update_local_references :: "blob \<Rightarrow> int \<Rightarrow> (int \<times> blob) option" where
  "overlay_update_local_references fdto delta = do {
     fixups \<leftarrow> fdt_path_offset fdto (chars ''/__local_fixups__'');
     if fixups < 0 then Some (if fixups = - FDT_ERR_NOTFOUND then 0 else fixups, fdto)
     else overlay_update_local_node_references fdto 0 fixups delta }"

section \<open>References to the base\<close>

definition overlay_fixup_one_phandle ::
  "blob \<Rightarrow> blob \<Rightarrow> int \<Rightarrow> 8 word list \<Rightarrow> 8 word list \<Rightarrow> int \<Rightarrow> 8 word list \<Rightarrow> (int \<times> blob) option" where
  "overlay_fixup_one_phandle fdt fdto symbols_off path name poffset label =
     (if symbols_off < 0 then Some (symbols_off, fdto)
      else do {
        (symbol_path, prop_len) \<leftarrow> fdt_getprop fdt symbols_off label;
        case symbol_path of
          None \<Rightarrow> Some (prop_len, fdto)
        | Some sp \<Rightarrow> do {
            s \<leftarrow> c_string_at fdt sp;
            symbol_off \<leftarrow> fdt_path_offset fdt s;
            if symbol_off < 0 then Some (symbol_off, fdto)
            else do {
              phandle \<leftarrow> fdt_get_phandle fdt symbol_off;
              if phandle = 0 then Some (- FDT_ERR_NOTFOUND, fdto)
              else do {
                fixup_off \<leftarrow> fdt_path_offset_namelen fdto path;
                if fixup_off = - FDT_ERR_NOTFOUND then Some (- FDT_ERR_BADOVERLAY, fdto)
                else if fixup_off < 0 then Some (fixup_off, fdto)
                else fdt_setprop_inplace_namelen_partial fdto fixup_off name (u32 poffset) (cpu_to_fdt32 phandle) } } } })"

text \<open>\<open>strtoul\<close> to the base 10 on a string: the number, of 64 bits, and how many bytes it has read.\<close>

definition is_digit :: "8 word \<Rightarrow> bool" where
  "is_digit c = (0x30 \<le> uint c \<and> uint c \<le> 0x39)"

definition is_space :: "8 word \<Rightarrow> bool" where
  "is_space c = (c = 0x20 \<or> 0x09 \<le> uint c \<and> uint c \<le> 0x0d)"

fun c_strtoul :: "8 word list \<Rightarrow> int \<times> int" where
  "c_strtoul s = (
     let t = dropWhile is_space s;
         neg = (t \<noteq> [] \<and> hd t = 0x2d);
         t = (if t \<noteq> [] \<and> (hd t = 0x2d \<or> hd t = 0x2b) then tl t else t);
         v = foldl (\<lambda>v c. 10 * v + (uint c - 0x30)) 0 (takeWhile is_digit t)
     in if takeWhile is_digit t = [] then (0, 0)
        else (if v > 2 ^ 64 - 1 then 2 ^ 64 - 1 else if neg then u64 (- v) else v,
              int (length s) - int (length (dropWhile is_digit t))))"

text \<open>One string of a property of \<open>__fixups__\<close>, \<open>path:name:offset\<close>, of \<open>fixup_len\<close> bytes at
  \<open>fixup_str\<close>: the path, the name and the offset.\<close>

definition parse_fixup :: "blob \<Rightarrow> int \<Rightarrow> int \<Rightarrow> (8 word list \<times> 8 word list \<times> int) option option" where
  "parse_fixup fdto fixup_str fixup_len = do {
     sep \<leftarrow> mem_chr fdto fixup_str 0x3a fixup_len;
     case sep of
       None \<Rightarrow> Some None
     | Some sep \<Rightarrow> do {
         let path_len = u32 (sep - fixup_str);
         if path_len = u32 (fixup_len - 1) then Some None
         else do {
           path \<leftarrow> rd_bytes fdto fixup_str path_len;
           let fixup_len = u32 (fixup_len - (path_len + 1));
           let name = sep + 1;
           sep \<leftarrow> mem_chr fdto name 0x3a fixup_len;
           case sep of
             None \<Rightarrow> Some None
           | Some sep \<Rightarrow> do {
               let name_len = u32 (sep - name);
               if name_len = 0 then Some None
               else do {
                 nm \<leftarrow> rd_bytes fdto name name_len;
                 s \<leftarrow> c_string_at fdto (sep + 1);
                 let (poffset, endptr) = c_strtoul s;
                 if endptr < int (length s) \<or> endptr \<le> 0 then Some None
                 else Some (Some (path, nm, s32 poffset)) } } } } }"

fun fixup_strings_n :: "nat \<Rightarrow> blob \<Rightarrow> blob \<Rightarrow> int \<Rightarrow> int \<Rightarrow> int \<Rightarrow> int \<Rightarrow> (int \<times> blob) option" where
  "fixup_strings_n 0 fdt fdto symbols_off label value len = None"
| "fixup_strings_n (Suc n) fdt fdto symbols_off label value len = do {
     fixup_end \<leftarrow> mem_chr fdto value 0 (u64 len);
     case fixup_end of
       None \<Rightarrow> Some (- FDT_ERR_BADOVERLAY, fdto)
     | Some fixup_end \<Rightarrow> do {
         let fixup_len = u32 (fixup_end - value);
         let len = s32 (len - (fixup_len + 1));
         fixup \<leftarrow> parse_fixup fdto value fixup_len;
         case fixup of
           None \<Rightarrow> Some (- FDT_ERR_BADOVERLAY, fdto)
         | Some (path, name, poffset) \<Rightarrow> do {
             l \<leftarrow> c_string_at fdto label;
             (ret, fdto) \<leftarrow> overlay_fixup_one_phandle fdt fdto symbols_off path name poffset l;
             if ret \<noteq> 0 then Some (ret, fdto)
             else if len > 0 then fixup_strings_n n fdt fdto symbols_off label (value + u32 (fixup_len + 1)) len
             else Some (0, fdto) } } }"

definition overlay_fixup_phandle :: "blob \<Rightarrow> blob \<Rightarrow> int \<Rightarrow> int \<Rightarrow> (int \<times> blob) option" where
  "overlay_fixup_phandle fdt fdto symbols_off property = do {
     (value, label, len) \<leftarrow> fdt_getprop_by_offset fdto property;
     case value of
       None \<Rightarrow> Some (if len = - FDT_ERR_NOTFOUND then - FDT_ERR_INTERNAL else len, fdto)
     | Some v \<Rightarrow> do {
         l \<leftarrow> label;
         fixup_strings_n (blob_fuel fdto) fdt fdto symbols_off l v len } }"

definition overlay_fixup_phandles :: "blob \<Rightarrow> blob \<Rightarrow> (int \<times> blob) option" where
  "overlay_fixup_phandles fdt fdto = do {
     fixups_off \<leftarrow> fdt_path_offset fdto (chars ''/__fixups__'');
     if fixups_off = - FDT_ERR_NOTFOUND then Some (0, fdto)
     else if fixups_off < 0 then Some (fixups_off, fdto)
     else do {
       symbols_off \<leftarrow> fdt_path_offset fdt (chars ''/__symbols__'');
       if symbols_off < 0 \<and> symbols_off \<noteq> - FDT_ERR_NOTFOUND then Some (symbols_off, fdto)
       else fdt_for_each_property_offset id fixups_off
              (\<lambda>property fdto. overlay_fixup_phandle fdt fdto symbols_off property) fdto } }"

section \<open>The merge\<close>

text \<open>The body of the loop over the properties of a node of the overlay, that of the loop over the
  subnodes up to its call of the function, and the function. The overlay stays as it is.\<close>

definition apply_property :: "blob \<Rightarrow> int \<Rightarrow> int \<Rightarrow> blob \<Rightarrow> (int \<times> blob) option" where
  "apply_property fdto target property fdt = do {
     (prop, name, prop_len) \<leftarrow> fdt_getprop_by_offset fdto property;
     if prop_len = - FDT_ERR_NOTFOUND then Some (- FDT_ERR_INTERNAL, fdt)
     else if prop_len < 0 then Some (prop_len, fdt)
     else do {
       nm \<leftarrow> name;
       s \<leftarrow> c_string_at fdto nm;
       p \<leftarrow> prop;
       val \<leftarrow> rd_bytes fdto p prop_len;
       fdt_setprop fdt target s val } }"

definition target_subnode :: "blob \<Rightarrow> int \<Rightarrow> int \<Rightarrow> blob \<Rightarrow> (int \<times> blob) option" where
  "target_subnode fdto target subnode fdt = do {
     (name, namelen) \<leftarrow> fdt_get_name fdto subnode;
     nm \<leftarrow> name;
     s \<leftarrow> c_string_at fdto nm;
     (nnode, fdt) \<leftarrow> fdt_add_subnode fdt target s;
     if nnode = - FDT_ERR_EXISTS then do {
       nnode \<leftarrow> fdt_subnode_offset fdt target s;
       Some (if nnode = - FDT_ERR_NOTFOUND then - FDT_ERR_INTERNAL else nnode, fdt) }
     else Some (nnode, fdt) }"

fun apply_node_n :: "nat \<Rightarrow> blob \<Rightarrow> int \<Rightarrow> int \<Rightarrow> blob \<Rightarrow> (int \<times> blob) option" where
  "apply_node_n 0 fdto target node fdt = None"
| "apply_node_n (Suc n) fdto target node fdt = do {
     (ret, fdt) \<leftarrow> fdt_for_each_property_offset (\<lambda>fdt. fdto) node (apply_property fdto target) fdt;
     if ret \<noteq> 0 then Some (ret, fdt)
     else fdt_for_each_subnode (\<lambda>fdt. fdto) node (\<lambda>subnode fdt. do {
       (nnode, fdt) \<leftarrow> target_subnode fdto target subnode fdt;
       if nnode < 0 then Some (nnode, fdt) else apply_node_n n fdto nnode subnode fdt }) fdt }"

definition overlay_apply_node :: "blob \<Rightarrow> int \<Rightarrow> blob \<Rightarrow> int \<Rightarrow> (int \<times> blob) option" where
  "overlay_apply_node fdt target fdto node = apply_node_n (blob_fuel fdto) fdto target node fdt"

definition merge_fragment :: "blob \<Rightarrow> int \<Rightarrow> blob \<Rightarrow> (int \<times> blob) option" where
  "merge_fragment fdto fragment fdt = do {
     overlay \<leftarrow> fdt_subnode_offset fdto fragment (chars ''__overlay__'');
     if overlay = - FDT_ERR_NOTFOUND then Some (0, fdt)
     else if overlay < 0 then Some (overlay, fdt)
     else do {
       (target, pathp) \<leftarrow> overlay_get_target fdt fdto fragment;
       if target < 0 then Some (target, fdt) else overlay_apply_node fdt target fdto overlay } }"

definition overlay_merge :: "blob \<Rightarrow> blob \<Rightarrow> (int \<times> blob) option" where
  "overlay_merge fdt fdto = fdt_for_each_subnode (\<lambda>fdt. fdto) 0 (merge_fragment fdto) fdt"

section \<open>The symbols of the overlay\<close>

fun path_len_n :: "nat \<Rightarrow> blob \<Rightarrow> int \<Rightarrow> int \<Rightarrow> int option" where
  "path_len_n 0 fdt nodeoffset len = None"
| "path_len_n (Suc n) fdt nodeoffset len = do {
     (name, namelen) \<leftarrow> fdt_get_name fdt nodeoffset;
     if name = None then Some namelen
     else if namelen = 0 then Some (if len = 0 then 1 else len)
     else do {
       nodeoffset \<leftarrow> fdt_parent_offset fdt nodeoffset;
       if nodeoffset < 0 then Some nodeoffset
       else path_len_n n fdt nodeoffset (s32 (len + (namelen + 1))) } }"

definition get_path_len :: "blob \<Rightarrow> int \<Rightarrow> int option" where
  "get_path_len fdt nodeoffset = do {
     err \<leftarrow> fdt_ro_probe' fdt;
     if err \<noteq> 0 then Some err else path_len_n (blob_fuel fdt) fdt nodeoffset 0 }"

text \<open>The part of \<open>overlay_symbol_update\<close> that takes a symbol of the overlay apart,
  \<open>/fragment/__overlay__/path\<close>: the error, or the fragment with the pointer to the rest and its
  length, the NUL included.\<close>

definition symbol_parts :: "blob \<Rightarrow> int \<Rightarrow> int \<Rightarrow> (int + int \<times> int \<times> int) option" where
  "symbol_parts fdto path path_len = do {
     nul \<leftarrow> (if path_len < 1 then Some None else mem_chr fdto path 0 path_len);
     if path_len < 1 \<or> nul \<noteq> Some (path + path_len - 1) then Some (Inl (- FDT_ERR_BADVALUE))
     else do {
       let e = path + path_len;
       c \<leftarrow> rd8 fdto path;
       if c \<noteq> slash then Some (Inl (- FDT_ERR_BADVALUE))
       else do {
         tail \<leftarrow> c_string_at fdto (path + 1);
         if slash \<notin> set tail then Some (Inl (- FDT_ERR_BADOVERLAY))
         else do {
           let frag_name = takeWhile (\<lambda>c. c \<noteq> slash) tail;
           let s = path + 1 + int (length frag_name);
           eq \<leftarrow> (if e - s < 13 then Some False else mem_eq fdto s (chars ''/__overlay__/''));
           if \<not> eq then Some (Inl (- FDT_ERR_BADOVERLAY))
           else do {
             let rel_path = s + 13;
             fragment \<leftarrow> fdt_subnode_offset_namelen fdto 0 frag_name;
             if fragment < 0 then Some (Inl (- FDT_ERR_BADOVERLAY))
             else do {
               ret \<leftarrow> fdt_subnode_offset fdto fragment (chars ''__overlay__'');
               if ret < 0 then Some (Inl (- FDT_ERR_BADOVERLAY))
               else Some (Inr (fragment, rel_path, s32 (e - rel_path))) } } } } } }"

text \<open>The part that writes the new path of the symbol to \<open>buf\<close>, a place in the base tree.
  \<open>fdt_get_path\<close> writes to the value of a property of the tree it reads; its walk reads no value, so
  the bytes of the value can be taken out for it and put back.\<close>

definition write_symbol :: "blob \<Rightarrow> blob \<Rightarrow> int \<Rightarrow> int option \<Rightarrow> int \<Rightarrow> int \<Rightarrow> int \<Rightarrow> int \<Rightarrow> (int \<times> blob) option" where
  "write_symbol fdt fdto target target_path buf len rel_path rel_path_len = do {
     (ret, fdt) \<leftarrow>
       (if len > 1 then
          (case target_path of
             None \<Rightarrow> do {
               bs \<leftarrow> rd_bytes fdt buf (len + 1);
               (ret, bs) \<leftarrow> fdt_get_path fdt target bs;
               fdt \<leftarrow> wr_bytes fdt buf bs;
               Some (ret, fdt) }
           | Some tp \<Rightarrow> do {
               bs \<leftarrow> rd_bytes fdto tp (len + 1);
               fdt \<leftarrow> wr_bytes fdt buf bs;
               Some (0, fdt) })
        else Some (0, fdt));
     if ret < 0 then Some (ret, fdt)
     else do {
       let len = (if len > 1 then len else len - 1);
       fdt \<leftarrow> wr_bytes fdt (buf + len) [slash];
       bs \<leftarrow> rd_bytes fdto rel_path rel_path_len;
       fdt \<leftarrow> wr_bytes fdt (buf + len + 1) bs;
       fdt \<leftarrow> wr_bytes fdt (buf + len + 1 + rel_path_len) [0];
       Some (0, fdt) } }"

definition update_symbol :: "blob \<Rightarrow> blob \<Rightarrow> int \<Rightarrow> int \<Rightarrow> (int \<times> blob) option" where
  "update_symbol fdt fdto root_sym prop = do {
     (path, name, path_len) \<leftarrow> fdt_getprop_by_offset fdto prop;
     case path of
       None \<Rightarrow> Some (path_len, fdt)
     | Some path \<Rightarrow> do {
         parts \<leftarrow> symbol_parts fdto path path_len;
         case parts of
           Inl err \<Rightarrow> Some (err, fdt)
         | Inr (fragment, rel_path, rel_path_len) \<Rightarrow> do {
             (ret, target_path) \<leftarrow> overlay_get_target fdt fdto fragment;
             if ret < 0 then Some (ret, fdt)
             else do {
               let target = ret;
               len \<leftarrow> (case target_path of
                        None \<Rightarrow> get_path_len fdt target
                      | Some tp \<Rightarrow> do { l \<leftarrow> str_len fdto tp; Some (s32 l) });
               if target_path = None \<and> len < 0 then Some (len, fdt)
               else do {
                 nm \<leftarrow> name;
                 s \<leftarrow> c_string_at fdto nm;
                 (ret, p, fdt) \<leftarrow> fdt_setprop_placeholder fdt root_sym s
                   (s32 (len + (if len > 1 then 1 else 0) + rel_path_len + 1));
                 if ret < 0 then Some (ret, fdt)
                 else do {
                   (target, target_path) \<leftarrow>
                     (if target_path = None then overlay_get_target fdt fdto fragment
                      else Some (target, target_path));
                   if target < 0 then Some (target, fdt)
                   else write_symbol fdt fdto target target_path p len rel_path rel_path_len } } } } } }"

definition overlay_symbol_update :: "blob \<Rightarrow> blob \<Rightarrow> (int \<times> blob) option" where
  "overlay_symbol_update fdt fdto = do {
     ov_sym \<leftarrow> fdt_subnode_offset fdto 0 (chars ''__symbols__'');
     if ov_sym < 0 then Some (0, fdt)
     else do {
       root_sym \<leftarrow> fdt_subnode_offset fdt 0 (chars ''__symbols__'');
       (root_sym, fdt) \<leftarrow> (if root_sym = - FDT_ERR_NOTFOUND then fdt_add_subnode fdt 0 (chars ''__symbols__'')
                          else Some (root_sym, fdt));
       if root_sym < 0 then Some (root_sym, fdt)
       else fdt_for_each_property_offset (\<lambda>fdt. fdto) ov_sym (\<lambda>prop fdt. update_symbol fdt fdto root_sym prop) fdt } }"

section \<open>The application\<close>

text \<open>The steps of \<open>fdt_overlay_apply\<close> up to the first that fails, and the function, which erases the
  magic number of the overlay, and after a failure that of the base.\<close>

definition apply_steps :: "blob \<Rightarrow> blob \<Rightarrow> int \<Rightarrow> (int \<times> blob \<times> blob) option" where
  "apply_steps fdt fdto delta = do {
     (ret, fdto) \<leftarrow> overlay_adjust_local_phandles fdto delta;
     if ret \<noteq> 0 then Some (ret, fdt, fdto)
     else do {
       (ret, fdto) \<leftarrow> overlay_update_local_references fdto delta;
       if ret \<noteq> 0 then Some (ret, fdt, fdto)
       else do {
         (ret, fdto) \<leftarrow> overlay_fixup_phandles fdt fdto;
         if ret \<noteq> 0 then Some (ret, fdt, fdto)
         else do {
           (ret, fdt) \<leftarrow> overlay_merge fdt fdto;
           if ret \<noteq> 0 then Some (ret, fdt, fdto)
           else do {
             (ret, fdt) \<leftarrow> overlay_symbol_update fdt fdto;
             Some (ret, fdt, fdto) } } } } }"

definition fdt_overlay_apply :: "blob \<Rightarrow> blob \<Rightarrow> (int \<times> blob \<times> blob) option" where
  "fdt_overlay_apply fdt fdto = do {
     delta \<leftarrow> fdt_get_max_phandle fdt;
     err \<leftarrow> fdt_ro_probe' fdt;
     if err \<noteq> 0 then Some (err, fdt, fdto)
     else do {
       err \<leftarrow> fdt_ro_probe' fdto;
       if err \<noteq> 0 then Some (err, fdt, fdto)
       else do {
         (ret, fdt, fdto) \<leftarrow> apply_steps fdt fdto delta;
         fdto \<leftarrow> fdt_set_magic fdto (2 ^ 32 - 1);
         if ret = 0 then Some (0, fdt, fdto)
         else do {
           fdt \<leftarrow> fdt_set_magic fdt (2 ^ 32 - 1);
           Some (ret, fdt, fdto) } } } }"

end
