(* ===== verification/Fdt_Forest.thy ===== *)
theory Fdt_Forest
  imports Fdt_Edit_Properties Fdt_Overlay
begin

text \<open>
  Device trees as a datatype, and the buffers that hold one: how the functions that walk over the
  children of a node and the loops of \<open>libfdt.h\<close> act on them.
\<close>

section \<open>Trees\<close>

datatype dtree = Dtree (node_name: "8 word list") (node_props: "(8 word list \<times> 8 word list) list") (node_kids: "dtree list")

text \<open>The names and the values of properties, without the NOP tags between them.\<close>

fun prop_list :: "8 word list \<Rightarrow> token list \<Rightarrow> (8 word list \<times> 8 word list) list" where
  "prop_list strs [] = []"
| "prop_list strs (Prop off v # ps) = (prop_name strs off, v) # prop_list strs ps"
| "prop_list strs (_ # ps) = prop_list strs ps"

text \<open>The tokens of a tree, and of the children of a node with NOP tags behind each of them.\<close>

inductive tokens :: "8 word list \<Rightarrow> dtree \<Rightarrow> token list \<Rightarrow> bool"
  and forest :: "8 word list \<Rightarrow> dtree list \<Rightarrow> token list \<Rightarrow> bool" for strs where
  node: "list_all is_prop ps \<Longrightarrow> forest strs ks body \<Longrightarrow> tokens strs (Dtree nm (prop_list strs ps) ks) (Node_begin nm # ps @ body @ [Node_end])"
| none: "forest strs [] []"
| kid: "tokens strs k a \<Longrightarrow> forest strs ks b \<Longrightarrow> forest strs (k # ks) (a @ replicate n Nop @ b)"

inductive_cases tokens_cases: "tokens strs t ts"
inductive_cases forest_cons_cases: "forest strs (k # ks) ts"
inductive_cases forest_nil_cases: "forest strs [] ts"

lemma tokens_elim:
  assumes "tokens strs t ts"
  obtains nm ps ks body where "t = Dtree nm (prop_list strs ps) ks" "ts = Node_begin nm # ps @ body @ [Node_end]"
    "list_all is_prop ps" "forest strs ks body"
  using assms by (blast elim: tokens_cases)

lemma forest_cons:
  assumes "forest strs (k # ks) ts"
  obtains a n b where "ts = a @ replicate n Nop @ b" "tokens strs k a" "forest strs ks b"
  using assms by (blast elim: forest_cons_cases)

lemma forest_nil [simp]: "forest strs [] ts \<longleftrightarrow> ts = []"
  by (auto elim: forest_nil_cases intro: none)

lemma forest_append: "forest strs ks b \<Longrightarrow> forest strs ks' b' \<Longrightarrow> forest strs (ks @ ks') (b @ b')"
proof (induction ks arbitrary: b)
  case (Cons k ks)
  from Cons.prems(1) obtain a n c where c: "b = a @ replicate n Nop @ c" "tokens strs k a" "forest strs ks c" by (rule forest_cons)
  show ?case using kid [OF c(2) Cons.IH [OF c(3) Cons.prems(2)], of n] c(1) by simp
qed simp

lemma forest_over: "forest strs ks b \<Longrightarrow> props_over (b @ Node_end # ws)"
  by (cases ks) (auto elim!: forest_cons tokens_elim)

text \<open>The strings block may grow.\<close>

lemma prop_list_append: "list_all (token_in strs) ps \<Longrightarrow> prop_list (strs @ X) ps = prop_list strs ps"
proof (induction strs ps rule: prop_list.induct)
  case (2 strs off v ps)
  then obtain nm where "string_at strs off nm" by auto
  then have "prop_name (strs @ X) off = prop_name strs off" using prop_name_at string_at_append by metis
  then show ?case using 2 by simp
qed simp_all

lemma tokens_append:
  "tokens strs t ts \<Longrightarrow> list_all (token_in strs) ts \<Longrightarrow> tokens (strs @ X) t ts"
  and forest_strs_append: "forest strs ks ts \<Longrightarrow> list_all (token_in strs) ts \<Longrightarrow> forest (strs @ X) ks ts"
proof (induction rule: tokens_forest.inducts)
  case (node ps ks body nm)
  have "prop_list (strs @ X) ps = prop_list strs ps" using node.prems by (intro prop_list_append) simp
  then show ?case using tokens_forest.node [OF node.hyps(1), of "strs @ X" ks body nm] node by simp
qed (auto intro: tokens_forest.intros)

section \<open>Open nodes\<close>

lemma inner_props: "list_all is_prop ps \<Longrightarrow> inner d (ps @ ts) = inner d ts"
proof (induction ps)
  case (Cons p ps)
  then show ?case by (cases p) simp_all
qed simp

lemma inner_nops: "inner d (replicate n Nop @ ts) = inner d ts"
  by (induction n) simp_all

lemma inner_tokens: "tokens strs t ts \<Longrightarrow> inner d (ts @ us) = inner d us"
  and inner_forest: "forest strs ks ts \<Longrightarrow> inner d (ts @ us) = inner d us"
  by (induction arbitrary: d us and d us rule: tokens_forest.inducts) (simp_all add: inner_props inner_nops)

lemma forest_inner: "forest strs ks ts \<Longrightarrow> inner 0 ts"
  using inner_forest [of strs ks ts 0 "[]"] by simp

lemma find_props: "list_all is_prop ps \<Longrightarrow> find_child name d (ps @ ts) off = find_child name d ts (off + bytes ps)"
proof (induction ps arbitrary: off)
  case (Cons p ps)
  then show ?case by (cases p) (simp_all add: algebra_simps)
qed simp

lemma find_nops: "find_child name d (replicate n Nop @ ts) off = find_child name d ts (off + bytes (replicate n Nop))"
  by (rule find_props) (simp add: list_all_iff)

text \<open>Inside of a child the search matches nothing.\<close>

lemma find_inside_tokens:
  "tokens strs t ts \<Longrightarrow> find_child name (Suc d) (ts @ us) off = find_child name (Suc d) us (off + bytes ts)"
  and find_inside_forest:
  "forest strs ks ts \<Longrightarrow> find_child name (Suc d) (ts @ us) off = find_child name (Suc d) us (off + bytes ts)"
proof (induction arbitrary: d us off and d us off rule: tokens_forest.inducts)
  case (node ps ks body nm)
  then show ?case by (simp add: find_props algebra_simps)
qed (simp_all add: find_nops algebra_simps)

lemma find_tokens:
  assumes "tokens strs t ts"
  shows "find_child name 0 (ts @ us) off =
    (if name_matches (node_name t) name then off else find_child name 0 us (off + bytes ts))"
  using assms by (rule tokens_elim) (simp add: find_props find_inside_forest algebra_simps)

text \<open>The child that the name finds splits the children and their tokens.\<close>

abbreviation (input) child_named :: "8 word list \<Rightarrow> dtree \<Rightarrow> bool" where
  "child_named name k \<equiv> name_matches (node_name k) name"

lemma find_forest:
  assumes "forest strs ks body"
  shows "case List.extract (child_named name) ks of
      None \<Rightarrow> find_child name 0 body off = - FDT_ERR_NOTFOUND
    | Some (ks1, k, ks2) \<Rightarrow> \<exists>b1 a n b2. body = b1 @ a @ replicate n Nop @ b2 \<and> find_child name 0 body off = off + bytes b1
        \<and> forest strs ks1 b1 \<and> tokens strs k a \<and> forest strs ks2 b2"
  using assms
proof (induction ks arbitrary: body off)
  case (Cons k ks)
  from Cons.prems obtain a n b where c: "body = a @ replicate n Nop @ b" "tokens strs k a" "forest strs ks b" by (rule forest_cons)
  note f = find_tokens [OF c(2), of name "replicate n Nop @ b" off, unfolded find_nops]
  show ?case
  proof (cases "name_matches (node_name k) name")
    case True
    show ?thesis unfolding extract_Cons_code using True f c
      by simp (intro exI [of _ "[]"] exI [of _ a] exI [of _ n] exI [of _ b], simp)
  next
    case ne: False
    note IH = Cons.IH [OF c(3), of "off + bytes a + bytes (replicate n Nop)"]
    show ?thesis
    proof (cases "List.extract (child_named name) ks")
      case None
      then show ?thesis using IH f ne c(1) by (simp add: extract_Cons_code)
    next
      case (Some r)
      then obtain ks1 k' ks2 where r: "List.extract (child_named name) ks = Some (ks1, k', ks2)" by (cases r) auto
      with IH obtain b1 a' m b2 where i: "b = b1 @ a' @ replicate m Nop @ b2"
        "find_child name 0 b (off + bytes a + bytes (replicate n Nop)) = off + bytes a + bytes (replicate n Nop) + bytes b1"
        "forest strs ks1 b1" "tokens strs k' a'" "forest strs ks2 b2" by auto
      have "forest strs (k # ks1) (a @ replicate n Nop @ b1)" using kid [OF c(2) i(3)] .
      then show ?thesis using r ne f c(1) i
        by (simp add: extract_Cons_code) (intro exI [of _ "a @ replicate n Nop @ b1"] exI [of _ a'] exI [of _ m] exI [of _ b2], simp)
    qed
  qed
qed (simp add: List.extract_def)

section \<open>From child to child\<close>

lemma forest_start:
  assumes "forest strs ks b"
  shows "b = [] \<and> ks = [] \<or> ks \<noteq> [] \<and> (\<exists>nm b'. b = Node_begin nm # b')"
  using assms by (cases ks) (auto elim!: forest_cons tokens_elim)

lemma next_node_props:
  "holds fdt rs (us @ ps @ ws) strs room \<Longrightarrow> list_all is_prop ps \<Longrightarrow>
    next_node_n (length ps + m) fdt (bytes us) d = next_node_n m fdt (bytes (us @ ps)) d"
proof (induction ps arbitrary: us)
  case (Cons p ps)
  have h: "holds fdt rs ((us @ [p]) @ ps @ ws) strs room" using Cons.prems(1) by simp
  have "fdt_next_tag fdt (bytes us) = Some (tag_of p, bytes (us @ [p]))"
    using holds_next_tag [of fdt rs us p "ps @ ws" strs room] Cons.prems(1) by simp
  then show ?case using Cons.IH [OF h] Cons.prems(2) by (cases p) (simp_all del: bytes_simps)
qed simp

text \<open>The children of a node, or its end, are what the walk gets to behind properties and NOP tags.\<close>

lemma next_node_kids:
  assumes h: "holds fdt rs (us @ ps @ b @ Node_end # ws) strs room" and p: "list_all is_prop ps" and b: "forest strs ks b"
    and n: "length ps < n"
  shows "\<exists>off. next_node_n n fdt (bytes us) (Some 0)
    = (if ks \<noteq> [] then Some (bytes (us @ ps), Some 1) else Some (off, Some (- 1)))"
proof -
  have s: "s32 1 = 1" "s32 (- 1) = - 1" by (simp_all add: s32_def)
  obtain m where m: "n = length ps + Suc m" using n by (metis add_Suc_right less_imp_Suc_add)
  note w = next_node_props [OF h p, of "Suc m" "Some 0", folded m]
  have h': "holds fdt rs ((us @ ps) @ t # ts) strs room" if "b @ Node_end # ws = t # ts" for t ts using h that by simp
  show ?thesis
  proof (cases "ks = []")
    case True
    then have "b = []" using b by simp
    then have "fdt_next_tag fdt (bytes (us @ ps)) = Some (FDT_END_NODE, bytes (us @ ps @ [Node_end]))"
      using holds_next_tag [OF h'] by simp
    then show ?thesis using w s True by (simp del: bytes_simps)
  next
    case False
    then obtain nm b' where b': "b = Node_begin nm # b'" using forest_start [OF b] by auto
    then have "fdt_next_tag fdt (bytes (us @ ps)) = Some (FDT_BEGIN_NODE, bytes ((us @ ps) @ [Node_begin nm]))"
      using holds_next_tag [OF h'] by simp
    then show ?thesis using w s False by (simp del: bytes_simps)
  qed
qed

lemma first_subnode_tree:
  assumes h: "holds fdt rs (us @ Node_begin nm # ps @ b @ Node_end # ws) strs room"
    and p: "list_all is_prop ps" and b: "forest strs ks b"
  shows "fdt_first_subnode fdt (bytes us) = Some (if ks = [] then - FDT_ERR_NOTFOUND else bytes (us @ Node_begin nm # ps))"
proof -
  have h': "holds fdt rs ((us @ [Node_begin nm]) @ ps @ b @ Node_end # ws) strs room" using h by simp
  have "length ps < blob_fuel fdt" using holds_header(5) [OF h] by simp
  from next_node_kids [OF h' p b this] obtain off where
    "next_node_n (blob_fuel fdt) fdt (bytes (us @ [Node_begin nm])) (Some 0)
      = (if ks \<noteq> [] then Some (bytes ((us @ [Node_begin nm]) @ ps), Some 1) else Some (off, Some (- 1)))" by blast
  moreover have "\<not> bytes (us @ Node_begin nm # ps) < 0" using bytes_nonneg [of "us @ Node_begin nm # ps"] by linarith
  ultimately show ?thesis using next_node_from [OF h] by (simp add: fdt_first_subnode_def del: bytes_simps)
qed

text \<open>What \<open>fdt_next_subnode\<close> does with the node the walk gets to.\<close>

definition next_subnode_from :: "nat \<Rightarrow> blob \<Rightarrow> (int \<times> int option) option \<Rightarrow> int option" where
  "next_subnode_from m fdt r = do {
     (offset, d) \<leftarrow> r;
     if offset < 0 \<or> the d < 1 then Some (- FDT_ERR_NOTFOUND)
     else if the d > 1 then next_subnode_n m fdt offset (the d)
     else Some offset }"

lemma next_subnode_walk:
  "holds fdt rs (us @ body @ Node_end # replicate k Nop @ b @ Node_end # ws) strs room \<Longrightarrow> inner d body \<Longrightarrow>
    forest strs ks b \<Longrightarrow> int d + int (length (body @ [Node_end])) < INT_MAX \<Longrightarrow>
    length body + k + 1 < n \<Longrightarrow> length body < m \<Longrightarrow>
    next_subnode_from m fdt (next_node_n n fdt (bytes us) (Some (int d + 1)))
      = Some (if ks = [] then - FDT_ERR_NOTFOUND else bytes (us @ body @ Node_end # replicate k Nop))"
proof (induction body arbitrary: us d n m)
  case Nil
  have h: "holds fdt rs (us @ [] @ [] @ Node_end # replicate k Nop @ b @ Node_end # ws) strs room"
    and h': "holds fdt rs ((us @ [Node_end]) @ replicate k Nop @ b @ Node_end # ws) strs room" using Nil.prems(1) by simp_all
  obtain j where j: "n = Suc j" "k < j" using Nil.prems(5) by (cases n) auto
  have d: "d = 0" using Nil.prems(2) by simp
  have "fdt_next_tag fdt (bytes us) = Some (FDT_END_NODE, bytes (us @ [Node_end]))"
    using holds_next_tag [of fdt rs us Node_end "replicate k Nop @ b @ Node_end # ws" strs room] Nil.prems(1) by simp
  then have "next_node_n n fdt (bytes us) (Some (int d + 1)) = next_node_n j fdt (bytes (us @ [Node_end])) (Some 0)"
    using j d by (simp add: s32_def)
  moreover have nops: "list_all is_prop (replicate k Nop)" by (simp add: list_all_iff)
  moreover obtain off where "next_node_n j fdt (bytes (us @ [Node_end])) (Some 0)
      = (if ks \<noteq> [] then Some (bytes ((us @ [Node_end]) @ replicate k Nop), Some 1) else Some (off, Some (- 1)))"
    using next_node_kids [OF h' nops Nil.prems(3), of j] j(2) unfolding length_replicate by blast
  moreover have "\<not> bytes (us @ Node_end # replicate k Nop) < 0" using bytes_nonneg [of "us @ Node_end # replicate k Nop"] by linarith
  ultimately show ?case by (simp add: next_subnode_from_def del: bytes_simps)
next
  case (Cons t body)
  let ?r = "Node_end # replicate k Nop @ b @ Node_end # ws"
  let ?R = "Some (if ks = [] then - FDT_ERR_NOTFOUND else bytes (us @ (t # body) @ Node_end # replicate k Nop))"
  obtain i where i: "n = Suc i" "length body + k + 1 < i" using Cons.prems(5) by (cases n) auto
  obtain j where j: "m = Suc j" "length body < j" using Cons.prems(6) by (cases m) auto
  have h: "holds fdt rs ((us @ [t]) @ body @ ?r) strs room" and h': "holds fdt rs (us @ t # (body @ ?r)) strs room"
    using Cons.prems(1) by simp_all
  have tag: "fdt_next_tag fdt (bytes us) = Some (tag_of t, bytes (us @ [t]))" using holds_next_tag [OF h'] .
  note sd = depth_small [of "Suc d" "body @ [Node_end]"] depth_small [OF Cons.prems(4)]
  have fuel: "length body + k + 1 < blob_fuel fdt" using holds_header(5) [OF Cons.prems(1)] by simp
  note IH = Cons.IH [OF h _ Cons.prems(3)]
  have step: ?case if "next_node_n n fdt (bytes us) (Some (int d + 1)) = next_node_n i fdt (bytes (us @ [t])) (Some (int d' + 1))"
    "inner d' body" "int d' + int (length (body @ [Node_end])) < INT_MAX" for d'
    using IH [OF that(2,3) i(2), of m] that(1) j by simp
  show ?case
  proof (cases t)
    case (Node_begin nm)
    have b: "inner (Suc d) body" "int (Suc d) + int (length (body @ [Node_end])) < INT_MAX"
      using Cons.prems(2,4) Node_begin by simp_all
    have hb: "holds fdt rs (us @ Node_begin nm # (body @ ?r)) strs room" using h' Node_begin by simp
    have "next_node_n n fdt (bytes us) (Some (int d + 1)) = Some (bytes us, Some (int d + 2))"
      using tag i(1) sd(1) b(2) Node_begin by (simp add: add.commute)
    then have "next_subnode_from m fdt (next_node_n n fdt (bytes us) (Some (int d + 1))) = next_subnode_n m fdt (bytes us) (int d + 2)"
      using bytes_nonneg [of us] by (simp add: next_subnode_from_def not_less del: bytes_nonneg)
    also have "\<dots> = next_subnode_from j fdt (next_node_n (blob_fuel fdt) fdt (bytes (us @ [t])) (Some (int (Suc d) + 1)))"
      using next_node_from [OF hb] Node_begin j(1) by (simp add: next_subnode_from_def Let_def add.commute del: bytes_simps)
    finally show ?thesis using IH [OF b fuel j(2)] by simp
  next
    case Node_end
    have d: "0 < d" "inner (d - 1) body" using Cons.prems(2) Node_end by simp_all
    have "s32 (int d + 1 - 1) = int d" "int (d - 1) + 1 = int d"
      using Cons.prems(4) d(1) by (simp_all add: s32_id is_int_def of_nat_diff)
    then show ?thesis using step [OF _ d(2)] tag i(1) d(1) Node_end Cons.prems(4) by (simp del: bytes_simps)
  next
    case (Prop off v)
    then show ?thesis using step [of d] tag i(1) Cons.prems(2,4) by (simp del: bytes_simps)
  next
    case Nop
    then show ?thesis using step [of d] tag i(1) Cons.prems(2,4) by (simp del: bytes_simps)
  next
    case Fin
    then show ?thesis using Cons.prems(2) by simp
  qed
qed

lemma next_subnode_tree:
  assumes h: "holds fdt rs (us @ a @ replicate k Nop @ b @ Node_end # ws) strs room"
    and a: "tokens strs t a" and b: "forest strs ks b"
  shows "fdt_next_subnode fdt (bytes us) = Some (if ks = [] then - FDT_ERR_NOTFOUND else bytes (us @ a @ replicate k Nop))"
  using a
proof (rule tokens_elim)
  fix nm ps qs body
  assume p: "a = Node_begin nm # ps @ body @ [Node_end]" "list_all is_prop ps" "forest strs qs body"
  have h1: "holds fdt rs (us @ Node_begin nm # (ps @ body @ Node_end # replicate k Nop @ b @ Node_end # ws)) strs room"
    and h2: "holds fdt rs ((us @ [Node_begin nm]) @ (ps @ body) @ Node_end # replicate k Nop @ b @ Node_end # ws) strs room"
    using h p(1) by simp_all
  have i: "inner 0 (ps @ body)" using inner_props [OF p(2)] forest_inner [OF p(3)] by simp
  have f: "length (ps @ body) + k + 1 < blob_fuel fdt" "length (ps @ body) < blob_fuel fdt - 1"
    "blob_fuel fdt = Suc (blob_fuel fdt - 1)" using holds_header(5) [OF h1] by simp_all
  have l: "int 0 + int (length ((ps @ body) @ [Node_end])) < INT_MAX"
    using tree_tokens_small [OF h1 room_nonneg [OF h1]] by simp
  have "next_subnode_n (Suc (blob_fuel fdt - 1)) fdt (bytes us) 1
      = next_subnode_from (blob_fuel fdt - 1) fdt (next_node_n (blob_fuel fdt) fdt (bytes (us @ [Node_begin nm])) (Some (int 0 + 1)))"
    using next_node_from [OF h1] by (simp add: next_subnode_from_def Let_def del: bytes_simps)
  also have "\<dots> = Some (if ks = [] then - FDT_ERR_NOTFOUND
      else bytes ((us @ [Node_begin nm]) @ (ps @ body) @ Node_end # replicate k Nop))"
    by (rule next_subnode_walk [OF h2 i b l f(1,2)])
  finally show ?thesis using f(3) p(1) by (simp add: fdt_next_subnode_def)
qed

section \<open>A child and its place\<close>

text \<open>A part of the tokens at which a tree may be replaced.\<close>

definition part_of :: "8 word list \<Rightarrow> token list \<Rightarrow> token list \<Rightarrow> token list \<Rightarrow> token list \<Rightarrow> (dtree \<Rightarrow> dtree) \<Rightarrow> bool" where
  "part_of strs us' ws' us ws f \<longleftrightarrow> (\<forall>X c ct. tokens (strs @ X) c ct \<longrightarrow>
     (\<exists>bt. us' @ ct @ ws' = us @ bt @ ws \<and> tokens (strs @ X) (f c) bt))"

lemma part_of_self: "part_of strs us ws us ws (\<lambda>c. c)"
  by (auto simp: part_of_def)

lemma part_of_trans: "part_of strs us' ws' us ws f \<Longrightarrow> part_of strs us'' ws'' us' ws' g \<Longrightarrow> part_of strs us'' ws'' us ws (\<lambda>c. f (g c))"
  unfolding part_of_def by metis

lemma child_tree:
  assumes b: "tokens strs (Dtree nm pl bs) bt" and h: "holds fdt rs (us @ bt @ ws) strs room"
  shows "case List.extract (child_named name) bs of
      None \<Rightarrow> fdt_subnode_offset_namelen fdt (bytes us) name = Some (- FDT_ERR_NOTFOUND)
    | Some (bs1, k, bs2) \<Rightarrow> \<exists>us' kt ws'. fdt_subnode_offset_namelen fdt (bytes us) name = Some (bytes us')
        \<and> us @ bt @ ws = us' @ kt @ ws' \<and> tokens strs k kt
        \<and> part_of strs us' ws' us ws (\<lambda>c. Dtree nm pl (bs1 @ c # bs2))"
  using b
proof (rule tokens_elim)
  fix nm' ps ks body
  assume b: "Dtree nm pl bs = Dtree nm' (prop_list strs ps) ks" "bt = Node_begin nm' # ps @ body @ [Node_end]"
    "list_all is_prop ps" "forest strs ks body"
  have t: "bt = Node_begin nm # ps @ body @ [Node_end]" "pl = prop_list strs ps" "forest strs bs body" using b(1,2,4) by simp_all
  let ?us = "us @ Node_begin nm # ps"
  have h2: "holds fdt rs (us @ Node_begin nm # (ps @ body) @ Node_end # ws) strs room" using h t(1) by simp
  have i: "inner 0 (ps @ body)" using inner_props [OF b(3)] forest_inner [OF t(3)] by simp
  have tok: "list_all (token_in strs) ps" "list_all (token_in strs) body" using holds_tokens(1) [OF h2] by simp_all
  have find: "fdt_subnode_offset_namelen fdt (bytes us) name = Some (find_child name 0 body (bytes ?us))"
    using subnode_tree [OF h2 i, of name] find_props [OF b(3)] by (simp add: add.assoc del: enc.simps)
  note kid = find_forest [OF t(3), of name "bytes ?us"]
  show ?thesis
  proof (cases "List.extract (child_named name) bs")
    case None
    then show ?thesis using find kid by simp
  next
    case (Some r)
    then obtain bs1 k bs2 where r: "List.extract (child_named name) bs = Some (bs1, k, bs2)" by (cases r) auto
    with kid obtain b1 a n b2 where k: "body = b1 @ a @ replicate n Nop @ b2" "find_child name 0 body (bytes ?us) = bytes ?us + bytes b1"
      "forest strs bs1 b1" "tokens strs k a" "forest strs bs2 b2" by auto
    let ?us' = "?us @ b1" and ?ws' = "replicate n Nop @ b2 @ Node_end # ws"
    have "part_of strs ?us' ?ws' us ws (\<lambda>c. Dtree nm pl (bs1 @ c # bs2))"
      unfolding part_of_def
    proof (intro allI impI)
      fix X c ct assume c: "tokens (strs @ X) c ct"
      have "list_all (token_in strs) b1" "list_all (token_in strs) b2" using tok(2) k(1) by simp_all
      then have f: "forest (strs @ X) (bs1 @ c # bs2) (b1 @ ct @ replicate n Nop @ b2)"
        using forest_append tokens_forest.kid [OF c] forest_strs_append k(3,5) by blast
      from tokens_forest.node [OF b(3) f, of nm]
      have "tokens (strs @ X) (Dtree nm pl (bs1 @ c # bs2)) (Node_begin nm # ps @ (b1 @ ct @ replicate n Nop @ b2) @ [Node_end])"
        using prop_list_append [OF tok(1)] t(2) by simp
      then show "\<exists>bt. ?us' @ ct @ ?ws' = us @ bt @ ws \<and> tokens (strs @ X) (Dtree nm pl (bs1 @ c # bs2)) bt" by force
    qed
    moreover have "us @ bt @ ws = ?us' @ a @ ?ws'" using t(1) k(1) by simp
    moreover have "fdt_subnode_offset_namelen fdt (bytes us) name = Some (bytes ?us')" using find k(2) bytes_simps(3) [of ?us b1] by simp
    ultimately show ?thesis unfolding r option.case prod.case
      by (intro exI [of _ ?us'] exI [of _ a] exI [of _ ?ws'] conjI k(4))
  qed
qed

end
