(* ===== verification/Fdt_Merge.thy ===== *)
theory Fdt_Merge
  imports Fdt_Forest "HOL-Library.AList"
begin

text \<open>
  The merge of an overlay into its base: \<open>overlay_apply_node\<close> on two buffers that hold trees is a
  function of the trees.
\<close>

section \<open>The specification\<close>

text \<open>A property replaces the one of its name or comes in front of the others. A child is merged into
  the first child its name finds; without one it is a new child in front of the others.\<close>

fun put_prop :: "8 word list \<times> 8 word list \<Rightarrow> (8 word list \<times> 8 word list) list \<Rightarrow> (8 word list \<times> 8 word list) list" where
  "put_prop (name, v) pl = (if map_of pl name = None then (name, v) # pl else AList.update name v pl)"

definition the_kid :: "8 word list \<Rightarrow> dtree list \<Rightarrow> dtree" where
  "the_kid name bs = (case List.extract (child_named name) bs of None \<Rightarrow> Dtree name [] [] | Some (bs1, b, bs2) \<Rightarrow> b)"

definition put_kid :: "8 word list \<Rightarrow> dtree \<Rightarrow> dtree list \<Rightarrow> dtree list" where
  "put_kid name c bs = (case List.extract (child_named name) bs of None \<Rightarrow> c # bs | Some (bs1, b, bs2) \<Rightarrow> bs1 @ c # bs2)"

fun merge_tree :: "dtree \<Rightarrow> dtree \<Rightarrow> dtree" and merge_kids :: "dtree list \<Rightarrow> dtree list \<Rightarrow> dtree list" where
  "merge_tree b (Dtree nm pl ks) = Dtree (node_name b) (fold put_prop pl (node_props b)) (merge_kids (node_kids b) ks)"
| "merge_kids bs [] = bs"
| "merge_kids bs (k # ks) = merge_kids (put_kid (node_name k) (merge_tree (the_kid (node_name k) bs) k) bs) ks"

text \<open>Room that is enough for the merge.\<close>

definition props_cost :: "(8 word list \<times> 8 word list) list \<Rightarrow> int" where
  "props_cost pl = (\<Sum>(name, v)\<leftarrow>pl. prop_cost name v)"

definition node_cost :: "8 word list \<Rightarrow> int" where
  "node_cost name = bytes [Node_begin name, Node_end]"

fun merge_cost :: "dtree \<Rightarrow> int" where
  "merge_cost (Dtree nm pl ks) = props_cost pl + (\<Sum>k\<leftarrow>ks. node_cost (node_name k) + merge_cost k)"

lemma prop_cost_nonneg: "0 \<le> prop_cost name v"
  using TAGALIGN_bounds(1) [of "int (length v)"] by (simp add: prop_cost_def)

lemma props_cost_simps [simp]: "props_cost [] = 0" "props_cost ((name, v) # pl) = prop_cost name v + props_cost pl"
  by (simp_all add: props_cost_def)

lemma props_cost_nonneg: "0 \<le> props_cost pl"
  unfolding props_cost_def by (rule sum_list_nonneg) (auto simp: prop_cost_nonneg)

lemma node_cost_nonneg: "0 \<le> node_cost name"
  unfolding node_cost_def by (rule bytes_nonneg)

lemma merge_cost_nonneg: "0 \<le> merge_cost t"
  by (induction t rule: merge_cost.induct)
    (auto intro!: add_nonneg_nonneg sum_list_nonneg simp: props_cost_nonneg node_cost_nonneg)

lemma kids_cost_nonneg: "0 \<le> (\<Sum>k\<leftarrow>ks. node_cost (node_name k) + merge_cost k)"
  by (rule sum_list_nonneg) (auto simp: node_cost_nonneg merge_cost_nonneg)

section \<open>Reading the overlay\<close>

lemma holds_string:
  assumes h: "holds fdt rs ts strs room" and s: "string_at strs off nm"
  shows "\<exists>q. fdt_get_string fdt off = Some (Some q, int (length nm)) \<and> c_string_at fdt q = Some nm"
    "int (length nm) < INT_MAX - 64"
proof -
  obtain T st Y where i: "fdt = fdt_image FDT_MAGIC T rs st strs Y" "fits T rs st strs Y"
    using h by (auto simp: holds_def)
  obtain A C where A: "strs = A @ nm @ 0 # C" "off = int (length A)" "0 \<notin> set nm" using s by (auto simp: string_at_def)
  show "\<exists>q. fdt_get_string fdt off = Some (Some q, int (length nm)) \<and> c_string_at fdt q = Some nm"
    using image_string [OF i(2) A(1,3)] i(1) A(2) by blast
  show "int (length nm) < INT_MAX - 64"
    using holds_header(6) [OF h] room_nonneg [OF h] holds_tokens(2) [OF h] bytes_nonneg [of ts] A(1) by (simp del: bytes_nonneg)
qed

lemma getprop_by_offset_tree:
  assumes h: "holds fdt rs (us @ Prop off v # ws) strs room" and s: "string_at strs off nm"
  shows "\<exists>q p. fdt_getprop_by_offset fdt (bytes us) = Some (Some p, Some q, int (length v))
    \<and> c_string_at fdt q = Some nm \<and> rd_bytes fdt p (int (length v)) = Some v"
  using holds_property(2-4) [OF h] holds_string(1) [OF h s] holds_value [OF h] holds_header(2) [OF h]
  by (auto simp: fdt_getprop_by_offset_def prop_data_def)

lemma node_name_tree:
  assumes h: "holds fdt rs (us @ Node_begin nm # ws) strs room"
  shows "\<exists>q. fdt_get_name fdt (bytes us) = Some (Some q, int (length nm)) \<and> c_string_at fdt q = Some nm"
    "int (length nm) < INT_MAX - 64"
proof -
  obtain P Q where P: "fdt = P @ (nm @ [0]) @ Q" "int (length P) = 48 + int (length rs) + bytes us + 4"
    using holds_name(2) [OF h] by blast
  let ?p = "48 + int (length rs) + bytes us + 4"
  have at: "bytes_at fdt ?p (int (length nm) + 1) = nm @ [0]" "inside fdt ?p (int (length nm) + 1)"
    using bytes_at_append [of P "nm @ [0]" Q] inside_append [of P "nm @ [0]" Q] P by (simp_all add: add.commute)
  have t: "terminated fdt ?p (int (length nm))" by (rule terminated_name [OF at holds_name(3) [OF h]])
  have "bytes_at fdt ?p (int (length nm)) = nm" using bytes_at_append [of P nm "[0] @ Q"] P by simp
  then have "c_string_at fdt ?p = Some nm"
    using str_len_terminated [OF t] terminated_inside(1) [OF t] by (simp add: c_string_at_def rd_bytes_def)
  then show "\<exists>q. fdt_get_name fdt (bytes us) = Some (Some q, int (length nm)) \<and> c_string_at fdt q = Some nm"
    using holds_name(1) [OF h] by blast
  show "int (length nm) < INT_MAX - 64"
    using holds_header(6) [OF h] room_nonneg [OF h] holds_tokens(2) [OF h] bytes_nonneg [of us] bytes_nonneg [of ws]
      length_enc(1) [of nm] length_enc(2) TAGALIGN_bounds(1) [of "int (length nm) + 1"] by (simp del: enc.simps bytes_nonneg)
qed

section \<open>The properties of a node\<close>

lemma value_of_prop_list: "list_all is_prop ps \<Longrightarrow> value_of strs name ps = map_of (prop_list strs ps) name"
proof (induction ps)
  case (Cons p ps)
  then show ?case by (cases p) simp_all
qed simp

lemma replace_prop_list:
  "list_all is_prop ps \<Longrightarrow> value_of strs name ps \<noteq> None \<Longrightarrow>
    prop_list strs (replace_prop strs name w ps) = AList.update name w (prop_list strs ps)"
proof (induction ps)
  case (Cons p ps)
  then show ?case by (cases p) (auto split: if_splits)
qed simp

lemma setprop_list:
  assumes n: "node_at fdt rs us nm ps ws strs room"
    and name: "0 \<notin> set name" "int (length name) < INT_MAX - 8" "int (length w) < INT_MAX - 64"
  shows "\<exists>err fdt'. fdt_setprop fdt (bytes us) name w = Some (err, fdt')
    \<and> (err = 0 \<and> (\<exists>X ps' room'. node_at fdt' rs us nm ps' ws (strs @ X) room' \<and> room - prop_cost name w \<le> room'
          \<and> prop_list (strs @ X) ps' = put_prop (name, w) (prop_list strs ps))
       \<or> err = - FDT_ERR_NOSPACE \<and> room < prop_cost name w)"
proof -
  note d = node_atD [OF n]
  obtain err fdt' strs' room' off ps' where r: "fdt_setprop fdt (bytes us) name w = Some (err, fdt')"
    "strs' = strs \<or> value_of strs name ps = None \<and> strs' = strs @ name @ [0]"
    "err = 0 \<and> ps' = (if value_of strs name ps = None then Prop off w # ps else replace_prop strs name w ps) \<and> string_at strs' off name
        \<and> room - prop_cost name w \<le> room'
      \<or> err = - FDT_ERR_NOSPACE \<and> ps' = ps \<and> room < prop_cost name w"
    "node_at fdt' rs us nm ps' ws strs' room'" using setprop_spec [OF n name] by blast
  obtain X where X: "strs' = strs @ X" "value_of strs name ps \<noteq> None \<longrightarrow> X = []" using r(2) by auto
  have "prop_list (strs @ X) ps' = put_prop (name, w) (prop_list strs ps)" if "err = 0"
  proof (cases "value_of strs name ps")
    case None
    then have "ps' = Prop off w # ps" "prop_name (strs @ X) off = name" using r(3) that X(1) prop_name_at by auto
    then show ?thesis using None value_of_prop_list [OF d(2), of strs name] prop_list_append [OF d(5), of X] by simp
  next
    case (Some v)
    then show ?thesis using r(3) that X value_of_prop_list [OF d(2), of strs name] replace_prop_list [OF d(2), of strs name w]
      by simp
  qed
  then show ?thesis using r(1,3,4) X(1) by blast
qed

lemma next_prop_over:
  assumes "props_over ws" "ws \<noteq> []" "Fin \<notin> set ws"
  shows "next_prop ws off = - FDT_ERR_NOTFOUND"
  using assms by (cases ws rule: props_over.cases) simp_all

lemma apply_properties:
  "holds fdto rso (uso @ qs @ wso) strso roomo \<Longrightarrow> list_all is_prop qs \<Longrightarrow> props_over wso \<Longrightarrow> wso \<noteq> [] \<Longrightarrow> length qs < n \<Longrightarrow>
    node_at fdt rs us nm ps ws strs room \<Longrightarrow>
    \<exists>err fdt'. properties_n n (\<lambda>fdt. fdto) (apply_property fdto (bytes us)) (next_prop (qs @ wso) (bytes uso)) fdt = Some (err, fdt')
    \<and> (err = 0 \<and> (\<exists>X ps' room'. node_at fdt' rs us nm ps' ws (strs @ X) room' \<and> room - props_cost (prop_list strso qs) \<le> room'
          \<and> prop_list (strs @ X) ps' = fold put_prop (prop_list strso qs) (prop_list strs ps))
       \<or> err = - FDT_ERR_NOSPACE \<and> room < props_cost (prop_list strso qs))"
proof (induction qs arbitrary: uso fdt ps strs room n)
  case Nil
  obtain k where k: "n = Suc k" using Nil.prems(5) by (cases n) auto
  have "list_all (token_in strso) wso" using holds_tokens(1) [OF Nil.prems(1)] by simp
  then have "Fin \<notin> set wso" by (auto simp: list_all_iff)
  then have "properties_n n (\<lambda>fdt. fdto) (apply_property fdto (bytes us)) (next_prop ([] @ wso) (bytes uso)) fdt = Some (0, fdt)"
    using next_prop_over [OF Nil.prems(3,4)] k by simp
  moreover have "node_at fdt rs us nm ps ws (strs @ []) room" using Nil.prems(6) by simp
  ultimately show ?case by (metis append_Nil2 fold_simps(1) prop_list.simps(1) props_cost_simps(1) diff_zero order_refl)
next
  case (Cons q qs)
  obtain k where k: "n = Suc k" "length qs < k" using Cons.prems(5) by (cases n) auto
  have h: "holds fdto rso ((uso @ [q]) @ qs @ wso) strso roomo" using Cons.prems(1) by simp
  have qs: "list_all is_prop qs" using Cons.prems(2) by simp
  note IH = Cons.IH [OF h qs Cons.prems(3,4)]
  show ?case
  proof (cases q)
    case (Prop off v)
    have h': "holds fdto rso (uso @ Prop off v # (qs @ wso)) strso roomo" using Cons.prems(1) Prop by simp
    obtain name where name: "string_at strso off name" using holds_token [OF h'] by auto
    then have z: "0 \<notin> set name" "int (length name) < INT_MAX - 8" "prop_name strso off = name"
      using holds_string(2) [OF h' name] prop_name_at by (auto simp: string_at_def)
    obtain x p where r: "fdt_getprop_by_offset fdto (bytes uso) = Some (Some p, Some x, int (length v))"
      "c_string_at fdto x = Some name" "rd_bytes fdto p (int (length v)) = Some v"
      using getprop_by_offset_tree [OF h' name] by blast
    have body: "apply_property fdto (bytes us) (bytes uso) fdt = fdt_setprop fdt (bytes us) name v"
      using r by (simp add: apply_property_def)
    have loop: "properties_n n (\<lambda>fdt. fdto) (apply_property fdto (bytes us)) (next_prop ((q # qs) @ wso) (bytes uso)) fdt
      = do { (ret, fdt') \<leftarrow> fdt_setprop fdt (bytes us) name v;
             if ret \<noteq> 0 then Some (ret, fdt')
             else properties_n k (\<lambda>fdt. fdto) (apply_property fdto (bytes us)) (next_prop (qs @ wso) (bytes (uso @ [q]))) fdt' }"
      using k(1) Prop body bytes_nonneg [of uso] holds_property(6) [OF h']
      by (cases "fdt_setprop fdt (bytes us) name v") (simp_all add: not_less split: prod.split del: bytes_simps bytes_nonneg)
    obtain err fdt1 where s: "fdt_setprop fdt (bytes us) name v = Some (err, fdt1)"
      "err = 0 \<and> (\<exists>X ps' room'. node_at fdt1 rs us nm ps' ws (strs @ X) room' \<and> room - prop_cost name v \<le> room'
          \<and> prop_list (strs @ X) ps' = put_prop (name, v) (prop_list strs ps))
       \<or> err = - FDT_ERR_NOSPACE \<and> room < prop_cost name v"
      using setprop_list [OF Cons.prems(6) z(1,2) holds_value_small [OF h']] by blast
    have cost: "prop_list strso (q # qs) = (name, v) # prop_list strso qs"
      "props_cost (prop_list strso (q # qs)) = prop_cost name v + props_cost (prop_list strso qs)"
      "0 \<le> props_cost (prop_list strso qs)" using Prop z(3) props_cost_nonneg by simp_all
    from s(2) show ?thesis
    proof (elim disjE conjE exE)
      fix X ps' room' assume e: "err = 0" "node_at fdt1 rs us nm ps' ws (strs @ X) room'"
        "prop_list (strs @ X) ps' = put_prop (name, v) (prop_list strs ps)" "room - prop_cost name v \<le> room'"
      from IH [OF k(2) e(2)] obtain err' fdt' where i:
        "properties_n k (\<lambda>fdt. fdto) (apply_property fdto (bytes us)) (next_prop (qs @ wso) (bytes (uso @ [q]))) fdt1 = Some (err', fdt')"
        "err' = 0 \<and> (\<exists>Z ps'' room''. node_at fdt' rs us nm ps'' ws ((strs @ X) @ Z) room''
            \<and> room' - props_cost (prop_list strso qs) \<le> room''
            \<and> prop_list ((strs @ X) @ Z) ps'' = fold put_prop (prop_list strso qs) (prop_list (strs @ X) ps'))
         \<or> err' = - FDT_ERR_NOSPACE \<and> room' < props_cost (prop_list strso qs)"
        by blast
      have run: "properties_n n (\<lambda>fdt. fdto) (apply_property fdto (bytes us)) (next_prop ((q # qs) @ wso) (bytes uso)) fdt = Some (err', fdt')"
        using loop s(1) e(1) i(1) by (simp del: bytes_simps)
      from i(2) show ?thesis
      proof (elim disjE conjE exE)
        fix Z ps'' room'' assume g: "err' = 0" "node_at fdt' rs us nm ps'' ws ((strs @ X) @ Z) room''"
          "room' - props_cost (prop_list strso qs) \<le> room''"
          "prop_list ((strs @ X) @ Z) ps'' = fold put_prop (prop_list strso qs) (prop_list (strs @ X) ps')"
        have "room - props_cost (prop_list strso (q # qs)) \<le> room''" using g(3) e(4) cost(2) by linarith
        then show ?thesis using run g(1,2,4) e(3) cost(1) by (auto simp del: put_prop.simps)
      next
        assume "err' = - FDT_ERR_NOSPACE" "room' < props_cost (prop_list strso qs)"
        then show ?thesis using run e(4) cost(2) by simp
      qed
    next
      assume "err = - FDT_ERR_NOSPACE" "room < prop_cost name v"
      then show ?thesis using loop s(1) cost(2,3) by simp
    qed
  next
    case Nop
    from IH [OF _ Cons.prems(6), of n] show ?thesis using k Nop by simp
  qed (use Cons.prems(2) in simp_all)
qed

section \<open>The children of a node\<close>

text \<open>A call that returns 0 leaves the tree \<open>b\<close> at its place and takes \<open>cost\<close> of the \<open>room\<close> at most; the
  only other result is the error \<open>FDT_ERR_NOSPACE\<close>, when there is less room than that.\<close>

definition leaves :: "int \<Rightarrow> int \<Rightarrow> (int \<times> blob) option \<Rightarrow> 8 word list \<Rightarrow> token list \<Rightarrow> token list \<Rightarrow> 8 word list \<Rightarrow> dtree \<Rightarrow> bool" where
  "leaves room cost r rs us ws strs b \<longleftrightarrow> (\<exists>err fdt. r = Some (err, fdt)
     \<and> (err = 0 \<and> (\<exists>X bt room'. holds fdt rs (us @ bt @ ws) (strs @ X) room' \<and> tokens (strs @ X) b bt \<and> room - cost \<le> room')
        \<or> err = - FDT_ERR_NOSPACE \<and> room < cost))"

lemma leaves_done:
  "holds fdt rs (us @ bt @ ws) strs room' \<Longrightarrow> tokens strs b bt \<Longrightarrow> room - cost \<le> room' \<Longrightarrow>
    leaves room cost (Some (0, fdt)) rs us ws strs b"
  unfolding leaves_def by (intro exI [of _ 0] exI [of _ fdt] conjI disjI1 exI [of _ "[]"] exI [of _ bt] exI [of _ room']) simp_all

lemma leaves_append: "leaves room cost r rs us ws (strs @ X) b \<Longrightarrow> leaves room cost r rs us ws strs b"
  unfolding leaves_def append.assoc by blast

lemma leaves_less:
  assumes "leaves room' cost' r rs us ws strs b" "room - cost \<le> room' - cost'"
  shows "leaves room cost r rs us ws strs b"
proof -
  have "room - cost \<le> x" if "room' - cost' \<le> x" for x using that assms(2) by simp
  moreover have "room < cost" if "room' < cost'" using that assms(2) by simp
  ultimately show ?thesis using assms(1) unfolding leaves_def by metis
qed

text \<open>A call after another that has returned 0.\<close>

lemma leaves_bind:
  assumes "leaves room c r rs us ws strs b" "0 \<le> c'"
    and "\<And>fdt X bt room'. holds fdt rs (us @ bt @ ws) (strs @ X) room' \<Longrightarrow> tokens (strs @ X) b bt \<Longrightarrow>
      leaves room' c' (f fdt) rs us' ws' (strs @ X) b'"
  shows "leaves room (c + c') (do { (ret, fdt) \<leftarrow> r; if ret \<noteq> 0 then Some (ret, fdt) else f fdt }) rs us' ws' strs b'"
  using assms(1) unfolding leaves_def [of room c r]
proof (elim exE conjE disjE)
  fix err fdt X bt room'
  assume r: "r = Some (err, fdt)" "err = 0" "holds fdt rs (us @ bt @ ws) (strs @ X) room'" "tokens (strs @ X) b bt" "room - c \<le> room'"
  have "leaves room (c + c') (f fdt) rs us' ws' strs b'"
    by (rule leaves_append [OF leaves_less [OF assms(3) [OF r(3,4)]]]) (use r(5) in simp)
  then show ?thesis using r(1,2) by simp
qed (use assms(2) in \<open>simp add: leaves_def\<close>)

text \<open>A call on a part of the tokens is one on the whole.\<close>

lemma leaves_within:
  assumes "leaves room cost r rs us' ws' strs c"
    and "part_of strs us' ws' us ws f"
  shows "leaves room cost r rs us ws strs (f c)"
  using assms(1) unfolding leaves_def [of room cost r rs us']
proof (elim exE conjE disjE)
  fix err fdt X ct room'
  assume r: "r = Some (err, fdt)" "err = 0" "room - cost \<le> room'"
    and h: "holds fdt rs (us' @ ct @ ws') (strs @ X) room'" and t: "tokens (strs @ X) c ct"
  obtain bt where "us' @ ct @ ws' = us @ bt @ ws" "tokens (strs @ X) (f c) bt" using assms(2) t unfolding part_of_def by blast
  then show ?thesis using r h leaves_append [OF leaves_done] by simp
qed (simp add: leaves_def)

text \<open>The child of the target for a subnode of the overlay: it is in the tree, or new and empty.\<close>

lemma new_child_tree:
  assumes b: "tokens strs (Dtree nm pl bs) bt" and h: "holds fdt rs (us @ bt @ ws) strs room"
    and name: "0 \<notin> set name" "int (length name) < INT_MAX - 64" and none: "List.extract (child_named name) bs = None"
  shows "fdt_add_subnode fdt (bytes us) name = Some (- FDT_ERR_NOSPACE, fdt) \<and> room < node_cost name
    \<or> (\<exists>fdt' us' ws'. fdt_add_subnode fdt (bytes us) name = Some (bytes us', fdt')
        \<and> holds fdt' rs (us' @ [Node_begin name, Node_end] @ ws') strs (room - node_cost name)
        \<and> part_of strs us' ws' us ws (\<lambda>c. Dtree nm pl (c # bs)))"
  using b
proof (rule tokens_elim)
  fix nm' ps ks body
  assume b: "Dtree nm pl bs = Dtree nm' (prop_list strs ps) ks" "bt = Node_begin nm' # ps @ body @ [Node_end]"
    "list_all is_prop ps" "forest strs ks body"
  have t: "bt = Node_begin nm # ps @ body @ [Node_end]" "pl = prop_list strs ps" "forest strs bs body" using b(1,2,4) by simp_all
  let ?us = "us @ Node_begin nm # ps" and ?ws = "body @ Node_end # ws"
  have h1: "holds fdt rs (us @ Node_begin nm # ps @ body @ Node_end # ws) strs room" using h t(1) by simp
  have i: "inner 0 (ps @ body)" using inner_props [OF b(3)] forest_inner [OF t(3)] by simp
  have over: "props_over (body @ [Node_end])" using forest_over [OF t(3)] .
  have tok: "list_all (token_in strs) ps" "list_all (token_in strs) body" using holds_tokens(1) [OF h1] by simp_all
  have "find_child name 0 (ps @ body) (bytes (us @ [Node_begin nm])) < 0"
    using find_props [OF b(3)] find_forest [OF t(3), of name "bytes ?us"] none by (simp add: add.assoc del: enc.simps)
  from add_subnode_tree [OF h1 i b(3) over name this] show ?thesis
  proof (elim disjE exE conjE)
    fix fdt' assume a: "fdt_add_subnode fdt (bytes us) name = Some (bytes ?us, fdt')"
      "holds fdt' rs (us @ Node_begin nm # ps @ Node_begin name # Node_end # body @ Node_end # ws) strs
        (room - bytes [Node_begin name, Node_end])"
    have "part_of strs ?us ?ws us ws (\<lambda>c. Dtree nm pl (c # bs))"
      unfolding part_of_def
    proof (intro allI impI)
      fix X c ct assume c: "tokens (strs @ X) c ct"
      have f: "forest (strs @ X) (c # bs) (ct @ body)"
        using tokens_forest.kid [OF c forest_strs_append [OF t(3) tok(2)], of 0] by simp
      from tokens_forest.node [OF b(3) f, of nm]
      have "tokens (strs @ X) (Dtree nm pl (c # bs)) (Node_begin nm # ps @ (ct @ body) @ [Node_end])"
        using prop_list_append [OF tok(1)] t(2) by simp
      then show "\<exists>bt. ?us @ ct @ ?ws = us @ bt @ ws \<and> tokens (strs @ X) (Dtree nm pl (c # bs)) bt" by force
    qed
    moreover have "holds fdt' rs (?us @ [Node_begin name, Node_end] @ ?ws) strs (room - node_cost name)"
      using a(2) unfolding node_cost_def by simp
    ultimately show ?thesis using a(1) by blast
  qed (simp add: node_cost_def del: bytes_simps)
qed

lemma target_subnode_tree:
  assumes o: "holds fdto rso (uso @ Node_begin name # wso) strso roomo"
    and b: "tokens strs (Dtree nm pl bs) bt" and h: "holds fdt rs (us @ bt @ ws) strs room"
  shows "\<exists>nnode fdt'. target_subnode fdto (bytes us) (bytes uso) fdt = Some (nnode, fdt')
    \<and> (nnode = - FDT_ERR_NOSPACE \<and> room < node_cost name
       \<or> (\<exists>us' ct ws' room'. nnode = bytes us' \<and> holds fdt' rs (us' @ ct @ ws') strs room' \<and> room - node_cost name \<le> room'
          \<and> tokens strs (the_kid name bs) ct \<and> part_of strs us' ws' us ws (\<lambda>c. Dtree nm pl (put_kid name c bs))))"
proof -
  obtain q where q: "fdt_get_name fdto (bytes uso) = Some (Some q, int (length name))" "c_string_at fdto q = Some name"
    using node_name_tree(1) [OF o] by blast
  have name: "0 \<notin> set name" "int (length name) < INT_MAX - 64" using holds_name(3) [OF o] node_name_tree(2) [OF o] by simp_all
  note kid = child_tree [OF b h, of name]
  show ?thesis
  proof (cases "List.extract (child_named name) bs")
    case None
    then have e: "the_kid name bs = Dtree name [] []" "(\<lambda>c. Dtree nm pl (put_kid name c bs)) = (\<lambda>c. Dtree nm pl (c # bs))"
      by (simp_all add: the_kid_def put_kid_def)
    have new: "tokens strs (Dtree name [] []) [Node_begin name, Node_end]" using tokens_forest.node [of "[]" strs "[]" "[]" name] by simp
    from new_child_tree [OF b h name None] show ?thesis
    proof (elim disjE exE conjE)
      assume "fdt_add_subnode fdt (bytes us) name = Some (- FDT_ERR_NOSPACE, fdt)" "room < node_cost name"
      then show ?thesis using q by (simp add: target_subnode_def)
    next
      fix fdt' us' ws'
      assume a: "fdt_add_subnode fdt (bytes us) name = Some (bytes us', fdt')"
        "holds fdt' rs (us' @ [Node_begin name, Node_end] @ ws') strs (room - node_cost name)"
        "part_of strs us' ws' us ws (\<lambda>c. Dtree nm pl (c # bs))"
      have "target_subnode fdto (bytes us) (bytes uso) fdt = Some (bytes us', fdt')"
        using q a(1) bytes_nonneg [of us'] by (auto simp: target_subnode_def simp del: bytes_simps bytes_nonneg)
      moreover have "room - node_cost name \<le> room - node_cost name" ..
      ultimately show ?thesis unfolding e using a(2,3) new by blast
    qed
  next
    case (Some r)
    then obtain bs1 k bs2 where r: "List.extract (child_named name) bs = Some (bs1, k, bs2)" by (cases r) auto
    with kid obtain us' kt ws' where k: "fdt_subnode_offset_namelen fdt (bytes us) name = Some (bytes us')"
      "us @ bt @ ws = us' @ kt @ ws'" "tokens strs k kt" "part_of strs us' ws' us ws (\<lambda>c. Dtree nm pl (bs1 @ c # bs2))" by auto
    have "target_subnode fdto (bytes us) (bytes uso) fdt = Some (bytes us', fdt)"
      using q k(1) bytes_nonneg [of us']
      by (auto simp: target_subnode_def fdt_add_subnode_def fdt_add_subnode_namelen_def rw_probed_tree(2) [OF h] fdt_subnode_offset_def
          simp del: bytes_nonneg)
    moreover have "the_kid name bs = k" "(\<lambda>c. Dtree nm pl (put_kid name c bs)) = (\<lambda>c. Dtree nm pl (bs1 @ c # bs2))"
      using r by (simp_all add: the_kid_def put_kid_def)
    moreover have "room - node_cost name \<le> room" using node_cost_nonneg [of name] by simp
    moreover have "holds fdt rs (us' @ kt @ ws') strs room" using h k(2) by simp
    ultimately show ?thesis using k(3,4) by metis
  qed
qed

section \<open>The merge\<close>

lemma subnodes_n_step:
  assumes "0 \<le> node" "fdt_next_subnode fdto node = Some nxt"
  shows "subnodes_n (Suc n) (\<lambda>st. fdto) body node st = do {
    (ret, st) \<leftarrow> body node st;
    if ret \<noteq> 0 then Some (ret, st) else subnodes_n n (\<lambda>st. fdto) body nxt st }"
  using assms by (cases "body node st") (simp_all split: prod.split)

lemma apply_subnodes:
  assumes IH: "\<And>uso t tt wso strs us b bt ws fdt room. tokens strso t tt \<Longrightarrow> holds fdto rso (uso @ tt @ wso) strso roomo \<Longrightarrow>
      tokens strs b bt \<Longrightarrow> holds fdt rs (us @ bt @ ws) strs room \<Longrightarrow> length tt \<le> n \<Longrightarrow>
      leaves room (merge_cost t) (apply_node_n n fdto (bytes us) (bytes uso) fdt) rs us ws strs (merge_tree b t)"
  shows "forest strso ks kt \<Longrightarrow> holds fdto rso (uso @ kt @ Node_end # wso) strso roomo \<Longrightarrow>
    tokens strs (Dtree nm pl bs) bt \<Longrightarrow> holds fdt rs (us @ bt @ ws) strs room \<Longrightarrow> length kt \<le> n \<Longrightarrow> length kt < m \<Longrightarrow>
    leaves room (\<Sum>k\<leftarrow>ks. node_cost (node_name k) + merge_cost k) (subnodes_n m (\<lambda>fdt. fdto) (\<lambda>subnode fdt. do {
        (nnode, fdt) \<leftarrow> target_subnode fdto (bytes us) subnode fdt;
        if nnode < 0 then Some (nnode, fdt) else apply_node_n n fdto nnode subnode fdt })
      (if ks = [] then - FDT_ERR_NOTFOUND else bytes uso) fdt) rs us ws strs (Dtree nm pl (merge_kids bs ks))"
proof (induction ks arbitrary: uso kt strs bs bt fdt room m)
  case Nil
  obtain j where j: "m = Suc j" using Nil.prems(6) by (cases m) auto
  show ?case using leaves_done [OF Nil.prems(4,3), of room 0] j by simp
next
  case (Cons k ks)
  let ?body = "\<lambda>subnode fdt. do {
        (nnode, fdt) \<leftarrow> target_subnode fdto (bytes us) subnode fdt;
        if nnode < 0 then Some (nnode, fdt) else apply_node_n n fdto nnode subnode fdt }"
  obtain j where j: "m = Suc j" using Cons.prems(6) by (cases m) auto
  from Cons.prems(1) obtain a i c where c: "kt = a @ replicate i Nop @ c" "tokens strso k a" "forest strso ks c" by (rule forest_cons)
  from c(2) obtain a' where a': "a = Node_begin (node_name k) # a'" by (auto elim: tokens_elim)
  have h: "holds fdto rso (uso @ a @ replicate i Nop @ c @ Node_end # wso) strso roomo"
    and h1: "holds fdto rso (uso @ a @ (replicate i Nop @ c @ Node_end # wso)) strso roomo"
    and h2: "holds fdto rso (uso @ Node_begin (node_name k) # (a' @ replicate i Nop @ c @ Node_end # wso)) strso roomo"
    and h3: "holds fdto rso ((uso @ a @ replicate i Nop) @ c @ Node_end # wso) strso roomo"
    using Cons.prems(2) c(1) a' by simp_all
  have len: "length a \<le> n" "length c \<le> n" "length c < j" using Cons.prems(5,6) c(1) a' j by simp_all
  have loop: "subnodes_n m (\<lambda>fdt. fdto) ?body (bytes uso) fdt = do {
      (ret, fdt) \<leftarrow> ?body (bytes uso) fdt;
      if ret \<noteq> 0 then Some (ret, fdt)
      else subnodes_n j (\<lambda>fdt. fdto) ?body (if ks = [] then - FDT_ERR_NOTFOUND else bytes (uso @ a @ replicate i Nop)) fdt }"
    unfolding j by (rule subnodes_n_step [OF bytes_nonneg next_subnode_tree [OF h c(2,3)]])
  let ?kid = "put_kid (node_name k) (merge_tree (the_kid (node_name k) bs) k) bs"
  have "leaves room (node_cost (node_name k) + merge_cost k) (?body (bytes uso) fdt) rs us ws strs (Dtree nm pl ?kid)"
  proof -
    obtain nnode fdt1 where t: "target_subnode fdto (bytes us) (bytes uso) fdt = Some (nnode, fdt1)"
      "nnode = - FDT_ERR_NOSPACE \<and> room < node_cost (node_name k)
       \<or> (\<exists>us' ct ws' room'. nnode = bytes us' \<and> holds fdt1 rs (us' @ ct @ ws') strs room'
          \<and> room - node_cost (node_name k) \<le> room' \<and> tokens strs (the_kid (node_name k) bs) ct
          \<and> part_of strs us' ws' us ws (\<lambda>c. Dtree nm pl (put_kid (node_name k) c bs)))"
      using target_subnode_tree [OF h2 Cons.prems(3,4)] by blast
    from t(2) show ?thesis
    proof (elim disjE exE conjE)
      assume "nnode = - FDT_ERR_NOSPACE" "room < node_cost (node_name k)"
      then show ?thesis using t(1) merge_cost_nonneg [of k] by (simp add: leaves_def)
    next
      fix us' ct ws' room'
      assume u: "nnode = bytes us'" "holds fdt1 rs (us' @ ct @ ws') strs room'" "tokens strs (the_kid (node_name k) bs) ct"
        "room - node_cost (node_name k) \<le> room'"
        "part_of strs us' ws' us ws (\<lambda>c. Dtree nm pl (put_kid (node_name k) c bs))"
      have l: "leaves room' (merge_cost k) (apply_node_n n fdto (bytes us') (bytes uso) fdt1) rs us' ws' strs (merge_tree (the_kid (node_name k) bs) k)"
        by (rule IH [OF c(2) h1 u(3,2) len(1)])
      have "?body (bytes uso) fdt = apply_node_n n fdto (bytes us') (bytes uso) fdt1"
        using t(1) u(1) bytes_nonneg [of us'] by (simp add: not_less del: bytes_simps bytes_nonneg)
      then show ?thesis
        using leaves_within [OF leaves_less [OF l], where f = "\<lambda>c. Dtree nm pl (put_kid (node_name k) c bs)"] u(4,5) by simp
    qed
  qed
  then have "leaves room (node_cost (node_name k) + merge_cost k + (\<Sum>k\<leftarrow>ks. node_cost (node_name k) + merge_cost k)) (do {
      (ret, fdt) \<leftarrow> ?body (bytes uso) fdt;
      if ret \<noteq> 0 then Some (ret, fdt)
      else subnodes_n j (\<lambda>fdt. fdto) ?body (if ks = [] then - FDT_ERR_NOTFOUND else bytes (uso @ a @ replicate i Nop)) fdt })
      rs us ws strs (Dtree nm pl (merge_kids ?kid ks))"
    by (rule leaves_bind [OF _ kids_cost_nonneg]) (rule Cons.IH [OF c(3) h3 _ _ len(2,3)])
  then show ?case using loop by simp
qed

lemma apply_node_tree:
  "tokens strso t tt \<Longrightarrow> holds fdto rso (uso @ tt @ wso) strso roomo \<Longrightarrow> tokens strs b bt \<Longrightarrow>
    holds fdt rs (us @ bt @ ws) strs room \<Longrightarrow> length tt \<le> n \<Longrightarrow>
    leaves room (merge_cost t) (apply_node_n n fdto (bytes us) (bytes uso) fdt) rs us ws strs (merge_tree b t)"
proof (induction n arbitrary: uso t tt wso strs us b bt ws fdt room)
  case 0
  then show ?case by (auto elim: tokens_elim)
next
  case (Suc n)
  from Suc.prems(1) obtain nmo qs ks kt where o: "t = Dtree nmo (prop_list strso qs) ks" "tt = Node_begin nmo # qs @ kt @ [Node_end]"
    "list_all is_prop qs" "forest strso ks kt" by (rule tokens_elim)
  from Suc.prems(3) obtain nm ps bs body where b: "b = Dtree nm (prop_list strs ps) bs" "bt = Node_begin nm # ps @ body @ [Node_end]"
    "list_all is_prop ps" "forest strs bs body" by (rule tokens_elim)
  have h: "holds fdto rso (uso @ Node_begin nmo # qs @ kt @ Node_end # wso) strso roomo"
    and h1: "holds fdto rso ((uso @ [Node_begin nmo]) @ qs @ (kt @ Node_end # wso)) strso roomo"
    and h2: "holds fdto rso ((uso @ Node_begin nmo # qs) @ kt @ Node_end # wso) strso roomo" using Suc.prems(2) o(2) by simp_all
  have fuel: "length qs < blob_fuel fdto" "length kt < blob_fuel fdto" using holds_header(5) [OF h] by simp_all
  have kt: "length kt \<le> n" using Suc.prems(5) o(2) by simp
  have node: "node_at fdt rs us nm ps (body @ Node_end # ws) strs room"
    using Suc.prems(4) b forest_over [OF b(4)] by (simp add: node_at_def)
  have first: "fdt_first_property_offset fdto (bytes uso) = Some (next_prop (qs @ kt @ Node_end # wso) (bytes (uso @ [Node_begin nmo])))"
    using holds_node_offset [OF h] nextprop_tree [OF h1] bytes_nonneg [of "uso @ [Node_begin nmo]"]
    by (simp add: fdt_first_property_offset_def not_less del: bytes_simps bytes_nonneg)
  then have loop: "fdt_for_each_property_offset (\<lambda>fdt. fdto) (bytes uso) f fdt
      = properties_n (blob_fuel fdto) (\<lambda>fdt. fdto) f (next_prop (qs @ kt @ Node_end # wso) (bytes (uso @ [Node_begin nmo]))) fdt" for f
    by (simp add: fdt_for_each_property_offset_def del: bytes_simps)
  have props: "leaves room (props_cost (prop_list strso qs)) (fdt_for_each_property_offset (\<lambda>fdt. fdto) (bytes uso) (apply_property fdto (bytes us)) fdt) rs us ws strs
      (Dtree nm (fold put_prop (prop_list strso qs) (prop_list strs ps)) bs)"
  proof -
    obtain err fdt' where r: "fdt_for_each_property_offset (\<lambda>fdt. fdto) (bytes uso) (apply_property fdto (bytes us)) fdt = Some (err, fdt')"
      "err = 0 \<and> (\<exists>X ps' room'. node_at fdt' rs us nm ps' (body @ Node_end # ws) (strs @ X) room'
          \<and> room - props_cost (prop_list strso qs) \<le> room'
          \<and> prop_list (strs @ X) ps' = fold put_prop (prop_list strso qs) (prop_list strs ps))
       \<or> err = - FDT_ERR_NOSPACE \<and> room < props_cost (prop_list strso qs)"
      using apply_properties [OF h1 o(3) forest_over [OF o(4)] _ fuel(1) node] unfolding loop by blast
    from r(2) show ?thesis
    proof (elim disjE conjE exE)
      fix X ps' room' assume e: "err = 0" "node_at fdt' rs us nm ps' (body @ Node_end # ws) (strs @ X) room'"
        "prop_list (strs @ X) ps' = fold put_prop (prop_list strso qs) (prop_list strs ps)"
        "room - props_cost (prop_list strso qs) \<le> room'"
      have "list_all (token_in strs) body" using holds_tokens(1) [OF Suc.prems(4)] b(2) by simp
      then have f: "forest (strs @ X) bs body" using forest_strs_append [OF b(4)] by blast
      have "tokens (strs @ X) (Dtree nm (prop_list (strs @ X) ps') bs) (Node_begin nm # ps' @ body @ [Node_end])"
        using tokens_forest.node [OF node_atD(2) [OF e(2)] f] .
      then have "leaves room (props_cost (prop_list strso qs)) (Some (0, fdt')) rs us ws (strs @ X) (Dtree nm (fold put_prop (prop_list strso qs) (prop_list strs ps)) bs)"
        using node_atD(1) [OF e(2)] e(3) by (intro leaves_done [OF _ _ e(4)]) simp_all
      then show ?thesis using r(1) e(1) leaves_append by simp
    qed (simp add: r(1) leaves_def)
  qed
  have kids: "fdt_for_each_subnode (\<lambda>fdt. fdto) (bytes uso) f fdt
      = subnodes_n (blob_fuel fdto) (\<lambda>fdt. fdto) f (if ks = [] then - FDT_ERR_NOTFOUND else bytes (uso @ Node_begin nmo # qs)) fdt" for f fdt
    using first_subnode_tree [OF h o(3,4)] by (simp add: fdt_for_each_subnode_def)
  have "leaves room (props_cost (prop_list strso qs) + (\<Sum>k\<leftarrow>ks. node_cost (node_name k) + merge_cost k))
      (apply_node_n (Suc n) fdto (bytes us) (bytes uso) fdt) rs us ws strs
      (Dtree nm (fold put_prop (prop_list strso qs) (prop_list strs ps)) (merge_kids bs ks))"
    unfolding apply_node_n.simps kids
    by (rule leaves_bind [OF props kids_cost_nonneg]) (rule apply_subnodes [OF Suc.IH o(4) h2 _ _ kt fuel(2)])
  then show ?case using o(1) b(1) by simp
qed

end
