(* ===== verification/Fdt_Phandles.thy ===== *)
theory Fdt_Phandles
  imports Fdt_Merge
begin

text \<open>
  Writes in place to the value of a property, and the phandles of an overlay, which
  \<open>overlay_adjust_local_phandles\<close> moves behind those of the base.
\<close>

section \<open>A write to a value\<close>

definition overwrite :: "int \<Rightarrow> 8 word list \<Rightarrow> 8 word list \<Rightarrow> 8 word list" where
  "overwrite k w v = take (nat k) v @ w @ drop (nat k + length w) v"

lemma overwrite_length: "0 \<le> k \<Longrightarrow> k + int (length w) \<le> int (length v) \<Longrightarrow> length (overwrite k w v) = length v"
  by (simp add: overwrite_def)

lemma overwrite_all: "length w = length v \<Longrightarrow> overwrite 0 w v = w"
  by (simp add: overwrite_def)

lemma holds_write:
  assumes h: "holds fdt rs (us @ Prop off v # ws) strs room" and k: "0 \<le> k" "k + int (length w) \<le> int (length v)"
  shows "\<exists>fdt'. wr_bytes fdt (48 + int (length rs) + bytes us + 12 + k) w = Some fdt'
    \<and> holds fdt' rs (us @ Prop off (overwrite k w v) # ws) strs room"
proof -
  obtain T A bs B Y where s: "fdt = fdt_image FDT_MAGIC T rs (A @ bs @ B) strs Y" "fits T rs (A @ bs @ B) strs Y"
    "block us A" "encodes (Prop off v) bs" "block (ws @ [Fin]) B" "int (length A) = bytes us"
    "room = T - (48 + int (length rs) + bytes (us @ Prop off v # ws) + 4 + int (length strs))"
    using holds_split [OF h] by metis
  let ?H = "cpu_to_fdt32 FDT_PROP @ cpu_to_fdt32 (int (length v)) @ cpu_to_fdt32 off"
  obtain z where z: "bs = ?H @ v @ z" using s(4) by (auto simp: encodes_def)
  let ?v = "overwrite k w v"
  have len: "length ?v = length v" using overwrite_length [OF k] .
  have v: "v = take (nat k) v @ take (length w) (drop (nat k) v) @ drop (nat k + length w) v"
    by (metis append_take_drop_id drop_drop add.commute)
  let ?A = "A @ ?H @ take (nat k) v" and ?D = "take (length w) (drop (nat k) v)" and ?C = "drop (nat k + length w) v @ z @ B"
  have st: "A @ bs @ B = ?A @ ?D @ ?C" "A @ (?H @ ?v @ z) @ B = ?A @ w @ ?C"
    unfolding z by (subst v) (simp_all add: overwrite_def)
  have "wr_bytes (fdt_image FDT_MAGIC T rs (?A @ ?D @ ?C) strs Y) (48 + int (length rs) + bytes us + 12 + k) w
      = Some (fdt_image FDT_MAGIC T rs (?A @ w @ ?C) strs Y)"
    by (rule image_write_bytes) (use s(2,6) st k in \<open>simp_all add: \<close>)
  moreover have "holds (fdt_image FDT_MAGIC T rs (A @ (?H @ ?v @ z) @ B) strs Y) rs (us @ [Prop off ?v] @ ws) strs room"
  proof (rule holdsI)
    show "fits T rs (A @ (?H @ ?v @ z) @ B) strs Y" by (rule fits_length [OF s(2)]) (simp add: z len)
    have "encodes (Prop off ?v) (?H @ ?v @ z)" using s(4) len by (auto simp: encodes_def z pad4_def)
    then show "block [Prop off ?v] (?H @ ?v @ z)" by simp
    show "list_all (token_in strs) (us @ [Prop off ?v] @ ws)" using holds_tokens(1) [OF h] len by simp
    show "room = T - (48 + int (length rs) + bytes (us @ [Prop off ?v] @ ws) + 4 + int (length strs))"
      using s(7) len by (simp add: pad4_def)
  qed (use s(3,5) holds_tokens(2) [OF h] in simp_all)
  ultimately show ?thesis using s(1) st by auto
qed

text \<open>Where the property of a name stands among the others.\<close>

lemma getprop_at:
  assumes n: "node_at fdt rs us nm ps ws strs room" and v: "value_of strs name ps = Some v"
  obtains ps1 off ps2 where "ps = ps1 @ Prop off v # ps2" "\<And>w. replace_prop strs name w ps = ps1 @ Prop off w # ps2"
    "fdt_getprop fdt (bytes us) name = Some (Some (48 + int (length rs) + bytes (us @ Node_begin nm # ps1) + 12), int (length v))"
    "holds fdt rs ((us @ Node_begin nm # ps1) @ Prop off v # (ps2 @ ws)) strs room"
proof -
  note d = node_atD [OF n]
  from split_props [OF d(2,5), of name] v obtain ps1 off v' ps2 where p: "ps = ps1 @ Prop off v' # ps2" "others strs name ps1"
    "string_at strs off name" "value_of strs name ps = Some v'" "\<forall>w. replace_prop strs name w ps = ps1 @ Prop off w # ps2"
    by auto
  have e: "v' = v" using p(4) v by simp
  have h: "holds fdt rs (us @ Node_begin nm # ps1 @ Prop off v # (ps2 @ ws)) strs room" using d(1) p(1) e by simp
  show thesis
    by (rule that [of ps1 off ps2]) (use p e get_property_tree_found(2) [OF h p(2,3)] h in simp_all)
qed

lemma replace_is_prop: "list_all is_prop ps \<Longrightarrow> list_all is_prop (replace_prop strs name w ps)"
  by (induction strs name w ps rule: replace_prop.induct) simp_all

lemma node_at_replace:
  assumes "node_at fdt rs us nm ps ws strs room" "holds fdt' rs (us @ Node_begin nm # replace_prop strs name w ps @ ws) strs room'"
  shows "node_at fdt' rs us nm (replace_prop strs name w ps) ws strs room'"
  using assms replace_is_prop by (simp add: node_at_def)

text \<open>What \<open>fdt_setprop_inplace_namelen_partial\<close> does: the end of the write is compared in 32 bits.\<close>

lemma partial_write:
  assumes n: "node_at fdt rs us nm ps ws strs room" and v: "value_of strs name ps = Some v" and idx: "0 \<le> idx" "idx < 2 ^ 32"
    and w: "int (length w) < 2 ^ 32" and len: "int (length fdt) \<le> 2 ^ 32"
  shows "if idx + int (length w) \<le> int (length v) then
      \<exists>fdt'. fdt_setprop_inplace_namelen_partial fdt (bytes us) name idx w = Some (0, fdt')
        \<and> node_at fdt' rs us nm (replace_prop strs name (overwrite idx w v) ps) ws strs room
    else fdt_setprop_inplace_namelen_partial fdt (bytes us) name idx w
      = (if idx + int (length w) \<ge> 2 ^ 32 \<and> idx + int (length w) - 2 ^ 32 \<le> int (length v) then None else Some (- FDT_ERR_NOSPACE, fdt))"
proof -
  obtain ps1 off ps2 where p: "ps = ps1 @ Prop off v # ps2" "\<And>w. replace_prop strs name w ps = ps1 @ Prop off w # ps2"
    "fdt_getprop fdt (bytes us) name = Some (Some (48 + int (length rs) + bytes (us @ Node_begin nm # ps1) + 12), int (length v))"
    "holds fdt rs ((us @ Node_begin nm # ps1) @ Prop off v # (ps2 @ ws)) strs room" using getprop_at [OF n v] by blast
  let ?p = "48 + int (length rs) + bytes (us @ Node_begin nm # ps1) + 12"
  have vs: "int (length v) < INT_MAX - 64" using holds_value_small [OF p(4)] .
  then have u: "u32 (int (length v)) = int (length v)" by (intro u32_id) simp_all
  have r: "fdt_setprop_inplace_namelen_partial fdt (bytes us) name idx w =
      (if int (length v) < u32 (int (length w) + idx) then Some (- FDT_ERR_NOSPACE, fdt)
       else do { fdt \<leftarrow> wr_bytes fdt (?p + idx) w; Some (0, fdt) })"
    using p(3) u by (simp add: fdt_setprop_inplace_namelen_partial_def fdt_getprop_def del: bytes_simps)
  show ?thesis
  proof (cases "idx + int (length w) \<le> int (length v)")
    case True
    then have "u32 (int (length w) + idx) = int (length w) + idx" using vs idx by (intro u32_id) simp_all
    moreover obtain fdt' where f: "wr_bytes fdt (?p + idx) w = Some fdt'"
      "holds fdt' rs ((us @ Node_begin nm # ps1) @ Prop off (overwrite idx w v) # (ps2 @ ws)) strs room"
      using holds_write [OF p(4) idx(1) True] by blast
    moreover have "node_at fdt' rs us nm (replace_prop strs name (overwrite idx w v) ps) ws strs room"
      by (rule node_at_replace [OF n]) (use f(2) p(2) in simp)
    ultimately show ?thesis using r True by simp
  next
    case False
    have p0: "0 \<le> ?p" using bytes_nonneg [of "us @ Node_begin nm # ps1"] by linarith
    show ?thesis
    proof (cases "idx + int (length w) \<ge> 2 ^ 32")
      case wrap: True
      have "u32 (int (length w) + idx) = idx + int (length w) - 2 ^ 32"
        using wrap idx w mod_pos_pos_trivial [of "idx + int (length w) - 2 ^ 32" "2 ^ 32"]
        by (simp add: u32_def add.commute)
      moreover have "wr_bytes fdt (?p + idx) w = None"
        using wrap len p0 bytes_nonneg [of "us @ Node_begin nm # ps1"] by (auto simp: wr_bytes_def inside_def simp del: bytes_simps bytes_nonneg)
      ultimately show ?thesis using r False wrap by auto
    next
      case nw: False
      then have "u32 (int (length w) + idx) = int (length w) + idx" using idx by (intro u32_id) simp_all
      then show ?thesis using r False nw by simp
    qed
  qed
qed

section \<open>The phandles of a tree\<close>

text \<open>The specification: the phandle of every node grows by \<open>delta\<close>. The result is the error, if a
  phandle has not four bytes or gets too large.\<close>

definition shift_phandle :: "int \<Rightarrow> 8 word list \<Rightarrow> (8 word list \<times> 8 word list) list \<Rightarrow> int + (8 word list \<times> 8 word list) list" where
  "shift_phandle delta name pl =
     (case map_of pl name of
        None \<Rightarrow> Inr pl
      | Some v \<Rightarrow>
          if length v \<noteq> 4 then Inl (- FDT_ERR_BADPHANDLE)
          else if be_value v + delta \<ge> 2 ^ 32 - 1 then Inl (- FDT_ERR_NOPHANDLES)
          else Inr (AList.update name (cpu_to_fdt32 (be_value v + delta)) pl))"

definition and_then :: "'e + 'a \<Rightarrow> ('a \<Rightarrow> 'e + 'b) \<Rightarrow> 'e + 'b" where
  "and_then r f = (case r of Inl e \<Rightarrow> Inl e | Inr x \<Rightarrow> f x)"

lemma and_then_simps [simp]: "and_then (Inl e) f = Inl e" "and_then (Inr x) f = f x"
  by (simp_all add: and_then_def)

fun shift_tree :: "int \<Rightarrow> dtree \<Rightarrow> int + dtree" and shift_kids :: "int \<Rightarrow> dtree list \<Rightarrow> int + dtree list" where
  "shift_tree delta (Dtree nm pl ks) =
     and_then (shift_phandle delta (chars ''phandle'') pl) (\<lambda>pl.
     and_then (shift_phandle delta (chars ''linux,phandle'') pl) (\<lambda>pl.
     and_then (shift_kids delta ks) (\<lambda>ks. Inr (Dtree nm pl ks))))"
| "shift_kids delta [] = Inr []"
| "shift_kids delta (k # ks) = and_then (shift_tree delta k) (\<lambda>k. and_then (shift_kids delta ks) (\<lambda>ks. Inr (k # ks)))"

text \<open>The code agrees with a result of the specification: it returns the error, or 0 with a buffer
  for the result.\<close>

definition agrees :: "(int \<times> blob) option \<Rightarrow> int + 'a \<Rightarrow> ('a \<Rightarrow> blob \<Rightarrow> bool) \<Rightarrow> bool" where
  "agrees r res P \<longleftrightarrow> (case res of Inl e \<Rightarrow> e \<noteq> 0 \<and> (\<exists>fdt. r = Some (e, fdt)) | Inr x \<Rightarrow> \<exists>fdt. r = Some (0, fdt) \<and> P x fdt)"

lemma agrees_simps [simp]:
  "agrees r (Inl e) P \<longleftrightarrow> e \<noteq> 0 \<and> (\<exists>fdt. r = Some (e, fdt))" "agrees r (Inr x) P \<longleftrightarrow> (\<exists>fdt. r = Some (0, fdt) \<and> P x fdt)"
  by (simp_all add: agrees_def)

lemma agrees_bind:
  assumes "agrees r res P" "\<And>x fdt. P x fdt \<Longrightarrow> agrees (f fdt) (g x) Q"
  shows "agrees (do { (ret, fdt) \<leftarrow> r; if ret \<noteq> 0 then Some (ret, fdt) else f fdt }) (and_then res g) Q"
  using assms by (cases res) auto

lemma agrees_map:
  assumes "agrees r res P" "\<And>x fdt. P x fdt \<Longrightarrow> Q (f x) fdt"
  shows "agrees r (and_then res (\<lambda>x. Inr (f x))) Q"
  using assms by (cases res) auto

lemma inplace_u32:
  assumes n: "node_at fdt rs us nm ps ws strs room" and v: "value_of strs name ps = Some v" "length v = 4"
  shows "\<exists>fdt'. fdt_setprop_inplace_u32 fdt (bytes us) name x = Some (0, fdt')
    \<and> node_at fdt' rs us nm (replace_prop strs name (cpu_to_fdt32 x) ps) ws strs room"
proof -
  obtain ps1 off ps2 where p: "ps = ps1 @ Prop off v # ps2" "\<And>w. replace_prop strs name w ps = ps1 @ Prop off w # ps2"
    "fdt_getprop fdt (bytes us) name = Some (Some (48 + int (length rs) + bytes (us @ Node_begin nm # ps1) + 12), int (length v))"
    "holds fdt rs ((us @ Node_begin nm # ps1) @ Prop off v # (ps2 @ ws)) strs room" using getprop_at [OF n v(1)] by blast
  obtain fdt' where f: "wr_bytes fdt (48 + int (length rs) + bytes (us @ Node_begin nm # ps1) + 12) (cpu_to_fdt32 x) = Some fdt'"
    "holds fdt' rs ((us @ Node_begin nm # ps1) @ Prop off (cpu_to_fdt32 x) # (ps2 @ ws)) strs room"
    using holds_write [OF p(4), of 0 "cpu_to_fdt32 x"] v(2) overwrite_all [of "cpu_to_fdt32 x" v] by (auto simp del: bytes_simps)
  have "node_at fdt' rs us nm (replace_prop strs name (cpu_to_fdt32 x) ps) ws strs room"
    by (rule node_at_replace [OF n]) (use f(2) p(2) in simp)
  moreover have "u32 4 = 4" by (simp add: u32_def)
  ultimately show ?thesis using p(3) v(2) f(1)
    by (simp add: fdt_setprop_inplace_u32_def fdt_setprop_inplace_def fdt_setprop_inplace_namelen_partial_def fdt_getprop_def del: bytes_simps)
qed

text \<open>A missing property is no error for the caller.\<close>

definition tolerated :: "(int \<times> blob) option \<Rightarrow> (int \<times> blob) option" where
  "tolerated r = do { (ret, fdt) \<leftarrow> r; if ret \<noteq> 0 \<and> ret \<noteq> - FDT_ERR_NOTFOUND then Some (ret, fdt) else Some (0, fdt) }"

lemma tolerated_bind:
  "do { (ret, fdt) \<leftarrow> r; if ret \<noteq> 0 \<and> ret \<noteq> - FDT_ERR_NOTFOUND then Some (ret, fdt) else f fdt }
    = do { (ret, fdt) \<leftarrow> tolerated r; if ret \<noteq> 0 then Some (ret, fdt) else f fdt }"
  by (cases r) (auto simp: tolerated_def split: prod.split)

lemma add_offset_tree:
  assumes n: "node_at fdt rs us nm ps ws strs room" and d: "0 \<le> delta" "delta < 2 ^ 32"
  shows "agrees (tolerated (overlay_phandle_add_offset fdt (bytes us) name delta))
      (shift_phandle delta name (prop_list strs ps))
      (\<lambda>pl fdt'. \<exists>ps'. node_at fdt' rs us nm ps' ws strs room \<and> prop_list strs ps' = pl)"
proof -
  note nd = node_atD [OF n]
  have m: "map_of (prop_list strs ps) name = value_of strs name ps" using value_of_prop_list [OF nd(2)] by simp
  show ?thesis
  proof (cases "value_of strs name ps")
    case None
    then show ?thesis using getprop_spec [OF n, of name] m n by (auto simp: tolerated_def overlay_phandle_add_offset_def shift_phandle_def)
  next
    case (Some v)
    then obtain q where q: "fdt_getprop fdt (bytes us) name = Some (Some q, int (length v))" "rd_bytes fdt q (int (length v)) = Some v"
      using getprop_spec [OF n, of name] by auto
    show ?thesis
    proof (cases "length v = 4")
      case False
      then show ?thesis using q m Some by (simp add: tolerated_def overlay_phandle_add_offset_def shift_phandle_def)
    next
      case True
      have b: "0 \<le> be_value v" "be_value v < 2 ^ 32" using be_value_nonneg [of v] be_value_less [of v] True by simp_all
      have ld: "fdt32_ld fdt q = Some (be_value v)" using q(2) True by (simp add: fdt32_ld_def)
      obtain fdt' where f: "fdt_setprop_inplace_u32 fdt (bytes us) name (be_value v + delta) = Some (0, fdt')"
        "node_at fdt' rs us nm (replace_prop strs name (cpu_to_fdt32 (be_value v + delta)) ps) ws strs room"
        using inplace_u32 [OF n Some True] by blast
      have l: "prop_list strs (replace_prop strs name (cpu_to_fdt32 (be_value v + delta)) ps)
          = AList.update name (cpu_to_fdt32 (be_value v + delta)) (prop_list strs ps)"
        using replace_prop_list [OF nd(2)] Some by simp
      show ?thesis
      proof (cases "be_value v + delta < 2 ^ 32")
        case small: True
        then have "u32 (be_value v + delta) = be_value v + delta" using b d by (intro u32_id) simp_all
        then show ?thesis using q(1) ld f l m Some True small d
          by (auto simp: tolerated_def overlay_phandle_add_offset_def shift_phandle_def)
      next
        case False
        then have "u32 (be_value v + delta) = be_value v + delta - 2 ^ 32"
          using b d mod_pos_pos_trivial [of "be_value v + delta - 2 ^ 32" "2 ^ 32"] by (simp add: u32_def)
        then show ?thesis using q(1) ld m Some True False d
          by (auto simp: tolerated_def overlay_phandle_add_offset_def shift_phandle_def)
      qed
    qed
  qed
qed

section \<open>The walk\<close>

lemma adjust_kids:
  assumes IH: "\<And>us t tt ws fdt. tokens strs t tt \<Longrightarrow> holds fdt rs (us @ tt @ ws) strs room \<Longrightarrow> length tt \<le> n \<Longrightarrow>
      agrees (adjust_node_n n delta (bytes us) fdt) (shift_tree delta t)
        (\<lambda>t' fdt'. \<exists>tt'. holds fdt' rs (us @ tt' @ ws) strs room \<and> tokens strs t' tt')"
  shows "forest strs ks kt \<Longrightarrow> holds fdt rs (us @ kt @ Node_end # ws) strs room \<Longrightarrow> length kt \<le> n \<Longrightarrow> length kt < m \<Longrightarrow>
    agrees (subnodes_n m id (adjust_node_n n delta) (if ks = [] then - FDT_ERR_NOTFOUND else bytes us) fdt) (shift_kids delta ks)
      (\<lambda>ks' fdt'. \<exists>kt'. holds fdt' rs (us @ kt' @ Node_end # ws) strs room \<and> forest strs ks' kt')"
proof (induction ks arbitrary: us kt fdt m)
  case Nil
  obtain j where "m = Suc j" using Nil.prems(4) by (cases m) auto
  then show ?case using Nil.prems(1,2) by auto
next
  case (Cons k ks)
  obtain j where j: "m = Suc j" using Cons.prems(4) by (cases m) auto
  from Cons.prems(1) obtain a i c where c: "kt = a @ replicate i Nop @ c" "tokens strs k a" "forest strs ks c" by (rule forest_cons)
  have ne: "a \<noteq> []" using c(2) by (auto elim: tokens_elim)
  have h: "holds fdt rs (us @ a @ (replicate i Nop @ c @ Node_end # ws)) strs room" using Cons.prems(2) c(1) by simp
  have len: "length a \<le> n" "length c \<le> n" "length c < j" using Cons.prems(3,4) c(1) ne j by (cases a; simp)+
  let ?f = "\<lambda>fdt. do { node \<leftarrow> fdt_next_subnode fdt (bytes us); subnodes_n j id (adjust_node_n n delta) node fdt }"
  have loop: "subnodes_n m id (adjust_node_n n delta) (bytes us) fdt
      = do { (ret, fdt) \<leftarrow> adjust_node_n n delta (bytes us) fdt; if ret \<noteq> 0 then Some (ret, fdt) else ?f fdt }"
    using bytes_nonneg [of us] unfolding j subnodes_n.simps(2) id_apply by (simp add: not_less del: bytes_nonneg)
  have step: "agrees (?f fdt') (and_then (shift_kids delta ks) (\<lambda>ks. Inr (k' # ks)))
      (\<lambda>ks' fdt'. \<exists>kt'. holds fdt' rs (us @ kt' @ Node_end # ws) strs room \<and> forest strs ks' kt')"
    if P: "\<exists>tt'. holds fdt' rs (us @ tt' @ (replicate i Nop @ c @ Node_end # ws)) strs room \<and> tokens strs k' tt'" for k' fdt'
  proof -
    obtain a' where a': "holds fdt' rs (us @ a' @ replicate i Nop @ c @ Node_end # ws) strs room" "tokens strs k' a'" using P by blast
    have h': "holds fdt' rs ((us @ a' @ replicate i Nop) @ c @ Node_end # ws) strs room" using a'(1) by simp
    have e: "?f fdt' = subnodes_n j id (adjust_node_n n delta)
        (if ks = [] then - FDT_ERR_NOTFOUND else bytes (us @ a' @ replicate i Nop)) fdt'"
      using next_subnode_tree [OF a'(1,2) c(3)] by (simp del: bytes_simps)
    show ?thesis unfolding e
    proof (rule agrees_map [OF Cons.IH [OF c(3) h' len(2,3)]])
      fix ks' f assume "\<exists>kt'. holds f rs ((us @ a' @ replicate i Nop) @ kt' @ Node_end # ws) strs room \<and> forest strs ks' kt'"
      then obtain kt' where "holds f rs (us @ (a' @ replicate i Nop @ kt') @ Node_end # ws) strs room" "forest strs ks' kt'" by auto
      then show "\<exists>kt'. holds f rs (us @ kt' @ Node_end # ws) strs room \<and> forest strs (k' # ks') kt'"
        using tokens_forest.kid [OF a'(2)] by blast
    qed
  qed
  have "agrees (subnodes_n m id (adjust_node_n n delta) (bytes us) fdt) (shift_kids delta (k # ks))
      (\<lambda>ks' fdt'. \<exists>kt'. holds fdt' rs (us @ kt' @ Node_end # ws) strs room \<and> forest strs ks' kt')"
    unfolding loop shift_kids.simps by (rule agrees_bind [OF IH [OF c(2) h len(1)] step])
  then show ?case by (simp only: list.distinct if_False)
qed

lemma adjust_tree:
  assumes d: "0 \<le> delta" "delta < 2 ^ 32"
  shows "tokens strs t tt \<Longrightarrow> holds fdt rs (us @ tt @ ws) strs room \<Longrightarrow> length tt \<le> n \<Longrightarrow>
    agrees (adjust_node_n n delta (bytes us) fdt) (shift_tree delta t)
      (\<lambda>t' fdt'. \<exists>tt'. holds fdt' rs (us @ tt' @ ws) strs room \<and> tokens strs t' tt')"
proof (induction n arbitrary: us t tt ws fdt)
  case 0
  then show ?case by (auto elim: tokens_elim)
next
  case (Suc n)
  from Suc.prems(1) obtain nm ps ks kt where o: "t = Dtree nm (prop_list strs ps) ks" "tt = Node_begin nm # ps @ kt @ [Node_end]"
    "list_all is_prop ps" "forest strs ks kt" by (rule tokens_elim)
  have node: "node_at fdt rs us nm ps (kt @ Node_end # ws) strs room"
    using Suc.prems(2) o forest_over [OF o(4)] by (simp add: node_at_def)
  have kt: "length kt \<le> n" using Suc.prems(3) o(2) by simp
  let ?P = "\<lambda>pl fdt'. \<exists>ps'. node_at fdt' rs us nm ps' (kt @ Node_end # ws) strs room \<and> prop_list strs ps' = pl"
  have kids: "agrees (fdt_for_each_subnode id (bytes us) (adjust_node_n n delta) fdt')
      (and_then (shift_kids delta ks) (\<lambda>ks. Inr (Dtree nm pl ks)))
      (\<lambda>t' fdt'. \<exists>tt'. holds fdt' rs (us @ tt' @ ws) strs room \<and> tokens strs t' tt')" if P: "?P pl fdt'" for pl fdt'
  proof -
    obtain ps' where p: "node_at fdt' rs us nm ps' (kt @ Node_end # ws) strs room" "prop_list strs ps' = pl" using P by blast
    note nd = node_atD [OF p(1)]
    have h: "holds fdt' rs ((us @ Node_begin nm # ps') @ kt @ Node_end # ws) strs room" using nd(1) by simp
    have fuel: "length kt < blob_fuel fdt'" using holds_header(5) [OF h] by simp
    have e: "fdt_for_each_subnode id (bytes us) (adjust_node_n n delta) fdt' = subnodes_n (blob_fuel fdt') id (adjust_node_n n delta)
        (if ks = [] then - FDT_ERR_NOTFOUND else bytes (us @ Node_begin nm # ps')) fdt'"
      using first_subnode_tree [OF nd(1,2) o(4)] by (simp add: fdt_for_each_subnode_def del: bytes_simps)
    show ?thesis unfolding e
    proof (rule agrees_map [OF adjust_kids [OF Suc.IH o(4) h kt fuel]])
      fix ks' f assume "\<exists>kt'. holds f rs ((us @ Node_begin nm # ps') @ kt' @ Node_end # ws) strs room \<and> forest strs ks' kt'"
      then obtain kt' where "holds f rs (us @ (Node_begin nm # ps' @ kt' @ [Node_end]) @ ws) strs room" "forest strs ks' kt'" by auto
      then show "\<exists>tt'. holds f rs (us @ tt' @ ws) strs room \<and> tokens strs (Dtree nm pl ks') tt'"
        using tokens_forest.node [OF nd(2)] p(2) by blast
    qed
  qed
  have second: "agrees (do { (ret, fdt) \<leftarrow> tolerated (overlay_phandle_add_offset fdt' (bytes us) (chars ''linux,phandle'') delta); if ret \<noteq> 0 then Some (ret, fdt)
        else fdt_for_each_subnode id (bytes us) (adjust_node_n n delta) fdt })
      (and_then (shift_phandle delta (chars ''linux,phandle'') pl) (\<lambda>pl. and_then (shift_kids delta ks) (\<lambda>ks. Inr (Dtree nm pl ks))))
      (\<lambda>t' fdt'. \<exists>tt'. holds fdt' rs (us @ tt' @ ws) strs room \<and> tokens strs t' tt')" if P: "?P pl fdt'" for pl fdt'
  proof -
    obtain ps' where p: "node_at fdt' rs us nm ps' (kt @ Node_end # ws) strs room" "prop_list strs ps' = pl" using P by blast
    show ?thesis unfolding p(2) [symmetric] by (rule agrees_bind [OF add_offset_tree [OF p(1) d] kids])
  qed
  show ?case unfolding adjust_node_n.simps tolerated_bind o(1) shift_tree.simps
    by (rule agrees_bind [OF add_offset_tree [OF node d] second])
qed

end
