(* ===== verification/Fdt_Fragments.thy ===== *)
theory Fdt_Fragments
  imports Fdt_Merge
begin

text \<open>
  The fragments of an overlay, each with the path of its target: \<open>overlay_merge\<close> on two buffers that
  hold trees.
\<close>

section \<open>Places in a tree\<close>

text \<open>The names a path is made of, and the node that is found from child to child.\<close>

function components :: "8 word list \<Rightarrow> 8 word list list" where
  "components p = (let q = dropWhile (\<lambda>c. c = slash) p in
     if q = [] then [] else takeWhile (\<lambda>c. c \<noteq> slash) q # components (dropWhile (\<lambda>c. c \<noteq> slash) q))"
  by auto
termination by (relation "measure length") (auto simp: dropWhile_shrinks)

declare components.simps [simp del]

fun find_at :: "8 word list list \<Rightarrow> dtree \<Rightarrow> dtree option" where
  "find_at [] b = Some b"
| "find_at (c # cs) b = (case List.extract (child_named c) (node_kids b) of None \<Rightarrow> None | Some (bs1, k, bs2) \<Rightarrow> find_at cs k)"

fun put_at :: "8 word list list \<Rightarrow> dtree \<Rightarrow> dtree \<Rightarrow> dtree" where
  "put_at [] t b = t"
| "put_at (c # cs) t b = Dtree (node_name b) (node_props b)
     (case List.extract (child_named c) (node_kids b) of None \<Rightarrow> node_kids b | Some (bs1, k, bs2) \<Rightarrow> bs1 @ put_at cs t k # bs2)"

lemma walk_tree:
  "tokens strs b bt \<Longrightarrow> holds fdt rs (us @ bt @ ws) strs room \<Longrightarrow>
    case find_at (components p) b of
      None \<Rightarrow> walk_path fdt (bytes us) p = Some (- FDT_ERR_NOTFOUND)
    | Some k \<Rightarrow> \<exists>us' kt ws'. walk_path fdt (bytes us) p = Some (bytes us') \<and> us @ bt @ ws = us' @ kt @ ws' \<and> tokens strs k kt
        \<and> part_of strs us' ws' us ws (\<lambda>c. put_at (components p) c b)"
proof (induction p arbitrary: b bt us ws rule: components.induct)
  case (1 p)
  let ?q = "dropWhile (\<lambda>c. c = slash) p"
  let ?c = "takeWhile (\<lambda>c. c \<noteq> slash) ?q" and ?r = "dropWhile (\<lambda>c. c \<noteq> slash) ?q"
  obtain nm pl bs where b: "b = Dtree nm pl bs" by (cases b)
  show ?case
  proof (cases "?q = []")
    case True
    then have "components p = []" "walk_path fdt (bytes us) p = Some (bytes us)" by (simp_all add: components.simps walk_path.simps)
    moreover have "part_of strs us ws us ws (\<lambda>c. put_at [] c b)" using part_of_self by simp
    ultimately show ?thesis using 1(2) unfolding \<open>components p = []\<close> find_at.simps option.case by blast
  next
    case False
    then have c: "components p = ?c # components ?r" unfolding components.simps [of p] Let_def by (simp only: if_False)
    have w: "walk_path fdt (bytes us) p = do {
        offset \<leftarrow> fdt_subnode_offset_namelen fdt (bytes us) ?c;
        if offset < 0 then Some offset else walk_path fdt offset ?r }"
      using False unfolding walk_path.simps [of fdt "bytes us" p] Let_def by (simp only: if_False)
    note kid = child_tree [OF 1(2) [unfolded b] 1(3), of ?c]
    show ?thesis
    proof (cases "List.extract (child_named ?c) bs")
      case None
      then show ?thesis using kid w c b by simp
    next
      case (Some r)
      then obtain bs1 k bs2 where r: "List.extract (child_named ?c) bs = Some (bs1, k, bs2)" by (cases r) auto
      with kid obtain us' kt ws' where k: "fdt_subnode_offset_namelen fdt (bytes us) ?c = Some (bytes us')"
        "us @ bt @ ws = us' @ kt @ ws'" "tokens strs k kt" "part_of strs us' ws' us ws (\<lambda>c. Dtree nm pl (bs1 @ c # bs2))" by auto
      have h: "holds fdt rs (us' @ kt @ ws') strs room" using 1(3) k(2) by simp
      have w': "walk_path fdt (bytes us) p = walk_path fdt (bytes us') ?r"
        using w k(1) bytes_nonneg [of us'] by (simp add: not_less del: bytes_nonneg)
      have IH: "case find_at (components ?r) k of
          None \<Rightarrow> walk_path fdt (bytes us') ?r = Some (- FDT_ERR_NOTFOUND)
        | Some k' \<Rightarrow> \<exists>us'' kt' ws''. walk_path fdt (bytes us') ?r = Some (bytes us'') \<and> us' @ kt @ ws' = us'' @ kt' @ ws''
            \<and> tokens strs k' kt' \<and> part_of strs us'' ws'' us' ws' (\<lambda>c. put_at (components ?r) c k)"
        by (rule 1(1) [OF refl False k(3) h])
      have f: "find_at (components p) b = find_at (components ?r) k"
        "(\<lambda>x. put_at (components p) x b) = (\<lambda>x. Dtree nm pl (bs1 @ put_at (components ?r) x k # bs2))"
        unfolding c using b r by (auto simp: fun_eq_iff)
      show ?thesis
      proof (cases "find_at (components ?r) k")
        case None
        then show ?thesis using IH f(1) w' by simp
      next
        case (Some k')
        then obtain us'' kt' ws'' where g: "walk_path fdt (bytes us') ?r = Some (bytes us'')" "us' @ kt @ ws' = us'' @ kt' @ ws''"
          "tokens strs k' kt'" "part_of strs us'' ws'' us' ws' (\<lambda>c. put_at (components ?r) c k)" using IH by auto
        have "part_of strs us'' ws'' us ws (\<lambda>x. put_at (components p) x b)" unfolding f(2) using part_of_trans [OF k(4) g(4)] .
        then show ?thesis using g(1-3) f(1) w' k(2) Some by auto
      qed
    qed
  qed
qed

lemma path_offset_tree:
  assumes "tokens strs b bt" "holds fdt rs bt strs room" "path \<noteq> []" "hd path = slash"
  shows "case find_at (components path) b of
      None \<Rightarrow> fdt_path_offset fdt path = Some (- FDT_ERR_NOTFOUND)
    | Some k \<Rightarrow> \<exists>us kt ws. fdt_path_offset fdt path = Some (bytes us) \<and> bt = us @ kt @ ws \<and> tokens strs k kt
        \<and> part_of strs us ws [] [] (\<lambda>c. put_at (components path) c b)"
proof -
  have "fdt_path_offset fdt path = walk_path fdt (bytes []) path"
    using assms(3,4) holds_header(1) [OF assms(2)] by (simp add: fdt_path_offset_def fdt_path_offset_namelen_def blob_fuel_def)
  moreover have "holds fdt rs ([] @ bt @ []) strs room" using assms(2) by simp
  ultimately show ?thesis using walk_tree [OF assms(1), of fdt rs "[]" "[]" room path] unfolding append_Nil append_Nil2 by presburger
qed

section \<open>Fragments\<close>

definition overlay_of :: "dtree \<Rightarrow> dtree option" where
  "overlay_of f = (case List.extract (child_named (chars ''__overlay__'')) (node_kids f) of None \<Rightarrow> None | Some (fs1, t, fs2) \<Rightarrow> Some t)"

definition target_of :: "dtree \<Rightarrow> 8 word list" where
  "target_of f = butlast (the (map_of (node_props f) (chars ''target-path'')))"

text \<open>A fragment without an overlay, or one whose target is an absolute path.\<close>

definition by_path :: "dtree \<Rightarrow> bool" where
  "by_path f \<longleftrightarrow> overlay_of f = None
     \<or> map_of (node_props f) (chars ''target'') = None
       \<and> map_of (node_props f) (chars ''target-path'') = Some (target_of f @ [0])
       \<and> 0 \<notin> set (target_of f) \<and> target_of f \<noteq> [] \<and> hd (target_of f) = slash"

text \<open>The specification: one fragment after the other, up to the first whose target is missing.\<close>

fun merge_fragments :: "dtree list \<Rightarrow> dtree \<Rightarrow> int + dtree" where
  "merge_fragments [] b = Inr b"
| "merge_fragments (f # fs) b =
     (case overlay_of f of
        None \<Rightarrow> merge_fragments fs b
      | Some t \<Rightarrow>
          (case find_at (components (target_of f)) b of
             None \<Rightarrow> Inl (- FDT_ERR_NOTFOUND)
           | Some k \<Rightarrow> merge_fragments fs (put_at (components (target_of f)) (merge_tree k t) b)))"

definition fragment_cost :: "dtree \<Rightarrow> int" where
  "fragment_cost f = (case overlay_of f of None \<Rightarrow> 0 | Some t \<Rightarrow> merge_cost t)"

lemma fragment_cost_nonneg: "0 \<le> fragment_cost f"
  by (simp add: fragment_cost_def merge_cost_nonneg split: option.split)

lemma fragments_cost_nonneg: "0 \<le> (\<Sum>f\<leftarrow>fs. fragment_cost f)"
  by (rule sum_list_nonneg) (auto simp: fragment_cost_nonneg)

lemma getprop_list:
  assumes "tokens strs (Dtree nm pl ks) tt" "holds fdt rs (us @ tt @ ws) strs room"
  shows "case map_of pl name of
      None \<Rightarrow> fdt_getprop fdt (bytes us) name = Some (None, - FDT_ERR_NOTFOUND)
    | Some v \<Rightarrow> \<exists>q. fdt_getprop fdt (bytes us) name = Some (Some q, int (length v)) \<and> rd_bytes fdt q (int (length v)) = Some v"
  using assms(1)
proof (rule tokens_elim)
  fix nm' ps ks' body
  assume o: "Dtree nm pl ks = Dtree nm' (prop_list strs ps) ks'" "tt = Node_begin nm' # ps @ body @ [Node_end]"
    "list_all is_prop ps" "forest strs ks' body"
  have n: "node_at fdt rs us nm ps (body @ Node_end # ws) strs room"
    using assms(2) o forest_over [OF o(4)] by (simp add: node_at_def)
  have "map_of pl name = value_of strs name ps" using value_of_prop_list [OF o(3)] o(1) by simp
  then show ?thesis using getprop_spec [OF n, of name] by simp
qed

lemma c_string_bytes:
  assumes "rd_bytes fdt q (int (length (s @ [0]))) = Some (s @ [0])" "0 \<notin> set s"
  shows "c_string_at fdt q = Some s"
proof -
  have at: "bytes_at fdt q (int (length s) + 1) = s @ [0]" "inside fdt q (int (length s) + 1)"
    using assms(1) by (simp_all add: rd_bytes_def add.commute split: if_splits)
  have t: "terminated fdt q (int (length s))" by (rule terminated_name [OF at assms(2)])
  have "bytes_at fdt q (int (length s)) = take (length s) (bytes_at fdt q (int (length s) + 1))"
    by (simp add: bytes_at_def min_def nat_add_distrib)
  then have "bytes_at fdt q (int (length s)) = s" using at(1) by simp
  then show ?thesis using str_len_terminated [OF t] terminated_inside(1) [OF t] by (simp add: c_string_at_def rd_bytes_def)
qed

lemma get_target_tree:
  assumes f: "tokens strso f ft" "holds fdto rso (uso @ ft @ wso) strso roomo" and p: "by_path f" "overlay_of f \<noteq> None"
  shows "overlay_get_target fdt fdto (bytes uso) = do {
      ret \<leftarrow> fdt_path_offset fdt (target_of f);
      q \<leftarrow> Option.bind (fdt_getprop fdto (bytes uso) (chars ''target-path'')) fst;
      if ret < 0 then Some (ret, None) else Some (ret, Some q) }"
proof -
  obtain nm pl ks where t: "f = Dtree nm pl ks" by (cases f)
  note g = getprop_list [OF f(1) [unfolded t] f(2)]
  have m: "map_of pl (chars ''target'') = None" "map_of pl (chars ''target-path'') = Some (target_of f @ [0])" "0 \<notin> set (target_of f)"
    using p t by (auto simp: by_path_def)
  have "fdt_getprop fdto (bytes uso) (chars ''target'') = Some (None, - FDT_ERR_NOTFOUND)" using g [of "chars ''target''"] m(1) by simp
  moreover obtain q where q: "fdt_getprop fdto (bytes uso) (chars ''target-path'') = Some (Some q, int (length (target_of f @ [0])))"
    "rd_bytes fdto q (int (length (target_of f @ [0]))) = Some (target_of f @ [0])" using g [of "chars ''target-path''"] m(2) by auto
  ultimately show ?thesis using c_string_bytes [OF q(2) m(3)]
    by (cases "fdt_path_offset fdt (target_of f)") (simp_all add: overlay_get_target_def overlay_get_target_phandle_def)
qed

lemma merge_fragment_tree:
  assumes f: "tokens strso f ft" "holds fdto rso (uso @ ft @ wso) strso roomo" and p: "by_path f"
    and b: "tokens strs b bt" "holds fdt rs bt strs room"
  shows "case overlay_of f of
      None \<Rightarrow> merge_fragment fdto (bytes uso) fdt = Some (0, fdt)
    | Some t \<Rightarrow>
        (case find_at (components (target_of f)) b of
           None \<Rightarrow> merge_fragment fdto (bytes uso) fdt = Some (- FDT_ERR_NOTFOUND, fdt)
         | Some k \<Rightarrow> leaves room (merge_cost t) (merge_fragment fdto (bytes uso) fdt) rs [] [] strs
             (put_at (components (target_of f)) (merge_tree k t) b))"
proof -
  obtain nm pl ks where F: "f = Dtree nm pl ks" by (cases f)
  note kid = child_tree [OF f(1) [unfolded F] f(2), of "chars ''__overlay__''"]
  show ?thesis
  proof (cases "overlay_of f")
    case None
    then have "List.extract (child_named (chars ''__overlay__'')) ks = None" using F by (auto simp: overlay_of_def split: option.splits)
    then show ?thesis using kid None by (simp add: merge_fragment_def fdt_subnode_offset_def)
  next
    case (Some t)
    then obtain fs1 fs2 where e: "List.extract (child_named (chars ''__overlay__'')) ks = Some (fs1, t, fs2)"
      using F by (auto simp: overlay_of_def split: option.splits)
    with kid obtain us' tt ws' where o: "fdt_subnode_offset_namelen fdto (bytes uso) (chars ''__overlay__'') = Some (bytes us')"
      "uso @ ft @ wso = us' @ tt @ ws'" "tokens strso t tt" by auto
    have ho: "holds fdto rso (us' @ tt @ ws') strso roomo" using f(2) o(2) by simp
    have m: "merge_fragment fdto (bytes uso) fdt = do {
        (target, pathp) \<leftarrow> overlay_get_target fdt fdto (bytes uso);
        if target < 0 then Some (target, fdt) else overlay_apply_node fdt target fdto (bytes us') }"
      using o(1) bytes_nonneg [of us'] by (auto simp: merge_fragment_def fdt_subnode_offset_def not_less simp del: bytes_nonneg)
    have path: "target_of f \<noteq> []" "hd (target_of f) = slash" and tp: "map_of pl (chars ''target-path'') = Some (target_of f @ [0])"
      using p Some F by (auto simp: by_path_def)
    obtain q where q: "fdt_getprop fdto (bytes uso) (chars ''target-path'') = Some (Some q, int (length (target_of f @ [0])))"
      using getprop_list [OF f(1) [unfolded F] f(2), of "chars ''target-path''"] tp by auto
    note target = get_target_tree [OF f p, of fdt] path_offset_tree [OF b path]
    show ?thesis
    proof (cases "find_at (components (target_of f)) b")
      case None
      then show ?thesis using target q m Some by simp
    next
      case f: (Some k)
      then obtain us kt ws where k: "fdt_path_offset fdt (target_of f) = Some (bytes us)" "bt = us @ kt @ ws" "tokens strs k kt"
        "part_of strs us ws [] [] (\<lambda>c. put_at (components (target_of f)) c b)" using target(2) by auto
      have hb: "holds fdt rs (us @ kt @ ws) strs room" using b(2) k(2) by simp
      have "length tt \<le> blob_fuel fdto" using holds_header(5) [OF ho] by simp
      then have "leaves room (merge_cost t) (overlay_apply_node fdt (bytes us) fdto (bytes us')) rs us ws strs (merge_tree k t)"
        unfolding overlay_apply_node_def by (rule apply_node_tree [OF o(3) ho k(3) hb])
      from leaves_within [OF this k(4)] show ?thesis using m target(1) q k(1) Some f bytes_nonneg [of us]
        by (simp add: not_less del: bytes_nonneg)
    qed
  qed
qed

section \<open>All the fragments\<close>

definition merged :: "int \<Rightarrow> int \<Rightarrow> (int \<times> blob) option \<Rightarrow> 8 word list \<Rightarrow> 8 word list \<Rightarrow> int + dtree \<Rightarrow> bool" where
  "merged room cost r rs strs res \<longleftrightarrow> (\<exists>err fdt. r = Some (err, fdt)
     \<and> (err = - FDT_ERR_NOSPACE \<and> room < cost
        \<or> (case res of
             Inl e \<Rightarrow> err = e
           | Inr b \<Rightarrow> err = 0 \<and> (\<exists>X bt room'. holds fdt rs bt (strs @ X) room' \<and> tokens (strs @ X) b bt \<and> room - cost \<le> room'))))"

lemma merged_done: "holds fdt rs bt strs room \<Longrightarrow> tokens strs b bt \<Longrightarrow> merged room 0 (Some (0, fdt)) rs strs (Inr b)"
  unfolding merged_def sum.case
  by (intro exI [of _ 0] exI [of _ fdt] conjI disjI2 exI [of _ "[]"] exI [of _ bt] exI [of _ room]) simp_all

lemma merged_bind:
  assumes "leaves room c r rs [] [] strs b" "0 \<le> c'"
    and "\<And>fdt X bt room'. holds fdt rs bt (strs @ X) room' \<Longrightarrow> tokens (strs @ X) b bt \<Longrightarrow> merged room' c' (f fdt) rs (strs @ X) res"
  shows "merged room (c + c') (do { (ret, fdt) \<leftarrow> r; if ret \<noteq> 0 then Some (ret, fdt) else f fdt }) rs strs res"
  using assms(1) unfolding leaves_def
proof (elim exE conjE disjE)
  fix err fdt X bt room'
  assume r: "r = Some (err, fdt)" "err = 0" "holds fdt rs ([] @ bt @ []) (strs @ X) room'" "tokens (strs @ X) b bt" "room - c \<le> room'"
  have "merged room' c' (f fdt) rs (strs @ X) res" using assms(3) r(3,4) by simp
  moreover have "room - (c + c') \<le> x" if "room' - c' \<le> x" for x using that r(5) by simp
  moreover have "room < c + c'" if "room' < c'" using that r(5) by simp
  ultimately have "merged room (c + c') (f fdt) rs strs res" unfolding merged_def append.assoc by (cases res) (simp; metis)+
  then show ?thesis using r(1,2) by simp
qed (use assms(2) in \<open>simp add: merged_def\<close>)

lemma fragments_tree:
  "forest strso fs kt \<Longrightarrow> holds fdto rso (uso @ kt @ Node_end # wso) strso roomo \<Longrightarrow> list_all by_path fs \<Longrightarrow>
    tokens strs b bt \<Longrightarrow> holds fdt rs bt strs room \<Longrightarrow> length kt < m \<Longrightarrow>
    merged room (\<Sum>f\<leftarrow>fs. fragment_cost f)
      (subnodes_n m (\<lambda>fdt. fdto) (merge_fragment fdto) (if fs = [] then - FDT_ERR_NOTFOUND else bytes uso) fdt) rs strs (merge_fragments fs b)"
proof (induction fs arbitrary: uso kt strs b bt fdt room m)
  case Nil
  obtain j where j: "m = Suc j" using Nil.prems(6) by (cases m) auto
  show ?case using merged_done [OF Nil.prems(5,4)] j by simp
next
  case (Cons f fs)
  obtain j where j: "m = Suc j" using Cons.prems(6) by (cases m) auto
  from Cons.prems(1) obtain a i c where c: "kt = a @ replicate i Nop @ c" "tokens strso f a" "forest strso fs c" by (rule forest_cons)
  have ne: "a \<noteq> []" using c(2) by (auto elim: tokens_elim)
  have h: "holds fdto rso (uso @ a @ replicate i Nop @ c @ Node_end # wso) strso roomo"
    and h1: "holds fdto rso (uso @ a @ (replicate i Nop @ c @ Node_end # wso)) strso roomo"
    and h3: "holds fdto rso ((uso @ a @ replicate i Nop) @ c @ Node_end # wso) strso roomo" using Cons.prems(2) c(1) by simp_all
  have len: "length c < j" using Cons.prems(6) c(1) ne j by (cases a) simp_all
  have p: "by_path f" "list_all by_path fs" using Cons.prems(3) by simp_all
  let ?loop = "subnodes_n j (\<lambda>fdt. fdto) (merge_fragment fdto) (if fs = [] then - FDT_ERR_NOTFOUND else bytes (uso @ a @ replicate i Nop))"
  have loop: "subnodes_n m (\<lambda>fdt. fdto) (merge_fragment fdto) (bytes uso) fdt = do {
      (ret, fdt) \<leftarrow> merge_fragment fdto (bytes uso) fdt; if ret \<noteq> 0 then Some (ret, fdt) else ?loop fdt }"
    unfolding j by (rule subnodes_n_step [OF bytes_nonneg next_subnode_tree [OF h c(2,3)]])
  note step = merge_fragment_tree [OF c(2) h1 p(1) Cons.prems(4,5)]
  note IH = Cons.IH [OF c(3) h3 p(2) _ _ len]
  have "merged room (\<Sum>f\<leftarrow>f # fs. fragment_cost f) (subnodes_n m (\<lambda>fdt. fdto) (merge_fragment fdto) (bytes uso) fdt) rs strs
      (merge_fragments (f # fs) b)"
  proof (cases "overlay_of f")
    case None
    then show ?thesis unfolding loop using step IH [OF Cons.prems(4,5)] by (simp add: fragment_cost_def)
  next
    case (Some t)
    show ?thesis
    proof (cases "find_at (components (target_of f)) b")
      case None
      then show ?thesis unfolding loop using step Some by (simp add: merged_def)
    next
      case k: (Some k)
      then have l: "leaves room (merge_cost t) (merge_fragment fdto (bytes uso) fdt) rs [] [] strs
          (put_at (components (target_of f)) (merge_tree k t) b)" using step Some by simp
      have "merged room (merge_cost t + (\<Sum>f\<leftarrow>fs. fragment_cost f)) (do {
          (ret, fdt) \<leftarrow> merge_fragment fdto (bytes uso) fdt; if ret \<noteq> 0 then Some (ret, fdt) else ?loop fdt }) rs strs
          (merge_fragments fs (put_at (components (target_of f)) (merge_tree k t) b))"
        by (rule merged_bind [OF l fragments_cost_nonneg]) (rule IH)
      then show ?thesis unfolding loop using Some k by (simp add: fragment_cost_def)
    qed
  qed
  then show ?case by (simp only: list.distinct if_False)
qed

lemma overlay_merge_tree:
  assumes o: "tokens strso (Dtree nm pl fs) tt" "holds fdto rso tt strso roomo" and p: "list_all by_path fs"
    and b: "tokens strs b bt" "holds fdt rs bt strs room"
  shows "merged room (\<Sum>f\<leftarrow>fs. fragment_cost f) (overlay_merge fdt fdto) rs strs (merge_fragments fs b)"
  using o(1)
proof (rule tokens_elim)
  fix nm' ps ks body
  assume t: "Dtree nm pl fs = Dtree nm' (prop_list strso ps) ks" "tt = Node_begin nm' # ps @ body @ [Node_end]"
    "list_all is_prop ps" "forest strso ks body"
  have h: "holds fdto rso ([] @ Node_begin nm' # ps @ body @ Node_end # []) strso roomo"
    and h': "holds fdto rso (([] @ Node_begin nm' # ps) @ body @ Node_end # []) strso roomo" using o(2) t(2) by simp_all
  have "fdt_first_subnode fdto 0 = Some (if fs = [] then - FDT_ERR_NOTFOUND else bytes ([] @ Node_begin nm' # ps))"
    using first_subnode_tree [OF h t(3,4)] t(1) by simp
  then have "overlay_merge fdt fdto = subnodes_n (blob_fuel fdto) (\<lambda>fdt. fdto) (merge_fragment fdto)
      (if fs = [] then - FDT_ERR_NOTFOUND else bytes ([] @ Node_begin nm' # ps)) fdt"
    by (simp add: overlay_merge_def fdt_for_each_subnode_def)
  moreover have "length body < blob_fuel fdto" using holds_header(5) [OF h] by simp
  ultimately show ?thesis using fragments_tree [OF _ h' p b, of "blob_fuel fdto"] t(1,4) by simp
qed

end
