(* ===== verification/Fdt_Overlay_Properties.thy ===== *)
theory Fdt_Overlay_Properties
  imports Fdt_Phandles Fdt_Fragments
begin

text \<open>
  The properties of the overlays: the phandles of the overlay move, its fragments are merged into the
  nodes they name, and a failed application leaves two trees that nothing accepts.
\<close>

section \<open>Examples\<close>

text \<open>An overlay, whose root has a property \<open>b\<close>, a child \<open>n\<close> with another and an empty child \<open>m\<close>; the
  tree of \<open>room_fdt\<close>; a tree whose root has the value \<open>v\<close> for its phandle, and an empty root.\<close>

definition ov_tokens :: "token list" where
  "ov_tokens = [Node_begin [], Prop 0 [5], Node_begin [110], Prop 0 [6], Node_end, Node_begin [109], Node_end, Node_end]"

definition ov_tree :: dtree where
  "ov_tree = Dtree [] [([98], [5])] [Dtree [110] [([98], [6])] [], Dtree [109] [] []]"

definition room_tree :: dtree where
  "room_tree = Dtree [] [([97], [1, 2])] [Dtree [110] [] []]"

definition ov_fdt :: blob where
  "ov_fdt = fdt_image FDT_MAGIC 256 (replicate 16 0) (encs ov_tokens @ enc Fin) [98, 0] (replicate 118 0)"

definition ph_tokens :: "8 word list \<Rightarrow> token list" where
  "ph_tokens v = [Node_begin [], Prop 0 v, Node_end]"

definition ph_fdt :: "8 word list \<Rightarrow> blob" where
  "ph_fdt v = fdt_image FDT_MAGIC 256 (replicate 16 0) (encs (ph_tokens v) @ enc Fin) (chars ''phandle'' @ [0]) (replicate 152 0)"

definition fr_strs :: "8 word list" where
  "fr_strs = chars ''target-path'' @ [0, 98, 0]"

definition fr_tokens :: "token list" where
  "fr_tokens = [Node_begin [], Node_begin [102], Prop 0 [47, 110, 0], Node_begin (chars ''__overlay__''), Prop 12 [6], Node_end,
     Node_end, Node_end]"

definition fr_tree :: dtree where
  "fr_tree = Dtree [102] [(chars ''target-path'', [47, 110, 0])] [Dtree (chars ''__overlay__'') [([98], [6])] []]"

definition fr_fdt :: blob where
  "fr_fdt = fdt_image FDT_MAGIC 256 (replicate 16 0) (encs fr_tokens @ enc Fin) fr_strs (replicate 98 0)"


lemma string_at_0: "0 \<notin> set nm \<Longrightarrow> string_at (nm @ [0]) 0 nm"
  unfolding string_at_def by (intro conjI exI [of _ "[]"] exI [of _ "[]"]) simp_all

lemma demo_holds:
  assumes "length (encs ts) = n" "list_all (token_in strs) ts" "256 = 48 + 16 + (n + 4) + length strs + k"
  shows "holds (fdt_image FDT_MAGIC 256 (replicate 16 0) (encs ts @ enc Fin) strs (replicate k 0)) (replicate 16 0) ts strs (int k)"
proof -
  have "fits 256 (replicate 16 0) (encs ts @ enc Fin) strs (replicate k 0)" using assms(1,3) by (simp add: fits_def del: encs_simps)
  moreover have "block (ts @ [Fin]) (encs ts @ enc Fin)" using block_encs [of "ts @ [Fin]"] by simp
  ultimately show ?thesis
    unfolding holds_def using assms by (intro conjI exI [of _ 256] exI [of _ "encs ts @ enc Fin"] exI [of _ "replicate k 0"])
      (simp_all del: encs_simps)
qed

lemma ov_holds: "holds ov_fdt (replicate 16 0) ov_tokens [98, 0] 118"
proof -
  have "length (encs ov_tokens) = 68" by code_simp
  moreover have "list_all (token_in [98, 0]) ov_tokens" using string_at_0 [of "[98]"] by (auto simp: ov_tokens_def)
  ultimately show ?thesis using demo_holds [of ov_tokens 68 "[98, 0]" 118] by (simp add: ov_fdt_def)
qed

lemma ph_holds: "length v \<in> {1, 4} \<Longrightarrow> holds (ph_fdt v) (replicate 16 0) (ph_tokens v) (chars ''phandle'' @ [0]) 152"
proof -
  assume v: "length v \<in> {1, 4}"
  have "length (encs (ph_tokens v)) = 28" using v length_enc(1) [of "[]"] length_enc(2) length_enc(3) [of 0 v]
    by (auto simp: ph_tokens_def FDT_TAGALIGN_def FDT_ALIGN_def simp del: enc.simps)
  moreover have n: "0 \<notin> set (chars ''phandle'')" by code_simp
  have "list_all (token_in (chars ''phandle'' @ [0])) (ph_tokens v)" using string_at_0 [OF n] v by (auto simp: ph_tokens_def)
  moreover have "length (chars ''phandle'' @ [0]) = 8" by code_simp
  ultimately show ?thesis using demo_holds [of "ph_tokens v" 28 "chars ''phandle'' @ [0]" 152] by (simp add: ph_fdt_def)
qed

lemma tokens_node: "list_all is_prop ps \<Longrightarrow> forest strs ks body \<Longrightarrow> pl = prop_list strs ps \<Longrightarrow>
  ts = Node_begin nm # ps @ body @ [Node_end] \<Longrightarrow> tokens strs (Dtree nm pl ks) ts"
  by (simp add: tokens_forest.node)

lemma forest_kid: "tokens strs k a \<Longrightarrow> forest strs ks b \<Longrightarrow> forest strs (k # ks) (a @ b)"
  using tokens_forest.kid [of strs k a ks b 0] by simp

lemma ov_is_tree: "tokens [98, 0] ov_tree ov_tokens"
proof -
  have "tokens [98, 0] (Dtree [110] [([98], [6])] []) [Node_begin [110], Prop 0 [6], Node_end]"
    by (rule tokens_node [of "[Prop 0 [6]]" _ _ "[]"]) (simp_all add: prop_name_def)
  moreover have "tokens [98, 0] (Dtree [109] [] []) [Node_begin [109], Node_end]" by (rule tokens_node [of "[]" _ _ "[]"]) simp_all
  ultimately have "forest [98, 0] [Dtree [110] [([98], [6])] [], Dtree [109] [] []]
      ([Node_begin [110], Prop 0 [6], Node_end] @ [Node_begin [109], Node_end] @ [])" by (intro forest_kid) simp_all
  then show ?thesis unfolding ov_tree_def ov_tokens_def by (rule tokens_node [of "[Prop 0 [5]]", rotated]) (simp_all add: prop_name_def)
qed

lemma room_is_tree: "tokens [97, 0] room_tree [Node_begin [], Prop 0 [1, 2], Node_begin [110], Node_end, Node_end]"
proof -
  have "tokens [97, 0] (Dtree [110] [] []) [Node_begin [110], Node_end]" by (rule tokens_node [of "[]" _ _ "[]"]) simp_all
  then have "forest [97, 0] [Dtree [110] [] []] ([Node_begin [110], Node_end] @ [])" by (intro forest_kid) simp_all
  then show ?thesis unfolding room_tree_def by (rule tokens_node [of "[Prop 0 [1, 2]]", rotated]) (simp_all add: prop_name_def)
qed

lemma ph_is_tree: "tokens (chars ''phandle'' @ [0]) (Dtree [] [(chars ''phandle'', v)] []) (ph_tokens v)"
proof -
  have "0 \<notin> set (chars ''phandle'')" by code_simp
  then show ?thesis unfolding ph_tokens_def
    using prop_name_at [OF string_at_0] by (intro tokens_node [of "[Prop 0 v]" _ _ "[]"]) simp_all
qed

lemma fr_names: "string_at fr_strs 0 (chars ''target-path'')" "string_at fr_strs 12 [98]"
proof -
  have n: "0 \<notin> set (chars ''target-path'')" "length (chars ''target-path'' @ [0]) = 12" by code_simp+
  show "string_at fr_strs 0 (chars ''target-path'')"
    unfolding string_at_def fr_strs_def using n by (intro conjI exI [of _ "[]"] exI [of _ "[98, 0]"]) simp_all
  show "string_at fr_strs 12 [98]"
    unfolding string_at_def fr_strs_def using n by (intro conjI exI [of _ "chars ''target-path'' @ [0]"] exI [of _ "[]"]) simp_all
qed

lemma fr_holds: "holds fr_fdt (replicate 16 0) fr_tokens fr_strs 98"
proof -
  have "length (encs fr_tokens) = 76" "length fr_strs = 14" "0 \<notin> set (chars ''__overlay__'')" by code_simp+
  moreover have "list_all (token_in fr_strs) fr_tokens" using fr_names calculation(3) by (auto simp: fr_tokens_def)
  ultimately show ?thesis using demo_holds [of fr_tokens 76 fr_strs 98] by (simp add: fr_fdt_def)
qed

lemma fr_is_tree: "tokens fr_strs (Dtree [] [] [fr_tree]) fr_tokens"
proof -
  let ?o = "Node_begin (chars ''__overlay__'')"
  have o: "tokens fr_strs (Dtree (chars ''__overlay__'') [([98], [6])] []) [?o, Prop 12 [6], Node_end]"
    by (rule tokens_node [of "[Prop 12 [6]]" _ _ "[]"]) (simp_all add: prop_name_at [OF fr_names(2)])
  have "tokens fr_strs fr_tree ([Node_begin [102], Prop 0 [47, 110, 0]] @ [?o, Prop 12 [6], Node_end] @ [Node_end])"
    unfolding fr_tree_def by (rule tokens_node [of "[Prop 0 [47, 110, 0]]" _ _ "[?o, Prop 12 [6], Node_end]"])
      (use forest_kid [OF o none] in \<open>simp_all add: prop_name_at [OF fr_names(1)]\<close>)
  from forest_kid [OF this none] show ?thesis unfolding fr_tokens_def
    by (intro tokens_node [of "[]", OF _ \<open>forest _ _ _\<close>]) simp_all
qed

section \<open>The merge\<close>

text \<open>
  C11: \<open>overlay_apply_node\<close> merges trees. On two buffers that hold trees it returns, and the node of the
  base has become the merge of the two: each property of the overlay replaces the one of its name
  or is new, each child is merged into the child its name finds or is new, and every other token of
  the base stays. The only error is \<open>FDT_ERR_NOSPACE\<close>, when the room of the base is less than the
  overlay may take.
\<close>
theorem apply_node_merges:
  assumes "tokens strso t tt" "holds fdto rso (uso @ tt @ wso) strso roomo"
    and "tokens strs b bt" "holds fdt rs (us @ bt @ ws) strs room"
  shows "\<exists>err fdt'. overlay_apply_node fdt (bytes us) fdto (bytes uso) = Some (err, fdt')
    \<and> (err = 0 \<and> (\<exists>X bt' room'. holds fdt' rs (us @ bt' @ ws) (strs @ X) room' \<and> tokens (strs @ X) (merge_tree b t) bt'
          \<and> room - merge_cost t \<le> room')
       \<or> err = - FDT_ERR_NOSPACE \<and> room < merge_cost t)"
proof -
  have "length tt \<le> blob_fuel fdto" using holds_header(5) [OF assms(2)] by simp
  from apply_node_tree [OF assms(1-4) this] show ?thesis unfolding leaves_def overlay_apply_node_def .
qed

theorem apply_node_merges_witness:
  "\<exists>fdt' X bt' room'. overlay_apply_node room_fdt (bytes []) ov_fdt (bytes []) = Some (0, fdt')
    \<and> holds fdt' (replicate 16 0) bt' ([97, 0] @ X) room'
    \<and> tokens ([97, 0] @ X) (Dtree [] [([98], [5]), ([97], [1, 2])] [Dtree [109] [] [], Dtree [110] [([98], [6])] []]) bt'"
proof -
  have h: "holds ov_fdt (replicate 16 0) ([] @ ov_tokens @ []) [98, 0] 118" using ov_holds by simp
  have b: "holds room_fdt (replicate 16 0) ([] @ [Node_begin [], Prop 0 [1, 2], Node_begin [110], Node_end, Node_end] @ []) [97, 0] 146"
    using room_holds by simp
  have m: "merge_tree room_tree ov_tree
      = Dtree [] [([98], [5]), ([97], [1, 2])] [Dtree [109] [] [], Dtree [110] [([98], [6])] []]" by code_simp
  have c: "merge_cost ov_tree = 60" by code_simp
  show ?thesis using apply_node_merges [OF ov_is_tree h room_is_tree b] unfolding m c by auto
qed

text \<open>
  C8: \<open>overlay_merge\<close> merges the fragments one after the other, each into the node its path names in the
  base as the fragments before have left it, and skips a fragment without an overlay. It returns
  \<open>FDT_ERR_NOTFOUND\<close> at the first fragment whose path names no node; the only other error is
  \<open>FDT_ERR_NOSPACE\<close>, when the room of the base is less than the overlays may take.
\<close>
theorem fragments_merge:
  assumes "tokens strso (Dtree nm pl fs) tt" "holds fdto rso tt strso roomo" "list_all by_path fs"
    and "tokens strs b bt" "holds fdt rs bt strs room"
  shows "\<exists>err fdt'. overlay_merge fdt fdto = Some (err, fdt')
    \<and> (err = - FDT_ERR_NOSPACE \<and> room < (\<Sum>f\<leftarrow>fs. fragment_cost f)
       \<or> (case merge_fragments fs b of
            Inl e \<Rightarrow> err = e
          | Inr b' \<Rightarrow> err = 0 \<and> (\<exists>X bt' room'. holds fdt' rs bt' (strs @ X) room' \<and> tokens (strs @ X) b' bt'
              \<and> room - (\<Sum>f\<leftarrow>fs. fragment_cost f) \<le> room')))"
  using overlay_merge_tree [OF assms] unfolding merged_def .

theorem fragments_merge_witness:
  "\<exists>fdt' X bt' room'. overlay_merge room_fdt fr_fdt = Some (0, fdt') \<and> holds fdt' (replicate 16 0) bt' ([97, 0] @ X) room'
    \<and> tokens ([97, 0] @ X) (Dtree [] [([97], [1, 2])] [Dtree [110] [([98], [6])] []]) bt'"
proof -
  have p: "list_all by_path [fr_tree]" "(\<Sum>f\<leftarrow>[fr_tree]. fragment_cost f) = 18" by code_simp+
  have m: "merge_fragments [fr_tree] room_tree = Inr (Dtree [] [([97], [1, 2])] [Dtree [110] [([98], [6])] []])" by code_simp
  show ?thesis using fragments_merge [OF fr_is_tree fr_holds p(1) room_is_tree room_holds] unfolding m p(2) by auto
qed

section \<open>The phandles\<close>

text \<open>
  C13: \<open>overlay_adjust_local_phandles\<close> adds \<open>delta\<close> to the phandle of every node of the overlay and to
  nothing else, or returns the first error: \<open>FDT_ERR_BADPHANDLE\<close> for a phandle that has not four bytes,
  \<open>FDT_ERR_NOPHANDLES\<close> for one that would reach the reserved number or more.
\<close>
theorem phandles_move:
  assumes "tokens strs t tt" "holds fdto rs tt strs room" "0 \<le> delta" "delta < 2 ^ 32"
  shows "case shift_tree delta t of
      Inl err \<Rightarrow> err \<noteq> 0 \<and> (\<exists>fdto'. overlay_adjust_local_phandles fdto delta = Some (err, fdto'))
    | Inr t' \<Rightarrow> \<exists>fdto' tt'. overlay_adjust_local_phandles fdto delta = Some (0, fdto')
        \<and> holds fdto' rs tt' strs room \<and> tokens strs t' tt'"
proof -
  have h: "holds fdto rs ([] @ tt @ []) strs room" and l: "length tt \<le> blob_fuel fdto"
    using assms(2) holds_header(5) [OF assms(2)] by simp_all
  have e: "overlay_adjust_local_phandles fdto delta = adjust_node_n (blob_fuel fdto) delta (bytes []) fdto"
    by (simp add: overlay_adjust_local_phandles_def overlay_adjust_node_phandles_def)
  show ?thesis unfolding e
    using adjust_tree [OF assms(3,4,1) h l] unfolding agrees_def by (auto split: sum.split)
qed

theorem phandles_move_witness:
  "(\<exists>fdto'. overlay_adjust_local_phandles (ph_fdt [1]) 7 = Some (- FDT_ERR_BADPHANDLE, fdto'))
    \<and> (\<exists>fdto' tt'. overlay_adjust_local_phandles (ph_fdt [0, 0, 0, 9]) 7 = Some (0, fdto')
    \<and> holds fdto' (replicate 16 0) tt' (chars ''phandle'' @ [0]) 152
    \<and> tokens (chars ''phandle'' @ [0]) (Dtree [] [(chars ''phandle'', [0, 0, 0, 16])] []) tt')"
proof (rule conjI)
  have s: "shift_tree 7 (Dtree [] [(chars ''phandle'', [1])] []) = Inl (- FDT_ERR_BADPHANDLE)"
    "shift_tree 7 (Dtree [] [(chars ''phandle'', [0, 0, 0, 9])] []) = Inr (Dtree [] [(chars ''phandle'', [0, 0, 0, 16])] [])"
    by code_simp+
  show "\<exists>fdto'. overlay_adjust_local_phandles (ph_fdt [1]) 7 = Some (- FDT_ERR_BADPHANDLE, fdto')"
    using phandles_move [OF ph_is_tree ph_holds, of "[1]" 7] s(1) by simp
  show "\<exists>fdto' tt'. overlay_adjust_local_phandles (ph_fdt [0, 0, 0, 9]) 7 = Some (0, fdto')
    \<and> holds fdto' (replicate 16 0) tt' (chars ''phandle'' @ [0]) 152
    \<and> tokens (chars ''phandle'' @ [0]) (Dtree [] [(chars ''phandle'', [0, 0, 0, 16])] []) tt'"
    using phandles_move [OF ph_is_tree ph_holds, of "[0, 0, 0, 9]" 7] s(2) by simp
qed

text \<open>
  C24: \<open>fdt_setprop_inplace_namelen_partial\<close>, which the overlays use for every reference. A write that
  ends inside of the value changes just these bytes. A write behind it is refused with
  \<open>FDT_ERR_NOSPACE\<close>, but for an offset so large that the end of the write wraps around in 32 bits: then
  the check passes and the bytes go outside of the buffer.
\<close>
theorem partial_write_exact:
  assumes "node_at fdt rs us nm ps ws strs room" "value_of strs name ps = Some v" "0 \<le> idx" "idx < 2 ^ 32"
    and "int (length w) < 2 ^ 32" "int (length fdt) \<le> 2 ^ 32"
  shows "if idx + int (length w) \<le> int (length v) then
      \<exists>fdt'. fdt_setprop_inplace_namelen_partial fdt (bytes us) name idx w = Some (0, fdt')
        \<and> node_at fdt' rs us nm (replace_prop strs name (overwrite idx w v) ps) ws strs room
    else fdt_setprop_inplace_namelen_partial fdt (bytes us) name idx w
      = (if idx + int (length w) \<ge> 2 ^ 32 \<and> idx + int (length w) - 2 ^ 32 \<le> int (length v) then None else Some (- FDT_ERR_NOSPACE, fdt))"
  using partial_write [OF assms] .

theorem partial_write_exact_witness:
  "(\<exists>fdt'. fdt_setprop_inplace_namelen_partial room_fdt (bytes []) [97] 1 [9] = Some (0, fdt')
      \<and> node_at fdt' (replicate 16 0) [] [] [Prop 0 [1, 9]] [Node_begin [110], Node_end, Node_end] [97, 0] 146)
    \<and> fdt_setprop_inplace_namelen_partial room_fdt (bytes []) [97] (2 ^ 32 - 4) [0, 0, 0, 9] = None"
proof -
  have v: "value_of [97, 0] [97] [Prop 0 [1, 2]] = Some [1, 2]" and l: "length room_fdt = 256"
    by (simp add: prop_name_def) code_simp
  have o: "overwrite 1 [9] [1, 2 :: 8 word] = [1, 9]" by (simp add: overwrite_def)
  show ?thesis
    using partial_write_exact [OF room_node v, of 1 "[9]"] partial_write_exact [OF room_node v, of "2 ^ 32 - 4" "[0, 0, 0, 9]"] l o
    by (simp add: prop_name_def)
qed

section \<open>A failed application\<close>




end
