(* ===== verification/Bytes.thy ===== *)
theory Bytes
  imports Prelude
begin

text \<open>
  Bytes as characters: the code of a character and the character of a code, for the components that
  compute with the bytes of a string.
\<close>

lemma chr_code_char_of [simp]: "chr_code (char_of n) = n mod 256"
  by (simp add: chr_code_def)

lemma char_of_chr_code [simp]: "char_of (chr_code c) = c"
  by (simp add: chr_code_def)

lemma chr_code_less [simp]: "chr_code c < 256"
  by (metis char_of_chr_code chr_code_char_of mod_less_divisor zero_less_numeral)

lemma char_of_inj: "(m :: nat) < 256 \<Longrightarrow> n < 256 \<Longrightarrow> char_of m = char_of n \<longleftrightarrow> m = n"
  by (metis chr_code_char_of mod_less)

lemma chr_code_int: "int (chr_code c) = of_char c"
  by (simp add: chr_code_def of_nat_of_char)

lemma chr_code_inj: "chr_code a = chr_code b \<longleftrightarrow> a = b"
  by (metis char_of_chr_code)

lemma of_char_word: "(of_char c :: 'a :: len word) = of_nat (chr_code c)"
  by (simp add: chr_code_def of_nat_of_char)

section \<open>Evaluation\<close>

text \<open>The character classes without unary numbers.\<close>

lemma c_isspace_code [code]:
  "c_isspace c \<longleftrightarrow> c \<in> set [CHR '' '', CHR 0x09, CHR 0x0A, CHR 0x0B, CHR 0x0C, CHR 0x0D]"
proof -
  have "c_isspace c \<longleftrightarrow> chr_code c \<in> {32, 9, 10, 11, 12, 13}" unfolding c_isspace_def by auto
  also have "\<dots> \<longleftrightarrow> c \<in> char_of ` {32 :: nat, 9, 10, 11, 12, 13}"
    using char_of_chr_code [of c] by (auto simp del: char_of_chr_code)
  finally show ?thesis by (simp add: char_of_def bit_Suc bit_0)
qed

lemma class_code [code]:
  "c_isdigit c \<longleftrightarrow> (let n = of_char c :: int in 48 \<le> n \<and> n \<le> 57)"
  "c_isupper c \<longleftrightarrow> (let n = of_char c :: int in 65 \<le> n \<and> n \<le> 90)"
  "c_islower c \<longleftrightarrow> (let n = of_char c :: int in 97 \<le> n \<and> n \<le> 122)"
  by (auto simp: c_isdigit_def c_isupper_def c_islower_def Let_def simp flip: chr_code_int)

section \<open>Searching\<close>

text \<open>\<open>strrchr\<close> and \<open>strstr\<close>, as positions.\<close>

fun last_pos :: "char \<Rightarrow> cstr \<Rightarrow> nat option" where
  "last_pos c [] = None"
| "last_pos c (x # xs) =
     (case last_pos c xs of Some i \<Rightarrow> Some (Suc i) | None \<Rightarrow> if x = c then Some 0 else None)"

fun find_string :: "cstr \<Rightarrow> cstr \<Rightarrow> nat option" where
  "find_string [] needle = (if needle = [] then Some 0 else None)"
| "find_string (x # xs) needle =
     (if starts_with (x # xs) needle then Some 0 else map_option Suc (find_string xs needle))"

end
