(* ===== verification/Kallsyms_Table.thy ===== *)
theory Kallsyms_Table
  imports Bytes "HOL-Library.Multiset"
begin

text \<open>
  The symbol table of \<open>kallsyms.c\<close>: the entries, what is kept of the output of \<open>nm\<close>, which symbols
  are valid, and the order in which they are written. A byte is a \<open>char\<close>. An entry has the whole
  buffer \<open>s->sym\<close>, whose first \<open>s->len\<close> bytes are the type and the name of the symbol; the byte
  behind them is NUL.
\<close>

section \<open>Data\<close>

abbreviation NUL :: char where "NUL \<equiv> CHR 0x00"

abbreviation KSYM_NAME_LEN :: nat where "KSYM_NAME_LEN \<equiv> 128"

record sym_entry =
  addr :: "64 word"
  ksym_len :: nat
  start_pos :: "32 word"
  ksym :: cstr
  percpu_absolute :: bool

record addr_range =
  start_sym :: cstr
  end_sym :: cstr
  start :: "64 word"
  range_end :: "64 word"

record ksym_opts =
  all_symbols :: bool
  absolute_percpu :: bool
  base_relative :: bool

record ksyms =
  text_addr :: "64 word"
  relative_base :: "64 word"
  text_ranges :: "addr_range list"
  percpu_range :: "addr_range list"
  table :: "sym_entry list"

text \<open>The static variables at the start of the program.\<close>

definition initial_ksyms :: ksyms where
  "initial_ksyms =
     \<lparr> text_addr = 0, relative_base = 0,
       text_ranges =
         [\<lparr> start_sym = ''_stext'', end_sym = ''_etext'', start = 0, range_end = 0 \<rparr>,
          \<lparr> start_sym = ''_sinittext'', end_sym = ''_einittext'', start = 0, range_end = 0 \<rparr>],
       percpu_range =
         [\<lparr> start_sym = ''__per_cpu_start'', end_sym = ''__per_cpu_end'', start = - 1, range_end = 0 \<rparr>],
       table = [] \<rparr>"

text \<open>The bytes of an entry that are written: its type and its name.\<close>

definition entry_bytes :: "sym_entry \<Rightarrow> cstr" where
  "entry_bytes s = take (ksym_len s) (ksym s)"

section \<open>Reading the map\<close>

definition c_toupper :: "char \<Rightarrow> char" where
  "c_toupper c = (if c_islower c then char_of (chr_code c - 32) else c)"

text \<open>
  \<open>strchr\<close> finds the terminating NUL of its string as well. The argument is the whole buffer, since
  for the name \<open>$\<close> the byte behind the terminator is read.
\<close>
definition is_arm_mapping_symbol :: "cstr \<Rightarrow> bool" where
  "is_arm_mapping_symbol str =
     (case str of
        c0 # c1 # c2 # _ \<Rightarrow>
          c0 = CHR ''$'' \<and> c1 \<in> set (''axtd'' @ [NUL]) \<and> (c2 = NUL \<or> c2 = CHR ''.'')
      | _ \<Rightarrow> False)"

text \<open>The result tells whether the symbol is none of the bounds, as the value 1 in the source.\<close>

fun check_symbol_range :: "cstr \<Rightarrow> 64 word \<Rightarrow> addr_range list \<Rightarrow> bool \<times> addr_range list" where
  "check_symbol_range name a [] = (True, [])"
| "check_symbol_range name a (ar # ranges) =
     (if name = start_sym ar then (False, ar\<lparr> start := a \<rparr> # ranges)
      else if name = end_sym ar then (False, ar\<lparr> range_end := a \<rparr> # ranges)
      else let (none, ranges') = check_symbol_range name a ranges in (none, ar # ranges'))"

text \<open>
  What \<open>fscanf\<close> returns: \<open>None\<close> when it does not convert three fields, otherwise the address, the
  type, the name and the bytes that are behind the NUL of the name in the buffer.
\<close>
type_synonym scanned = "(64 word \<times> char \<times> cstr \<times> cstr) option"

definition kept_absolute :: "cstr list" where
  "kept_absolute =
     [''__kernel_syscall_via_break'', ''__kernel_syscall_via_epc'', ''__kernel_sigtramp'', ''__gp'']"

definition ignored_symbol :: "char \<Rightarrow> cstr \<Rightarrow> cstr \<Rightarrow> bool" where
  "ignored_symbol stype name behind =
     (if c_toupper stype = CHR ''A'' then name \<notin> set kept_absolute
      else if c_toupper stype = CHR ''U'' \<or> is_arm_mapping_symbol (name @ NUL # behind) then True
      else if take 1 name = ''$'' then True
      else stype = CHR ''N'' \<or> stype = CHR ''n'')"

definition read_symbol :: "scanned \<Rightarrow> ksyms \<Rightarrow> sym_entry option \<times> ksyms" where
  "read_symbol inp k =
     (case inp of
        None \<Rightarrow> (None, k)
      | Some (a, stype, name, behind) \<Rightarrow>
          (if length name \<ge> KSYM_NAME_LEN then (None, k)
           else
             let (skip, k) =
                   (if name = ''_text'' then (False, k\<lparr> text_addr := a \<rparr>)
                    else case check_symbol_range name a (text_ranges k) of
                           (False, ranges) \<Rightarrow> (False, k\<lparr> text_ranges := ranges \<rparr>)
                         | (True, _) \<Rightarrow> (ignored_symbol stype name behind, k))
             in if skip then (None, k)
                else (Some \<lparr> addr = a, ksym_len = length name + 1, start_pos = 0,
                             ksym = stype # name @ [NUL], percpu_absolute = False \<rparr>,
                      k\<lparr> percpu_range := snd (check_symbol_range name a (percpu_range k)) \<rparr>)))"

text \<open>The argument is the list of what the calls of \<open>fscanf\<close> return until \<open>feof\<close> holds.\<close>

fun read_map :: "scanned list \<Rightarrow> ksyms \<Rightarrow> ksyms" where
  "read_map [] k = k"
| "read_map (inp # inps) k =
     (case read_symbol inp k of
        (None, k) \<Rightarrow> read_map inps k
      | (Some s, k) \<Rightarrow>
          read_map inps (k\<lparr> table := table k @ [s\<lparr> start_pos := of_nat (length (table k)) \<rparr>] \<rparr>))"

section \<open>Valid symbols\<close>

definition symbol_in_range :: "sym_entry \<Rightarrow> addr_range list \<Rightarrow> bool" where
  "symbol_in_range s ranges = list_ex (\<lambda>ar. start ar \<le> addr s \<and> addr s \<le> range_end ar) ranges"

definition special_symbols :: "cstr list" where
  "special_symbols =
     [''kallsyms_addresses'', ''kallsyms_offsets'', ''kallsyms_relative_base'', ''kallsyms_num_syms'',
      ''kallsyms_names'', ''kallsyms_markers'', ''kallsyms_token_table'', ''kallsyms_token_index'',
      ''_SDA_BASE_'', ''_SDA2_BASE_'']"

definition special_prefixes :: "cstr list" where
  "special_prefixes = [''__crc_'', ''__efistub_'']"

definition special_suffixes :: "cstr list" where
  "special_suffixes = [''_veneer'', ''_from_arm'', ''_from_thumb'']"

text \<open>The name of a symbol: \<open>sym + 1\<close> up to the NUL.\<close>

definition sym_name :: "sym_entry \<Rightarrow> cstr" where
  "sym_name s = takeWhile (\<lambda>c. c \<noteq> NUL) (drop 1 (ksym s))"

definition at_range_end :: "sym_entry \<Rightarrow> addr_range \<Rightarrow> bool" where
  "at_range_end s ar = (addr s = range_end ar \<and> sym_name s \<noteq> end_sym ar)"

definition symbol_valid :: "ksym_opts \<Rightarrow> addr_range list \<Rightarrow> sym_entry \<Rightarrow> bool" where
  "symbol_valid opts ranges s =
     (if \<not> all_symbols opts \<and> \<not> symbol_in_range s ranges then False
      else if \<not> all_symbols opts \<and> list_ex (at_range_end s) ranges then False
      else if sym_name s \<in> set special_symbols then False
      else if list_ex (\<lambda>p. length p \<le> length (sym_name s) \<and> starts_with (sym_name s) p) special_prefixes then False
      else if list_ex (\<lambda>e. length e \<le> length (sym_name s) \<and> drop (length (sym_name s) - length e) (sym_name s) = e)
                special_suffixes then False
      else True)"

section \<open>The order of the symbols\<close>

text \<open>\<open>memcmp\<close> of the bytes at \<open>symbol + off\<close> with a literal; the type is the byte before them.\<close>

definition name_bytes_at :: "sym_entry \<Rightarrow> nat \<Rightarrow> cstr \<Rightarrow> bool" where
  "name_bytes_at se off lit = (take (length lit) (drop (1 + off) (ksym se)) = lit)"

definition may_be_linker_script_provide_symbol :: "sym_entry \<Rightarrow> bool" where
  "may_be_linker_script_provide_symbol se =
     (let n = ksym_len se - 1 in
      if n < 8 then False
      else if \<not> name_bytes_at se 0 ''__'' then False
      else if name_bytes_at se 2 ''start_'' then True
      else if name_bytes_at se 2 ''stop_'' then True
      else if name_bytes_at se 2 ''end_'' then True
      else if name_bytes_at se (n - 6) ''_start'' then True
      else name_bytes_at se (n - 4) ''_end'')"

definition prefix_underscores_count :: "cstr \<Rightarrow> nat" where
  "prefix_underscores_count str = length (takeWhile (\<lambda>c. c = CHR ''_'') str)"

definition is_weak :: "sym_entry \<Rightarrow> bool" where
  "is_weak s = (take 1 (ksym s) = ''w'' \<or> take 1 (ksym s) = ''W'')"

definition compare_symbols :: "sym_entry \<Rightarrow> sym_entry \<Rightarrow> int" where
  "compare_symbols sa sb =
     (if addr sa > addr sb then 1
      else if addr sa < addr sb then - 1
      else if is_weak sa \<noteq> is_weak sb then of_bool (is_weak sa) - of_bool (is_weak sb)
      else if may_be_linker_script_provide_symbol sa \<noteq> may_be_linker_script_provide_symbol sb
      then of_bool (may_be_linker_script_provide_symbol sa) - of_bool (may_be_linker_script_provide_symbol sb)
      else if prefix_underscores_count (drop 1 (ksym sa)) \<noteq> prefix_underscores_count (drop 1 (ksym sb))
      then int (prefix_underscores_count (drop 1 (ksym sa))) - int (prefix_underscores_count (drop 1 (ksym sb)))
      else sint (start_pos sa - start_pos sb))"

text \<open>
  \<open>qsort\<close> with a comparison function. The comparison of the entries of a map is a linear order, so
  that any other sorting function has the same result.
\<close>
fun qsort_insert :: "('a \<Rightarrow> 'a \<Rightarrow> int) \<Rightarrow> 'a \<Rightarrow> 'a list \<Rightarrow> 'a list" where
  "qsort_insert cmp x [] = [x]"
| "qsort_insert cmp x (y # ys) = (if cmp x y \<le> 0 then x # y # ys else y # qsort_insert cmp x ys)"

definition c_qsort :: "('a \<Rightarrow> 'a \<Rightarrow> int) \<Rightarrow> 'a list \<Rightarrow> 'a list" where
  "c_qsort cmp xs = foldr (qsort_insert cmp) xs []"

definition sort_symbols :: "ksyms \<Rightarrow> ksyms" where
  "sort_symbols k = k\<lparr> table := c_qsort compare_symbols (table k) \<rparr>"

section \<open>Addresses\<close>

definition make_percpus_absolute :: "ksyms \<Rightarrow> ksyms" where
  "make_percpus_absolute k =
     k\<lparr> table := map (\<lambda>s. if symbol_in_range s (percpu_range k)
                         then s\<lparr> ksym := (ksym s)[0 := CHR ''A''], percpu_absolute := True \<rparr> else s) (table k) \<rparr>"

definition symbol_absolute :: "sym_entry \<Rightarrow> bool" where
  "symbol_absolute s = percpu_absolute s"

definition record_relative_base :: "ksyms \<Rightarrow> ksyms" where
  "record_relative_base k =
     k\<lparr> relative_base :=
          foldl (\<lambda>base s. if \<not> symbol_absolute s \<and> addr s < base then addr s else base) (- 1) (table k) \<rparr>"

end
