(* ===== verification/Kallsyms_Order.thy ===== *)
theory Kallsyms_Order
  imports Kallsyms_Table "HOL-Library.Product_Lexorder"
begin

text \<open>
  The order of the symbols: \<open>compare_symbols\<close> compares keys lexicographically, so that \<open>qsort\<close> of a
  table whose entries have different positions has one possible result.
\<close>

definition sort_key_of :: "sym_entry \<Rightarrow> 64 word \<times> bool \<times> bool \<times> nat \<times> nat" where
  "sort_key_of s =
     (addr s, is_weak s, may_be_linker_script_provide_symbol s, prefix_underscores_count (drop 1 (ksym s)),
      unat (start_pos s))"

definition positioned :: "sym_entry list \<Rightarrow> bool" where
  "positioned xs \<longleftrightarrow> distinct (map start_pos xs) \<and> (\<forall>s\<in>set xs. unat (start_pos s) < 2 ^ 31)"

lemma sint_diff_small:
  fixes a b :: "32 word"
  assumes "unat a < 2 ^ 31" "unat b < 2 ^ 31"
  shows "sint (a - b) \<le> 0 \<longleftrightarrow> unat a \<le> unat b"
proof -
  have u: "uint a < 2 ^ 31" "uint b < 2 ^ 31" "0 \<le> uint a" "0 \<le> uint b"
    using assms by (simp_all add: unat_eq_nat_uint nat_less_iff del: nat_uint_eq)
  have "sint (a - b) = signed_take_bit 31 (uint a - uint b)"
    using signed_take_bit_take_bit [of 31 32 "uint a - uint b"]
    by (simp add: sint_uint uint_word_ariths take_bit_eq_mod)
  also have "\<dots> = uint a - uint b"
    using u by (intro signed_take_bit_int_eq_self) linarith+
  finally show ?thesis by (simp add: unat_eq_nat_uint nat_le_eq_zle del: nat_uint_eq)
qed

lemma compare_symbols_key:
  assumes "unat (start_pos a) < 2 ^ 31" "unat (start_pos b) < 2 ^ 31"
  shows "compare_symbols a b \<le> 0 \<longleftrightarrow> sort_key_of a \<le> sort_key_of b"
proof (cases "addr a" "addr b" rule: linorder_cases)
  case equal
  then show ?thesis using assms
    by (cases "is_weak a"; cases "is_weak b"; cases "may_be_linker_script_provide_symbol a";
        cases "may_be_linker_script_provide_symbol b")
      (auto simp: compare_symbols_def sort_key_of_def sint_diff_small less_eq_prod_def)
qed (auto simp: compare_symbols_def sort_key_of_def less_eq_prod_def)

lemma sort_key_inj: "positioned xs \<Longrightarrow> inj_on sort_key_of (set xs)"
  by (simp add: positioned_def distinct_map sort_key_of_def inj_on_def word_unat_eq_iff)

lemma qsort_insert_key:
  "(\<And>y. y \<in> set ys \<Longrightarrow> cmp x y \<le> 0 \<longleftrightarrow> f x \<le> f y) \<Longrightarrow> qsort_insert cmp x ys = insort_key f x ys"
  by (induction ys) auto

lemma c_qsort_key:
  assumes "\<And>x y. x \<in> set xs \<Longrightarrow> y \<in> set xs \<Longrightarrow> cmp x y \<le> 0 \<longleftrightarrow> f x \<le> f y"
  shows "c_qsort cmp xs = sort_key f xs"
  using assms
proof (induction xs)
  case Nil
  then show ?case by (simp add: c_qsort_def)
next
  case (Cons x xs)
  then have "c_qsort cmp xs = sort_key f xs" by simp
  moreover have "qsort_insert cmp x (sort_key f xs) = insort_key f x (sort_key f xs)"
    using Cons.prems by (intro qsort_insert_key) simp
  ultimately show ?case by (simp add: c_qsort_def)
qed

lemma c_qsort_symbols: "positioned xs \<Longrightarrow> c_qsort compare_symbols xs = sort_key sort_key_of xs"
  by (rule c_qsort_key) (simp add: positioned_def compare_symbols_key)

lemma sorted_wrt_key:
  "(\<And>a b. a \<in> set xs \<Longrightarrow> b \<in> set xs \<Longrightarrow> P a b \<longleftrightarrow> f a \<le> f b) \<Longrightarrow> sorted_wrt P xs \<longleftrightarrow> sorted (map f xs)"
  by (induction xs) auto

lemma symbols_sorted_iff:
  assumes "positioned xs"
  shows "mset ys = mset xs \<and> sorted_wrt (\<lambda>a b. compare_symbols a b \<le> 0) ys \<longleftrightarrow> ys = c_qsort compare_symbols xs"
proof -
  have c: "c_qsort compare_symbols xs = sort_key sort_key_of xs" by (rule c_qsort_symbols [OF assms])
  have key: "sorted_wrt (\<lambda>a b. compare_symbols a b \<le> 0) ys \<longleftrightarrow> sorted (map sort_key_of ys)"
    if "mset ys = mset xs" for ys
    using assms mset_eq_setD [OF that]
    by (intro sorted_wrt_key) (auto simp: positioned_def compare_symbols_key)
  show ?thesis
  proof (intro iffI conjI)
    assume ys: "mset ys = mset xs \<and> sorted_wrt (\<lambda>a b. compare_symbols a b \<le> 0) ys"
    have "sort_key sort_key_of xs = ys"
      using ys key sort_key_inj [OF assms] by (intro sort_key_inj_key_eq) auto
    then show "ys = c_qsort compare_symbols xs" using c by simp
  qed (simp_all add: c key)
qed

end
