(* ===== verification/Kallsyms_Compress.thy ===== *)
theory Kallsyms_Compress
  imports Kallsyms_Table
begin

text \<open>
  The table compression of \<open>kallsyms.c\<close>: the counts of the pairs of bytes, the replacement of a pair
  by a code in the buffer of a symbol, and the greedy choice of the pairs. \<open>best_table\<close> maps a code
  to two bytes, of which \<open>best_table_len\<close> are used.
\<close>

section \<open>The code\<close>

record compressor =
  best_table :: "char \<Rightarrow> char \<times> char"
  best_table_len :: "char \<Rightarrow> nat"
  token_profit :: "nat \<Rightarrow> int"
  symbols :: "sym_entry list"

text \<open>The index of a pair in \<open>token_profit\<close>, and the two bytes of an index.\<close>

definition pair_index :: "char \<Rightarrow> char \<Rightarrow> nat" where
  "pair_index a b = chr_code a + chr_code b * 256"

definition index_pair :: "nat \<Rightarrow> char \<times> char" where
  "index_pair i = (char_of (i mod 256), char_of (i div 256 mod 256))"

fun learn_symbol :: "cstr \<Rightarrow> nat \<Rightarrow> (nat \<Rightarrow> int) \<Rightarrow> nat \<Rightarrow> int" where
  "learn_symbol (a # b # s) (Suc (Suc n)) tp =
     learn_symbol (b # s) (Suc n) (tp(pair_index a b := tp (pair_index a b) + 1))"
| "learn_symbol _ _ tp = tp"

fun forget_symbol :: "cstr \<Rightarrow> nat \<Rightarrow> (nat \<Rightarrow> int) \<Rightarrow> nat \<Rightarrow> int" where
  "forget_symbol (a # b # s) (Suc (Suc n)) tp =
     forget_symbol (b # s) (Suc n) (tp(pair_index a b := tp (pair_index a b) - 1))"
| "forget_symbol _ _ tp = tp"

text \<open>The symbols that are not valid are removed, the others are counted.\<close>

fun build_initial_tok_table :: "(sym_entry \<Rightarrow> bool) \<Rightarrow> sym_entry list \<Rightarrow> (nat \<Rightarrow> int)
    \<Rightarrow> sym_entry list \<times> (nat \<Rightarrow> int)" where
  "build_initial_tok_table valid [] tp = ([], tp)"
| "build_initial_tok_table valid (s # ss) tp =
     (if valid s
      then let (kept, tp) = build_initial_tok_table valid ss (learn_symbol (ksym s) (ksym_len s) tp)
           in (s # kept, tp)
      else build_initial_tok_table valid ss tp)"

text \<open>The position of the pair in the first bytes of a string.\<close>

fun find_token :: "cstr \<Rightarrow> nat \<Rightarrow> char \<times> char \<Rightarrow> nat option" where
  "find_token (a # b # s) (Suc (Suc n)) t =
     (if a = fst t \<and> b = snd t then Some 0 else map_option Suc (find_token (b # s) (Suc n) t))"
| "find_token _ _ t = None"

definition buf_move :: "cstr \<Rightarrow> nat \<Rightarrow> nat \<Rightarrow> nat \<Rightarrow> cstr" where
  "buf_move buf dst src n = take dst buf @ take n (drop src buf) @ drop (dst + n) buf"

text \<open>
  The inner loop of \<open>compress_symbols\<close>. The pointer \<open>p2\<close> is \<open>p1 + j\<close>; \<open>size\<close> is the number of bytes
  from \<open>p1\<close> that are searched, which counts the NUL bytes that the moves bring in.
\<close>
function replace_tokens :: "cstr \<Rightarrow> nat \<Rightarrow> nat \<Rightarrow> nat \<Rightarrow> char \<Rightarrow> char \<times> char \<Rightarrow> nat \<Rightarrow> cstr \<times> nat" where
  "replace_tokens buf p1 sz len idx t j =
     (let buf = buf[p1 + j := idx];
          p2 = p1 + j + 1;
          sz' = sz - (j + 1);
          buf = buf_move buf p2 (p2 + 1) sz';
          len = len - 1
      in if sz' < 2 then (buf, len)
         else case find_token (drop p2 buf) sz' t of
                None \<Rightarrow> (buf, len)
              | Some j' \<Rightarrow> replace_tokens buf p2 sz' len idx t j')"
  by auto
termination by (relation "measure (\<lambda>(buf, p1, sz, len, idx, t, j). sz)") auto

declare replace_tokens.simps [simp del]

definition compress_symbol :: "char \<times> char \<Rightarrow> char \<Rightarrow> sym_entry \<Rightarrow> (nat \<Rightarrow> int)
    \<Rightarrow> sym_entry \<times> (nat \<Rightarrow> int)" where
  "compress_symbol t idx s tp =
     (case find_token (ksym s) (ksym_len s) t of
        None \<Rightarrow> (s, tp)
      | Some j \<Rightarrow>
          let tp = forget_symbol (ksym s) (ksym_len s) tp;
              (buf, len) = replace_tokens (ksym s) 0 (ksym_len s) (ksym_len s) idx t j
          in (s\<lparr> ksym := buf, ksym_len := len \<rparr>, learn_symbol buf len tp))"

fun compress_symbols :: "char \<times> char \<Rightarrow> char \<Rightarrow> sym_entry list \<Rightarrow> (nat \<Rightarrow> int)
    \<Rightarrow> sym_entry list \<times> (nat \<Rightarrow> int)" where
  "compress_symbols t idx [] tp = ([], tp)"
| "compress_symbols t idx (s # ss) tp =
     (let (s, tp) = compress_symbol t idx s tp; (ss, tp) = compress_symbols t idx ss tp in (s # ss, tp))"

definition find_best_token :: "(nat \<Rightarrow> int) \<Rightarrow> nat" where
  "find_best_token tp =
     fst (foldl (\<lambda>(best, bestprofit) i. if tp i > bestprofit then (i, tp i) else (best, bestprofit))
            (0, - 10000) [0..<65536])"

definition place_token :: "nat \<Rightarrow> char \<Rightarrow> compressor \<Rightarrow> compressor" where
  "place_token best i c =
     (let tab = (best_table c)(i := index_pair best);
          (syms, tp) = compress_symbols (tab i) i (symbols c) (token_profit c)
      in c\<lparr> best_table := tab, best_table_len := (best_table_len c)(i := 2),
            token_profit := tp, symbols := syms \<rparr>)"

text \<open>The loop over the codes \<open>n - 1\<close> down to 0.\<close>

fun optimize_from :: "nat \<Rightarrow> compressor \<Rightarrow> compressor" where
  "optimize_from 0 c = c"
| "optimize_from (Suc n) c =
     (if best_table_len c (char_of n) = 0
      then let best = find_best_token (token_profit c)
           in if token_profit c best = 0 then c
              else optimize_from n (place_token best (char_of n) c)
      else optimize_from n c)"

definition optimize_result :: "compressor \<Rightarrow> compressor" where
  "optimize_result c = optimize_from 256 c"

definition insert_real_symbols_in_table :: "compressor \<Rightarrow> compressor" where
  "insert_real_symbols_in_table c =
     foldl (\<lambda>c s. foldl (\<lambda>c ch. c\<lparr> best_table := (best_table c)(ch := (ch, snd (best_table c ch))),
                                   best_table_len := (best_table_len c)(ch := 1) \<rparr>)
                    c (take (ksym_len s) (ksym s)))
       c (symbols c)"

text \<open>The static tables before the symbols are put in.\<close>

definition empty_tables :: "(nat \<Rightarrow> int) \<Rightarrow> sym_entry list \<Rightarrow> compressor" where
  "empty_tables tp kept =
     \<lparr> best_table = \<lambda>_. (NUL, NUL), best_table_len = \<lambda>_. 0, token_profit = tp, symbols = kept \<rparr>"

text \<open>\<open>None\<close> is the exit when no symbol is valid.\<close>

definition optimize_token_table :: "(sym_entry \<Rightarrow> bool) \<Rightarrow> sym_entry list \<Rightarrow> compressor option" where
  "optimize_token_table valid tab =
     (let (kept, tp) = build_initial_tok_table valid tab (\<lambda>_. 0);
          c = insert_real_symbols_in_table (empty_tables tp kept)
      in if symbols c = [] then None else Some (optimize_result c))"

text \<open>The bytes of a slot of the table.\<close>

definition slot :: "compressor \<Rightarrow> char \<Rightarrow> cstr" where
  "slot c ch = take (best_table_len c ch) [fst (best_table c ch), snd (best_table c ch)]"

text \<open>\<open>expand_symbol\<close> returns the bytes it stores at \<open>result\<close>; it has no bound on its recursion.\<close>

partial_function (option) expand_symbol :: "compressor \<Rightarrow> cstr \<Rightarrow> cstr option" where
  "expand_symbol c data =
     (case data of
        [] \<Rightarrow> Some []
      | ch # rest \<Rightarrow>
          do {
            r \<leftarrow> (if fst (best_table c ch) = ch \<and> best_table_len c ch = 1 then Some [ch]
                  else expand_symbol c (slot c ch));
            rs \<leftarrow> expand_symbol c rest;
            Some (r @ rs)
          })"

section \<open>Replacing in the buffer\<close>

text \<open>What the replacement of a pair means for the bytes of a symbol.\<close>

fun squeeze :: "char \<times> char \<Rightarrow> char \<Rightarrow> cstr \<Rightarrow> cstr" where
  "squeeze t idx (a # b # s) = (if a = fst t \<and> b = snd t then idx # squeeze t idx s else a # squeeze t idx (b # s))"
| "squeeze t idx s = s"

text \<open>A buffer that holds a string and only NUL bytes behind it.\<close>

definition padded :: "cstr \<Rightarrow> cstr \<Rightarrow> bool" where
  "padded buf s \<longleftrightarrow> (\<exists>n. buf = s @ replicate (Suc n) NUL) \<and> NUL \<notin> set s"

lemma squeeze_short: "length s < 2 \<Longrightarrow> squeeze t idx s = s"
  by (cases s rule: remdups_adj.cases) auto

lemma find_token_None: "find_token s (length s) t = None \<Longrightarrow> squeeze t idx s = s"
  by (induction s rule: induct_list012) (auto split: if_splits)

lemma find_token_Some:
  "find_token s (length s) t = Some j \<Longrightarrow>
     \<exists>A B. s = A @ fst t # snd t # B \<and> length A = j \<and> squeeze t idx s = A @ idx # squeeze t idx B"
proof (induction s arbitrary: j rule: induct_list012)
  case (3 a b s)
  show ?case
  proof (cases "a = fst t \<and> b = snd t")
    case True
    then show ?thesis using 3(3) by (intro exI [of _ "[]"] exI [of _ s]) simp
  next
    case False
    then obtain k where k: "find_token (b # s) (length (b # s)) t = Some k" "j = Suc k"
      using 3(3) by auto
    then obtain A B where "b # s = A @ fst t # snd t # B" "length A = k" "squeeze t idx (b # s) = A @ idx # squeeze t idx B"
      using 3(2) by blast
    then have "a # b # s = (a # A) @ fst t # snd t # B" "length (a # A) = j"
      "squeeze t idx (a # b # s) = (a # A) @ idx # squeeze t idx B"
      using False k by (simp, simp, subst squeeze.simps(1), metis append_Cons)
    then show ?thesis by blast
  qed
qed auto

text \<open>The NUL bytes behind the string never match.\<close>

lemma find_token_NULs: "snd t \<noteq> NUL \<Longrightarrow> find_token (replicate m NUL) n t = None"
proof (induction m arbitrary: n)
  case (Suc m)
  then show ?case by (cases m; cases n; cases "n - 1") auto
qed simp

lemma find_token_padded:
  "snd t \<noteq> NUL \<Longrightarrow> length s \<le> n \<Longrightarrow> find_token (s @ replicate m NUL) n t = find_token s (length s) t"
proof (induction s arbitrary: n rule: induct_list012)
  case (2 a)
  then show ?case using find_token_NULs [of t m "n - 1"] by (cases m; cases n; cases "n - 1") auto
next
  case (3 a b s)
  then obtain n' where "n = Suc (Suc n')" by (cases n; cases "n - 1") auto
  then show ?case using 3 by auto
qed (simp add: find_token_NULs)

lemma buf_move_padded:
  assumes "length B < n" "n \<le> length B + Suc m"
  shows "buf_move (pre @ c # B @ replicate (Suc m) NUL) (length pre) (length pre + 1) n
    = pre @ B @ replicate (Suc (Suc m)) NUL"
proof -
  obtain k where n: "n = length B + Suc k" using assms(1) less_iff_Suc_add by auto
  then have "Suc k + (Suc m - k) = Suc (Suc m)" using assms(2) by simp
  then have "replicate (Suc k) NUL @ replicate (Suc m - k) NUL = replicate (Suc (Suc m)) NUL"
    by (metis replicate_add)
  then show ?thesis using assms n by (simp add: buf_move_def min_def del: replicate_Suc)
qed

lemma replace_tokens_correct:
  assumes "find_token s (length s) t = Some j" "snd t \<noteq> NUL"
    and "length s \<le> sz" "sz \<le> length s + m"
  shows "\<exists>m'. replace_tokens (pre @ s @ replicate (Suc m) NUL) (length pre) sz (length (pre @ s)) idx t j =
     (pre @ squeeze t idx s @ replicate (Suc m') NUL, length (pre @ squeeze t idx s))
     \<and> length (squeeze t idx s) + m' = length s + m"
  using assms
proof (induction s arbitrary: pre sz m j rule: length_induct)
  case (1 s)
  let ?buf = "pre @ s @ replicate (Suc m) NUL"
  obtain A B where s: "s = A @ fst t # snd t # B" "length A = j" and sq: "squeeze t idx s = A @ idx # squeeze t idx B"
    using find_token_Some [OF 1(2)] by blast
  let ?pre = "pre @ A @ [idx]" and ?sz = "sz - (j + 1)"
  have sz: "length B < ?sz" "?sz \<le> length B + Suc m" using 1(4,5) s by simp_all
  have p: "length pre + j + 1 = length ?pre" using s by simp
  have "?buf[length pre + j := idx] = ?pre @ snd t # B @ replicate (Suc m) NUL"
    using s by (simp add: list_update_append del: replicate_Suc)
  then have buf: "buf_move (?buf[length pre + j := idx]) (length pre + j + 1) (length pre + j + 1 + 1) ?sz
      = ?pre @ B @ replicate (Suc (Suc m)) NUL"
    unfolding p using buf_move_padded [OF sz, of ?pre "snd t"] by simp
  have len: "length (pre @ s) - 1 = length (?pre @ B)" using s by simp
  note step = replace_tokens.simps [of ?buf "length pre" sz "length (pre @ s)" idx t j, unfolded Let_def buf len]
  have tok: "find_token (drop (length pre + j + 1) (?pre @ B @ replicate (Suc (Suc m)) NUL)) ?sz t = find_token B (length B) t"
    using find_token_padded [of t B ?sz "Suc (Suc m)"] 1(3) s sz by simp
  show ?case
  proof (cases "?sz < 2 \<or> find_token B (length B) t = None")
    case True
    then have "squeeze t idx B = B" using find_token_None [of B t idx] sz by (auto simp: squeeze_short)
    then show ?thesis using True step tok sq s by (intro exI [of _ "Suc m"]) auto
  next
    case False
    then obtain j' where j': "find_token B (length B) t = Some j'" by auto
    obtain m' where "replace_tokens (?pre @ B @ replicate (Suc (Suc m)) NUL) (length ?pre) ?sz (length (?pre @ B)) idx t j' =
        (?pre @ squeeze t idx B @ replicate (Suc m') NUL, length (?pre @ squeeze t idx B))"
      and "length (squeeze t idx B) + m' = length B + Suc m"
      using 1(1) [rule_format, OF _ j' 1(3), of ?sz "Suc m" ?pre] s sz by auto
    then show ?thesis using False step tok j' sq s p by (intro exI [of _ m']) auto
  qed
qed

end
