(* ===== verification/Kallsyms_Greedy.thy ===== *)
theory Kallsyms_Greedy
  imports Kallsyms_Compress
begin

text \<open>
  The abstract view of the table compression: the symbols are words, and each free code from 255
  down stands for the most frequent pair of adjacent codes. The counts of the program are exact, so
  that what it builds is what this greedy procedure builds.
\<close>

section \<open>The specification\<close>

definition pairs :: "cstr \<Rightarrow> (char \<times> char) list" where
  "pairs s = zip s (tl s)"

definition frequency :: "char \<times> char \<Rightarrow> cstr list \<Rightarrow> nat" where
  "frequency p ws = sum_list (map (\<lambda>w. count_list (pairs w) p) ws)"

definition better :: "cstr list \<Rightarrow> char \<times> char \<Rightarrow> char \<times> char \<Rightarrow> bool" where
  "better ws p q =
     (let m = frequency p ws; n = frequency q ws
      in n < m \<or> n = m \<and> pair_index (fst p) (snd p) \<le> pair_index (fst q) (snd q))"

definition best_pair :: "cstr list \<Rightarrow> (char \<times> char) option" where
  "best_pair ws =
     (case remdups (concat (map pairs ws)) of
        [] \<Rightarrow> None
      | p # ps \<Rightarrow> Some (foldl (\<lambda>p q. if better ws p q then p else q) p ps))"

fun greedy :: "nat \<Rightarrow> (char \<Rightarrow> bool) \<Rightarrow> cstr list \<Rightarrow> (char \<Rightarrow> (char \<times> char) option)
    \<Rightarrow> cstr list \<times> (char \<Rightarrow> (char \<times> char) option)" where
  "greedy 0 used ws dict = (ws, dict)"
| "greedy (Suc n) used ws dict =
     (if used (char_of n) then greedy n used ws dict
      else case best_pair ws of
             None \<Rightarrow> (ws, dict)
           | Some p \<Rightarrow> greedy n used (map (squeeze p (char_of n)) ws) (dict(char_of n := Some p)))"

section \<open>Pairs and their indices\<close>

lemma NUL_char_of: "n < 256 \<Longrightarrow> char_of n = NUL \<longleftrightarrow> n = (0 :: nat)"
proof -
  have "NUL = char_of (0 :: nat)" by code_simp
  then show "n < 256 \<Longrightarrow> char_of n = NUL \<longleftrightarrow> n = 0" using char_of_inj [of n 0] by simp
qed

lemma pair_index_less: "pair_index a b < 65536"
  using chr_code_less [of a] chr_code_less [of b] unfolding pair_index_def by linarith

lemma index_pair_index [simp]: "index_pair (pair_index a b) = (a, b)"
  by (simp add: index_pair_def pair_index_def del: char_of_mod_256)

lemma pair_index_pair [simp]: "k < 65536 \<Longrightarrow> pair_index (fst (index_pair k)) (snd (index_pair k)) = k"
  by (simp add: index_pair_def pair_index_def less_mult_imp_div_less)

lemma index_pair_eq: "k < 65536 \<Longrightarrow> (a, b) = index_pair k \<longleftrightarrow> k = pair_index a b"
  by (metis fst_conv index_pair_index pair_index_pair snd_conv)

lemma pairs_simps [simp]: "pairs [] = []" "pairs [a] = []" "pairs (a # b # s) = (a, b) # pairs (b # s)"
  by (simp_all add: pairs_def)

lemma learn_symbol_take: "learn_symbol s n tp = learn_symbol (take n s) (length (take n s)) tp"
proof (induction s n tp rule: learn_symbol.induct, goal_cases)
  case (5 uu)
  then show ?case by (cases uu) auto
qed (auto simp: take_Cons' simp del: fun_upd_apply)

lemma learn_symbol_counts:
  "k < 65536 \<Longrightarrow> learn_symbol s (length s) tp k = tp k + int (count_list (pairs s) (index_pair k))"
  by (induction s arbitrary: tp rule: induct_list012) (auto simp: index_pair_eq)

lemma forget_symbol_take: "forget_symbol s n tp = forget_symbol (take n s) (length (take n s)) tp"
proof (induction s n tp rule: forget_symbol.induct, goal_cases)
  case (5 uu)
  then show ?case by (cases uu) auto
qed (auto simp: take_Cons' simp del: fun_upd_apply)

lemma forget_symbol_counts:
  "k < 65536 \<Longrightarrow> forget_symbol s (length s) tp k = tp k - int (count_list (pairs s) (index_pair k))"
  by (induction s arbitrary: tp rule: induct_list012) (auto simp: index_pair_eq)

section \<open>The counts\<close>

text \<open>An entry whose buffer holds a word, with NUL bytes behind it or with bytes that do not matter.\<close>

definition padded_entry :: "sym_entry \<Rightarrow> cstr \<Rightarrow> bool" where
  "padded_entry s w \<longleftrightarrow> padded (ksym s) w \<and> ksym_len s = length w"

definition entry_holds :: "sym_entry \<Rightarrow> cstr \<Rightarrow> bool" where
  "entry_holds s w \<longleftrightarrow> entry_bytes s = w \<and> ksym_len s = length w"

definition counted :: "(nat \<Rightarrow> int) \<Rightarrow> cstr list \<Rightarrow> bool" where
  "counted tp ws \<longleftrightarrow> (\<forall>k<65536. tp k = int (frequency (index_pair k) ws))"

lemma padded_take [simp]: "padded buf s \<Longrightarrow> take (length s) buf = s"
  by (auto simp: padded_def)

lemma padded_holds: "padded_entry s w \<Longrightarrow> entry_holds s w"
  by (simp add: padded_entry_def entry_holds_def entry_bytes_def)

lemma frequency_simps [simp]:
  "frequency p [] = 0" "frequency p (w # ws) = count_list (pairs w) p + frequency p ws"
  by (simp_all add: frequency_def)

lemma frequency_pos: "0 < frequency p ws \<longleftrightarrow> p \<in> set (concat (map pairs ws))"
  by (induction ws) (auto simp: count_list_0_iff simp flip: neq0_conv)

lemma build_initial_tok_table_eq:
  "build_initial_tok_table valid ss tp = (kept, tp') \<Longrightarrow>
     kept = filter valid ss \<and> (\<forall>k<65536. tp' k = tp k + int (frequency (index_pair k) (map entry_bytes kept)))"
proof (induction ss arbitrary: tp kept)
  case (Cons s ss)
  show ?case
  proof (cases "valid s")
    case True
    then obtain kept' where "build_initial_tok_table valid ss (learn_symbol (ksym s) (ksym_len s) tp) = (kept', tp')"
      and k: "kept = s # kept'"
      using Cons.prems by (auto simp: Let_def split: prod.splits)
    from Cons.IH [OF this(1)] show ?thesis
      using True k learn_symbol_counts [of _ "entry_bytes s" tp] learn_symbol_take [of "ksym s" "ksym_len s" tp]
      by (simp add: entry_bytes_def)
  next
    case False
    then show ?thesis using Cons by simp
  qed
qed simp

lemma compress_symbol_correct:
  assumes "padded_entry s w" "snd t \<noteq> NUL" "compress_symbol t idx s tp = (s', tp')"
  shows "entry_holds s' (squeeze t idx w) \<and> (idx \<noteq> NUL \<longrightarrow> padded_entry s' (squeeze t idx w))
    \<and> (\<forall>k<65536. tp' k = tp k - int (count_list (pairs w) (index_pair k))
         + int (count_list (pairs (squeeze t idx w)) (index_pair k)))"
proof -
  obtain n where w: "ksym s = w @ replicate (Suc n) NUL" "NUL \<notin> set w" "ksym_len s = length w"
    using assms(1) by (auto simp: padded_entry_def padded_def)
  have f: "find_token (ksym s) (ksym_len s) t = find_token w (length w) t"
    using find_token_padded [OF assms(2), of w "length w" "Suc n"] w by simp
  show ?thesis
  proof (cases "find_token w (length w) t")
    case None
    then show ?thesis using assms(1,3) f find_token_None [OF None, of idx] padded_holds [OF assms(1)]
      by (auto simp: compress_symbol_def)
  next
    case (Some j)
    obtain m where r: "replace_tokens (ksym s) 0 (ksym_len s) (ksym_len s) idx t j =
        (squeeze t idx w @ replicate (Suc m) NUL, length (squeeze t idx w))"
      using replace_tokens_correct [OF Some assms(2), of "length w" n "[]"] w by auto
    have "idx \<noteq> NUL \<longrightarrow> NUL \<notin> set (squeeze t idx w)"
      using w(2) by (induction w rule: induct_list012) auto
    then show ?thesis
      using assms(3) f Some r w forget_symbol_counts [of _ w tp] forget_symbol_take [of "ksym s" "ksym_len s" tp]
        learn_symbol_counts [of _ "squeeze t idx w" "forget_symbol w (length w) tp"]
        learn_symbol_take [of "squeeze t idx w @ replicate (Suc m) NUL" "length (squeeze t idx w)" "forget_symbol w (length w) tp"]
      by (auto simp: compress_symbol_def entry_holds_def entry_bytes_def padded_entry_def padded_def)
  qed
qed

lemma compress_symbols_correct:
  assumes "list_all2 padded_entry ss ws" "snd t \<noteq> NUL" "compress_symbols t idx ss tp = (ss', tp')"
  shows "list_all2 entry_holds ss' (map (squeeze t idx) ws)
    \<and> (idx \<noteq> NUL \<longrightarrow> list_all2 padded_entry ss' (map (squeeze t idx) ws))
    \<and> (\<forall>k<65536. tp' k = tp k - int (frequency (index_pair k) ws)
         + int (frequency (index_pair k) (map (squeeze t idx) ws)))"
  using assms(1,3)
proof (induction ss ws arbitrary: tp ss' rule: list_all2_induct)
  case (Cons s ss w ws)
  obtain s1 tp1 ss1 where "compress_symbol t idx s tp = (s1, tp1)"
    "compress_symbols t idx ss tp1 = (ss1, tp')" and ss': "ss' = s1 # ss1"
    using Cons.prems by (auto split: prod.splits)
  from compress_symbol_correct [OF Cons.hyps(1) assms(2) this(1)] Cons.IH [OF this(2)]
  show ?case unfolding ss' by auto
qed auto

section \<open>The choice of a pair\<close>

lemma find_best_token_upto:
  fixes tp :: "nat \<Rightarrow> int"
  assumes "\<forall>k\<le>n. 0 \<le> tp k"
  shows "\<exists>b. foldl (\<lambda>(best, bestprofit) i. if tp i > bestprofit then (i, tp i) else (best, bestprofit))
      (0, - 10000) [0..<Suc n] = (b, tp b) \<and> b \<le> n \<and> (\<forall>i\<le>n. tp i \<le> tp b \<and> (i < b \<longrightarrow> tp i < tp b))"
  using assms
proof (induction n)
  case 0
  then show ?case by auto
next
  case (Suc n)
  then obtain b where "foldl (\<lambda>(best, bestprofit) i. if tp i > bestprofit then (i, tp i) else (best, bestprofit))
      (0, - 10000) [0..<Suc n] = (b, tp b)"
    and b: "b \<le> n" "\<forall>i\<le>n. tp i \<le> tp b \<and> (i < b \<longrightarrow> tp i < tp b)"
    by auto
  then have f: "foldl (\<lambda>(best, bestprofit) i. if tp i > bestprofit then (i, tp i) else (best, bestprofit))
      (0, - 10000) [0..<Suc (Suc n)] = (if tp (Suc n) > tp b then (Suc n, tp (Suc n)) else (b, tp b))"
    by (simp add: upt_Suc_append [of 0 "Suc n"] del: upt_Suc)
  have i: "i = Suc n \<or> i \<le> n \<and> tp i \<le> tp b \<and> (i < b \<longrightarrow> tp i < tp b)" if "i \<le> Suc n" for i
    using b that by (cases "i = Suc n") auto
  show ?case
  proof (cases "tp b < tp (Suc n)")
    case True
    have "tp i \<le> tp (Suc n) \<and> (i < Suc n \<longrightarrow> tp i < tp (Suc n))" if "i \<le> Suc n" for i
      using i [OF that] True by auto
    then show ?thesis using f True by auto
  next
    case False
    have "tp i \<le> tp b \<and> (i < b \<longrightarrow> tp i < tp b)" if "i \<le> Suc n" for i
      using i [OF that] False b(1) by auto
    then show ?thesis using f False b(1) by auto
  qed
qed

lemma find_best_token_max:
  assumes "counted tp ws"
  defines "b \<equiv> find_best_token tp"
  shows "b < 65536" "k < 65536 \<Longrightarrow> tp k \<le> tp b" "k < b \<Longrightarrow> tp k < tp b"
proof -
  have u: "[0..<65536] = [0..<Suc 65535]" by simp
  have nn: "\<forall>k\<le>65535. 0 \<le> tp k" using assms(1) by (simp add: counted_def)
  from find_best_token_upto [OF nn] obtain b' where b': "b = b'" "b' \<le> 65535"
      "\<forall>i\<le>65535. tp i \<le> tp b' \<and> (i < b' \<longrightarrow> tp i < tp b')"
    unfolding b_def find_best_token_def u by force
  then show "b < 65536" "k < 65536 \<Longrightarrow> tp k \<le> tp b" "k < b \<Longrightarrow> tp k < tp b" by auto
qed

text \<open>The comparison of two pairs without numbers in unary notation.\<close>

lemma better_code [code]:
  "better ws p q =
     (let m = frequency p ws; n = frequency q ws
      in n < m \<or> n = m \<and> ((of_char (snd p) :: int) < of_char (snd q) \<or> snd p = snd q \<and> (of_char (fst p) :: int) \<le> of_char (fst q)))"
proof -
  have "pair_index (fst p) (snd p) \<le> pair_index (fst q) (snd q) \<longleftrightarrow>
      chr_code (snd p) < chr_code (snd q) \<or> chr_code (snd p) = chr_code (snd q) \<and> chr_code (fst p) \<le> chr_code (fst q)"
    unfolding pair_index_def
    using chr_code_less [of "fst p"] chr_code_less [of "fst q"] by linarith
  then show ?thesis by (simp add: better_def chr_code_inj flip: chr_code_int)
qed

lemma better_refl [simp]: "better ws p p"
  by (simp add: better_def)

lemma better_trans: "better ws p q \<Longrightarrow> better ws q r \<Longrightarrow> better ws p r"
  by (auto simp: better_def Let_def)

lemma better_total: "better ws p q \<or> better ws q p"
  by (auto simp: better_def Let_def)

lemma foldl_better:
  defines "pick \<equiv> \<lambda>ws p q. if better ws p q then p else q"
  shows "foldl (pick ws) p ps \<in> insert p (set ps) \<and> (\<forall>q\<in>insert p (set ps). better ws (foldl (pick ws) p ps) q)"
proof (induction ps arbitrary: p)
  case (Cons q ps)
  then show ?case using better_trans better_total unfolding pick_def by (smt (verit) foldl_Cons insert_iff list.simps(15))
qed simp

lemma best_pair_None: "best_pair ws = None \<longleftrightarrow> (\<forall>p. frequency p ws = 0)"
proof -
  have "best_pair ws = None \<longleftrightarrow> remdups (concat (map pairs ws)) = []"
    unfolding best_pair_def
    by (cases "remdups (concat (map pairs ws))"; simp only: list.case list.distinct option.distinct simp_thms)
  also have "\<dots> \<longleftrightarrow> (\<forall>p. p \<notin> set (concat (map pairs ws)))"
    unfolding remdups_eq_nil_iff by (metis empty_iff last_in_set set_empty)
  finally show ?thesis using frequency_pos [of _ ws] by (metis gr0I less_irrefl)
qed

lemma best_pair_Some:
  assumes "best_pair ws = Some p"
  shows "p \<in> set (concat (map pairs ws))" "better ws p q"
proof -
  obtain r rs where r: "remdups (concat (map pairs ws)) = r # rs"
    and p: "p = foldl (\<lambda>p q. if better ws p q then p else q) r rs"
    using assms by (auto simp: best_pair_def split: list.splits)
  have s: "insert r (set rs) = set (concat (map pairs ws))" using r by (metis list.simps(15) set_remdups)
  show m: "p \<in> set (concat (map pairs ws))" using foldl_better [of ws r rs] unfolding p s by blast
  show "better ws p q"
  proof (cases "q \<in> set (concat (map pairs ws))")
    case True
    then show ?thesis using foldl_better [of ws r rs] unfolding p s by blast
  next
    case False
    then have "frequency q ws < frequency p ws" using m frequency_pos [of p ws] frequency_pos [of q ws] by simp
    then show ?thesis by (simp add: better_def Let_def)
  qed
qed

lemma find_best_token_pair:
  assumes c: "counted tp ws"
  shows "best_pair ws = (if tp (find_best_token tp) = 0 then None else Some (index_pair (find_best_token tp)))"
proof (cases "best_pair ws")
  case None
  then have "tp (find_best_token tp) = 0"
    using c find_best_token_max(1) [OF c] best_pair_None [THEN iffD1, OF None, rule_format]
    by (simp add: counted_def)
  then show ?thesis using None by simp
next
  case (Some p)
  let ?b = "find_best_token tp" and ?k = "pair_index (fst p) (snd p)"
  note m = find_best_token_max [OF c]
  have k: "?k < 65536" "tp ?k = int (frequency p ws)" "tp ?b = int (frequency (index_pair ?b) ws)"
    using c m(1) pair_index_less by (simp_all add: counted_def)
  have "0 < frequency p ws" using best_pair_Some(1) [OF Some] frequency_pos [of p ws] by simp
  then have "tp ?b \<noteq> 0" using m(2) [OF k(1)] k(2) by simp
  moreover have "?k \<le> ?b" "\<not> ?k < ?b"
    using best_pair_Some(2) [OF Some, of "index_pair ?b"] m(2) [OF k(1)] m(3) [of ?k] k m(1)
    by (auto simp: better_def Let_def)
  then have "?k = ?b" by simp
  ultimately show ?thesis using Some by (metis index_pair_index prod.collapse)
qed

section \<open>The loop over the codes\<close>

definition dict_of :: "compressor \<Rightarrow> char \<Rightarrow> (char \<times> char) option" where
  "dict_of c ch = (if best_table_len c ch = 2 then Some (best_table c ch) else None)"

text \<open>The state before the loop reaches the code \<open>n - 1\<close>. Only the code 0 puts NUL bytes into a word.\<close>

definition compresses :: "nat \<Rightarrow> compressor \<Rightarrow> cstr list \<Rightarrow> bool" where
  "compresses n c ws \<longleftrightarrow> list_all2 entry_holds (symbols c) ws \<and> counted (token_profit c) ws
     \<and> (0 < n \<longrightarrow> list_all2 padded_entry (symbols c) ws)"

lemma pairs_mem: "(a, b) \<in> set (pairs w) \<Longrightarrow> a \<in> set w \<and> b \<in> set w"
  by (induction w rule: induct_list012) auto

lemma padded_no_NUL: "list_all2 padded_entry ss ws \<Longrightarrow> w \<in> set ws \<Longrightarrow> NUL \<notin> set w"
  by (induction ss ws rule: list_all2_induct) (auto simp: padded_entry_def padded_def)

lemma best_pair_mem:
  assumes "best_pair ws = Some p"
  obtains w where "w \<in> set ws" "fst p \<in> set w" "snd p \<in> set w"
proof -
  obtain w where "w \<in> set ws" "p \<in> set (pairs w)" using best_pair_Some(1) [OF assms] by auto
  then show ?thesis using that pairs_mem [of "fst p" "snd p" w] by auto
qed

lemma place_token_compresses:
  assumes "compresses (Suc n) c ws" "n < 256" "best_pair ws = Some p" "p = index_pair best"
  shows "compresses n (place_token best (char_of n) c) (map (squeeze p (char_of n)) ws)"
proof -
  have pad: "list_all2 padded_entry (symbols c) ws" and c: "counted (token_profit c) ws"
    using assms(1) by (simp_all add: compresses_def)
  have "snd p \<noteq> NUL" using best_pair_mem [OF assms(3)] padded_no_NUL [OF pad] by metis
  moreover obtain ss tp where e: "compress_symbols p (char_of n) (symbols c) (token_profit c) = (ss, tp)"
    by fastforce
  ultimately have s: "list_all2 entry_holds ss (map (squeeze p (char_of n)) ws)"
      "char_of n \<noteq> NUL \<longrightarrow> list_all2 padded_entry ss (map (squeeze p (char_of n)) ws)"
      "counted tp (map (squeeze p (char_of n)) ws)"
    using compress_symbols_correct [OF pad _ e] c by (simp_all add: counted_def)
  moreover have "0 < n \<Longrightarrow> char_of n \<noteq> NUL" using NUL_char_of [of n] assms(2) by auto
  ultimately show ?thesis using e assms(4) by (simp add: compresses_def place_token_def Let_def)
qed

definition same_slot :: "compressor \<Rightarrow> compressor \<Rightarrow> char \<Rightarrow> bool" where
  "same_slot c' c ch \<longleftrightarrow> best_table_len c' ch = best_table_len c ch \<and> best_table c' ch = best_table c ch"

lemma optimize_from_greedy:
  assumes "n \<le> 256" "compresses n c ws" "\<forall>k<n. used (char_of k) \<longleftrightarrow> best_table_len c (char_of k) \<noteq> 0"
    and "greedy n used ws (dict_of c) = (ws', d)"
  shows "compresses 0 (optimize_from n c) ws' \<and> dict_of (optimize_from n c) = d
    \<and> (\<forall>ch. best_table_len c ch \<noteq> 0 \<or> d ch = None \<longrightarrow> same_slot (optimize_from n c) c ch)"
  using assms
proof (induction n arbitrary: c ws)
  case 0
  then show ?case by (simp add: compresses_def same_slot_def)
next
  case (Suc n)
  let ?i = "char_of n :: char" and ?b = "find_best_token (token_profit c)"
  have u: "used ?i \<longleftrightarrow> best_table_len c ?i \<noteq> 0" using Suc.prems(3) by simp
  have c: "counted (token_profit c) ws" using Suc.prems(2) by (simp add: compresses_def)
  have n: "compresses n c ws" using Suc.prems(2) by (simp add: compresses_def)
  show ?case
  proof (cases "used ?i")
    case True
    then show ?thesis using Suc.IH [OF _ n] Suc.prems u by simp
  next
    case False
    note b = find_best_token_pair [OF c]
    show ?thesis
    proof (cases "token_profit c ?b = 0")
      case True
      then show ?thesis using False u b Suc.prems(4) n by (simp add: compresses_def same_slot_def)
    next
      case ne: False
      let ?c = "place_token ?b ?i c" and ?ws = "map (squeeze (index_pair ?b) ?i) ws"
      have bp: "best_pair ws = Some (index_pair ?b)" using ne b by simp
      have t: "best_table_len ?c = (best_table_len c)(?i := 2)" "best_table ?c = (best_table c)(?i := index_pair ?b)"
        by (simp_all add: place_token_def Let_def split: prod.splits)
      have d: "dict_of ?c = (dict_of c)(?i := Some (index_pair ?b))" by (rule ext) (simp add: dict_of_def t)
      have s: "same_slot ?c c ch" if "ch \<noteq> ?i" for ch using that by (simp add: same_slot_def t)
      have "\<forall>k<n. used (char_of k) \<longleftrightarrow> best_table_len ?c (char_of k) \<noteq> 0"
        using Suc.prems(1,3) char_of_inj by (simp add: t)
      moreover have "greedy n used ?ws (dict_of ?c) = (ws', d)"
        using Suc.prems(4) False bp by (simp add: d)
      ultimately have "compresses 0 (optimize_from n ?c) ws' \<and> dict_of (optimize_from n ?c) = d
          \<and> (\<forall>ch. best_table_len ?c ch \<noteq> 0 \<or> d ch = None \<longrightarrow> same_slot (optimize_from n ?c) ?c ch)"
        using Suc.IH [OF _ place_token_compresses [OF Suc.prems(2) _ bp refl]] Suc.prems(1) by simp
      then have o: "compresses 0 (optimize_from n ?c) ws'" "dict_of (optimize_from n ?c) = d"
          "best_table_len ?c ch \<noteq> 0 \<or> d ch = None \<Longrightarrow> same_slot (optimize_from n ?c) ?c ch" for ch
        by blast+
      have "d ?i \<noteq> None" using o(2) o(3) [of ?i] by (auto simp: same_slot_def t dict_of_def)
      then have "same_slot (optimize_from n ?c) c ch" if "best_table_len c ch \<noteq> 0 \<or> d ch = None" for ch
        using that o(3) [of ch] s [of ch] False u by (cases "ch = ?i") (auto simp: same_slot_def t)
      then show ?thesis using o False u ne by (simp add: Let_def)
    qed
  qed
qed

end
