(* ===== verification/Kallsyms_Expand.thy ===== *)
theory Kallsyms_Expand
  imports Kallsyms_Greedy
begin

text \<open>
  What the compression leaves: the table of the program is the dictionary of the greedy procedure
  and the codes of the symbols themselves, and \<open>expand_symbol\<close> returns and gives the symbols back.
\<close>

section \<open>The greedy dictionary\<close>

lemma greedy_keeps:
  "greedy n used ws dict = (ws', d) \<Longrightarrow> n \<le> 256 \<Longrightarrow> n \<le> chr_code ch \<Longrightarrow> d ch = dict ch"
  by (induction n used ws dict rule: greedy.induct) (auto split: if_splits option.splits)

text \<open>Every reading of the codes that follows the dictionary reads the same before and after.\<close>

lemma squeeze_meaning:
  "\<rho> i = \<rho> (fst p) @ \<rho> (snd p) \<Longrightarrow> concat (map \<rho> (squeeze p i w)) = concat (map \<rho> w)"
  by (induction p i w rule: squeeze.induct) auto

lemma greedy_meaning:
  assumes "greedy n used ws dict = (ws', d)" "n \<le> 256" "\<forall>ch p. d ch = Some p \<longrightarrow> \<rho> ch = \<rho> (fst p) @ \<rho> (snd p)"
  shows "map (\<lambda>w. concat (map \<rho> w)) ws' = map (\<lambda>w. concat (map \<rho> w)) ws"
  using assms
proof (induction n used ws dict rule: greedy.induct)
  case (2 n used ws dict)
  show ?case
  proof (cases "used (char_of n) \<or> best_pair ws = None")
    case False
    then obtain p where p: "best_pair ws = Some p"
      and g: "greedy n used (map (squeeze p (char_of n)) ws) (dict(char_of n := Some p)) = (ws', d)"
      using 2(3) by auto
    have "d (char_of n) = Some p" using greedy_keeps [OF g, of "char_of n"] 2(4) by simp
    then have "concat (map \<rho> (squeeze p (char_of n) w)) = concat (map \<rho> w)" for w
      using 2(5) by (intro squeeze_meaning) blast
    then show ?thesis using 2(2) [OF _ p g] 2(4,5) False by (simp add: comp_def)
  next
    case True
    then show ?thesis using 2 by (cases "used (char_of n)") simp_all
  qed
qed simp

text \<open>A code stands for a factor of a word.\<close>

lemma pairs_split: "(a, b) \<in> set (pairs w) \<Longrightarrow> \<exists>A B. w = A @ a # b # B"
proof (induction w rule: induct_list012)
  case (3 x y w)
  then show ?case by (metis append_Cons append_Nil pairs_simps(3) prod.inject set_ConsD)
qed auto

lemma greedy_factor:
  assumes "greedy n used ws dict = (ws', d)" "n \<le> 256" "\<forall>ch p. d ch = Some p \<longrightarrow> \<rho> ch = \<rho> (fst p) @ \<rho> (snd p)"
    and "d ch \<noteq> None" "dict ch = None"
  shows "\<exists>w\<in>set ws. \<exists>A B. concat (map \<rho> w) = A @ \<rho> ch @ B"
  using assms
proof (induction n used ws dict rule: greedy.induct)
  case (2 n used ws dict)
  let ?i = "char_of n :: char"
  consider "used ?i" | "\<not> used ?i" "best_pair ws = None" | p where "\<not> used ?i" "best_pair ws = Some p"
    by (cases "best_pair ws") blast+
  then show ?case
  proof cases
    case (3 p)
    have g: "greedy n used (map (squeeze p ?i) ws) (dict(?i := Some p)) = (ws', d)" using 2(3) 3 by simp
    have "d ?i = Some p" using greedy_keeps [OF g, of ?i] 2(4) by simp
    then have i: "\<rho> ?i = \<rho> (fst p) @ \<rho> (snd p)" using 2(5) by blast
    show ?thesis
    proof (cases "ch = ?i")
      case True
      obtain w where w: "w \<in> set ws" "(fst p, snd p) \<in> set (pairs w)" using best_pair_Some(1) [OF 3(2)] by auto
      from pairs_split [OF w(2)] obtain A B where "w = A @ fst p # snd p # B" by blast
      then have "concat (map \<rho> w) = concat (map \<rho> A) @ \<rho> ch @ concat (map \<rho> B)" using True i by simp
      then show ?thesis using w(1) by blast
    next
      case False
      then have "\<exists>w\<in>set (map (squeeze p ?i) ws). \<exists>A B. concat (map \<rho> w) = A @ \<rho> ch @ B"
        using 2(2) [OF 3 g] 2(4-7) by simp
      then show ?thesis using squeeze_meaning [OF i] by auto
    qed
  qed (use 2 in simp_all)
qed simp

text \<open>A code stands for codes of the symbols or codes that were given out before it.\<close>

definition known :: "(char \<Rightarrow> bool) \<Rightarrow> (char \<Rightarrow> (char \<times> char) option) \<Rightarrow> nat \<Rightarrow> char \<Rightarrow> bool" where
  "known used d n ch \<longleftrightarrow> used ch \<or> d ch \<noteq> None \<and> n \<le> chr_code ch"

definition ordered :: "(char \<Rightarrow> bool) \<Rightarrow> (char \<Rightarrow> (char \<times> char) option) \<Rightarrow> bool" where
  "ordered used d \<longleftrightarrow> (\<forall>ch p. d ch = Some p \<longrightarrow> \<not> used ch
     \<and> known used d (Suc (chr_code ch)) (fst p) \<and> known used d (Suc (chr_code ch)) (snd p))"

lemma known_Suc: "known used d (Suc n) ch \<Longrightarrow> known used d n ch"
  by (auto simp: known_def)

lemma set_squeeze: "set (squeeze p i w) \<subseteq> insert i (set w)"
  by (induction p i w rule: squeeze.induct) auto

lemma greedy_ordered:
  assumes "greedy n used ws dict = (ws', d)" "n \<le> 256" "ordered used dict"
    and "\<forall>w\<in>set ws. \<forall>ch\<in>set w. known used dict n ch" "\<forall>ch. chr_code ch < n \<longrightarrow> dict ch = None"
  shows "ordered used d \<and> (\<forall>w\<in>set ws'. \<forall>ch\<in>set w. known used d 0 ch)"
  using assms
proof (induction n used ws dict rule: greedy.induct)
  case (2 n used ws dict)
  let ?i = "char_of n :: char"
  have k: "\<forall>w\<in>set ws. \<forall>ch\<in>set w. known used dict (Suc n) ch" using 2(6) by simp
  then have k': "\<forall>w\<in>set ws. \<forall>ch\<in>set w. known used dict n ch" using known_Suc by blast
  consider "used ?i" | "\<not> used ?i" "best_pair ws = None" | p where "\<not> used ?i" "best_pair ws = Some p"
    by (cases "best_pair ws") blast+
  then show ?case
  proof cases
    case 1
    then show ?thesis using 2 k' by simp
  next
    case 2
    then show ?thesis using "2.prems" k by (auto simp: known_def)
  next
    case (3 p)
    let ?d = "dict(?i := Some p)" and ?ws = "map (squeeze p ?i) ws"
    have n: "chr_code ?i = n" using 2(4) by simp
    have keep: "known used dict m ch \<Longrightarrow> known used ?d m ch" for m ch by (auto simp: known_def)
    have "known used dict (Suc n) (fst p) \<and> known used dict (Suc n) (snd p)"
      using k best_pair_mem [OF 3(2)] by metis
    then have "known used ?d (Suc n) (fst p)" "known used ?d (Suc n) (snd p)" using keep by blast+
    then have "ordered used ?d"
      unfolding ordered_def
    proof (intro allI impI)
      fix ch q assume q: "?d ch = Some q"
      show "\<not> used ch \<and> known used ?d (Suc (chr_code ch)) (fst q) \<and> known used ?d (Suc (chr_code ch)) (snd q)"
      proof (cases "ch = ?i")
        case True
        then show ?thesis using q 3(1) n \<open>known used ?d (Suc n) (fst p)\<close> \<open>known used ?d (Suc n) (snd p)\<close> by simp
      next
        case False
        then show ?thesis using q 2(5) keep unfolding ordered_def by (metis fun_upd_other)
      qed
    qed
    moreover have "\<forall>w\<in>set ?ws. \<forall>ch\<in>set w. known used ?d n ch"
    proof (intro ballI)
      fix w ch assume "w \<in> set ?ws" "ch \<in> set w"
      then obtain v where "v \<in> set ws" "ch = ?i \<or> ch \<in> set v" using set_squeeze by fastforce
      moreover have "known used ?d n ?i" using n by (simp add: known_def)
      ultimately show "known used ?d n ch" using k' keep by blast
    qed
    moreover have "\<forall>ch. chr_code ch < n \<longrightarrow> ?d ch = None" using 2(7) n by auto
    moreover have "greedy n used ?ws ?d = (ws', d)" using 2(3) 3 by simp
    ultimately show ?thesis using 2(2) [OF 3] 2(4) by (simp del: fun_upd_apply)
  qed
qed (auto simp: known_def)

section \<open>The table of the program\<close>

definition mark :: "char set \<Rightarrow> compressor \<Rightarrow> compressor" where
  "mark X c = c\<lparr> best_table := \<lambda>ch. if ch \<in> X then (ch, snd (best_table c ch)) else best_table c ch,
                 best_table_len := \<lambda>ch. if ch \<in> X then 1 else best_table_len c ch \<rparr>"

lemma mark_empty [simp]: "mark {} c = c"
  by (simp add: mark_def)

lemma mark_mark [simp]: "mark X (mark Y c) = mark (X \<union> Y) c"
  by (auto simp: mark_def fun_eq_iff)

lemma insert_real_char:
  "c\<lparr> best_table := (best_table c)(ch := (ch, snd (best_table c ch))),
      best_table_len := (best_table_len c)(ch := 1) \<rparr> = mark {ch} c"
  by (rule compressor.equality) (auto simp: mark_def)

lemma foldl_mark: "foldl (\<lambda>c x. mark (f x) c) c xs = mark (\<Union>x\<in>set xs. f x) c"
  by (induction xs arbitrary: c) (simp_all add: Un_commute)

lemma insert_real_symbols:
  "insert_real_symbols_in_table c = mark (\<Union>s\<in>set (symbols c). set (entry_bytes s)) c"
  unfolding insert_real_symbols_in_table_def insert_real_char foldl_mark entry_bytes_def by simp

definition dict_slot :: "(char \<Rightarrow> bool) \<Rightarrow> (char \<Rightarrow> (char \<times> char) option) \<Rightarrow> char \<Rightarrow> cstr" where
  "dict_slot used d ch = (case d ch of Some p \<Rightarrow> [fst p, snd p] | None \<Rightarrow> if used ch then [ch] else [])"

definition char_used :: "cstr list \<Rightarrow> char \<Rightarrow> bool" where
  "char_used ws ch = list_ex (\<lambda>w. ch \<in> set w) ws"

definition used_in :: "cstr list \<Rightarrow> char \<Rightarrow> bool" where
  "used_in ws ch \<longleftrightarrow> list_ex (\<lambda>w. ch \<in> set w) ws"

lemma greedy_ordered_start:
  assumes "greedy n (used_in ws) ws (\<lambda>_. None) = (ws', d)" "n \<le> 256"
  shows "ordered (used_in ws) d"
proof -
  have "\<forall>w\<in>set ws. \<forall>ch\<in>set w. known (used_in ws) (\<lambda>_. None) n ch"
    by (auto simp: known_def used_in_def list_ex_iff)
  then show ?thesis using greedy_ordered [OF assms] by (simp add: ordered_def)
qed

lemma optimize_token_table_greedy:
  assumes "optimize_token_table valid tab = Some c" "\<forall>s\<in>set tab. padded_entry s (entry_bytes s)"
    and "ws = map entry_bytes (filter valid tab)" "greedy 256 (used_in ws) ws (\<lambda>_. None) = (ws', d)"
  shows "list_all2 entry_holds (symbols c) ws' \<and> counted (token_profit c) ws' \<and> dict_of c = d
    \<and> (\<forall>ch. slot c ch = dict_slot (used_in ws) d ch)
    \<and> (\<forall>ch. used_in ws ch \<longrightarrow> fst (best_table c ch) = ch \<and> best_table_len c ch = 1)"
proof -
  obtain tp where b: "build_initial_tok_table valid tab (\<lambda>_. 0) = (filter valid tab, tp)" "counted tp ws"
    using build_initial_tok_table_eq [of valid tab "\<lambda>_. 0"] assms(3)
    by (cases "build_initial_tok_table valid tab (\<lambda>_. 0)") (simp add: counted_def)
  let ?c = "insert_real_symbols_in_table (empty_tables tp (filter valid tab))"
  have "(\<Union>s\<in>set (filter valid tab). set (entry_bytes s)) = {ch. used_in ws ch}"
    by (auto simp: used_in_def list_ex_iff assms(3))
  then have "?c = mark {ch. used_in ws ch} (empty_tables tp (filter valid tab))"
    by (simp add: insert_real_symbols empty_tables_def)
  then have c0: "best_table_len ?c = (\<lambda>ch. if used_in ws ch then 1 else 0)" "token_profit ?c = tp"
      "best_table ?c = (\<lambda>ch. if used_in ws ch then (ch, NUL) else (NUL, NUL))" "symbols ?c = filter valid tab"
    by (simp_all add: mark_def empty_tables_def fun_eq_iff)
  have c: "c = optimize_from 256 ?c"
  proof -
    have "(if symbols ?c = [] then None else Some (optimize_result ?c)) = Some c"
      using assms(1) by (simp only: optimize_token_table_def b(1) Let_def prod.case)
    then have "Some (optimize_result ?c) = Some c" by (metis option.distinct(1))
    then show ?thesis by (simp only: optimize_result_def option.inject)
  qed
  have pad: "list_all2 padded_entry (filter valid tab) ws"
    using assms(2) by (simp add: assms(3) list_all2_map2 list_all2_same)
  have d0: "dict_of ?c = (\<lambda>_. None)" by (rule ext) (simp add: dict_of_def c0)
  have g: "compresses 0 c ws' \<and> dict_of c = d \<and> (\<forall>ch. best_table_len ?c ch \<noteq> 0 \<or> d ch = None \<longrightarrow> same_slot c ?c ch)"
    unfolding c
  proof (rule optimize_from_greedy)
    show "compresses 256 ?c ws"
      using pad b(2) list_all2_mono [OF pad padded_holds] by (simp add: compresses_def c0)
    show "greedy 256 (used_in ws) ws (dict_of ?c) = (ws', d)" using assms(4) d0 by simp
  qed (simp_all add: c0)
  have k: "fst (best_table c ch) = ch \<and> best_table_len c ch = 1" if "used_in ws ch" for ch
    using g that by (simp add: same_slot_def c0)
  have "slot c ch = dict_slot (used_in ws) d ch" for ch
  proof (cases "d ch")
    case None
    then have "same_slot c ?c ch" using g by blast
    then show ?thesis using None by (simp add: slot_def dict_slot_def same_slot_def c0)
  next
    case (Some p)
    then have "best_table_len c ch = 2 \<and> best_table c ch = p" using g by (auto simp: dict_of_def split: if_splits)
    then show ?thesis using Some by (simp add: slot_def dict_slot_def numeral_2_eq_2)
  qed
  then show ?thesis using g k by (simp add: compresses_def)
qed

section \<open>Expanding\<close>

lemma expand_Nil [simp]: "expand_symbol c [] = Some []"
  by (simp add: expand_symbol.simps)

lemma expand_one:
  "expand_symbol c [ch] = (if fst (best_table c ch) = ch \<and> best_table_len c ch = 1 then Some [ch] else expand_symbol c (slot c ch))"
  by (subst expand_symbol.simps) (cases "expand_symbol c (slot c ch)"; simp)

lemma expand_Cons: "expand_symbol c (ch # w) = do { r \<leftarrow> expand_symbol c [ch]; rs \<leftarrow> expand_symbol c w; Some (r @ rs) }"
  unfolding expand_one by (subst expand_symbol.simps) simp

lemma expand_concat:
  "(\<And>ch. expand_symbol c [ch] = Some (\<rho> ch)) \<Longrightarrow> expand_symbol c w = Some (concat (map \<rho> w))"
proof (induction w)
  case (Cons ch w)
  then show ?case by (subst expand_Cons) simp
qed simp

text \<open>The bytes a code stands for; the recursion ends since the codes it goes through grow.\<close>

lemma expand_code:
  assumes "ordered used d" "\<And>ch. slot c ch = dict_slot used d ch"
    and "\<And>ch. used ch \<Longrightarrow> fst (best_table c ch) = ch \<and> best_table_len c ch = 1"
  shows "\<exists>w. expand_symbol c [ch] = Some w"
proof (induction "256 - chr_code ch" arbitrary: ch rule: less_induct)
  case less
  show ?case
  proof (cases "used ch")
    case True
    then show ?thesis using assms(3) by (simp add: expand_one)
  next
    case u: False
    show ?thesis
    proof (cases "d ch")
      case None
      then show ?thesis using u by (simp add: expand_one assms(2) dict_slot_def)
    next
      case (Some p)
      have "\<exists>w. expand_symbol c [x] = Some w" if "known used d (Suc (chr_code ch)) x" for x
      proof (cases "used x")
        case True
        then show ?thesis using assms(3) by (simp add: expand_one)
      next
        case False
        then show ?thesis using that less [of x] chr_code_less [of ch] by (simp add: known_def Suc_le_eq diff_less_mono2)
      qed
      then obtain v w where "expand_symbol c [fst p] = Some v" "expand_symbol c [snd p] = Some w"
        using assms(1) Some unfolding ordered_def by blast
      then have "expand_symbol c (slot c ch) = Some (v @ w)"
        using Some by (simp add: assms(2) dict_slot_def expand_Cons [of c _ "[_]"])
      then show ?thesis by (simp add: expand_one)
    qed
  qed
qed

text \<open>Expanding the compressed symbols gives the valid symbols of the map.\<close>

lemma length_squeeze: "length (squeeze p i w) \<le> length w"
  by (induction p i w rule: squeeze.induct) auto

lemma greedy_shortens:
  "greedy n used ws dict = (ws', d) \<Longrightarrow> list_all2 (\<lambda>v w. length v \<le> length w) ws' ws"
proof (induction n used ws dict rule: greedy.induct)
  case (2 n used ws dict)
  consider "used (char_of n)" | "\<not> used (char_of n)" "best_pair ws = None"
    | p where "\<not> used (char_of n)" "best_pair ws = Some p"
    by (cases "best_pair ws") blast+
  then show ?case
  proof cases
    case (3 p)
    then have "list_all2 (\<lambda>v w. length v \<le> length w) ws' (map (squeeze p (char_of n)) ws)"
      using 2(2) [OF 3] 2(3) by (simp del: fun_upd_apply)
    then show ?thesis
      using length_squeeze [of p "char_of n"] by (auto simp: list_all2_conv_all_nth) (metis le_trans)
  qed (use 2 in \<open>simp_all add: list_all2_same\<close>)
qed (simp add: list_all2_same)

lemma optimize_expands:
  assumes "optimize_token_table valid tab = Some c" "\<forall>s\<in>set tab. padded_entry s (entry_bytes s)"
  shows "\<exists>\<rho>. (\<forall>ch. expand_symbol c [ch] = Some (\<rho> ch))
    \<and> map (\<lambda>s. concat (map \<rho> (entry_bytes s))) (symbols c) = map entry_bytes (filter valid tab)
    \<and> list_all2 (\<lambda>s w. ksym_len s = length (entry_bytes s) \<and> ksym_len s \<le> length w)
        (symbols c) (map entry_bytes (filter valid tab))
    \<and> (\<forall>ch. \<rho> ch = [] \<or> (\<exists>s\<in>set (filter valid tab). \<exists>A B. entry_bytes s = A @ \<rho> ch @ B))"
proof -
  let ?ws = "map entry_bytes (filter valid tab)"
  obtain ws' d where g: "greedy 256 (used_in ?ws) ?ws (\<lambda>_. None) = (ws', d)" by fastforce
  note o = optimize_token_table_greedy [OF assms refl g]
  have ord: "ordered (used_in ?ws) d"
    by (rule greedy_ordered_start [OF g]) simp
  have "\<forall>ch. \<exists>w. expand_symbol c [ch] = Some w"
    using o by (intro allI expand_code [OF ord]) blast+
  then obtain \<rho> where r: "\<And>ch. expand_symbol c [ch] = Some (\<rho> ch)" by metis
  have "\<rho> ch = \<rho> (fst p) @ \<rho> (snd p)" if "d ch = Some p" for ch p
  proof -
    have "\<not> used_in ?ws ch" using ord that unfolding ordered_def by blast
    moreover have "slot c ch = [fst p, snd p]" using o that by (simp add: dict_slot_def)
    moreover from this have "best_table_len c ch \<noteq> 1" by (auto simp: slot_def)
    ultimately have "expand_symbol c [ch] = expand_symbol c [fst p, snd p]" by (simp add: expand_one)
    then show ?thesis using r by (simp add: expand_concat [OF r])
  qed
  then have follows: "\<forall>ch p. d ch = Some p \<longrightarrow> \<rho> ch = \<rho> (fst p) @ \<rho> (snd p)" by blast
  have m: "map (\<lambda>w. concat (map \<rho> w)) ws' = map (\<lambda>w. concat (map \<rho> w)) ?ws"
    by (rule greedy_meaning [OF g _ follows]) simp
  have used: "\<rho> ch = [ch]" if "used_in ?ws ch" for ch
    using o that r [of ch] by (simp add: expand_one)
  have ws: "concat (map \<rho> w) = w" if "w \<in> set ?ws" for w
  proof -
    have "map \<rho> w = map (\<lambda>ch. [ch]) w" using that used
      by (auto simp: used_in_def list_ex_iff)
    then show ?thesis by (simp only: concat_map_singleton list.map_ident)
  qed
  have "\<rho> ch = [] \<or> (\<exists>w\<in>set ?ws. \<exists>A B. w = A @ \<rho> ch @ B)" for ch
  proof (cases "used_in ?ws ch")
    case True
    then obtain w where "w \<in> set ?ws" "ch \<in> set w" by (auto simp: used_in_def list_ex_iff)
    then show ?thesis using used [OF True] split_list [of ch w] by fastforce
  next
    case u: False
    show ?thesis
    proof (cases "d ch = None")
      case True
      then have "slot c ch = []" using o u by (simp add: dict_slot_def)
      then have "expand_symbol c [ch] = Some []" by (simp add: expand_one) (auto simp: slot_def)
      then show ?thesis using r [of ch] by simp
    next
      case False
      then show ?thesis using greedy_factor [OF g _ follows] ws by fastforce
    qed
  qed
  moreover have "map (\<lambda>w. concat (map \<rho> w)) ?ws = ?ws" using ws by (intro map_idI) blast
  moreover have "list_all2 (\<lambda>s w. entry_bytes s = w \<and> ksym_len s = length w) (symbols c) ws'"
    using o by (simp add: entry_holds_def [abs_def])
  then have "map entry_bytes (symbols c) = ws'"
      "list_all2 (\<lambda>s w. ksym_len s = length (entry_bytes s) \<and> ksym_len s \<le> length w) (symbols c) ?ws"
    using greedy_shortens [OF g] by (auto simp: list_all2_conv_all_nth intro: nth_equalityI)
  ultimately show ?thesis using m r by (intro exI [of _ \<rho>]) (auto simp: comp_def)
qed

end
