(* ===== verification/Kallsyms_Output.thy ===== *)
theory Kallsyms_Output
  imports Kallsyms_Order Kallsyms_Expand
begin

text \<open>
  The output of \<open>kallsyms.c\<close> and the whole program. Each call of \<open>printf\<close> with a line of assembler
  is a value of \<open>asm\<close>. What the kernel reads back from the tables is defined after it, from the
  description of the tables in the comments of the program.
\<close>

section \<open>write_src\<close>

datatype asm =
    Preamble
  | Label cstr
  | Long "32 word"
  | Ptr_above "64 word"
  | Ptr_below "64 word"
  | Ptr "64 word"
  | Byte nat cstr
  | Asciz cstr
  | Short nat
  | Blank

datatype failure =
    Usage
  | No_valid_symbol
  | Out_of_range
  | Overrun

text \<open>The values of \<open>offset\<close> are \<open>long long\<close>; the line shows its low 32 bits.\<close>

definition offset_line :: "64 word \<Rightarrow> bool \<Rightarrow> failure + asm" where
  "offset_line offset overflow = (if overflow then Inl Out_of_range else Inr (Long (ucast offset)))"

definition address_line :: "ksym_opts \<Rightarrow> 64 word \<Rightarrow> 64 word \<Rightarrow> sym_entry \<Rightarrow> failure + asm" where
  "address_line opts text base s =
     (if base_relative opts then
        (if \<not> absolute_percpu opts then
           (let offset = addr s - base in offset_line offset (sint offset < 0 \<or> sint offset > 2 ^ 32 - 1))
         else if symbol_absolute s then
           (let offset = addr s in offset_line offset (sint offset < 0 \<or> sint offset > 2 ^ 31 - 1))
         else
           (let offset = base - addr s - 1 in offset_line offset (sint offset < - (2 ^ 31) \<or> sint offset \<ge> 0)))
      else if \<not> symbol_absolute s then
        Inr (if text \<le> addr s then Ptr_above (addr s - text) else Ptr_below (text - addr s))
      else Inr (Ptr (addr s)))"

fun write_addresses :: "ksym_opts \<Rightarrow> 64 word \<Rightarrow> 64 word \<Rightarrow> sym_entry list \<Rightarrow> failure + asm list" where
  "write_addresses opts text base [] = Inr []"
| "write_addresses opts text base (s # ss) =
     andthen (address_line opts text base s) (\<lambda>l.
     andthen (write_addresses opts text base ss) (\<lambda>ls. Inr (l # ls)))"

text \<open>The names, and the offset of every 256th name.\<close>

fun write_names :: "nat \<Rightarrow> nat \<Rightarrow> sym_entry list \<Rightarrow> asm list \<times> nat list" where
  "write_names i off [] = ([], [])"
| "write_names i off (s # ss) =
     (let (ls, markers) = write_names (i + 1) (off + ksym_len s + 1) ss
      in (Byte (ksym_len s) (take (ksym_len s) (ksym s)) # ls, if i mod 256 = 0 then off # markers else markers))"

text \<open>
  The tokens, and the offset of each of them. \<open>buf\<close> has \<open>KSYM_NAME_LEN\<close> bytes, of which the last is
  for the NUL of \<open>expand_symbol\<close>. The result is \<open>None\<close> when \<open>expand_symbol\<close> does not return.
\<close>
fun write_tokens :: "compressor \<Rightarrow> nat list \<Rightarrow> nat \<Rightarrow> (failure + asm list \<times> nat list) option" where
  "write_tokens c [] off = Some (Inr ([], []))"
| "write_tokens c (i # is) off =
     do {
       buf \<leftarrow> expand_symbol c (slot c (char_of i));
       if length buf \<ge> KSYM_NAME_LEN then Some (Inl Overrun)
       else do {
         let str = takeWhile (\<lambda>ch. ch \<noteq> NUL) buf;
         res \<leftarrow> write_tokens c is (off + length str + 1);
         Some (andthen res (\<lambda>(ls, best_idx). Inr (Asciz str # ls, off # best_idx)))
       }
     }"

definition write_src :: "ksym_opts \<Rightarrow> 64 word \<Rightarrow> 64 word \<Rightarrow> compressor \<Rightarrow> (failure + asm list) option" where
  "write_src opts text base c =
     (case write_addresses opts text base (symbols c) of
        Inl e \<Rightarrow> Some (Inl e)
      | Inr addresses \<Rightarrow>
          do {
            let (names, markers) = write_names 0 0 (symbols c);
            res \<leftarrow> write_tokens c [0..<256] 0;
            Some (andthen res (\<lambda>(tokens, best_idx). Inr (
              [Preamble, Label (if base_relative opts then ''kallsyms_offsets'' else ''kallsyms_addresses'')] @ addresses @
              [Blank] @
              (if base_relative opts then [Label ''kallsyms_relative_base'', Ptr_below (text - base), Blank] else []) @
              [Label ''kallsyms_num_syms'', Long (of_nat (length (symbols c))), Blank] @
              [Label ''kallsyms_names''] @ names @ [Blank] @
              [Label ''kallsyms_markers''] @ map (\<lambda>m. Long (of_nat m)) markers @ [Blank] @
              [Label ''kallsyms_token_table''] @ tokens @ [Blank] @
              [Label ''kallsyms_token_index''] @ map Short best_idx @ [Blank])))
          })"

section \<open>main\<close>

text \<open>The arguments behind the name of the program; \<open>None\<close> is \<open>usage\<close>.\<close>

fun parse_args :: "cstr list \<Rightarrow> ksym_opts \<Rightarrow> ksym_opts option" where
  "parse_args [] opts = Some opts"
| "parse_args (a # as) opts =
     (if a = ''--all-symbols'' then parse_args as (opts\<lparr> all_symbols := True \<rparr>)
      else if a = ''--absolute-percpu'' then parse_args as (opts\<lparr> absolute_percpu := True \<rparr>)
      else if a = ''--base-relative'' then parse_args as (opts\<lparr> base_relative := True \<rparr>)
      else None)"

text \<open>The steps of \<open>main\<close> before the compression.\<close>

definition sorted_map :: "ksym_opts \<Rightarrow> scanned list \<Rightarrow> ksyms" where
  "sorted_map opts inp =
     (let k = read_map inp initial_ksyms;
          k = (if absolute_percpu opts then make_percpus_absolute k else k);
          k = (if base_relative opts then record_relative_base k else k)
      in sort_symbols k)"

definition run_kallsyms :: "ksym_opts \<Rightarrow> scanned list \<Rightarrow> (failure + asm list) option" where
  "run_kallsyms opts inp =
     (let k = sorted_map opts inp in
      case optimize_token_table (symbol_valid opts (text_ranges k)) (table k) of
        None \<Rightarrow> Some (Inl No_valid_symbol)
      | Some c \<Rightarrow> write_src opts (text_addr k) (relative_base k) c)"

definition kallsyms_main :: "cstr list \<Rightarrow> scanned list \<Rightarrow> (failure + asm list) option" where
  "kallsyms_main args inp =
     (case parse_args args \<lparr> all_symbols = False, absolute_percpu = False, base_relative = False \<rparr> of
        None \<Rightarrow> Some (Inl Usage)
      | Some opts \<Rightarrow> run_kallsyms opts inp)"

section \<open>Reading the tables\<close>

text \<open>The lines of a table: from its label to the blank line.\<close>

definition table_of :: "cstr \<Rightarrow> asm list \<Rightarrow> asm list" where
  "table_of l out = takeWhile (\<lambda>x. x \<noteq> Blank) (drop 1 (dropWhile (\<lambda>x. x \<noteq> Label l) out))"

definition bytes_of :: "asm list \<Rightarrow> cstr" where
  "bytes_of ls = concat (map (\<lambda>x. case x of Byte n w \<Rightarrow> char_of n # w | Asciz w \<Rightarrow> w @ [NUL] | _ \<Rightarrow> []) ls)"

definition numbers_of :: "asm list \<Rightarrow> nat list" where
  "numbers_of ls = concat (map (\<lambda>x. case x of Long n \<Rightarrow> [unat n] | Short n \<Rightarrow> [n] | _ \<Rightarrow> []) ls)"

text \<open>The position of the \<open>n\<close>-th record behind a position: a record starts with its length.\<close>

fun skip_records :: "cstr \<Rightarrow> nat \<Rightarrow> nat \<Rightarrow> nat" where
  "skip_records names 0 pos = pos"
| "skip_records names (Suc n) pos = skip_records names n (pos + chr_code (names ! pos) + 1)"

text \<open>The string at an offset of the token table.\<close>

definition token_string :: "cstr \<Rightarrow> nat \<Rightarrow> cstr" where
  "token_string tokens off = takeWhile (\<lambda>ch. ch \<noteq> NUL) (drop off tokens)"

text \<open>The type and name of the \<open>i\<close>-th symbol.\<close>

definition symbol_at :: "asm list \<Rightarrow> nat \<Rightarrow> cstr" where
  "symbol_at out i =
     (let names = bytes_of (table_of ''kallsyms_names'' out);
          pos = skip_records names (i mod 256) (numbers_of (table_of ''kallsyms_markers'' out) ! (i div 256));
          codes = take (chr_code (names ! pos)) (drop (pos + 1) names);
          index = numbers_of (table_of ''kallsyms_token_index'' out)
      in concat (map (\<lambda>ch. token_string (bytes_of (table_of ''kallsyms_token_table'' out)) (index ! chr_code ch)) codes))"

text \<open>
  The address of the \<open>i\<close>-th symbol, where \<open>text\<close> is the address of \<open>_text\<close>. With
  \<open>--absolute-percpu\<close>, an offset that is not negative is an absolute address.
\<close>
definition address_at :: "ksym_opts \<Rightarrow> 64 word \<Rightarrow> asm list \<Rightarrow> nat \<Rightarrow> 64 word" where
  "address_at opts text out i =
     (if base_relative opts then
        (let base = (case table_of ''kallsyms_relative_base'' out of [Ptr_below d] \<Rightarrow> text - d | _ \<Rightarrow> 0) in
         case table_of ''kallsyms_offsets'' out ! i of
           Long off \<Rightarrow>
             (if \<not> absolute_percpu opts then base + ucast off
              else if 0 \<le> sint off then ucast off
              else base - 1 - scast off)
         | _ \<Rightarrow> 0)
      else
        case table_of ''kallsyms_addresses'' out ! i of
          Ptr_above d \<Rightarrow> text + d | Ptr_below d \<Rightarrow> text - d | Ptr a \<Rightarrow> a | _ \<Rightarrow> 0)"

end
