(* ===== verification/Kallsyms_Tables.thy ===== *)
theory Kallsyms_Tables
  imports Kallsyms_Output
begin

text \<open>
  What the lines of the output say to a reader: each table is found by its label, the markers and
  the index are the positions of the records and of the tokens.
\<close>

section \<open>Tables and their labels\<close>

definition plain :: "asm list \<Rightarrow> bool" where
  "plain ls \<longleftrightarrow> (\<forall>x\<in>set ls. x \<noteq> Blank \<and> (\<forall>l. x \<noteq> Label l))"

definition tables :: "(cstr \<times> asm list) list \<Rightarrow> asm list" where
  "tables ts = Preamble # concat (map (\<lambda>(l, ls). Label l # ls @ [Blank]) ts)"

lemma dropWhile_plain:
  "plain ls \<Longrightarrow> dropWhile (\<lambda>x. x \<noteq> Label l) (ls @ Blank # out) = dropWhile (\<lambda>x. x \<noteq> Label l) out"
  by (induction ls) (auto simp: plain_def)

lemma takeWhile_plain: "plain ls \<Longrightarrow> takeWhile (\<lambda>x. x \<noteq> Blank) (ls @ Blank # out) = ls"
  by (induction ls) (auto simp: plain_def)

lemma table_of_tables:
  assumes "\<forall>(l, ls)\<in>set ts. plain ls" "map_of ts l = Some ls"
  shows "table_of l (tables ts) = ls"
proof -
  have "takeWhile (\<lambda>x. x \<noteq> Blank) (drop 1 (dropWhile (\<lambda>x. x \<noteq> Label l)
      (concat (map (\<lambda>(l, ls). Label l # ls @ [Blank]) ts)))) = ls"
    using assms by (induction ts) (auto simp: dropWhile_plain takeWhile_plain split: if_splits)
  then show ?thesis by (simp add: table_of_def tables_def)
qed

section \<open>Positions\<close>

text \<open>The position of the \<open>n\<close>-th of some records.\<close>

definition record_pos :: "cstr list \<Rightarrow> nat \<Rightarrow> nat" where
  "record_pos rs n = length (concat (take n rs))"

lemma record_pos_simps [simp]:
  "record_pos rs 0 = 0" "record_pos (r # rs) (Suc n) = length r + record_pos rs n"
  by (simp_all add: record_pos_def)

lemma drop_record_pos: "n \<le> length rs \<Longrightarrow> drop (record_pos rs n) (concat rs) = concat (drop n rs)"
proof (induction rs arbitrary: n)
  case (Cons r rs)
  then show ?case by (cases n) auto
qed simp

lemma record_pos_Suc: "n < length rs \<Longrightarrow> record_pos rs (Suc n) = record_pos rs n + length (rs ! n)"
  by (simp add: record_pos_def take_Suc_conv_app_nth)

lemma record_pos_le: "record_pos rs n \<le> length (concat rs)"
  by (metis append_take_drop_id concat_append le_add1 length_append record_pos_def)

text \<open>A record of the names: the length and the codes.\<close>

definition name_record :: "cstr \<Rightarrow> cstr" where
  "name_record w = char_of (length w) # w"

lemma name_at:
  assumes "n < length ws" "\<forall>w\<in>set ws. length w < 256"
  defines "names \<equiv> concat (map name_record ws)" and "pos \<equiv> record_pos (map name_record ws) n"
  shows "chr_code (names ! pos) = length (ws ! n)" "take (length (ws ! n)) (drop (pos + 1) names) = ws ! n"
    "pos + chr_code (names ! pos) + 1 = record_pos (map name_record ws) (Suc n)"
proof -
  have d: "drop pos names = char_of (length (ws ! n)) # ws ! n @ concat (map name_record (drop (Suc n) ws))"
    using drop_record_pos [of n "map name_record ws"] assms(1)
    by (simp add: names_def pos_def drop_map Cons_nth_drop_Suc [symmetric] name_record_def)
  then have l: "pos < length names" by (metis drop_eq_Nil leI list.distinct(1))
  then have c: "names ! pos = char_of (length (ws ! n))" using d by (metis Cons_nth_drop_Suc list.inject)
  show s: "chr_code (names ! pos) = length (ws ! n)" using c assms(1,2) by simp
  have "drop (pos + 1) names = ws ! n @ concat (map name_record (drop (Suc n) ws))"
    using d l by (metis Cons_nth_drop_Suc Suc_eq_plus1 list.inject)
  then show "take (length (ws ! n)) (drop (pos + 1) names) = ws ! n" by simp
  show "pos + chr_code (names ! pos) + 1 = record_pos (map name_record ws) (Suc n)"
    using assms(1) s by (simp add: record_pos_Suc pos_def name_record_def)
qed

lemma skip_records_pos:
  assumes "\<forall>w\<in>set ws. length w < 256"
  shows "n + k \<le> length ws \<Longrightarrow>
    skip_records (concat (map name_record ws)) k (record_pos (map name_record ws) n) = record_pos (map name_record ws) (n + k)"
proof (induction k arbitrary: n)
  case (Suc k)
  then show ?case using name_at(3) [OF _ assms, of n] by simp
qed simp

section \<open>The names\<close>

lemma write_names_lines:
  "fst (write_names i off ss) = map (\<lambda>s. Byte (ksym_len s) (entry_bytes s)) ss"
  by (induction i off ss rule: write_names.induct) (simp_all add: entry_bytes_def case_prod_beta)

lemma ceil_256:
  "(i + 255) div 256 = (if i mod 256 = 0 then i div 256 else Suc (i div (256 :: nat)))"
  "(i + 1 + 255) div 256 = Suc (i div (256 :: nat))"
proof -
  obtain q r where i: "i = r + q * 256" "r < 256"
    by (metis mod_div_mult_eq add.commute mod_less_divisor zero_less_numeral)
  show "(i + 255) div 256 = (if i mod 256 = 0 then i div 256 else Suc (i div 256))"
  proof (cases r)
    case (Suc r')
    then have "i + 255 = r' + Suc q * 256" using i by simp
    then show ?thesis using i Suc by (simp only: div_mult_self1) simp
  qed (use i in simp)
qed simp

lemma write_names_markers:
  assumes "\<forall>s\<in>set ss. ksym_len s = length (entry_bytes s)" "256 * k = i + j" "j < length ss"
  shows "snd (write_names i off ss) ! (k - (i + 255) div 256) = off + record_pos (map (\<lambda>s. name_record (entry_bytes s)) ss) j
    \<and> k - (i + 255) div 256 < length (snd (write_names i off ss))"
  using assms
proof (induction i off ss arbitrary: j rule: write_names.induct)
  case (2 i off s ss)
  obtain ls ms where r: "write_names (i + 1) (off + ksym_len s + 1) ss = (ls, ms)" by fastforce
  show ?case
  proof (cases j)
    case 0
    then have "i mod 256 = 0" "k - (i + 255) div 256 = 0" using 2(3) by (auto simp: ceil_256 simp flip: 2(3))
    then show ?thesis using r 0 by simp
  next
    case (Suc j')
    have IH: "ms ! (k - (i + 1 + 255) div 256) = off + ksym_len s + 1 + record_pos (map (\<lambda>s. name_record (entry_bytes s)) ss) j'
        \<and> k - (i + 1 + 255) div 256 < length ms"
      using 2(1) [of j'] 2(2-4) r Suc by simp
    have "k - (i + 255) div 256 = (if i mod 256 = 0 then Suc (k - (i + 1 + 255) div 256) else k - (i + 1 + 255) div 256)"
    proof -
      have "i div 256 < k" using 2(3) Suc by (simp add: div_less_iff_less_mult)
      then show ?thesis unfolding ceil_256(2) unfolding ceil_256(1) by (simp add: Suc_diff_Suc)
    qed
    then show ?thesis using IH r Suc 2(2) by (simp add: name_record_def)
  qed
qed simp

section \<open>The tokens\<close>

lemma expand_slot: "expand_symbol c [ch] = Some v \<Longrightarrow> expand_symbol c (slot c ch) = Some v"
  by (auto simp: expand_one slot_def split: if_splits)

lemma write_tokens_correct:
  assumes "\<And>ch. expand_symbol c [ch] = Some (\<rho> ch)"
  defines "str \<equiv> \<lambda>i. takeWhile (\<lambda>ch. ch \<noteq> NUL) (\<rho> (char_of i))"
  shows "write_tokens c is off = Some (
      if \<forall>i\<in>set is. length (\<rho> (char_of i)) < KSYM_NAME_LEN
      then Inr (map (Asciz \<circ> str) is, map (\<lambda>k. off + record_pos (map (\<lambda>i. str i @ [NUL]) is) k) [0..<length is])
      else Inl Overrun)"
proof (induction "is" arbitrary: off)
  case (Cons i "is")
  have e: "expand_symbol c (slot c (char_of i)) = Some (\<rho> (char_of i))" by (rule expand_slot [OF assms(1)])
  have u: "[0..<length (i # is)] = 0 # map Suc [0..<length is]" by (simp add: upt_conv_Cons map_Suc_upt del: upt_Suc)
  have w: "write_tokens c (i # is) off = (if length (\<rho> (char_of i)) \<ge> KSYM_NAME_LEN then Some (Inl Overrun)
      else (write_tokens c is (off + length (str i) + 1) \<bind>
        (\<lambda>res. Some (andthen res (\<lambda>(ls, best_idx). Inr (Asciz (str i) # ls, off # best_idx))))))"
    by (simp only: write_tokens.simps e Option.bind.simps str_def Let_def)
  show ?case unfolding w Cons u by auto
qed simp

lemma token_string_pos:
  assumes "k < length ss" "\<forall>s\<in>set ss. NUL \<notin> set s"
  shows "token_string (concat (map (\<lambda>s. s @ [NUL]) ss)) (record_pos (map (\<lambda>s. s @ [NUL]) ss) k) = ss ! k"
proof -
  have "drop (record_pos (map (\<lambda>s. s @ [NUL]) ss) k) (concat (map (\<lambda>s. s @ [NUL]) ss))
      = ss ! k @ NUL # concat (map (\<lambda>s. s @ [NUL]) (drop (Suc k) ss))"
    using drop_record_pos [of k "map (\<lambda>s. s @ [NUL]) ss"] assms(1)
    by (simp add: drop_map Cons_nth_drop_Suc [symmetric])
  moreover have "\<forall>x\<in>set (ss ! k). x \<noteq> NUL" using assms by (metis nth_mem)
  ultimately show ?thesis by (simp add: token_string_def takeWhile_append2)
qed

end
