(* ===== verification/Kallsyms_Run.thy ===== *)
theory Kallsyms_Run
  imports Kallsyms_Tables
begin

text \<open>
  A whole run of \<open>kallsyms.c\<close>: what is read is well formed and stays so until the compression, the
  tokens are factors of the symbols, and the lines of \<open>write_src\<close> are tables that read back.
\<close>

section \<open>The table that is read\<close>

text \<open>The input is text: the type and the name of a symbol have no NUL byte.\<close>

definition text_input :: "scanned list \<Rightarrow> bool" where
  "text_input inp = list_all (\<lambda>x. case x of None \<Rightarrow> True | Some (a, t, name, behind) \<Rightarrow> t \<noteq> NUL \<and> NUL \<notin> set name) inp"

definition well_formed :: "sym_entry \<Rightarrow> bool" where
  "well_formed s \<longleftrightarrow> padded_entry s (entry_bytes s) \<and> 0 < ksym_len s \<and> ksym_len s \<le> KSYM_NAME_LEN"

lemma well_formedI:
  assumes "ksym s = w @ [NUL]" "ksym_len s = length w" "w \<noteq> []" "NUL \<notin> set w" "length w \<le> KSYM_NAME_LEN"
  shows "well_formed s"
  using assms by (auto simp: well_formed_def padded_entry_def padded_def entry_bytes_def intro: exI [of _ 0])

lemma read_symbol_well:
  assumes "read_symbol inp k = (r, k')" "text_input [inp]"
  shows "table k' = table k \<and> (\<forall>s. r = Some s \<longrightarrow> well_formed s)"
proof (cases inp)
  case None
  then show ?thesis using assms by (simp add: read_symbol_def)
next
  case (Some x)
  obtain a t name behind where x: "x = (a, t, name, behind)" by (cases x)
  have "well_formed \<lparr> addr = a, ksym_len = length name + 1, start_pos = 0, ksym = t # name @ [NUL], percpu_absolute = False \<rparr>"
    if "length name < KSYM_NAME_LEN"
    using that assms(2) Some x by (intro well_formedI [of _ "t # name"]) (auto simp: text_input_def)
  then show ?thesis using assms(1) Some x
    by (auto simp: read_symbol_def Let_def split: if_splits prod.splits bool.splits)
qed

definition numbered :: "sym_entry list \<Rightarrow> bool" where
  "numbered xs \<longleftrightarrow> map start_pos xs = map of_nat [0..<length xs]"

lemma numbered_append: "numbered xs \<Longrightarrow> start_pos s = of_nat (length xs) \<Longrightarrow> numbered (xs @ [s])"
  by (simp add: numbered_def)

lemma read_map_well:
  assumes "text_input inp" "\<forall>s\<in>set (table k). well_formed s" "numbered (table k)"
  shows "(\<forall>s\<in>set (table (read_map inp k)). well_formed s)
    \<and> numbered (table (read_map inp k))
    \<and> length (table (read_map inp k)) \<le> length (table k) + length inp"
  using assms
proof (induction inp arbitrary: k)
  case (Cons x inp)
  obtain r k' where r: "read_symbol x k = (r, k')" by fastforce
  have x: "text_input [x]" "text_input inp" using Cons.prems(1) by (simp_all add: text_input_def)
  note w = read_symbol_well [OF r x(1)]
  show ?case
  proof (cases r)
    case None
    then have "read_map (x # inp) k = read_map inp k'" using r by simp
    then show ?thesis using Cons.IH [OF x(2), of k'] w Cons.prems(2,3) by simp
  next
    case (Some s)
    let ?s = "s\<lparr> start_pos := of_nat (length (table k')) \<rparr>"
    let ?k = "k'\<lparr> table := table k' @ [?s] \<rparr>"
    have "well_formed ?s" using w Some by (simp add: well_formed_def padded_entry_def entry_bytes_def)
    then have wf: "\<forall>s\<in>set (table ?k). well_formed s" using w Cons.prems(2) by simp
    have nb: "numbered (table ?k)" using w Cons.prems(3) by (simp add: numbered_append)
    have k: "read_map (x # inp) k = read_map inp ?k" using r Some by simp
    have "length (table ?k) = Suc (length (table k))" using w by simp
    then show ?thesis using Cons.IH [OF x(2) wf nb] unfolding k by (metis add_Suc_shift length_Cons)
  qed
qed simp

lemma positioned_numbered:
  assumes "numbered xs" "length xs < 2 ^ 31"
  shows "positioned xs"
proof -
  have n: "unat (of_nat i :: 32 word) = i" if "i < length xs" for i
    using that assms(2) by (simp add: unat_of_nat)
  have "inj_on (of_nat :: nat \<Rightarrow> 32 word) {0..<length xs}"
    using n by (metis (no_types, lifting) atLeastLessThan_iff inj_onI)
  then have "distinct (map start_pos xs)" using assms(1) by (simp add: numbered_def distinct_map)
  moreover have "unat (start_pos s) < 2 ^ 31" if "s \<in> set xs" for s
  proof -
    obtain i where i: "i < length xs" "s = xs ! i" using \<open>s \<in> set xs\<close> by (metis in_set_conv_nth)
    then have "start_pos s = of_nat i"
      using arg_cong [OF assms(1) [unfolded numbered_def], of "\<lambda>l. l ! i"] by simp
    then have "unat (start_pos s) = i" using n [OF i(1)] by simp
    then show ?thesis using less_trans [OF i(1) assms(2)] by simp
  qed
  ultimately show ?thesis by (simp add: positioned_def)
qed

text \<open>The entries before they are sorted, with the addresses of per-CPU symbols made absolute.\<close>

definition read_entries :: "ksym_opts \<Rightarrow> scanned list \<Rightarrow> sym_entry list" where
  "read_entries opts inp =
     (let k = read_map inp initial_ksyms in table (if absolute_percpu opts then make_percpus_absolute k else k))"

lemma sorted_map_table: "table (sorted_map opts inp) = c_qsort compare_symbols (read_entries opts inp)"
  by (simp add: sorted_map_def sort_symbols_def read_entries_def record_relative_base_def Let_def)

lemma read_entries_well:
  assumes "text_input inp" "length inp < 2 ^ 31"
  shows "(\<forall>s\<in>set (read_entries opts inp). well_formed s) \<and> positioned (read_entries opts inp)
    \<and> length (read_entries opts inp) \<le> length inp"
proof -
  let ?k = "read_map inp initial_ksyms"
  have r: "(\<forall>s\<in>set (table ?k). well_formed s) \<and> numbered (table ?k)
      \<and> length (table ?k) \<le> length inp"
    using read_map_well [OF assms(1), of initial_ksyms] by (simp add: initial_ksyms_def numbered_def)
  have A: "well_formed (s\<lparr> ksym := (ksym s)[0 := CHR ''A''], percpu_absolute := True \<rparr>)" if wf: "well_formed s" for s
  proof -
    obtain n where n: "ksym s = entry_bytes s @ replicate (Suc n) NUL" "NUL \<notin> set (entry_bytes s)" "ksym_len s = length (entry_bytes s)"
      using wf by (auto simp: well_formed_def padded_entry_def padded_def)
    moreover obtain a w where "entry_bytes s = a # w"
      using wf n(3) by (cases "entry_bytes s") (simp_all add: well_formed_def)
    ultimately have "ksym s = (a # w) @ replicate (Suc n) NUL" "NUL \<notin> set (a # w)" "ksym_len s = length (a # w)" by simp_all
    then show ?thesis using that
      by (auto simp: well_formed_def padded_entry_def padded_def entry_bytes_def simp del: replicate_Suc)
  qed
  let ?m = "table (make_percpus_absolute ?k)"
  have m: "numbered ?m" "length ?m = length (table ?k)" "\<forall>s\<in>set ?m. well_formed s"
    using r A by (auto simp: make_percpus_absolute_def numbered_def comp_def if_distrib cong: if_cong)
  show ?thesis
    using r m assms(2) by (simp add: read_entries_def Let_def positioned_numbered)
qed

lemma set_c_qsort: "set (c_qsort cmp xs) = set xs"
proof -
  have i: "set (qsort_insert cmp x ys) = insert x (set ys)" for x ys by (induction ys) auto
  show ?thesis by (induction xs) (simp_all add: c_qsort_def i)
qed

lemma length_c_qsort: "length (c_qsort cmp xs) = length xs"
proof -
  have i: "length (qsort_insert cmp x ys) = Suc (length ys)" for x ys by (induction ys) auto
  show ?thesis by (induction xs) (simp_all add: c_qsort_def i)
qed

lemma sorted_map_well:
  assumes "text_input inp" "length inp < 2 ^ 31"
  shows "\<forall>s\<in>set (table (sorted_map opts inp)). well_formed s" "length (table (sorted_map opts inp)) \<le> length inp"
  using read_entries_well [OF assms, of opts] by (simp_all add: sorted_map_table set_c_qsort length_c_qsort)

section \<open>What the compression leaves alone\<close>

definition places :: "sym_entry list \<Rightarrow> (64 word \<times> bool) list" where
  "places ss = map (\<lambda>s. (addr s, percpu_absolute s)) ss"

lemma compress_symbols_places: "compress_symbols t idx ss tp = (ss', tp') \<Longrightarrow> places ss' = places ss"
proof (induction ss arbitrary: tp ss')
  case (Cons s ss)
  obtain s1 tp1 ss1 where c: "compress_symbol t idx s tp = (s1, tp1)" "compress_symbols t idx ss tp1 = (ss1, tp')"
      "ss' = s1 # ss1"
    using Cons.prems by (auto split: prod.splits)
  moreover have "addr s1 = addr s \<and> percpu_absolute s1 = percpu_absolute s"
    using c(1) by (auto simp: compress_symbol_def Let_def split: option.splits prod.splits)
  ultimately show ?case using Cons.IH by (simp add: places_def)
qed simp

lemma optimize_from_places: "places (symbols (optimize_from n c)) = places (symbols c)"
proof (induction n c rule: optimize_from.induct)
  case (2 n c)
  let ?b = "find_best_token (token_profit c)"
  have "places (symbols (place_token ?b (char_of n) c)) = places (symbols c)"
    using compress_symbols_places by (simp add: place_token_def Let_def split: prod.splits)
  then show ?case using 2 by (simp add: Let_def)
qed simp

lemma optimize_token_table_places:
  assumes "optimize_token_table valid tab = Some c"
  shows "places (symbols c) = places (filter valid tab)"
proof -
  obtain kept tp where b: "build_initial_tok_table valid tab (\<lambda>_. 0) = (kept, tp)" by fastforce
  have k: "kept = filter valid tab" using build_initial_tok_table_eq [OF b] by simp
  have "Some (optimize_result (insert_real_symbols_in_table (empty_tables tp kept))) = Some c"
    using assms unfolding optimize_token_table_def b Let_def prod.case by (metis option.distinct(1))
  then have "c = optimize_from 256 (insert_real_symbols_in_table (empty_tables tp kept))"
    by (simp only: optimize_result_def option.inject)
  moreover have "symbols (insert_real_symbols_in_table (empty_tables tp kept)) = kept"
    by (simp add: insert_real_symbols mark_def empty_tables_def)
  ultimately show ?thesis by (simp only: optimize_from_places k)
qed

lemma optimize_token_table_None:
  "optimize_token_table valid tab = None \<longleftrightarrow> filter valid tab = []"
proof -
  obtain kept tp where b: "build_initial_tok_table valid tab (\<lambda>_. 0) = (kept, tp)" by fastforce
  have "symbols (insert_real_symbols_in_table (empty_tables tp kept)) = kept"
    by (simp add: insert_real_symbols mark_def empty_tables_def)
  then show ?thesis using build_initial_tok_table_eq [OF b]
    unfolding optimize_token_table_def b Let_def prod.case by auto
qed

lemma optimize_is_greedy:
  assumes "list_all well_formed tab" "greedy 256 (used_in (map entry_bytes (filter valid tab)))
      (map entry_bytes (filter valid tab)) (\<lambda>_. None) = (ws, dict)"
  shows "case optimize_token_table valid tab of
      None \<Rightarrow> filter valid tab = []
    | Some c \<Rightarrow> map entry_bytes (symbols c) = ws \<and> dict_of c = dict
        \<and> (\<forall>a b. token_profit c (pair_index a b) = int (frequency (a, b) ws))"
proof (cases "optimize_token_table valid tab")
  case None
  then have "filter valid tab = []" using optimize_token_table_None by blast
  then show ?thesis using None by simp
next
  case (Some c)
  have "list_all2 entry_holds (symbols c) ws \<and> counted (token_profit c) ws \<and> dict_of c = dict"
    using optimize_token_table_greedy [OF Some _ refl assms(2)] assms(1) by (auto simp: list_all_iff well_formed_def)
  moreover from this have "map entry_bytes (symbols c) = ws"
    by (auto simp: list_all2_conv_all_nth entry_holds_def intro: nth_equalityI)
  ultimately show ?thesis using Some pair_index_less by (simp add: counted_def)
qed

section \<open>Addresses\<close>

lemma ucast_ucast_small:
  fixes x :: "64 word"
  assumes "0 \<le> sint x" "sint x < 2 ^ 32"
  shows "ucast (ucast x :: 32 word) = x"
proof -
  have "uint x = sint x" using assms uint_sint [of x] by (simp add: take_bit_int_eq_self)
  then have "uint x < 2 ^ 32" using assms(2) by simp
  then show ?thesis by (intro word_uint_eqI) (simp add: unsigned_ucast_eq unsigned_take_bit_eq take_bit_int_eq_self)
qed

lemma scast_ucast_small:
  fixes x :: "64 word"
  assumes "- (2 ^ 31) \<le> sint x" "sint x < 2 ^ 31"
  shows "sint (ucast x :: 32 word) = sint x" "scast (ucast x :: 32 word) = x"
proof -
  have "sint (ucast x :: 32 word) = signed_take_bit 31 (uint x)"
    by (transfer, simp add: signed_take_bit_take_bit)
  also have "\<dots> = signed_take_bit 31 (sint x)"
    by (transfer, simp add: signed_take_bit_take_bit signed_take_bit_signed_take_bit)
  also have "\<dots> = sint x" using assms by (intro signed_take_bit_int_eq_self) simp_all
  finally show s: "sint (ucast x :: 32 word) = sint x" .
  then show "scast (ucast x :: 32 word) = x" by (simp only: scast_eq s) simp
qed

text \<open>What a line of an address means to the reader.\<close>

definition line_address :: "ksym_opts \<Rightarrow> 64 word \<Rightarrow> 64 word \<Rightarrow> asm \<Rightarrow> 64 word" where
  "line_address opts text base l =
     (if base_relative opts then
        (case l of
           Long off \<Rightarrow> (if \<not> absolute_percpu opts then base + ucast off
                        else if 0 \<le> sint off then ucast off else base - 1 - scast off)
         | _ \<Rightarrow> 0)
      else case l of Ptr_above d \<Rightarrow> text + d | Ptr_below d \<Rightarrow> text - d | Ptr a \<Rightarrow> a | _ \<Rightarrow> 0)"

lemma address_line_read:
  assumes "address_line opts text base s = Inr l"
  shows "line_address opts text base l = addr s"
proof (cases "base_relative opts")
  case False
  then show ?thesis using assms by (auto simp: address_line_def line_address_def split: if_splits)
next
  case rel: True
  show ?thesis
  proof (cases "absolute_percpu opts")
    case False
    let ?o = "addr s - base"
    have "l = Long (ucast ?o)" "0 \<le> sint ?o" "sint ?o < 2 ^ 32"
      using assms rel False by (auto simp: address_line_def offset_line_def Let_def split: if_splits)
    then show ?thesis using rel False ucast_ucast_small [of ?o] by (simp add: line_address_def)
  next
    case pc: True
    show ?thesis
    proof (cases "symbol_absolute s")
      case True
      then have "l = Long (ucast (addr s))" "0 \<le> sint (addr s)" "sint (addr s) < 2 ^ 31"
        using assms rel pc by (auto simp: address_line_def offset_line_def Let_def split: if_splits)
      then show ?thesis using rel pc ucast_ucast_small [of "addr s"] scast_ucast_small(1) [of "addr s"]
        by (simp add: line_address_def)
    next
      case False
      let ?o = "base - addr s - 1"
      have "l = Long (ucast ?o)" "- (2 ^ 31) \<le> sint ?o" "sint ?o < 0"
        using assms rel pc False by (auto simp: address_line_def offset_line_def Let_def split: if_splits)
      then show ?thesis using rel pc scast_ucast_small [of ?o] by (simp add: line_address_def)
    qed
  qed
qed

lemma address_line_place:
  "addr s = addr s' \<Longrightarrow> percpu_absolute s = percpu_absolute s' \<Longrightarrow>
    address_line opts text base s = address_line opts text base s'"
  by (simp add: address_line_def symbol_absolute_def)

definition addresses_fit :: "ksym_opts \<Rightarrow> 64 word \<Rightarrow> 64 word \<Rightarrow> sym_entry list \<Rightarrow> bool" where
  "addresses_fit opts text base ss =
     list_all (\<lambda>s. case address_line opts text base s of Inl _ \<Rightarrow> False | Inr _ \<Rightarrow> True) ss"

lemma addresses_fit_places:
  "places ss = places ss' \<Longrightarrow> addresses_fit opts text base ss = addresses_fit opts text base ss'"
proof (induction ss arbitrary: ss')
  case (Cons s ss)
  then obtain s' ts where "ss' = s' # ts" "addr s = addr s'" "percpu_absolute s = percpu_absolute s'" "places ss = places ts"
    by (cases ss') (auto simp: places_def)
  then show ?case using Cons.IH [of ts] address_line_place [of s s'] by (simp add: addresses_fit_def)
qed (simp add: places_def)

lemma write_addresses_fit:
  "addresses_fit opts text base ss \<Longrightarrow>
     \<exists>ls. write_addresses opts text base ss = Inr ls \<and> map (line_address opts text base) ls = map addr ss \<and> plain ls"
proof (induction ss)
  case (Cons s ss)
  then obtain l ls where l: "address_line opts text base s = Inr l" and "write_addresses opts text base ss = Inr ls"
      "map (line_address opts text base) ls = map addr ss" "plain ls"
    by (auto simp: addresses_fit_def split: sum.splits)
  moreover have "l \<noteq> Blank \<and> (\<forall>n. l \<noteq> Label n)"
    using l by (auto simp: address_line_def offset_line_def Let_def split: if_splits)
  ultimately show ?case using address_line_read [OF l] by (simp add: plain_def)
qed (simp add: plain_def)

section \<open>The lines of a run\<close>

definition valid_symbols :: "ksym_opts \<Rightarrow> scanned list \<Rightarrow> sym_entry list" where
  "valid_symbols opts inp =
     filter (symbol_valid opts (text_ranges (sorted_map opts inp))) (table (sorted_map opts inp))"

definition src_tables :: "ksym_opts \<Rightarrow> 64 word \<Rightarrow> 64 word \<Rightarrow> nat \<Rightarrow> asm list \<Rightarrow> asm list \<Rightarrow> nat list \<Rightarrow> asm list
    \<Rightarrow> nat list \<Rightarrow> (cstr \<times> asm list) list" where
  "src_tables opts text base n addresses names markers tokens best_idx =
     [(if base_relative opts then ''kallsyms_offsets'' else ''kallsyms_addresses'', addresses)] @
     (if base_relative opts then [(''kallsyms_relative_base'', [Ptr_below (text - base)])] else []) @
     [(''kallsyms_num_syms'', [Long (of_nat n)]), (''kallsyms_names'', names),
      (''kallsyms_markers'', map (\<lambda>m. Long (of_nat m)) markers), (''kallsyms_token_table'', tokens),
      (''kallsyms_token_index'', map Short best_idx)]"

lemma write_src_tables:
  assumes "write_addresses opts text base (symbols c) = Inr addresses" "write_names 0 0 (symbols c) = (names, markers)"
    and "write_tokens c [0..<256] 0 = Some (Inr (tokens, best_idx))"
  shows "write_src opts text base c =
    Some (Inr (tables (src_tables opts text base (length (symbols c)) addresses names markers tokens best_idx)))"
  unfolding write_src_def assms tables_def src_tables_def by simp

lemma table_of_src:
  assumes "plain addresses" "plain names" "plain tokens"
    and out: "out = tables (src_tables opts text base n addresses names markers tokens best_idx)"
  shows "table_of ''kallsyms_names'' out = names" "table_of ''kallsyms_markers'' out = map (\<lambda>m. Long (of_nat m)) markers"
    "table_of ''kallsyms_token_table'' out = tokens" "table_of ''kallsyms_token_index'' out = map Short best_idx"
    "base_relative opts \<Longrightarrow> table_of ''kallsyms_offsets'' out = addresses"
    "base_relative opts \<Longrightarrow> table_of ''kallsyms_relative_base'' out = [Ptr_below (text - base)]"
    "\<not> base_relative opts \<Longrightarrow> table_of ''kallsyms_addresses'' out = addresses"
proof -
  have p: "\<forall>(l, ls)\<in>set (src_tables opts text base n addresses names markers tokens best_idx). plain ls"
    using assms(1-3) by (auto simp: src_tables_def plain_def)
  note t = table_of_tables [OF p, folded out]
  show "table_of ''kallsyms_names'' out = names" "table_of ''kallsyms_markers'' out = map (\<lambda>m. Long (of_nat m)) markers"
    "table_of ''kallsyms_token_table'' out = tokens" "table_of ''kallsyms_token_index'' out = map Short best_idx"
    "base_relative opts \<Longrightarrow> table_of ''kallsyms_offsets'' out = addresses"
    "base_relative opts \<Longrightarrow> table_of ''kallsyms_relative_base'' out = [Ptr_below (text - base)]"
    "\<not> base_relative opts \<Longrightarrow> table_of ''kallsyms_addresses'' out = addresses"
    by (rule t, simp add: src_tables_def)+
qed

lemma address_at_src:
  assumes "plain addresses" "plain names" "plain tokens" "i < length addresses"
    and out: "out = tables (src_tables opts text base n addresses names markers tokens best_idx)"
  shows "address_at opts text out i = line_address opts text base (addresses ! i)"
  using table_of_src [OF assms(1-3) out] assms(4)
  by (auto simp: address_at_def line_address_def split: asm.splits)

lemma bytes_of_names:
  "\<forall>s\<in>set ss. ksym_len s = length (entry_bytes s) \<Longrightarrow>
     bytes_of (map (\<lambda>s. Byte (ksym_len s) (entry_bytes s)) ss) = concat (map name_record (map entry_bytes ss))"
  by (induction ss) (simp_all add: bytes_of_def name_record_def)

lemma bytes_of_tokens: "bytes_of (map (Asciz \<circ> f) xs) = concat (map (\<lambda>s. s @ [NUL]) (map f xs))"
  by (induction xs) (simp_all add: bytes_of_def)

lemma numbers_of_longs: "numbers_of (map (\<lambda>m. Long (of_nat m)) ms) = map (\<lambda>m. unat (of_nat m :: 32 word)) ms"
  by (induction ms) (simp_all add: numbers_of_def)

lemma numbers_of_shorts: "numbers_of (map Short ns) = ns"
  by (induction ns) (simp_all add: numbers_of_def)

lemma record_pos_bound:
  "\<forall>w\<in>set ws. length w \<le> 128 \<Longrightarrow> length (concat (map name_record ws)) \<le> 129 * length ws"
  by (induction ws) (auto simp: name_record_def)

lemma symbol_at_src:
  assumes len: "\<forall>s\<in>set ss. ksym_len s = length (entry_bytes s) \<and> ksym_len s \<le> 128" "length ss < 2 ^ 24"
    and NUL: "\<forall>s\<in>set ss. \<forall>ch\<in>set (entry_bytes s). NUL \<notin> set (\<rho> ch)"
    and names: "write_names 0 0 ss = (names, markers)"
    and tokens: "tokens = map (Asciz \<circ> str) [0..<256]"
    and index: "best_idx = map (\<lambda>k. 0 + record_pos (map (\<lambda>i. str i @ [NUL]) [0..<256]) k) [0..<length [0..<256]]"
    and str: "str = (\<lambda>i. takeWhile (\<lambda>ch. ch \<noteq> NUL) (\<rho> (char_of i)))"
    and plain: "plain addresses" and i: "i < length ss"
    and out: "out = tables (src_tables opts text base n addresses names markers tokens best_idx)"
  shows "symbol_at out i = concat (map \<rho> (entry_bytes (ss ! i)))"
proof -
  let ?ws = "map entry_bytes ss" and ?k = "i div 256" and ?j = "256 * (i div 256)"
  have nm: "names = map (\<lambda>s. Byte (ksym_len s) (entry_bytes s)) ss" "markers = snd (write_names 0 0 ss)"
    using write_names_lines [of 0 0 ss] names by simp_all
  have pl: "plain names" "plain tokens" by (auto simp: plain_def nm tokens)
  note t = table_of_src [OF plain pl out]
  have w: "\<forall>w\<in>set ?ws. length w \<le> 128" using len(1) by fastforce
  then have w': "\<forall>w\<in>set ?ws. length w < 256" by fastforce
  have j: "?j \<le> i" "?j < length ss" "i = ?j + i mod 256" using i by simp_all
  have "markers ! ?k = record_pos (map name_record ?ws) ?j \<and> ?k < length markers"
    using write_names_markers [of ss ?k 0 ?j 0] len(1) j(2) unfolding nm by (simp add: comp_def)
  moreover have "record_pos (map name_record ?ws) ?j < 2 ^ 32"
    using record_pos_le [of "map name_record ?ws" ?j] record_pos_bound [OF w] len(2) by simp
  ultimately have m: "numbers_of (table_of ''kallsyms_markers'' out) ! ?k = record_pos (map name_record ?ws) ?j"
    by (simp add: t numbers_of_longs unat_of_nat)
  have b: "bytes_of (table_of ''kallsyms_names'' out) = concat (map name_record ?ws)"
    using bytes_of_names [of ss] len(1) by (simp add: t nm)
  have p: "skip_records (concat (map name_record ?ws)) (i mod 256) (record_pos (map name_record ?ws) ?j)
      = record_pos (map name_record ?ws) i"
    using skip_records_pos [OF w', of ?j "i mod 256"] i j by simp
  have c: "take (chr_code (concat (map name_record ?ws) ! record_pos (map name_record ?ws) i))
      (drop (record_pos (map name_record ?ws) i + 1) (concat (map name_record ?ws))) = entry_bytes (ss ! i)"
    using name_at(1,2) [OF _ w', of i] i by simp
  have "token_string (bytes_of (table_of ''kallsyms_token_table'' out)) (numbers_of (table_of ''kallsyms_token_index'' out) ! chr_code ch) = \<rho> ch"
    if "ch \<in> set (entry_bytes (ss ! i))" for ch
  proof -
    let ?strs = "map str [0..<256]"
    have n: "\<forall>s\<in>set ?strs. NUL \<notin> set s" by (auto simp: str dest: set_takeWhileD)
    have "NUL \<notin> set (\<rho> ch)" using NUL that i by (meson nth_mem)
    then have "?strs ! chr_code ch = \<rho> ch" by (simp add: str) (metis takeWhile_eq_all_conv)
    moreover have "numbers_of (table_of ''kallsyms_token_index'' out) ! chr_code ch = record_pos (map (\<lambda>s. s @ [NUL]) ?strs) (chr_code ch)"
      unfolding t numbers_of_shorts by (simp add: index comp_def)
    moreover have "bytes_of (table_of ''kallsyms_token_table'' out) = concat (map (\<lambda>s. s @ [NUL]) ?strs)"
      unfolding t tokens by (rule bytes_of_tokens)
    ultimately show ?thesis using token_string_pos [OF _ n, of "chr_code ch"] by simp
  qed
  then have "map (\<lambda>ch. token_string (bytes_of (table_of ''kallsyms_token_table'' out))
      (numbers_of (table_of ''kallsyms_token_index'' out) ! chr_code ch)) (entry_bytes (ss ! i)) = map \<rho> (entry_bytes (ss ! i))"
    by (intro map_cong refl)
  then show ?thesis unfolding symbol_at_def Let_def b m p c by (rule arg_cong)
qed

section \<open>The whole program\<close>

lemma list_all2_left: "list_all2 P xs ys \<Longrightarrow> x \<in> set xs \<Longrightarrow> \<exists>y\<in>set ys. P x y"
  by (induction rule: list_all2_induct) auto

text \<open>What the compression of the valid symbols gives \<open>write_src\<close>.\<close>

lemma run_compresses:
  assumes "text_input inp" "length inp < 2 ^ 31" "optimize_token_table (symbol_valid opts (text_ranges (sorted_map opts inp)))
      (table (sorted_map opts inp)) = Some c"
  defines "v \<equiv> valid_symbols opts inp"
  shows "\<exists>\<rho>. (\<forall>ch. expand_symbol c [ch] = Some (\<rho> ch) \<and> NUL \<notin> set (\<rho> ch)
        \<and> (\<rho> ch = [] \<or> (\<exists>s\<in>set v. length (\<rho> ch) \<le> ksym_len s)))
    \<and> map (\<lambda>s. concat (map \<rho> (entry_bytes s))) (symbols c) = map entry_bytes v
    \<and> (\<forall>s\<in>set (symbols c). ksym_len s = length (entry_bytes s) \<and> ksym_len s \<le> KSYM_NAME_LEN)
    \<and> places (symbols c) = places v \<and> length v \<le> length inp"
proof -
  let ?k = "sorted_map opts inp"
  have v: "filter (symbol_valid opts (text_ranges ?k)) (table ?k) = v" by (simp add: v_def valid_symbols_def)
  have wf: "\<forall>s\<in>set (table ?k). well_formed s" "length (table ?k) \<le> length inp"
    using sorted_map_well [OF assms(1,2), of opts] by simp_all
  obtain \<rho> where r: "\<forall>ch. expand_symbol c [ch] = Some (\<rho> ch)"
    and m: "map (\<lambda>s. concat (map \<rho> (entry_bytes s))) (symbols c) = map entry_bytes v"
    and l: "list_all2 (\<lambda>s w. ksym_len s = length (entry_bytes s) \<and> ksym_len s \<le> length w) (symbols c) (map entry_bytes v)"
    and f: "\<forall>ch. \<rho> ch = [] \<or> (\<exists>s\<in>set v. \<exists>A B. entry_bytes s = A @ \<rho> ch @ B)"
    using optimize_expands [OF assms(3)] wf(1) unfolding v well_formed_def by blast
  have vt: "\<forall>s\<in>set v. well_formed s" "length v \<le> length (table ?k)"
    using wf(1) unfolding v_def valid_symbols_def by auto
  have b: "length (entry_bytes s) = ksym_len s" "ksym_len s \<le> KSYM_NAME_LEN" "NUL \<notin> set (entry_bytes s)" if "s \<in> set v" for s
    using that vt(1) by (auto simp: well_formed_def padded_entry_def padded_def)
  have "NUL \<notin> set (\<rho> ch) \<and> (\<rho> ch = [] \<or> (\<exists>s\<in>set v. length (\<rho> ch) \<le> ksym_len s))" for ch
  proof (cases "\<rho> ch = []")
    case False
    then obtain s A B where s: "s \<in> set v" "entry_bytes s = A @ \<rho> ch @ B" using f by metis
    then have "ksym_len s = length (A @ \<rho> ch @ B)" "NUL \<notin> set (A @ \<rho> ch @ B)" using b [OF s(1)] by simp_all
    then show ?thesis using s(1) by (auto intro!: bexI [of _ s])
  qed simp
  moreover have "\<forall>s\<in>set (symbols c). ksym_len s = length (entry_bytes s) \<and> ksym_len s \<le> KSYM_NAME_LEN"
  proof
    fix s assume "s \<in> set (symbols c)"
    from list_all2_left [OF l this] obtain u where "u \<in> set v" "ksym_len s = length (entry_bytes s)"
      "ksym_len s \<le> length (entry_bytes u)" by auto
    then show "ksym_len s = length (entry_bytes s) \<and> ksym_len s \<le> KSYM_NAME_LEN"
      using b(1,2) [of u] by linarith
  qed
  moreover have "places (symbols c) = places v" using optimize_token_table_places [OF assms(3)] unfolding v .
  moreover have "length v \<le> length inp" using vt(2) wf(2) by simp
  ultimately show ?thesis using r m by blast
qed

lemma run_expands:
  assumes "text_input inp" "length inp < 2 ^ 31" "optimize_token_table (symbol_valid opts (text_ranges (sorted_map opts inp)))
      (table (sorted_map opts inp)) = Some c"
  shows "\<exists>\<rho>. (\<forall>ch. expand_symbol c [ch] = Some (\<rho> ch))
    \<and> map (\<lambda>s. concat (map \<rho> (entry_bytes s))) (symbols c) = map entry_bytes (valid_symbols opts inp)"
  using run_compresses [OF assms] by blast

definition token_str :: "(char \<Rightarrow> cstr) \<Rightarrow> nat \<Rightarrow> cstr" where
  "token_str \<rho> i = takeWhile (\<lambda>ch. ch \<noteq> NUL) (\<rho> (char_of i))"

definition token_index :: "(char \<Rightarrow> cstr) \<Rightarrow> nat list" where
  "token_index \<rho> = map (\<lambda>k. 0 + record_pos (map (\<lambda>i. token_str \<rho> i @ [NUL]) [0..<256]) k) [0..<length [0 :: nat..<256]]"

lemma write_tokens_all:
  assumes "\<forall>ch. expand_symbol c [ch] = Some (\<rho> ch)"
  shows "write_tokens c [0..<256] 0 = Some (
    if \<forall>ch. length (\<rho> ch) < KSYM_NAME_LEN then Inr (map (Asciz \<circ> token_str \<rho>) [0..<256], token_index \<rho>)
    else Inl Overrun)"
proof -
  have "(\<forall>i\<in>set [0..<256]. length (\<rho> (char_of i)) < KSYM_NAME_LEN) \<longleftrightarrow> (\<forall>ch. length (\<rho> ch) < KSYM_NAME_LEN)"
    by (metis atLeastLessThan_iff char_of_chr_code chr_code_less le0 set_upt)
  then show ?thesis
    using write_tokens_correct [of c \<rho> "[0..<256]" 0] assms unfolding token_index_def token_str_def [abs_def] by simp
qed

lemma run_reads_back:
  assumes "text_input inp" "length inp < 2 ^ 24" "valid_symbols opts inp \<noteq> []"
    and short: "list_all (\<lambda>s. ksym_len s < KSYM_NAME_LEN) (valid_symbols opts inp)"
    and fit: "addresses_fit opts (text_addr (sorted_map opts inp)) (relative_base (sorted_map opts inp)) (valid_symbols opts inp)"
  shows "\<exists>out. run_kallsyms opts inp = Some (Inr out)
    \<and> map (symbol_at out) [0..<length (valid_symbols opts inp)] = map entry_bytes (valid_symbols opts inp)
    \<and> map (address_at opts (text_addr (sorted_map opts inp)) out) [0..<length (valid_symbols opts inp)]
        = map addr (valid_symbols opts inp)"
proof -
  let ?k = "sorted_map opts inp" and ?v = "valid_symbols opts inp"
  let ?text = "text_addr ?k" and ?base = "relative_base ?k"
  obtain c where c: "optimize_token_table (symbol_valid opts (text_ranges ?k)) (table ?k) = Some c"
    using optimize_token_table_None [of "symbol_valid opts (text_ranges ?k)" "table ?k"] assms(3)
    by (auto simp: valid_symbols_def)
  have l31: "length inp < 2 ^ 31" using assms(2) by simp
  obtain \<rho> where r: "\<forall>ch. expand_symbol c [ch] = Some (\<rho> ch)" "\<forall>ch. NUL \<notin> set (\<rho> ch)"
      "\<forall>ch. \<rho> ch = [] \<or> (\<exists>s\<in>set ?v. length (\<rho> ch) \<le> ksym_len s)"
    and m: "map (\<lambda>s. concat (map \<rho> (entry_bytes s))) (symbols c) = map entry_bytes ?v"
    and len: "\<forall>s\<in>set (symbols c). ksym_len s = length (entry_bytes s) \<and> ksym_len s \<le> KSYM_NAME_LEN"
    and pl: "places (symbols c) = places ?v" and vi: "length ?v \<le> length inp"
    using run_compresses [OF assms(1) l31 c] by blast
  have n: "length (symbols c) = length ?v" using m by (metis length_map)
  have "length (\<rho> ch) < KSYM_NAME_LEN" for ch
    using r(3) [rule_format, of ch] short by (auto simp: list_all_iff intro: le_less_trans)
  then have t: "write_tokens c [0..<256] 0 = Some (Inr (map (Asciz \<circ> token_str \<rho>) [0..<256], token_index \<rho>))"
    using write_tokens_all [OF r(1)] by simp
  obtain names markers where w: "write_names 0 0 (symbols c) = (names, markers)" by fastforce
  obtain addresses where a: "write_addresses opts ?text ?base (symbols c) = Inr addresses"
    "map (line_address opts ?text ?base) addresses = map addr (symbols c)" "plain addresses"
    using write_addresses_fit [of opts ?text ?base "symbols c"] fit addresses_fit_places [OF pl] by auto
  define out where "out = tables (src_tables opts ?text ?base (length (symbols c)) addresses names markers
    (map (Asciz \<circ> token_str \<rho>) [0..<256]) (token_index \<rho>))"
  have run: "run_kallsyms opts inp = Some (Inr out)"
    using write_src_tables [OF a(1) w t] by (simp add: run_kallsyms_def Let_def c out_def)
  have sym: "symbol_at out i = entry_bytes (?v ! i)" if "i < length ?v" for i
  proof -
    have "symbol_at out i = concat (map \<rho> (entry_bytes (symbols c ! i)))"
      by (rule symbol_at_src [OF len _ _ w refl token_index_def _ a(3) _ out_def])
        (use that n vi assms(2) r(2) in \<open>auto simp: token_str_def\<close>)
    also have "\<dots> = entry_bytes (?v ! i)" using arg_cong [OF m, of "\<lambda>l. l ! i"] that n by simp
    finally show ?thesis .
  qed
  have pln: "plain names" "plain (map (Asciz \<circ> token_str \<rho>) [0..<256])"
    using write_names_lines [of 0 0 "symbols c"] w by (auto simp: plain_def)
  have al: "length addresses = length ?v" using arg_cong [OF a(2), of length] n by simp
  have ad: "address_at opts ?text out i = addr (?v ! i)" if "i < length ?v" for i
    using address_at_src [OF a(3) pln _ out_def, of i] that al n
      arg_cong [OF a(2), of "\<lambda>l. l ! i"] arg_cong [OF pl, of "\<lambda>l. l ! i"] by (simp add: places_def)
  show ?thesis
    using run sym ad by (intro exI [of _ out] conjI) (auto intro: nth_equalityI)
qed

end
