(* ===== verification/Kallsyms_Properties.thy ===== *)
theory Kallsyms_Properties
  imports Kallsyms_Run
begin

text \<open>
  The properties of \<open>kallsyms.c\<close>: the tables it writes give the symbols back, its compression is the
  greedy one, the order of the symbols is determined, and one case where it leaves its buffer.
\<close>

section \<open>A small map\<close>

definition demo_opts :: ksym_opts where
  "demo_opts = \<lparr> all_symbols = False, absolute_percpu = False, base_relative = True \<rparr>"

definition demo_map :: "scanned list" where
  "demo_map =
     [Some (0x1000, CHR ''T'', ''_text'', []), Some (0x1000, CHR ''T'', ''_stext'', []),
      Some (0x1200, CHR ''t'', ''write_one'', []), Some (0x1100, CHR ''W'', ''write_two'', []),
      None, Some (0, CHR ''U'', ''printf'', []), Some (0x1100, CHR ''T'', ''__write_two'', []),
      Some (0x2000, CHR ''T'', ''_etext'', [])]"

lemma demo_map_ok: "text_input demo_map" "length demo_map = 8"
  by (simp_all add: text_input_def demo_map_def)

lemma demo_sorted:
  "map (\<lambda>s. (addr s, sym_name s)) (table (sorted_map demo_opts demo_map)) =
     [(0x1000, ''_text''), (0x1000, ''_stext''), (0x1100, ''__write_two''), (0x1100, ''write_two''),
      (0x1200, ''write_one''), (0x2000, ''_etext'')]"
  by code_simp

text \<open>
  C4: the tables read back. For a map of text lines whose valid symbols have names below the limit of
  the format, and whose addresses fit the form that was asked for, \<open>kallsyms\<close> ends with an output
  in which a reader that follows the markers, the length bytes, the token index and the token table
  finds every valid symbol under its number, with its type, its name and its address.
\<close>
theorem tables_read_back:
  assumes "text_input inp" "length inp < 2 ^ 24" "valid_symbols opts inp \<noteq> []"
    and "list_all (\<lambda>s. ksym_len s < KSYM_NAME_LEN) (valid_symbols opts inp)"
    and "addresses_fit opts (text_addr (sorted_map opts inp)) (relative_base (sorted_map opts inp)) (valid_symbols opts inp)"
  shows "\<exists>out. run_kallsyms opts inp = Some (Inr out)
    \<and> map (symbol_at out) [0..<length (valid_symbols opts inp)] = map entry_bytes (valid_symbols opts inp)
    \<and> map (address_at opts (text_addr (sorted_map opts inp)) out) [0..<length (valid_symbols opts inp)]
        = map addr (valid_symbols opts inp)"
  using assms by (rule run_reads_back)

theorem tables_read_back_witness:
  "\<exists>out. run_kallsyms demo_opts demo_map = Some (Inr out)
    \<and> map (symbol_at out) [0..<6] = [''T_text'', ''T_stext'', ''T__write_two'', ''Wwrite_two'', ''twrite_one'', ''T_etext'']
    \<and> map (address_at demo_opts 0x1000 out) [0..<6] = [0x1000, 0x1000, 0x1100, 0x1100, 0x1200, 0x2000]"
proof -
  have v: "length (valid_symbols demo_opts demo_map) = 6"
    "map entry_bytes (valid_symbols demo_opts demo_map) =
      [''T_text'', ''T_stext'', ''T__write_two'', ''Wwrite_two'', ''twrite_one'', ''T_etext'']"
    "map addr (valid_symbols demo_opts demo_map) = [0x1000, 0x1000, 0x1100, 0x1100, 0x1200, 0x2000]"
    "text_addr (sorted_map demo_opts demo_map) = 0x1000"
    by code_simp+
  show ?thesis
  proof (rule tables_read_back [of demo_map demo_opts, unfolded v])
    show "text_input demo_map" "length demo_map < 2 ^ 24" using demo_map_ok by simp_all
    show "valid_symbols demo_opts demo_map \<noteq> []" using v(1) by auto
    show "list_all (\<lambda>s. ksym_len s < KSYM_NAME_LEN) (valid_symbols demo_opts demo_map)" by code_simp
    show "addresses_fit demo_opts 0x1000 (relative_base (sorted_map demo_opts demo_map)) (valid_symbols demo_opts demo_map)"
      by code_simp
  qed
qed

text \<open>
  C12: the compression is the greedy one. \<open>token_profit\<close> always holds the number of times each pair
  occurs, so that the incremental counts never drift from the symbols, and the symbols and the
  table at the end are those of the procedure that replaces the most frequent pair of all symbols,
  the one with the smallest index among equals, by the highest free code, until no pair or no code
  is left.
\<close>
theorem compression_is_greedy:
  assumes "list_all well_formed tab" "greedy 256 (used_in (map entry_bytes (filter valid tab)))
      (map entry_bytes (filter valid tab)) (\<lambda>_. None) = (ws, dict)"
  shows "case optimize_token_table valid tab of
      None \<Rightarrow> filter valid tab = []
    | Some c \<Rightarrow> map entry_bytes (symbols c) = ws \<and> dict_of c = dict
        \<and> (\<forall>a b. token_profit c (pair_index a b) = int (frequency (a, b) ws))"
  using assms by (rule optimize_is_greedy)

definition demo_entry :: "cstr \<Rightarrow> sym_entry" where
  "demo_entry w = \<lparr> addr = 0, ksym_len = length w, start_pos = 0, ksym = w @ [NUL], percpu_absolute = False \<rparr>"

theorem compression_is_greedy_witness:
  "case optimize_token_table (\<lambda>s. True) [demo_entry ''Twrite_w'', demo_entry ''twrite''] of
      None \<Rightarrow> False
    | Some c \<Rightarrow> map entry_bytes (symbols c) = [[CHR 0xF9], [CHR 0xF8]]
        \<and> (\<forall>a b. token_profit c (pair_index a b) = int (frequency (a, b) [[CHR 0xF9], [CHR 0xF8]]))"
proof -
  let ?ws = "[''Twrite_w'', ''twrite'']"
  have e: "map entry_bytes (filter (\<lambda>s. True) [demo_entry ''Twrite_w'', demo_entry ''twrite'']) = ?ws"
    by (simp add: demo_entry_def entry_bytes_def)
  obtain d where g: "greedy 256 (used_in ?ws) ?ws (\<lambda>_. None) = ([[CHR 0xF9], [CHR 0xF8]], d)"
  proof
    have "fst (greedy 256 (used_in ?ws) ?ws (\<lambda>_. None)) = [[CHR 0xF9], [CHR 0xF8]]" by code_simp
    then show "greedy 256 (used_in ?ws) ?ws (\<lambda>_. None) = ([[CHR 0xF9], [CHR 0xF8]], snd (greedy 256 (used_in ?ws) ?ws (\<lambda>_. None)))"
      by (metis prod.collapse)
  qed
  have "list_all well_formed [demo_entry ''Twrite_w'', demo_entry ''twrite'']"
    by (auto intro!: well_formedI simp: demo_entry_def)
  from compression_is_greedy [OF this, of "\<lambda>s. True", unfolded e, OF g]
  show ?thesis by (simp split: option.splits)
qed

text \<open>
  the order of the symbols is determined. The comparison of the entries of a map is a linear
  order: a permutation of the table that is sorted by it is the one the program goes on with,
  whatever the algorithm of \<open>qsort\<close>.
\<close>
theorem symbols_sorted:
  assumes "text_input inp" "length inp < 2 ^ 31"
  shows "mset ys = mset (read_entries opts inp) \<and> sorted_wrt (\<lambda>a b. compare_symbols a b \<le> 0) ys
    \<longleftrightarrow> ys = table (sorted_map opts inp)"
  unfolding sorted_map_table using read_entries_well [OF assms] by (intro symbols_sorted_iff) simp

theorem symbols_sorted_witness:
  "mset (table (sorted_map demo_opts demo_map)) = mset (read_entries demo_opts demo_map)
    \<and> sorted_wrt (\<lambda>a b. compare_symbols a b \<le> 0) (table (sorted_map demo_opts demo_map))"
  using symbols_sorted [of demo_map "table (sorted_map demo_opts demo_map)" demo_opts] demo_map_ok by simp

section \<open>A token that does not fit\<close>

lemma long_name_read:
  "table (read_map [Some (a, CHR ''T'', replicate 127 CHR ''a'', [])] initial_ksyms) =
     [\<lparr> addr = a, ksym_len = 128, start_pos = 0, ksym = (CHR ''T'' # replicate 127 CHR ''a'') @ [NUL],
        percpu_absolute = False \<rparr>]"
  by code_simp

lemma long_name_valid:
  "symbol_valid \<lparr> all_symbols = True, absolute_percpu = False, base_relative = False \<rparr> ranges
     \<lparr> addr = a, ksym_len = 128, start_pos = 0, ksym = (CHR ''T'' # replicate 127 CHR ''a'') @ [NUL],
        percpu_absolute = False \<rparr>"
  by code_simp

lemma long_name_greedy:
  "map length (fst (greedy 256 (used_in [CHR ''T'' # replicate 127 CHR ''a'']) [CHR ''T'' # replicate 127 CHR ''a''] (\<lambda>_. None))) = [1]"
  by code_simp

text \<open>
  C39: a name of 127 characters, the longest \<open>read_symbol\<close> accepts, can make \<open>write_src\<close> write behind
  its buffer. With few symbols the compression goes on until a symbol is a single code; with its
  type byte the symbol has 128 bytes, the token expands to all of them, and \<open>expand_symbol\<close> stores
  the NUL behind them at \<open>buf[128]\<close>.
\<close>
theorem long_name_overruns:
  "run_kallsyms \<lparr> all_symbols = True, absolute_percpu = False, base_relative = False \<rparr>
     [Some (a, CHR ''T'', replicate 127 CHR ''a'', [])] = Some (Inl Overrun)"
proof -
  let ?o = "\<lparr> all_symbols = True, absolute_percpu = False, base_relative = False \<rparr>"
  let ?inp = "[Some (a, CHR ''T'', replicate 127 CHR ''a'', [])] :: scanned list"
  let ?w = "CHR ''T'' # replicate 127 CHR ''a''"
  let ?k = "sorted_map ?o ?inp"
  define e where "e = \<lparr> addr = a, ksym_len = 128, start_pos = 0, ksym = ?w @ [NUL], percpu_absolute = False \<rparr>"
  have "table (read_map ?inp initial_ksyms) = [e]" using long_name_read [of a] by (simp only: e_def)
  then have t: "table ?k = [e]"
    by (simp add: sorted_map_table read_entries_def c_qsort_def)
  have b: "entry_bytes e = ?w" by (simp add: e_def entry_bytes_def)
  have "symbol_valid ?o rs e" for rs using long_name_valid [of rs a] by (simp only: e_def)
  then have v: "valid_symbols ?o ?inp = [e]" by (simp add: valid_symbols_def t)
  obtain c where c: "optimize_token_table (symbol_valid ?o (text_ranges ?k)) (table ?k) = Some c"
    using optimize_token_table_None [of "symbol_valid ?o (text_ranges ?k)" "table ?k"] v
    by (auto simp: valid_symbols_def)
  have ti: "text_input ?inp" "length ?inp < 2 ^ 31" by (simp_all add: text_input_def)
  have wf: "list_all well_formed (table ?k)" using sorted_map_well(1) [OF ti] by (simp add: list_all_iff)
  have f: "map entry_bytes (filter (symbol_valid ?o (text_ranges ?k)) (table ?k)) = [?w]"
    using v b by (simp add: valid_symbols_def)
  obtain ws d where g: "greedy 256 (used_in [?w]) [?w] (\<lambda>_. None) = (ws, d)" by (cases "greedy 256 (used_in [?w]) [?w] (\<lambda>_. None)")
  have "map length ws = [1]" using long_name_greedy unfolding g by simp
  then obtain ch where ws: "ws = [[ch]]" by (auto simp: length_Suc_conv)
  have "map entry_bytes (symbols c) = ws"
    using optimize_is_greedy [OF wf, of "symbol_valid ?o (text_ranges ?k)", unfolded f, OF g] c by simp
  moreover obtain \<rho> where r: "\<forall>ch. expand_symbol c [ch] = Some (\<rho> ch)"
    and "map (\<lambda>s. concat (map \<rho> (entry_bytes s))) (symbols c) = [?w]"
    using run_expands [OF ti c, unfolded v list.map b] by (elim exE conjE) rule
  ultimately have "\<rho> ch = ?w" unfolding ws by (auto simp: map_eq_Cons_conv)
  then have "\<not> (\<forall>ch. length (\<rho> ch) < KSYM_NAME_LEN)" by (auto intro!: exI [of _ ch])
  then have "write_tokens c [0..<256] 0 = Some (Inl Overrun)" using write_tokens_all [OF r] by simp
  moreover have "addresses_fit ?o (text_addr ?k) (relative_base ?k) (symbols c)"
    by (simp add: addresses_fit_def list_all_iff address_line_def)
  then obtain ls where "write_addresses ?o (text_addr ?k) (relative_base ?k) (symbols c) = Inr ls"
    using write_addresses_fit by blast
  ultimately show ?thesis
    by (simp add: run_kallsyms_def Let_def c write_src_def split: prod.split)
qed

end
