(* ===== verification/Sumversion_Md4.thy ===== *)
theory Sumversion_Md4
  imports Bytes
begin

text \<open>
  The digest of \<open>mod/sumversion.c\<close>: its state, the update with a chunk of bytes, and the final block.
  The block is its 64 bytes of memory; \<open>le\<close> tells whether the host stores the low byte of a word
  first. A byte is a \<open>char\<close>, and the lists \<open>block\<close> and \<open>hash\<close> have 64 bytes and 4 words.
\<close>

unbundle bit_operations_syntax

section \<open>The code\<close>

record md4_ctx =
  md4_hash :: "32 word list"
  md4_block :: cstr
  byte_count :: "64 word"

definition lshift :: "32 word \<Rightarrow> nat \<Rightarrow> 32 word" where
  "lshift x s = (push_bit s x AND 0xFFFFFFFF) OR drop_bit (32 - s) x"

definition F :: "32 word \<Rightarrow> 32 word \<Rightarrow> 32 word \<Rightarrow> 32 word" where
  "F x y z = (x AND y) OR (NOT x AND z)"

definition G :: "32 word \<Rightarrow> 32 word \<Rightarrow> 32 word \<Rightarrow> 32 word" where
  "G x y z = (x AND y) OR (x AND z) OR (y AND z)"

definition H :: "32 word \<Rightarrow> 32 word \<Rightarrow> 32 word \<Rightarrow> 32 word" where
  "H x y z = x XOR y XOR z"

definition ROUND1 :: "32 word \<Rightarrow> 32 word \<Rightarrow> 32 word \<Rightarrow> 32 word \<Rightarrow> 32 word \<Rightarrow> nat \<Rightarrow> 32 word" where
  "ROUND1 a b c d k s = lshift (a + F b c d + k) s"

definition ROUND2 :: "32 word \<Rightarrow> 32 word \<Rightarrow> 32 word \<Rightarrow> 32 word \<Rightarrow> 32 word \<Rightarrow> nat \<Rightarrow> 32 word" where
  "ROUND2 a b c d k s = lshift (a + G b c d + k + 0x5A827999) s"

definition ROUND3 :: "32 word \<Rightarrow> 32 word \<Rightarrow> 32 word \<Rightarrow> 32 word \<Rightarrow> 32 word \<Rightarrow> nat \<Rightarrow> 32 word" where
  "ROUND3 a b c d k s = lshift (a + H b c d + k + 0x6ED9EBA1) s"

text \<open>Words in memory, and the conversions of the network header.\<close>

definition bytes_be :: "32 word \<Rightarrow> cstr" where
  "bytes_be w = map (\<lambda>s. char_of (unat (drop_bit s w))) [24, 16, 8, 0]"

definition word_be :: "cstr \<Rightarrow> 32 word" where
  "word_be bs = foldl (\<lambda>w c. w * 256 + of_char c) 0 bs"

definition load :: "bool \<Rightarrow> cstr \<Rightarrow> nat \<Rightarrow> 32 word" where
  "load le block i = (let bs = take 4 (drop (4 * i) block) in word_be (if le then rev bs else bs))"

definition store :: "bool \<Rightarrow> cstr \<Rightarrow> nat \<Rightarrow> 32 word \<Rightarrow> cstr" where
  "store le block i w =
     take (4 * i) block @ (if le then rev (bytes_be w) else bytes_be w) @ drop (4 * i + 4) block"

definition ntohl :: "bool \<Rightarrow> 32 word \<Rightarrow> 32 word" where
  "ntohl le w = (if le then word_be (rev (bytes_be w)) else w)"

definition le32_to_cpu_array :: "bool \<Rightarrow> cstr \<Rightarrow> nat \<Rightarrow> cstr" where
  "le32_to_cpu_array le block n = foldl (\<lambda>b i. store le b i (ntohl le (load le b i))) block [0..<n]"

definition md4_transform :: "32 word list \<Rightarrow> (nat \<Rightarrow> 32 word) \<Rightarrow> 32 word list" where
  "md4_transform hash inp =
     (let a = hash ! 0; b = hash ! 1; c = hash ! 2; d = hash ! 3;
          a = ROUND1 a b c d (inp 0) 3; d = ROUND1 d a b c (inp 1) 7;
          c = ROUND1 c d a b (inp 2) 11; b = ROUND1 b c d a (inp 3) 19;
          a = ROUND1 a b c d (inp 4) 3; d = ROUND1 d a b c (inp 5) 7;
          c = ROUND1 c d a b (inp 6) 11; b = ROUND1 b c d a (inp 7) 19;
          a = ROUND1 a b c d (inp 8) 3; d = ROUND1 d a b c (inp 9) 7;
          c = ROUND1 c d a b (inp 10) 11; b = ROUND1 b c d a (inp 11) 19;
          a = ROUND1 a b c d (inp 12) 3; d = ROUND1 d a b c (inp 13) 7;
          c = ROUND1 c d a b (inp 14) 11; b = ROUND1 b c d a (inp 15) 19;
          a = ROUND2 a b c d (inp 0) 3; d = ROUND2 d a b c (inp 4) 5;
          c = ROUND2 c d a b (inp 8) 9; b = ROUND2 b c d a (inp 12) 13;
          a = ROUND2 a b c d (inp 1) 3; d = ROUND2 d a b c (inp 5) 5;
          c = ROUND2 c d a b (inp 9) 9; b = ROUND2 b c d a (inp 13) 13;
          a = ROUND2 a b c d (inp 2) 3; d = ROUND2 d a b c (inp 6) 5;
          c = ROUND2 c d a b (inp 10) 9; b = ROUND2 b c d a (inp 14) 13;
          a = ROUND2 a b c d (inp 3) 3; d = ROUND2 d a b c (inp 7) 5;
          c = ROUND2 c d a b (inp 11) 9; b = ROUND2 b c d a (inp 15) 13;
          a = ROUND3 a b c d (inp 0) 3; d = ROUND3 d a b c (inp 8) 9;
          c = ROUND3 c d a b (inp 4) 11; b = ROUND3 b c d a (inp 12) 15;
          a = ROUND3 a b c d (inp 2) 3; d = ROUND3 d a b c (inp 10) 9;
          c = ROUND3 c d a b (inp 6) 11; b = ROUND3 b c d a (inp 14) 15;
          a = ROUND3 a b c d (inp 1) 3; d = ROUND3 d a b c (inp 9) 9;
          c = ROUND3 c d a b (inp 5) 11; b = ROUND3 b c d a (inp 13) 15;
          a = ROUND3 a b c d (inp 3) 3; d = ROUND3 d a b c (inp 11) 9;
          c = ROUND3 c d a b (inp 7) 11; b = ROUND3 b c d a (inp 15) 15
      in [hash ! 0 + a, hash ! 1 + b, hash ! 2 + c, hash ! 3 + d])"

definition md4_transform_helper :: "bool \<Rightarrow> md4_ctx \<Rightarrow> md4_ctx" where
  "md4_transform_helper le ctx =
     (let block = le32_to_cpu_array le (md4_block ctx) 16
      in ctx\<lparr> md4_block := block, md4_hash := md4_transform (md4_hash ctx) (load le block) \<rparr>)"

text \<open>The block is left as it is.\<close>

definition md4_init :: "md4_ctx \<Rightarrow> md4_ctx" where
  "md4_init mctx = mctx\<lparr> md4_hash := [0x67452301, 0xefcdab89, 0x98badcfe, 0x10325476], byte_count := 0 \<rparr>"

definition copy_at :: "cstr \<Rightarrow> nat \<Rightarrow> cstr \<Rightarrow> cstr" where
  "copy_at block off data = take off block @ data @ drop (off + length data) block"

function md4_blocks :: "bool \<Rightarrow> md4_ctx \<Rightarrow> cstr \<Rightarrow> md4_ctx \<times> cstr" where
  "md4_blocks le mctx data =
     (if length data \<ge> 64
      then md4_blocks le (md4_transform_helper le (mctx\<lparr> md4_block := copy_at (md4_block mctx) 0 (take 64 data) \<rparr>)) (drop 64 data)
      else (mctx, data))"
  by auto
termination by (relation "measure (\<lambda>(le, mctx, data). length data)") auto

declare md4_blocks.simps [simp del]

definition md4_update :: "bool \<Rightarrow> md4_ctx \<Rightarrow> cstr \<Rightarrow> md4_ctx" where
  "md4_update le mctx data =
     (let avail = 64 - unat (byte_count mctx AND 0x3f);
          mctx = mctx\<lparr> byte_count := byte_count mctx + of_nat (length data) \<rparr>
      in if avail > length data
         then mctx\<lparr> md4_block := copy_at (md4_block mctx) (64 - avail) data \<rparr>
         else
           let mctx = md4_transform_helper le
                        (mctx\<lparr> md4_block := copy_at (md4_block mctx) (64 - avail) (take avail data) \<rparr>);
               (mctx, data) = md4_blocks le mctx (drop avail data)
           in mctx\<lparr> md4_block := copy_at (md4_block mctx) 0 data \<rparr>)"

text \<open>\<open>%08X\<close> of a word.\<close>

definition hex_digit :: "nat \<Rightarrow> char" where
  "hex_digit n = char_of (if n < 10 then 48 + n else 55 + n)"

definition hex8 :: "32 word \<Rightarrow> cstr" where
  "hex8 w = map (\<lambda>s. hex_digit (unat (drop_bit s w AND 15))) [28, 24, 20, 16, 12, 8, 4, 0]"

text \<open>The final block; the result is what \<open>snprintf\<close> leaves in an output of \<open>n\<close> bytes before the NUL.\<close>

definition md4_final_ascii :: "bool \<Rightarrow> md4_ctx \<Rightarrow> nat \<Rightarrow> cstr" where
  "md4_final_ascii le mctx n =
     (let offset = unat (byte_count mctx AND 0x3f);
          block = copy_at (md4_block mctx) offset [CHR 0x80];
          (mctx, p, padding) =
            (if 56 < offset + 1
             then (md4_transform_helper le
                     (mctx\<lparr> md4_block := copy_at block (offset + 1) (replicate (64 - (offset + 1)) CHR 0x00) \<rparr>), 0, 56)
             else (mctx\<lparr> md4_block := block \<rparr>, offset + 1, 56 - (offset + 1)));
          block = copy_at (md4_block mctx) p (replicate padding CHR 0x00);
          block = store le block 14 (ucast (push_bit 3 (byte_count mctx)));
          block = store le block 15 (ucast (drop_bit 29 (byte_count mctx)));
          block = le32_to_cpu_array le block 14;
          hash = map (ntohl le) (md4_transform (md4_hash mctx) (load le block))
      in take (n - 1) (concat (map hex8 hash)))"

end
