(* ===== verification/Sumversion_Digest.thy ===== *)
theory Sumversion_Digest
  imports Sumversion_Md4
begin

text \<open>
  The digest against a reference: the words of the padded message, taken 16 at a time. The state
  after any sequence of updates is determined by the message that the chunks make up.
\<close>

section \<open>The reference\<close>

text \<open>
  The compression function as RFC 1320 states it: a table of 48 operations \<open>[ABCD k s]\<close>, where the
  registers rotate after each of them.
\<close>

definition schedule :: "((32 word \<Rightarrow> 32 word \<Rightarrow> 32 word \<Rightarrow> 32 word) \<times> 32 word \<times> nat \<times> nat) list" where
  "schedule =
     map (\<lambda>(k, s). (F, 0, k, s)) (zip [0..<16] (concat (replicate 4 [3, 7, 11, 19]))) @
     map (\<lambda>(k, s). (G, 0x5A827999, k, s))
       (zip [0, 4, 8, 12, 1, 5, 9, 13, 2, 6, 10, 14, 3, 7, 11, 15] (concat (replicate 4 [3, 5, 9, 13]))) @
     map (\<lambda>(k, s). (H, 0x6ED9EBA1, k, s))
       (zip [0, 8, 4, 12, 2, 10, 6, 14, 1, 9, 5, 13, 3, 11, 7, 15] (concat (replicate 4 [3, 9, 11, 15])))"

definition operation :: "(nat \<Rightarrow> 32 word) \<Rightarrow> 32 word \<times> 32 word \<times> 32 word \<times> 32 word
    \<Rightarrow> (32 word \<Rightarrow> 32 word \<Rightarrow> 32 word \<Rightarrow> 32 word) \<times> 32 word \<times> nat \<times> nat
    \<Rightarrow> 32 word \<times> 32 word \<times> 32 word \<times> 32 word" where
  "operation x r t =
     (case r of (a, b, c, d) \<Rightarrow> case t of (f, q, k, s) \<Rightarrow> (d, word_rotl s (a + f b c d + x k + q), b, c))"

definition add_registers :: "32 word list \<Rightarrow> 32 word \<times> 32 word \<times> 32 word \<times> 32 word \<Rightarrow> 32 word list" where
  "add_registers h r = (case r of (a, b, c, d) \<Rightarrow> [h ! 0 + a, h ! 1 + b, h ! 2 + c, h ! 3 + d])"

definition compress :: "32 word list \<Rightarrow> (nat \<Rightarrow> 32 word) \<Rightarrow> 32 word list" where
  "compress h x = add_registers h (foldl (operation x) (h ! 0, h ! 1, h ! 2, h ! 3) schedule)"

text \<open>The message with its padding, read as words, and the two words of the number of bits.\<close>

definition pad_message :: "cstr \<Rightarrow> cstr" where
  "pad_message m = m @ CHR 0x80 # replicate ((119 - length m mod 64) mod 64) CHR 0x00"

fun words_of :: "(cstr \<Rightarrow> 32 word) \<Rightarrow> cstr \<Rightarrow> 32 word list" where
  "words_of rd (a # b # c # d # bs) = rd [a, b, c, d] # words_of rd bs"
| "words_of rd _ = []"

definition message_words :: "(cstr \<Rightarrow> 32 word) \<Rightarrow> cstr \<Rightarrow> 32 word list" where
  "message_words rd m =
     words_of rd (pad_message m) @
     [ucast (push_bit 3 (of_nat (length m) :: 64 word)), ucast (drop_bit 29 (of_nat (length m) :: 64 word))]"

function hash_words :: "32 word list \<Rightarrow> 32 word list \<Rightarrow> 32 word list" where
  "hash_words h ws = (if length ws \<ge> 16 then hash_words (compress h (\<lambda>i. ws ! i)) (drop 16 ws) else h)"
  by auto
termination by (relation "measure (\<lambda>(h, ws). length ws)") auto

declare hash_words.simps [simp del]

definition initial_hash :: "32 word list" where
  "initial_hash = [0x67452301, 0xefcdab89, 0x98badcfe, 0x10325476]"

definition digest_words :: "(cstr \<Rightarrow> 32 word) \<Rightarrow> cstr \<Rightarrow> 32 word list" where
  "digest_words rd m = hash_words initial_hash (message_words rd m)"

section \<open>The compression function\<close>

lemma Let_out: "f (Let e g) = (let x = e in f (g x))"
  by (simp add: Let_def)

lemma lshift_rotl:
  assumes "0 < s" "s < 32"
  shows "lshift x s = word_rotl s x"
proof -
  have "lshift x s = push_bit s x OR drop_bit (32 - s) x"
  proof -
    have "(0xFFFFFFFF :: 32 word) = - 1" by simp
    then show ?thesis unfolding lshift_def by (metis and.right_neutral)
  qed
  also have "\<dots> = word_rotl s x"
  proof (rule bit_word_eqI)
    fix n assume n: "n < LENGTH(32)"
    show "bit (push_bit s x OR drop_bit (32 - s) x) n = bit (word_rotl s x) n"
    proof (cases "s \<le> n")
      case True
      then have "(n + (32 - s)) mod 32 = n - s" using assms n by (simp add: mod_if)
      moreover have "\<not> bit x (32 - s + n)" using True n by (auto dest: bit_imp_le_length)
      ultimately show ?thesis using True assms n by (simp add: bit_simps)
    next
      case False
      then have "(n + (32 - s)) mod 32 = n + (32 - s)" using assms n by simp
      moreover have "32 - s + n = n + (32 - s)" by simp
      ultimately show ?thesis using False assms n by (simp add: bit_simps del: add_diff_assoc Nat.add_diff_assoc)
    qed
  qed
  finally show ?thesis .
qed

lemma four_operations:
  "foldl (operation x) (a, b, c, d) ((f, q, k0, s0) # (f, q, k1, s1) # (f, q, k2, s2) # (f, q, k3, s3) # ts) =
     (let a = word_rotl s0 (a + f b c d + x k0 + q); d = word_rotl s1 (d + f a b c + x k1 + q);
          c = word_rotl s2 (c + f d a b + x k2 + q); b = word_rotl s3 (b + f c d a + x k3 + q)
      in foldl (operation x) (a, b, c, d) ts)"
  by (simp add: operation_def Let_def)

lemma schedule_eq:
  "schedule =
     [(F, 0, 0, 3), (F, 0, 1, 7), (F, 0, 2, 11), (F, 0, 3, 19), (F, 0, 4, 3), (F, 0, 5, 7), (F, 0, 6, 11), (F, 0, 7, 19),
      (F, 0, 8, 3), (F, 0, 9, 7), (F, 0, 10, 11), (F, 0, 11, 19), (F, 0, 12, 3), (F, 0, 13, 7), (F, 0, 14, 11), (F, 0, 15, 19)] @
     [(G, 0x5A827999, 0, 3), (G, 0x5A827999, 4, 5), (G, 0x5A827999, 8, 9), (G, 0x5A827999, 12, 13),
      (G, 0x5A827999, 1, 3), (G, 0x5A827999, 5, 5), (G, 0x5A827999, 9, 9), (G, 0x5A827999, 13, 13),
      (G, 0x5A827999, 2, 3), (G, 0x5A827999, 6, 5), (G, 0x5A827999, 10, 9), (G, 0x5A827999, 14, 13),
      (G, 0x5A827999, 3, 3), (G, 0x5A827999, 7, 5), (G, 0x5A827999, 11, 9), (G, 0x5A827999, 15, 13)] @
     [(H, 0x6ED9EBA1, 0, 3), (H, 0x6ED9EBA1, 8, 9), (H, 0x6ED9EBA1, 4, 11), (H, 0x6ED9EBA1, 12, 15),
      (H, 0x6ED9EBA1, 2, 3), (H, 0x6ED9EBA1, 10, 9), (H, 0x6ED9EBA1, 6, 11), (H, 0x6ED9EBA1, 14, 15),
      (H, 0x6ED9EBA1, 1, 3), (H, 0x6ED9EBA1, 9, 9), (H, 0x6ED9EBA1, 5, 11), (H, 0x6ED9EBA1, 13, 15),
      (H, 0x6ED9EBA1, 3, 3), (H, 0x6ED9EBA1, 11, 9), (H, 0x6ED9EBA1, 7, 11), (H, 0x6ED9EBA1, 15, 15)]"
  by (simp add: schedule_def upt_rec numeral_eq_Suc)

lemma rotations:
  "lshift x 3 = word_rotl 3 x" "lshift x 5 = word_rotl 5 x" "lshift x 7 = word_rotl 7 x" "lshift x 9 = word_rotl 9 x"
  "lshift x 11 = word_rotl 11 x" "lshift x 13 = word_rotl 13 x" "lshift x 15 = word_rotl 15 x" "lshift x 19 = word_rotl 19 x"
  by (simp_all add: lshift_rotl)

lemma md4_transform_compress: "md4_transform h x = compress h x"
  unfolding compress_def schedule_eq append_Cons append_Nil four_operations foldl_Nil Let_out [of "add_registers h"]
    md4_transform_def ROUND1_def ROUND2_def ROUND3_def rotations
  by (simp only: add_registers_def prod.case add_0_right Let_def [of "h ! _"])

lemma compress_cong:
  assumes "\<And>i. i < 16 \<Longrightarrow> x i = y i"
  shows "compress h x = compress h y"
proof -
  have "operation x r t = operation y r t" if "t \<in> set schedule" for r t
    using that assms unfolding schedule_eq by (auto simp: operation_def split: prod.splits)
  then have "foldl (operation x) r schedule = foldl (operation y) r schedule" for r
    by (intro foldl_cong) auto
  then show ?thesis by (simp add: compress_def)
qed

section \<open>Words in memory\<close>

lemma unat_word_be:
  "unat (word_be [a, b, c, d]) = ((chr_code a * 256 + chr_code b) * 256 + chr_code c) * 256 + chr_code d"
proof -
  let ?n = "((chr_code a * 256 + chr_code b) * 256 + chr_code c) * 256 + chr_code d"
  have "word_be [a, b, c, d] = of_nat ?n" by (simp add: word_be_def of_char_word algebra_simps)
  moreover have "?n < 4294967296"
  proof -
    have x: "x * 256 + chr_code y \<le> m * 256 + 255" if "x \<le> m" for x m y
      using that chr_code_less [of y] by linarith
    have "chr_code a \<le> 255" using chr_code_less [of a] by linarith
    from x [OF x [OF x [OF this, of b], of c], of d] show ?thesis by simp
  qed
  ultimately show ?thesis by (simp only: unat_of_nat) simp
qed

lemma unat_shifted: "unat (drop_bit s (w :: 32 word)) = unat w div 2 ^ s"
  unfolding unat_drop_bit_eq by (rule drop_bit_eq_div)

lemma byte_digits:
  fixes A B C D :: nat
  assumes "A < 256" "B < 256" "C < 256" "D < 256"
  defines "n \<equiv> ((A * 256 + B) * 256 + C) * 256 + D"
  shows "n div 2 ^ 24 mod 256 = A" "n div 2 ^ 16 mod 256 = B" "n div 2 ^ 8 mod 256 = C" "n div 2 ^ 0 mod 256 = D"
proof -
  have "n div 2 ^ 8 = (A * 256 + B) * 256 + C" using assms(1-4) by (simp add: n_def)
  moreover from this have "n div 2 ^ 16 = A * 256 + B"
    using assms(1-4) div_mult2_eq [of n "2 ^ 8" "2 ^ 8"] by simp
  moreover from this have "n div 2 ^ 24 = A" using assms(1-4) div_mult2_eq [of n "2 ^ 16" "2 ^ 8"] by simp
  ultimately show "n div 2 ^ 24 mod 256 = A" "n div 2 ^ 16 mod 256 = B" "n div 2 ^ 8 mod 256 = C" "n div 2 ^ 0 mod 256 = D"
    using assms(1-4) by (simp_all only: n_def mod_mult_self3 power_0 div_by_1 mod_less)
qed

lemma char_of_mod: "char_of (n mod 256) = (char_of n :: char)" for n :: nat
  by simp

lemma bytes_be_word: "bytes_be (word_be [a, b, c, d]) = [a, b, c, d]"
proof -
  have "char_of (unat (drop_bit s (word_be [a, b, c, d]))) = char_of (unat (word_be [a, b, c, d]) div 2 ^ s mod 256)" for s
    by (simp only: unat_shifted char_of_mod)
  then show ?thesis
    by (simp only: bytes_be_def list.map unat_word_be byte_digits [OF chr_code_less chr_code_less chr_code_less chr_code_less] char_of_chr_code)
qed

lemma word_be_bytes: "word_be (bytes_be w) = w"
proof -
  let ?n = "unat w"
  have d: "?n div 2 ^ 16 = ?n div 2 ^ 8 div 2 ^ 8" "?n div 2 ^ 24 = ?n div 2 ^ 8 div 2 ^ 8 div 2 ^ 8"
    by (simp_all add: div_mult2_eq [symmetric])
  have l: "?n div 2 ^ 24 < 256" using unsigned_less [of w, where ?'a = nat] by (simp add: div_less_iff_less_mult)
  have "unat (word_be (bytes_be w)) = ((?n div 2 ^ 24 mod 256 * 256 + ?n div 2 ^ 16 mod 256) * 256 + ?n div 2 ^ 8 mod 256) * 256 + ?n div 2 ^ 0 mod 256"
    unfolding bytes_be_def list.map unat_word_be chr_code_char_of unat_shifted ..
  also have "\<dots> = ?n" using l unfolding d by simp
  finally show ?thesis by (simp only: word_unat_eq_iff)
qed

end
