(* ===== verification/Sumversion_State.thy ===== *)
theory Sumversion_State
  imports Sumversion_Digest
begin

text \<open>
  The state of the digest after a message: the words of the full blocks are hashed, the block holds
  the bytes behind them. Every update keeps this, and the final block gives the reference digest.
\<close>

section \<open>Loads and stores\<close>

definition word_at :: "cstr \<Rightarrow> nat \<Rightarrow> 32 word" where
  "word_at block i = word_be (take 4 (drop (4 * i) block))"

lemma four_bytes:
  assumes "4 * i + 4 \<le> length bs"
  obtains a b c d where "take 4 (drop (4 * i) bs) = [a, b, c, d]"
proof -
  let ?w = "take 4 (drop (4 * i) bs)"
  have "length ?w = Suc (Suc (Suc (Suc 0)))" using assms by simp
  then obtain a b c d where "?w = [a, b, c, d]" by (auto simp only: length_Suc_conv length_0_conv)
  then show ?thesis by (rule that)
qed

lemma ntohl_load: "4 * i + 4 \<le> length bs \<Longrightarrow> ntohl le (load le bs i) = word_at bs i"
  by (erule four_bytes) (simp add: ntohl_def load_def word_at_def Let_def bytes_be_word)

lemma length_bytes_be [simp]: "length (bytes_be w) = 4"
  by (simp add: bytes_be_def)

lemma length_store [simp]: "4 * i + 4 \<le> length bs \<Longrightarrow> length (store le bs i w) = length bs"
  by (simp add: store_def)

lemma store_nth:
  assumes "4 * i + 4 \<le> length bs" "k < length bs"
  shows "store le bs i w ! k =
    (if 4 * i \<le> k \<and> k < 4 * i + 4 then (if le then rev (bytes_be w) else bytes_be w) ! (k - 4 * i) else bs ! k)"
  using assms by (auto simp: store_def nth_append)

lemma load_store:
  assumes "4 * i + 4 \<le> length bs" "4 * j + 4 \<le> length bs"
  shows "load le (store le bs i w) j = (if i = j then w else load le bs j)"
proof -
  let ?w = "if le then rev (bytes_be w) else bytes_be w"
  have "take 4 (drop (4 * j) (store le bs i w)) = (if i = j then ?w else take 4 (drop (4 * j) bs))"
    using assms by (intro nth_equalityI) (auto simp: store_nth)
  then show ?thesis by (auto simp: load_def Let_def word_be_bytes)
qed

lemma le32_to_cpu_array_load:
  assumes "4 * n \<le> length bs"
  shows "length (le32_to_cpu_array le bs n) = length bs
    \<and> (\<forall>i. 4 * i + 4 \<le> length bs \<longrightarrow>
          load le (le32_to_cpu_array le bs n) i = (if i < n then ntohl le (load le bs i) else load le bs i))"
  using assms
proof (induction n)
  case (Suc n)
  then show ?case by (auto simp: le32_to_cpu_array_def load_store)
qed (simp add: le32_to_cpu_array_def)

lemma md4_transform_helper_eq:
  assumes "length (md4_block ctx) = 64"
  shows "\<exists>b. length b = 64 \<and> md4_transform_helper le ctx =
    ctx\<lparr> md4_block := b, md4_hash := compress (md4_hash ctx) (word_at (md4_block ctx)) \<rparr>"
proof -
  let ?b = "le32_to_cpu_array le (md4_block ctx) 16"
  have "length ?b = 64" "\<And>i. i < 16 \<Longrightarrow> load le ?b i = word_at (md4_block ctx) i"
    using le32_to_cpu_array_load [of 16 "md4_block ctx" le] assms by (simp_all add: ntohl_load)
  moreover from this have "compress (md4_hash ctx) (load le ?b) = compress (md4_hash ctx) (word_at (md4_block ctx))"
    by (intro compress_cong) simp
  ultimately show ?thesis
    by (intro exI [of _ ?b]) (simp add: md4_transform_helper_def Let_def md4_transform_compress)
qed

section \<open>Words of a message\<close>

lemma words_of_append: "length a mod 4 = 0 \<Longrightarrow> words_of rd (a @ b) = words_of rd a @ words_of rd b"
  by (induction rd a rule: words_of.induct) auto

lemma length_words_of: "length (words_of rd a) = length a div 4"
  by (induction rd a rule: words_of.induct) auto

lemma words_of_nth: "4 * i + 4 \<le> length bs \<Longrightarrow> words_of word_be bs ! i = word_at bs i"
proof (induction word_be bs arbitrary: i rule: words_of.induct)
  case (1 a b c d bs)
  show ?case
  proof (cases i)
    case (Suc j)
    have "drop (4 * i) (a # b # c # d # bs) = drop (4 * j) (drop 4 (a # b # c # d # bs))" using Suc by (simp only: drop_drop mult_Suc_right) (simp add: add.commute)
    then show ?thesis using 1 Suc by (simp add: word_at_def)
  qed (simp add: word_at_def)
qed auto

lemma hash_words_short [simp]: "length ws < 16 \<Longrightarrow> hash_words h ws = h"
  by (simp add: hash_words.simps [of h ws])

lemma hash_words_block: "length ws = 16 \<Longrightarrow> hash_words h ws = compress h (\<lambda>i. ws ! i)"
  by (simp add: hash_words.simps [of h ws])

lemma hash_words_append: "length ws mod 16 = 0 \<Longrightarrow> hash_words h (ws @ vs) = hash_words (hash_words h ws) vs"
proof (induction h ws rule: hash_words.induct)
  case (1 h ws)
  show ?case
  proof (cases "length ws \<ge> 16")
    case True
    have "compress h (\<lambda>i. (ws @ vs) ! i) = compress h (\<lambda>i. ws ! i)"
      using True by (intro compress_cong) (simp add: nth_append)
    moreover have "length (drop 16 ws) mod 16 = 0" using "1.prems" True by (simp add: le_mod_geq)
    ultimately show ?thesis using 1(1) True by (simp add: hash_words.simps [of h "ws @ vs"] hash_words.simps [of h ws])
  next
    case False
    then have "ws = []" using "1.prems" by auto
    then show ?thesis by simp
  qed
qed

definition hash_bytes :: "32 word list \<Rightarrow> cstr \<Rightarrow> 32 word list" where
  "hash_bytes h bs = hash_words h (words_of word_be bs)"

lemma hash_bytes_Nil [simp]: "hash_bytes h [] = h"
  by (simp add: hash_bytes_def)

lemma hash_bytes_append: "length a mod 64 = 0 \<Longrightarrow> hash_bytes h (a @ b) = hash_bytes (hash_bytes h a) b"
proof -
  assume a: "length a mod 64 = 0"
  then obtain k where "length a = 64 * k" by (auto elim: dvdE)
  then have "length a mod 4 = 0" "length (words_of word_be a) mod 16 = 0" by (simp_all add: length_words_of)
  then show ?thesis by (simp add: hash_bytes_def words_of_append hash_words_append)
qed

lemma hash_bytes_block: "length b = 64 \<Longrightarrow> hash_bytes h b = compress h (word_at b)"
  unfolding hash_bytes_def
  by (subst hash_words_block) (auto simp: length_words_of words_of_nth intro: compress_cong)

section \<open>The state\<close>

definition full :: "cstr \<Rightarrow> nat" where
  "full m = 64 * (length m div 64)"

definition md4_state :: "md4_ctx \<Rightarrow> cstr \<Rightarrow> bool" where
  "md4_state ctx m \<longleftrightarrow> length (md4_block ctx) = 64 \<and> byte_count ctx = of_nat (length m)
     \<and> md4_hash ctx = hash_bytes initial_hash (take (full m) m)
     \<and> take (length m mod 64) (md4_block ctx) = drop (full m) m"

lemma md4_state_init: "length (md4_block ctx) = 64 \<Longrightarrow> md4_state (md4_init ctx) []"
  by (simp add: md4_state_def md4_init_def full_def initial_hash_def)

lemma count_and_63: "unat (of_nat n AND 0x3f :: 64 word) = n mod 64"
proof -
  have "(0x3f :: 64 word) = mask 6" by (simp add: mask_eq_exp_minus_1)
  then have "(of_nat n AND 0x3f :: 64 word) = take_bit 6 (of_nat n)" by (simp only: take_bit_eq_mask)
  then have "unat (of_nat n AND 0x3f :: 64 word) = take_bit 6 n"
    by (simp only: unsigned_take_bit_eq unsigned_of_nat take_bit_take_bit) simp
  then show ?thesis by (simp add: take_bit_eq_mod)
qed

lemma length_copy_at [simp]: "off + length d \<le> length b \<Longrightarrow> length (copy_at b off d) = length b"
  by (simp add: copy_at_def)

lemma take_copy_at: "off \<le> length b \<Longrightarrow> take (off + length d) (copy_at b off d) = take off b @ d"
  by (simp add: copy_at_def)

lemma helper_absorbs:
  assumes "length (md4_block ctx) = 64"
  shows "\<exists>b. length b = 64 \<and> md4_transform_helper le ctx =
    ctx\<lparr> md4_block := b, md4_hash := hash_bytes (md4_hash ctx) (md4_block ctx) \<rparr>"
  using md4_transform_helper_eq [OF assms] assms by (simp add: hash_bytes_block)

lemma md4_blocks_absorb:
  assumes "length (md4_block ctx) = 64"
  shows "\<exists>b. length b = 64 \<and> md4_blocks le ctx d =
    (ctx\<lparr> md4_block := b, md4_hash := hash_bytes (md4_hash ctx) (take (full d) d) \<rparr>, drop (full d) d)"
  using assms
proof (induction le ctx d rule: md4_blocks.induct)
  case (1 le ctx d)
  show ?case
  proof (cases "length d \<ge> 64")
    case True
    let ?ctx = "ctx\<lparr> md4_block := copy_at (md4_block ctx) 0 (take 64 d) \<rparr>"
    have b: "md4_block ?ctx = take 64 d" using True 1(2) by (simp add: copy_at_def)
    obtain b where h: "length b = 64" "md4_transform_helper le ?ctx =
        ?ctx\<lparr> md4_block := b, md4_hash := hash_bytes (md4_hash ctx) (take 64 d) \<rparr>"
      using helper_absorbs [of ?ctx le] b True by auto
    have f: "full d = 64 + full (drop 64 d)" using True by (simp add: full_def div_if)
    have t: "take (full d) d = take 64 d @ take (full (drop 64 d)) (drop 64 d)" unfolding f by (simp add: take_add)
    have h': "length (md4_block (md4_transform_helper le ?ctx)) = 64" using h by simp
    from 1(1) [OF True h'] obtain b' where "length b' = 64"
      "md4_blocks le (md4_transform_helper le ?ctx) (drop 64 d) =
        ((md4_transform_helper le ?ctx)\<lparr> md4_block := b', md4_hash := hash_bytes (md4_hash (md4_transform_helper le ?ctx))
          (take (full (drop 64 d)) (drop 64 d)) \<rparr>, drop (full (drop 64 d)) (drop 64 d))"
      by blast
    then show ?thesis using True h(2)
      unfolding t by (auto simp: md4_blocks.simps [of le ctx d] hash_bytes_append f add.commute intro!: exI [of _ b'])
  next
    case False
    then have "full d = 0" by (simp add: full_def)
    then show ?thesis using False 1(2) by (auto simp: md4_blocks.simps [of le ctx d] intro!: exI [of _ "md4_block ctx"])
  qed
qed

lemma full_le [simp]: "full m \<le> length m"
  by (simp add: full_def)

lemma full_split: "full m + length m mod 64 = length m"
  by (simp add: full_def)

lemma full_append: "length a mod 64 = 0 \<Longrightarrow> full (a @ b) = length a + full b"
  unfolding full_def by (auto elim!: dvdE simp: mod_eq_0_iff_dvd)

lemma full_mod [simp]: "full m mod 64 = 0"
  by (simp add: full_def)

lemma add_in_block:
  fixes n k :: nat
  assumes "n mod 64 + k < 64"
  shows "(n + k) div 64 = n div 64" "(n + k) mod 64 = n mod 64 + k"
proof -
  have n: "n + k = (n mod 64 + k) + n div 64 * 64" using div_mult_mod_eq [of n 64] by linarith
  show "(n + k) div 64 = n div 64" "(n + k) mod 64 = n mod 64 + k"
    unfolding n by (simp_all only: div_mult_self1 mod_mult_self1 assms div_less mod_less)
qed

lemma add_up_to_block: "n + (64 - n mod 64) = 64 * (n div 64) + 64" for n :: nat
  using div_mult_mod_eq [of n 64] mod_less_divisor [of 64 n] by linarith

lemma block_start:
  "length b = 64 \<Longrightarrow> length t < 64 \<Longrightarrow> length (copy_at b 0 t) = 64 \<and> take (length t) (copy_at b 0 t) = t"
  by (simp add: copy_at_def)

lemma md4_update_short:
  assumes "md4_state ctx m" "length d < 64 - length m mod 64"
  shows "md4_state (md4_update le ctx d) (m @ d)"
proof -
  have c: "unat (byte_count ctx AND 0x3f) = length m mod 64" using assms(1) by (simp add: md4_state_def count_and_63)
  have f: "full (m @ d) = full m" "length (m @ d) mod 64 = length m mod 64 + length d"
    using add_in_block [of "length m" "length d"] assms(2) by (simp_all only: full_def length_append)
  have b: "length (md4_block ctx) = 64" "take (length m mod 64) (md4_block ctx) = drop (full m) m"
    using assms(1) by (simp_all add: md4_state_def)
  have "take (length m mod 64 + length d) (copy_at (md4_block ctx) (length m mod 64) d) = drop (full m) m @ d"
    using take_copy_at [of "length m mod 64" "md4_block ctx" d] b by simp
  moreover have "md4_update le ctx d =
      ctx\<lparr> byte_count := byte_count ctx + of_nat (length d), md4_block := copy_at (md4_block ctx) (length m mod 64) d \<rparr>"
    using assms(2) by (simp add: md4_update_def Let_def c)
  ultimately show ?thesis using assms b unfolding md4_state_def f by simp
qed

lemma md4_update_long:
  assumes "md4_state ctx m" "64 - length m mod 64 \<le> length d"
  shows "md4_state (md4_update le ctx d) (m @ d)"
proof -
  let ?r = "length m mod 64"
  let ?a = "64 - ?r"
  let ?ctx = "ctx\<lparr> byte_count := byte_count ctx + of_nat (length d),
    md4_block := copy_at (md4_block ctx) ?r (take ?a d) \<rparr>"
  let ?m = "m @ take ?a d" and ?d = "drop ?a d"
  have c: "unat (byte_count ctx AND 0x3f) = ?r" using assms(1) by (simp add: md4_state_def count_and_63)
  have s: "length (md4_block ctx) = 64" "take ?r (md4_block ctx) = drop (full m) m"
      "md4_hash ctx = hash_bytes initial_hash (take (full m) m)" "byte_count ctx = of_nat (length m)"
    using assms(1) by (simp_all add: md4_state_def)
  have r: "?r < 64" by simp
  have "copy_at (md4_block ctx) ?r (take ?a d) = take ?r (md4_block ctx) @ take ?a d"
    using assms(2) s(1) r by (simp add: copy_at_def)
  then have b: "copy_at (md4_block ctx) ?r (take ?a d) = drop (full m) ?m" using s(2) by simp
  have m: "length ?m = full m + 64" using assms(2) add_up_to_block [of "length m"] by (simp add: full_def)
  then have z: "length ?m mod 64 = 0" by (simp only: full_def) simp
  have h: "hash_bytes (md4_hash ctx) (drop (full m) ?m) = hash_bytes initial_hash ?m"
  proof -
    have "take (full m) m @ drop (full m) ?m = ?m" by simp
    moreover have "length (take (full m) m) mod 64 = 0" by (simp only: length_take min_absorb2 full_le full_mod)
    ultimately show ?thesis using hash_bytes_append [of "take (full m) m" initial_hash "drop (full m) ?m"] s(3) by metis
  qed
  obtain b1 where h1: "length b1 = 64" "md4_transform_helper le ?ctx = ?ctx\<lparr> md4_block := b1, md4_hash := hash_bytes initial_hash ?m \<rparr>"
    using helper_absorbs [of ?ctx le] b m h by auto
  obtain b2 where h2: "length b2 = 64" "md4_blocks le (md4_transform_helper le ?ctx) ?d =
      ((md4_transform_helper le ?ctx)\<lparr> md4_block := b2,
        md4_hash := hash_bytes (hash_bytes initial_hash ?m) (take (full ?d) ?d) \<rparr>, drop (full ?d) ?d)"
    using md4_blocks_absorb [of "md4_transform_helper le ?ctx" le ?d] h1 by auto
  have e: "md4_update le ctx d = ?ctx\<lparr> md4_hash := hash_bytes initial_hash (?m @ take (full ?d) ?d),
      md4_block := copy_at b2 0 (drop (full ?d) ?d) \<rparr>"
    using assms(2) h1(2) h2(2) by (simp add: md4_update_def Let_def c hash_bytes_append [OF z, simplified])
  have f: "full (m @ d) = length ?m + full ?d" using full_append [OF z, of ?d] by simp
  have l: "length (m @ d) mod 64 = length ?d mod 64"
  proof -
    have "length (m @ d) = length ?m + length ?d" using assms(2) by simp
    then show ?thesis using z by (metis add_0 mod_add_left_eq)
  qed
  have t: "take (full (m @ d)) (m @ d) = ?m @ take (full ?d) ?d" "drop (full (m @ d)) (m @ d) = drop (full ?d) ?d"
  proof -
    have md: "m @ d = ?m @ ?d" by simp
    have "take (length a + k) (a @ b) = a @ take k b" "drop (length a + k) (a @ b) = drop k b" for a b :: cstr and k
      by simp_all
    from this [of ?m _ ?d] show "take (full (m @ d)) (m @ d) = ?m @ take (full ?d) ?d"
      "drop (full (m @ d)) (m @ d) = drop (full ?d) ?d" unfolding f md [symmetric] by metis+
  qed
  have n: "length (drop (full ?d) ?d) = length ?d mod 64" using full_split [of ?d] by (simp only: length_drop) linarith
  have k: "length (copy_at b2 0 (drop (full ?d) ?d)) = 64"
      "take (length ?d mod 64) (copy_at b2 0 (drop (full ?d) ?d)) = drop (full ?d) ?d"
    using block_start [OF h2(1), of "drop (full ?d) ?d"] unfolding n by (simp_all only: mod_less_divisor zero_less_numeral)
  show ?thesis unfolding md4_state_def e t l using k s(4) by simp
qed

lemma md4_update_state: "md4_state ctx m \<Longrightarrow> md4_state (md4_update le ctx d) (m @ d)"
  by (meson md4_update_short md4_update_long not_less)

end
