(* ===== verification/Sumversion_Final.thy ===== *)
theory Sumversion_Final
  imports Sumversion_State
begin

text \<open>
  The final block of the digest: the padding, the number of bits, and the digest of a message as the
  code prints it.
\<close>

lemma final_block:
  assumes "length b = 64"
  shows "md4_transform h (load le (le32_to_cpu_array le (store le (store le b 14 lo) 15 hi) 14)) =
    hash_words h (words_of word_be (take 56 b) @ [lo, hi])"
proof -
  let ?b = "store le (store le b 14 lo) 15 hi"
  have l: "length ?b = 64" using assms by simp
  have load: "load le (le32_to_cpu_array le ?b 14) i = (words_of word_be (take 56 b) @ [lo, hi]) ! i" if "i < 16" for i
  proof -
    have "load le (le32_to_cpu_array le ?b 14) i = (if i < 14 then ntohl le (load le ?b i) else load le ?b i)"
      using le32_to_cpu_array_load [of 14 ?b le] l that by simp
    moreover have "load le ?b i = (if i = 15 then hi else if i = 14 then lo else load le b i)"
      using assms that by (auto simp: load_store)
    moreover have "words_of word_be (take 56 b) ! i = word_at b i" if "i < 14"
      using that assms words_of_nth [of i "take 56 b"] by (simp add: word_at_def drop_take min_def)
    moreover have "i = 14 \<or> i = 15" if "\<not> i < 14" using that \<open>i < 16\<close> by linarith
    ultimately show ?thesis using assms that by (auto simp: nth_append length_words_of ntohl_load)
  qed
  have "md4_transform h (load le (le32_to_cpu_array le ?b 14)) =
      compress h (\<lambda>i. (words_of word_be (take 56 b) @ [lo, hi]) ! i)"
    unfolding md4_transform_compress by (rule compress_cong) (rule load)
  then show ?thesis using assms by (simp add: hash_words_block length_words_of)
qed

text \<open>What the two branches leave in the block.\<close>

lemma marked_block:
  assumes "length b = 64" "r + 1 + k \<le> 64"
  shows "length (copy_at (copy_at b r [CHR 0x80]) (r + 1) (replicate k CHR 0x00)) = 64"
    "take (r + 1 + k) (copy_at (copy_at b r [CHR 0x80]) (r + 1) (replicate k CHR 0x00)) =
       take r b @ CHR 0x80 # replicate k CHR 0x00"
  using assms by (simp_all add: copy_at_def min_def)

lemma zero_block:
  "length b = 64 \<Longrightarrow> length (copy_at b 0 (replicate 56 CHR 0x00)) = 64
     \<and> take 56 (copy_at b 0 (replicate 56 CHR 0x00)) = replicate 56 CHR 0x00"
  by (simp add: copy_at_def)

definition length_words :: "cstr \<Rightarrow> 32 word list" where
  "length_words m = [ucast (push_bit 3 (of_nat (length m) :: 64 word)), ucast (drop_bit 29 (of_nat (length m) :: 64 word))]"

lemma digest_pieces:
  assumes "pad_message m = a @ c" "length a mod 64 = 0"
  shows "digest_words word_be m = hash_words (hash_bytes initial_hash a) (words_of word_be c @ length_words m)"
proof -
  obtain k where "length a = 64 * k" using assms(2) by (auto elim: dvdE)
  then have "length a mod 4 = 0" "length (words_of word_be a) mod 16 = 0" by (simp_all add: length_words_of)
  then show ?thesis
    by (simp add: digest_words_def message_words_def assms(1) words_of_append hash_words_append hash_bytes_def length_words_def)
qed

lemma pad_zeros:
  "r < 56 \<Longrightarrow> (119 - r) mod 64 = 56 - (r + 1)"
  "56 \<le> r \<Longrightarrow> r < 64 \<Longrightarrow> (119 - r) mod 64 = (64 - (r + 1)) + 56" for r :: nat
  by (simp_all add: mod_if)

definition digest_of :: "md4_ctx \<Rightarrow> cstr \<Rightarrow> 32 word list" where
  "digest_of ctx m = hash_words (md4_hash ctx) (words_of word_be (take 56 (md4_block ctx)) @ length_words m)"

lemma padding_short:
  assumes "md4_state ctx m" "length m mod 64 < 56"
  defines "b \<equiv> copy_at (copy_at (md4_block ctx) (length m mod 64) [CHR 0x80]) (length m mod 64 + 1)
    (replicate (56 - (length m mod 64 + 1)) CHR 0x00)"
  shows "length b = 64" "digest_words word_be m = digest_of (ctx\<lparr> md4_block := b \<rparr>) m"
proof -
  let ?r = "length m mod 64"
  have s: "length (md4_block ctx) = 64" "take ?r (md4_block ctx) = drop (full m) m"
      "md4_hash ctx = hash_bytes initial_hash (take (full m) m)"
    using assms(1) by (simp_all add: md4_state_def)
  have k: "?r + 1 + (56 - (?r + 1)) = 56" using assms(2) by simp
  show "length b = 64" unfolding b_def using k by (intro marked_block(1) s(1)) linarith
  have "take 56 b = drop (full m) m @ CHR 0x80 # replicate (56 - (?r + 1)) CHR 0x00"
    using marked_block(2) [OF s(1), of ?r "56 - (?r + 1)"] k unfolding b_def s(2) by simp
  moreover have "(119 - ?r) mod 64 = 56 - (?r + 1)" by (rule pad_zeros(1) [OF assms(2)])
  ultimately have "pad_message m = take (full m) m @ take 56 b" by (simp add: pad_message_def)
  then show "digest_words word_be m = digest_of (ctx\<lparr> md4_block := b \<rparr>) m"
    using digest_pieces [of m "take (full m) m" "take 56 b"] s(3) by (simp add: digest_of_def min_absorb2)
qed

lemma padding_long:
  fixes le :: bool
  assumes "md4_state ctx m" "56 \<le> length m mod 64"
  defines "ctx' \<equiv> md4_transform_helper le (ctx\<lparr> md4_block := copy_at (copy_at (md4_block ctx) (length m mod 64) [CHR 0x80])
    (length m mod 64 + 1) (replicate (64 - (length m mod 64 + 1)) CHR 0x00) \<rparr>)"
  defines "b \<equiv> copy_at (md4_block ctx') 0 (replicate 56 CHR 0x00)"
  shows "length b = 64" "digest_words word_be m = digest_of (ctx'\<lparr> md4_block := b \<rparr>) m" "byte_count ctx' = byte_count ctx"
proof -
  let ?r = "length m mod 64"
  let ?b = "copy_at (copy_at (md4_block ctx) ?r [CHR 0x80]) (?r + 1) (replicate (64 - (?r + 1)) CHR 0x00)"
  have s: "length (md4_block ctx) = 64" "take ?r (md4_block ctx) = drop (full m) m"
      "md4_hash ctx = hash_bytes initial_hash (take (full m) m)"
    using assms(1) by (simp_all add: md4_state_def)
  have r: "?r < 64" by simp
  then have k: "?r + 1 + (64 - (?r + 1)) = 64" by linarith
  then have l: "length ?b = 64" by (intro marked_block(1) s(1)) linarith
  have t: "?b = drop (full m) m @ CHR 0x80 # replicate (64 - (?r + 1)) CHR 0x00"
    using marked_block(2) [OF s(1), of ?r "64 - (?r + 1)"] k l unfolding s(2) by simp
  obtain b1 where h: "length b1 = 64" "ctx' = ctx\<lparr> md4_block := b1, md4_hash := hash_bytes (md4_hash ctx) ?b \<rparr>"
    using helper_absorbs [of "ctx\<lparr> md4_block := ?b \<rparr>" le] l unfolding ctx'_def by auto
  show b: "length b = 64" using zero_block [OF h(1)] by (simp add: b_def h(2))
  have b56: "take 56 b = replicate 56 CHR 0x00" using zero_block [OF h(1)] by (simp add: b_def h(2))
  show "byte_count ctx' = byte_count ctx" by (simp add: h(2))
  have z: "(119 - ?r) mod 64 = (64 - (?r + 1)) + 56" by (rule pad_zeros(2) [OF assms(2) r])
  have p: "pad_message m = (take (full m) m @ ?b) @ take 56 b"
    unfolding pad_message_def b56 t z replicate_add by simp
  have "length (take (full m) m) mod 64 = 0" by (simp add: min_absorb2)
  then have "hash_bytes (md4_hash ctx) ?b = hash_bytes initial_hash (take (full m) m @ ?b)"
    unfolding s(3) by (rule hash_bytes_append [symmetric])
  moreover have "length (take (full m) m @ ?b) mod 64 = 0" using l by (simp add: min_absorb2)
  ultimately show "digest_words word_be m = digest_of (ctx'\<lparr> md4_block := b \<rparr>) m"
    using digest_pieces [OF p] by (simp add: digest_of_def h(2))
qed

lemma final_words:
  assumes "length b = 64" "digest_words word_be m = digest_of (ctx\<lparr> md4_block := b \<rparr>) m" "byte_count ctx = of_nat (length m)"
  shows "md4_transform (md4_hash ctx) (load le (le32_to_cpu_array le
      (store le (store le b 14 (ucast (push_bit 3 (byte_count ctx)))) 15 (ucast (drop_bit 29 (byte_count ctx)))) 14))
    = digest_words word_be m"
  unfolding final_block [OF assms(1)] assms(2) by (simp add: digest_of_def length_words_def assms(3))

lemma with_block:
  "md4_hash (ctx\<lparr> md4_block := b \<rparr>) = md4_hash ctx" "md4_block (ctx\<lparr> md4_block := b \<rparr>) = b"
  "byte_count (ctx\<lparr> md4_block := b \<rparr>) = byte_count ctx"
  by simp_all

lemma final_ascii:
  assumes "md4_state ctx m"
  shows "md4_final_ascii le ctx n = take (n - 1) (concat (map hex8 (map (ntohl le) (digest_words word_be m))))"
proof -
  have c: "unat (byte_count ctx AND 0x3f) = length m mod 64" "byte_count ctx = of_nat (length m)"
    using assms by (simp_all add: md4_state_def count_and_63)
  show ?thesis
  proof (cases "length m mod 64 < 56")
    case True
    then have r: "\<not> 56 < length m mod 64 + 1" by simp
    let ?b = "copy_at (md4_block ctx) (length m mod 64) [CHR 0x80]"
    have "md4_final_ascii le ctx n = take (n - 1) (concat (map hex8 (map (ntohl le)
        (md4_transform (md4_hash ctx) (load le (le32_to_cpu_array le (store le (store le
          (copy_at ?b (length m mod 64 + 1) (replicate (56 - (length m mod 64 + 1)) CHR 0x00))
          14 (ucast (push_bit 3 (byte_count ctx)))) 15 (ucast (drop_bit 29 (byte_count ctx)))) 14))))))"
      unfolding md4_final_ascii_def Let_def c(1) if_not_P [OF r] prod.case unfolding with_block ..
    then show ?thesis by (simp only: final_words [OF padding_short [OF assms True] c(2)])
  next
    case False
    then have r: "56 \<le> length m mod 64" "56 < length m mod 64 + 1" by simp_all
    show ?thesis
      unfolding md4_final_ascii_def Let_def c(1) if_P [OF r(2)] prod.case
      by (simp only: final_words [OF padding_long(1,2) [OF assms r(1)] trans [OF padding_long(3) [OF assms r(1)] c(2)]])
  qed
qed

text \<open>The digest of chunks, from any memory that the context has.\<close>

definition digest_chunks :: "bool \<Rightarrow> md4_ctx \<Rightarrow> cstr list \<Rightarrow> nat \<Rightarrow> cstr" where
  "digest_chunks le ctx ds n = md4_final_ascii le (foldl (md4_update le) (md4_init ctx) ds) n"

lemma updates_state: "md4_state ctx m \<Longrightarrow> md4_state (foldl (md4_update le) ctx ds) (m @ concat ds)"
proof (induction ds arbitrary: ctx m)
  case (Cons d ds)
  from Cons.IH [OF md4_update_state [OF Cons.prems]] show ?case by simp
qed simp

lemma digest_chunks:
  assumes "length (md4_block ctx) = 64"
  shows "digest_chunks le ctx ds n = take (n - 1) (concat (map hex8 (map (ntohl le) (digest_words word_be (concat ds)))))"
  using final_ascii [OF updates_state [OF md4_state_init [OF assms]]]
  by (simp only: digest_chunks_def append_Nil)

end
