(* ===== verification/Sumversion_Files.thy ===== *)
theory Sumversion_Files
  imports Sumversion_Md4
begin

text \<open>
  The checksum of the sources of a module, from \<open>mod/sumversion.c\<close>, with \<open>grab_file\<close> and
  \<open>get_next_line\<close> of \<open>mod/modpost.c\<close>. Files are what \<open>fs\<close> gives for their names; the mapping of a
  file ends with its last page, filled with zeros, so that a byte behind the file can be read unless
  the length is a multiple of \<open>page\<close>. The warnings that end the work are values, and so are reads
  outside the memory.
\<close>

datatype sum_error =
    CouldNotFind cstr cstr
  | MalformedLine cstr
  | CouldNotOpen cstr
  | MalformedVersionsFile cstr
  | BadEndingVersionsFile cstr
  | ReadBehindFile
  | ReadBeforeLine

section \<open>Files\<close>

definition grab_file :: "(cstr \<Rightarrow> cstr option) \<Rightarrow> cstr \<Rightarrow> cstr option" where
  "grab_file fs filename =
     (case fs filename of None \<Rightarrow> None | Some file \<Rightarrow> if length file = 0 then None else Some file)"

text \<open>The byte at a position up to the end of a mapped file.\<close>

definition mapped_byte :: "nat \<Rightarrow> cstr \<Rightarrow> nat \<Rightarrow> char option" where
  "mapped_byte page file i =
     (if i < length file then Some (file ! i) else if length file mod page = 0 then None else Some CHR 0x00)"

text \<open>\<open>strchr\<close> in a mapped file, from a position.\<close>

definition mapped_strchr :: "nat \<Rightarrow> cstr \<Rightarrow> nat \<Rightarrow> char \<Rightarrow> sum_error + nat option" where
  "mapped_strchr page file i c =
     (let s = drop i file; k = length (takeWhile (\<lambda>x. x \<noteq> c \<and> x \<noteq> CHR 0x00) s)
      in if k < length s then Inr (if s ! k = c then Some (i + k) else None)
         else if length file mod page = 0 then Inl ReadBehindFile else Inr None)"

text \<open>The line behind \<open>pos\<close> without its leading white space, and the new \<open>pos\<close>.\<close>

function next_line :: "cstr \<Rightarrow> nat \<Rightarrow> bool \<Rightarrow> cstr \<Rightarrow> cstr option \<times> nat" where
  "next_line file pos skip line =
     (if pos < length file
      then if skip \<and> c_isspace (file ! pos) then next_line file (pos + 1) skip line
           else if file ! pos \<noteq> CHR 0x0A
           then if length line + 1 > 4095 then (None, pos)
                else next_line file (pos + 1) False (line @ [file ! pos])
           else (Some line, pos)
      else (None, pos))"
  by auto
termination by (relation "measure (\<lambda>(file, pos, _). length file - pos)") auto

declare next_line.simps [simp del]

definition get_next_line :: "nat \<Rightarrow> cstr \<Rightarrow> cstr option \<times> nat" where
  "get_next_line pos file = next_line file pos True []"

section \<open>The text of a source\<close>

definition add_char :: "bool \<Rightarrow> char \<Rightarrow> md4_ctx \<Rightarrow> md4_ctx" where
  "add_char le c md = md4_update le md [c]"

function parse_string_from :: "bool \<Rightarrow> cstr \<Rightarrow> nat \<Rightarrow> md4_ctx \<Rightarrow> nat \<times> md4_ctx" where
  "parse_string_from le file i md =
     (if i < length file
      then (let md = add_char le (file ! i) md
            in if file ! i = CHR 0x22 \<and> file ! (i - 1) \<noteq> CHR 0x5C then (i, md)
               else parse_string_from le file (i + 1) md)
      else (i, md))"
  by auto
termination by (relation "measure (\<lambda>(le, file, i, md). length file - i)") auto

declare parse_string_from.simps [simp del]

definition parse_string :: "bool \<Rightarrow> cstr \<Rightarrow> md4_ctx \<Rightarrow> nat \<times> md4_ctx" where
  "parse_string le file md = parse_string_from le file 1 (add_char le (file ! 0) md)"

function parse_comment_from :: "cstr \<Rightarrow> nat \<Rightarrow> nat" where
  "parse_comment_from file i =
     (if i < length file
      then if file ! (i - 1) = CHR ''*'' \<and> file ! i = CHR ''/'' then i else parse_comment_from file (i + 1)
      else i)"
  by auto
termination by (relation "measure (\<lambda>(file, i). length file - i)") auto

declare parse_comment_from.simps [simp del]

definition parse_comment :: "cstr \<Rightarrow> nat" where
  "parse_comment file = parse_comment_from file 2"

function parse_text :: "bool \<Rightarrow> nat \<Rightarrow> cstr \<Rightarrow> nat \<Rightarrow> md4_ctx \<Rightarrow> sum_error + md4_ctx" where
  "parse_text le page file i md =
     (if i < length file
      then
        if file ! i = CHR 0x5C \<and> i + 1 < length file \<and> file ! (i + 1) = CHR 0x0A
        then parse_text le page file (i + 2) md
        else if c_isspace (file ! i) then parse_text le page file (i + 1) md
        else if file ! i = CHR 0x22
        then (case parse_string le (drop i file) md of (n, md) \<Rightarrow> parse_text le page file (i + n + 1) md)
        else if file ! i = CHR ''/'' \<and> mapped_byte page file (i + 1) = None then Inl ReadBehindFile
        else if file ! i = CHR ''/'' \<and> mapped_byte page file (i + 1) = Some CHR ''*''
        then parse_text le page file (i + parse_comment (drop i file) + 1) md
        else parse_text le page file (i + 1) (add_char le (file ! i) md)
      else Inr md)"
  by auto
termination by (relation "measure (\<lambda>(le, page, file, i, md). length file - i)") auto

declare parse_text.simps [simp del]

definition parse_file :: "bool \<Rightarrow> nat \<Rightarrow> (cstr \<Rightarrow> cstr option) \<Rightarrow> cstr \<Rightarrow> md4_ctx \<Rightarrow> sum_error + md4_ctx" where
  "parse_file le page fs fname md =
     (case grab_file fs fname of None \<Rightarrow> Inl (CouldNotOpen fname) | Some file \<Rightarrow> parse_text le page file 0 md)"

section \<open>The sources of an object\<close>

definition is_static_library :: "cstr \<Rightarrow> bool" where
  "is_static_library objfile =
     (length objfile \<ge> 2 \<and> objfile ! (length objfile - 2) = CHR ''.'' \<and> objfile ! (length objfile - 1) = CHR ''a'')"

text \<open>
  The test of two pointers: where \<open>dir\<close> is found in the line plus its length minus one, against the
  last slash. With \<open>strstr\<close> giving NULL they are equal only for a \<open>dir\<close> of one character.
\<close>

definition in_directory :: "cstr \<Rightarrow> cstr \<Rightarrow> bool" where
  "in_directory line dir =
     (case find_string line dir of
        Some k \<Rightarrow> (case last_pos CHR ''/'' line of Some j \<Rightarrow> k + length dir = j + 1 | None \<Rightarrow> False)
      | None \<Rightarrow> length dir = 1 \<and> last_pos CHR ''/'' line = None)"

lemma next_line_grows:
  "next_line f p sk s = (Some l, q) \<Longrightarrow> \<not> sk \<or> s = [] \<Longrightarrow> p \<le> q \<and> q < length f \<and> (sk \<longrightarrow> p < q)"
proof (induction f p sk s arbitrary: l q rule: next_line.induct)
  case (1 f p sk s)
  have lf: "c_isspace CHR 0x0A" by (simp add: ctype_defs)
  note eq = "1.prems"(1) [unfolded next_line.simps [of f p sk s]]
  have p: "p < length f" using eq by (cases "p < length f") auto
  consider "sk" "c_isspace (f ! p)" | "\<not> (sk \<and> c_isspace (f ! p))" "f ! p \<noteq> CHR 0x0A" | "\<not> (sk \<and> c_isspace (f ! p))" "f ! p = CHR 0x0A"
    by blast
  then show ?case
  proof cases
    case 1
    then show ?thesis using "1.IH"(1) [OF p, of l q] eq p "1.prems"(2) by simp
  next
    case 2
    then have "next_line f (p + 1) False (s @ [f ! p]) = (Some l, q)" "\<not> length s + 1 > 4095" using eq p by (simp_all split: if_splits)
    then show ?thesis using "1.IH"(2) [OF p 2] by fastforce
  next
    case 3
    then show ?thesis using eq p lf by auto
  qed
qed

lemma get_next_line_grows: "get_next_line pos file = (Some l, pos') \<Longrightarrow> pos < pos' \<and> pos' < length file"
  unfolding get_next_line_def by (drule next_line_grows) auto

function sum_lines :: "bool \<Rightarrow> nat \<Rightarrow> (cstr \<Rightarrow> cstr option) \<Rightarrow> cstr \<Rightarrow> cstr \<Rightarrow> nat \<Rightarrow> bool \<Rightarrow> md4_ctx \<Rightarrow> sum_error + md4_ctx" where
  "sum_lines le page fs dir file pos check_files md =
     (case get_next_line pos file of
        (None, pos) \<Rightarrow> Inr md
      | (Some l, pos) \<Rightarrow>
          (let line = takeWhile (\<lambda>c. c \<noteq> CHR 0x00) l
           in if starts_with line ''source_''
              then (case last_pos CHR '' '' line of
                      None \<Rightarrow> Inl (MalformedLine line)
                    | Some i \<Rightarrow> andthen (parse_file le page fs (drop (i + 1) line) md)
                                 (\<lambda>md. sum_lines le page fs dir file pos check_files md))
              else if starts_with line ''deps_'' then sum_lines le page fs dir file pos True md
              else if \<not> check_files then sum_lines le page fs dir file pos check_files md
              else if line = [] then Inl ReadBeforeLine
              else if last line \<noteq> CHR 0x5C then Inr md
              else (let line = takeWhile (\<lambda>c. \<not> c_isspace c) line
                    in if in_directory line dir
                       then andthen (parse_file le page fs line md) (\<lambda>md. sum_lines le page fs dir file pos check_files md)
                       else sum_lines le page fs dir file pos check_files md)))"
  by auto
termination
  by (relation "measure (\<lambda>(le, page, fs, dir, file, pos, check_files, md). length file - pos)")
    (auto dest!: get_next_line_grows [OF sym])

declare sum_lines.simps [simp del]

definition cmd_file :: "cstr \<Rightarrow> cstr \<times> cstr" where
  "cmd_file objfile =
     (case last_pos CHR ''/'' objfile of
        Some i \<Rightarrow> (take (i + 1) objfile, take (i + 1) objfile @ ''.'' @ drop (i + 1) objfile @ ''.cmd'')
      | None \<Rightarrow> ([], ''.'' @ objfile @ ''.cmd''))"

definition parse_source_files :: "bool \<Rightarrow> nat \<Rightarrow> (cstr \<Rightarrow> cstr option) \<Rightarrow> cstr \<Rightarrow> md4_ctx \<Rightarrow> sum_error + md4_ctx" where
  "parse_source_files le page fs objfile md =
     (let (dir, cmd) = cmd_file objfile
      in case grab_file fs cmd of
           None \<Rightarrow> Inl (CouldNotFind cmd objfile)
         | Some file \<Rightarrow> sum_lines le page fs dir file 0 False md)"

section \<open>The checksum of a module\<close>

fun strsep :: "cstr \<Rightarrow> cstr list" where
  "strsep [] = [[]]"
| "strsep (c # cs) =
     (if c = CHR '' '' then [] # strsep cs
      else (case strsep cs of [] \<Rightarrow> [[c]] | w # ws \<Rightarrow> (c # w) # ws))"

fun sum_objects :: "bool \<Rightarrow> nat \<Rightarrow> (cstr \<Rightarrow> cstr option) \<Rightarrow> cstr list \<Rightarrow> md4_ctx \<Rightarrow> sum_error + md4_ctx" where
  "sum_objects le page fs [] md = Inr md"
| "sum_objects le page fs (fname # fnames) md =
     (if fname = [] then sum_objects le page fs fnames md
      else if is_static_library fname then sum_objects le page fs fnames md
      else andthen (parse_source_files le page fs fname md) (sum_objects le page fs fnames))"

definition versions_file :: "cstr option \<Rightarrow> cstr \<Rightarrow> cstr" where
  "versions_file env modname =
     (let modverdir = (case env of None \<Rightarrow> ''.'' | Some d \<Rightarrow> d);
          basename = (case last_pos CHR ''/'' modname of Some i \<Rightarrow> drop (i + 1) modname | None \<Rightarrow> modname);
          stem = (if length basename \<ge> 2 then take (length basename - 2) basename else basename)
      in take 4096 (modverdir @ ''/'' @ stem @ ''.mod''))"

text \<open>The result is \<open>None\<close> where \<open>sum\<close> is left as it is.\<close>

definition get_src_version ::
    "bool \<Rightarrow> nat \<Rightarrow> (cstr \<Rightarrow> cstr option) \<Rightarrow> cstr option \<Rightarrow> cstr \<Rightarrow> md4_ctx \<Rightarrow> nat \<Rightarrow> sum_error + cstr option" where
  "get_src_version le page fs env modname md sumlen =
     (case grab_file fs (versions_file env modname) of
        None \<Rightarrow> Inr None
      | Some file \<Rightarrow>
          andthen (mapped_strchr page file 0 CHR 0x0A) (\<lambda>nl. case nl of
            None \<Rightarrow> Inl (MalformedVersionsFile modname)
          | Some s \<Rightarrow>
              andthen (mapped_strchr page file (s + 1) CHR 0x0A) (\<lambda>nl. case nl of
                None \<Rightarrow> Inl (BadEndingVersionsFile modname)
              | Some e \<Rightarrow>
                  andthen (sum_objects le page fs (strsep (drop (s + 1) (take e file))) (md4_init md))
                    (\<lambda>md. Inr (Some (md4_final_ascii le md sumlen))))))"

section \<open>RCS versions\<close>

text \<open>
  The memory from \<open>version\<close> on; \<open>None\<close> is a read or a move that leaves it. The version is followed by
  another string.
\<close>

definition memmove_down :: "cstr \<Rightarrow> nat \<Rightarrow> nat \<Rightarrow> nat \<Rightarrow> cstr" where
  "memmove_down mem dst src n = take dst mem @ take n (drop src mem) @ drop (dst + n) mem"

definition mem_strlen :: "cstr \<Rightarrow> nat option" where
  "mem_strlen mem =
     (let n = length (takeWhile (\<lambda>c. c \<noteq> CHR 0x00) mem) in if n < length mem then Some n else None)"

definition strip_rcs_crap :: "cstr \<Rightarrow> (bool \<times> cstr) option" where
  "strip_rcs_crap version =
     (if \<not> starts_with version ''$Revision'' then Some (False, version)
      else do {
        n1 \<leftarrow> mem_strlen version;
        n2 \<leftarrow> mem_strlen (drop (n1 + 1) version);
        let full_len = n1 + n2 + 2;
        let len = length ''$Revision'';
        let len = (if version ! len = CHR '':'' \<or> version ! len = CHR ''$'' then len + 1 else len);
        let len = len + length (takeWhile c_isspace (drop len version));
        let version = memmove_down version 0 len (full_len - len);
        let full_len = full_len - len;
        let len = length (takeWhile (\<lambda>c. c \<noteq> CHR 0x00 \<and> \<not> c_isspace c) version);
        n \<leftarrow> mem_strlen version;
        Some (True, memmove_down version len n (full_len - n))
      })"

text \<open>What \<open>write_version\<close> is to write to the file at the offset.\<close>

definition maybe_frob_rcs_version :: "cstr \<Rightarrow> nat \<Rightarrow> (cstr \<times> (nat \<times> cstr) option) option" where
  "maybe_frob_rcs_version version version_offset =
     (case strip_rcs_crap version of
        None \<Rightarrow> None
      | Some (stripped, version) \<Rightarrow>
          Some (version,
            if stripped then Some (version_offset, takeWhile (\<lambda>c. c \<noteq> CHR 0x00) version @ [CHR 0x00]) else None))"

end
