(* ===== verification/Sumversion_Properties.thy ===== *)
theory Sumversion_Properties
  imports Sumversion_Final Sumversion_Files
begin

text \<open>
  What the checksum of the sources is: the text of a source without white space and comments, and the
  digest of the texts one after the other.
\<close>

section \<open>The text of a source\<close>

text \<open>
  The rest of a string literal behind a character, with what follows it; a quote ends it unless the
  character before it is a backslash.
\<close>

fun quoted :: "char \<Rightarrow> cstr \<Rightarrow> cstr \<times> cstr" where
  "quoted prev [] = ([], [])"
| "quoted prev (c # cs) =
     (if c = CHR 0x22 \<and> prev \<noteq> CHR 0x5C then ([c], cs)
      else (case quoted c cs of (s, r) \<Rightarrow> (c # s, r)))"

fun after_comment :: "char \<Rightarrow> cstr \<Rightarrow> cstr" where
  "after_comment prev [] = []"
| "after_comment prev (c # cs) = (if prev = CHR ''*'' \<and> c = CHR ''/'' then cs else after_comment c cs)"

lemma quoted_shorter: "length (snd (quoted p cs)) \<le> length cs"
  by (induction p cs rule: quoted.induct) (auto split: prod.splits)

lemma after_comment_shorter: "length (after_comment p cs) \<le> length cs"
  by (induction p cs rule: after_comment.induct) auto

function strip_source :: "cstr \<Rightarrow> cstr" where
  "strip_source [] = []"
| "strip_source (c # cs) =
     (if c = CHR 0x5C \<and> starts_with cs [CHR 0x0A] then strip_source (tl cs)
      else if c_isspace c then strip_source cs
      else if c = CHR 0x22 then c # fst (quoted c cs) @ strip_source (snd (quoted c cs))
      else if c = CHR ''/'' \<and> starts_with cs ''*'' then strip_source (after_comment CHR ''*'' (tl cs))
      else c # strip_source cs)"
  by pat_completeness auto
termination
  by (relation "measure length") (auto simp: less_Suc_eq_le quoted_shorter intro: le_trans [OF after_comment_shorter])

definition add_text :: "bool \<Rightarrow> cstr \<Rightarrow> md4_ctx \<Rightarrow> md4_ctx" where
  "add_text le s md = foldl (\<lambda>md c. add_char le c md) md s"

lemma add_text_simps [simp]:
  "add_text le [] md = md" "add_text le (c # s) md = add_text le s (add_char le c md)"
  "add_text le (s @ t) md = add_text le t (add_text le s md)"
  by (simp_all add: add_text_def)

lemma drop_at: "i < length f \<Longrightarrow> drop i f = f ! i # drop (i + 1) f"
  by (simp add: Cons_nth_drop_Suc)

lemma parse_string_from_quoted:
  "0 < i \<Longrightarrow> parse_string_from le f i md =
     (n, md') \<Longrightarrow> snd (quoted (f ! (i - 1)) (drop i f)) = drop (n + 1) f \<and> md' = add_text le (fst (quoted (f ! (i - 1)) (drop i f))) md"
proof (induction le f i md rule: parse_string_from.induct)
  case (1 le f i md)
  note eq = "1.prems"(2) [unfolded parse_string_from.simps [of le f i md] Let_def]
  show ?case
  proof (cases "i < length f")
    case i: True
    show ?thesis
    proof (cases "f ! i = CHR 0x22 \<and> f ! (i - 1) \<noteq> CHR 0x5C")
      case True
      then show ?thesis using eq i unfolding drop_at [OF i] by auto
    next
      case False
      then show ?thesis using eq i "1.IH" [OF i refl False] unfolding drop_at [OF i] by (auto split: prod.splits)
    qed
  next
    case False
    then show ?thesis using eq by auto
  qed
qed

lemma parse_string_quoted:
  assumes "i < length f" "parse_string le (drop i f) md = (n, md')"
  shows "snd (quoted (f ! i) (drop (i + 1) f)) = drop (i + n + 1) f
    \<and> md' = add_text le (f ! i # fst (quoted (f ! i) (drop (i + 1) f))) md"
  using parse_string_from_quoted [of 1 le "drop i f" "add_char le (drop i f ! 0) md" n md'] assms
  by (simp add: parse_string_def add.commute)

lemma parse_comment_from_after:
  "0 < i \<Longrightarrow> after_comment (f ! (i - 1)) (drop i f) = drop (parse_comment_from f i + 1) f"
proof (induction f i rule: parse_comment_from.induct)
  case (1 f i)
  show ?case
  proof (cases "i < length f")
    case i: True
    show ?thesis
      using 1 i unfolding drop_at [OF i] by (simp add: parse_comment_from.simps [of f i])
  qed (simp add: parse_comment_from.simps [of f i])
qed

lemma parse_comment_after:
  assumes "i + 1 < length f" "f ! (i + 1) = CHR ''*''"
  shows "after_comment CHR ''*'' (drop (i + 2) f) = drop (i + parse_comment (drop i f) + 1) f"
  using parse_comment_from_after [of 2 "drop i f"] assms by (simp add: parse_comment_def add.commute)

text \<open>A backslash before a line feed, and the start of a comment, at a position.\<close>

lemma starts_with_at: "starts_with (drop i f) [c] \<longleftrightarrow> i < length f \<and> f ! i = c"
  by (cases "i < length f") (auto simp: drop_at)

lemma tl_drop_at: "tl (drop i f) = drop (i + 1) f"
  by (simp add: drop_Suc tl_drop)

definition safe_end :: "nat \<Rightarrow> cstr \<Rightarrow> bool" where
  "safe_end page file = (length file mod page \<noteq> 0 \<or> file = [] \<or> last file \<noteq> CHR ''/'')"

lemma parse_text_strip:
  "(safe_end page f \<longrightarrow> (\<exists>md'. parse_text le page f i md = Inr md')) \<and>
   (\<forall>md'. parse_text le page f i md = Inr md' \<longrightarrow> md' = add_text le (strip_source (drop i f)) md)"
proof (induction le page f i md rule: parse_text.induct)
  case (1 le page f i md)
  note IH = "1.IH" and eq = parse_text.simps [of le page f i md]
  show ?case
  proof (cases "i < length f")
    case i: True
    note d = drop_at [OF i]
    let ?esc = "f ! i = CHR 0x5C \<and> i + 1 < length f \<and> f ! (i + 1) = CHR 0x0A"
    let ?b = "mapped_byte page f (i + 1)"
    consider "f ! i = CHR 0x5C" "i + 1 < length f" "f ! (i + 1) = CHR 0x0A"
      | "\<not> ?esc" "c_isspace (f ! i)"
      | "\<not> ?esc" "\<not> c_isspace (f ! i)" "f ! i = CHR 0x22"
      | "\<not> ?esc" "\<not> c_isspace (f ! i)" "f ! i = CHR ''/''" "?b = None"
      | "\<not> ?esc" "\<not> c_isspace (f ! i)" "f ! i = CHR ''/''" "?b = Some CHR ''*''"
      | "\<not> ?esc" "\<not> c_isspace (f ! i)" "f ! i \<noteq> CHR 0x22" "\<not> (f ! i = CHR ''/'' \<and> ?b = None)"
          "\<not> (f ! i = CHR ''/'' \<and> ?b = Some CHR ''*'')"
      by satx
    then show ?thesis
    proof cases
      case 1
      then show ?thesis using IH(1) i unfolding eq d by (simp add: starts_with_at tl_drop_at)
    next
      case 2
      then show ?thesis using IH(2) i unfolding eq d by (auto simp add: starts_with_at)
    next
      case 3
      obtain n md1 where n: "parse_string le (drop i f) md = (n, md1)" by (cases "parse_string le (drop i f) md") auto
      have q: "\<not> (f ! i = CHR 0x5C \<and> starts_with (drop (i + 1) f) [CHR 0x0A])" using 3 by (simp add: starts_with_at)
      show ?thesis
        using IH(3) [OF i 3 n [symmetric]] 3 i n parse_string_quoted [OF i n] q unfolding eq d by simp
    next
      case 4
      then have "i + 1 = length f" "length f mod page = 0" using i by (auto simp: mapped_byte_def split: if_splits)
      moreover from this have "last f = CHR ''/''" using 4(3) by (metis add_diff_cancel_right' last_conv_nth i list.size(3) not_less_zero)
      ultimately show ?thesis using 4 i unfolding eq safe_end_def by auto
    next
      case 5
      then have "i + 1 < length f" "f ! (i + 1) = CHR ''*''" by (auto simp: mapped_byte_def split: if_splits)
      then show ?thesis using IH(4) 5 i parse_comment_after [of i f] unfolding eq d by (simp add: starts_with_at tl_drop_at)
    next
      case 6
      then have "\<not> (f ! i = CHR ''/'' \<and> starts_with (drop (i + 1) f) ''*'')" by (auto simp: starts_with_at mapped_byte_def)
      then show ?thesis using IH(5) 6 i unfolding eq d by (auto simp add: starts_with_at)
    qed
  next
    case False
    then show ?thesis unfolding eq by simp
  qed
qed


text \<open>A context in a blank block, and a source with a comment, a joined line and a string.\<close>

definition blank_ctx :: md4_ctx where
  "blank_ctx = \<lparr> md4_hash = [], md4_block = replicate 64 CHR 0x00, byte_count = 0 \<rparr>"



section \<open>The digest\<close>

text \<open>
  C17: The digest of a sequence of chunks is the reference digest of the message they make up, whatever
  the context held before: the bytes that \<open>md4_init\<close> leaves in the block have no effect, nor has the way
  the message is cut. The words of the message are read with their high byte first.
\<close>

theorem digest_is_reference:
  assumes "length (md4_block ctx) = 64"
  shows "md4_final_ascii le (foldl (md4_update le) (md4_init ctx) ds) n =
    take (n - 1) (concat (map hex8 (map (ntohl le) (digest_words word_be (concat ds)))))"
  using digest_chunks [OF assms, of le ds n] by (simp add: digest_chunks_def)

lemma digest_is_reference_witness:
  "md4_final_ascii True (foldl (md4_update True) (md4_init blank_ctx) [''a'', ''bc'']) 25 =
   md4_final_ascii True (foldl (md4_update True) (md4_init blank_ctx) [''abc'']) 25"
  using digest_is_reference [of blank_ctx True "[''a'', ''bc'']" 25] digest_is_reference [of blank_ctx True "[''abc'']" 25]
  by (simp add: blank_ctx_def)

text \<open>The bytes of a word without numbers of its size.\<close>

lemma char_of_unat: "char_of (unat v) = (char_of (uint v) :: char)" for v :: "32 word"
  by (simp add: char_of_def bit_unsigned_iff)

lemma bytes_be_code [code]: "bytes_be w = map (\<lambda>s. char_of (uint (drop_bit s w))) [24, 16, 8, 0]"
  by (simp only: bytes_be_def char_of_unat)

text \<open>
  C40: The digest is not the MD4 of RFC 1320 that the comment in the source names. The reference with the
  words of the message read low byte first gives the first test vector of the RFC; what the program
  prints for no bytes at all is another sum.
\<close>

theorem digest_not_rfc1320:
  "concat (map hex8 (map (ntohl True) (digest_words (\<lambda>bs. word_be (rev bs)) []))) = ''31D6CFE0D16AE931B73C59D7E0C089C0''
   \<and> md4_final_ascii True (md4_init blank_ctx) 33 = ''533BB7E5866E52F63B9ACCB31401D77F''"
proof
  show "concat (map hex8 (map (ntohl True) (digest_words (\<lambda>bs. word_be (rev bs)) []))) = ''31D6CFE0D16AE931B73C59D7E0C089C0''"
    by code_simp
  have "concat (map hex8 (map (ntohl True) (digest_words word_be []))) = ''533BB7E5866E52F63B9ACCB31401D77F''"
    by code_simp
  then show "md4_final_ascii True (md4_init blank_ctx) 33 = ''533BB7E5866E52F63B9ACCB31401D77F''"
    using digest_chunks [of blank_ctx True "[]" 33] by (simp add: digest_chunks_def blank_ctx_def)
qed

section \<open>The checksum of a module\<close>

text \<open>The texts of some sources, added one after the other.\<close>

definition source_texts :: "(cstr \<Rightarrow> cstr option) \<Rightarrow> cstr list \<Rightarrow> cstr" where
  "source_texts fs names = concat (map (\<lambda>name. strip_source (the (fs name))) names)"

definition adds_sources :: "bool \<Rightarrow> (cstr \<Rightarrow> cstr option) \<Rightarrow> md4_ctx \<Rightarrow> md4_ctx \<Rightarrow> bool" where
  "adds_sources le fs md md' =
     (\<exists>names. (\<forall>name \<in> set names. fs name \<noteq> None) \<and> md' = add_text le (source_texts fs names) md)"

lemma adds_sources_refl [simp]: "adds_sources le fs md md"
  unfolding adds_sources_def by (rule exI [of _ "[]"]) (simp add: source_texts_def)

lemma adds_sources_trans:
  assumes "adds_sources le fs md md1" "adds_sources le fs md1 md2"
  shows "adds_sources le fs md md2"
proof -
  obtain a where a: "\<forall>name \<in> set a. fs name \<noteq> None" "md1 = add_text le (source_texts fs a) md"
    using assms(1) unfolding adds_sources_def by blast
  obtain b where b: "\<forall>name \<in> set b. fs name \<noteq> None" "md2 = add_text le (source_texts fs b) md1"
    using assms(2) unfolding adds_sources_def by blast
  show ?thesis unfolding adds_sources_def using a b by (intro exI [of _ "a @ b"]) (auto simp: source_texts_def)
qed

lemma parse_file_adds: "parse_file le page fs fname md = Inr md' \<Longrightarrow> adds_sources le fs md md'"
proof -
  assume p: "parse_file le page fs fname md = Inr md'"
  then obtain f where f: "fs fname = Some f" "parse_text le page f 0 md = Inr md'"
    by (auto simp: parse_file_def grab_file_def split: option.splits if_splits)
  have "md' = add_text le (strip_source (drop 0 f)) md" using f(2) parse_text_strip by blast
  then show ?thesis unfolding adds_sources_def using f(1) by (intro exI [of _ "[fname]"]) (simp add: source_texts_def)
qed

lemma sum_lines_adds: "sum_lines le page fs dir f pos check md = Inr md' \<Longrightarrow> adds_sources le fs md md'"
proof (induction le page fs dir f pos check md arbitrary: md' rule: sum_lines.induct)
  case (1 le page fs dir f pos check md)
  note eq = "1.prems" [unfolded sum_lines.simps [of le page fs dir f pos check md]]
  show ?case
  proof (cases "get_next_line pos f")
    case (Pair l p)
    show ?thesis
    proof (cases l)
      case None
      then show ?thesis using eq Pair by simp
    next
      case (Some l')
      note n = Pair [unfolded Some]
      note IH = "1.IH" [OF n [symmetric] refl refl]
      show ?thesis
        using eq IH unfolding n
        by (auto simp: Let_def andthen_Inr_iff split: option.splits if_splits
              intro: adds_sources_trans [OF parse_file_adds])
    qed
  qed
qed

lemma sum_objects_adds: "sum_objects le page fs fnames md = Inr md' \<Longrightarrow> adds_sources le fs md md'"
proof (induction fnames arbitrary: md)
  case (Cons fname fnames)
  have "adds_sources le fs md md1" if "parse_source_files le page fs fname md = Inr md1" for md1
    using that by (auto simp: parse_source_files_def split: prod.splits option.splits dest: sum_lines_adds)
  then show ?case using Cons by (auto simp: andthen_Inr_iff split: if_splits intro: adds_sources_trans)
qed simp

lemma final_of_text:
  assumes "length (md4_block md) = 64"
  shows "md4_final_ascii le (add_text le s (md4_init md)) n = take (n - 1) (concat (map hex8 (map (ntohl le) (digest_words word_be s))))"
proof -
  have "add_text le s md = foldl (md4_update le) md (map (\<lambda>c. [c]) s)" for md
    by (induction s arbitrary: md) (simp_all add: add_char_def)
  moreover have "concat (map (\<lambda>c. [c]) s) = s" by (induction s) simp_all
  ultimately show ?thesis using digest_chunks [OF assms, of le "map (\<lambda>c. [c]) s" n] by (simp add: digest_chunks_def)
qed

end
