(* ===== verification/Sumversion_Rcs.thy ===== *)
theory Sumversion_Rcs
  imports Sumversion_Files
begin

text \<open>
  The version string of a module, with the string behind it in memory: the RCS keyword and what follows
  the number are cut, and the string behind stays next to the number.
\<close>

lemma memmove_down_0: "memmove_down (a @ b @ c) 0 (length a) (length b) = b @ drop (length b) (a @ b @ c)"
  by (simp add: memmove_down_def)

lemma memmove_down_mid:
  "length b \<le> length a' \<Longrightarrow>
   memmove_down (w @ a' @ b @ c) (length w) (length w + length a') (length b) = w @ b @ drop (length b) (a' @ b @ c)"
  by (simp add: memmove_down_def)

lemma mem_strlen_append: "CHR 0x00 \<notin> set s \<Longrightarrow> mem_strlen (s @ CHR 0x00 # t) = Some (length s)"
proof -
  assume "CHR 0x00 \<notin> set s"
  then have "takeWhile (\<lambda>c. c \<noteq> CHR 0x00) s = s" unfolding takeWhile_eq_all_conv by metis
  then show ?thesis by (simp add: mem_strlen_def takeWhile_tail)
qed

lemma word_span:
  assumes "CHR 0x00 \<notin> set w" "\<forall>c \<in> set w. \<not> c_isspace c" "t = [] \<or> c_isspace (hd t)"
  shows "takeWhile (\<lambda>c. c \<noteq> CHR 0x00 \<and> \<not> c_isspace c) (w @ t @ CHR 0x00 # u) = w"
proof -
  have "takeWhile (\<lambda>c. c \<noteq> CHR 0x00 \<and> \<not> c_isspace c) (w @ r) = w @ takeWhile (\<lambda>c. c \<noteq> CHR 0x00 \<and> \<not> c_isspace c) r" for r
    using assms(1,2) by (intro takeWhile_append2) auto
  moreover have "takeWhile (\<lambda>c. c \<noteq> CHR 0x00 \<and> \<not> c_isspace c) (t @ CHR 0x00 # u) = []"
    using assms(3) by (cases t) auto
  ultimately show ?thesis by simp
qed

text \<open>
  A version \<open>$Revision: w ...\<close> (or \<open>$Revision$w ...\<close>) becomes the word \<open>w\<close>, and the string that followed
  it in memory follows the word; nothing else of the memory is needed.
\<close>

theorem strip_rcs_crap_word:
  assumes "m = CHR '':'' \<or> m = CHR ''$''" "\<forall>c \<in> set sp. c_isspace c"
    and "w \<noteq> []" "CHR 0x00 \<notin> set (w @ t @ next_string)" "\<forall>c \<in> set w. \<not> c_isspace c" "t = [] \<or> c_isspace (hd t)"
  shows "\<exists>junk. strip_rcs_crap (''$Revision'' @ [m] @ sp @ w @ t @ [CHR 0x00] @ next_string @ [CHR 0x00] @ rest) =
    Some (True, w @ [CHR 0x00] @ next_string @ [CHR 0x00] @ junk)"
proof -
  let ?p = "''$Revision'' @ [m] @ sp"
  let ?s = "CHR 0x00 # next_string @ [CHR 0x00]"
  let ?v = "?p @ w @ t @ ?s @ rest"
  have sp0: "CHR 0x00 \<notin> set sp" using assms(2) by (auto simp: ctype_defs)
  have m0: "m \<noteq> CHR 0x00" using assms(1) by auto
  have p: "starts_with ?v ''$Revision''" by simp
  have n1: "mem_strlen ?v = Some (length (?p @ w @ t))"
    using mem_strlen_append [of "?p @ w @ t" "next_string @ [CHR 0x00] @ rest"] sp0 m0 assms(4) by simp
  have d: "drop (length (?p @ w @ t) + 1) ?v = next_string @ CHR 0x00 # rest" by simp
  have n2: "mem_strlen (next_string @ CHR 0x00 # rest) = Some (length next_string)"
    using assms(4) by (intro mem_strlen_append) simp
  have len: "?v ! length ''$Revision'' = m" by simp
  have s: "takeWhile c_isspace (drop (length ''$Revision'' + 1) ?v) = sp"
    using assms(2,3,5) by (cases w) (auto simp: takeWhile_tail)
  have full: "length (?p @ w @ t) + length next_string + 2 - length ?p = length (w @ t @ ?s)" by simp
  let ?v1 = "w @ t @ ?s @ drop (length (w @ t @ ?s)) ?v"
  have v1: "memmove_down ?v 0 (length ?p) (length (w @ t @ ?s)) = ?v1"
    using memmove_down_0 [of ?p "w @ t @ ?s" rest] by simp
  have l: "takeWhile (\<lambda>c. c \<noteq> CHR 0x00 \<and> \<not> c_isspace c) ?v1 = w"
    using word_span [OF _ assms(5,6)] assms(4) by simp
  have n3: "mem_strlen ?v1 = Some (length (w @ t))"
    using mem_strlen_append [of "w @ t"] assms(4) by simp
  have v2: "memmove_down ?v1 (length w) (length (w @ t)) (length ?s) =
      w @ ?s @ drop (length w + length ?s) ?v1"
    by (simp add: memmove_down_def)
  have "strip_rcs_crap ?v = Some (True, w @ ?s @ drop (length w + length ?s) ?v1)"
  proof -
    have k: "length ''$Revision'' + 1 + length sp = length ?p" by simp
    have e: "length (w @ t @ ?s) - length (w @ t) = length ?s" by simp
    show ?thesis
      unfolding strip_rcs_crap_def using assms(1) p
      by (auto simp only: Let_def n1 n2 d len s k full v1 l n3 e v2 Option.bind.simps if_True if_False not_True_eq_False
          simp_thms split: if_splits)
  qed
  then show ?thesis by auto
qed

lemma strip_rcs_crap_word_witness:
  "\<exists>junk. strip_rcs_crap (''$Revision: 1.4 $'' @ [CHR 0x00] @ ''x=y'' @ [CHR 0x00] @ ''z'') =
     Some (True, ''1.4'' @ [CHR 0x00] @ ''x=y'' @ [CHR 0x00] @ junk)"
  using strip_rcs_crap_word [of "CHR '':''" "'' ''" "''1.4''" "'' $''" "''x=y''" "''z''"] by (simp add: ctype_defs)

end
