(* ===== verification/Fixdep.thy ===== *)
theory Fixdep
  imports Bytes
begin

unbundle bit_operations_syntax

text \<open>
  \<open>basic/fixdep.c\<close>: the dependencies that the compiler lists are copied to the standard output, with a
  dependency on every configuration option that one of the files mentions. A file is what \<open>fs\<close> gives
  for its name, a buffer the string that is read from it; what is printed is kept in the state.
\<close>

datatype fixdep_error = Fixdep_usage | Error_opening cstr | No_targets_found

record item =
  item_len :: nat
  item_hash :: "32 word"
  item_name :: cstr

record fixdep =
  hashtab :: "nat \<Rightarrow> item list"
  printed :: cstr

definition put_text :: "cstr \<Rightarrow> fixdep \<Rightarrow> fixdep" where
  "put_text s st = st\<lparr> printed := printed st @ s \<rparr>"

section \<open>The options\<close>

definition c_tolower :: "char \<Rightarrow> char" where
  "c_tolower c = (if c_isupper c then char_of (chr_code c + 32) else c)"

fun dep_path :: "char \<Rightarrow> cstr \<Rightarrow> cstr" where
  "dep_path prev_c [] = []"
| "dep_path prev_c (c # cs) =
     (let c = (if c = CHR ''_'' then CHR ''/'' else c_tolower c)
      in (if c \<noteq> CHR ''/'' \<or> prev_c \<noteq> CHR ''/'' then [c] else []) @ dep_path c cs)"

definition print_dep :: "cstr \<Rightarrow> nat \<Rightarrow> cstr \<Rightarrow> fixdep \<Rightarrow> fixdep" where
  "print_dep m slen dir =
     put_text (''    $(wildcard '' @ dir @ ''/'' @ dep_path CHR ''/'' (take slen m) @ ''.h) '' @ [CHR 0x5C, CHR 0x0A])"

text \<open>A \<open>char\<close> is signed.\<close>

definition strhash :: "cstr \<Rightarrow> nat \<Rightarrow> 32 word" where
  "strhash str sz =
     foldl (\<lambda>hash c. (hash XOR scast (of_char c :: 8 word)) * 0x01000193) 2166136261 (take sz str)"

definition HASHSZ :: nat where
  "HASHSZ = 256"

definition is_defined_config :: "cstr \<Rightarrow> nat \<Rightarrow> 32 word \<Rightarrow> fixdep \<Rightarrow> bool" where
  "is_defined_config name len hash st =
     list_ex (\<lambda>aux. item_hash aux = hash \<and> item_len aux = len \<and> take len (item_name aux) = take len name)
       (hashtab st (unat hash mod HASHSZ))"

definition define_config :: "cstr \<Rightarrow> nat \<Rightarrow> 32 word \<Rightarrow> fixdep \<Rightarrow> fixdep" where
  "define_config name len hash st =
     (let aux = \<lparr> item_len = len, item_hash = hash, item_name = take len name \<rparr>;
          h = unat hash mod HASHSZ
      in st\<lparr> hashtab := (hashtab st)(h := aux # hashtab st h) \<rparr>)"

definition use_config :: "cstr \<Rightarrow> nat \<Rightarrow> fixdep \<Rightarrow> fixdep" where
  "use_config m slen st =
     (let hash = strhash m slen
      in if is_defined_config m slen hash st then st
         else print_dep m slen ''include/config'' (define_config m slen hash st))"

definition str_ends_with :: "cstr \<Rightarrow> nat \<Rightarrow> cstr \<Rightarrow> bool" where
  "str_ends_with s slen sub =
     (length sub \<le> slen \<and> take (length sub) (drop (slen - length sub) s) = sub)"

definition is_word :: "char \<Rightarrow> bool" where
  "is_word c = (c_isalnum c \<or> c = CHR ''_'')"

lemma find_string_bound: "find_string s t = Some k \<Longrightarrow> k + length t \<le> length s"
  by (induction s t arbitrary: k rule: find_string.induct) (auto split: if_splits dest: starts_with_length)

text \<open>The positions \<open>p\<close>, \<open>q\<close> and \<open>r\<close> of the loop are indices of the buffer.\<close>

function config_loop :: "cstr \<Rightarrow> nat \<Rightarrow> fixdep \<Rightarrow> fixdep" where
  "config_loop buf p st =
     (case find_string (drop p buf) ''CONFIG_'' of
        None \<Rightarrow> st
      | Some k \<Rightarrow>
          if p + k > 0 \<and> is_word (buf ! (p + k - 1)) then config_loop buf (p + k + 7) st
          else (let p = p + k + 7;
                    q = p + length (takeWhile is_word (drop p buf));
                    r = (if str_ends_with (drop p buf) (q - p) ''_MODULE'' then q - 7 else q)
                in config_loop buf q (if r > p then use_config (drop p buf) (r - p) st else st)))"
  by auto
termination by (relation "measure (\<lambda>(buf, p, st). length buf - p)") (auto dest!: find_string_bound)

declare config_loop.simps [simp del]

definition parse_config_file :: "cstr \<Rightarrow> fixdep \<Rightarrow> fixdep" where
  "parse_config_file buf st = config_loop buf 0 st"

section \<open>The dependencies\<close>

definition read_file :: "(cstr \<Rightarrow> cstr option) \<Rightarrow> cstr \<Rightarrow> fixdep_error + cstr" where
  "read_file fs filename =
     (case fs filename of None \<Rightarrow> Inl (Error_opening filename) | Some buf \<Rightarrow> Inr (takeWhile (\<lambda>c. c \<noteq> CHR 0x00) buf))"

definition is_ignored_file :: "cstr \<Rightarrow> nat \<Rightarrow> bool" where
  "is_ignored_file s len =
     (str_ends_with s len ''include/generated/autoconf.h'' \<or> str_ends_with s len ''include/generated/autoksyms.h''
      \<or> str_ends_with s len ''.ver'')"

definition is_blank :: "char \<Rightarrow> bool" where
  "is_blank c = (c = CHR '' '' \<or> c = CHR 0x5C \<or> c = CHR 0x0A)"

text \<open>What is printed for a dependency.\<close>

definition dep_head :: "cstr \<Rightarrow> cstr \<Rightarrow> bool \<Rightarrow> bool \<Rightarrow> cstr" where
  "dep_head target m saw_any_target is_first_dep =
     (if is_first_dep
      then if saw_any_target then []
           else ''source_'' @ target @ '' := '' @ m @ [CHR 0x0A, CHR 0x0A] @ ''deps_'' @ target @ '' := '' @ [CHR 0x5C, CHR 0x0A]
      else ''  '' @ m @ '' '' @ [CHR 0x5C, CHR 0x0A])"

lemma rest_shorter:
  assumes "dropWhile Q (dropWhile P m) \<noteq> []"
  shows "length (tl (dropWhile Q (dropWhile P m))) < length m"
proof -
  have "length (dropWhile Q (dropWhile P m)) \<le> length m" by (meson length_dropWhile_le le_trans)
  then show ?thesis using assms by (cases "dropWhile Q (dropWhile P m)") simp_all
qed

text \<open>The loop, from the rest \<open>m\<close> of the buffer on; the result has \<open>saw_any_target\<close>.\<close>

function dep_loop ::
    "(cstr \<Rightarrow> cstr option) \<Rightarrow> cstr \<Rightarrow> cstr \<Rightarrow> bool \<Rightarrow> bool \<Rightarrow> fixdep \<Rightarrow> fixdep_error + (bool \<times> fixdep)" where
  "dep_loop fs target m saw_any_target is_first_dep st =
     (let m = dropWhile is_blank m
      in if m = [] then Inr (saw_any_target, st)
         else
           let tok = takeWhile (\<lambda>c. \<not> is_blank c) m;
               p = dropWhile (\<lambda>c. \<not> is_blank c) m
           in if last tok = CHR '':''
              then (if p = [] then Inr (saw_any_target, st)
                    else dep_loop fs target (tl p) saw_any_target True st)
              else if \<not> is_ignored_file m (length tok)
              then andthen (read_file fs tok) (\<lambda>buf.
                     let st = parse_config_file buf (put_text (dep_head target tok saw_any_target is_first_dep) st)
                     in if p = [] then Inr (saw_any_target \<or> is_first_dep, st)
                        else dep_loop fs target (tl p) (saw_any_target \<or> is_first_dep) False st)
              else (if p = [] then Inr (saw_any_target, st)
                    else dep_loop fs target (tl p) saw_any_target is_first_dep st))"
  by auto
termination
  by (relation "measure (\<lambda>(fs, target, m, saw, first, st). length m)")
    (auto simp del: dropWhile_eq_Nil_conv length_tl intro: rest_shorter)

declare dep_loop.simps [simp del]

definition parse_dep_file :: "(cstr \<Rightarrow> cstr option) \<Rightarrow> cstr \<Rightarrow> cstr \<Rightarrow> fixdep \<Rightarrow> fixdep_error + fixdep" where
  "parse_dep_file fs m target st =
     andthen (dep_loop fs target m False False st) (\<lambda>(saw_any_target, st).
       if \<not> saw_any_target then Inl No_targets_found
       else Inr (put_text
         ([CHR 0x0A] @ target @ '': $(deps_'' @ target @ '')'' @ [CHR 0x0A, CHR 0x0A] @ ''$(deps_'' @ target @ ''):'' @ [CHR 0x0A]) st))"

text \<open>The program: what it prints, or why it exits with an error.\<close>

definition fixdep_main :: "(cstr \<Rightarrow> cstr option) \<Rightarrow> cstr list \<Rightarrow> fixdep_error + cstr" where
  "fixdep_main fs argv =
     (case argv of
        [_, depfile, target, cmdline] \<Rightarrow>
          (let st = put_text (''cmd_'' @ target @ '' := '' @ cmdline @ [CHR 0x0A, CHR 0x0A]) \<lparr> hashtab = (\<lambda>_. []), printed = [] \<rparr>
           in andthen (read_file fs depfile) (\<lambda>buf. andthen (parse_dep_file fs buf target st) (\<lambda>st. Inr (printed st))))
      | _ \<Rightarrow> Inl Fixdep_usage)"

end
