(* ===== verification/Fixdep_Names.thy ===== *)
theory Fixdep_Names
  imports Fixdep
begin

text \<open>
  Which options \<open>fixdep\<close> records: the names of a text as a recursion over it, the words of a text, and
  the hash table as a set of names. A run is a pass over the list of the dependencies.
\<close>

section \<open>The names of a text\<close>

definition strip_module :: "cstr \<Rightarrow> cstr" where
  "strip_module w =
     (if length w \<ge> 7 \<and> drop (length w - 7) w = ''_MODULE'' then take (length w - 7) w else w)"

text \<open>The names behind \<open>CONFIG_\<close>, in their order; the flag tells whether a word character is in front.\<close>

fun config_names :: "bool \<Rightarrow> cstr \<Rightarrow> cstr list" where
  "config_names in_word [] = []"
| "config_names in_word (c # cs) =
     (let n = strip_module (takeWhile is_word (drop 7 (c # cs)))
      in if \<not> in_word \<and> starts_with (c # cs) ''CONFIG_'' \<and> n \<noteq> [] then [n] else [])
     @ config_names (is_word c) cs"

definition in_word_at :: "cstr \<Rightarrow> nat \<Rightarrow> bool" where
  "in_word_at buf p = (0 < p \<and> is_word (buf ! (p - 1)))"

lemma find_string_skip:
  "find_string s ''CONFIG_'' = Some k \<Longrightarrow>
   starts_with (drop k s) ''CONFIG_'' \<and> config_names b s = config_names (if k = 0 then b else is_word (s ! (k - 1))) (drop k s)"
proof (induction s arbitrary: k b)
  case (Cons c s)
  show ?case
  proof (cases "starts_with (c # s) ''CONFIG_''")
    case True
    then show ?thesis using Cons.prems by simp
  next
    case False
    then obtain j where j: "k = Suc j" "find_string s ''CONFIG_'' = Some j" using Cons.prems by auto
    have "config_names b (c # s) = config_names (is_word c) s" using False by (auto simp: Let_def)
    moreover have "config_names (is_word c) s =
        config_names (if j = 0 then is_word c else is_word (s ! (j - 1))) (drop j s)" "starts_with (drop j s) ''CONFIG_''"
      using Cons.IH [OF j(2), of "is_word c"] by blast+
    ultimately show ?thesis unfolding j(1) by (cases j) (simp_all only: drop_Suc_Cons nth_Cons_0 diff_Suc_1 nth_Cons_Suc
      nat.distinct if_False if_True simp_thms diff_Suc_Suc minus_nat.diff_0)
  qed
qed simp

lemma find_string_none: "find_string s ''CONFIG_'' = None \<Longrightarrow> config_names b s = []"
  by (induction s arbitrary: b) (auto split: if_splits)

lemma skip_word: "\<forall>c \<in> set w. is_word c \<Longrightarrow> config_names True (w @ s) = config_names True s"
  by (induction w) auto

lemma prefix_words: "\<forall>c \<in> set ''CONFIG_''. is_word c"
  by (simp add: is_word_def ctype_defs)

lemma use_config_take: "slen \<le> length m \<Longrightarrow> use_config m slen st = use_config (take slen m) (length (take slen m)) st"
  by (simp add: use_config_def strhash_def is_defined_config_def define_config_def print_dep_def Let_def)

definition use_name :: "fixdep \<Rightarrow> cstr \<Rightarrow> fixdep" where
  "use_name st n = use_config n (length n) st"

lemma strip_module_code:
  assumes "w = takeWhile is_word s"
  defines "r \<equiv> (if str_ends_with s (length w) ''_MODULE'' then length w - 7 else length w)"
  shows "r \<le> length s" "take r s = strip_module w" "r > 0 \<longleftrightarrow> strip_module w \<noteq> []"
proof -
  have t: "take (length w) s = w" unfolding assms(1) by (rule takeWhile_eq_take [symmetric])
  have l: "length w \<le> length s" unfolding assms(1) by (rule length_takeWhile_le)
  have len: "length ''_MODULE'' = 7" by simp
  have e: "str_ends_with s (length w) ''_MODULE'' \<longleftrightarrow> length w \<ge> 7 \<and> drop (length w - 7) w = ''_MODULE''"
  proof (cases "length w \<ge> 7")
    case True
    have "take 7 (drop (length w - 7) s) = drop (length w - 7) (take (length w) s)"
      using True by (simp add: take_drop)
    then show ?thesis using True t unfolding str_ends_with_def len by simp
  qed (simp add: str_ends_with_def)
  show "r \<le> length s" using l by (auto simp: r_def)
  show k: "take r s = strip_module w"
  proof (cases "str_ends_with s (length w) ''_MODULE''")
    case True
    then have "take (length w - 7) (take (length w) s) = take (length w - 7) s" by simp
    then show ?thesis using True e t by (simp add: r_def strip_module_def)
  next
    case False
    then show ?thesis using t unfolding r_def strip_module_def e by (simp only: if_False)
  qed
  show "r > 0 \<longleftrightarrow> strip_module w \<noteq> []" unfolding k [symmetric] using \<open>r \<le> length s\<close> by auto
qed

lemma config_loop_names: "p \<le> length buf \<Longrightarrow> config_loop buf p st = foldl use_name st (config_names (in_word_at buf p) (drop p buf))"
proof (induction buf p st rule: config_loop.induct)
  case (1 buf p st)
  show ?case
  proof (cases "find_string (drop p buf) ''CONFIG_''")
    case None
    then show ?thesis by (simp add: config_loop.simps [of buf p st] find_string_none)
  next
    case (Some k)
    let ?i = "p + k"
    let ?s = "drop ?i buf"
    have dk: "drop k (drop p buf) = ?s" by (simp add: add.commute)
    have fl: "(if k = 0 then in_word_at buf p else is_word (drop p buf ! (k - 1))) = in_word_at buf ?i"
      using "1.prems" by (cases k) (simp_all add: in_word_at_def)
    have at: "starts_with ?s ''CONFIG_''"
      and skip: "config_names (in_word_at buf p) (drop p buf) = config_names (in_word_at buf ?i) ?s"
      using find_string_skip [OF Some, of "in_word_at buf p"] unfolding dk fl by blast+
    have le: "?i + 7 \<le> length buf" using find_string_bound [OF Some] "1.prems" by simp
    have s: "?s = ''CONFIG_'' @ drop (?i + 7) buf" 
    proof -
      have "length ''CONFIG_'' = 7" by simp
      then show ?thesis using starts_with_drop [OF at] by (metis add.commute drop_drop)
    qed
    have "?s ! 6 = CHR ''_''" unfolding s by simp
    then have us: "buf ! (?i + 6) = CHR ''_''" using le by (simp add: add.commute)
    have w7: "in_word_at buf (?i + 7)" using us by (simp add: in_word_at_def is_word_def add.commute)
    show ?thesis
    proof (cases "in_word_at buf ?i")
      case True
      then have "config_names True ?s = config_names True (drop (?i + 7) buf)" unfolding s using skip_word [OF prefix_words] by simp
      then show ?thesis
        using "1.IH"(1) [OF Some] True le w7 unfolding skip config_loop.simps [of buf p st] Some
        by (simp add: in_word_at_def)
    next
      case False
      let ?w = "takeWhile is_word (drop (?i + 7) buf)"
      let ?q = "?i + 7 + length ?w"
      let ?r = "if str_ends_with (drop (?i + 7) buf) (length ?w) ''_MODULE'' then length ?w - 7 else length ?w"
      have d: "drop (?i + 7) buf = ?w @ drop ?q buf"
        by (metis (no_types, lifting) add.commute append_take_drop_id drop_drop takeWhile_eq_take)
      have wq: "in_word_at buf ?q"
      proof (cases "?w = []")
        case True
        then show ?thesis using w7 by simp
      next
        case wne: False
        have "drop (?i + 7) buf ! (length ?w - 1) = ?w ! (length ?w - 1)" using wne by (metis d diff_less length_greater_0_conv nth_append zero_less_one)
        moreover have "is_word (?w ! (length ?w - 1))" using wne by (metis diff_less length_greater_0_conv nth_mem set_takeWhileD zero_less_one)
        moreover have "?i + 7 + (length ?w - 1) = ?q - 1" using wne by (cases ?w) auto
        ultimately show ?thesis using le by (simp add: in_word_at_def)
      qed
      have sm: "?r \<le> length (drop (?i + 7) buf)" "take ?r (drop (?i + 7) buf) = strip_module ?w" "?r > 0 \<longleftrightarrow> strip_module ?w \<noteq> []"
        using strip_module_code [of ?w "drop (?i + 7) buf"] by simp_all
      have names: "config_names False ?s = (if strip_module ?w \<noteq> [] then [strip_module ?w] else []) @ config_names True (drop ?q buf)"
      proof -
        have "config_names False ?s = (if strip_module ?w \<noteq> [] then [strip_module ?w] else []) @ config_names True (tl ''CONFIG_'' @ drop (?i + 7) buf)"
          using s at by (simp add: is_word_def ctype_defs)
        also have "config_names True (tl ''CONFIG_'' @ drop (?i + 7) buf) = config_names True (?w @ drop ?q buf)"
          using skip_word [of "tl ''CONFIG_''"] prefix_words d by simp
        also have "\<dots> = config_names True (drop ?q buf)" by (rule skip_word) (auto dest: set_takeWhileD)
        finally show ?thesis .
      qed
      define st' where "st' = (if ?r > 0 then use_config (drop (?i + 7) buf) ?r st else st)"
      have st': "st' = foldl use_name st (if strip_module ?w \<noteq> [] then [strip_module ?w] else [])"
        using use_config_take [OF sm(1), of st] sm(2,3) by (auto simp: st'_def use_name_def)
      let ?e = "str_ends_with (drop (?i + 7) buf) (?q - (?i + 7)) ''_MODULE''"
      have step: "(if (if ?e then ?q - 7 else ?q) > ?i + 7
          then use_config (drop (?i + 7) buf) ((if ?e then ?q - 7 else ?q) - (?i + 7)) st else st) = st'"
        unfolding st'_def by (auto simp: less_diff_conv)
      have nw: "\<not> (?i > 0 \<and> is_word (buf ! (?i - 1)))" using False by (simp add: in_word_at_def)
      have q: "?q \<le> length buf" using le length_takeWhile_le [of is_word "drop (?i + 7) buf"] by simp
      have "config_loop buf p st = config_loop buf ?q st'"
        unfolding config_loop.simps [of buf p st] Some option.case if_not_P [OF nw] Let_def step ..
      also have "\<dots> = foldl use_name st' (config_names (in_word_at buf ?q) (drop ?q buf))"
        using "1.IH"(2) [OF Some nw refl refl refl q] unfolding step .
      finally show ?thesis using False wq names unfolding skip st' by simp
    qed
  qed
qed

text \<open>The occurrences of an option in a text: a whole word that starts with \<open>CONFIG_\<close>.\<close>

definition mentions :: "cstr \<Rightarrow> cstr \<Rightarrow> bool" where
  "mentions buf n =
     (\<exists>a w r. buf = a @ ''CONFIG_'' @ w @ r \<and> (a = [] \<or> \<not> is_word (last a)) \<and> (\<forall>c \<in> set w. is_word c)
        \<and> (r = [] \<or> \<not> is_word (hd r)) \<and> n = strip_module w \<and> n \<noteq> [])"

lemma whole_word: "\<forall>c \<in> set w. is_word c \<Longrightarrow> r = [] \<or> \<not> is_word (hd r) \<Longrightarrow> takeWhile is_word (w @ r) = w"
  by (cases r) (simp_all add: takeWhile_tail takeWhile_eq_all_conv [THEN iffD2])

lemma config_names_iff:
  "n \<in> set (config_names b s) \<longleftrightarrow>
     (\<exists>a w r. s = a @ ''CONFIG_'' @ w @ r \<and> (if a = [] then \<not> b else \<not> is_word (last a)) \<and> (\<forall>c \<in> set w. is_word c)
        \<and> (r = [] \<or> \<not> is_word (hd r)) \<and> n = strip_module w \<and> n \<noteq> [])"
  (is "_ \<longleftrightarrow> (\<exists>a w r. ?occ b s a w r)")
proof (induction s arbitrary: b)
  case (Cons c s)
  let ?here = "\<not> b \<and> starts_with (c # s) ''CONFIG_'' \<and> n = strip_module (takeWhile is_word (drop 7 (c # s))) \<and> n \<noteq> []"
  have m: "n \<in> set (config_names b (c # s)) \<longleftrightarrow> ?here \<or> n \<in> set (config_names (is_word c) s)"
    by (auto simp add: Let_def)
  show ?case
  proof
    assume "n \<in> set (config_names b (c # s))"
    then consider ?here | "\<exists>a w r. ?occ (is_word c) s a w r" using m Cons.IH by blast
    then show "\<exists>a w r. ?occ b (c # s) a w r"
    proof cases
      case 1
      let ?w = "takeWhile is_word (drop 7 (c # s))" and ?r = "dropWhile is_word (drop 7 (c # s))"
      have l: "length ''CONFIG_'' = 7" by simp
      have "c # s = [] @ ''CONFIG_'' @ ?w @ ?r" using starts_with_drop [of "c # s" "''CONFIG_''"] 1 unfolding l by (metis append_Nil takeWhile_dropWhile_id)
      moreover have "?r = [] \<or> \<not> is_word (hd ?r)" using hd_dropWhile by blast
      moreover have "\<forall>c \<in> set ?w. is_word c" by (auto dest: set_takeWhileD)
      moreover have "if ([] :: cstr) = [] then \<not> b else \<not> is_word (last [])" using 1 by simp
      ultimately show ?thesis using 1 by blast
    next
      case 2
      then obtain a w r where "?occ (is_word c) s a w r" by blast
      then have "?occ b (c # s) (c # a) w r" by (auto split: if_splits)
      then show ?thesis by blast
    qed
  next
    assume "\<exists>a w r. ?occ b (c # s) a w r"
    then obtain a w r where o: "?occ b (c # s) a w r" by blast
    show "n \<in> set (config_names b (c # s))"
    proof (cases a)
      case Nil
      then have e: "c # s = ''CONFIG_'' @ w @ r" "\<not> b" using o by auto
      have l: "drop 7 (''CONFIG_'' @ w @ r) = w @ r" by simp
      have "takeWhile is_word (w @ r) = w" using o by (intro whole_word) blast+
      moreover have "n = strip_module w" "n \<noteq> []" using o by blast+
      ultimately have ?here unfolding e(1) l using e(2) by simp
      then show ?thesis unfolding m ..
    next
      case (Cons d a')
      then have "?occ (is_word c) s a' w r" using o by (auto split: if_splits)
      then show ?thesis unfolding m using Cons.IH by blast
    qed
  qed
qed simp

lemma config_names_mentions: "set (config_names False buf) = {n. mentions buf n}"
proof -
  have "(if a = [] then \<not> False else \<not> is_word (last a)) \<longleftrightarrow> a = [] \<or> \<not> is_word (last a)" for a by simp
  then show ?thesis unfolding mentions_def set_eq_iff config_names_iff mem_Collect_eq by simp
qed

section \<open>The table of names\<close>

definition item_of :: "cstr \<Rightarrow> item" where
  "item_of n = \<lparr> item_len = length n, item_hash = strhash n (length n), item_name = n \<rparr>"

definition bucket :: "cstr \<Rightarrow> nat" where
  "bucket n = unat (strhash n (length n)) mod HASHSZ"

definition wf_table :: "fixdep \<Rightarrow> bool" where
  "wf_table st = (\<forall>h. \<forall>it \<in> set (hashtab st h). it = item_of (item_name it) \<and> h = bucket (item_name it))"

definition names_of :: "fixdep \<Rightarrow> cstr set" where
  "names_of st = {n. item_of n \<in> set (hashtab st (bucket n))}"

definition dep_line :: "cstr \<Rightarrow> cstr" where
  "dep_line n = ''    $(wildcard include/config/'' @ dep_path CHR ''/'' n @ ''.h) '' @ [CHR 0x5C, CHR 0x0A]"

lemma is_defined_iff:
  assumes "wf_table st"
  shows "is_defined_config n (length n) (strhash n (length n)) st \<longleftrightarrow> n \<in> names_of st"
proof
  assume "is_defined_config n (length n) (strhash n (length n)) st"
  then obtain aux where a: "aux \<in> set (hashtab st (bucket n))" "item_len aux = length n"
      "take (length n) (item_name aux) = take (length n) n"
    by (auto simp: is_defined_config_def list_ex_iff bucket_def)
  have i: "aux = item_of (item_name aux)" using assms a(1) unfolding wf_table_def by blast
  then have "length (item_name aux) = length n" using a(2) by (metis item.select_convs(1) item_of_def)
  then have "item_name aux = n" using a(3) by simp
  then show "n \<in> names_of st" using a(1) i by (simp add: names_of_def)
next
  assume "n \<in> names_of st"
  then show "is_defined_config n (length n) (strhash n (length n)) st"
    by (auto simp: names_of_def is_defined_config_def list_ex_iff bucket_def item_of_def intro!: bexI)
qed

lemma use_name_table:
  assumes "wf_table st"
  shows "wf_table (use_name st n)" "names_of (use_name st n) = insert n (names_of st)"
    "printed (use_name st n) = printed st @ (if n \<in> names_of st then [] else dep_line n)"
proof -
  have inj: "item_of a = item_of b \<longleftrightarrow> a = b" for a b by (auto simp: item_of_def)
  let ?st = "st\<lparr> hashtab := (hashtab st)(bucket n := item_of n # hashtab st (bucket n)) \<rparr>"
  have d: "define_config n (length n) (strhash n (length n)) st = ?st"
    by (simp add: define_config_def Let_def item_of_def bucket_def)
  have u: "use_name st n = (if n \<in> names_of st then st else put_text (dep_line n) ?st)"
    unfolding use_name_def use_config_def Let_def is_defined_iff [OF assms] d
    by (simp add: print_dep_def dep_line_def)
  have nm: "item_name (item_of n) = n" by (simp add: item_of_def)
  show "wf_table (use_name st n)" unfolding wf_table_def
  proof (intro allI ballI)
    fix h it assume "it \<in> set (hashtab (use_name st n) h)"
    then have "it \<in> set (hashtab st h) \<or> it = item_of n \<and> h = bucket n"
      unfolding u by (auto simp: put_text_def split: if_splits)
    then show "it = item_of (item_name it) \<and> h = bucket (item_name it)" using assms nm unfolding wf_table_def by metis
  qed
  show "names_of (use_name st n) = insert n (names_of st)" 
  proof (cases "n \<in> names_of st")
    case True
    then show ?thesis unfolding u by auto
  next
    case False
    have "x \<in> names_of (put_text (dep_line n) ?st) \<longleftrightarrow> x = n \<or> x \<in> names_of st" for x
      by (cases "x = n") (simp_all add: names_of_def put_text_def inj)
    then show ?thesis using False unfolding u by auto
  qed
  show "printed (use_name st n) = printed st @ (if n \<in> names_of st then [] else dep_line n)"
    unfolding u by (simp add: put_text_def)
qed

text \<open>The names of a list that are not among some others, once each.\<close>

fun fresh :: "cstr list \<Rightarrow> cstr list \<Rightarrow> cstr list" where
  "fresh seen [] = []"
| "fresh seen (n # ns) = (if n \<in> set seen then fresh seen ns else n # fresh (n # seen) ns)"

definition table_of :: "fixdep \<Rightarrow> cstr list \<Rightarrow> bool" where
  "table_of st seen = (wf_table st \<and> names_of st = set seen)"

lemma set_fresh: "set (fresh seen ns) = set ns - set seen"
  by (induction ns arbitrary: seen) auto

lemma distinct_fresh: "distinct (fresh seen ns)"
  by (induction ns arbitrary: seen) (auto simp: set_fresh)

lemma use_names_table:
  "table_of st seen \<Longrightarrow>
   table_of (foldl use_name st ns) (fresh seen ns @ seen)
   \<and> printed (foldl use_name st ns) = printed st @ concat (map dep_line (fresh seen ns))"
proof (induction ns arbitrary: st seen)
  case (Cons n ns)
  have w: "wf_table st" "names_of st = set seen" using Cons.prems by (simp_all add: table_of_def)
  note t = use_name_table [OF w(1), of n]
  show ?case
  proof (cases "n \<in> set seen")
    case True
    then have "table_of (use_name st n) seen" using t w(2) by (auto simp: table_of_def)
    then show ?thesis using Cons.IH [of "use_name st n" seen] True t(3) w(2) by simp
  next
    case False
    then have "table_of (use_name st n) (n # seen)" using t w(2) by (simp add: table_of_def)
    then show ?thesis using Cons.IH [of "use_name st n" "n # seen"] False t(3) w(2) by (simp add: table_of_def)
  qed
qed (simp add: table_of_def)

lemma parse_config_file_table:
  fixes buf :: cstr
  assumes "table_of st seen"
  defines "new \<equiv> fresh seen (config_names False buf)"
  shows "table_of (parse_config_file buf st) (new @ seen)"
    "printed (parse_config_file buf st) = printed st @ concat (map dep_line new)"
  using use_names_table [OF assms(1), of "config_names False buf"] config_loop_names [of 0 buf st]
  by (simp_all add: parse_config_file_def in_word_at_def new_def)

end
