(* ===== verification/Fixdep_Properties.thy ===== *)
theory Fixdep_Properties
  imports Fixdep_Names
begin

text \<open>
  What \<open>fixdep\<close> prints: a pass over the tokens of the dependency file in which the names already printed
  are a list, and the names of a file are the options it mentions.
\<close>

section \<open>A pass over the tokens\<close>

function dep_tokens :: "cstr \<Rightarrow> cstr list" where
  "dep_tokens m =
     (let m = dropWhile is_blank m
      in if m = [] then [] else takeWhile (\<lambda>c. \<not> is_blank c) m # dep_tokens (dropWhile (\<lambda>c. \<not> is_blank c) m))"
  by auto
termination
proof (relation "measure length", goal_cases)
  case (2 m x)
  then obtain c cs where x: "x = c # cs" by (auto simp del: dropWhile_eq_Nil_conv simp: neq_Nil_conv)
  moreover have "\<not> is_blank (hd x)" using hd_dropWhile [of is_blank m] 2 by metis
  ultimately have c: "\<not> is_blank c" by simp
  have "length x \<le> length m" using 2(1) by (simp add: length_dropWhile_le)
  moreover have "length (dropWhile (\<lambda>c. \<not> is_blank c) x) \<le> length cs" using x c by (simp add: length_dropWhile_le)
  ultimately show ?case using x by simp
qed simp

declare dep_tokens.simps [simp del]

definition ignored :: "cstr \<Rightarrow> bool" where
  "ignored tok = is_ignored_file tok (length tok)"

fun print_tokens ::
    "(cstr \<Rightarrow> cstr option) \<Rightarrow> cstr \<Rightarrow> cstr list \<Rightarrow> bool \<Rightarrow> bool \<Rightarrow> cstr list \<Rightarrow> fixdep_error + (bool \<times> cstr)" where
  "print_tokens fs target [] saw first seen = Inr (saw, [])"
| "print_tokens fs target (tok # toks) saw first seen =
     (if last tok = CHR '':'' then print_tokens fs target toks saw True seen
      else if ignored tok then print_tokens fs target toks saw first seen
      else andthen (read_file fs tok) (\<lambda>buf.
        let new = fresh seen (config_names False buf)
        in andthen (print_tokens fs target toks (saw \<or> first) False (new @ seen)) (\<lambda>(saw', txt).
             Inr (saw', dep_head target tok saw first @ concat (map dep_line new) @ txt))))"

definition print_dependencies :: "(cstr \<Rightarrow> cstr option) \<Rightarrow> cstr \<Rightarrow> cstr \<Rightarrow> cstr list \<Rightarrow> fixdep_error + cstr" where
  "print_dependencies fs target cmdline toks =
     andthen (print_tokens fs target toks False False []) (\<lambda>(saw, txt).
       if \<not> saw then Inl No_targets_found
       else Inr (''cmd_'' @ target @ '' := '' @ cmdline @ [CHR 0x0A, CHR 0x0A] @ txt
         @ [CHR 0x0A] @ target @ '': $(deps_'' @ target @ '')'' @ [CHR 0x0A, CHR 0x0A] @ ''$(deps_'' @ target @ ''):'' @ [CHR 0x0A]))"

lemma str_ends_with_take: "n \<le> length s \<Longrightarrow> str_ends_with s n sub = str_ends_with (take n s) (length (take n s)) sub"
  by (auto simp: str_ends_with_def drop_take min_def)

lemma ignored_code: "is_ignored_file s (length (takeWhile P s)) = ignored (takeWhile P s)"
proof -
  have "length (takeWhile P s) \<le> length s" by (rule length_takeWhile_le)
  from str_ends_with_take [OF this] show ?thesis
    unfolding is_ignored_file_def ignored_def by (simp only: takeWhile_eq_take [symmetric])
qed

lemma dep_tokens_tl:
  assumes "p = dropWhile (\<lambda>c. \<not> is_blank c) m" "p \<noteq> []"
  shows "dep_tokens (tl p) = dep_tokens p"
proof -
  have "is_blank (hd p)" using hd_dropWhile [of "\<lambda>c. \<not> is_blank c" m] assms by simp
  then have "dropWhile is_blank (tl p) = dropWhile is_blank p" using assms(2) by (cases p) simp_all
  then show ?thesis by (simp add: dep_tokens.simps [of p] dep_tokens.simps [of "tl p"])
qed

lemma dep_loop_prints:
  "table_of st seen \<Longrightarrow>
   (case print_tokens fs target (dep_tokens m) saw first seen of
      Inl e \<Rightarrow> dep_loop fs target m saw first st = Inl e
    | Inr (saw', txt) \<Rightarrow> \<exists>st'. dep_loop fs target m saw first st = Inr (saw', st') \<and> printed st' = printed st @ txt)"
proof (induction fs target m saw first st arbitrary: seen rule: dep_loop.induct)
  case (1 fs target m saw first st)
  let ?m = "dropWhile is_blank m"
  let ?tok = "takeWhile (\<lambda>c. \<not> is_blank c) ?m"
  let ?p = "dropWhile (\<lambda>c. \<not> is_blank c) ?m"
  note eq = dep_loop.simps [of fs target m saw first st]
  show ?case
  proof (cases "?m = []")
    case True
    then show ?thesis unfolding eq dep_tokens.simps [of m] Let_def True by simp
  next
    case m: False
    have toks: "dep_tokens m = ?tok # (if ?p = [] then [] else dep_tokens (tl ?p))"
      using m dep_tokens_tl [of ?p ?m] unfolding dep_tokens.simps [of m] Let_def
      by (cases "?p = []") (simp_all add: dep_tokens.simps [of "[]"] del: dropWhile_eq_Nil_conv)
    note IH = "1.IH" [OF refl m refl refl]
    show ?thesis
    proof (cases "last ?tok = CHR '':''")
      case c: True
      show ?thesis
      proof (cases "?p = []")
        case True
        then show ?thesis using m c unfolding eq toks Let_def by (simp del: dropWhile_eq_Nil_conv)
      next
        case False
        then show ?thesis using IH(1) [OF c False "1.prems"] m c unfolding eq toks Let_def by (simp del: dropWhile_eq_Nil_conv)
      qed
    next
      case c: False
      show ?thesis
      proof (cases "ignored ?tok")
        case i: True
        show ?thesis
        proof (cases "?p = []")
          case True
          then show ?thesis using m c i unfolding eq toks Let_def by (simp del: dropWhile_eq_Nil_conv add: ignored_code)
        next
          case False
          have "\<not> \<not> is_ignored_file ?m (length ?tok)" using i by (simp add: ignored_code)
          then show ?thesis using IH(3) [OF c _ False "1.prems"] False m c i unfolding eq toks Let_def
            by (simp del: dropWhile_eq_Nil_conv add: ignored_code)
        qed
      next
        case i: False
        show ?thesis
        proof (cases "read_file fs ?tok")
          case (Inl e)
          then show ?thesis using m c i unfolding eq toks Let_def by (simp del: dropWhile_eq_Nil_conv add: ignored_code)
        next
          case (Inr buf)
          let ?before = "put_text (dep_head target ?tok saw first) st"
          let ?st = "parse_config_file buf ?before"
          let ?new = "fresh seen (config_names False buf)"
          have "table_of ?before seen" using "1.prems" by (simp add: table_of_def wf_table_def names_of_def put_text_def)
          then have t: "table_of ?st (?new @ seen)" "printed ?st = printed st @ dep_head target ?tok saw first @ concat (map dep_line ?new)"
            using parse_config_file_table by (simp_all add: put_text_def)
          show ?thesis
          proof (cases "?p = []")
            case True
            then show ?thesis using m c i Inr t unfolding eq toks Let_def by (simp del: dropWhile_eq_Nil_conv add: ignored_code)
          next
            case False
            have "case print_tokens fs target (dep_tokens (tl ?p)) (saw \<or> first) False (?new @ seen) of
                Inl e \<Rightarrow> dep_loop fs target (tl ?p) (saw \<or> first) False ?st = Inl e
              | Inr (saw', txt) \<Rightarrow> \<exists>st'. dep_loop fs target (tl ?p) (saw \<or> first) False ?st = Inr (saw', st') \<and> printed st' = printed ?st @ txt"
              using IH(2) [OF c _ Inr refl False t(1)] i by (simp add: ignored_code)
            then show ?thesis using m c i Inr False t(2) unfolding eq toks Let_def
              by (simp del: dropWhile_eq_Nil_conv add: ignored_code Let_def split: sum.splits prod.splits)
          qed
        qed
      qed
    qed
  qed
qed

lemma main_prints:
  "fixdep_main fs [argv0, depfile, target, cmdline] =
     andthen (read_file fs depfile) (\<lambda>buf. print_dependencies fs target cmdline (dep_tokens buf))"
proof -
  let ?cmd = "''cmd_'' @ target @ '' := '' @ cmdline @ [CHR 0x0A, CHR 0x0A]"
  let ?st = "put_text ?cmd \<lparr> hashtab = (\<lambda>_. []), printed = [] \<rparr>"
  have t: "table_of ?st []" by (simp add: table_of_def wf_table_def names_of_def put_text_def)
  have p: "printed ?st = ?cmd" by (simp add: put_text_def)
  have "andthen (parse_dep_file fs buf target ?st) (\<lambda>st. Inr (printed st)) = print_dependencies fs target cmdline (dep_tokens buf)" for buf
    using dep_loop_prints [OF t, of fs target buf False False]
    unfolding parse_dep_file_def print_dependencies_def p
    by (auto simp: put_text_def split: sum.splits)
  then show ?thesis by (simp add: fixdep_main_def Let_def)
qed

section \<open>Properties\<close>

text \<open>
  C15: \<open>parse_config_file\<close> records exactly the options that a file mentions, whole words that start with
  \<open>CONFIG_\<close> without a final \<open>_MODULE\<close>, beside those recorded before: none is missed, and the hash table
  stays one in which every name is in its bucket.
\<close>

theorem options_recorded_exactly:
  assumes "wf_table st"
  shows "wf_table (parse_config_file buf st)
    \<and> names_of (parse_config_file buf st) = names_of st \<union> {n. mentions buf n}"
proof -
  have "wf_table (foldl use_name st ns) \<and> names_of (foldl use_name st ns) = names_of st \<union> set ns" for ns
    using assms by (induction ns arbitrary: st) (simp_all add: use_name_table)
  then show ?thesis
    unfolding parse_config_file_def config_loop_names [of 0, simplified] config_names_mentions [symmetric]
    by (simp add: in_word_at_def)
qed

definition empty_table :: fixdep where
  "empty_table = \<lparr> hashtab = (\<lambda>_. []), printed = [] \<rparr>"

lemma options_recorded_exactly_witness:
  "names_of (parse_config_file ''if CONFIG_A_MODULE XCONFIG_B CONFIG_C'' empty_table) = {n. mentions ''if CONFIG_A_MODULE XCONFIG_B CONFIG_C'' n}
   \<and> {n. mentions ''if CONFIG_A_MODULE XCONFIG_B CONFIG_C'' n} = {''A'', ''C''}"
proof
  have e: "wf_table empty_table" "names_of empty_table = {}" by (simp_all add: wf_table_def names_of_def empty_table_def)
  show "names_of (parse_config_file ''if CONFIG_A_MODULE XCONFIG_B CONFIG_C'' empty_table) = {n. mentions ''if CONFIG_A_MODULE XCONFIG_B CONFIG_C'' n}"
    using options_recorded_exactly [OF e(1)] e(2) by simp
  have "config_names False ''if CONFIG_A_MODULE XCONFIG_B CONFIG_C'' = [''A'', ''C'']" by code_simp
  then show "{n. mentions ''if CONFIG_A_MODULE XCONFIG_B CONFIG_C'' n} = {''A'', ''C''}"
    using config_names_mentions [of "''if CONFIG_A_MODULE XCONFIG_B CONFIG_C''"] by simp
qed

text \<open>
  C16: A run of \<open>fixdep\<close> prints what the pass over the tokens says: the source and the dependencies that
  are not ignored, in their order, each followed by the options it mentions that no file before it
  mentioned, once each; the hash table and the scan of the buffer do not show.
\<close>

theorem fixdep_prints_dependencies:
  "fixdep_main fs [argv0, depfile, target, cmdline] =
     andthen (read_file fs depfile) (\<lambda>buf. print_dependencies fs target cmdline (dep_tokens buf))"
  by (rule main_prints)

end
