(* ===== verification/Cmd_Files.thy ===== *)
theory Cmd_Files
  imports Fixdep_Properties Sumversion_Files
begin

text \<open>
  The files between \<open>fixdep\<close> and \<open>modpost\<close>: the text that \<open>basic/fixdep.c\<close> prints, for \<open>make\<close>, is what
  the line scanner of \<open>mod/sumversion.c\<close> reads the sources of an object from.
\<close>

section \<open>Lines of a file\<close>











section \<open>What a line does\<close>








section \<open>What fixdep prints, line by line\<close>


















section \<open>From fixdep to sumversion\<close>







end
