(* ===== verification/Spec2Isabelle.thy ===== *)
theory Spec2Isabelle
  imports Kconfig_Properties Unifdef_Properties Fdt_Properties Fdt_Faults Fdt_Edit_Properties
    Fdt_Overlay_Properties Kallsyms_Properties Sumversion_Checksum Sumversion_Rcs Cmd_Files
begin

text \<open>
  A verification library of the build programs of the repository.

  \<^bold>\<open>The program.\<close> The repository is a collection of notes with a copy of the \<open>scripts/\<close> directory of the
  Linux kernel (under \<open>src/notes/\<close>), which holds the C programs that configure and build the kernel.
  They are separate programs around shared files: \<open>kconfig\<close> rewrites and prints the dependency
  expressions of the configuration language; \<open>unifdef\<close> takes the conditionals of known symbols out of
  exported headers; \<open>dtc/libfdt\<close> reads, writes and edits flattened device trees; \<open>kallsyms\<close> turns
  the output of \<open>nm\<close> into the compressed symbol table of the kernel image; \<open>mod/sumversion.c\<close> computes
  the checksum of the sources of a module; \<open>basic/fixdep.c\<close> rewrites the dependencies of an object, and
  what it prints is where \<open>sumversion.c\<close> finds the sources. The theories follow these programs.

  \<^bold>\<open>Conventions.\<close> \<open>Prelude\<close> holds what the programs share: C strings as \<open>char list\<close>, the character
  classes and scanners of the C library, \<open>option\<close> and sums as results; \<open>Bytes\<close> the codes of
  characters. A function that may fail returns a value of a sum whose left side is the reason; an
  access outside of a buffer, undefined in C, is the value \<open>None\<close> or an error of its own, so that
  absence of such accesses is a theorem and never an assumption. Integers whose width matters are
  words, or integers reduced by \<open>u32\<close> and \<open>s32\<close> at each conversion of the source.

  \<^bold>\<open>kconfig\<close> (\<open>kconfig/expr.c\<close>, the expression rules of \<open>parser.y\<close>, \<open>gstr\<close> of \<open>util.c\<close>).
  \<open>Kconfig_Expr\<close> has the data, constructors and evaluation; \<open>Kconfig_Simplify\<close> the elimination of
  constants and equal operands and the join rules; \<open>Kconfig_Dups\<close> the walk of \<open>expr_eliminate_dups\<close> with
  two pointers into one tree; \<open>Kconfig_Transform\<close> \<open>expr_transform\<close> against a one-pass reference and the
  comparison with a constant; \<open>Kconfig_Print\<close> the printer and the grammar as an inductive relation.
  \<open>Kconfig_Properties\<close>: the rewriting functions return and keep the value, and what is printed is parsed
  as one expression of the same value. Fuel: the functions that walk two trees recurse on the sum of
  the numbers of their nodes, and \<open>walk_fuel\<close> of the nodes is enough for the walk (\<open>dups1_enough\<close>).

  \<^bold>\<open>unifdef\<close> (\<open>unifdef.c\<close>). \<open>Unifdef_Scan\<close> has the options, the state and the scanner; \<open>Unifdef_Eval\<close> the
  evaluator of \<open>#if\<close> expressions with unknown values, with \<open>eval_fuel\<close> of the line proved to be enough;
  \<open>Unifdef_Machine\<close> the transition table, \<open>parseline\<close> and \<open>process\<close>; \<open>Unifdef_Run\<close> a whole run;
  \<open>Unifdef_Cpp\<close> a reference semantics of conditionals and the simulation of every table entry.
  \<open>Unifdef_Properties\<close>: every run ends in an error message or at the end of the file outside of every
  group, and the output has the active lines of the input for every truth of the unknown conditions.

  \<^bold>\<open>libfdt\<close> (\<open>fdt.c\<close>, \<open>fdt_ro.c\<close>, \<open>fdt_addresses.c\<close>, \<open>fdt_strerror.c\<close>, \<open>fdt_sw.c\<close>,
  \<open>fdt_empty_tree.c\<close>, \<open>fdt_wip.c\<close>, \<open>fdt_rw.c\<close>, \<open>fdt_overlay.c\<close>). A blob is the list of bytes of its
  buffer. \<open>Fdt_Base\<close>, \<open>Fdt_Read\<close>, \<open>Fdt_Write\<close>, \<open>Fdt_Edit\<close> and \<open>Fdt_Overlay\<close> are the code; loops over tags have fuel
  \<open>blob_fuel\<close>, the number of bytes plus two, which is enough because every step moves at least four
  bytes forward unless a property length wraps around. \<open>Fdt_Safe\<close>, \<open>Fdt_Query\<close>, \<open>Fdt_Search\<close> and
  \<open>Fdt_Paths\<close> show that on a checked blob every query returns and reads nothing outside (the searches
  through one locale, interpreted for each of them); \<open>Fdt_Layout\<close>, \<open>Fdt_Tokens\<close> and \<open>Fdt_Roundtrip\<close>
  that the writer and the reader are inverse; \<open>Fdt_Tree\<close>, \<open>Fdt_Splice\<close> and \<open>Fdt_Edits\<close> that every edit
  of the bytes is an edit of the token list, and \<open>Fdt_Edit_Properties\<close> that a node is a map under
  \<open>fdt_setprop\<close>, \<open>fdt_delprop\<close> and \<open>fdt_getprop\<close>. \<open>Fdt_Forest\<close> has device trees as a datatype and the
  walks from child to child; \<open>Fdt_Merge\<close> and \<open>Fdt_Fragments\<close> show that the merge of an overlay is a
  function of the trees, \<open>Fdt_Phandles\<close> that its phandles move, and \<open>Fdt_Overlay_Properties\<close> states it;
  the steps that follow \<open>__fixups__\<close> and \<open>__symbols__\<close> are modelled without such a specification, and
  fragments that name their target by a phandle have none. \<open>Fdt_Faults\<close> has the arguments for which the code
  leaves its buffers or does not return.

  \<^bold>\<open>kallsyms\<close> (\<open>kallsyms.c\<close>, every function). \<open>Kallsyms_Table\<close> reads and filters the symbols: the fields
  that \<open>fscanf\<close> converts are the input. \<open>Kallsyms_Order\<close>: the comparison is a total order on entries with
  different positions, so that \<open>qsort\<close>, modelled as an insertion sort, has one possible result.
  \<open>Kallsyms_Compress\<close> is the compression as written, on buffers; \<open>Kallsyms_Greedy\<close> shows it equal to a
  greedy replacement on words with exact counts, \<open>Kallsyms_Expand\<close> that \<open>expand_symbol\<close>, which may
  recurse without end on other tables, returns and inverts it. \<open>Kallsyms_Output\<close> prints the tables,
  a line of assembler as a value of \<open>asm\<close>; \<open>Kallsyms_Tables\<close> and \<open>Kallsyms_Run\<close> read them back.
  \<open>token_profit\<close> is an unbounded integer, as its values are bounded by the size of the table.

  \<^bold>\<open>sumversion\<close> (\<open>mod/sumversion.c\<close>, with \<open>grab_file\<close> and \<open>get_next_line\<close> of \<open>mod/modpost.c\<close>).
  \<open>Sumversion_Md4\<close> is the digest on the memory of its block, for either byte order of the host;
  \<open>Sumversion_Digest\<close> a reference by the operation table of the RFC; \<open>Sumversion_State\<close> and
  \<open>Sumversion_Final\<close> the invariant of the updates and the padding. \<open>Sumversion_Files\<close> is the scan of the
  sources and of the files that list them; \<open>Sumversion_Properties\<close>, \<open>Sumversion_Checksum\<close> and
  \<open>Sumversion_Rcs\<close> say what text is summed, that layout does not matter, and what is left of a version.

  \<^bold>\<open>fixdep\<close> (\<open>basic/fixdep.c\<close>, every function). \<open>Fixdep\<close> is the code, with the hash table as lists by
  bucket; \<open>Fixdep_Names\<close> the options of a text as whole words and the table as a set of names;
  \<open>Fixdep_Properties\<close> the run as a pass over the tokens of the dependency file. \<open>Cmd_Files\<close> joins the two
  programs: \<open>sumversion.c\<close> reads back from what \<open>fixdep\<close> prints the source and the dependencies in the
  directory of the object, as long as no line has more than 4095 characters.

  \<^bold>\<open>Not modelled.\<close> The rest of \<open>kconfig\<close> (symbols, menus, configuration files, preprocessor: mutable
  graphs shared by all parts and file I/O; the interfaces: ncurses, GTK, Qt), the \<open>dtc\<close> compiler and its tools, the rest of \<open>modpost\<close> and the programs that patch ELF
  objects in mapped memory, \<open>genksyms\<close> (it needs the generated C parser), the ASN.1 compiler, the gcc
  plugins, programs around OpenSSL, converters of single files, and the kernel module demos, which
  only call kernel interfaces that are not in the repository. Messages on the error output are left
  out; memory allocation does not fail.
\<close>

end
